(* ===== verification/MM_Prelude.thy ===== *)
theory MM_Prelude
  imports Main "HOL-Library.Word"
begin

text \<open>
  Shared vocabulary of the development: the machine integers of the C code at their width, the
  ways a run of the code can go wrong, a result type with its sequencing operator, and the generic
  facts on words and lists that the component theories use through the collections below.
\<close>

unbundle bit_operations_syntax

section \<open>Collections\<close>

named_theorems word_unat \<open>rewriting of 64-bit operations to natural numbers\<close>
named_theorems bit_rules \<open>bitwise characterisations of the word operations of the code\<close>
named_theorems c_run \<open>equations that run the modelled C code\<close>

section \<open>Machine integers\<close>

type_synonym u64 = "64 word"
type_synonym u32 = "32 word"

text \<open>\<open>INVALID_VALUE\<close> of \<open>pagestat.c\<close> (line 23) and \<open>read-pageflags.h\<close> (line 6).\<close>

definition INVALID_VALUE :: u64 where
  "INVALID_VALUE = - 1"

text \<open>
  \<open>1UL << n\<close>. C leaves a shift by 64 or more undefined; every shift count of the code is a
  constant or an index below 64, and the lemmas that depend on the value of a shift say so.
\<close>

definition shl :: "u64 \<Rightarrow> u64 \<Rightarrow> u64" where
  "shl x n = push_bit (unat n) x"

section \<open>Failures and results\<close>

text \<open>
  What stops a run of the C code: an \<open>exit\<close> with a status, an \<open>abort\<close>, or one of the undefined
  behaviours the code does not guard against. The undefined behaviours are values of the model so
  that their absence is a theorem where it holds, and their presence is one where it does not.
\<close>

datatype cerr =
    BufferOverflow      \<comment> \<open>a write past the end of an array or of the memory of the process\<close>
  | OutOfBounds         \<comment> \<open>a read outside an array\<close>
  | NullDeref           \<comment> \<open>a null pointer is dereferenced or passed where C forbids it\<close>
  | IntOverflow         \<comment> \<open>a signed counter is incremented beyond the largest \<open>int\<close>\<close>
  | Abort
  | Exit int

definition sbind :: "cerr + 'a \<Rightarrow> ('a \<Rightarrow> cerr + 'b) \<Rightarrow> cerr + 'b" where
  "sbind m f = (case m of Inl e \<Rightarrow> Inl e | Inr x \<Rightarrow> f x)"

lemma sbind_Inl [simp, c_run]: "sbind (Inl e) f = Inl e"
  by (simp add: sbind_def)

lemma sbind_Inr [simp, c_run]: "sbind (Inr x) f = f x"
  by (simp add: sbind_def)

lemma sbind_eq_Inr_iff: "sbind m f = Inr y \<longleftrightarrow> (\<exists>x. m = Inr x \<and> f x = Inr y)"
  by (cases m) auto

lemma sbind_eq_InrE [elim]:
  assumes "sbind m f = Inr y"
  obtains x where "m = Inr x" "f x = Inr y"
  using assms by (auto simp: sbind_eq_Inr_iff)

text \<open>An array read: outside the array the model stops with \<open>OutOfBounds\<close>.\<close>

definition aget :: "'a list \<Rightarrow> nat \<Rightarrow> cerr + 'a" where
  "aget xs i = (if i < length xs then Inr (xs ! i) else Inl OutOfBounds)"

lemma aget_in [simp]: "i < length xs \<Longrightarrow> aget xs i = Inr (xs ! i)"
  by (simp add: aget_def)

text \<open>A pointer that may be null: following it is an error when it is.\<close>

definition deref :: "'a option \<Rightarrow> cerr + 'a" where
  "deref p = (case p of None \<Rightarrow> Inl NullDeref | Some x \<Rightarrow> Inr x)"

lemma deref_Some [simp, c_run]: "deref (Some x) = Inr x"
  by (simp add: deref_def)

lemma deref_None [simp, c_run]: "deref None = Inl NullDeref"
  by (simp add: deref_def)

section \<open>Facts on words\<close>

lemma unat_INVALID_VALUE [simp]: "unat INVALID_VALUE = 2 ^ 64 - 1"
  unfolding INVALID_VALUE_def by (simp only: unsigned_minus_1_eq_mask) (simp add: mask_eq_exp_minus_1)

lemma bit_INVALID_VALUE [bit_rules, simp]: "bit INVALID_VALUE n \<longleftrightarrow> n < 64"
  by (simp add: INVALID_VALUE_def)

lemma unat_lt64 [simp]: "unat (w :: u64) < 2 ^ 64"
  using unsigned_less [of w] by simp

lemma unat_lt_num [simp]: "unat (w :: u64) < 18446744073709551616"
  using unat_lt64 [of w] by simp

lemma unat_not_ge_num [simp]: "\<not> 18446744073709551616 \<le> unat (w :: u64)"
  by (simp add: not_le)

lemma bit_shl_one [bit_rules]: "bit (shl 1 n) i \<longleftrightarrow> i = unat n \<and> i < 64"
  by (auto simp: shl_def bit_simps)

lemma pow2_lt64: "k < 64 \<Longrightarrow> (2 :: nat) ^ k < 2 ^ 64"
  by (rule power_strict_increasing) simp_all

lemma unat_push1: "k < 64 \<Longrightarrow> unat (push_bit k 1 :: u64) = 2 ^ k"
  by (simp only: unsigned_push_bit_eq)
    (use pow2_lt64 [of k] in \<open>simp add: push_bit_eq_mult take_bit_eq_mod\<close>)

lemma unat_shl_one [word_unat]: "unat n < 64 \<Longrightarrow> unat (shl 1 n) = 2 ^ unat n"
  using unat_push1 [of "unat n"] by (simp add: shl_def)

lemma mask_u64: "k < 64 \<Longrightarrow> (2 ^ k - 1 :: u64) = mask k"
  by (simp add: mask_eq_exp_minus_1)

lemma unat_and_mask [word_unat]: "unat ((w :: u64) AND mask k) = unat w mod 2 ^ k"
  by (simp only: take_bit_eq_mask [symmetric] unsigned_take_bit_eq) (simp only: take_bit_eq_mod)

lemma u64_of_nat_unat_mod: "unat (of_nat n :: u64) = n mod 2 ^ 64"
  by (simp add: unat_of_nat)

text \<open>Testing one bit with a mask.\<close>

lemma and_single: "k < 64 \<Longrightarrow> w AND push_bit k 1 \<noteq> 0 \<longleftrightarrow> bit w k" for w :: u64
proof -
  assume k: "k < 64"
  have b: "bit (w AND push_bit k 1) j \<longleftrightarrow> bit w k \<and> j = k" for j using k by (auto simp: bit_simps)
  show ?thesis
  proof
    assume "w AND push_bit k 1 \<noteq> 0"
    then obtain j where "bit (w AND push_bit k 1) j" by (metis bit_eqI bit_0_eq bot_apply bot_bool_def)
    then show "bit w k" by (simp only: b)
  next
    assume "bit w k"
    then have "bit (w AND push_bit k 1) k" by (simp only: b simp_thms)
    then show "w AND push_bit k 1 \<noteq> 0" by auto
  qed
qed

end
