(* ===== verification/Bitwise.thy ===== *)
theory Bitwise
  imports MM_Prelude
begin

text \<open>
  The bit tricks of \<open>include/bitwise.h\<close>, which the allocator and the page tools rest on: each is
  translated as written, then characterised arithmetically or bit by bit.
\<close>

section \<open>The operations\<close>

definition align64 :: "u64 \<Rightarrow> u64 \<Rightarrow> u64" where
  "align64 value align_to = value AND NOT (align_to - 1)"

text \<open>The header selects \<open>ALIGN_UP_IMPL_2\<close>; the other branch is kept beside it.\<close>

definition align64_up :: "u64 \<Rightarrow> u64 \<Rightarrow> u64" where
  "align64_up value align_to = value + (- value AND (align_to - 1))"

definition align64_up_impl_1 :: "u64 \<Rightarrow> u64 \<Rightarrow> u64" where
  "align64_up_impl_1 value align_to = align64 (value + align_to - 1) align_to"

definition is_bit_set :: "u64 \<Rightarrow> u64 \<Rightarrow> bool" where
  "is_bit_set value b \<longleftrightarrow> value AND shl 1 b \<noteq> 0"

definition mask_high_bits :: "u64 \<Rightarrow> u64 \<Rightarrow> u64" where
  "mask_high_bits value b = value AND - shl 1 b"

definition clear_lowest_bit :: "u64 \<Rightarrow> u64" where
  "clear_lowest_bit value = (let lowest_bit_only = value AND - value in value - lowest_bit_only)"

definition share_highest_bit :: "u64 \<Rightarrow> u64 \<Rightarrow> bool" where
  "share_highest_bit a b \<longleftrightarrow> a XOR b \<le> b"

section \<open>Alignment\<close>

lemma align64_shifts: "k < 64 \<Longrightarrow> align64 v (2 ^ k) = push_bit k (drop_bit k v)"
  by (simp add: align64_def mask_u64 bit_eq_iff) (auto simp: bit_simps)

lemma align64_pow2:
  assumes "k < 64"
  shows "unat (align64 v (2 ^ k)) = unat v div 2 ^ k * 2 ^ k"
proof -
  have "unat v div 2 ^ k * 2 ^ k \<le> unat v" by simp
  then have "unat v div 2 ^ k * 2 ^ k < 2 ^ 64" using unat_lt64 [of v] by linarith
  then show ?thesis
    by (simp only: align64_shifts [OF assms] unsigned_push_bit_eq unsigned_drop_bit_eq)
      (simp add: push_bit_eq_mult take_bit_eq_mod drop_bit_eq_div)
qed

lemma uint_neg_and_mask:
  assumes "k < 64"
  shows "uint (- v AND (2 ^ k - 1) :: u64) = (- uint v) mod 2 ^ k"
proof -
  have "uint (- v AND (2 ^ k - 1) :: u64) = uint (take_bit k (- v))"
    using assms by (simp add: mask_u64 take_bit_eq_mask)
  also have "\<dots> = take_bit k (uint (- v))"
    by (simp only: unsigned_take_bit_eq)
  also have "\<dots> = (- uint v) mod 2 ^ 64 mod 2 ^ k"
    by (simp add: take_bit_eq_mod uint_word_ariths)
  also have "\<dots> = (- uint v) mod 2 ^ k"
    using assms by (intro mod_mod_cancel le_imp_power_dvd) simp
  finally show ?thesis .
qed

lemma align64_up_take:
  assumes "k < 64" shows "take_bit k (align64_up v (2 ^ k)) = 0"
proof -
  have "uint (take_bit k (align64_up v (2 ^ k))) = uint (align64_up v (2 ^ k)) mod 2 ^ k"
    by (simp only: unsigned_take_bit_eq) (simp only: take_bit_eq_mod)
  also have "\<dots> = (uint v + (- uint v) mod 2 ^ k) mod 2 ^ 64 mod 2 ^ k"
    unfolding align64_up_def by (simp add: uint_word_ariths(1) uint_neg_and_mask [OF assms])
  also have "\<dots> = (uint v + (- uint v) mod 2 ^ k) mod 2 ^ k"
    using assms by (intro mod_mod_cancel le_imp_power_dvd) simp
  also have "\<dots> = 0" by (simp add: mod_add_right_eq)
  finally show ?thesis by (simp only: uint_0_iff)
qed

lemma align64_up_least:
  assumes k: "k < 64" and v: "unat v + 2 ^ k \<le> 2 ^ 64"
  shows "2 ^ k dvd unat (align64_up v (2 ^ k)) \<and> unat v \<le> unat (align64_up v (2 ^ k))
     \<and> unat (align64_up v (2 ^ k)) < unat v + 2 ^ k"
proof -
  let ?d = "- v AND (2 ^ k - 1)"
  have "uint ?d < 2 ^ k" by (simp add: uint_neg_and_mask [OF k])
  then have d: "unat ?d < 2 ^ k"
    by (metis of_nat_less_iff of_nat_numeral of_nat_power uint_nat)
  have sum: "unat (align64_up v (2 ^ k)) = unat v + unat ?d"
    unfolding align64_up_def using d v by (intro unat_add_lem [THEN iffD1]) simp
  have "take_bit k (unat (align64_up v (2 ^ k))) = 0"
    using align64_up_take [OF k, of v] by (metis unsigned_0 unsigned_take_bit_eq)
  then show ?thesis using sum d by (simp add: take_bit_eq_mod dvd_eq_mod_eq_0)
qed

section \<open>Single bits\<close>

lemma sub_and: "(x::u64) - (x AND y) = x AND NOT y"
proof -
  have "(x AND y) + (x AND NOT y) = (x AND y) OR (x AND NOT y)"
    by (rule disjunctive_add_eq_or) (simp add: bit_eq_iff bit_simps)
  also have "\<dots> = x" by (auto simp: bit_eq_iff bit_simps)
  finally show ?thesis by (metis add_diff_cancel_left')
qed

lemma align64_up_impls_eq:
  assumes "k < 64" shows "align64_up v (2 ^ k) = align64_up_impl_1 v (2 ^ k)"
proof -
  let ?x = "align64_up v (2 ^ k)" and ?y = "mask k AND NOT (- v)"
  have x: "?x AND mask k = 0"
    using align64_up_take [OF assms] by (simp add: take_bit_eq_mask)
  have "v + 2 ^ k - 1 = ?x + (mask k - (mask k AND - v))"
    using assms by (simp add: align64_up_def mask_u64 and.commute)
  also have "\<dots> = ?x + ?y" by (simp only: sub_and)
  also have "\<dots> = ?x OR ?y"
    by (rule disjunctive_add_eq_or) (simp only: and.assoc [symmetric] x and_zero_eq zero_and_eq)
  finally have "align64_up_impl_1 v (2 ^ k) = (?x OR ?y) AND NOT (mask k)"
    using assms by (simp add: align64_up_impl_1_def align64_def mask_u64)
  also have "\<dots> = ?x AND NOT (mask k)" by (auto simp: bit_eq_iff bit_simps)
  also have "\<dots> = ?x" using x by (metis bit.conj_cancel_right sub_and diff_zero)
  finally show ?thesis by simp
qed

lemma is_bit_set_bit [bit_rules]: "is_bit_set v b \<longleftrightarrow> bit v (unat b)"
proof -
  have "v AND shl 1 b \<noteq> 0 \<longleftrightarrow> (\<exists>i. bit (v AND shl 1 b) i)"
    by (metis bit_0_eq bit_eqI bot_apply bot_bool_def)
  also have "\<dots> \<longleftrightarrow> bit v (unat b)"
    using bit_imp_le_length [of v "unat b"] by (auto simp: bit_simps bit_shl_one)
  finally show ?thesis by (simp add: is_bit_set_def)
qed

lemma shl_one_neg: "- shl 1 b = NOT (mask (unat b))"
  by (simp add: shl_def mask_eq_exp_minus_1 not_eq_complement)

lemma bit_mask_high_bits [bit_rules]: "bit (mask_high_bits v b) i \<longleftrightarrow> unat b \<le> i \<and> bit v i"
  using bit_imp_le_length [of v i]
  by (auto simp: mask_high_bits_def shl_one_neg bit_simps)

lemma clear_lowest_bit_alt: "clear_lowest_bit v = v AND (v - 1)"
  by (simp add: clear_lowest_bit_def sub_and not_eq_complement)

lemma clear_lowest_bit_bits:
  assumes "bit v l" "\<forall>i<l. \<not> bit v i"
  shows "clear_lowest_bit v = v AND NOT (2 ^ l)"
proof -
  have pow: "v AND 2 ^ l = 2 ^ l"
    using assms(1) bit_imp_le_length [OF assms(1)]
    by (intro bit_eqI) (auto simp: bit_and_iff bit_exp_iff)
  have "v - 1 = (v - (v AND 2 ^ l)) + (2 ^ l - 1)" by (simp add: pow)
  also have "\<dots> = (v AND NOT (2 ^ l)) + mask l" by (simp only: sub_and mask_eq_exp_minus_1)
  also have "\<dots> = (v AND NOT (2 ^ l)) OR mask l"
    using assms(2) by (intro disjunctive_add_eq_or bit_eqI) (auto simp: bit_and_iff bit_mask_iff)
  finally have "v AND (v - 1) = v AND ((v AND NOT (2 ^ l)) OR mask l)" by simp
  also have "\<dots> = v AND NOT (2 ^ l)"
    using assms(2) by (intro bit_eqI) (auto simp: bit_or_iff bit_and_iff bit_mask_iff)
  finally show ?thesis by (simp add: clear_lowest_bit_alt)
qed

section \<open>The highest bit\<close>

lemma high_bits_clear_iff: "(\<forall>m\<ge>k. \<not> bit (x::u64) m) \<longleftrightarrow> unat x < 2 ^ k"
proof -
  have "(\<forall>m\<ge>k. \<not> bit x m) \<longleftrightarrow> take_bit k (unat x) = unat x"
    by (auto simp: bit_eq_iff bit_take_bit_iff bit_unsigned_iff not_le [symmetric] dest: bit_imp_le_length)
  then show ?thesis by (simp add: take_bit_nat_eq_self_iff)
qed

lemma bit_le_unat: "bit (x::u64) n \<Longrightarrow> 2 ^ n \<le> unat x"
  using high_bits_clear_iff [of n x] by (meson le_refl linorder_not_less)

lemma highest_bit_obtain:
  assumes "(x::u64) \<noteq> 0"
  obtains n where "bit x n" "\<forall>m>n. \<not> bit x m"
proof -
  from assms obtain k where "bit x k" by (metis bit_eqI bit_0_eq bot_apply bot_bool_def)
  then have "\<exists>n. bit x n \<and> (\<forall>m. bit x m \<longrightarrow> m \<le> n)"
    using bit_imp_le_length [of x] by (intro ex_has_greatest_nat [where f = "\<lambda>i. i" and b = 64 and k = k]) auto
  then show ?thesis using that by (auto simp: not_less [symmetric])
qed

lemma share_highest_bit_iff:
  assumes "b \<le> a"
  shows "share_highest_bit a b \<longleftrightarrow> (a = 0 \<and> b = 0) \<or> (\<exists>n. bit a n \<and> bit b n \<and> (\<forall>m>n. \<not> bit a m \<and> \<not> bit b m))"
proof (cases "a = 0")
  case True
  then show ?thesis using assms by (simp add: share_highest_bit_def)
next
  case False
  then obtain n where n: "bit a n" "\<forall>m>n. \<not> bit a m" by (rule highest_bit_obtain)
  have la: "unat a < 2 ^ Suc n" using n high_bits_clear_iff [of "Suc n" a] by (simp add: Suc_le_eq)
  then have lb: "unat b < 2 ^ Suc n" using assms by (simp add: word_le_nat_alt)
  then have hb: "\<forall>m>n. \<not> bit b m" using high_bits_clear_iff [of "Suc n" b] by (simp add: Suc_le_eq)
  show ?thesis
  proof (cases "bit b n")
    case True
    have "\<forall>m\<ge>n. \<not> bit (a XOR b) m"
      using n hb True by (auto simp: bit_xor_iff le_eq_less_or_eq)
    then have "unat (a XOR b) < 2 ^ n" by (simp add: high_bits_clear_iff)
    also have "\<dots> \<le> unat b" using True by (rule bit_le_unat)
    finally have "share_highest_bit a b" by (simp add: share_highest_bit_def word_le_nat_alt)
    then show ?thesis using n hb True by blast
  next
    case b: False
    have "\<forall>m\<ge>n. \<not> bit b m" using hb b by (auto simp: le_eq_less_or_eq)
    then have "unat b < 2 ^ n" by (simp add: high_bits_clear_iff)
    also have "\<dots> \<le> unat (a XOR b)" using n b by (intro bit_le_unat) (simp add: bit_xor_iff)
    finally have "\<not> share_highest_bit a b" by (simp add: share_highest_bit_def word_le_nat_alt)
    moreover have "\<not> (\<exists>n. bit a n \<and> bit b n \<and> (\<forall>m>n. \<not> bit a m \<and> \<not> bit b m))"
      using n b hb by (metis linorder_neqE_nat)
    ultimately show ?thesis using False by simp
  qed
qed

section \<open>Properties\<close>

text \<open>Below the wrap-around, \<open>align64_up\<close> is the least multiple of the power of two that is not
  below the value: a multiple, not smaller, and less than one alignment step away.
\<close>

theorem align64_up_spec:
  assumes k: "k < 64" and v: "unat v + 2 ^ k \<le> 2 ^ 64"
  shows "2 ^ k dvd unat (align64_up v (2 ^ k)) \<and> unat v \<le> unat (align64_up v (2 ^ k))
     \<and> unat (align64_up v (2 ^ k)) < unat v + 2 ^ k"
  using assms by (rule align64_up_least)

theorem align64_up_spec_witness:
  "2 ^ 12 dvd unat (align64_up 4097 (2 ^ 12)) \<and> unat (4097::u64) \<le> unat (align64_up 4097 (2 ^ 12))
     \<and> unat (align64_up 4097 (2 ^ 12)) < unat (4097::u64) + 2 ^ 12"
  by (rule align64_up_spec) simp_all

text \<open>The two implementations of \<open>align64_up\<close> that the header offers agree on every value and every
  power of two, also where the sum wraps around.
\<close>

theorem align64_up_impls_agree:
  assumes "k < 64" shows "align64_up v (2 ^ k) = align64_up_impl_1 v (2 ^ k)"
  using assms by (rule align64_up_impls_eq)

theorem align64_up_impls_agree_witness:
  "align64_up (- 5) (2 ^ 4) = align64_up_impl_1 (- 5) (2 ^ 4) \<and> align64_up (- 5) (2 ^ 4) = 0"
  using align64_up_impls_agree [of 4 "- 5"] by (simp add: align64_up_def)

text \<open>\<open>share_highest_bit a b\<close> decides whether the two values have the same highest set bit, provided
  \<open>b\<close> is not above \<open>a\<close>, as in its only call (the allocator passes a size and a part of it).
\<close>

theorem share_highest_bit_ordered:
  assumes "b \<le> a"
  shows "share_highest_bit a b \<longleftrightarrow> (a = 0 \<and> b = 0) \<or> (\<exists>n. bit a n \<and> bit b n \<and> (\<forall>m>n. \<not> bit a m \<and> \<not> bit b m))"
  using assms by (rule share_highest_bit_iff)

theorem share_highest_bit_ordered_witness:
  "(4 :: u64) \<le> 6 \<and> share_highest_bit 6 4"
  using share_highest_bit_ordered [of 4 6] by (simp add: share_highest_bit_def)

text \<open>Without that order the test is wrong: \<open>0b0100\<close> and \<open>0b1100\<close> do not share their highest bit and
  the function says they do; and replacing \<open><= b\<close> by \<open><= a\<close>, which the comment calls equivalent,
  changes the answer on the same pair swapped.
\<close>

theorem share_highest_bit_unordered_wrong:
  "share_highest_bit 4 12 \<and> bit (12 :: u64) 3 \<and> \<not> bit (4 :: u64) 3
   \<and> \<not> share_highest_bit 12 4 \<and> (12 :: u64) XOR 4 \<le> 12"
  by (simp add: share_highest_bit_def)

end
