(* ===== verification/C_Lib.thy ===== *)
theory C_Lib
  imports MM_Prelude
begin

text \<open>
  The part of the C library the tools use: character classes, the numeral conversions of
  \<open>printf\<close> and \<open>sscanf\<close>, bounded string comparison, and a scanner for the conversion lists that
  occur in the sources. A C string is the list of its bytes up to the terminating null. The
  round trips between printing and scanning, which the parsers of the \<open>/proc\<close> files rely on, are
  proved here once.
\<close>

section \<open>Characters\<close>

definition chr_between :: "char \<Rightarrow> char \<Rightarrow> char \<Rightarrow> bool" where
  "chr_between lo hi c \<longleftrightarrow> (of_char lo :: nat) \<le> of_char c \<and> (of_char c :: nat) \<le> of_char hi"

definition is_space :: "char \<Rightarrow> bool" where
  "is_space c \<longleftrightarrow> c = CHR '' '' \<or> chr_between (CHR 0x09) (CHR 0x0D) c"

definition is_digit :: "char \<Rightarrow> bool" where
  "is_digit c \<longleftrightarrow> chr_between (CHR ''0'') (CHR ''9'') c"

section \<open>Printing numerals\<close>

definition digit_chr :: "nat \<Rightarrow> char" where
  "digit_chr d = (if d < 10 then char_of (48 + d) else char_of (87 + d))"

fun to_base :: "nat \<Rightarrow> nat \<Rightarrow> string" where
  "to_base b n =
     (if b < 2 \<or> n < b then [digit_chr n] else to_base b (n div b) @ [digit_chr (n mod b)])"

declare to_base.simps [simp del]

definition fmt_lu :: "u64 \<Rightarrow> string" where \<comment> \<open>\<open>%lu\<close>\<close>
  "fmt_lu w = to_base 10 (unat w)"

definition fmt_lx :: "u64 \<Rightarrow> string" where \<comment> \<open>\<open>%lx\<close>\<close>
  "fmt_lx w = to_base 16 (unat w)"

definition pad :: "char \<Rightarrow> nat \<Rightarrow> string \<Rightarrow> string" where
  "pad c n s = replicate (n - length s) c @ s"

definition fmt_016lx :: "u64 \<Rightarrow> string" where \<comment> \<open>\<open>%016lx\<close>\<close>
  "fmt_016lx w = pad (CHR ''0'') 16 (fmt_lx w)"

definition fmt_d :: "int \<Rightarrow> string" where \<comment> \<open>\<open>%d\<close>\<close>
  "fmt_d i = (if i < 0 then CHR ''-'' # to_base 10 (nat (- i)) else to_base 10 (nat i))"

definition fmt_p :: "u64 \<Rightarrow> string" where \<comment> \<open>\<open>%p\<close>, as glibc prints it\<close>
  "fmt_p w = (if w = 0 then ''(nil)'' else ''0x'' @ fmt_lx w)"

definition fmt_s :: "string option \<Rightarrow> string" where \<comment> \<open>\<open>%s\<close> with a pointer that may be null\<close>
  "fmt_s p = (case p of None \<Rightarrow> ''(null)'' | Some s \<Rightarrow> s)"

section \<open>Reading numerals\<close>

definition digit_val :: "char \<Rightarrow> nat" where
  "digit_val c = (let x = (of_char c :: nat) in if x \<le> 57 then x - 48 else x - 87)"

definition base_val :: "nat \<Rightarrow> string \<Rightarrow> nat" where
  "base_val b s = foldl (\<lambda>acc c. acc * b + digit_val c) 0 s"

text \<open>
  \<open>%lu\<close>: white space, an optional sign, decimal digits; out of range the largest value is stored,
  as \<open>strtoul\<close> does. \<open>None\<close> is a matching failure.
\<close>

definition scan_sign :: "string \<Rightarrow> bool \<times> string" where
  "scan_sign s = (case s of
      [] \<Rightarrow> (False, [])
    | c # r \<Rightarrow> if c = CHR ''-'' then (True, r) else if c = CHR ''+'' then (False, r) else (False, s))"

definition scan_lu :: "string \<Rightarrow> (u64 \<times> string) option" where
  "scan_lu s =
     (let (neg, r) = scan_sign (dropWhile is_space s);
          ds = takeWhile is_digit r;
          n = base_val 10 ds;
          v = (if n \<ge> 2 ^ 64 then - 1 else if neg then - of_nat n else of_nat n)
      in if ds = [] then None else Some (v, dropWhile is_digit r))"

text \<open>\<open>%s\<close>: white space, then the longest run of other characters.\<close>

definition not_space :: "char \<Rightarrow> bool" where
  "not_space c \<longleftrightarrow> \<not> is_space c"

definition scan_s :: "string \<Rightarrow> (string \<times> string) option" where
  "scan_s s =
     (let r = dropWhile is_space s; t = takeWhile not_space r
      in if t = [] then None else Some (t, dropWhile not_space r))"

text \<open>
  \<open>sscanf\<close> over a list of conversions. The white space between the conversions of the source's
  formats is skipped by the conversions themselves. A \<open>%s\<close> is unbounded in every format of the
  sources, so the size of the array it writes to is part of the conversion, and a token that does
  not fit (with its null) overflows the array. The result lists the values stored, one for each
  successful conversion, so its length is what \<open>sscanf\<close> returns (or 0 for \<open>EOF\<close>).
\<close>

datatype conv = CStr nat | CLu

datatype scan_val = VStr string | VLu u64

fun sscanf :: "conv list \<Rightarrow> string \<Rightarrow> cerr + scan_val list" where
  "sscanf [] s = Inr []"
| "sscanf (CStr n # cs) s =
     (case scan_s s of
        None \<Rightarrow> Inr []
      | Some (t, r) \<Rightarrow>
          if length t \<ge> n then Inl BufferOverflow
          else sbind (sscanf cs r) (\<lambda>vs. Inr (VStr t # vs)))"
| "sscanf (CLu # cs) s =
     (case scan_lu s of
        None \<Rightarrow> Inr []
      | Some (v, r) \<Rightarrow> sbind (sscanf cs r) (\<lambda>vs. Inr (VLu v # vs)))"

section \<open>Comparing strings\<close>

definition strcmp_eq :: "string \<Rightarrow> string \<Rightarrow> bool" where \<comment> \<open>\<open>strcmp(a, b) == 0\<close>\<close>
  "strcmp_eq a b \<longleftrightarrow> a = b"

definition strncmp_eq :: "string \<Rightarrow> string \<Rightarrow> nat \<Rightarrow> bool" where \<comment> \<open>\<open>strncmp(a, b, n) == 0\<close>\<close>
  "strncmp_eq a b n \<longleftrightarrow> take n a = take n b"

lemma strncmp_eq_all: "length a \<le> n \<Longrightarrow> length b \<le> n \<Longrightarrow> strncmp_eq a b n \<longleftrightarrow> a = b"
  by (simp add: strncmp_eq_def)

section \<open>Round trips\<close>

lemma digit_chr_cases:
  assumes "d < 16"
  shows "of_char (digit_chr d) = (if d < 10 then 48 + d else 87 + d)"
  using assms by (simp add: digit_chr_def)

lemma digit_val_chr [simp]: "d < 16 \<Longrightarrow> digit_val (digit_chr d) = d"
  by (simp add: digit_val_def digit_chr_cases)

lemma is_digit_chr [simp]: "d < 10 \<Longrightarrow> is_digit (digit_chr d)"
  by (simp add: is_digit_def chr_between_def digit_chr_cases)

lemma is_space_code:
  "is_space c \<longleftrightarrow> of_char c = (32 :: nat) \<or> (9 \<le> (of_char c :: nat) \<and> (of_char c :: nat) \<le> 13)"
  using of_char_eq_iff [where ?'a = nat and c = c and d = "CHR '' ''"]
  by (auto simp: is_space_def chr_between_def)

lemma not_is_space_chr [simp]: "d < 16 \<Longrightarrow> \<not> is_space (digit_chr d)"
  by (auto simp: is_space_code digit_chr_cases)

lemma base_val_snoc: "base_val b (s @ [c]) = base_val b s * b + digit_val c"
  by (simp add: base_val_def)

lemma to_base_nonempty [simp]: "to_base b n \<noteq> []"
  by (subst to_base.simps) simp

lemma to_base_set: "2 \<le> b \<Longrightarrow> set (to_base b n) \<subseteq> digit_chr ` {..<b}"
proof (induction b n rule: to_base.induct)
  case (1 b n)
  show ?case
  proof (cases "n < b")
    case True
    then show ?thesis by (subst to_base.simps) auto
  next
    case False
    then have "set (to_base b (n div b)) \<subseteq> digit_chr ` {..<b}" using 1 by simp
    moreover have "n mod b < b" using 1 by simp
    ultimately show ?thesis using 1 False by (subst to_base.simps) auto
  qed
qed

lemma base_val_to_base: "2 \<le> b \<Longrightarrow> b \<le> 16 \<Longrightarrow> base_val b (to_base b n) = n"
proof (induction b n rule: to_base.induct)
  case (1 b n)
  show ?case
  proof (cases "n < b")
    case True
    then show ?thesis using 1 by (subst to_base.simps) (simp add: base_val_def)
  next
    case False
    then have "base_val b (to_base b (n div b)) = n div b" using 1 by simp
    moreover have "n mod b < 16" using 1 by (intro order_less_le_trans [OF mod_less_divisor]) auto
    ultimately show ?thesis using 1 False
      by (subst to_base.simps) (simp add: base_val_snoc)
  qed
qed

lemma dec_digits: "c \<in> set (to_base 10 n) \<Longrightarrow> is_digit c"
  using to_base_set [of 10 n] by auto

lemma dec_not_space: "c \<in> set (to_base 10 n) \<Longrightarrow> \<not> is_space c"
  using to_base_set [of 10 n] by auto

lemma hex_not_space: "c \<in> set (to_base 16 n) \<Longrightarrow> \<not> is_space c"
  using to_base_set [of 16 n] by auto

lemma dropWhile_stop: "s = [] \<or> \<not> P (hd s) \<Longrightarrow> dropWhile P s = s"
  by (cases s) auto

lemma takeWhile_stop: "s = [] \<or> \<not> P (hd s) \<Longrightarrow> takeWhile P s = []"
  by (cases s) auto

lemma is_digit_not_sign: "is_digit c \<Longrightarrow> c \<noteq> CHR ''-'' \<and> c \<noteq> CHR ''+'' \<and> \<not> is_space c"
  by (auto simp: is_digit_def chr_between_def is_space_def)

lemma scan_sign_digit: "s \<noteq> [] \<Longrightarrow> is_digit (hd s) \<Longrightarrow> scan_sign s = (False, s)"
  using is_digit_not_sign [of "hd s"] by (cases s) (auto simp: scan_sign_def)

lemma scan_lu_spaces: "list_all is_space ws \<Longrightarrow> scan_lu (ws @ s) = scan_lu s"
  by (induction ws) (auto simp: scan_lu_def)

lemma scan_s_spaces: "list_all is_space ws \<Longrightarrow> scan_s (ws @ s) = scan_s s"
  by (induction ws) (auto simp: scan_s_def)

text \<open>Scanning what \<open>%lu\<close> printed gives the number back, with the text after it.\<close>

lemma scan_lu_fmt_lu:
  assumes "rest = [] \<or> \<not> is_digit (hd rest)"
  shows "scan_lu (fmt_lu w @ rest) = Some (w, rest)"
proof -
  let ?d = "to_base 10 (unat w)"
  have hd: "is_digit (hd ?d)" by (rule dec_digits [of _ "unat w"]) simp
  have sign: "scan_sign (dropWhile is_space (?d @ rest)) = (False, ?d @ rest)"
    using hd is_digit_not_sign [OF hd]
    by (subst dropWhile_stop) (auto simp: scan_sign_digit hd_append)
  have tk: "takeWhile is_digit (?d @ rest) = ?d"
    using assms by (subst takeWhile_append2) (auto dest: dec_digits simp: takeWhile_stop)
  have dr: "dropWhile is_digit (?d @ rest) = rest"
    using assms by (subst dropWhile_append2) (auto dest: dec_digits simp: dropWhile_stop)
  show ?thesis
    by (simp add: scan_lu_def fmt_lu_def sign tk dr base_val_to_base Let_def)
qed

text \<open>A token followed by white space or by the end is what \<open>%s\<close> reads.\<close>

lemma scan_s_token:
  assumes "t \<noteq> []" and "list_all not_space t" and "rest = [] \<or> is_space (hd rest)"
  shows "scan_s (t @ rest) = Some (t, rest)"
proof -
  have t: "\<And>c. c \<in> set t \<Longrightarrow> not_space c" using assms(2) by (simp add: list_all_iff)
  have "\<not> is_space (hd (t @ rest))" using assms(1) t [of "hd t"] by (simp add: not_space_def)
  then have sp: "dropWhile is_space (t @ rest) = t @ rest" by (subst dropWhile_stop) auto
  have "takeWhile not_space (t @ rest) = t" "dropWhile not_space (t @ rest) = rest"
    using assms(3) t by (auto simp: takeWhile_append2 dropWhile_append2 takeWhile_stop
        dropWhile_stop not_space_def)
  then show ?thesis using assms(1) by (simp add: scan_s_def sp)
qed

lemma fmt_lu_token [simp]: "fmt_lu w \<noteq> []" "list_all not_space (fmt_lu w)"
  by (simp_all add: fmt_lu_def list_all_iff not_space_def dec_not_space)

lemma fmt_lx_token [simp]: "fmt_lx w \<noteq> []" "list_all not_space (fmt_lx w)"
  by (simp_all add: fmt_lx_def list_all_iff not_space_def hex_not_space)

section \<open>Running the scanner\<close>

definition newline :: string where "newline = [CHR 0x0A]"

definition token :: "string \<Rightarrow> nat \<Rightarrow> bool" where
  "token t n \<longleftrightarrow> t \<noteq> [] \<and> list_all not_space t \<and> length t < n"

lemma spaces [simp]: "list_all is_space (replicate n (CHR '' ''))" "list_all is_space newline"
  "is_space (CHR '' '')" "is_space (CHR 0x0A)"
  by (simp_all add: list_all_iff newline_def is_space_code)

lemma scan_s_blank: "list_all is_space s \<Longrightarrow> scan_s s = None"
  using scan_s_spaces [of s "[]"] by (simp add: scan_s_def)

lemma scan_lu_blank: "list_all is_space s \<Longrightarrow> scan_lu s = None"
  using scan_lu_spaces [of s "[]"] by (simp add: scan_lu_def scan_sign_def)

lemma sscanf_blank: "list_all is_space s \<Longrightarrow> sscanf cs s = Inr []"
  by (cases "(cs, s)" rule: sscanf.cases) (auto simp: scan_s_blank scan_lu_blank)

declare sscanf.simps(2,3) [simp del]

lemma sscanf_space [simp]: "is_space c \<Longrightarrow> sscanf (d # cs) (c # s) = sscanf (d # cs) s"
  using scan_s_spaces [of "[c]" s] scan_lu_spaces [of "[c]" s]
  by (cases d) (simp_all add: sscanf.simps)

lemma sscanf_spaces [simp]: "sscanf (d # cs) (replicate n (CHR '' '') @ s) = sscanf (d # cs) s"
  by (induction n) simp_all

lemma sscanf_token:
  assumes "token t n" "rest = [] \<or> is_space (hd rest)"
  shows "sscanf (CStr n # cs) (t @ rest) = sbind (sscanf cs rest) (\<lambda>vs. Inr (VStr t # vs))"
  using assms by (simp add: token_def sscanf.simps scan_s_token)

lemma sscanf_num:
  assumes "rest = [] \<or> \<not> is_digit (hd rest)"
  shows "sscanf (CLu # cs) (fmt_lu w @ rest) = sbind (sscanf cs rest) (\<lambda>vs. Inr (VLu w # vs))"
  using assms by (simp add: sscanf.simps scan_lu_fmt_lu)

lemma not_digit_space [simp]: "\<not> is_digit (CHR '' '')" "\<not> is_digit (CHR 0x0A)"
  by (simp_all add: is_digit_def chr_between_def)

lemma to_base_length: "2 \<le> b \<Longrightarrow> n < b ^ k \<Longrightarrow> 0 < k \<Longrightarrow> length (to_base b n) \<le> k"
proof (induction b n arbitrary: k rule: to_base.induct)
  case (1 b n)
  show ?case
  proof (cases "n < b")
    case True
    then show ?thesis using 1 by (subst to_base.simps) simp
  next
    case False
    then obtain j where j: "k = Suc j" "0 < j" using 1 by (cases k; cases "k - 1") auto
    then have "n div b < b ^ j" using 1 by (simp add: less_mult_imp_div_less mult.commute)
    then have "length (to_base b (n div b)) \<le> j" using 1 False j by simp
    then show ?thesis using 1 False j by (subst to_base.simps) simp
  qed
qed

lemma length_fmt_lx: "length (fmt_lx w) \<le> 16"
  unfolding fmt_lx_def by (rule to_base_length) (simp_all)

end
