(* ===== verification/Maps_Parse.thy ===== *)
theory Maps_Parse
  imports C_Lib
begin

text \<open>
  The address parser of the \<open>/proc\<close> readers: \<open>parse_hex\<close> and \<open>extract_address_range\<close> of
  \<open>pagestat/pagestat.c\<close>. \<open>read-pageflags/read-pageflags.c\<close> holds a second copy of both, which
  \<open>Read_Pageflags\<close> translates on its own and shows to agree with these.
\<close>

section \<open>The operations\<close>

text \<open>\<open>parse_hex\<close>: the loop over the characters with its accumulator; the message on stderr is
  not modelled.\<close>

fun parse_hex_loop :: "u64 \<Rightarrow> string \<Rightarrow> u64" where
  "parse_hex_loop ret [] = ret"
| "parse_hex_loop ret (chr # str) =
     (let ret = push_bit 4 ret in
      if chr_between (CHR ''a'') (CHR ''f'') chr
      then parse_hex_loop (ret + (10 + of_char chr - of_char (CHR ''a''))) str
      else if chr_between (CHR ''A'') (CHR ''F'') chr
      then parse_hex_loop (ret + (10 + of_char chr - of_char (CHR ''A''))) str
      else if chr_between (CHR ''0'') (CHR ''9'') chr
      then parse_hex_loop (ret + (of_char chr - of_char (CHR ''0''))) str
      else INVALID_VALUE)"

declare parse_hex_loop.simps(2) [simp del]

definition parse_hex :: "string \<Rightarrow> u64" where
  "parse_hex str = parse_hex_loop 0 str"

text \<open>
  \<open>extract_address_range\<close>: the pointer loop stops at the first dash, which is overwritten by a
  null; \<open>None\<close> stands for the result \<open>false\<close>, which leaves the out parameters alone.
\<close>

definition not_dash :: "char \<Rightarrow> bool" where
  "not_dash c \<longleftrightarrow> c \<noteq> CHR ''-''"

definition extract_address_range :: "string \<Rightarrow> (u64 \<times> u64) option" where
  "extract_address_range str =
     (let before = takeWhile not_dash str; ptr = dropWhile not_dash str in
      if ptr = [] then None
      else let from = parse_hex before in
        if from = INVALID_VALUE then None
        else let to = parse_hex (tl ptr) in
          if to = INVALID_VALUE then None
          else Some (from, to))"

section \<open>What the parser computes\<close>

definition is_hex :: "char \<Rightarrow> bool" where
  "is_hex c \<longleftrightarrow> chr_between (CHR ''a'') (CHR ''f'') c \<or> chr_between (CHR ''A'') (CHR ''F'') c
     \<or> chr_between (CHR ''0'') (CHR ''9'') c"

definition hex_val :: "char \<Rightarrow> nat" where
  "hex_val c = (let x = (of_char c :: nat) in
     if x \<ge> 97 then x - 87 else if x \<ge> 65 then x - 55 else x - 48)"

definition hex_num :: "string \<Rightarrow> nat" where
  "hex_num s = foldl (\<lambda>acc c. 16 * acc + hex_val c) 0 s"

lemma of_char_word: "(of_char c :: u64) = of_nat (of_char c)"
  by (simp add: of_char_def)

lemma parse_hex_loop_step:
  assumes "is_hex c"
  shows "parse_hex_loop ret (c # s) = parse_hex_loop (16 * ret + of_nat (hex_val c)) s"
  using assms
  by (auto simp: parse_hex_loop.simps is_hex_def chr_between_def hex_val_def Let_def
      push_bit_eq_mult of_char_word mult.commute of_nat_diff)

lemma parse_hex_loop_all:
  "list_all is_hex s \<Longrightarrow>
     parse_hex_loop (of_nat n) s = of_nat (foldl (\<lambda>acc c. 16 * acc + hex_val c) n s)"
proof (induction s arbitrary: n)
  case Nil
  then show ?case by simp
next
  case (Cons c s)
  then have "parse_hex_loop (of_nat n) (c # s) = parse_hex_loop (of_nat (16 * n + hex_val c)) s"
    by (simp add: parse_hex_loop_step)
  also have "\<dots> = of_nat (foldl (\<lambda>acc c. 16 * acc + hex_val c) (16 * n + hex_val c) s)"
    using Cons by (intro Cons.IH) simp
  finally show ?case by simp
qed

lemma parse_hex_loop_bad:
  "\<not> list_all is_hex s \<Longrightarrow> parse_hex_loop n s = INVALID_VALUE"
proof (induction s arbitrary: n)
  case Nil
  then show ?case by simp
next
  case (Cons c s)
  show ?case
  proof (cases "is_hex c")
    case True
    with Cons show ?thesis by (simp add: parse_hex_loop_step)
  next
    case False
    then show ?thesis by (simp add: is_hex_def parse_hex_loop.simps)
  qed
qed

lemma parse_hex_eq:
  "parse_hex s = (if list_all is_hex s then of_nat (hex_num s) else INVALID_VALUE)"
  using parse_hex_loop_all [of s 0] parse_hex_loop_bad [of s 0]
  by (simp add: parse_hex_def hex_num_def)

lemma is_hex_chr: "d < 16 \<Longrightarrow> is_hex (digit_chr d) \<and> hex_val (digit_chr d) = d"
  by (simp add: is_hex_def hex_val_def chr_between_def digit_chr_cases)

lemma hex_num_base_val:
  "set s \<subseteq> digit_chr ` {..<16} \<Longrightarrow> hex_num s = base_val 16 s"
proof (induction s rule: rev_induct)
  case Nil
  then show ?case by (simp add: hex_num_def base_val_def)
next
  case (snoc c s)
  then show ?case by (auto simp: hex_num_def base_val_def is_hex_chr)
qed

lemma list_all_is_hex: "set s \<subseteq> digit_chr ` {..<16} \<Longrightarrow> list_all is_hex s"
  by (auto simp: list_all_iff is_hex_chr)

lemma hex_num_zeros [simp]: "hex_num (replicate n (CHR ''0'') @ s) = hex_num s"
  by (induction n) (simp_all add: hex_num_def hex_val_def)

lemma parse_hex_pad [simp]: "parse_hex (pad (CHR ''0'') n s) = parse_hex s"
  by (auto simp: parse_hex_eq pad_def list_all_iff is_hex_def chr_between_def)

lemma parse_hex_fmt [simp]: "parse_hex (fmt_lx w) = w"
proof -
  have "set (to_base 16 (unat w)) \<subseteq> digit_chr ` {..<16}" by (rule to_base_set) simp
  then show ?thesis
    by (simp add: parse_hex_eq fmt_lx_def list_all_is_hex hex_num_base_val base_val_to_base)
qed

lemma not_dash_hex: "c \<in> set (pad (CHR ''0'') n (fmt_lx w)) \<Longrightarrow> not_dash c"
proof -
  assume "c \<in> set (pad (CHR ''0'') n (fmt_lx w))"
  then consider "c = CHR ''0''" | d where "d < 16" "c = digit_chr d"
    using to_base_set [of 16 "unat w"] by (auto simp: pad_def fmt_lx_def)
  then show ?thesis
  proof cases
    case 2
    then show ?thesis using digit_chr_cases [of d] by (auto simp: not_dash_def split: if_splits)
  qed (simp add: not_dash_def)
qed

text \<open>An address range as \<open>/proc/pid/maps\<close> prints it is read back, unless a bound is the sentinel.\<close>

lemma extract_address_range_fmt:
  assumes "a \<noteq> INVALID_VALUE" "b \<noteq> INVALID_VALUE"
  shows "extract_address_range (pad (CHR ''0'') n (fmt_lx a) @ CHR ''-'' # pad (CHR ''0'') m (fmt_lx b))
     = Some (a, b)"
proof -
  let ?a = "pad (CHR ''0'') n (fmt_lx a)" and ?b = "pad (CHR ''0'') m (fmt_lx b)"
  have "takeWhile not_dash (?a @ CHR ''-'' # ?b) = ?a"
    "dropWhile not_dash (?a @ CHR ''-'' # ?b) = CHR ''-'' # ?b"
    using not_dash_hex [of _ n a] by (auto simp: takeWhile_append2 dropWhile_append2 not_dash_def)
  then show ?thesis using assms
    by (simp add: extract_address_range_def parse_hex_fmt)
qed

section \<open>Properties\<close>

text \<open>\<open>parse_hex\<close> on every string: the hexadecimal number, of either case, modulo \<open>2^64\<close> when all
  characters are hexadecimal digits, and \<open>INVALID_VALUE\<close> at the first character that is not.
\<close>

theorem parse_hex_value:
  "parse_hex s = (if list_all is_hex s then of_nat (hex_num s) else INVALID_VALUE)"
  by (rule parse_hex_eq)

text \<open>Printing a number with \<open>%lx\<close> and reading it back with \<open>parse_hex\<close> is the identity on all 64-bit
  values, so the sentinel \<open>INVALID_VALUE\<close> is read exactly for the text of \<open>2^64 - 1\<close>.
\<close>

theorem parse_hex_fmt_lx: "parse_hex (fmt_lx w) = w"
  by (rule parse_hex_fmt)

end
