(* ===== verification/Pagestat.thy ===== *)
theory Pagestat
  imports Maps_Parse
begin

text \<open>
  The snapshot half of \<open>pagestat/pagestat.c\<close>: reading \<open>/proc/pid/smaps\<close>, \<open>pagemap\<close>, \<open>kpagecount\<close>
  and \<open>kpageflags\<close> into a \<open>struct pagestat\<close>, and releasing it. The files are parameters (a record
  of functions from paths to contents). Every function threads two counters, the live heap blocks
  the code owns and the streams it has open, so that leaks are visible. Allocation is taken to
  succeed, as the code assumes; the buffer of \<open>getline\<close> that \<open>get_pagestat_snapshot\<close> frees again on
  every path is not counted; messages on stderr are not modelled.
\<close>

section \<open>State\<close>

text \<open>
  What the process sees of \<open>/proc\<close>: a text file is the list of its lines, each with its newline;
  a file of 64-bit entries answers a read of some number of entries at a byte offset with the
  entries it delivers. \<open>None\<close> is a file that cannot be opened.
\<close>

record procfs =
  text_file :: "string \<Rightarrow> string list option"
  u64_file :: "string \<Rightarrow> (u64 \<Rightarrow> u64 \<Rightarrow> u64 list) option"
  page_size :: u64

record io =
  live :: int
  streams :: int

definition malloc :: "io \<Rightarrow> io" where
  "malloc io = io\<lparr>live := live io + 1\<rparr>"

definition free :: "io \<Rightarrow> io" where
  "free io = io\<lparr>live := live io - 1\<rparr>"

definition fopened :: "io \<Rightarrow> io" where
  "fopened io = io\<lparr>streams := streams io + 1\<rparr>"

definition fclose :: "io \<Rightarrow> io" where
  "fclose io = io\<lparr>streams := streams io - 1\<rparr>"

text \<open>\<open>struct pagestat\<close> of \<open>pagestat.h\<close>; a pointer field that may be null is an option.\<close>

record pagestat =
  vma_start :: u64
  vma_end :: u64
  perms :: string
  offset :: u64
  name :: "string option"
  vm_size :: u64
  rss :: u64
  rss_counted :: bool
  referenced :: u64
  anon :: u64
  anon_huge :: u64
  swap :: u64
  locked :: u64
  vm_flags :: "string option"
  pagemaps :: "u64 list option"
  kpagecounts :: "u64 list option"
  kpageflags :: "u64 list option"

definition MAX_MAPS :: nat where
  "MAX_MAPS = 8192"

text \<open>A zeroed structure, as \<open>calloc\<close> returns it.\<close>

definition zero_pagestat :: pagestat where
  "zero_pagestat = \<lparr>vma_start = 0, vma_end = 0, perms = [], offset = 0, name = None, vm_size = 0,
     rss = 0, rss_counted = False, referenced = 0, anon = 0, anon_huge = 0, swap = 0, locked = 0,
     vm_flags = None, pagemaps = None, kpagecounts = None, kpageflags = None\<rparr>"

section \<open>Page map entries\<close>

definition BIT_MASK :: "nat \<Rightarrow> u64" where
  "BIT_MASK b = push_bit b 1"

definition BIT_MASK_LOWER :: "nat \<Rightarrow> u64" where
  "BIT_MASK_LOWER b = BIT_MASK b - 1"

definition CHECK_BIT :: "u64 \<Rightarrow> nat \<Rightarrow> bool" where
  "CHECK_BIT val b \<longleftrightarrow> val AND BIT_MASK b = BIT_MASK b"

definition PAGEMAP_SOFT_DIRTY_BIT :: nat where "PAGEMAP_SOFT_DIRTY_BIT = 55"
definition PAGEMAP_EXCLUSIVE_MAPPED_BIT :: nat where "PAGEMAP_EXCLUSIVE_MAPPED_BIT = 56"
definition PAGEMAP_UFFD_WP_BIT :: nat where "PAGEMAP_UFFD_WP_BIT = 57"
definition PAGEMAP_IS_FILE_BIT :: nat where "PAGEMAP_IS_FILE_BIT = 61"
definition PAGEMAP_SWAPPED_BIT :: nat where "PAGEMAP_SWAPPED_BIT = 62"
definition PAGEMAP_PRESENT_BIT :: nat where "PAGEMAP_PRESENT_BIT = 63"

definition PAGEMAP_PFN_MASK :: u64 where "PAGEMAP_PFN_MASK = BIT_MASK_LOWER 55"
definition PAGEMAP_SWAP_TYPE_NUM_BITS :: nat where "PAGEMAP_SWAP_TYPE_NUM_BITS = 5"
definition PAGEMAP_SWAP_TYPE_MASK :: u64 where "PAGEMAP_SWAP_TYPE_MASK = BIT_MASK_LOWER 5"
definition PAGEMAP_SWAP_OFFSET_MASK :: u64 where "PAGEMAP_SWAP_OFFSET_MASK = BIT_MASK_LOWER 50"

definition has_pfn :: "u64 \<Rightarrow> bool" where
  "has_pfn val \<longleftrightarrow> \<not> CHECK_BIT val PAGEMAP_SWAPPED_BIT \<and> CHECK_BIT val PAGEMAP_PRESENT_BIT"

definition get_pfn :: "u64 \<Rightarrow> u64" where
  "get_pfn val = (if \<not> has_pfn val then INVALID_VALUE else val AND PAGEMAP_PFN_MASK)"

section \<open>Parsing a block of smaps\<close>

text \<open>\<open>line[len-1] != ':'\<close> with \<open>len\<close> the length of the string; the empty string reads before the
  array.\<close>

definition is_smap_header_field :: "string \<Rightarrow> cerr + bool" where
  "is_smap_header_field line = (if line = [] then Inl OutOfBounds else Inr (last line \<noteq> CHR '':''))"

definition get_smap_header_fields ::
  "pagestat \<Rightarrow> string \<Rightarrow> io \<Rightarrow> cerr + (bool \<times> pagestat \<times> io)" where
  "get_smap_header_fields ms line io =
     sbind (sscanf [CStr 255, CStr 5, CStr 64, CStr 64, CLu, CStr 255] line) (\<lambda>vs.
       (case vs of
          VStr rng # VStr perms' # VStr offset' # VStr dev_num # VLu inode # rest \<Rightarrow>
            let ms = ms\<lparr>offset := parse_hex offset', perms := perms'\<rparr> in
            (case rest of
               VStr nm # _ \<Rightarrow> Inr (True, ms\<lparr>name := Some nm\<rparr>, malloc io)
             | _ \<Rightarrow> Inr (True, ms, io))
        | _ \<Rightarrow> Inr (False, ms, io)))"

text \<open>
  The locals \<open>key\<close>, \<open>size\<close> and \<open>unit\<close> of the loop body of \<open>get_smap_other_fields\<close> are not
  initialised, and \<open>sscanf\<close> stores only the conversions that succeed. The compiled loop keeps them
  in the same stack slots across iterations; the slots are explicit here, and their contents
  before the first line are a parameter.
\<close>

record slots =
  s_key :: string
  s_size :: u64
  s_unit :: string

fun store_slots :: "slots \<Rightarrow> scan_val list \<Rightarrow> slots" where
  "store_slots sl [VStr k] = sl\<lparr>s_key := k\<rparr>"
| "store_slots sl [VStr k, VLu n] = sl\<lparr>s_key := k, s_size := n\<rparr>"
| "store_slots sl [VStr k, VLu n, VStr u] = sl\<lparr>s_key := k, s_size := n, s_unit := u\<rparr>"
| "store_slots sl _ = sl"

text \<open>The counting loop over the tail of a \<open>VmFlags:\<close> line; \<open>offset\<close> is \<open>sizeof("VmFlags: ")\<close>,
  that is 10.\<close>

fun vm_flags_count :: "string \<Rightarrow> nat \<Rightarrow> nat" where
  "vm_flags_count line 0 = 0"
| "vm_flags_count line (Suc c) =
     (let chr = line ! (10 + Suc c - 1) in
      if chr \<noteq> CHR 0x0A \<and> chr \<noteq> CHR '' '' then Suc c else vm_flags_count line c)"

text \<open>The dispatch on the key of one line; \<open>None\<close> is the \<open>return false\<close> of an empty flag list.\<close>

definition smap_field :: "string \<Rightarrow> u64 \<Rightarrow> string \<Rightarrow> pagestat \<Rightarrow> io \<Rightarrow> (pagestat \<times> io) option" where
  "smap_field key sz line ms io =
     (if strncmp_eq key ''Size:'' 255 then Some (ms\<lparr>vm_size := sz\<rparr>, io)
      else if strncmp_eq key ''Rss:'' 255 then Some (ms\<lparr>rss := sz\<rparr>, io)
      else if strncmp_eq key ''Referenced:'' 255 then Some (ms\<lparr>referenced := sz\<rparr>, io)
      else if strncmp_eq key ''Anonymous:'' 255 then Some (ms\<lparr>anon := sz\<rparr>, io)
      else if strncmp_eq key ''AnonHugePages:'' 255 then Some (ms\<lparr>anon_huge := sz\<rparr>, io)
      else if strncmp_eq key ''Swap:'' 255 then Some (ms\<lparr>swap := sz\<rparr>, io)
      else if strncmp_eq key ''Locked:'' 255 then Some (ms\<lparr>locked := sz\<rparr>, io)
      else if strncmp_eq key ''VmFlags:'' 255 then
        (let count = vm_flags_count line (length line - 10) in
         if count = 0 then None
         else Some (ms\<lparr>vm_flags := Some (take (count + 1) (drop 9 line))\<rparr>, malloc io))
      else Some (ms, io))"

fun smap_other_loop ::
  "slots \<Rightarrow> pagestat \<Rightarrow> io \<Rightarrow> string list \<Rightarrow> cerr + (bool \<times> pagestat \<times> io \<times> string list)" where
  "smap_other_loop sl ms io [] = Inr (True, ms, io, [])"
| "smap_other_loop sl ms io (line # fp) =
     sbind (sscanf [CStr 255, CLu, CStr 16] line) (\<lambda>vs.
       let sl = store_slots sl vs in
       if \<not> strncmp_eq (s_unit sl) ''kB'' 255 then Inr (False, ms, io, fp)
       else sbind (is_smap_header_field (s_key sl)) (\<lambda>is_header.
         if is_header then Inr (True, ms, io, fp)
         else (case smap_field (s_key sl) (s_size sl) line ms io of
             None \<Rightarrow> Inr (False, ms, io, fp)
           | Some (ms, io) \<Rightarrow> smap_other_loop sl ms io fp)))"

declare smap_other_loop.simps(2) [simp del]

text \<open>
  The function passes its copy of \<open>line\<close> to \<open>getline\<close> with a capacity of 0, for which the C library
  allocates a new buffer. The caller still holds the old one and frees that; the new one is lost.
\<close>

definition get_smap_other_fields ::
  "slots \<Rightarrow> pagestat \<Rightarrow> io \<Rightarrow> string list \<Rightarrow> cerr + (bool \<times> pagestat \<times> io \<times> string list)" where
  "get_smap_other_fields sl ms io fp = smap_other_loop sl ms (malloc io) fp"

section \<open>Reading entries\<close>

text \<open>
  \<open>read_u64s\<close>: \<open>None\<close> is the result \<open>false\<close>. \<open>fseek\<close> takes the byte offset as a signed \<open>long\<close> and
  fails on a negative one; the read is short where the file ends.
\<close>

definition read_u64s :: "procfs \<Rightarrow> string \<Rightarrow> u64 \<Rightarrow> u64 \<Rightarrow> io \<Rightarrow> u64 list option \<times> io" where
  "read_u64s env path off count io =
     (case u64_file env path of
        None \<Rightarrow> (None, io)
      | Some contents \<Rightarrow>
          let io = fopened io in
          if sint (off * 8) < 0 then (None, fclose io)
          else let ws = contents (off * 8) count in
            if length ws \<noteq> unat count then (None, fclose io)
            else (Some ws, fclose io))"

definition read_u64 :: "procfs \<Rightarrow> string \<Rightarrow> u64 \<Rightarrow> io \<Rightarrow> u64 \<times> io" where
  "read_u64 env path off io =
     (case read_u64s env path off 1 io of
        (None, io) \<Rightarrow> (INVALID_VALUE, io)
      | (Some ws, io) \<Rightarrow> (hd ws, io))"

definition count_virt_pages :: "procfs \<Rightarrow> pagestat \<Rightarrow> u64" where
  "count_virt_pages env ps = vm_size ps * 1024 div page_size env"

fun count_pfns :: "u64 list \<Rightarrow> u64" where
  "count_pfns [] = 0"
| "count_pfns (entry # es) = (if has_pfn entry then 1 else 0) + count_pfns es"

definition tweak_counts :: "procfs \<Rightarrow> pagestat \<Rightarrow> u64 list \<Rightarrow> pagestat" where
  "tweak_counts env ps entries =
     (let pagecount = count_pfns entries;
          rss_kib = pagecount * page_size env div 1024 in
      if rss ps = rss_kib then ps
      else ps\<lparr>rss := rss_kib, rss_counted := True\<rparr>)"

text \<open>The path buffer is 512 bytes; the bound given to \<open>strncat\<close> limits each appended part, not the
  whole.\<close>

definition proc_path :: "string \<Rightarrow> string \<Rightarrow> cerr + string" where
  "proc_path pid file =
     (let path = ''/proc/'' @ take 511 pid @ file in
      if length path \<ge> 512 then Inl BufferOverflow else Inr path)"

text \<open>The loop over the entries, filling \<open>kpagecounts\<close> and \<open>kpageflags\<close>, which start zeroed.\<close>

fun fill_kpage_fields :: "procfs \<Rightarrow> u64 list \<Rightarrow> io \<Rightarrow> u64 list \<times> u64 list \<times> io" where
  "fill_kpage_fields env [] io = ([], [], io)"
| "fill_kpage_fields env (entry # es) io =
     (let pfn = get_pfn entry in
      if pfn = INVALID_VALUE
      then (case fill_kpage_fields env es io of (cs, fs, io) \<Rightarrow> (0 # cs, 0 # fs, io))
      else
        let (c, io) = read_u64 env ''/proc/kpagecount'' pfn io;
            (f, io) = read_u64 env ''/proc/kpageflags'' pfn io
        in (case fill_kpage_fields env es io of (cs, fs, io) \<Rightarrow> (c # cs, f # fs, io)))"

definition get_pagetable_fields ::
  "procfs \<Rightarrow> string \<Rightarrow> pagestat \<Rightarrow> io \<Rightarrow> cerr + (bool \<times> pagestat \<times> io)" where
  "get_pagetable_fields env pid ps io =
     (let count = count_virt_pages env ps;
          off = vma_start ps div page_size env;
          zeros = replicate (unat count) 0 in
      sbind (proc_path pid ''/pagemap'') (\<lambda>path.
        let ps = ps\<lparr>pagemaps := Some zeros, kpagecounts := Some zeros, kpageflags := Some zeros\<rparr>;
            io = malloc (malloc (malloc io)) in
        (case read_u64s env path off count io of
           (None, io) \<Rightarrow> Inr (False, ps, io)
         | (Some entries, io) \<Rightarrow>
             let (cs, fs, io) = fill_kpage_fields env entries io;
                 ps = ps\<lparr>pagemaps := Some entries, kpagecounts := Some cs, kpageflags := Some fs\<rparr>
             in Inr (True, tweak_counts env ps entries, io))))"

section \<open>Snapshots\<close>

definition free_ptr :: "'a option \<Rightarrow> io \<Rightarrow> io" where
  "free_ptr p io = (if p \<noteq> None then free io else io)"

definition pagestat_free :: "pagestat option \<Rightarrow> io \<Rightarrow> io" where
  "pagestat_free p io = (case p of
      None \<Rightarrow> io
    | Some ps \<Rightarrow>
        free (free_ptr (kpageflags ps) (free_ptr (kpagecounts ps) (free_ptr (pagemaps ps)
          (free_ptr (vm_flags ps) (free_ptr (name ps) io))))))"

text \<open>An array of snapshots is the list of its entries before the first null.\<close>

fun pagestat_free_all :: "pagestat list \<Rightarrow> io \<Rightarrow> io" where
  "pagestat_free_all [] io = io"
| "pagestat_free_all (ps # pss) io = pagestat_free_all pss (pagestat_free (Some ps) io)"

definition open_smaps :: "procfs \<Rightarrow> string \<Rightarrow> io \<Rightarrow> cerr + (string list option \<times> io)" where
  "open_smaps env pid io =
     sbind (proc_path pid ''/smaps'') (\<lambda>path.
       Inr (case text_file env path of None \<Rightarrow> (None, io) | Some ls \<Rightarrow> (Some ls, fopened io)))"

text \<open>
  The loop of \<open>get_pagestat_snapshot\<close> that looks for the header line. The token buffer keeps its
  contents when a line holds no token. The result is the header line with its range, if one is
  found, and the rest of the stream.
\<close>

fun find_smap_block ::
  "u64 \<Rightarrow> string \<Rightarrow> string list \<Rightarrow> cerr + ((string \<times> u64 \<times> u64) option \<times> string list)" where
  "find_smap_block vaddr buf [] = Inr (None, [])"
| "find_smap_block vaddr buf (line # fp) =
     sbind (sscanf [CStr 255] line) (\<lambda>vs.
       let buf = (case vs of VStr t # _ \<Rightarrow> t | _ \<Rightarrow> buf) in
       sbind (is_smap_header_field buf) (\<lambda>is_header.
         if \<not> is_header then find_smap_block vaddr buf fp
         else (case extract_address_range buf of
             None \<Rightarrow> Inr (None, fp)
           | Some (from, to) \<Rightarrow>
               if vaddr = INVALID_VALUE \<or> (vaddr \<ge> from \<and> vaddr < to)
               then Inr (Some (line, from, to), fp)
               else find_smap_block vaddr (takeWhile not_dash buf) fp)))"

text \<open>The contents of uninitialised locals, a parameter of every run.\<close>

record garbage =
  g_buf :: string
  g_slots :: slots

definition get_pagestat_snapshot ::
  "procfs \<Rightarrow> garbage \<Rightarrow> string list option \<Rightarrow> string \<Rightarrow> u64 \<Rightarrow> io
     \<Rightarrow> cerr + (pagestat option \<times> string list option \<times> io)" where
  "get_pagestat_snapshot env g fp pid vaddr io = (case fp of
      None \<Rightarrow> Inr (None, None, io)
    | Some ls \<Rightarrow>
        sbind (find_smap_block vaddr (g_buf g) ls) (\<lambda>(found, ls). case found of
            None \<Rightarrow> Inr (None, Some ls, io)
          | Some (line, from, to) \<Rightarrow>
              let ret = zero_pagestat\<lparr>vma_start := from, vma_end := to\<rparr>; io = malloc io in
              sbind (get_smap_header_fields ret line io) (\<lambda>(ok, ret, io).
                if \<not> ok then Inr (None, Some ls, pagestat_free (Some ret) io)
                else sbind (get_smap_other_fields (g_slots g) ret io ls) (\<lambda>(ok, ret, io, ls).
                  if \<not> ok then Inr (None, Some ls, pagestat_free (Some ret) io)
                  else sbind (get_pagetable_fields env pid ret io) (\<lambda>(ok, ret, io).
                    if \<not> ok then Inr (None, Some ls, pagestat_free (Some ret) io)
                    else Inr (Some ret, Some ls, io))))))"

text \<open>\<open>fclose\<close> of a null stream is undefined.\<close>

definition pagestat_snapshot_remote ::
  "procfs \<Rightarrow> garbage \<Rightarrow> string \<Rightarrow> u64 \<Rightarrow> io \<Rightarrow> cerr + (pagestat option \<times> io)" where
  "pagestat_snapshot_remote env g pid vaddr io =
     sbind (open_smaps env pid io) (\<lambda>(fp, io).
       sbind (get_pagestat_snapshot env g fp pid vaddr io) (\<lambda>(ret, _, io).
         case fp of None \<Rightarrow> Inl NullDeref | Some _ \<Rightarrow> Inr (ret, fclose io)))"

definition pagestat_snapshot ::
  "procfs \<Rightarrow> garbage \<Rightarrow> u64 \<Rightarrow> io \<Rightarrow> cerr + (pagestat option \<times> io)" where
  "pagestat_snapshot env g vaddr io =
     sbind (open_smaps env ''self'' io) (\<lambda>(fp, io).
       sbind (get_pagestat_snapshot env g fp ''self'' vaddr io) (\<lambda>(ret, _, io).
         case fp of None \<Rightarrow> Inl NullDeref | Some _ \<Rightarrow> Inr (ret, fclose io)))"

text \<open>
  The loop of \<open>pagestat_snapshot_all\<close> over the remaining slots of the array. \<open>Inr None\<close> is the
  null result after \<open>MAX_MAPS\<close> snapshots.
\<close>

fun snapshot_loop ::
  "nat \<Rightarrow> procfs \<Rightarrow> garbage \<Rightarrow> string list option \<Rightarrow> string \<Rightarrow> pagestat list \<Rightarrow> io
     \<Rightarrow> cerr + (pagestat list option \<times> io)" where
  "snapshot_loop 0 env g fp pid ret io = Inr (None, pagestat_free_all ret io)"
| "snapshot_loop (Suc n) env g fp pid ret io =
     sbind (get_pagestat_snapshot env g fp pid INVALID_VALUE io) (\<lambda>(ps, fp, io).
       case ps of
         None \<Rightarrow> Inr (Some ret, io)
       | Some ps \<Rightarrow> snapshot_loop n env g fp pid (ret @ [ps]) io)"

definition pagestat_snapshot_all ::
  "procfs \<Rightarrow> garbage \<Rightarrow> string \<Rightarrow> io \<Rightarrow> cerr + (pagestat list option \<times> io)" where
  "pagestat_snapshot_all env g pid io =
     sbind (open_smaps env pid io) (\<lambda>(fp, io).
       snapshot_loop MAX_MAPS env g fp pid [] (malloc io))"

end
