(* ===== verification/Pagestat_Correct.thy ===== *)
theory Pagestat_Correct
  imports Pagestat
begin

text \<open>
  Correctness of the snapshot functions of \<open>Pagestat\<close> on the files the kernel writes: a memory
  mapping and its lines in \<open>/proc/pid/smaps\<close>, and what the parser makes of them. The format of the
  lines is the specification side; the parser is the translated code.
\<close>

section \<open>Kernel format\<close>

text \<open>A name may contain blanks: \<open>v_name\<close> is its first word, \<open>v_rest\<close> what follows.\<close>

record vma =
  v_start :: u64
  v_end :: u64
  v_read :: bool
  v_write :: bool
  v_exec :: bool
  v_shared :: bool
  v_off :: u64
  v_dev :: string
  v_inode :: u64
  v_name :: "string option"
  v_rest :: string
  v_fields :: "(string \<times> u64 \<times> bool) list"
  v_flags :: string

definition v_perms :: "vma \<Rightarrow> string" where
  "v_perms v = [if v_read v then CHR ''r'' else CHR ''-'', if v_write v then CHR ''w'' else CHR ''-'',
     if v_exec v then CHR ''x'' else CHR ''-'', if v_shared v then CHR ''s'' else CHR ''p'']"

definition hex8 :: "u64 \<Rightarrow> string" where
  "hex8 w = pad (CHR ''0'') 8 (fmt_lx w)"

definition v_range :: "vma \<Rightarrow> string" where
  "v_range v = hex8 (v_start v) @ CHR ''-'' # hex8 (v_end v)"

text \<open>The name begins behind 73 columns, or two blanks after the inode; numbers end in column 24.\<close>

definition header_prefix :: "vma \<Rightarrow> string" where
  "header_prefix v = v_range v @ '' '' @ v_perms v @ '' '' @ hex8 (v_off v) @ '' '' @ v_dev v @ '' '' @ fmt_lu (v_inode v) @ '' ''"

definition header_line :: "vma \<Rightarrow> string" where
  "header_line v = header_prefix v
     @ (case v_name v of None \<Rightarrow> [] | Some n \<Rightarrow> replicate (Suc (72 - length (header_prefix v))) (CHR '' '') @ n @ v_rest v) @ newline"

definition field_line :: "string \<times> u64 \<times> bool \<Rightarrow> string" where
  "field_line f = (case f of (k, n, kb) \<Rightarrow>
     k @ '':'' @ replicate (Suc (22 - length k - length (fmt_lu n))) (CHR '' '') @ fmt_lu n @ (if kb then '' kB'' else []) @ newline)"

definition flags_line :: "vma \<Rightarrow> string" where
  "flags_line v = ''VmFlags: '' @ v_flags v @ '' '' @ newline"

definition body_lines :: "vma \<Rightarrow> string list" where
  "body_lines v = map field_line (v_fields v) @ [flags_line v]"

definition smaps_lines :: "vma list \<Rightarrow> string list" where
  "smaps_lines vs = concat (map (\<lambda>v. header_line v # body_lines v) vs)"

definition wf_field :: "string \<times> u64 \<times> bool \<Rightarrow> bool" where
  "wf_field f \<longleftrightarrow> token (fst f @ '':'') 255 \<and> fst f \<noteq> ''VmFlags''"

definition wf_vma :: "vma \<Rightarrow> bool" where
  "wf_vma v \<longleftrightarrow> v_start v \<noteq> INVALID_VALUE \<and> v_end v \<noteq> INVALID_VALUE \<and> token (v_dev v) 64
     \<and> (case v_name v of None \<Rightarrow> True | Some n \<Rightarrow> token n 255) \<and> (v_rest v = [] \<or> hd (v_rest v) = CHR '' '')
     \<and> list_all wf_field (v_fields v) \<and> v_fields v \<noteq> [] \<and> snd (snd (hd (v_fields v)))
     \<and> 2 \<le> length (v_flags v) \<and> chr_between (CHR ''a'') (CHR ''z'') (hd (v_flags v))
     \<and> last (v_flags v) \<noteq> CHR '' '' \<and> last (v_flags v) \<noteq> CHR 0x0A"

lemma not_space_zero [simp]: "not_space (CHR ''0'')"
  by (simp add: not_space_def is_space_code)

lemma hex8_props [simp]: "hex8 w \<noteq> []" "list_all not_space (hex8 w)"
  by (simp add: hex8_def pad_def) (simp add: hex8_def pad_def list_all_iff [where xs = "replicate _ _"])

lemma length_hex8: "length (hex8 w) \<le> 16"
  using length_fmt_lx [of w] by (simp add: hex8_def pad_def)

lemma token_range: "token (v_range v) 255"
proof -
  have "length (v_range v) < 255"
    using length_hex8 [of "v_start v"] length_hex8 [of "v_end v"] by (simp add: v_range_def)
  then show ?thesis by (simp add: token_def v_range_def not_space_def is_space_code)
qed

lemma token_perms: "token (v_perms v) 5"
  by (simp add: token_def v_perms_def not_space_def is_space_code)

lemma token_hex8: "token (hex8 w) 64"
  using length_hex8 [of w] by (simp add: token_def)

lemma sscanf_name:
  assumes "wf_vma v" "v_name v = Some n"
  shows "sscanf [CStr 255] (n @ v_rest v @ ''\<newline>'') = Inr [VStr n]"
proof -
  have "token n 255" "v_rest v @ ''\<newline>'' = [] \<or> is_space (hd (v_rest v @ ''\<newline>''))"
    using assms by (cases "v_rest v"; auto simp: wf_vma_def is_space_code)+
  then show ?thesis using sscanf_token [of n 255 "v_rest v @ ''\<newline>''" "[]"] by simp
qed

lemma header_scan:
  assumes "wf_vma v"
  shows "sscanf [CStr 255, CStr 5, CStr 64, CStr 64, CLu, CStr 255] (header_line v)
     = Inr ([VStr (v_range v), VStr (v_perms v), VStr (hex8 (v_off v)), VStr (v_dev v), VLu (v_inode v)]
         @ (case v_name v of None \<Rightarrow> [] | Some n \<Rightarrow> [VStr n]))"
  using assms token_range [of v] token_perms [of v] token_hex8 [of "v_off v"] sscanf_name [OF assms]
  by (auto simp: wf_vma_def header_line_def header_prefix_def sscanf_token sscanf_num sscanf_blank newline_def split: option.splits)

lemma header_first:
  "sscanf [CStr 255] (header_line v) = Inr [VStr (v_range v)]"
  using token_range [of v] by (simp add: header_line_def header_prefix_def sscanf_token)

lemma perms_not_lu: "sscanf (CLu # cs) (v_perms v @ '' '' @ s) = Inr []"
  by (simp add: v_perms_def sscanf.simps scan_lu_def scan_sign_def is_digit_def chr_between_def is_space_code)

lemma header_other: "sscanf [CStr 255, CLu, CStr 16] (header_line v) = Inr [VStr (v_range v)]"
  using token_range [of v] perms_not_lu [of "[CStr 16]" v]
  by (simp add: header_line_def header_prefix_def sscanf_token)

lemma field_scan:
  assumes "wf_field f"
  shows "sscanf [CStr 255, CLu, CStr 16] (field_line f)
     = Inr ([VStr (fst f @ '':''), VLu (fst (snd f))] @ (if snd (snd f) then [VStr ''kB''] else []))"
proof -
  obtain k n kb where f: "f = (k, n, kb)" by (cases f)
  have t: "token (k @ '':'') 255" using assms by (simp add: f wf_field_def)
  have k: "token ''kB'' 16" by (simp add: token_def not_space_def is_space_code)
  have "field_line f = (k @ '':'') @ replicate (Suc (22 - length k - length (fmt_lu n))) (CHR '' '') @ fmt_lu n @ (if kb then '' kB'' else []) @ newline"
    by (simp add: field_line_def f)
  then show ?thesis using t sscanf_token [OF k, of newline]
    by (simp add: f sscanf_token sscanf_num sscanf_blank newline_def del: append_assoc)
qed

lemma flags_scan:
  assumes "wf_vma v"
  shows "sscanf [CStr 255, CLu, CStr 16] (flags_line v) = Inr [VStr ''VmFlags:'']"
proof -
  have t: "token ''VmFlags:'' 255" by (simp add: token_def not_space_def is_space_code)
  obtain c r where c: "v_flags v = c # r" "chr_between (CHR ''a'') (CHR ''z'') c"
    using assms by (cases "v_flags v") (auto simp: wf_vma_def)
  have "sscanf [CLu, CStr 16] (c # s) = Inr []" for s
    using c(2) by (auto simp: sscanf.simps scan_lu_def scan_sign_def is_digit_def chr_between_def is_space_code)
  then show ?thesis
    using sscanf_token [OF t, of "CHR '' '' # v_flags v @ '' '' @ newline"] c
    by (simp add: flags_line_def)
qed

definition store_field :: "string \<times> u64 \<times> bool \<Rightarrow> pagestat \<Rightarrow> pagestat" where
  "store_field f ms = (case f of (k, n, _) \<Rightarrow>
     if k = ''Size'' then ms\<lparr>vm_size := n\<rparr>
     else if k = ''Rss'' then ms\<lparr>rss := n\<rparr>
     else if k = ''Referenced'' then ms\<lparr>referenced := n\<rparr>
     else if k = ''Anonymous'' then ms\<lparr>anon := n\<rparr>
     else if k = ''AnonHugePages'' then ms\<lparr>anon_huge := n\<rparr>
     else if k = ''Swap'' then ms\<lparr>swap := n\<rparr>
     else if k = ''Locked'' then ms\<lparr>locked := n\<rparr>
     else ms)"

lemma key_cmp:
  assumes "length k < 254" "length t < 254"
  shows "strncmp_eq (k @ '':'') (t @ '':'') 255 \<longleftrightarrow> k = t"
  using assms by (simp add: strncmp_eq_all)

lemmas key_cmps = key_cmp [where t = "''Size''", simplified] key_cmp [where t = "''Rss''", simplified]
  key_cmp [where t = "''Referenced''", simplified] key_cmp [where t = "''Anonymous''", simplified]
  key_cmp [where t = "''AnonHugePages''", simplified] key_cmp [where t = "''Swap''", simplified]
  key_cmp [where t = "''Locked''", simplified] key_cmp [where t = "''VmFlags''", simplified]


lemma other_step:
  assumes "sscanf [CStr 255, CLu, CStr 16] line = Inr vs" "s_unit (store_slots sl vs) = ''kB''"
    "is_smap_header_field (s_key (store_slots sl vs)) = Inr False"
    "smap_field (s_key (store_slots sl vs)) (s_size (store_slots sl vs)) line ms io = Some (ms', io')"
  shows "smap_other_loop sl ms io (line # fp) = smap_other_loop (store_slots sl vs) ms' io' fp"
  using assms by (simp add: smap_other_loop.simps strncmp_eq_def)

lemma smap_field_store:
  assumes "length k < 254" "k \<noteq> ''VmFlags''"
  shows "smap_field (k @ '':'') n line ms io = Some (store_field (k, n, b) ms, io)"
  using key_cmps [OF assms(1)] assms(2) by (simp add: smap_field_def store_field_def)

lemma other_field_step:
  assumes "wf_field f" and "snd (snd f) \<or> s_unit sl = ''kB''"
  obtains sl' where "s_unit sl' = ''kB''"
    "smap_other_loop sl ms io (field_line f # fp) = smap_other_loop sl' (store_field f ms) io fp"
proof -
  obtain k n kb where f: "f = (k, n, kb)" by (cases f)
  have k: "length k < 254" "k \<noteq> ''VmFlags''" using assms(1) by (auto simp: f wf_field_def token_def)
  let ?vs = "[VStr (k @ '':''), VLu n] @ (if kb then [VStr ''kB''] else [])"
  have sl: "s_unit (store_slots sl ?vs) = ''kB''" "s_key (store_slots sl ?vs) = k @ '':''" "s_size (store_slots sl ?vs) = n"
    using assms(2) by (auto simp: f)
  have "smap_field (k @ '':'') n (field_line f) ms io = Some (store_field f ms, io)"
    unfolding f by (rule smap_field_store [OF k])
  then have "smap_other_loop sl ms io (field_line f # fp)
      = smap_other_loop (store_slots sl ?vs) (store_field f ms) io fp"
    using field_scan [OF assms(1)] sl
    by (intro other_step) (simp_all add: f is_smap_header_field_def del: store_slots.simps)
  with sl(1) that show ?thesis by blast
qed

lemma other_fields_run:
  "list_all wf_field fs \<Longrightarrow> s_unit sl = ''kB'' \<Longrightarrow> \<exists>sl'. s_unit sl' = ''kB'' \<and>
    smap_other_loop sl ms io (map field_line fs @ r) = smap_other_loop sl' (fold store_field fs ms) io r"
proof (induction fs arbitrary: sl ms)
  case Nil
  then show ?case by auto
next
  case (Cons f fs)
  then obtain sl' where "s_unit sl' = ''kB''"
    "smap_other_loop sl ms io (field_line f # map field_line fs @ r)
       = smap_other_loop sl' (store_field f ms) io (map field_line fs @ r)"
    using other_field_step [of f sl ms io "map field_line fs @ r"] by auto
  with Cons.IH [of sl' "store_field f ms"] Cons.prems show ?case by simp
qed

lemma flags_count:
  assumes "2 \<le> length fl" "last fl \<noteq> CHR '' ''" "last fl \<noteq> CHR 0x0A" "length pre = 9"
  shows "vm_flags_count (pre @ fl @ '' '' @ newline) (length fl + 1) = length fl - 1"
proof -
  obtain m where m: "length fl = Suc (Suc m)" using assms(1) by (metis Suc_le_D numeral_2_eq_2 Suc_le_mono)
  let ?l = "pre @ fl @ '' '' @ newline"
  have "last fl = fl ! Suc m" using m by (subst last_conv_nth) auto
  then have a: "?l ! (10 + Suc (Suc m)) = CHR 0x0A" "?l ! (10 + Suc m) = CHR '' ''" "?l ! (10 + m) = last fl"
    using assms m by (simp_all add: nth_append newline_def)
  show ?thesis using a assms m by (simp add: Let_def)
qed

lemma flags_step:
  assumes "wf_vma v" "s_unit sl = ''kB''"
  obtains sl' where "s_unit sl' = ''kB''" "smap_other_loop sl ms io (flags_line v # fp)
     = smap_other_loop sl' (ms\<lparr>vm_flags := Some (v_flags v)\<rparr>) (malloc io) fp"
proof -
  let ?sl = "store_slots sl [VStr ''VmFlags:'']"
  have cnt: "vm_flags_count (flags_line v) (length (flags_line v) - 10) = length (v_flags v) - 1"
    using flags_count [of "v_flags v" "''VmFlags: ''"] assms(1)
    by (simp add: flags_line_def wf_vma_def newline_def)
  have F: "length (v_flags v) - 1 \<noteq> 0" "Suc (length (v_flags v) - 1) = length (v_flags v)"
    using assms(1) by (auto simp: wf_vma_def)
  have "take (length (v_flags v)) (drop 9 (flags_line v)) = v_flags v" by (simp add: flags_line_def)
  then have "smap_field (s_key ?sl) (s_size ?sl) (flags_line v) ms io
      = Some (ms\<lparr>vm_flags := Some (v_flags v)\<rparr>, malloc io)"
    using F by (simp add: smap_field_def strncmp_eq_def cnt Let_def)
  then have "smap_other_loop sl ms io (flags_line v # fp)
     = smap_other_loop ?sl (ms\<lparr>vm_flags := Some (v_flags v)\<rparr>) (malloc io) fp"
    using flags_scan [OF assms(1)] assms(2) by (intro other_step) (simp_all add: is_smap_header_field_def)
  moreover have "s_unit ?sl = ''kB''" using assms(2) by simp
  ultimately show ?thesis using that by blast
qed


lemma hex8_chars: "c \<in> set (hex8 w) \<Longrightarrow> \<exists>d<16. c = digit_chr d"
proof -
  assume "c \<in> set (hex8 w)"
  then have "c = CHR ''0'' \<or> c \<in> digit_chr ` {..<16}"
    using to_base_set [of 16 "unat w"] by (auto simp: hex8_def pad_def fmt_lx_def)
  moreover have "digit_chr 0 = CHR ''0''" by code_simp
  ultimately show ?thesis by (metis imageE lessThan_iff zero_less_numeral)
qed

lemma range_not_colon: "is_smap_header_field (v_range v) = Inr True"
proof -
  have "last (hex8 (v_end v)) \<in> set (hex8 (v_end v))" by (rule last_in_set) simp
  then obtain d where "d < 16" "last (hex8 (v_end v)) = digit_chr d" by (blast dest: hex8_chars)
  then have "last (hex8 (v_end v)) \<noteq> CHR '':''" using digit_chr_cases [of d] by (auto split: if_splits)
  then show ?thesis by (simp add: is_smap_header_field_def v_range_def)
qed

lemma header_stops:
  "s_unit sl = ''kB'' \<Longrightarrow> smap_other_loop sl ms io (header_line w # fp) = Inr (True, ms, io, fp)"
  by (simp add: smap_other_loop.simps header_other range_not_colon strncmp_eq_def)

definition header_of :: "vma \<Rightarrow> pagestat" where
  "header_of v = zero_pagestat\<lparr>vma_start := v_start v, vma_end := v_end v, offset := v_off v,
     perms := v_perms v, name := v_name v\<rparr>"

definition parsed :: "vma \<Rightarrow> pagestat" where
  "parsed v = (fold store_field (v_fields v) (header_of v))\<lparr>vm_flags := Some (v_flags v)\<rparr>"

definition name_block :: "vma \<Rightarrow> io \<Rightarrow> io" where
  "name_block v io = (if v_name v = None then io else malloc io)"

lemma header_parse:
  assumes "wf_vma v"
  shows "get_smap_header_fields (zero_pagestat\<lparr>vma_start := v_start v, vma_end := v_end v\<rparr>) (header_line v) io
     = Inr (True, header_of v, name_block v io)"
  using header_scan [OF assms]
  by (simp add: get_smap_header_fields_def header_of_def zero_pagestat_def name_block_def Let_def hex8_def split: option.splits)

definition at_header :: "string list \<Rightarrow> bool" where
  "at_header r \<longleftrightarrow> r = [] \<or> (\<exists>w r'. r = header_line w # r')"

lemma body_parse:
  assumes "wf_vma v" "at_header r"
  shows "smap_other_loop sl (header_of v) io (body_lines v @ r) = Inr (True, parsed v, malloc io, tl r)"
proof -
  obtain f fs where fs: "v_fields v = f # fs" "wf_field f" "snd (snd f)" "list_all wf_field fs"
    using assms(1) by (cases "v_fields v") (auto simp: wf_vma_def)
  let ?r = "flags_line v # r"
  obtain sl1 where 1: "s_unit sl1 = ''kB''"
    "smap_other_loop sl (header_of v) io (field_line f # map field_line fs @ ?r)
      = smap_other_loop sl1 (store_field f (header_of v)) io (map field_line fs @ ?r)"
    using other_field_step [of f sl "header_of v" io "map field_line fs @ ?r"] fs by auto
  obtain sl2 where 2: "s_unit sl2 = ''kB''"
    "smap_other_loop sl1 (store_field f (header_of v)) io (map field_line fs @ ?r)
      = smap_other_loop sl2 (fold store_field (v_fields v) (header_of v)) io ?r"
    using other_fields_run [OF fs(4) 1(1), of "store_field f (header_of v)" io ?r] fs(1) by auto
  obtain sl3 where 3: "s_unit sl3 = ''kB''"
    "smap_other_loop sl2 (fold store_field (v_fields v) (header_of v)) io ?r
      = smap_other_loop sl3 (parsed v) (malloc io) r"
    using flags_step [OF assms(1) 2(1)] by (metis parsed_def)
  have "smap_other_loop sl3 (parsed v) (malloc io) r = Inr (True, parsed v, malloc io, tl r)"
    using assms(2) header_stops [OF 3(1)] by (auto simp: at_header_def)
  then show ?thesis using 1 2 3 by (simp add: body_lines_def fs(1))
qed

declare find_smap_block.simps(2) [simp del]

lemma range_extract: "wf_vma v \<Longrightarrow> extract_address_range (v_range v) = Some (v_start v, v_end v)"
  using extract_address_range_fmt [of "v_start v" "v_end v" 8 8] by (simp add: v_range_def hex8_def wf_vma_def)

definition hit :: "u64 \<Rightarrow> vma \<Rightarrow> bool" where
  "hit vaddr v \<longleftrightarrow> vaddr = INVALID_VALUE \<or> (v_start v \<le> vaddr \<and> vaddr < v_end v)"

lemma find_header:
  assumes "wf_vma v" "hit vaddr v"
  shows "find_smap_block vaddr buf (header_line v # r) = Inr (Some (header_line v, v_start v, v_end v), r)"
  using assms by (auto simp: find_smap_block.simps hit_def header_first range_not_colon range_extract)

lemma find_other_header:
  assumes "wf_vma v" "\<not> hit vaddr v"
  shows "\<exists>buf'. find_smap_block vaddr buf (header_line v # r) = find_smap_block vaddr buf' r"
  using assms by (auto simp: find_smap_block.simps hit_def header_first range_not_colon range_extract)

lemma find_key_line:
  assumes "token (k @ '':'') 255" "rest = [] \<or> is_space (hd rest)"
  shows "find_smap_block vaddr buf ((k @ '':'' @ rest) # r) = find_smap_block vaddr (k @ '':'') r"
  using sscanf_token [OF assms, of "[]"] by (simp add: find_smap_block.simps is_smap_header_field_def)

lemma find_body: "list_all wf_field fs \<Longrightarrow> \<exists>buf'. find_smap_block vaddr buf (map field_line fs @ r) = find_smap_block vaddr buf' r"
proof (induction fs arbitrary: buf)
  case Nil
  then show ?case by auto
next
  case (Cons f fs)
  then have "token (fst f @ '':'') 255" by (simp add: wf_field_def)
  then have "find_smap_block vaddr buf (field_line f # map field_line fs @ r)
      = find_smap_block vaddr (fst f @ '':'') (map field_line fs @ r)"
    using find_key_line [of "fst f" "replicate (Suc (22 - length (fst f) - length (fmt_lu (fst (snd f))))) (CHR '' '') @ fmt_lu (fst (snd f)) @ (if snd (snd f) then '' kB'' else []) @ newline"]
    by (auto simp: field_line_def split: prod.split)
  then show ?case using Cons by auto
qed

lemma skip_body:
  assumes "wf_vma v"
  shows "\<exists>buf'. find_smap_block vaddr buf (body_lines v @ r) = find_smap_block vaddr buf' r"
proof -
  have "list_all wf_field (v_fields v)" using assms by (simp add: wf_vma_def)
  then obtain b where b: "find_smap_block vaddr buf (map field_line (v_fields v) @ flags_line v # r) = find_smap_block vaddr b (flags_line v # r)"
    using find_body by blast
  have "token (''VmFlags'' @ '':'') 255" by (simp add: token_def not_space_def is_space_code)
  then have "find_smap_block vaddr b (flags_line v # r) = find_smap_block vaddr ''VmFlags:'' r"
    using find_key_line [of "''VmFlags''" "CHR '' '' # v_flags v @ '' '' @ newline"] by (simp add: flags_line_def)
  with b show ?thesis by (auto simp: body_lines_def)
qed


section \<open>Reading entries\<close>

lemma fclose_fopened [simp]: "fclose (fopened io) = io"
  by (simp add: fclose_def fopened_def)

definition u64_entries :: "procfs \<Rightarrow> string \<Rightarrow> u64 \<Rightarrow> u64 \<Rightarrow> u64 list option" where
  "u64_entries env path off n = (case u64_file env path of
      None \<Rightarrow> None
    | Some f \<Rightarrow> if sint (off * 8) < 0 \<or> length (f (off * 8) n) \<noteq> unat n then None else Some (f (off * 8) n))"

definition u64_entry :: "procfs \<Rightarrow> string \<Rightarrow> u64 \<Rightarrow> u64" where
  "u64_entry env path off = (case u64_entries env path off 1 of None \<Rightarrow> INVALID_VALUE | Some ws \<Rightarrow> hd ws)"

lemma read_u64s_eq: "read_u64s env path off n io = (u64_entries env path off n, io)"
  by (simp add: read_u64s_def u64_entries_def Let_def split: option.splits)

lemma read_u64_eq: "read_u64 env path off io = (u64_entry env path off, io)"
  by (simp add: read_u64_def u64_entry_def read_u64s_eq split: option.splits)

definition kpage_entry :: "procfs \<Rightarrow> string \<Rightarrow> u64 \<Rightarrow> u64" where
  "kpage_entry env path e = (if get_pfn e = INVALID_VALUE then 0 else u64_entry env path (get_pfn e))"

lemma fill_kpage_fields_eq:
  "fill_kpage_fields env es io
     = (map (kpage_entry env ''/proc/kpagecount'') es, map (kpage_entry env ''/proc/kpageflags'') es, io)"
  by (induction es) (simp_all add: read_u64_eq kpage_entry_def Let_def)

definition with_pages :: "procfs \<Rightarrow> pagestat \<Rightarrow> u64 list \<Rightarrow> pagestat" where
  "with_pages env ps es = tweak_counts env (ps\<lparr>pagemaps := Some es,
     kpagecounts := Some (map (kpage_entry env ''/proc/kpagecount'') es),
     kpageflags := Some (map (kpage_entry env ''/proc/kpageflags'') es)\<rparr>) es"

definition block_count :: "'a option \<Rightarrow> int" where
  "block_count p = (if p = None then 0 else 1)"

definition blocks :: "pagestat \<Rightarrow> int" where
  "blocks ps = 1 + block_count (name ps) + block_count (vm_flags ps) + block_count (pagemaps ps)
     + block_count (kpagecounts ps) + block_count (kpageflags ps)"

lemma pagestat_free_eq: "pagestat_free (Some ps) io = io\<lparr>live := live io - blocks ps\<rparr>"
  by (simp add: pagestat_free_def free_ptr_def free_def blocks_def block_count_def)

lemma blocks_with_pages: "blocks (with_pages env ps es) = 4 + block_count (name ps) + block_count (vm_flags ps)"
  by (simp add: with_pages_def tweak_counts_def blocks_def block_count_def Let_def)

lemma get_pagetable_fields_eq:
  assumes "proc_path pid ''/pagemap'' = Inr path"
  shows "\<exists>ps'. blocks ps' = 4 + block_count (name ps) + block_count (vm_flags ps) \<and>
     get_pagetable_fields env pid ps io =
       (case u64_entries env path (vma_start ps div page_size env) (count_virt_pages env ps) of
          None \<Rightarrow> Inr (False, ps', io\<lparr>live := live io + 3\<rparr>)
        | Some es \<Rightarrow> Inr (True, with_pages env ps es, io\<lparr>live := live io + 3\<rparr>))"
  using assms
  by (intro exI [of _ "ps\<lparr>pagemaps := Some (replicate (unat (count_virt_pages env ps)) 0),
      kpagecounts := Some (replicate (unat (count_virt_pages env ps)) 0),
      kpageflags := Some (replicate (unat (count_virt_pages env ps)) 0)\<rparr>"])
    (simp add: get_pagetable_fields_def read_u64s_eq fill_kpage_fields_eq malloc_def with_pages_def blocks_def
      block_count_def Let_def split: option.splits)

lemma store_field_keeps [simp]: "vma_start (store_field f ms) = vma_start ms" "vma_end (store_field f ms) = vma_end ms"
   "name (store_field f ms) = name ms"
  by (simp_all add: store_field_def split: prod.splits)

lemma fold_store_field_keeps [simp]: "vma_start (fold store_field fs ms) = vma_start ms" "vma_end (fold store_field fs ms) = vma_end ms"
   "name (fold store_field fs ms) = name ms"
  by (induction fs arbitrary: ms) simp_all

lemma parsed_simps [simp]: "vma_start (parsed v) = v_start v" "vma_end (parsed v) = v_end v" "name (parsed v) = v_name v"
  "vm_flags (parsed v) = Some (v_flags v)"
  by (simp_all add: parsed_def header_of_def)

definition snapshot_of :: "procfs \<Rightarrow> string \<Rightarrow> vma \<Rightarrow> pagestat option" where
  "snapshot_of env path v = map_option (with_pages env (parsed v))
     (u64_entries env path (v_start v div page_size env) (count_virt_pages env (parsed v)))"

lemma snapshot_at:
  assumes wf: "wf_vma v" and r: "at_header r" and path: "proc_path pid ''/pagemap'' = Inr path"
    and find: "find_smap_block vaddr (g_buf g) ls = Inr (Some (header_line v, v_start v, v_end v), body_lines v @ r)"
  shows "get_pagestat_snapshot env g (Some ls) pid vaddr io = Inr (snapshot_of env path v, Some (tl r),
     io\<lparr>live := live io + 1 + (case snapshot_of env path v of None \<Rightarrow> 0 | Some ps \<Rightarrow> blocks ps)\<rparr>)"
proof -
  let ?io = "malloc (malloc (name_block v (malloc io)))"
  obtain ps' where ps': "blocks ps' = 4 + block_count (v_name v) + 1"
    "get_pagetable_fields env pid (parsed v) ?io =
       (case u64_entries env path (v_start v div page_size env) (count_virt_pages env (parsed v)) of
          None \<Rightarrow> Inr (False, ps', ?io\<lparr>live := live ?io + 3\<rparr>)
        | Some es \<Rightarrow> Inr (True, with_pages env (parsed v) es, ?io\<lparr>live := live ?io + 3\<rparr>))"
    using get_pagetable_fields_eq [OF path, of "parsed v" env ?io] by (auto simp: block_count_def)
  show ?thesis
    using find header_parse [OF wf, of "malloc io"] body_parse [OF wf r, of "g_slots g" "malloc (name_block v (malloc io))"] ps'
    by (simp add: get_pagestat_snapshot_def get_smap_other_fields_def snapshot_of_def Let_def pagestat_free_eq blocks_with_pages
        malloc_def name_block_def block_count_def split: option.splits)
qed

fun every_other :: "'a list \<Rightarrow> 'a list" where
  "every_other [] = []"
| "every_other [x] = [x]"
| "every_other (x # y # zs) = x # every_other zs"

lemma smaps_lines_simps [simp]: "smaps_lines [] = []" "smaps_lines (v # vs) = header_line v # body_lines v @ smaps_lines vs"
  by (simp_all add: smaps_lines_def)

lemma at_header_smaps [simp]: "at_header (smaps_lines vs)"
  by (cases vs) (auto simp: at_header_def)

lemma find_by_addr:
  "list_all wf_vma vs \<Longrightarrow> find_smap_block vaddr buf (smaps_lines vs) =
    (case dropWhile (\<lambda>v. \<not> hit vaddr v) vs of
       [] \<Rightarrow> Inr (None, [])
     | v # vs' \<Rightarrow> Inr (Some (header_line v, v_start v, v_end v), body_lines v @ smaps_lines vs'))"
proof (induction vs arbitrary: buf)
  case Nil
  then show ?case by simp
next
  case (Cons v vs)
  show ?case
  proof (cases "hit vaddr v")
    case True
    then show ?thesis using Cons.prems by (simp add: find_header)
  next
    case False
    then obtain b where b: "find_smap_block vaddr buf (smaps_lines (v # vs)) = find_smap_block vaddr b (body_lines v @ smaps_lines vs)"
      using find_other_header [of v vaddr buf "body_lines v @ smaps_lines vs"] Cons.prems by auto
    obtain b' where "find_smap_block vaddr b (body_lines v @ smaps_lines vs) = find_smap_block vaddr b' (smaps_lines vs)"
      using skip_body Cons.prems by (metis list.pred_inject(2))
    with b Cons False show ?thesis by simp
  qed
qed


lemma dropWhile_find: "List.find P xs = (case dropWhile (\<lambda>x. \<not> P x) xs of [] \<Rightarrow> None | x # _ \<Rightarrow> Some x)"
  by (induction xs) auto

text \<open>The buffer lost by \<open>get_smap_other_fields\<close>, once a mapping has been found.\<close>

definition lost :: "u64 \<Rightarrow> vma list \<Rightarrow> int" where
  "lost vaddr vs = (if List.find (hit vaddr) vs = None then 0 else 1)"

definition held :: "pagestat option \<Rightarrow> int" where
  "held p = (case p of None \<Rightarrow> 0 | Some ps \<Rightarrow> blocks ps)"

lemma snapshot_by_addr:
  assumes "list_all wf_vma vs" "proc_path pid ''/pagemap'' = Inr path"
  shows "\<exists>rest. get_pagestat_snapshot env g (Some (smaps_lines vs)) pid vaddr io =
     (let r = Option.bind (List.find (hit vaddr) vs) (snapshot_of env path) in
      Inr (r, rest, io\<lparr>live := live io + lost vaddr vs + held r\<rparr>))"
proof (cases "dropWhile (\<lambda>v. \<not> hit vaddr v) vs")
  case Nil
  then show ?thesis using find_by_addr [OF assms(1), of vaddr "g_buf g"]
    by (simp add: get_pagestat_snapshot_def dropWhile_find held_def lost_def del: dropWhile_eq_Nil_conv)
next
  case (Cons v vs')
  then have "v \<in> set vs" by (metis list.set_intros(1) set_dropWhileD)
  then have "wf_vma v" using assms(1) by (simp add: list_all_iff)
  then show ?thesis
    using snapshot_at [of v "smaps_lines vs'" pid path vaddr g "smaps_lines vs" env io]
      find_by_addr [OF assms(1), of vaddr "g_buf g"] assms(2) Cons
    by (simp add: dropWhile_find held_def lost_def Let_def)
qed

definition resume :: "vma list \<Rightarrow> string list" where
  "resume vs = (case vs of [] \<Rightarrow> [] | w # ws \<Rightarrow> body_lines w @ smaps_lines ws)"

lemma tl_smaps_lines: "tl (smaps_lines vs) = resume vs"
  by (cases vs) (simp_all add: resume_def)

lemma snapshot_next:
  assumes "list_all wf_vma (v # vs)" "proc_path pid ''/pagemap'' = Inr path"
    and "ls = smaps_lines (v # vs) \<or> (\<exists>w. wf_vma w \<and> ls = resume (w # v # vs))"
  shows "get_pagestat_snapshot env g (Some ls) pid INVALID_VALUE io =
     Inr (snapshot_of env path v, Some (resume vs), io\<lparr>live := live io + 1 + held (snapshot_of env path v)\<rparr>)"
proof -
  have "find_smap_block INVALID_VALUE (g_buf g) ls = Inr (Some (header_line v, v_start v, v_end v), body_lines v @ smaps_lines vs)"
    using assms(3)
  proof
    assume "ls = smaps_lines (v # vs)"
    then show ?thesis using assms(1) by (simp add: find_header hit_def)
  next
    assume "\<exists>w. wf_vma w \<and> ls = resume (w # v # vs)"
    then obtain w b where "find_smap_block INVALID_VALUE (g_buf g) ls = find_smap_block INVALID_VALUE b (smaps_lines (v # vs))"
      using skip_body [of _ INVALID_VALUE "g_buf g" "smaps_lines (v # vs)"] by (auto simp: resume_def)
    then show ?thesis using assms(1) by (simp add: find_header hit_def)
  qed
  then show ?thesis using snapshot_at [of v "smaps_lines vs" pid path] assms(1,2)
    by (simp add: held_def tl_smaps_lines)
qed

lemma snapshot_end:
  assumes "ls = [] \<or> (\<exists>w. wf_vma w \<and> ls = resume [w])"
  shows "\<exists>rest. get_pagestat_snapshot env g (Some ls) pid INVALID_VALUE io = Inr (None, rest, io)"
proof -
  have "find_smap_block INVALID_VALUE (g_buf g) ls = Inr (None, [])"
    using assms skip_body [of _ INVALID_VALUE "g_buf g" "[]"] by (auto simp: resume_def)
  then show ?thesis by (simp add: get_pagestat_snapshot_def)
qed

lemma snapshot_loop_every_other:
  assumes "list_all wf_vma vs" "proc_path pid ''/pagemap'' = Inr path"
    and "ls = smaps_lines vs \<or> (\<exists>w. wf_vma w \<and> ls = resume (w # vs))"
    and "\<forall>v\<in>set vs. snapshot_of env path v \<noteq> None" and "length (every_other vs) < n"
  shows "\<exists>io'. streams io' = streams io \<and>
     snapshot_loop n env g (Some ls) pid ret io = Inr (Some (ret @ map (the \<circ> snapshot_of env path) (every_other vs)), io')"
  using assms
proof (induction vs arbitrary: n ls ret io rule: every_other.induct)
  case 1
  then obtain m where "n = Suc m" by (cases n) auto
  then show ?case using snapshot_end [of ls env g pid io] 1 by auto
next
  case (2 v)
  then obtain m where n: "n = Suc (Suc m)" by (cases n; cases "n - 1") auto
  obtain ps where ps: "snapshot_of env path v = Some ps" using 2 by auto
  have "snapshot_loop n env g (Some ls) pid ret io
      = snapshot_loop (Suc m) env g (Some []) pid (ret @ [ps]) (io\<lparr>live := live io + 1 + blocks ps\<rparr>)"
    using snapshot_next [of v "[]" pid path ls env g io] 2 ps by (simp add: n held_def resume_def)
  then show ?case using snapshot_end [of "[]" env g pid "io\<lparr>live := live io + 1 + blocks ps\<rparr>"] ps by auto
next
  case (3 v w vs)
  then obtain m where n: "n = Suc m" "length (every_other vs) < m" by (cases n) auto
  obtain ps where ps: "snapshot_of env path v = Some ps" using 3 by auto
  have "snapshot_loop n env g (Some ls) pid ret io
      = snapshot_loop m env g (Some (resume (w # vs))) pid (ret @ [ps]) (io\<lparr>live := live io + 1 + blocks ps\<rparr>)"
    using snapshot_next [of v "w # vs" pid path ls env g io] 3 ps by (simp add: n held_def)
  moreover have "wf_vma w" "list_all wf_vma vs" "\<forall>v\<in>set vs. snapshot_of env path v \<noteq> None" using 3 by auto
  ultimately show ?case
    using "3.IH" [of "resume (w # vs)" m "io\<lparr>live := live io + 1 + blocks ps\<rparr>" "ret @ [ps]"] n 3(3) ps by auto
qed


section \<open>Fields\<close>

definition field_val :: "string \<Rightarrow> (string \<times> u64 \<times> bool) list \<Rightarrow> u64 \<Rightarrow> u64" where
  "field_val k fs n = fold (\<lambda>f acc. if fst f = k then fst (snd f) else acc) fs n"

lemma field_val_simps [simp]: "field_val k [] n = n"
  "field_val k (f # fs) n = field_val k fs (if fst f = k then fst (snd f) else n)"
  by (simp_all add: field_val_def)

lemma fold_store_field:
  "vm_size (fold store_field fs ms) = field_val ''Size'' fs (vm_size ms)"
  "rss (fold store_field fs ms) = field_val ''Rss'' fs (rss ms)"
  "referenced (fold store_field fs ms) = field_val ''Referenced'' fs (referenced ms)"
  "anon (fold store_field fs ms) = field_val ''Anonymous'' fs (anon ms)"
  "anon_huge (fold store_field fs ms) = field_val ''AnonHugePages'' fs (anon_huge ms)"
  "swap (fold store_field fs ms) = field_val ''Swap'' fs (swap ms)"
  "locked (fold store_field fs ms) = field_val ''Locked'' fs (locked ms)"
  "perms (fold store_field fs ms) = perms ms" "offset (fold store_field fs ms) = offset ms"
  "rss_counted (fold store_field fs ms) = rss_counted ms"
  by (induction fs arbitrary: ms) (simp_all add: store_field_def split: prod.splits)

lemma count_pfns_eq: "count_pfns es = of_nat (length (filter has_pfn es))"
  by (induction es) simp_all

lemma CHECK_BIT_bit:
  assumes "n < 64"
  shows "CHECK_BIT val n \<longleftrightarrow> bit val n"
proof -
  have "val AND push_bit n 1 = push_bit n 1 \<longleftrightarrow> (\<forall>i. i = n \<longrightarrow> bit val i)"
    using assms by (auto simp: bit_eq_iff [of "val AND _"] bit_and_iff bit_exp_iff)
  then show ?thesis by (simp add: CHECK_BIT_def BIT_MASK_def)
qed

lemma has_pfn_bits: "has_pfn val \<longleftrightarrow> bit val 63 \<and> \<not> bit val 62"
  by (auto simp: has_pfn_def CHECK_BIT_bit PAGEMAP_SWAPPED_BIT_def PAGEMAP_PRESENT_BIT_def)

lemma PFN_MASK_mask: "PAGEMAP_PFN_MASK = mask 55"
  by (simp add: PAGEMAP_PFN_MASK_def BIT_MASK_LOWER_def BIT_MASK_def mask_eq_exp_minus_1)

lemma get_pfn_cases:
  "has_pfn val \<Longrightarrow> unat (get_pfn val) = unat val mod 2 ^ 55" 
  "get_pfn val = INVALID_VALUE \<longleftrightarrow> \<not> has_pfn val"
proof -
  have u: "unat (val AND PAGEMAP_PFN_MASK) = unat val mod 2 ^ 55"
    by (simp only: PFN_MASK_mask unat_and_mask)
  then show 2: "has_pfn val \<Longrightarrow> unat (get_pfn val) = unat val mod 2 ^ 55" by (simp add: get_pfn_def)
  have "unat val mod 2 ^ 55 \<noteq> 2 ^ 64 - 1" using mod_less_divisor [of "2 ^ 55" "unat val"] by simp
  then have "has_pfn val \<Longrightarrow> get_pfn val \<noteq> INVALID_VALUE" using 2 unat_INVALID_VALUE by metis
  then show "get_pfn val = INVALID_VALUE \<longleftrightarrow> \<not> has_pfn val" by (auto simp: get_pfn_def)
qed

lemma snapshot_remote_eq:
  assumes "list_all wf_vma vs" "proc_path pid ''/pagemap'' = Inr path"
    "proc_path pid ''/smaps'' = Inr spath" "text_file env spath = Some (smaps_lines vs)"
  shows "pagestat_snapshot_remote env g pid vaddr io =
     (let r = Option.bind (List.find (hit vaddr) vs) (snapshot_of env path) in
      Inr (r, io\<lparr>live := live io + lost vaddr vs + held r\<rparr>))"
  using snapshot_by_addr [OF assms(1,2), of env g vaddr "fopened io"] assms(3,4)
  by (auto simp: pagestat_snapshot_remote_def open_smaps_def Let_def fclose_def fopened_def)

lemma pagestat_free_held: "pagestat_free r (io\<lparr>live := n + held r\<rparr>) = io\<lparr>live := n\<rparr>"
  by (cases r) (simp_all add: held_def pagestat_free_eq, simp_all add: pagestat_free_def)

lemma sscanf_overflow:
  assumes "list_all not_space t" "n \<le> length t" "0 < n" "rest = [] \<or> is_space (hd rest)"
  shows "sscanf (CStr n # cs) (t @ rest) = Inl BufferOverflow"
proof -
  have "t \<noteq> []" using assms(2,3) by auto
  then show ?thesis using assms by (simp add: sscanf.simps scan_s_token)
qed

lemma long_name_overflow:
  assumes "wf_vma v" "list_all not_space n" "255 \<le> length n"
  shows "get_smap_header_fields ms (header_line (v\<lparr>v_name := Some n\<rparr>)) io = Inl BufferOverflow"
proof -
  let ?v = "v\<lparr>v_name := Some n\<rparr>"
  have "v_rest v @ newline = [] \<or> is_space (hd (v_rest v @ newline))"
    using assms(1) by (cases "v_rest v") (auto simp: wf_vma_def newline_def is_space_code)
  from sscanf_overflow [OF assms(2,3) _ this, of "[]"]
  have "sscanf [CStr 255, CStr 5, CStr 64, CStr 64, CLu, CStr 255] (header_line ?v) = Inl BufferOverflow"
    using assms token_range [of ?v] token_perms [of ?v] token_hex8 [of "v_off v"]
    by (simp add: wf_vma_def header_line_def header_prefix_def sscanf_token sscanf_num sscanf_overflow newline_def)
  then show ?thesis by (simp add: get_smap_header_fields_def)
qed

lemma snapshot_all_run:
  assumes "list_all wf_vma vs" "proc_path pid ''/pagemap'' = Inr path"
    "proc_path pid ''/smaps'' = Inr spath" "text_file env spath = Some (smaps_lines vs)"
    "\<forall>v\<in>set vs. snapshot_of env path v \<noteq> None" "length (every_other vs) < MAX_MAPS"
  shows "\<exists>io'. pagestat_snapshot_all env g pid io = Inr (Some (map (the \<circ> snapshot_of env path) (every_other vs)), io')
     \<and> streams io' = streams io + 1"
  using snapshot_loop_every_other [OF assms(1,2) disjI1 [OF refl] assms(5,6), of "malloc (fopened io)" g "[]"] assms(3,4)
  by (auto simp: pagestat_snapshot_all_def open_smaps_def malloc_def fopened_def)

lemma snapshot_all_missing:
  assumes "proc_path pid ''/smaps'' = Inr spath" "text_file env spath = None"
  shows "pagestat_snapshot_all env g pid io = Inr (Some [], malloc io)"
  using assms by (simp add: pagestat_snapshot_all_def open_smaps_def get_pagestat_snapshot_def MAX_MAPS_def numeral_eq_Suc)

section \<open>A small process\<close>

text \<open>Three mappings of a process, each of whose pages has the frame 5.\<close>

definition demo_vma :: "u64 \<Rightarrow> u64 \<Rightarrow> string option \<Rightarrow> vma" where
  "demo_vma s e n = \<lparr>v_start = s, v_end = e, v_read = True, v_write = True, v_exec = False, v_shared = False,
     v_off = 0, v_dev = ''00:00'', v_inode = 0, v_name = n, v_rest = [],
     v_fields = [(''Size'', (e - s) div 1024, True), (''Rss'', 4, True), (''Referenced'', 12, True), (''Anonymous'', 16, True),
       (''AnonHugePages'', 20, True), (''Swap'', 24, True), (''Locked'', 28, True)], v_flags = ''rd wr mr''\<rparr>"

definition demo_vmas :: "vma list" where
  "demo_vmas = [demo_vma 0x1000 0x2000 None, demo_vma 0x2000 0x4000 (Some ''[heap]''), demo_vma 0x7000 0x8000 None]"

definition demo_env :: procfs where
  "demo_env = \<lparr>text_file = (\<lambda>p. if p = ''/proc/1/smaps'' then Some (smaps_lines demo_vmas) else None),
     u64_file = (\<lambda>p. if p = ''/proc/1/pagemap'' then Some (\<lambda>off n. replicate (unat n) (2 ^ 63 + 5)) else None),
     page_size = 0x1000\<rparr>"

definition demo_garbage :: garbage where
  "demo_garbage = \<lparr>g_buf = [], g_slots = \<lparr>s_key = [], s_size = 0, s_unit = []\<rparr>\<rparr>"

lemma wf_demo: "list_all wf_vma demo_vmas" by code_simp
lemma demo_paths: "proc_path ''1'' ''/pagemap'' = Inr ''/proc/1/pagemap''" "proc_path ''1'' ''/smaps'' = Inr ''/proc/1/smaps''"
  by code_simp+
lemma demo_smaps: "text_file demo_env ''/proc/1/smaps'' = Some (smaps_lines demo_vmas)"
  by (simp add: demo_env_def)
lemma demo_find: "List.find (hit 0x2100) demo_vmas = Some (demo_vma 0x2000 0x4000 (Some ''[heap]''))"
  by (simp add: demo_vmas_def demo_vma_def hit_def INVALID_VALUE_def)
lemma demo_entries: "u64_entries demo_env ''/proc/1/pagemap'' (v_start (demo_vma 0x2000 0x4000 (Some ''[heap]'')) div page_size demo_env)
   (field_val ''Size'' (v_fields (demo_vma 0x2000 0x4000 (Some ''[heap]''))) 0 * 1024 div page_size demo_env)
   = Some [2 ^ 63 + 5, 2 ^ 63 + 5]"
  by (simp add: u64_entries_def demo_env_def demo_vma_def) code_simp

lemma demo_has_pfn: "has_pfn 9223372036854775813" by code_simp
lemma demo_page_size: "page_size demo_env = 4096" by (simp add: demo_env_def)
lemma demo_snapshots: "\<forall>v\<in>set demo_vmas. snapshot_of demo_env ''/proc/1/pagemap'' v \<noteq> None"
  by (simp add: demo_vmas_def snapshot_of_def u64_entries_def demo_env_def demo_vma_def count_virt_pages_def parsed_def fold_store_field header_of_def zero_pagestat_def)

section \<open>Properties\<close>

text \<open>C4. \<open>pagestat_snapshot_remote\<close> on the files the kernel writes: the snapshot it returns for an address
  is the one of the mapping that holds the address, every field as the header, the key lines and the
  flag line give it, the name up to its first blank, the page map entries of all its pages, \<open>rss\<close> recounted from the pages that have a
  frame and marked as counted when that is not the value of the key line, the kernel's count and
  flags of each frame. Once \<open>pagestat_free\<close> has been called no stream is left open
  and one block is left allocated, the line buffer that \<open>get_smap_other_fields\<close> loses.\<close>

theorem snapshot_finds_vma:
  assumes "list_all wf_vma vs" "proc_path pid ''/pagemap'' = Inr path"
    "proc_path pid ''/smaps'' = Inr spath" "text_file env spath = Some (smaps_lines vs)"
    "List.find (hit vaddr) vs = Some v"
    "u64_entries env path (v_start v div page_size env) (field_val ''Size'' (v_fields v) 0 * 1024 div page_size env) = Some es"
  shows "\<exists>ps io'. pagestat_snapshot_remote env g pid vaddr io = Inr (Some ps, io')
     \<and> vma_start ps = v_start v \<and> vma_end ps = v_end v \<and> perms ps = v_perms v \<and> offset ps = v_off v
     \<and> name ps = v_name v \<and> vm_flags ps = Some (v_flags v)
     \<and> vm_size ps = field_val ''Size'' (v_fields v) 0 \<and> swap ps = field_val ''Swap'' (v_fields v) 0
     \<and> referenced ps = field_val ''Referenced'' (v_fields v) 0 \<and> anon ps = field_val ''Anonymous'' (v_fields v) 0
     \<and> anon_huge ps = field_val ''AnonHugePages'' (v_fields v) 0 \<and> locked ps = field_val ''Locked'' (v_fields v) 0
     \<and> pagemaps ps = Some es \<and> rss ps = of_nat (length (filter has_pfn es)) * page_size env div 1024
     \<and> rss_counted ps = (field_val ''Rss'' (v_fields v) 0 \<noteq> of_nat (length (filter has_pfn es)) * page_size env div 1024)
     \<and> kpagecounts ps = Some (map (kpage_entry env ''/proc/kpagecount'') es)
     \<and> kpageflags ps = Some (map (kpage_entry env ''/proc/kpageflags'') es)
     \<and> pagestat_free (Some ps) io' = io\<lparr>live := live io + 1\<rparr>"
proof -
  have "vm_size (parsed v) = field_val ''Size'' (v_fields v) 0"
    by (simp add: parsed_def fold_store_field header_of_def zero_pagestat_def)
  then have "snapshot_of env path v = Some (with_pages env (parsed v) es)"
    using assms(6) by (simp add: snapshot_of_def count_virt_pages_def)
  then have "pagestat_snapshot_remote env g pid vaddr io
      = Inr (Some (with_pages env (parsed v) es), io\<lparr>live := live io + 1 + held (Some (with_pages env (parsed v) es))\<rparr>)"
    using snapshot_remote_eq [OF assms(1-4), of g vaddr io] assms(5) by (simp add: Let_def lost_def)
  then show ?thesis
    by (simp add: pagestat_free_held)
     (simp add: with_pages_def tweak_counts_def count_pfns_eq parsed_def fold_store_field header_of_def zero_pagestat_def Let_def)
qed

theorem snapshot_finds_vma_witness:
  "\<exists>ps io'. pagestat_snapshot_remote demo_env demo_garbage ''1'' 0x2100 \<lparr>live = 0, streams = 0\<rparr> = Inr (Some ps, io')
     \<and> vma_start ps = 0x2000 \<and> name ps = Some ''[heap]'' \<and> vm_size ps = 8 \<and> rss ps = 8 \<and> pagemaps ps = Some [2 ^ 63 + 5, 2 ^ 63 + 5]"
  using snapshot_finds_vma [OF wf_demo demo_paths demo_smaps demo_find demo_entries, of demo_garbage "\<lparr>live = 0, streams = 0\<rparr>"]
  by (elim exE conjE, intro exI conjI) (assumption, simp_all add: demo_vma_def demo_has_pfn demo_page_size)

text \<open>C6. \<open>pagestat_snapshot_all\<close> returns the first, third, fifth mapping and so on: the loop that reads the
  key lines of a mapping consumes the header line of the next one. It also leaves its stream open.\<close>

theorem snapshot_all_every_other:
  assumes "list_all wf_vma vs" "proc_path pid ''/pagemap'' = Inr path"
    "proc_path pid ''/smaps'' = Inr spath" "text_file env spath = Some (smaps_lines vs)"
    "\<forall>v\<in>set vs. snapshot_of env path v \<noteq> None" "length (every_other vs) < MAX_MAPS"
  shows "\<exists>io'. pagestat_snapshot_all env g pid io = Inr (Some (map (the \<circ> snapshot_of env path) (every_other vs)), io')
     \<and> streams io' = streams io + 1"
  using assms by (rule snapshot_all_run)

theorem snapshot_all_every_other_witness:
  "\<exists>io'. pagestat_snapshot_all demo_env demo_garbage ''1'' \<lparr>live = 0, streams = 0\<rparr>
     = Inr (Some (map (the \<circ> snapshot_of demo_env ''/proc/1/pagemap'') [demo_vmas ! 0, demo_vmas ! 2]), io') \<and> streams io' = 1"
proof -
  have "every_other demo_vmas = [demo_vmas ! 0, demo_vmas ! 2]" by (simp add: demo_vmas_def)
  moreover have "length (every_other demo_vmas) < MAX_MAPS" by (simp add: demo_vmas_def MAX_MAPS_def)
  ultimately show ?thesis
    using snapshot_all_every_other [OF wf_demo demo_paths demo_smaps demo_snapshots, of demo_garbage "\<lparr>live = 0, streams = 0\<rparr>"]
    by auto
qed

text \<open>For a process whose smaps cannot be opened \<open>pagestat_snapshot_remote\<close> passes the null stream to
  \<open>fclose\<close>, while \<open>pagestat_snapshot_all\<close> returns an empty array that the caller owns.\<close>

theorem snapshot_missing_process:
  assumes "proc_path pid ''/smaps'' = Inr spath" "text_file env spath = None"
  shows "pagestat_snapshot_remote env g pid vaddr io = Inl NullDeref
    \<and> pagestat_snapshot_all env g pid io = Inr (Some [], malloc io)"
  using assms by (simp add: snapshot_all_missing pagestat_snapshot_remote_def open_smaps_def get_pagestat_snapshot_def)

theorem snapshot_missing_process_witness:
  "pagestat_snapshot_remote demo_env demo_garbage ''2'' 0x2100 \<lparr>live = 0, streams = 0\<rparr> = Inl NullDeref"
proof -
  have "proc_path ''2'' ''/smaps'' = Inr ''/proc/2/smaps''" by code_simp
  moreover have "text_file demo_env ''/proc/2/smaps'' = None" by (simp add: demo_env_def)
  ultimately show ?thesis
    using snapshot_missing_process [of "''2''" "''/proc/2/smaps''" demo_env demo_garbage "0x2100" "\<lparr>live = 0, streams = 0\<rparr>"] by simp
qed

text \<open>A mapped file whose path has 255 or more characters without white space makes
  \<open>get_smap_header_fields\<close> write past its buffer.\<close>

theorem long_path_overflows:
  assumes "wf_vma v" "list_all not_space n" "255 \<le> length n"
  shows "get_smap_header_fields ms (header_line (v\<lparr>v_name := Some n\<rparr>)) io = Inl BufferOverflow"
  using assms by (rule long_name_overflow)

theorem long_path_overflows_witness:
  "get_smap_header_fields zero_pagestat (header_line ((demo_vma 0x1000 0x2000 None)\<lparr>v_name := Some (replicate 255 (CHR ''0''))\<rparr>))
     \<lparr>live = 0, streams = 0\<rparr> = Inl BufferOverflow"
proof -
  have "wf_vma (demo_vma 0x1000 0x2000 None)" using wf_demo by (simp add: demo_vmas_def)
  then show ?thesis by (rule long_path_overflows) (simp_all add: list_all_iff)
qed

text \<open>A page map entry has a frame number exactly when it is present (bit 63) and not swapped (bit 62); the
  number is then its low 55 bits, and the sentinel \<open>INVALID_VALUE\<close> never collides with a frame.\<close>

theorem get_pfn_spec:
  "get_pfn val = (if bit val 63 \<and> \<not> bit val 62 then take_bit 55 val else INVALID_VALUE)
     \<and> (get_pfn val = INVALID_VALUE \<longleftrightarrow> \<not> (bit val 63 \<and> \<not> bit val 62))"
  using get_pfn_cases(2) by (auto simp: has_pfn_bits get_pfn_def PFN_MASK_mask take_bit_eq_mask)

end
