(* ===== verification/Pagestat_Print.thy ===== *)
theory Pagestat_Print
  imports Pagestat_Correct
begin

text \<open>
  The printing half of \<open>pagestat/pagestat.c\<close> and its two commands. The static variables
  \<open>last_seen_*\<close> and \<open>seen_map_count\<close>, which survive from call to call, are the state, together with
  the text written to stdout so far. The bit numbers that come from the kernel's
  \<open>linux/kernel-page-flags.h\<close> are a parameter, a function from the names of the flags; those that
  \<open>pagestat.c\<close> defines itself are definitions.
\<close>

section \<open>State\<close>

record printer =
  out :: string
  last_seen_map :: u64
  last_seen_pfn :: u64
  last_seen_addr :: u64
  last_seen_index :: u64
  seen_map_count :: u64

definition init_printer :: printer where
  "init_printer = \<lparr>out = [], last_seen_map = INVALID_VALUE, last_seen_pfn = 0, last_seen_addr = 0,
     last_seen_index = 0, seen_map_count = 0\<rparr>"

definition emit :: "string \<Rightarrow> printer \<Rightarrow> printer" where
  "emit s st = st\<lparr>out := out st @ s\<rparr>"

type_synonym kpf = "string \<Rightarrow> nat"

definition KPF_RESERVED :: nat where "KPF_RESERVED = 32"
definition KPF_MLOCKED :: nat where "KPF_MLOCKED = 33"
definition KPF_MAPPEDTODISK :: nat where "KPF_MAPPEDTODISK = 34"
definition KPF_PRIVATE :: nat where "KPF_PRIVATE = 35"
definition KPF_PRIVATE_2 :: nat where "KPF_PRIVATE_2 = 36"
definition KPF_OWNER_PRIVATE :: nat where "KPF_OWNER_PRIVATE = 37"
definition KPF_ARCH :: nat where "KPF_ARCH = 38"
definition KPF_UNCACHED :: nat where "KPF_UNCACHED = 39"
definition KPF_SOFTDIRTY :: nat where "KPF_SOFTDIRTY = 40"
definition KPF_ARCH_2 :: nat where "KPF_ARCH_2 = 41"

section \<open>One page\<close>

definition check_flag :: "u64 \<Rightarrow> nat \<Rightarrow> string \<Rightarrow> string" where
  "check_flag flags b nm = (if CHECK_BIT flags b then nm @ '' '' else [])"

definition print_kpageflags :: "kpf \<Rightarrow> u64 \<Rightarrow> string" where
  "print_kpageflags kpf flags =
     (let mapped_to_disk = CHECK_BIT flags KPF_MAPPEDTODISK;
          is_anon = CHECK_BIT flags (kpf ''ANON'');
          f = (\<lambda>(b, nm). check_flag flags b nm) in
      check_flag flags (kpf ''ANON'') ''Ano''
      @ (if mapped_to_disk \<and> is_anon then ''AnE '' else [])
      @ concat (map f [(kpf ''BUDDY'', ''Bud''), (kpf ''COMPOUND_HEAD'', ''CmH''),
          (kpf ''COMPOUND_TAIL'', ''CmT''), (kpf ''DIRTY'', ''Drt''), (kpf ''ERROR'', ''Err''),
          (kpf ''HUGE'', ''Hug''), (kpf ''HWPOISON'', ''xxH''), (kpf ''IDLE'', ''Idl''),
          (kpf ''KSM'', ''KSM''), (kpf ''LOCKED'', ''Lok''), (kpf ''LRU'', ''LRU'')])
      @ (if mapped_to_disk \<and> \<not> is_anon then ''Mdk '' else [])
      @ concat (map f [(kpf ''MMAP'', ''MMp''), (kpf ''NOPAGE'', ''NoP''), (kpf ''OFFLINE'', ''Off''),
          (kpf ''PGTABLE'', ''Tbl''), (kpf ''RECLAIM'', ''Rcm''), (kpf ''SLAB'', ''Slb''),
          (kpf ''SWAPBACKED'', ''SwB''), (kpf ''SWAPCACHE'', ''SwC''), (kpf ''THP'', ''THP''),
          (kpf ''UNEVICTABLE'', ''Une''), (kpf ''UPTODATE'', ''Upd''), (kpf ''WRITEBACK'', ''WrB''),
          (kpf ''ZERO_PAGE'', ''Zpg''), (KPF_RESERVED, ''Rsv''), (KPF_MLOCKED, ''Mlk''),
          (KPF_PRIVATE, ''Prv''), (KPF_PRIVATE_2, ''Pv2''), (KPF_OWNER_PRIVATE, ''OwP''),
          (KPF_ARCH, ''Ach''), (KPF_UNCACHED, ''Unc''), (KPF_SOFTDIRTY, ''DtS''), (KPF_ARCH_2, ''Ar2'')]))"

definition column :: "u64 \<Rightarrow> nat \<Rightarrow> string \<Rightarrow> string" where
  "column val b nm = (if CHECK_BIT val b then nm else ''   '')"

text \<open>\<open>do_print_mapping\<close>, as the text it writes, in the parts before the slash, for a frame, and whole; the arrays of the snapshot are read only for a page
  that has a frame.\<close>

definition frame_text :: "kpf \<Rightarrow> u64 \<Rightarrow> u64 \<Rightarrow> u64 \<Rightarrow> string" where
  "frame_text kpf pfn flags cnt =
     (if flags \<noteq> INVALID_VALUE then print_kpageflags kpf flags else [])
     @ ''/ '' @ fmt_lx pfn @ '' '' @ ''/ ''
     @ (if CHECK_BIT flags (kpf ''LRU'') then ''LRU '' else ''NON-LRU '')
     @ (if CHECK_BIT flags (kpf ''ACTIVE'') then ''ACTIVE '' else ''INACTIVE '')
     @ (if CHECK_BIT flags (kpf ''REFERENCED'') then ''REF '' else [])
     @ (if cnt \<noteq> INVALID_VALUE then ''/ '' @ fmt_lu cnt else [])"

definition mapping_columns :: "u64 \<Rightarrow> u64 \<Rightarrow> string" where
  "mapping_columns addr val =
     (if addr \<noteq> INVALID_VALUE then fmt_016lx addr @ '': '' else [])
     @ column val PAGEMAP_SOFT_DIRTY_BIT ''Ds '' @ column val PAGEMAP_EXCLUSIVE_MAPPED_BIT ''Xm ''
     @ column val PAGEMAP_UFFD_WP_BIT ''Uw '' @ column val PAGEMAP_IS_FILE_BIT ''Fl ''
     @ column val PAGEMAP_SWAPPED_BIT ''Sw '' @ column val PAGEMAP_PRESENT_BIT ''Pr ''
     @ (if CHECK_BIT val PAGEMAP_SWAPPED_BIT \<or> get_pfn val \<noteq> INVALID_VALUE then ''/ '' else [])"

definition do_print_mapping :: "kpf \<Rightarrow> u64 \<Rightarrow> pagestat \<Rightarrow> u64 \<Rightarrow> u64 \<Rightarrow> cerr + string" where
  "do_print_mapping kpf addr ps index val =
     (let pfn = get_pfn val;
          have_pfn = (pfn \<noteq> INVALID_VALUE);
          swapped = CHECK_BIT val PAGEMAP_SWAPPED_BIT in
      if swapped then
        let off = drop_bit PAGEMAP_SWAP_TYPE_NUM_BITS val in
        Inr (mapping_columns addr val @ ''swap_type=['' @ fmt_lx (val AND PAGEMAP_SWAP_TYPE_MASK) @ ''] ''
          @ ''swap_offset=['' @ fmt_lx (off AND PAGEMAP_SWAP_OFFSET_MASK) @ ''] '' @ newline)
      else if have_pfn then
        sbind (sbind (deref (kpageflags ps)) (\<lambda>fs. aget fs (unat index))) (\<lambda>flags.
        sbind (sbind (deref (kpagecounts ps)) (\<lambda>cs. aget cs (unat index))) (\<lambda>cnt.
          Inr (mapping_columns addr val @ frame_text kpf pfn flags cnt @ newline)))
      else Inr (mapping_columns addr val @ newline))"

section \<open>Abbreviation of repeated pages\<close>

definition print_abbrev :: "kpf \<Rightarrow> pagestat \<Rightarrow> printer \<Rightarrow> cerr + printer" where
  "print_abbrev kpf ps st =
     (if last_seen_map st = INVALID_VALUE then Inr st
      else if seen_map_count st > 2 then
        Inr (emit (fmt_016lx (last_seen_addr st) @ '': ('' @ fmt_lu (seen_map_count st - 1)
          @ '' more repetitions of above)'' @ newline) st)
      else if seen_map_count st = 2 then
        sbind (do_print_mapping kpf (last_seen_addr st) ps (last_seen_index st)
            (if last_seen_pfn st = INVALID_VALUE then last_seen_map st
             else last_seen_map st OR last_seen_pfn st)) (\<lambda>s. Inr (emit s st))
      else Inr st)"

definition is_new_val :: "printer \<Rightarrow> u64 \<Rightarrow> bool" where
  "is_new_val st val \<longleftrightarrow> val AND NOT PAGEMAP_PFN_MASK \<noteq> last_seen_map st
     \<or> (get_pfn val \<noteq> last_seen_pfn st \<and> get_pfn val \<noteq> last_seen_pfn st + 1)"

definition note_mapping :: "u64 \<Rightarrow> u64 \<Rightarrow> u64 \<Rightarrow> printer \<Rightarrow> printer" where
  "note_mapping addr index val st = st\<lparr>last_seen_map := val AND NOT PAGEMAP_PFN_MASK,
     last_seen_pfn := get_pfn val, last_seen_addr := addr, last_seen_index := index,
     seen_map_count := seen_map_count st + 1\<rparr>"

definition print_mapping :: "kpf \<Rightarrow> u64 \<Rightarrow> pagestat \<Rightarrow> u64 \<Rightarrow> bool \<Rightarrow> printer \<Rightarrow> cerr + printer" where
  "print_mapping kpf addr ps index abbrev st =
     sbind (sbind (deref (pagemaps ps)) (\<lambda>es. aget es (unat index))) (\<lambda>val.
       let new_val = is_new_val st val in
       sbind (if abbrev \<and> new_val
              then sbind (print_abbrev kpf ps st) (\<lambda>st. Inr (st\<lparr>seen_map_count := 0\<rparr>))
              else Inr st) (\<lambda>st.
         let st = note_mapping addr index val st in
         if abbrev \<and> \<not> new_val then Inr st
         else sbind (do_print_mapping kpf addr ps index val) (\<lambda>s. Inr (emit s st))))"

definition print_mapping_terminate :: "kpf \<Rightarrow> pagestat \<Rightarrow> printer \<Rightarrow> cerr + printer" where
  "print_mapping_terminate kpf ps st =
     sbind (print_abbrev kpf ps st) (\<lambda>st.
       Inr (st\<lparr>last_seen_map := INVALID_VALUE, last_seen_index := 0, last_seen_pfn := 0, seen_map_count := 0\<rparr>))"

section \<open>One snapshot\<close>

definition do_print_name :: "string \<Rightarrow> string" where
  "do_print_name nm = ''----==== '' @ nm @ '' ====---- '' @ newline @ newline"

definition print_name :: "pagestat \<Rightarrow> string" where
  "print_name ps = (case name ps of None \<Rightarrow> do_print_name ''(anon)'' | Some nm \<Rightarrow> do_print_name nm)"

definition counted :: "pagestat \<Rightarrow> string" where
  "counted ps = (if rss_counted ps then ''*'' else [])"

definition print_header :: "pagestat \<Rightarrow> string" where
  "print_header ps =
     print_name ps
     @ ''0x'' @ fmt_lx (vma_start ps) @ '' [vma_start]'' @ newline
     @ ''0x'' @ fmt_lx (vma_end ps) @ '' [vma_end]'' @ newline @ newline
     @ ''vm_size=['' @ fmt_lu (vm_size ps) @ ''] rss=['' @ fmt_lu (rss ps) @ counted ps
     @ ''] ref=['' @ fmt_lu (referenced ps) @ ''] anon=['' @ fmt_lu (anon ps)
     @ ''] anon_huge=['' @ fmt_lu (anon_huge ps) @ ''] swap=['' @ fmt_lu (swap ps)
     @ ''] locked=['' @ fmt_lu (locked ps) @ '']'' @ newline
     @ ''vm_flags=['' @ fmt_s (vm_flags ps) @ ''] perms=['' @ perms ps
     @ ''] offset=['' @ fmt_lu (offset ps) @ '']'' @ newline @ newline"

definition ignored_ps :: "string \<Rightarrow> bool" where
  "ignored_ps nm \<longleftrightarrow>
     strcmp_eq nm ''[vvar]'' \<or> strcmp_eq nm ''[vdso]'' \<or> strcmp_eq nm ''[vsyscall]''
     \<or> strcmp_eq nm ''[heap]'' \<or> strcmp_eq nm ''[stack]''
     \<or> strncmp_eq nm ''/usr/bin'' 8 \<or> strncmp_eq nm ''/usr/lib'' 8
     \<or> strncmp_eq nm ''/var/cache'' 10 \<or> strncmp_eq nm ''/usr/share'' 10"

fun print_pages :: "kpf \<Rightarrow> procfs \<Rightarrow> pagestat \<Rightarrow> nat \<Rightarrow> u64 \<Rightarrow> u64 \<Rightarrow> printer \<Rightarrow> cerr + printer" where
  "print_pages kpf env ps 0 i addr st = Inr st"
| "print_pages kpf env ps (Suc k) i addr st =
     sbind (print_mapping kpf addr ps i True st)
       (print_pages kpf env ps k (i + 1) (addr + page_size env))"

definition pagestat_print :: "kpf \<Rightarrow> procfs \<Rightarrow> pagestat option \<Rightarrow> printer \<Rightarrow> cerr + (bool \<times> printer)" where
  "pagestat_print kpf env p st = (case p of
      None \<Rightarrow> Inr (False, st)
    | Some ps \<Rightarrow>
        if (case name ps of None \<Rightarrow> False | Some nm \<Rightarrow> ignored_ps nm) then Inr (False, st)
        else sbind (print_pages kpf env ps (unat (count_virt_pages env ps)) 0 (vma_start ps)
                      (emit (print_header ps) st)) (\<lambda>st.
             sbind (print_mapping_terminate kpf ps st) (\<lambda>st. Inr (True, st))))"

text \<open>An array of \<open>MAX_MAPS\<close> pointers is the list of those before the first null.\<close>

fun pagestat_print_all :: "kpf \<Rightarrow> procfs \<Rightarrow> pagestat list \<Rightarrow> printer \<Rightarrow> cerr + printer" where
  "pagestat_print_all kpf env [] st = Inr st"
| "pagestat_print_all kpf env (ps # pss) st =
     sbind (pagestat_print kpf env (Some ps) st) (\<lambda>(printed, st).
       pagestat_print_all kpf env pss (if printed then emit newline st else st))"

section \<open>Differences\<close>

text \<open>The macros \<open>COMPARE\<close>, \<open>COMPARE_STR\<close> and \<open>COMPARE_STR_UNSAFE\<close>: whether the field differs, and
  what is printed then. The state is \<open>seen_first\<close> with the printer.\<close>

definition report :: "bool \<Rightarrow> string \<Rightarrow> bool \<times> printer \<Rightarrow> bool \<times> printer" where
  "report differs msg s = (if differs then (True, emit msg (snd s)) else s)"

definition compare :: "string \<Rightarrow> (pagestat \<Rightarrow> u64) \<Rightarrow> (pagestat \<Rightarrow> string) \<Rightarrow> pagestat \<Rightarrow> pagestat
    \<Rightarrow> bool \<times> printer \<Rightarrow> bool \<times> printer" where
  "compare nm field sfx a b = report (field a \<noteq> field b)
     (nm @ ''=['' @ fmt_lu (field a) @ sfx a @ '']->['' @ fmt_lu (field b) @ sfx b @ ''] '')"

definition compare_str :: "string \<Rightarrow> (pagestat \<Rightarrow> string option) \<Rightarrow> pagestat \<Rightarrow> pagestat
    \<Rightarrow> bool \<times> printer \<Rightarrow> bool \<times> printer" where
  "compare_str nm field a b =
     (let from = (case field a of None \<Rightarrow> [] | Some s \<Rightarrow> s);
          to = (case field b of None \<Rightarrow> [] | Some s \<Rightarrow> s) in
      report (\<not> strncmp_eq from to 255) (nm @ ''=['' @ fmt_s (field a) @ '']->['' @ fmt_s (field b) @ ''] ''))"

definition end_line :: "bool \<times> printer \<Rightarrow> bool \<times> printer" where
  "end_line s = (if fst s then (False, emit newline (snd s)) else s)"

definition diff_fields :: "pagestat \<Rightarrow> pagestat \<Rightarrow> printer \<Rightarrow> bool \<times> printer" where
  "diff_fields a b st =
     (let none = (\<lambda>_. []);
          s = (False, st);
          s = compare ''rss'' rss counted a b s;
          s = compare ''ref'' referenced none a b s;
          s = compare ''anon'' anon none a b s;
          s = compare ''anon_huge'' anon_huge none a b s;
          s = compare ''swap'' swap none a b s;
          s = compare ''locked'' locked none a b s;
          s = end_line s;
          s = compare_str ''vm_flags'' vm_flags a b s;
          s = report (\<not> strcmp_eq (perms a) (perms b))
                (''perms=['' @ perms a @ '']->['' @ perms b @ ''] '') s;
          s = compare ''offset'' offset none a b s;
          s = compare_str ''name'' name a b s
      in end_line s)"

text \<open>The test of one page is a conjunction of three comparisons, evaluated from left to right.\<close>

definition same_entry :: "u64 list option \<Rightarrow> u64 list option \<Rightarrow> u64 \<Rightarrow> cerr + bool" where
  "same_entry p q i = sbind (sbind (deref p) (\<lambda>xs. aget xs (unat i))) (\<lambda>x.
     sbind (sbind (deref q) (\<lambda>ys. aget ys (unat i))) (\<lambda>y. Inr (x = y)))"

definition same_page :: "pagestat \<Rightarrow> pagestat \<Rightarrow> u64 \<Rightarrow> cerr + bool" where
  "same_page a b i =
     sbind (same_entry (pagemaps a) (pagemaps b) i) (\<lambda>eq1.
       if \<not> eq1 then Inr False
       else sbind (same_entry (kpagecounts a) (kpagecounts b) i) (\<lambda>eq2.
         if \<not> eq2 then Inr False else same_entry (kpageflags a) (kpageflags b) i))"

fun diff_pages :: "kpf \<Rightarrow> procfs \<Rightarrow> pagestat \<Rightarrow> pagestat \<Rightarrow> nat \<Rightarrow> u64 \<Rightarrow> u64 \<Rightarrow> bool \<times> printer
    \<Rightarrow> cerr + (bool \<times> printer)" where
  "diff_pages kpf env a b 0 i addr s = Inr s"
| "diff_pages kpf env a b (Suc k) i addr (seen_first, st) =
     sbind (same_page a b i) (\<lambda>same.
       if same then diff_pages kpf env a b k (i + 1) (addr + page_size env) (seen_first, st)
       else
         let st = (if \<not> seen_first then emit newline st else st) in
         sbind (print_mapping kpf addr a i False st) (\<lambda>st.
         sbind (print_mapping kpf INVALID_VALUE b i False (emit ''               -> '' st)) (\<lambda>st.
           diff_pages kpf env a b k (i + 1) (addr + page_size env) (True, st))))"

definition range_change :: string where
  "range_change = ''^^^^---- VMA RANGE CHANGE. Outputting both for manual diff ----vvvv'' @ newline"

definition pagestat_print_diff ::
  "kpf \<Rightarrow> procfs \<Rightarrow> pagestat option \<Rightarrow> pagestat option \<Rightarrow> printer \<Rightarrow> cerr + (bool \<times> printer)" where
  "pagestat_print_diff kpf env ps_a ps_b st = (case (ps_a, ps_b) of
      (None, None) \<Rightarrow> Inr (False, st)
    | (None, Some b) \<Rightarrow> pagestat_print kpf env (Some b) st
    | (Some a, None) \<Rightarrow> pagestat_print kpf env (Some a) st
    | (Some a, Some b) \<Rightarrow>
        if vma_start a \<noteq> vma_start b \<or> vma_end a \<noteq> vma_end b then
          sbind (pagestat_print kpf env (Some a) st) (\<lambda>(printed, st).
            if \<not> printed then Inr (False, st)
            else sbind (pagestat_print kpf env (Some b) (emit range_change st)) (\<lambda>(_, st). Inr (True, st)))
        else
          sbind (diff_pages kpf env a b (unat (count_virt_pages env a)) 0 (vma_start a) (diff_fields a b st))
            (\<lambda>(seen_first, st).
              if \<not> seen_first then Inr (False, st)
              else Inr (True, emit (newline @ print_header a) st)))"

text \<open>The loop runs over all \<open>MAX_MAPS\<close> slots of both arrays.\<close>

definition slot :: "'a list \<Rightarrow> 'a option" where
  "slot xs = (case xs of [] \<Rightarrow> None | x # _ \<Rightarrow> Some x)"

fun diff_all_loop :: "nat \<Rightarrow> kpf \<Rightarrow> procfs \<Rightarrow> pagestat list \<Rightarrow> pagestat list \<Rightarrow> bool \<times> printer
    \<Rightarrow> cerr + (bool \<times> printer)" where
  "diff_all_loop 0 kpf env pss_a pss_b s = Inr s"
| "diff_all_loop (Suc n) kpf env pss_a pss_b (seen, st) =
     sbind (pagestat_print_diff kpf env (slot pss_a) (slot pss_b) st) (\<lambda>(updated, st).
       diff_all_loop n kpf env (tl pss_a) (tl pss_b)
         (if updated then (True, emit (newline @ newline @ newline) st) else (seen, st)))"

definition pagestat_print_diff_all ::
  "kpf \<Rightarrow> procfs \<Rightarrow> pagestat list \<Rightarrow> pagestat list \<Rightarrow> printer \<Rightarrow> cerr + (bool \<times> printer)" where
  "pagestat_print_diff_all kpf env pss_a pss_b st = diff_all_loop MAX_MAPS kpf env pss_a pss_b (False, st)"

section \<open>The commands\<close>

definition EXIT_SUCCESS :: int where "EXIT_SUCCESS = 0"
definition EXIT_FAILURE :: int where "EXIT_FAILURE = 1"

text \<open>The arguments both commands take: a process and optionally \<open>-s\<close>. \<open>None\<close> is the usage message.\<close>

definition parse_args :: "string list \<Rightarrow> (string \<times> bool) option" where
  "parse_args argv = (case argv of
      _ # pid # rest \<Rightarrow>
        (case rest of [] \<Rightarrow> Some (pid, False)
         | flag # _ \<Rightarrow> if \<not> strncmp_eq flag ''-s'' 3 then None else Some (pid, True))
    | _ \<Rightarrow> None)"

definition pagestat_main :: "kpf \<Rightarrow> procfs \<Rightarrow> garbage \<Rightarrow> string list \<Rightarrow> io \<Rightarrow> cerr + (int \<times> string \<times> io)" where
  "pagestat_main kpf env g argv io = (case parse_args argv of
      None \<Rightarrow> Inr (EXIT_FAILURE, [], io)
    | Some (pid, silent) \<Rightarrow>
        sbind (pagestat_snapshot_all env g pid io) (\<lambda>(pss, io). case pss of
            None \<Rightarrow> Inr (EXIT_FAILURE, [], io)
          | Some pss \<Rightarrow>
              sbind (if \<not> silent then pagestat_print_all kpf env pss init_printer else Inr init_printer)
                (\<lambda>st. Inr (EXIT_SUCCESS, out st, pagestat_free_all pss io))))"

text \<open>
  One turn of the endless loop of \<open>watch-cmd.c\<close>. The files change between turns, so the snapshot is
  taken of the environment of that turn. A null array, which \<open>pagestat_snapshot_all\<close> returns after
  \<open>MAX_MAPS\<close> mappings, is dereferenced.
\<close>

record watch =
  w_pss :: "pagestat list"
  w_printer :: printer
  w_io :: io

definition watch_start :: "procfs \<Rightarrow> garbage \<Rightarrow> string list \<Rightarrow> io \<Rightarrow> cerr + (watch \<times> string \<times> bool)" where
  "watch_start env g argv io = (case parse_args argv of
      None \<Rightarrow> Inl (Exit EXIT_FAILURE)
    | Some (pid, silent) \<Rightarrow>
        sbind (pagestat_snapshot_all env g pid io) (\<lambda>(pss, io). case pss of
            None \<Rightarrow> Inl (Exit EXIT_FAILURE)
          | Some pss \<Rightarrow> Inr (\<lparr>w_pss = pss, w_printer = init_printer, w_io = io\<rparr>, pid, silent)))"

definition watch_turn :: "kpf \<Rightarrow> garbage \<Rightarrow> string \<Rightarrow> bool \<Rightarrow> procfs \<Rightarrow> watch \<Rightarrow> cerr + watch" where
  "watch_turn kpf g pid silent env w =
     sbind (pagestat_snapshot_all env g pid (w_io w)) (\<lambda>(pss_curr, io).
     sbind (deref pss_curr) (\<lambda>pss_curr.
     sbind (pagestat_print_diff_all kpf env (w_pss w) pss_curr (w_printer w)) (\<lambda>(updated, st).
       let st = (if \<not> updated \<and> \<not> silent then emit (''(no updates)'' @ newline) st else st) in
       Inr \<lparr>w_pss = pss_curr, w_printer = st, w_io = pagestat_free_all (w_pss w) io\<rparr>)))"

end
