(* ===== verification/Print_Correct.thy ===== *)
theory Print_Correct
  imports Pagestat_Print
begin

text \<open>
  Correctness of the printing half of \<open>pagestat.c\<close>. The abbreviated listing is compared with a
  reference that groups the pages of a mapping into runs first and renders each run; printing is
  shown to stay inside the arrays of a snapshot; the result of the comparison of two snapshots is
  characterised; and the streams the functions leave open are counted.
\<close>

section \<open>Runs of pages\<close>


type_synonym page = "u64 \<times> u64 \<times> u64"

definition page_val :: "page \<Rightarrow> u64" where
  "page_val p = snd (snd p)"

text \<open>Whether the second page continues the run of the first.\<close>

definition joins :: "page \<Rightarrow> page \<Rightarrow> bool" where
  "joins p q \<longleftrightarrow> page_val q AND NOT PAGEMAP_PFN_MASK = page_val p AND NOT PAGEMAP_PFN_MASK
     \<and> (get_pfn (page_val q) = get_pfn (page_val p) \<or> get_pfn (page_val q) = get_pfn (page_val p) + 1)"

fun runs :: "page list \<Rightarrow> page list list" where
  "runs [] = []"
| "runs (p # ps) = (case runs ps of
      [] \<Rightarrow> [[p]]
    | r # rs \<Rightarrow> if joins p (hd r) then (p # r) # rs else [p] # r # rs)"

lemma concat_runs: "concat (runs xs) = xs"
  by (induction xs) (auto split: list.splits)

lemma runs_nonempty: "r \<in> set (runs xs) \<Longrightarrow> r \<noteq> []"
  by (induction xs arbitrary: r) (auto split: list.splits if_splits)

lemma runs_Cons: "\<exists>t rs. runs (p # xs) = (p # t) # rs"
  by (auto split: list.split)

lemma runs_Cons2:
  assumes "runs (q # xs) = (q # t) # rs"
  shows "runs (p # q # xs) = (if joins p q then (p # q # t) # rs else [p] # (q # t) # rs)"
  using assms by simp

definition shown :: "u64 \<Rightarrow> u64" where
  "shown val = (if has_pfn val then val else val AND NOT PAGEMAP_PFN_MASK)"

lemma shown_eq: "(if get_pfn val = INVALID_VALUE then val AND NOT PAGEMAP_PFN_MASK
    else (val AND NOT PAGEMAP_PFN_MASK) OR get_pfn val) = shown val"
proof -
  have "(val AND NOT m) OR (val AND m) = val" for m :: u64
    by (intro bit_eqI) (auto simp: bit_simps)
  then show ?thesis using get_pfn_cases(2) [of val] by (auto simp: shown_def get_pfn_def)
qed

definition text_of :: "cerr + string \<Rightarrow> string" where
  "text_of m = (case m of Inl _ \<Rightarrow> [] | Inr s \<Rightarrow> s)"

definition page_text :: "kpf \<Rightarrow> pagestat \<Rightarrow> page \<Rightarrow> string" where
  "page_text kpf ps p = (case p of (addr, i, val) \<Rightarrow> text_of (do_print_mapping kpf addr ps i val))"

definition rest_text :: "kpf \<Rightarrow> pagestat \<Rightarrow> nat \<Rightarrow> page \<Rightarrow> string" where
  "rest_text kpf ps n p = (case p of (addr, i, val) \<Rightarrow>
     if n > 2 then fmt_016lx addr @ '': ('' @ fmt_lu (of_nat (n - 1)) @ '' more repetitions of above)'' @ newline
     else if n = 2 then page_text kpf ps (addr, i, shown val) else [])"

definition run_text :: "kpf \<Rightarrow> pagestat \<Rightarrow> page list \<Rightarrow> string" where
  "run_text kpf ps r = page_text kpf ps (hd r) @ rest_text kpf ps (length r) (last r)"

fun page_list :: "procfs \<Rightarrow> u64 list \<Rightarrow> nat \<Rightarrow> u64 \<Rightarrow> u64 \<Rightarrow> page list" where
  "page_list env es 0 i addr = []"
| "page_list env es (Suc k) i addr = (addr, i, es ! unat i) # page_list env es k (i + 1) (addr + page_size env)"

definition covers :: "pagestat \<Rightarrow> u64 list \<Rightarrow> nat \<Rightarrow> bool" where
  "covers ps es n \<longleftrightarrow> pagemaps ps = Some es \<and> n \<le> length es
     \<and> (\<exists>fs. kpageflags ps = Some fs \<and> n \<le> length fs) \<and> (\<exists>cs. kpagecounts ps = Some cs \<and> n \<le> length cs)"

lemma do_print_mapping_ok:
  assumes "covers ps es n" "unat i < n"
  shows "do_print_mapping kpf addr ps i val = Inr (page_text kpf ps (addr, i, val))"
  using assms by (auto simp: covers_def do_print_mapping_def page_text_def text_of_def Let_def)

definition at_page :: "printer \<Rightarrow> page \<Rightarrow> nat \<Rightarrow> bool" where
  "at_page st p c \<longleftrightarrow> (case p of (addr, i, val) \<Rightarrow> last_seen_map st = val AND NOT PAGEMAP_PFN_MASK
     \<and> last_seen_pfn st = get_pfn val \<and> last_seen_addr st = addr \<and> last_seen_index st = i
     \<and> seen_map_count st = of_nat c)"

lemma emit_simps [simp]: "out (emit s st) = out st @ s" "last_seen_map (emit s st) = last_seen_map st"
  "last_seen_pfn (emit s st) = last_seen_pfn st" "last_seen_addr (emit s st) = last_seen_addr st"
  "last_seen_index (emit s st) = last_seen_index st" "seen_map_count (emit s st) = seen_map_count st"
  by (simp_all add: emit_def)

lemma emit_Nil [simp]: "emit [] st = st" by (simp add: emit_def)

lemma emit_emit [simp]: "emit t (emit s st) = emit (s @ t) st" by (simp add: emit_def)

lemma masked_not_invalid: "val AND NOT PAGEMAP_PFN_MASK \<noteq> INVALID_VALUE"
proof
  assume *: "val AND NOT PAGEMAP_PFN_MASK = INVALID_VALUE"
  have "bit INVALID_VALUE 0" by simp
  then show False unfolding * [symmetric] by (simp add: PFN_MASK_mask bit_simps)
qed

lemma print_abbrev_at:
  assumes "covers ps es n" "unat i < n" "at_page st (addr, i, val) c" "c < 2 ^ 64"
  shows "print_abbrev kpf ps st = Inr (emit (rest_text kpf ps c (addr, i, val)) st)"
proof -
  have u: "unat (of_nat c :: u64) = c" using assms(4) by (simp add: unat_of_nat)
  have "(of_nat c :: u64) > 2 \<longleftrightarrow> c > 2" "(of_nat c :: u64) = 2 \<longleftrightarrow> c = 2"
    by (simp_all add: word_less_nat_alt word_unat_eq_iff u del: of_nat_numeral)
  moreover have "(of_nat c :: u64) - 1 = of_nat (c - 1)" if "c > 2" using that by (simp add: of_nat_diff)
  ultimately show ?thesis
    using assms masked_not_invalid [of val] shown_eq [of val] do_print_mapping_ok [OF assms(1,2), of kpf addr "shown val"]
    by (auto simp: print_abbrev_def at_page_def rest_text_def)
qed

lemma is_new_at: "at_page st p c \<Longrightarrow> is_new_val st (page_val q) \<longleftrightarrow> \<not> joins p q"
  by (auto simp: at_page_def is_new_val_def joins_def page_val_def split: prod.splits)

lemma print_mapping_join:
  assumes "covers ps es n" "unat i < n" "at_page st p c" "joins p (addr, i, es ! unat i)"
  shows "\<exists>st'. print_mapping kpf addr ps i True st = Inr st' \<and> at_page st' (addr, i, es ! unat i) (Suc c) \<and> out st' = out st"
  using assms is_new_at [OF assms(3), of "(addr, i, es ! unat i)"]
  by (simp add: print_mapping_def covers_def page_val_def Let_def at_page_def note_mapping_def add.commute split: prod.splits)

lemma print_mapping_break:
  assumes "covers ps es n" "unat i < n" "at_page st p c" "c < 2 ^ 64" "unat (fst (snd p)) < n" "\<not> joins p (addr, i, es ! unat i)"
  shows "\<exists>st'. print_mapping kpf addr ps i True st = Inr st' \<and> at_page st' (addr, i, es ! unat i) 1
     \<and> out st' = out st @ rest_text kpf ps c p @ page_text kpf ps (addr, i, es ! unat i)"
proof -
  have "print_abbrev kpf ps st = Inr (emit (rest_text kpf ps c p) st)"
    using print_abbrev_at [OF assms(1), of "fst (snd p)"] assms by (cases p) auto
  then show ?thesis
    using assms is_new_at [OF assms(3), of "(addr, i, es ! unat i)"] do_print_mapping_ok [OF assms(1,2)]
    by (auto simp: print_mapping_def covers_def page_val_def Let_def at_page_def note_mapping_def)
qed

lemma print_pages_runs:
  assumes "covers ps es n" "unat i + k \<le> n" "n < 2 ^ 64" "at_page st p c" "c + k < 2 ^ 64" "unat (fst (snd p)) < n"
    "runs (p # page_list env es k i addr) = (p # t) # rs"
  shows "\<exists>st'. sbind (print_pages kpf env ps k i addr st) (print_mapping_terminate kpf ps) = Inr st'
    \<and> out st' = out st @ rest_text kpf ps (c + length t) (last (p # t)) @ concat (map (run_text kpf ps) rs)
    \<and> last_seen_map st' = INVALID_VALUE \<and> seen_map_count st' = 0"
  using assms
proof (induction k arbitrary: i addr st p c t rs)
  case 0
  then have "print_abbrev kpf ps st = Inr (emit (rest_text kpf ps c p) st)"
    using print_abbrev_at [OF 0(1), of "fst (snd p)"] by (cases p) auto
  then show ?case using 0 by (simp add: print_mapping_terminate_def)
next
  case (Suc k)
  let ?q = "(addr, i, es ! unat i)"
  have i: "unat i < n" "unat (i + 1) = Suc (unat i)"
    using Suc.prems(2,3) by (auto simp: unat_word_ariths)
  obtain t' rs' where q: "runs (?q # page_list env es k (i + 1) (addr + page_size env)) = (?q # t') # rs'"
    using runs_Cons by metis
  show ?case
  proof (cases "joins p ?q")
    case True
    obtain st' where st': "print_mapping kpf addr ps i True st = Inr st'" "at_page st' ?q (Suc c)" "out st' = out st"
      using print_mapping_join [OF Suc.prems(1) i(1) Suc.prems(4) True] by blast
    have "t = ?q # t'" "rs = rs'" using runs_Cons2 [OF q, of p] True Suc.prems(7) by auto
    then show ?thesis using Suc.IH [OF _ _ _ st'(2) _ _ q] Suc.prems i st' by simp
  next
    case False
    obtain st' where st': "print_mapping kpf addr ps i True st = Inr st'" "at_page st' ?q 1"
      "out st' = out st @ rest_text kpf ps c p @ page_text kpf ps ?q"
      using print_mapping_break [OF Suc.prems(1) i(1) Suc.prems(4) _ Suc.prems(6) False] Suc.prems(5) by auto
    have "t = []" "rs = (?q # t') # rs'" using runs_Cons2 [OF q, of p] False Suc.prems(7) by auto
    then show ?thesis using Suc.IH [OF _ _ _ st'(2) _ _ q] Suc.prems i st' by (simp add: run_text_def)
  qed
qed

lemma print_mapping_fresh:
  assumes "covers ps es n" "unat i < n" "last_seen_map st = INVALID_VALUE"
  shows "\<exists>st'. print_mapping kpf addr ps i True st = Inr st' \<and> at_page st' (addr, i, es ! unat i) 1
     \<and> out st' = out st @ page_text kpf ps (addr, i, es ! unat i)"
proof -
  have "is_new_val st (es ! unat i)" using assms(3) masked_not_invalid by (simp add: is_new_val_def)
  then show ?thesis
    using assms do_print_mapping_ok [OF assms(1,2)]
    by (auto simp: print_mapping_def print_abbrev_def covers_def Let_def at_page_def note_mapping_def)
qed

definition pages_of :: "procfs \<Rightarrow> pagestat \<Rightarrow> page list" where
  "pages_of env ps = page_list env (the (pagemaps ps)) (unat (count_virt_pages env ps)) 0 (vma_start ps)"

definition pages_text :: "kpf \<Rightarrow> procfs \<Rightarrow> pagestat \<Rightarrow> string" where
  "pages_text kpf env ps = concat (map (run_text kpf ps) (runs (pages_of env ps)))"

definition printable :: "procfs \<Rightarrow> pagestat \<Rightarrow> bool" where
  "printable env ps \<longleftrightarrow> (\<exists>es. covers ps es (unat (count_virt_pages env ps)))"

lemma print_pages_fresh:
  assumes "printable env ps" "last_seen_map st = INVALID_VALUE"
  shows "\<exists>st'. sbind (print_pages kpf env ps (unat (count_virt_pages env ps)) 0 (vma_start ps) st) (print_mapping_terminate kpf ps) = Inr st'
    \<and> out st' = out st @ pages_text kpf env ps \<and> last_seen_map st' = INVALID_VALUE"
proof -
  let ?n = "unat (count_virt_pages env ps)"
  obtain es where es: "covers ps es ?n" using assms(1) by (auto simp: printable_def)
  have pm: "pagemaps ps = Some es" using es by (simp add: covers_def)
  show ?thesis
  proof (cases ?n)
    case 0
    then show ?thesis using assms(2) pm
      by (simp add: print_mapping_terminate_def print_abbrev_def pages_text_def pages_of_def)
  next
    case (Suc k)
    let ?p = "(vma_start ps, 0, es ! 0)"
    obtain st1 where st1: "print_mapping kpf (vma_start ps) ps 0 True st = Inr st1" "at_page st1 ?p 1"
      "out st1 = out st @ page_text kpf ps ?p"
      using print_mapping_fresh [OF es _ assms(2), of 0] Suc by auto
    obtain t rs where r: "runs (?p # page_list env es k 1 (vma_start ps + page_size env)) = (?p # t) # rs"
      using runs_Cons by metis
    have b: "?n < 2 ^ 64" by simp
    have "\<exists>st'. sbind (print_pages kpf env ps k 1 (vma_start ps + page_size env) st1) (print_mapping_terminate kpf ps) = Inr st'
      \<and> out st' = out st1 @ rest_text kpf ps (1 + length t) (last (?p # t)) @ concat (map (run_text kpf ps) rs)
      \<and> last_seen_map st' = INVALID_VALUE \<and> seen_map_count st' = 0"
      by (rule print_pages_runs [OF es _ b st1(2) _ _ r]) (use Suc b in auto)
    then show ?thesis using r st1 pm Suc
      by (auto simp: pages_text_def pages_of_def run_text_def simp del: runs.simps)
  qed
qed

definition hidden :: "pagestat \<Rightarrow> bool" where
  "hidden ps \<longleftrightarrow> (case name ps of None \<Rightarrow> False | Some nm \<Rightarrow> ignored_ps nm)"

lemma pagestat_print_text:
  assumes "printable env ps" "last_seen_map st = INVALID_VALUE"
  shows "\<exists>st'. pagestat_print kpf env (Some ps) st = Inr (\<not> hidden ps, st')
    \<and> out st' = out st @ (if hidden ps then [] else print_header ps @ pages_text kpf env ps) \<and> last_seen_map st' = INVALID_VALUE"
  using assms print_pages_fresh [of env ps "emit (print_header ps) st" kpf]
  by (auto simp: pagestat_print_def hidden_def sbind_eq_Inr_iff split: option.splits)

lemma pagestat_print_all_text:
  assumes "list_all (printable env) pss" "last_seen_map st = INVALID_VALUE"
  shows "\<exists>st'. pagestat_print_all kpf env pss st = Inr st' \<and> last_seen_map st' = INVALID_VALUE
    \<and> out st' = out st @ concat (map (\<lambda>ps. print_header ps @ pages_text kpf env ps @ newline) (filter (\<lambda>ps. \<not> hidden ps) pss))"
  using assms
proof (induction pss arbitrary: st)
  case Nil
  then show ?case by simp
next
  case (Cons ps pss)
  obtain st1 where st1: "pagestat_print kpf env (Some ps) st = Inr (\<not> hidden ps, st1)" "last_seen_map st1 = INVALID_VALUE"
    "out st1 = out st @ (if hidden ps then [] else print_header ps @ pages_text kpf env ps)"
    using pagestat_print_text [of env ps st kpf] Cons.prems by auto
  show ?case using Cons.IH [of "if hidden ps then st1 else emit newline st1"] Cons.prems st1 by auto
qed

lemma u64_entries_length: "u64_entries env path off n = Some es \<Longrightarrow> length es = unat n"
  by (auto simp: u64_entries_def split: option.splits if_splits)

lemma snapshot_printable: "snapshot_of env path v = Some ps \<Longrightarrow> printable env ps"
  by (auto simp: snapshot_of_def with_pages_def tweak_counts_def printable_def covers_def count_virt_pages_def Let_def
      dest!: u64_entries_length)

definition entry_differs :: "pagestat \<Rightarrow> pagestat \<Rightarrow> nat \<Rightarrow> bool" where
  "entry_differs a b j \<longleftrightarrow> the (pagemaps a) ! j \<noteq> the (pagemaps b) ! j
     \<or> the (kpagecounts a) ! j \<noteq> the (kpagecounts b) ! j \<or> the (kpageflags a) ! j \<noteq> the (kpageflags b) ! j"

lemma same_page_eq:
  assumes "covers a es n" "covers b es' n" "unat i < n"
  shows "same_page a b i = Inr (\<not> entry_differs a b (unat i))"
  using assms by (auto simp: covers_def same_page_def same_entry_def entry_differs_def)

lemma print_mapping_plain:
  assumes "covers ps es n" "unat i < n"
  shows "print_mapping kpf addr ps i False st
     = Inr (emit (page_text kpf ps (addr, i, es ! unat i)) (note_mapping addr i (es ! unat i) st))"
  using assms do_print_mapping_ok [OF assms] by (auto simp: print_mapping_def covers_def Let_def)

section \<open>Differences\<close>

text \<open>What a difference of two snapshots shows, without the order of the tests and the flag
  \<open>seen_first\<close>: a line with the changed counts, a line with the other changed fields of the header,
  and the pages that differ. A line without a change is not printed. Strings are compared up to 255 characters, a
  null pointer as the empty string.\<close>

definition change :: "string \<Rightarrow> string \<Rightarrow> string \<Rightarrow> string" where
  "change nm x y = nm @ ''=['' @ x @ '']->['' @ y @ ''] ''"

definition field_change :: "string \<Rightarrow> (pagestat \<Rightarrow> 'a) \<Rightarrow> (pagestat \<Rightarrow> string) \<Rightarrow> pagestat \<Rightarrow> pagestat \<Rightarrow> string list" where
  "field_change nm field shw a b = (if field a = field b then [] else [change nm (shw a) (shw b)])"

definition text_line :: "string list \<Rightarrow> string" where
  "text_line ts = (if ts = [] then [] else concat ts @ newline)"

definition known :: "string option \<Rightarrow> string" where
  "known p = (case p of None \<Rightarrow> [] | Some s \<Rightarrow> take 255 s)"

definition count_changes :: "pagestat \<Rightarrow> pagestat \<Rightarrow> string list" where
  "count_changes a b =
     field_change ''rss'' rss (\<lambda>ps. fmt_lu (rss ps) @ (if rss_counted ps then ''*'' else [])) a b
     @ field_change ''ref'' referenced (fmt_lu \<circ> referenced) a b
     @ field_change ''anon'' anon (fmt_lu \<circ> anon) a b
     @ field_change ''anon_huge'' anon_huge (fmt_lu \<circ> anon_huge) a b
     @ field_change ''swap'' swap (fmt_lu \<circ> swap) a b
     @ field_change ''locked'' locked (fmt_lu \<circ> locked) a b"

definition other_changes :: "pagestat \<Rightarrow> pagestat \<Rightarrow> string list" where
  "other_changes a b =
     field_change ''vm_flags'' (known \<circ> vm_flags) (fmt_s \<circ> vm_flags) a b
     @ field_change ''perms'' perms perms a b
     @ field_change ''offset'' offset (fmt_lu \<circ> offset) a b
     @ field_change ''name'' (known \<circ> name) (fmt_s \<circ> name) a b"

definition header_changes :: "pagestat \<Rightarrow> pagestat \<Rightarrow> string" where
  "header_changes a b = text_line (count_changes a b) @ text_line (other_changes a b)"

definition so_far :: "string list \<Rightarrow> printer \<Rightarrow> bool \<times> printer" where
  "so_far ts st = (ts \<noteq> [], emit (concat ts) st)"

lemma report_so_far: "report d m (so_far ts st) = so_far (ts @ (if d then [m] else [])) st"
  by (simp add: report_def so_far_def)

lemma compare_so_far:
  "compare nm field sfx a b (so_far ts st) = so_far (ts @ field_change nm field (\<lambda>ps. fmt_lu (field ps) @ sfx ps) a b) st"
  "compare_str nm fld a b (so_far ts st) = so_far (ts @ field_change nm (known \<circ> fld) (fmt_s \<circ> fld) a b) st"
  by (auto simp: compare_def compare_str_def report_so_far field_change_def change_def known_def strncmp_eq_def Let_def
      split: option.split)

lemma end_so_far: "end_line (so_far ts st) = so_far [] (emit (text_line ts) st)"
  by (simp add: end_line_def so_far_def text_line_def)

lemma diff_fields_text: "diff_fields a b st = (False, emit (header_changes a b) st)"
proof -
  have s: "(False, st) = so_far [] st" by (simp add: so_far_def)
  have f: "(\<lambda>ps. fmt_lu (h ps) @ []) = fmt_lu \<circ> h" for h :: "pagestat \<Rightarrow> u64" by auto
  show ?thesis
    unfolding diff_fields_def Let_def s compare_so_far end_so_far report_so_far f
    by (simp add: header_changes_def count_changes_def other_changes_def counted_def so_far_def field_change_def [of _ perms]
        change_def strcmp_eq_def)
qed

definition page_change :: "kpf \<Rightarrow> procfs \<Rightarrow> pagestat \<Rightarrow> pagestat \<Rightarrow> nat \<Rightarrow> string" where
  "page_change kpf env a b j =
     page_text kpf a (vma_start a + of_nat j * page_size env, of_nat j, the (pagemaps a) ! j)
     @ ''               -> '' @ page_text kpf b (INVALID_VALUE, of_nat j, the (pagemaps b) ! j)"

definition page_changes :: "procfs \<Rightarrow> pagestat \<Rightarrow> pagestat \<Rightarrow> nat list" where
  "page_changes env a b = filter (entry_differs a b) [0..<unat (count_virt_pages env a)]"

lemma page_changes_iff: "page_changes env a b \<noteq> [] \<longleftrightarrow> (\<exists>j < unat (count_virt_pages env a). entry_differs a b j)"
  by (auto simp: page_changes_def filter_empty_conv)

lemma diff_pages_text:
  assumes "covers a es n" "covers b es' n" "unat i + k \<le> n" "n < 2 ^ 64"
  shows "\<exists>st'. diff_pages kpf env a b k i (vma_start a + i * page_size env) (seen, st)
      = Inr (seen \<or> filter (entry_differs a b) [unat i..<unat i + k] \<noteq> [], st')
    \<and> out st' = out st @ (if seen \<or> filter (entry_differs a b) [unat i..<unat i + k] = [] then [] else newline)
        @ concat (map (page_change kpf env a b) (filter (entry_differs a b) [unat i..<unat i + k]))"
  using assms
proof (induction k arbitrary: i seen st)
  case 0
  then show ?case by simp
next
  case (Suc k)
  have i: "unat i < n" "unat (i + 1) = Suc (unat i)"
    using Suc.prems(3,4) by (auto simp: unat_word_ariths)
  have u: "[unat i..<unat i + Suc k] = unat i # [Suc (unat i)..<Suc (unat i) + k]"
    by (simp add: upt_conv_Cons)
  have n: "vma_start a + i * page_size env + page_size env = vma_start a + (i + 1) * page_size env"
    by (simp add: algebra_simps)
  have m: "pagemaps a = Some es" "pagemaps b = Some es'" using Suc.prems by (auto simp: covers_def)
  note ih = Suc.IH [of "i + 1", unfolded i(2)]
  show ?case
  proof (cases "entry_differs a b (unat i)")
    case False
    obtain st' where "diff_pages kpf env a b k (i + 1) (vma_start a + (i + 1) * page_size env) (seen, st)
        = Inr (seen \<or> filter (entry_differs a b) [Suc (unat i)..<Suc (unat i) + k] \<noteq> [], st')"
      "out st' = out st @ (if seen \<or> filter (entry_differs a b) [Suc (unat i)..<Suc (unat i) + k] = [] then [] else newline)
        @ concat (map (page_change kpf env a b) (filter (entry_differs a b) [Suc (unat i)..<Suc (unat i) + k]))"
      using ih [of seen st] Suc.prems by auto
    then show ?thesis using False same_page_eq [OF Suc.prems(1,2) i(1)] by (simp only: u n diff_pages.simps filter.simps) simp
  next
    case True
    let ?first = "emit (page_text kpf a (vma_start a + i * page_size env, i, es ! unat i))
      (note_mapping (vma_start a + i * page_size env) i (es ! unat i) (if \<not> seen then emit newline st else st))"
    let ?st = "emit (page_text kpf b (INVALID_VALUE, i, es' ! unat i))
      (note_mapping INVALID_VALUE i (es' ! unat i) (emit ''               -> '' ?first))"
    obtain st' where st': "diff_pages kpf env a b k (i + 1) (vma_start a + (i + 1) * page_size env) (True, ?st) = Inr (True, st')"
      "out st' = out ?st @ concat (map (page_change kpf env a b) (filter (entry_differs a b) [Suc (unat i)..<Suc (unat i) + k]))"
      using ih [of True ?st] Suc.prems by auto
    have step: "diff_pages kpf env a b (Suc k) i (vma_start a + i * page_size env) (seen, st)
        = diff_pages kpf env a b k (i + 1) (vma_start a + (i + 1) * page_size env) (True, ?st)"
      using same_page_eq [OF Suc.prems(1,2) i(1)] True
      by (simp add: print_mapping_plain [OF Suc.prems(1) i(1)] print_mapping_plain [OF Suc.prems(2) i(1)] n Let_def)
    have "out ?st = out st @ (if seen then [] else newline) @ page_change kpf env a b (unat i)"
      by (simp add: note_mapping_def page_change_def m)
    then show ?thesis using st' True unfolding step u filter.simps by (intro exI [of _ st']) simp
  qed
qed

lemma diff_found:
  assumes "covers a es (unat (count_virt_pages env a))" "covers b es' (unat (count_virt_pages env a))"
    "vma_start a = vma_start b" "vma_end a = vma_end b"
  shows "\<exists>st'. pagestat_print_diff kpf env (Some a) (Some b) st = Inr (page_changes env a b \<noteq> [], st')
     \<and> out st' = out st @ header_changes a b @ (if page_changes env a b = [] then []
         else newline @ concat (map (page_change kpf env a b) (page_changes env a b)) @ newline @ print_header a)"
  using diff_pages_text [OF assms(1,2), of 0 "unat (count_virt_pages env a)" kpf env False "emit (header_changes a b) st"] assms(3,4)
  by (auto simp: pagestat_print_diff_def diff_fields_text page_changes_def)

lemma diff_one_page:
  assumes "covers a [x] 1" "covers b [y] 1" "x \<noteq> y" "vma_start a = vma_start b" "vma_end a = vma_end b"
    "unat (count_virt_pages env a) = 1"
  shows "\<exists>st1. pagestat_print_diff kpf env (Some a) (Some b) init_printer = Inr (True, st1)
     \<and> at_page st1 (INVALID_VALUE, 0, y) 2"
proof -
  have "same_page a b 0 = Inr False"
    using same_page_eq [OF assms(1,2), of 0] assms(1-3) by (simp add: entry_differs_def covers_def)
  then show ?thesis
    using assms(4-6) print_mapping_plain [OF assms(1), of 0] print_mapping_plain [OF assms(2), of 0]
    by (simp add: pagestat_print_diff_def diff_fields_text at_page_def note_mapping_def init_printer_def Let_def)
qed

section \<open>Streams\<close>

lemma streams_simps [simp]: "streams (malloc io) = streams io" "streams (free io) = streams io"
  "streams (fopened io) = streams io + 1" "streams (fclose io) = streams io - 1"
  by (simp_all add: malloc_def free_def fopened_def fclose_def)

lemma streams_free_ptr [simp]: "streams (free_ptr p io) = streams io"
  by (simp add: free_ptr_def)

lemma streams_pagestat_free [simp]: "streams (pagestat_free p io) = streams io"
  by (simp add: pagestat_free_def split: option.splits)

lemma streams_free_all [simp]: "streams (pagestat_free_all pss io) = streams io"
  by (induction pss arbitrary: io) simp_all

lemma streams_header: "get_smap_header_fields ms line io = Inr (ok, ms', io') \<Longrightarrow> streams io' = streams io"
  unfolding get_smap_header_fields_def
  by (erule sbind_eq_InrE) (simp split: list.split_asm scan_val.split_asm add: Let_def, auto)

lemma streams_smap_field: "smap_field k n l ms io = Some (ms', io') \<Longrightarrow> streams io' = streams io"
  by (auto simp: smap_field_def Let_def split: if_splits)

lemma streams_other_loop:
  "smap_other_loop sl ms io ls = Inr (ok, ms', io', ls') \<Longrightarrow> streams io' = streams io"
  by (induction sl ms io ls rule: smap_other_loop.induct)
    (auto simp: smap_other_loop.simps(2) sbind_eq_Inr_iff Let_def streams_smap_field split: if_splits option.splits)

lemma streams_pagetable: "get_pagetable_fields env pid ps io = Inr (ok, ps', io') \<Longrightarrow> streams io' = streams io"
  by (auto simp: get_pagetable_fields_def sbind_eq_Inr_iff read_u64s_eq fill_kpage_fields_eq Let_def split: option.splits)

lemma streams_snapshot:
  "get_pagestat_snapshot env g fp pid vaddr io = Inr (r, fp', io') \<Longrightarrow> streams io' = streams io"
  by (auto simp: get_pagestat_snapshot_def sbind_eq_Inr_iff get_smap_other_fields_def Let_def
      dest!: streams_header streams_other_loop streams_pagetable split: option.splits if_splits prod.splits)

lemma streams_loop: "snapshot_loop n env g fp pid ret io = Inr (r, io') \<Longrightarrow> streams io' = streams io"
  by (induction n arbitrary: fp ret io) (auto simp: sbind_eq_Inr_iff dest!: streams_snapshot split: option.splits prod.splits)

lemma streams_snapshot_all:
  assumes "pagestat_snapshot_all env g pid io = Inr (r, io')" "proc_path pid ''/smaps'' = Inr path"
  shows "streams io' = streams io + (if text_file env path = None then 0 else 1)"
  using assms by (auto simp: pagestat_snapshot_all_def open_smaps_def sbind_eq_Inr_iff dest!: streams_loop split: option.splits)

lemma watch_turn_streams:
  assumes "watch_turn kpf g pid silent env w = Inr w'" "proc_path pid ''/smaps'' = Inr path" "text_file env path \<noteq> None"
  shows "streams (w_io w') = streams (w_io w) + 1"
proof -
  obtain r io' where "pagestat_snapshot_all env g pid (w_io w) = Inr (r, io')" "streams (w_io w') = streams io'"
    using assms(1) by (auto simp: watch_turn_def sbind_eq_Inr_iff Let_def split: prod.splits)
  then show ?thesis using streams_snapshot_all [OF _ assms(2)] assms(3) by simp
qed
lemma fmt_lu_2: "fmt_lu 2 = ''2''"
  by code_simp

lemma swapped_text:
  assumes "CHECK_BIT val PAGEMAP_SWAPPED_BIT"
  shows "page_text kpf ps (addr, i, val) = mapping_columns addr val
     @ ''swap_type=['' @ fmt_lx (val AND PAGEMAP_SWAP_TYPE_MASK) @ ''] swap_offset=[''
     @ fmt_lx (drop_bit PAGEMAP_SWAP_TYPE_NUM_BITS val AND PAGEMAP_SWAP_OFFSET_MASK) @ ''] '' @ newline"
  using assms by (simp add: page_text_def text_of_def do_print_mapping_def Let_def)

lemma low_mask: "BIT_MASK_LOWER n = mask n"
  by (simp add: BIT_MASK_LOWER_def BIT_MASK_def mask_eq_exp_minus_1 push_bit_of_1)

section \<open>A snapshot of three pages\<close>

definition demo_ps :: "u64 \<Rightarrow> u64 list \<Rightarrow> pagestat" where
  "demo_ps start es = zero_pagestat\<lparr>vma_start := start, vma_end := start + of_nat (length es) * 0x1000,
     vm_size := of_nat (length es) * 4, perms := ''rw-p'', vm_flags := Some ''rd wr'', pagemaps := Some es,
     kpagecounts := Some (replicate (length es) 1), kpageflags := Some (replicate (length es) 0x20)\<rparr>"

definition demo_kpf :: kpf where
  "demo_kpf nm = (if nm = ''LRU'' then 5 else if nm = ''ACTIVE'' then 6 else if nm = ''REFERENCED'' then 2
     else if nm = ''ANON'' then 12 else 0)"

definition demo_frames :: "u64 list" where
  "demo_frames = [0x8000000000000005, 0x8000000000000006, 0x8000000000000007]"

lemma demo_printable: "printable demo_env (demo_ps 0x1000 demo_frames)"
  by (simp add: printable_def covers_def demo_ps_def demo_frames_def count_virt_pages_def demo_page_size)

lemma demo_swapped: "bit (0x4000000000000020 :: u64) 62"
  by code_simp

text \<open>A process without mappings.\<close>

definition demo_empty :: procfs where
  "demo_empty = demo_env\<lparr>text_file := \<lambda>_. Some []\<rparr>"

lemma diff_all_empty: "diff_all_loop n kpf env [] [] s = Inr s"
  by (induction n arbitrary: s) (auto simp: slot_def pagestat_print_diff_def)

section \<open>Properties\<close>

text \<open>C5. \<open>pagestat_print\<close> from a state without a pending run: it prints the header of the mapping and then,
  for each maximal run of pages with the same flags and the same or consecutive frames, the line of
  its first page and the abbreviation of the rest; nothing for the ignored mappings. It reads
  within the arrays and leaves no run pending.\<close>

theorem pagestat_print_runs:
  assumes "printable env ps" "last_seen_map st = INVALID_VALUE"
  shows "concat (runs (pages_of env ps)) = pages_of env ps \<and> (\<exists>st'. pagestat_print kpf env (Some ps) st = Inr (\<not> hidden ps, st')
    \<and> out st' = out st @ (if hidden ps then [] else print_header ps @ concat (map (run_text kpf ps) (runs (pages_of env ps))))
    \<and> last_seen_map st' = INVALID_VALUE)"
  using pagestat_print_text [OF assms] concat_runs by (auto simp: pages_text_def)

theorem pagestat_print_runs_witness:
  "\<exists>st'. pagestat_print demo_kpf demo_env (Some (demo_ps 0x1000 demo_frames)) init_printer = Inr (True, st')
    \<and> out st' = print_header (demo_ps 0x1000 demo_frames)
       @ page_text demo_kpf (demo_ps 0x1000 demo_frames) (0x1000, 0, 0x8000000000000005)
       @ fmt_016lx 0x3000 @ '': (2 more repetitions of above)'' @ newline"
proof -
  have "pages_of demo_env (demo_ps 0x1000 demo_frames)
      = [(0x1000, 0, 0x8000000000000005), (0x2000, 1, 0x8000000000000006), (0x3000, 2, 0x8000000000000007)]"
    by code_simp
  moreover have "runs [(0x1000, 0, 0x8000000000000005), (0x2000, 1, 0x8000000000000006), (0x3000, 2, 0x8000000000000007)]
      = [[(0x1000, 0, 0x8000000000000005), (0x2000, 1, 0x8000000000000006), (0x3000, 2, 0x8000000000000007)]]"
    by code_simp
  moreover have "run_text demo_kpf (demo_ps 0x1000 demo_frames)
      [(0x1000, 0, 0x8000000000000005), (0x2000, 1, 0x8000000000000006), (0x3000, 2, 0x8000000000000007)]
      = page_text demo_kpf (demo_ps 0x1000 demo_frames) (0x1000, 0, 0x8000000000000005)
       @ fmt_016lx 0x3000 @ '': (2 more repetitions of above)'' @ newline"
    by (simp add: run_text_def rest_text_def fmt_lu_2)
  moreover have "\<not> hidden (demo_ps 0x1000 demo_frames)" by (simp add: hidden_def demo_ps_def zero_pagestat_def)
  ultimately show ?thesis
    using pagestat_print_runs [OF demo_printable, of init_printer demo_kpf] by (auto simp: init_printer_def)
qed

text \<open>C8. The \<open>pagestat\<close> command on the files the kernel writes: it exits with success and prints the mappings
  that \<open>pagestat_snapshot_all\<close> returns, without the ignored ones, each followed by an empty line.\<close>

theorem pagestat_main_output:
  assumes "list_all wf_vma vs" "proc_path pid ''/pagemap'' = Inr path"
    "proc_path pid ''/smaps'' = Inr spath" "text_file env spath = Some (smaps_lines vs)"
    "\<forall>v\<in>set vs. snapshot_of env path v \<noteq> None" "length (every_other vs) < MAX_MAPS"
  shows "\<exists>io'. pagestat_main kpf env g [cmd, pid] io = Inr (EXIT_SUCCESS,
      concat (map (\<lambda>ps. print_header ps @ pages_text kpf env ps @ newline)
        (filter (\<lambda>ps. \<not> hidden ps) (map (the \<circ> snapshot_of env path) (every_other vs)))), io')
     \<and> streams io' = streams io + 1"
proof -
  let ?pss = "map (the \<circ> snapshot_of env path) (every_other vs)"
  obtain io1 where io1: "pagestat_snapshot_all env g pid io = Inr (Some ?pss, io1)" "streams io1 = streams io + 1"
    using snapshot_all_run [OF assms] by auto
  have "set (every_other vs) \<subseteq> set vs" by (induction vs rule: every_other.induct) auto
  then have "list_all (printable env) ?pss"
    using assms(5) snapshot_printable by (fastforce simp: list_all_iff)
  then obtain st' where "pagestat_print_all kpf env ?pss init_printer = Inr st'"
    "out st' = concat (map (\<lambda>ps. print_header ps @ pages_text kpf env ps @ newline) (filter (\<lambda>ps. \<not> hidden ps) ?pss))"
    using pagestat_print_all_text [of env ?pss init_printer kpf] by (auto simp: init_printer_def)
  then show ?thesis using io1 by (simp add: pagestat_main_def parse_args_def)
qed

theorem pagestat_main_output_witness:
  "\<exists>io'. pagestat_main demo_kpf demo_env demo_garbage [''pagestat'', ''1''] \<lparr>live = 0, streams = 0\<rparr> = Inr (EXIT_SUCCESS,
      concat (map (\<lambda>ps. print_header ps @ pages_text demo_kpf demo_env ps @ newline)
        (filter (\<lambda>ps. \<not> hidden ps) (map (the \<circ> snapshot_of demo_env ''/proc/1/pagemap'') [demo_vmas ! 0, demo_vmas ! 2]))), io')
     \<and> streams io' = 1"
proof -
  have "every_other demo_vmas = [demo_vmas ! 0, demo_vmas ! 2]" by (simp add: demo_vmas_def)
  moreover have "length (every_other demo_vmas) < MAX_MAPS" by (simp add: demo_vmas_def MAX_MAPS_def)
  ultimately show ?thesis
    using pagestat_main_output [OF wf_demo demo_paths demo_smaps demo_snapshots, of demo_kpf demo_garbage "''pagestat''"
      "\<lparr>live = 0, streams = 0\<rparr>"]
    by auto
qed

text \<open>For a process whose smaps cannot be opened the command reports success, having printed nothing, and
  leaves the array allocated.\<close>

theorem pagestat_main_missing:
  assumes "proc_path pid ''/smaps'' = Inr spath" "text_file env spath = None"
  shows "pagestat_main kpf env g [cmd, pid] io = Inr (EXIT_SUCCESS, [], malloc io)"
  using assms by (simp add: pagestat_main_def parse_args_def snapshot_all_missing init_printer_def)

theorem pagestat_main_missing_witness:
  "pagestat_main demo_kpf demo_env demo_garbage [''pagestat'', ''2''] \<lparr>live = 0, streams = 0\<rparr>
     = Inr (EXIT_SUCCESS, [], malloc \<lparr>live = 0, streams = 0\<rparr>)"
  by (rule pagestat_main_missing [of _ "''/proc/2/smaps''"]) (code_simp, simp add: demo_env_def)

text \<open>C7. \<open>pagestat_print_diff\<close> on two snapshots of the same range never reads outside their arrays. It prints
  the changed fields of the header, the counts on one line and the other fields on another, and the
  pages whose page map entry, count or flags differ, each as the first and as the second snapshot
  has it, closed by the header of the first. It returns true exactly when some page differs: a change
  of the fields of the header alone is printed but not reported.\<close>

theorem print_diff_result:
  assumes "covers a es (unat (count_virt_pages env a))" "covers b es' (unat (count_virt_pages env a))"
    "vma_start a = vma_start b" "vma_end a = vma_end b"
  shows "\<exists>st'. pagestat_print_diff kpf env (Some a) (Some b) st
       = Inr (\<exists>j < unat (count_virt_pages env a). entry_differs a b j, st')
     \<and> out st' = out st @ header_changes a b @ (if page_changes env a b = [] then []
         else newline @ concat (map (page_change kpf env a b) (page_changes env a b)) @ newline @ print_header a)"
  using diff_found [OF assms, of kpf st] unfolding page_changes_iff .

theorem print_diff_result_witness:
  "\<exists>st'. pagestat_print_diff demo_kpf demo_env (Some (demo_ps 0x1000 [5])) (Some ((demo_ps 0x1000 [5])\<lparr>rss := 4, locked := 2\<rparr>)) init_printer
       = Inr (False, st')
     \<and> out st' = ''rss=[0]->[4] locked=[0]->[2] '' @ newline"
proof -
  have "unat (count_virt_pages demo_env (demo_ps 0x1000 [5])) = 1"
    by (simp add: demo_ps_def count_virt_pages_def demo_page_size)
  moreover have "header_changes (demo_ps 0x1000 [5]) ((demo_ps 0x1000 [5])\<lparr>rss := 4, locked := 2\<rparr>)
      = ''rss=[0]->[4] locked=[0]->[2] '' @ newline"
    by code_simp
  moreover have "page_changes demo_env (demo_ps 0x1000 [5]) ((demo_ps 0x1000 [5])\<lparr>rss := 4, locked := 2\<rparr>) = []"
    using calculation(1) by (simp add: page_changes_def entry_differs_def demo_ps_def)
  ultimately show ?thesis
    using print_diff_result [of "demo_ps 0x1000 [5]" "[5]" demo_env "(demo_ps 0x1000 [5])\<lparr>rss := 4, locked := 2\<rparr>" "[5]" demo_kpf init_printer]
    by (simp add: covers_def entry_differs_def demo_ps_def init_printer_def)
qed

text \<open>A difference leaves the run of the last page printed pending in the static variables, so that a
  \<open>pagestat_print\<close> that follows need not print the first pages of its mapping: after a difference
  on a mapping of one page, a mapping of one page that continues the run is listed as repetitions of
  a line that was not printed for it.\<close>

theorem stale_run_hides_page:
  assumes "covers a [x] 1" "covers b [y] 1" "covers c [z] 1" "x \<noteq> y" "vma_start a = vma_start b" "vma_end a = vma_end b"
    "unat (count_virt_pages env a) = 1" "unat (count_virt_pages env c) = 1"
    "joins (INVALID_VALUE, 0, y) (vma_start c, 0, z)" "\<not> hidden c"
  shows "\<exists>st1 st2. pagestat_print_diff kpf env (Some a) (Some b) init_printer = Inr (True, st1)
    \<and> pagestat_print kpf env (Some c) st1 = Inr (True, st2)
    \<and> out st2 = out st1 @ print_header c @ fmt_016lx (vma_start c) @ '': (2 more repetitions of above)'' @ newline"
proof -
  obtain st1 where st1: "pagestat_print_diff kpf env (Some a) (Some b) init_printer = Inr (True, st1)"
    "at_page st1 (INVALID_VALUE, 0, y) 2"
    using diff_one_page [OF assms(1,2,4-7)] by blast
  have e: "at_page (emit (print_header c) st1) (INVALID_VALUE, 0, y) 2" using st1(2) by (simp add: at_page_def)
  have r: "runs ((INVALID_VALUE, 0, y) # page_list env [z] 1 0 (vma_start c)) = ((INVALID_VALUE, 0, y) # [(vma_start c, 0, z)]) # []"
    using assms(9) by simp
  show ?thesis
    using print_pages_runs [OF assms(3) _ _ e _ _ r, of kpf] st1(1) assms(8,10)
    by (auto simp: pagestat_print_def hidden_def rest_text_def fmt_lu_2
        sbind_eq_Inr_iff split: option.splits)
qed

theorem stale_run_hides_page_witness:
  "\<exists>st1 st2. pagestat_print_diff demo_kpf demo_env (Some (demo_ps 0x1000 [0])) (Some (demo_ps 0x1000 [0x8000000000000006])) init_printer
      = Inr (True, st1)
    \<and> pagestat_print demo_kpf demo_env (Some (demo_ps 0x5000 [0x8000000000000007])) st1 = Inr (True, st2)
    \<and> out st2 = out st1 @ print_header (demo_ps 0x5000 [0x8000000000000007])
        @ fmt_016lx 0x5000 @ '': (2 more repetitions of above)'' @ newline"
proof -
  have "joins (INVALID_VALUE, 0, 0x8000000000000006) (0x5000, 0, 0x8000000000000007)" by code_simp
  then show ?thesis
    using stale_run_hides_page [of "demo_ps 0x1000 [0]" 0 "demo_ps 0x1000 [0x8000000000000006]" "0x8000000000000006"
       "demo_ps 0x5000 [0x8000000000000007]" "0x8000000000000007" demo_env demo_kpf]
    by (simp add: covers_def demo_ps_def count_virt_pages_def demo_page_size hidden_def zero_pagestat_def)
qed

text \<open>When a run has exactly two pages the second is printed from the saved state. With a frame this is the
  line of the page itself; for a swapped page the saved state has lost the low 55 bits, and the line
  shows type and offset 0 whatever the entry holds.\<close>

theorem second_page_text:
  "run_text kpf ps [p, (addr, i, val)] = page_text kpf ps p
     @ (if has_pfn val then page_text kpf ps (addr, i, val) else page_text kpf ps (addr, i, val AND NOT (mask 55)))
   \<and> (bit val 62 \<longrightarrow> (\<exists>s. page_text kpf ps (addr, i, val AND NOT (mask 55)) = s @ ''swap_type=[0] swap_offset=[0] '' @ newline))"
proof
  show "run_text kpf ps [p, (addr, i, val)] = page_text kpf ps p
     @ (if has_pfn val then page_text kpf ps (addr, i, val) else page_text kpf ps (addr, i, val AND NOT (mask 55)))"
    by (simp add: run_text_def rest_text_def shown_def PFN_MASK_mask)
next
  let ?w = "val AND NOT (mask 55)"
  have t: "?w AND PAGEMAP_SWAP_TYPE_MASK = 0"
    by (intro bit_eqI) (auto simp: PAGEMAP_SWAP_TYPE_MASK_def low_mask bit_simps)
  have o: "drop_bit PAGEMAP_SWAP_TYPE_NUM_BITS ?w AND PAGEMAP_SWAP_OFFSET_MASK = 0"
    by (intro bit_eqI) (auto simp: PAGEMAP_SWAP_OFFSET_MASK_def PAGEMAP_SWAP_TYPE_NUM_BITS_def low_mask bit_simps)
  have z: "fmt_lx 0 = ''0''" by code_simp
  show "bit val 62 \<longrightarrow> (\<exists>s. page_text kpf ps (addr, i, ?w) = s @ ''swap_type=[0] swap_offset=[0] '' @ newline)"
  proof
    assume "bit val 62"
    then have "CHECK_BIT ?w PAGEMAP_SWAPPED_BIT"
      by (simp add: CHECK_BIT_bit PAGEMAP_SWAPPED_BIT_def bit_simps)
    then show "\<exists>s. page_text kpf ps (addr, i, ?w) = s @ ''swap_type=[0] swap_offset=[0] '' @ newline"
      by (intro exI [of _ "mapping_columns addr ?w"]) (simp only: swapped_text t o z, simp)
  qed
qed

theorem second_page_text_witness:
  "\<exists>s. page_text demo_kpf zero_pagestat (0x1000, 0, 0x4000000000000020 AND NOT (mask 55)) = s @ ''swap_type=[0] swap_offset=[0] '' @ newline"
  using second_page_text [of demo_kpf zero_pagestat "(0, 0, 0)" "0x1000" 0 "0x4000000000000020"]
  by (simp add: demo_swapped)

text \<open>Every turn of the endless loop of \<open>watch\<close> that opens smaps leaves one more stream open.\<close>

theorem watch_leaks_stream:
  assumes "watch_turn kpf g pid silent env w = Inr w'" "proc_path pid ''/smaps'' = Inr path" "text_file env path \<noteq> None"
  shows "streams (w_io w') = streams (w_io w) + 1"
  using assms by (rule watch_turn_streams)

theorem watch_leaks_stream_witness:
  "\<exists>w'. watch_turn demo_kpf demo_garbage ''1'' True demo_empty \<lparr>w_pss = [], w_printer = init_printer, w_io = \<lparr>live = 0, streams = 0\<rparr>\<rparr> = Inr w'
     \<and> streams (w_io w') = 1"
proof -
  let ?w = "\<lparr>w_pss = [], w_printer = init_printer, w_io = \<lparr>live = 0, streams = 0\<rparr>\<rparr>"
  obtain io' where "pagestat_snapshot_all demo_empty demo_garbage ''1'' (w_io ?w) = Inr (Some [], io')"
    using snapshot_all_run [OF _ demo_paths, of "[]" demo_empty demo_garbage "w_io ?w"]
    by (auto simp: demo_empty_def MAX_MAPS_def)
  then obtain w' where "watch_turn demo_kpf demo_garbage ''1'' True demo_empty ?w = Inr w'"
    by (simp add: watch_turn_def pagestat_print_diff_all_def diff_all_empty)
  then show ?thesis using watch_leaks_stream [OF _ demo_paths(2), of demo_kpf demo_garbage True demo_empty ?w w']
    by (auto simp: demo_empty_def)
qed

end
