(* ===== verification/Read_Pageflags.thy ===== *)
theory Read_Pageflags
  imports Pagestat_Correct Pagestat_Print
begin

text \<open>
  \<open>read-pageflags/read-pageflags.c\<close>: the library that reads the page map entry, the frame and the
  kernel's flags of one address and prints them. It shares its helpers with \<open>pagestat.c\<close> by copying;
  the copies are translated here again and shown to agree with the originals. The \<open>/proc\<close> files are
  the record of \<open>Pagestat\<close>; the two optional character devices, which a kernel module provides, are a
  second parameter. Messages on stderr are not modelled.
\<close>

section \<open>Devices\<close>

text \<open>
  A character device that answers a frame number written to it: whether the write succeeds, whether
  it can be opened again for reading, and the bytes it delivers then. \<open>None\<close> is an absent device.
\<close>

record device =
  d_write :: "u64 \<Rightarrow> bool"
  d_reopen :: bool
  d_reply :: "u64 \<Rightarrow> string"

record devices =
  dev_refcount :: "device option"
  dev_pagebuffers :: "device option"

section \<open>Reading entries\<close>

definition read_u64 :: "procfs \<Rightarrow> string \<Rightarrow> u64 \<Rightarrow> u64" where
  "read_u64 env path off = (case u64_file env path of
      None \<Rightarrow> INVALID_VALUE
    | Some contents \<Rightarrow>
        if sint off < 0 then INVALID_VALUE
        else (case contents off 1 of [w] \<Rightarrow> w | _ \<Rightarrow> INVALID_VALUE))"

definition extract_pfn :: "u64 \<Rightarrow> u64" where
  "extract_pfn val =
     (if val = INVALID_VALUE then INVALID_VALUE
      else if CHECK_BIT val PAGEMAP_SWAPPED_BIT then INVALID_VALUE
      else if \<not> CHECK_BIT val PAGEMAP_PRESENT_BIT then INVALID_VALUE
      else val AND PAGEMAP_PFN_MASK)"

definition read_pagemap :: "procfs \<Rightarrow> u64 \<Rightarrow> u64" where
  "read_pagemap env ptr =
     (let virt_page_num = ptr div page_size env; off = virt_page_num * 8
      in read_u64 env ''/proc/self/pagemap'' off)"

definition read_pfn :: "procfs \<Rightarrow> u64 \<Rightarrow> u64" where
  "read_pfn env ptr = extract_pfn (read_pagemap env ptr)"

definition read_kpageflags :: "procfs \<Rightarrow> u64 \<Rightarrow> u64" where
  "read_kpageflags env pfn = read_u64 env ''/proc/kpageflags'' (pfn * 8)"

definition read_mapcount :: "procfs \<Rightarrow> u64 \<Rightarrow> u64" where
  "read_mapcount env pfn = read_u64 env ''/proc/kpagecount'' (pfn * 8)"

text \<open>\<open>fscanf("%d")\<close>: \<open>None\<close> is the end of the input, and a text that is no number leaves the variable
  at its initial 0. The value is stored in 32 bits.\<close>

definition scan_d :: "string \<Rightarrow> int option" where
  "scan_d s =
     (let r = dropWhile is_space s; (neg, r') = scan_sign r; ds = takeWhile is_digit r';
          v = int (base_val 10 ds) in
      if r = [] then None
      else if ds = [] then Some 0
      else Some (sint (word_of_int (if neg then - v else v) :: 32 word)))"

definition get_refcount :: "devices \<Rightarrow> u64 \<Rightarrow> cerr + int" where
  "get_refcount devs pfn = (case dev_refcount devs of
      None \<Rightarrow> Inr (- 1)
    | Some d \<Rightarrow>
        if \<not> d_write d pfn then Inl (Exit 1)
        else if \<not> d_reopen d then Inl NullDeref
        else (case scan_d (d_reply d pfn) of None \<Rightarrow> Inl (Exit 1) | Some n \<Rightarrow> Inr n))"

text \<open>The buffer has 255 bytes and up to 255 are read; the terminator goes behind them. The text that
  is printed ends at the first null byte.\<close>

definition print_page_buffers :: "devices \<Rightarrow> u64 \<Rightarrow> cerr + string" where
  "print_page_buffers devs pfn = (case dev_pagebuffers devs of
      None \<Rightarrow> Inr []
    | Some d \<Rightarrow>
        if \<not> d_write d pfn then Inl (Exit 1)
        else if \<not> d_reopen d then Inl NullDeref
        else
          let buf = take 255 (d_reply d pfn); count = length buf in
          if count = 0 then Inl (Exit 1)
          else if count \<ge> 255 then Inl BufferOverflow
          else Inr (''page_buffers='' @ takeWhile (\<lambda>c. c \<noteq> CHR 0x00) buf @ '' ''))"

section \<open>Printing flags\<close>

definition rp_flag :: "u64 \<Rightarrow> nat \<times> string \<Rightarrow> string" where
  "rp_flag flags f = (if CHECK_BIT flags (fst f) then snd f @ '' '' else [])"

definition print_kpageflags :: "kpf \<Rightarrow> u64 \<Rightarrow> string" where
  "print_kpageflags kpf flags =
     (let h = map (\<lambda>nm. (kpf nm, nm)) in
      concat (map (rp_flag flags)
        (h [''ACTIVE'', ''ANON'', ''BUDDY'', ''COMPOUND_HEAD'', ''COMPOUND_TAIL'', ''DIRTY'', ''ERROR'',
            ''HUGE'', ''HWPOISON'', ''IDLE'', ''KSM'', ''LOCKED'', ''LRU'', ''MMAP'', ''NOPAGE'', ''OFFLINE'',
            ''PGTABLE'', ''RECLAIM'', ''REFERENCED'', ''SLAB'', ''SWAPBACKED'', ''SWAPCACHE'', ''THP'',
            ''UNEVICTABLE'', ''UPTODATE'', ''WRITEBACK'', ''ZERO_PAGE'']
         @ [(KPF_RESERVED, ''RESERVED''), (KPF_MLOCKED, ''MLOCKED'')]))
      @ (if CHECK_BIT flags KPF_MAPPEDTODISK
         then (if CHECK_BIT flags (kpf ''ANON'') then ''ANON_EXCLUSIVE '' else ''MAPPEDTODISK '') else [])
      @ concat (map (rp_flag flags)
          [(KPF_PRIVATE, ''PRIVATE''), (KPF_PRIVATE_2, ''PRIVATE_2''), (KPF_OWNER_PRIVATE, ''OWNER_PRIVATE''),
           (KPF_ARCH, ''ARCH''), (KPF_UNCACHED, ''UNCACHED''), (KPF_SOFTDIRTY, ''SOFTDIRTY''), (KPF_ARCH_2, ''ARCH_2'')]))"

definition print_pagemap_flags :: "u64 \<Rightarrow> string" where
  "print_pagemap_flags val =
     ''['' @ (if CHECK_BIT val PAGEMAP_SOFT_DIRTY_BIT then ''s'' else '' '')
     @ (if CHECK_BIT val PAGEMAP_EXCLUSIVE_MAPPED_BIT then ''x'' else '' '')
     @ (if CHECK_BIT val PAGEMAP_IS_FILE_BIT then ''f'' else '' '')
     @ (if CHECK_BIT val PAGEMAP_SWAPPED_BIT then ''S'' else '' '')
     @ (if CHECK_BIT val PAGEMAP_PRESENT_BIT then ''p'' else '' '') @ ''] ''"

section \<open>Mapping data\<close>

fun hex_loop :: "u64 \<Rightarrow> string \<Rightarrow> u64" where
  "hex_loop ret [] = ret"
| "hex_loop ret (chr # str) =
     (let ret = push_bit 4 ret in
      if chr_between (CHR ''a'') (CHR ''f'') chr then hex_loop (ret + (10 + of_char chr - of_char (CHR ''a''))) str
      else if chr_between (CHR ''A'') (CHR ''F'') chr then hex_loop (ret + (10 + of_char chr - of_char (CHR ''A''))) str
      else if chr_between (CHR ''0'') (CHR ''9'') chr then hex_loop (ret + (of_char chr - of_char (CHR ''0''))) str
      else INVALID_VALUE)"

definition parse_hex :: "string \<Rightarrow> u64" where
  "parse_hex str = hex_loop 0 str"

definition extract_address_range :: "string \<Rightarrow> (u64 \<times> u64) option" where
  "extract_address_range str =
     (let ptr = dropWhile not_dash str in
      if ptr = [] then None
      else
        let from = parse_hex (takeWhile not_dash str) in
        if from = INVALID_VALUE then None
        else
          let to = parse_hex (tl ptr) in
          if to = INVALID_VALUE then None else Some (from, to))"

record map_data =
  md_perms :: string
  md_offset :: u64
  md_inode :: u64
  md_name :: string

text \<open>\<open>None\<close> is the result false; what is left in \<open>*out\<close> then is not modelled, since the only caller
  drops it.\<close>

definition extract_mapdata :: "string \<Rightarrow> cerr + map_data option" where
  "extract_mapdata line =
     sbind (sscanf [CStr 255, CStr 5, CStr 64, CStr 64, CLu, CStr 255] line) (\<lambda>vs.
       (case vs of
          VStr rng # VStr perms' # VStr offset' # VStr dev_num # VLu inode # rest \<Rightarrow>
            let off = parse_hex offset' in
            if off = INVALID_VALUE then Inr None
            else Inr (Some \<lparr>md_perms = perms', md_offset = off, md_inode = inode,
              md_name = (case rest of VStr nm # _ \<Rightarrow> nm | _ \<Rightarrow> [])\<rparr>)
        | _ \<Rightarrow> Inr None))"

text \<open>The loop over the lines; the token buffer keeps its contents when a line holds no token.\<close>

fun find_map_line :: "u64 \<Rightarrow> string \<Rightarrow> string list \<Rightarrow> cerr + string option" where
  "find_map_line vaddr buf [] = Inr None"
| "find_map_line vaddr buf (line # fp) =
     sbind (sscanf [CStr 255] line) (\<lambda>vs.
       let buf = (case vs of VStr t # _ \<Rightarrow> t | _ \<Rightarrow> buf) in
       case extract_address_range buf of
         None \<Rightarrow> Inr None
       | Some (from, to) \<Rightarrow>
           if vaddr \<ge> from \<and> vaddr < to then Inr (Some line)
           else find_map_line vaddr (takeWhile not_dash buf) fp)"

definition read_mapdata :: "procfs \<Rightarrow> string \<Rightarrow> u64 \<Rightarrow> cerr + map_data option" where
  "read_mapdata env buf ptr = (case text_file env ''/proc/self/maps'' of
      None \<Rightarrow> Inr None
    | Some ls \<Rightarrow>
        sbind (find_map_line ptr buf ls) (\<lambda>found. case found of
            None \<Rightarrow> Inr None
          | Some line \<Rightarrow> extract_mapdata line))"

text \<open>\<open>EXTENDED_MAP_DATA\<close> is not defined.\<close>

definition print_map_data :: "map_data \<Rightarrow> string" where
  "print_map_data md = ''['' @ md_perms md @ ''] ''"

section \<open>Printing a page\<close>

definition page_details :: "kpf \<Rightarrow> devices \<Rightarrow> u64 \<Rightarrow> u64 \<Rightarrow> u64 \<Rightarrow> string \<Rightarrow> cerr + string" where
  "page_details kpf devs pfn kflags mapcount descr =
     sbind (get_refcount devs pfn) (\<lambda>refcount.
     sbind (print_page_buffers devs pfn) (\<lambda>buffers.
       Inr ((if refcount \<noteq> - 1 then ''refcount='' @ fmt_d refcount @ '' '' else []) @ buffers
         @ (if mapcount = INVALID_VALUE then ''mapcount=(failed) '' else ''mapcount='' @ fmt_lu mapcount @ '' '')
         @ print_kpageflags kpf kflags @ '' ['' @ descr @ '']'' @ newline)))"

definition print_flags_phys :: "kpf \<Rightarrow> procfs \<Rightarrow> devices \<Rightarrow> u64 \<Rightarrow> string \<Rightarrow> cerr + string" where
  "print_flags_phys kpf env devs pfn descr =
     (if pfn = INVALID_VALUE then Inr (''(not present) ['' @ descr @ '']'' @ newline)
      else if pfn = 0 then Inr (''(cannot retrieve PFN) ['' @ descr @ '']'' @ newline)
      else
        let head = ''              : [    ] [     ] pfn='' @ fmt_lu pfn;
            kflags = read_kpageflags env pfn in
        if kflags = INVALID_VALUE then Inr (head @ ''(cannot retrieve kpageflags) ['' @ descr @ '']'' @ newline)
        else sbind (page_details kpf devs pfn kflags (read_mapcount env pfn) descr) (\<lambda>s. Inr (head @ s)))"

definition print_flags_virt_precalc ::
  "kpf \<Rightarrow> devices \<Rightarrow> u64 \<Rightarrow> u64 \<Rightarrow> u64 \<Rightarrow> u64 \<Rightarrow> u64 \<Rightarrow> map_data option \<Rightarrow> string \<Rightarrow> cerr + (bool \<times> string)" where
  "print_flags_virt_precalc kpf devs ptr pagemap pfn kflags mapcount mapfields descr =
     (let head = fmt_p ptr @ '': '' @ (case mapfields of None \<Rightarrow> [] | Some md \<Rightarrow> print_map_data md) in
      if pagemap = INVALID_VALUE then Inr (False, head @ ''(invalid pagemap) ['' @ descr @ '']'' @ newline)
      else
        let head = head @ print_pagemap_flags pagemap in
        if pfn = INVALID_VALUE then Inr (True, head @ ''(not present) ['' @ descr @ '']'' @ newline)
        else if pfn = 0 then Inr (False, head @ ''(cannot retrieve PFN) ['' @ descr @ '']'' @ newline)
        else
          let head = head @ ''pfn='' @ fmt_lu pfn @ '': '' in
          if kflags = INVALID_VALUE then
            Inr (False, head @ ''(cannot retrieve kpageflags) ['' @ descr @ '']'' @ newline)
          else sbind (page_details kpf devs pfn kflags mapcount descr) (\<lambda>s. Inr (True, head @ s)))"

text \<open>The condition \<open>pfn == INVALID_VALUE || 0\<close> of the source does not test for the frame 0.\<close>

definition print_flags_virt ::
  "kpf \<Rightarrow> procfs \<Rightarrow> devices \<Rightarrow> string \<Rightarrow> u64 \<Rightarrow> string \<Rightarrow> cerr + (bool \<times> string)" where
  "print_flags_virt kpf env devs buf ptr descr =
     sbind (read_mapdata env buf ptr) (\<lambda>mapfields.
       let pagemap = read_pagemap env ptr;
           pr = print_flags_virt_precalc kpf devs ptr in
       if pagemap = INVALID_VALUE then
         pr INVALID_VALUE INVALID_VALUE INVALID_VALUE INVALID_VALUE mapfields descr
       else
         let pfn = extract_pfn pagemap in
         if pfn = INVALID_VALUE \<or> False then pr pagemap pfn INVALID_VALUE INVALID_VALUE mapfields descr
         else
           let kflags = read_kpageflags env pfn in
           if kflags = INVALID_VALUE then pr pagemap pfn INVALID_VALUE INVALID_VALUE mapfields descr
           else
             let mapcount = read_mapcount env pfn in
             if mapcount = INVALID_VALUE then pr pagemap pfn kflags INVALID_VALUE mapfields descr
             else pr pagemap pfn kflags mapcount mapfields descr)"

section \<open>Agreement of the copies\<close>

lemma hex_loop_eq: "hex_loop ret str = parse_hex_loop ret str"
  by (induction ret str rule: hex_loop.induct) (simp_all add: parse_hex_loop.simps Let_def)

lemma parse_hex_agrees: "parse_hex str = Maps_Parse.parse_hex str"
  by (simp add: parse_hex_def Maps_Parse.parse_hex_def hex_loop_eq)

lemma extract_address_range_agrees: "extract_address_range str = Maps_Parse.extract_address_range str"
  by (simp add: extract_address_range_def Maps_Parse.extract_address_range_def parse_hex_agrees Let_def)

lemma extract_pfn_agrees: "extract_pfn val = get_pfn val"
proof (cases "val = INVALID_VALUE")
  case True
  then show ?thesis using has_pfn_bits [of val] by (simp add: extract_pfn_def get_pfn_def)
next
  case False
  then show ?thesis by (simp add: extract_pfn_def get_pfn_def has_pfn_def)
qed

lemma read_u64_agrees: "read_u64 env path (i * 8) = u64_entry env path i"
  by (auto simp: read_u64_def u64_entry_def u64_entries_def length_Suc_conv split: option.splits list.splits)

section \<open>Mapping data of an address\<close>

definition v_holds :: "u64 \<Rightarrow> vma \<Rightarrow> bool" where
  "v_holds ptr v \<longleftrightarrow> v_start v \<le> ptr \<and> ptr < v_end v"

definition mapdata_of :: "vma \<Rightarrow> map_data option" where
  "mapdata_of v = (if v_off v = INVALID_VALUE then None
     else Some \<lparr>md_perms = v_perms v, md_offset = v_off v, md_inode = v_inode v,
       md_name = (case v_name v of None \<Rightarrow> [] | Some n \<Rightarrow> n)\<rparr>)"

lemma parse_hex_hex8: "parse_hex (hex8 w) = w"
  by (simp add: parse_hex_agrees hex8_def parse_hex_pad)

lemma extract_mapdata_header: "wf_vma v \<Longrightarrow> extract_mapdata (header_line v) = Inr (mapdata_of v)"
  by (simp add: extract_mapdata_def header_scan parse_hex_hex8 mapdata_of_def Let_def split: option.splits)

lemma find_map_line_header:
  "list_all wf_vma vs \<Longrightarrow> find_map_line ptr buf (map header_line vs) = Inr (map_option header_line (List.find (v_holds ptr) vs))"
  by (induction vs arbitrary: buf)
    (simp_all add: header_first range_extract extract_address_range_agrees v_holds_def)

lemma read_mapdata_eq:
  assumes "list_all wf_vma vs" "text_file env ''/proc/self/maps'' = Some (map header_line vs)"
  shows "read_mapdata env buf ptr = Inr (Option.bind (List.find (v_holds ptr) vs) mapdata_of)"
proof (cases "List.find (v_holds ptr) vs")
  case None
  then show ?thesis using assms by (simp add: read_mapdata_def find_map_line_header)
next
  case (Some v)
  then have "wf_vma v" using assms(1) by (auto simp: find_Some_iff list_all_iff)
  then show ?thesis using assms Some by (simp add: read_mapdata_def find_map_line_header extract_mapdata_header)
qed

section \<open>Outcomes\<close>

lemma page_details_plain:
  "\<exists>s. page_details kpf \<lparr>dev_refcount = None, dev_pagebuffers = None\<rparr> pfn kf mc descr = Inr s"
  by (simp add: page_details_def get_refcount_def print_page_buffers_def)

text \<open>A process that maps \<open>demo_vmas\<close>, all of whose entries are present with frame 5.\<close>

definition demo_self :: procfs where
  "demo_self = \<lparr>text_file = \<lambda>_. Some (map header_line demo_vmas),
     u64_file = \<lambda>_. Some (\<lambda>off n. replicate (unat n) 0x8000000000000005), page_size = 0x1000\<rparr>"

lemma demo_self_text: "text_file demo_self ''/proc/self/maps'' = Some (map header_line demo_vmas)" "page_size demo_self = 0x1000"
  by (simp_all add: demo_self_def)

section \<open>Properties\<close>

text \<open>The helpers that \<open>read-pageflags.c\<close> and \<open>pagestat.c\<close> each define compute the same: hexadecimal numbers,
  address ranges, the frame of a page map entry, and the entry at an index of a \<open>/proc\<close> file.\<close>

theorem copies_agree:
  "Read_Pageflags.parse_hex str = Maps_Parse.parse_hex str
   \<and> Read_Pageflags.extract_address_range str = Maps_Parse.extract_address_range str
   \<and> extract_pfn val = get_pfn val
   \<and> fst (Pagestat.read_u64 env path i io) = Read_Pageflags.read_u64 env path (i * 8)"
  by (simp add: parse_hex_agrees extract_address_range_agrees extract_pfn_agrees read_u64_agrees read_u64_eq)

text \<open>C22. \<open>read_mapdata\<close> on the lines the kernel writes returns permissions, offset, inode and name (up to its first blank) of the first
  mapping that holds the address, and fails when none does or when its offset is the sentinel.\<close>

theorem read_mapdata_finds:
  assumes "list_all wf_vma vs" "text_file env ''/proc/self/maps'' = Some (map header_line vs)"
  shows "read_mapdata env buf ptr = Inr (case List.find (v_holds ptr) vs of
      None \<Rightarrow> None
    | Some v \<Rightarrow> if v_off v = INVALID_VALUE then None
        else Some \<lparr>md_perms = v_perms v, md_offset = v_off v, md_inode = v_inode v,
          md_name = (case v_name v of None \<Rightarrow> [] | Some n \<Rightarrow> n)\<rparr>)"
  using read_mapdata_eq [OF assms] by (simp add: mapdata_of_def split: option.splits)

theorem read_mapdata_finds_witness:
  "read_mapdata (demo_env\<lparr>text_file := \<lambda>_. Some (map header_line demo_vmas)\<rparr>) [] 0x2100
     = Inr (Some \<lparr>md_perms = ''rw-p'', md_offset = 0, md_inode = 0, md_name = ''[heap]''\<rparr>)"
  using read_mapdata_finds [OF wf_demo, of "demo_env\<lparr>text_file := \<lambda>_. Some (map header_line demo_vmas)\<rparr>" "[]" "0x2100"]
  by (simp add: demo_vmas_def demo_vma_def v_holds_def v_perms_def INVALID_VALUE_def)

text \<open>\<open>print_flags_virt\<close> without the optional devices always completes. It reports success exactly when the page
  map entry could be read and either has no frame or has one, not 0, whose flags could be read.\<close>

theorem print_flags_virt_result:
  assumes "list_all wf_vma vs" "text_file env ''/proc/self/maps'' = Some (map header_line vs)"
  shows "\<exists>s. print_flags_virt kpf env \<lparr>dev_refcount = None, dev_pagebuffers = None\<rparr> buf ptr descr
    = Inr (let e = u64_entry env ''/proc/self/pagemap'' (ptr div page_size env); pfn = get_pfn e in
        e \<noteq> INVALID_VALUE \<and> (pfn = INVALID_VALUE
          \<or> pfn \<noteq> 0 \<and> u64_entry env ''/proc/kpageflags'' pfn \<noteq> INVALID_VALUE), s)"
  using page_details_plain
  by (auto simp: print_flags_virt_def read_mapdata_eq [OF assms] print_flags_virt_precalc_def read_pagemap_def
      read_kpageflags_def read_mapcount_def read_u64_agrees extract_pfn_agrees Let_def)
    (metis sbind_Inr)+

theorem print_flags_virt_result_witness:
  "\<exists>s. print_flags_virt (\<lambda>_. 0) demo_self \<lparr>dev_refcount = None, dev_pagebuffers = None\<rparr> [] 0x2100 ''heap'' = Inr (True, s)"
proof -
  have e: "u64_entry demo_self path i = 0x8000000000000005" if "i \<in> {2, 5}" for path i
    using that by (auto simp: u64_entry_def u64_entries_def demo_self_def)
  moreover have "get_pfn 0x8000000000000005 = 5" by code_simp
  ultimately show ?thesis
    using print_flags_virt_result [OF wf_demo, of demo_self "\<lambda>_. 0" "[]" "0x2100" "''heap''"]
    by (simp add: demo_self_text e INVALID_VALUE_def Let_def)
qed

text \<open>A device that answers with 255 bytes or more makes \<open>print_page_buffers\<close> write its terminator behind the
  end of the buffer; a shorter answer is printed up to its first null byte.\<close>

theorem page_buffers_bound:
  assumes "dev_pagebuffers devs = Some d" "d_write d pfn" "d_reopen d" "d_reply d pfn \<noteq> []"
  shows "print_page_buffers devs pfn = (if length (d_reply d pfn) \<ge> 255 then Inl BufferOverflow
     else Inr (''page_buffers='' @ takeWhile (\<lambda>c. c \<noteq> CHR 0x00) (d_reply d pfn) @ '' ''))"
  using assms by (auto simp: print_page_buffers_def Let_def)

theorem page_buffers_bound_witness:
  "print_page_buffers \<lparr>dev_refcount = None, dev_pagebuffers = Some \<lparr>d_write = \<lambda>_. True, d_reopen = True,
     d_reply = \<lambda>_. replicate 255 (CHR ''x'')\<rparr>\<rparr> 5 = Inl BufferOverflow"
  using page_buffers_bound [of "\<lparr>dev_refcount = None, dev_pagebuffers = Some \<lparr>d_write = \<lambda>_. True, d_reopen = True,
     d_reply = \<lambda>_. replicate 255 (CHR ''x'')\<rparr>\<rparr>" "\<lparr>d_write = \<lambda>_. True, d_reopen = True,
     d_reply = \<lambda>_. replicate 255 (CHR ''x'')\<rparr>" 5]
  by simp

end
