(* ===== verification/Oldmalloc.thy ===== *)
theory Oldmalloc
  imports Bitwise C_Lib
begin

text \<open>
  The allocator of \<open>musl/oldmalloc.c\<close>. Memory is modelled by the fields of \<open>struct chunk\<close>: each is a
  function from chunk addresses to 64-bit values. The head and tail of bin \<open>i\<close> are the fields \<open>next\<close>
  and \<open>prev\<close> of the node at \<open>BIN_TO_CHUNK(i)\<close>, as the comment in \<open>bin_chunk\<close> explains; the address of
  \<open>mal.bins\<close> is a parameter of the functions that use it. Chunks are 16 bytes below a multiple of 32
  and at least 32 bytes long, so the four fields of two chunks never overlap, which is what makes the
  four functions a faithful memory. The kernel is a parameter too: whether an increase of the break
  succeeds and where a mapping is placed.
\<close>

section \<open>Constants\<close>

definition PAGE_SIZE :: u64 where "PAGE_SIZE = 4096"
definition SIZE_ALIGN :: u64 where "SIZE_ALIGN = 32"
definition OVERHEAD :: u64 where "OVERHEAD = 16"
definition MMAP_THRESHOLD :: u64 where "MMAP_THRESHOLD = 0x1c00 * SIZE_ALIGN"
definition DONTCARE :: u64 where "DONTCARE = 16"
definition RECLAIM :: u64 where "RECLAIM = 163840"
definition C_INUSE :: u64 where "C_INUSE = 1"
definition SIZE_MAX :: u64 where "SIZE_MAX = - 1"
definition PTRDIFF_MAX :: u64 where "PTRDIFF_MAX = 0x7fffffffffffffff"

section \<open>State\<close>

text \<open>What the kernel answers: whether the break may move by an increment, and the address at which
  it places a mapping of some length (\<open>None\<close> is \<open>MAP_FAILED\<close>), by the number of the call and the mappings there are.\<close>

record os =
  sbrk_ok :: "u64 \<Rightarrow> u64 \<Rightarrow> bool"
  mmap_at :: "nat \<Rightarrow> (u64 \<times> u64) list \<Rightarrow> u64 \<Rightarrow> u64 option"

record mal =
  psize :: "u64 \<Rightarrow> u64"
  csize :: "u64 \<Rightarrow> u64"
  nxt :: "u64 \<Rightarrow> u64"
  prv :: "u64 \<Rightarrow> u64"
  binmap :: u64
  stored_brk :: u64
  mmap_step :: u32
  heap_end :: u64
  allocated_bytes :: u64
  free_bytes :: u64
  heap_bytes :: u64
  free_block_bytes :: u64
  mmap_bytes :: u64
  reclaimed_bytes :: u64
  sys_brk :: u64
  maps :: "(u64 \<times> u64) list"
  mmap_calls :: nat
  dropped :: "(u64 \<times> u64) list"

definition set_psize :: "u64 \<Rightarrow> u64 \<Rightarrow> mal \<Rightarrow> mal" where
  "set_psize c v s = s\<lparr>psize := (psize s)(c := v)\<rparr>"

definition set_csize :: "u64 \<Rightarrow> u64 \<Rightarrow> mal \<Rightarrow> mal" where
  "set_csize c v s = s\<lparr>csize := (csize s)(c := v)\<rparr>"

definition set_nxt :: "u64 \<Rightarrow> u64 \<Rightarrow> mal \<Rightarrow> mal" where
  "set_nxt c v s = s\<lparr>nxt := (nxt s)(c := v)\<rparr>"

definition set_prv :: "u64 \<Rightarrow> u64 \<Rightarrow> mal \<Rightarrow> mal" where
  "set_prv c v s = s\<lparr>prv := (prv s)(c := v)\<rparr>"

definition CHUNK_SIZE :: "mal \<Rightarrow> u64 \<Rightarrow> u64" where
  "CHUNK_SIZE s c = csize s c AND - 2"

definition CHUNK_PSIZE :: "mal \<Rightarrow> u64 \<Rightarrow> u64" where
  "CHUNK_PSIZE s c = psize s c AND - 2"

definition PREV_CHUNK :: "mal \<Rightarrow> u64 \<Rightarrow> u64" where
  "PREV_CHUNK s c = c - CHUNK_PSIZE s c"

definition NEXT_CHUNK :: "mal \<Rightarrow> u64 \<Rightarrow> u64" where
  "NEXT_CHUNK s c = c + CHUNK_SIZE s c"

definition MEM_TO_CHUNK :: "u64 \<Rightarrow> u64" where
  "MEM_TO_CHUNK p = p - OVERHEAD"

definition CHUNK_TO_MEM :: "u64 \<Rightarrow> u64" where
  "CHUNK_TO_MEM c = c + OVERHEAD"

text \<open>\<open>struct bin\<close> has 24 bytes, and its \<open>head\<close> lies at offset 8.\<close>

definition BIN_TO_CHUNK :: "u64 \<Rightarrow> nat \<Rightarrow> u64" where
  "BIN_TO_CHUNK bins i = MEM_TO_CHUNK (bins + 24 * of_nat i + 8)"

definition IS_MMAPPED :: "mal \<Rightarrow> u64 \<Rightarrow> bool" where
  "IS_MMAPPED s c \<longleftrightarrow> csize s c AND C_INUSE = 0"

section \<open>Bins\<close>

definition lock_bin :: "u64 \<Rightarrow> nat \<Rightarrow> mal \<Rightarrow> mal" where
  "lock_bin bins i s =
     (let b = BIN_TO_CHUNK bins i in
      if nxt s b = 0 then set_nxt b b (set_prv b b s) else s)"

fun ctz :: "nat \<Rightarrow> u64 \<Rightarrow> nat" where
  "ctz 0 x = 0"
| "ctz (Suc k) x = (if bit x 0 then 0 else Suc (ctz k (drop_bit 1 x)))"

text \<open>\<open>__builtin_ctzl\<close>, undefined for 0.\<close>

definition first_set :: "u64 \<Rightarrow> nat" where
  "first_set x = ctz 64 x"

definition bin_tab :: "nat list" where
  "bin_tab = [32,33,34,35,36,36,37,37,38,38,39,39,
    40,40,40,40,41,41,41,41,42,42,42,42,43,43,43,43,
    44,44,44,44,44,44,44,44,45,45,45,45,45,45,45,45,
    46,46,46,46,46,46,46,46,47,47,47,47,47,47,47,47]"

definition bin_index :: "u64 \<Rightarrow> nat" where
  "bin_index x =
     (let x = x div SIZE_ALIGN - 1 in
      if x \<le> 32 then unat x
      else if x < 512 then bin_tab ! unat (x div 8 - 4)
      else if x > 0x1c00 then 63
      else bin_tab ! unat (x div 128 - 4) + 16)"

text \<open>The last table access has no guard.\<close>

definition bin_index_up :: "u64 \<Rightarrow> cerr + nat" where
  "bin_index_up x =
     (let x = x div SIZE_ALIGN - 1 in
      if x \<le> 32 then Inr (unat x)
      else
        let x = x - 1 in
        if x < 512 then Inr (bin_tab ! unat (x div 8 - 4) + 1)
        else sbind (aget bin_tab (unat (x div 128 - 4))) (\<lambda>t. Inr (t + 17)))"

definition unbin :: "u64 \<Rightarrow> nat \<Rightarrow> mal \<Rightarrow> mal" where
  "unbin c i s =
     (let s = (if prv s c = nxt s c then s\<lparr>binmap := binmap s AND NOT (push_bit i 1)\<rparr> else s);
          s = set_nxt (prv s c) (nxt s c) s;
          s = set_prv (nxt s c) (prv s c) s;
          s = set_csize c (csize s c OR C_INUSE) s;
          s = set_psize (NEXT_CHUNK s c) (psize s (NEXT_CHUNK s c) OR C_INUSE) s
      in s\<lparr>free_block_bytes := free_block_bytes s - CHUNK_SIZE s c, free_bytes := free_bytes s - CHUNK_SIZE s c\<rparr>)"

definition bin_chunk :: "u64 \<Rightarrow> u64 \<Rightarrow> nat \<Rightarrow> mal \<Rightarrow> mal" where
  "bin_chunk bins self i s =
     (let b = BIN_TO_CHUNK bins i;
          s = set_nxt self b s;
          s = set_prv self (prv s b) s;
          s = set_prv (nxt s self) self s;
          s = set_nxt (prv s self) self s;
          s = (if prv s self = b then s\<lparr>binmap := binmap s OR push_bit i 1\<rparr> else s)
      in s\<lparr>free_block_bytes := free_block_bytes s + CHUNK_SIZE s self, free_bytes := free_bytes s + CHUNK_SIZE s self\<rparr>)"

section \<open>Growing the heap\<close>

text \<open>\<open>sbrk(n)\<close>: the old break, or -1.\<close>

definition sbrk :: "os \<Rightarrow> u64 \<Rightarrow> mal \<Rightarrow> u64 \<times> mal" where
  "sbrk os n s = (if sbrk_ok os (sys_brk s) n then (sys_brk s, s\<lparr>sys_brk := sys_brk s + n\<rparr>) else (- 1, s))"

definition mmap :: "os \<Rightarrow> u64 \<Rightarrow> mal \<Rightarrow> u64 option \<times> mal" where
  "mmap os len s =
     (let s' = s\<lparr>mmap_calls := mmap_calls s + 1\<rparr> in
      case mmap_at os (mmap_calls s) (maps s) len of
        None \<Rightarrow> (None, s')
      | Some base \<Rightarrow> (Some base, s'\<lparr>maps := (base, len) # maps s'\<rparr>))"

definition munmap :: "u64 \<Rightarrow> u64 \<Rightarrow> mal \<Rightarrow> mal" where
  "munmap base len s = s\<lparr>maps := remove1 (base, len) (maps s)\<rparr>"

text \<open>
  The result is the address with the size that was obtained, or \<open>None\<close> for the null pointer. The
  comparison of the pointer \<open>sbrk\<close> returns with 0 is unsigned, and C evaluates it only when
  \<open>would_overflow\<close> is false.
\<close>

definition expand_heap_by_mmap :: "os \<Rightarrow> u64 \<Rightarrow> mal \<Rightarrow> (u64 \<times> u64) option \<times> mal" where
  "expand_heap_by_mmap os n s =
     (let mn = push_bit (unat (mmap_step s div 2)) PAGE_SIZE;
          n = (if n < mn then mn else n);
          (area, s) = mmap os n s;
          s = s\<lparr>mmap_bytes := mmap_bytes s + n\<rparr>
      in case area of
           None \<Rightarrow> (None, s)
         | Some a \<Rightarrow> (Some (a, n), s\<lparr>mmap_step := mmap_step s + 1\<rparr>))"

definition expand_heap_os :: "os \<Rightarrow> u64 \<Rightarrow> mal \<Rightarrow> (u64 \<times> u64) option \<times> mal" where
  "expand_heap_os os n s =
     (if n > SIZE_MAX div 2 - PAGE_SIZE then (None, s)
      else
        let n = align64_up n PAGE_SIZE;
            s = (if stored_brk s = 0 then s\<lparr>stored_brk := align64_up (sys_brk s) PAGE_SIZE\<rparr> else s);
            would_overflow = (n \<ge> SIZE_MAX - stored_brk s);
            (extended, s) = (if would_overflow then (False, s)
              else let (r, s) = sbrk os n s in (r \<ge> 0, s))
        in if extended then
             (Some (stored_brk s, n), s\<lparr>stored_brk := stored_brk s + n, heap_bytes := heap_bytes s + n\<rparr>)
           else expand_heap_by_mmap os n s)"

text \<open>
  The stores of \<open>expand_heap\<close> are the ones that may leave the memory of the process, because \<open>sbrk\<close> may have
  been refused unnoticed: a store of a header needs the header's 16 bytes in the pages below the program break or in a
  mapping, and is the error \<open>BufferOverflow\<close> (a \<open>SIGSEGV\<close>) elsewhere. The chunks of the other operations
  lie within what \<open>expand_heap\<close> and \<open>malloc_mmap\<close> wrote the headers of.
\<close>

definition header_mapped :: "u64 \<Rightarrow> mal \<Rightarrow> bool" where
  "header_mapped c s \<longleftrightarrow> unat c + 16 \<le> unat (align64_up (sys_brk s) PAGE_SIZE)
     \<or> (\<exists>(b, l)\<in>set (maps s). unat b \<le> unat c \<and> unat c + 16 \<le> unat b + unat l)"

definition store_psize :: "u64 \<Rightarrow> u64 \<Rightarrow> mal \<Rightarrow> cerr + mal" where
  "store_psize c v s = (if header_mapped c s then Inr (set_psize c v s) else Inl BufferOverflow)"

definition store_csize :: "u64 \<Rightarrow> u64 \<Rightarrow> mal \<Rightarrow> cerr + mal" where
  "store_csize c v s = (if header_mapped c s then Inr (set_csize c v s) else Inl BufferOverflow)"

text \<open>The sentinel below memory that does not continue the heap: the start and the length of what remains.\<close>

definition heap_sentinel :: "u64 \<Rightarrow> u64 \<Rightarrow> mal \<Rightarrow> cerr + u64 \<times> u64 \<times> mal" where
  "heap_sentinel p n s =
     (if p \<noteq> heap_end s then
        sbind (store_psize (MEM_TO_CHUNK (p + SIZE_ALIGN)) (0 OR C_INUSE) s) (\<lambda>s.
          Inr (p + SIZE_ALIGN, n - SIZE_ALIGN, s))
      else Inr (p, n, s))"

definition expand_heap :: "os \<Rightarrow> u64 \<Rightarrow> mal \<Rightarrow> cerr + u64 option \<times> mal" where
  "expand_heap os n s =
     (case expand_heap_os os (n + SIZE_ALIGN) s of
        (None, s) \<Rightarrow> Inr (None, s)
      | (Some (p, n), s) \<Rightarrow>
          if p = 0 then Inr (None, s)
          else sbind (heap_sentinel p n s) (\<lambda>(p, n, s).
            let s = s\<lparr>heap_end := p + n\<rparr>;
                w = MEM_TO_CHUNK (heap_end s)
            in sbind (store_psize w (n OR C_INUSE) s) (\<lambda>s.
               sbind (store_csize w (0 OR C_INUSE) s) (\<lambda>s.
               let w = MEM_TO_CHUNK p
               in sbind (store_csize w (n OR C_INUSE) s) (\<lambda>s. Inr (Some w, s))))))"

text \<open>\<open>None\<close> is the result -1.\<close>

definition adjust_size :: "u64 \<Rightarrow> u64 option" where
  "adjust_size n =
     (if n - 1 > PTRDIFF_MAX - SIZE_ALIGN - PAGE_SIZE
      then (if n \<noteq> 0 then None else Some SIZE_ALIGN)
      else Some (align64_up (n + OVERHEAD) SIZE_ALIGN))"

section \<open>Allocation\<close>

definition trim :: "u64 \<Rightarrow> u64 \<Rightarrow> u64 \<Rightarrow> mal \<Rightarrow> mal" where
  "trim bins self n s =
     (let n1 = CHUNK_SIZE s self in
      if n1 - n \<le> DONTCARE then s
      else
        let next = NEXT_CHUNK s self;
            split = self + n;
            s = set_psize split (n OR C_INUSE) s;
            s = set_csize split (n1 - n) s;
            s = set_psize next (n1 - n) s;
            s = set_csize self (n OR C_INUSE) s;
            i = bin_index (n1 - n)
        in bin_chunk bins split i (lock_bin bins i s))"

text \<open>
  The loop over the bins. \<open>clear_lowest_bit\<close> returns its result, which the loop discards, so the next
  round starts with the same mask: \<open>None\<close> is a loop that never ends. The inner option is the chunk
  found, \<open>None\<close> when the mask is 0.
\<close>

partial_function (option) search_bins :: "u64 \<Rightarrow> u64 \<Rightarrow> mal \<Rightarrow> (u64 option \<times> mal) option" where
  "search_bins bins msk s =
     (if msk = 0 then Some (None, s)
      else
        let j = first_set msk;
            s = lock_bin bins j s;
            c = nxt s (BIN_TO_CHUNK bins j)
        in if c \<noteq> BIN_TO_CHUNK bins j then Some (Some c, unbin c j s)
           else search_bins bins msk s)"

definition malloc_mmap :: "os \<Rightarrow> u64 \<Rightarrow> mal \<Rightarrow> u64 \<times> mal" where
  "malloc_mmap os n s =
     (let len = align64_up (n + OVERHEAD) PAGE_SIZE in
      case mmap os len s of
        (None, s) \<Rightarrow> (0, s)
      | (Some base, s) \<Rightarrow>
          let c = base + SIZE_ALIGN - OVERHEAD;
              s = set_csize c (len - (SIZE_ALIGN - OVERHEAD)) s;
              s = set_psize c (SIZE_ALIGN - OVERHEAD) s;
              s = s\<lparr>mmap_bytes := mmap_bytes s + len, allocated_bytes := allocated_bytes s + CHUNK_SIZE s c\<rparr>
          in (CHUNK_TO_MEM c, s))"

text \<open>The fast path: the head of the bin the request maps to, when it fits without a split.\<close>

definition malloc_fast :: "u64 \<Rightarrow> u64 \<Rightarrow> nat \<Rightarrow> mal \<Rightarrow> u64 option \<times> mal" where
  "malloc_fast bins n i s =
     (if i < 63 \<and> is_bit_set (binmap s) (of_nat i) then
        let s = lock_bin bins i s;
            c = nxt s (BIN_TO_CHUNK bins i)
        in if c \<noteq> BIN_TO_CHUNK bins i \<and> CHUNK_SIZE s c - n \<le> DONTCARE then
             let s = unbin c i s
             in (Some (CHUNK_TO_MEM c), s\<lparr>allocated_bytes := allocated_bytes s + CHUNK_SIZE s c\<rparr>)
           else (None, s)
      else (None, s))"

definition malloc_finish :: "u64 \<Rightarrow> u64 \<Rightarrow> u64 \<Rightarrow> mal \<Rightarrow> u64 \<times> mal" where
  "malloc_finish bins c n s =
     (let s = trim bins c n s
      in (CHUNK_TO_MEM c, s\<lparr>allocated_bytes := allocated_bytes s + CHUNK_SIZE s c\<rparr>))"

text \<open>The pointer 0 is the null pointer.\<close>

definition musl_malloc :: "os \<Rightarrow> u64 \<Rightarrow> u64 \<Rightarrow> mal \<Rightarrow> (cerr + u64 \<times> mal) option" where
  "musl_malloc os bins n s = (case adjust_size n of
      None \<Rightarrow> Some (Inr (0, s))
    | Some n \<Rightarrow>
        if n > MMAP_THRESHOLD then Some (Inr (malloc_mmap os n s))
        else (case bin_index_up n of
            Inl e \<Rightarrow> Some (Inl e)
          | Inr i \<Rightarrow>
              (case malloc_fast bins n i s of
                 (Some p, s) \<Rightarrow> Some (Inr (p, s))
               | (None, s) \<Rightarrow>
                   Option.bind (search_bins bins (mask_high_bits (binmap s) (of_nat i)) s) (\<lambda>(found, s).
                     case found of
                       Some c \<Rightarrow> Some (Inr (malloc_finish bins c n s))
                     | None \<Rightarrow>
                         Some (sbind (expand_heap os n s) (\<lambda>(r, s). case r of
                            None \<Rightarrow> Inr (0, s)
                          | Some c \<Rightarrow> Inr (malloc_finish bins c n s)))))))"

section \<open>Release\<close>

text \<open>Merging with the free neighbours: the new chunk, its size and state.\<close>

definition merge_prev :: "u64 \<Rightarrow> u64 \<Rightarrow> u64 \<Rightarrow> mal \<Rightarrow> u64 \<times> u64 \<times> mal" where
  "merge_prev bins self sz s =
     (let ps = (if psize s self AND C_INUSE \<noteq> 0 then 0 else CHUNK_PSIZE s self) in
      if ps > 0 then
        let i = bin_index ps; s = lock_bin bins i s in
        if psize s self AND C_INUSE \<noteq> 0 then (self, sz, s)
        else let prev = PREV_CHUNK s self in (prev, sz + ps, unbin prev i s)
      else (self, sz, s))"

definition merge_next :: "u64 \<Rightarrow> u64 \<Rightarrow> u64 \<Rightarrow> u64 \<Rightarrow> mal \<Rightarrow> u64 \<times> u64 \<times> mal" where
  "merge_next bins ns next sz s =
     (if ns > 0 then
        let i = bin_index ns; s = lock_bin bins i s in
        if csize s next AND C_INUSE \<noteq> 0 then (next, sz, s)
        else let s = unbin next i s in (NEXT_CHUNK s next, sz + ns, s)
      else (next, sz, s))"

definition reclaim :: "u64 \<Rightarrow> u64 \<Rightarrow> u64 \<Rightarrow> u64 \<Rightarrow> mal \<Rightarrow> mal" where
  "reclaim self next sz osize s =
     (if sz > RECLAIM \<and> \<not> share_highest_bit sz (sz - osize) then
        let a = align64_up (self + SIZE_ALIGN) PAGE_SIZE;
            b = align64 (next - SIZE_ALIGN) PAGE_SIZE
        in s\<lparr>reclaimed_bytes := reclaimed_bytes s + (b - a), dropped := (a, b) # dropped s\<rparr>
      else s)"

definition bin_free_chunk :: "u64 \<Rightarrow> u64 \<Rightarrow> mal \<Rightarrow> cerr + mal" where
  "bin_free_chunk bins self s =
     (let next = NEXT_CHUNK s self;
          s = s\<lparr>allocated_bytes := allocated_bytes s - CHUNK_SIZE s self\<rparr> in
      if psize s next \<noteq> csize s self then Inl Abort
      else
        let osize = CHUNK_SIZE s self;
            ns = (if csize s next AND C_INUSE \<noteq> 0 then 0 else CHUNK_SIZE s next);
            (self, sz, s) = merge_prev bins self osize s;
            (next, sz, s) = merge_next bins ns next sz s;
            i = bin_index sz;
            s = lock_bin bins i s;
            s = set_csize self sz s;
            s = set_psize next sz s;
            s = bin_chunk bins self i s
        in Inr (reclaim self next sz osize s))"

text \<open>The code does not look at the result of \<open>munmap\<close>; here the kernel always releases the mapping, which is whole.\<close>

definition unmap_chunk :: "u64 \<Rightarrow> mal \<Rightarrow> cerr + mal" where
  "unmap_chunk self s =
     (let s = s\<lparr>allocated_bytes := allocated_bytes s - CHUNK_SIZE s self\<rparr>;
          extra = psize s self;
          base = self - extra;
          len = CHUNK_SIZE s self + extra
      in if extra AND 1 \<noteq> 0 then Inl Abort
         else let s = munmap base len s in Inr (s\<lparr>mmap_bytes := mmap_bytes s - len\<rparr>))"

definition musl_free :: "u64 \<Rightarrow> u64 \<Rightarrow> mal \<Rightarrow> cerr + mal" where
  "musl_free bins p s =
     (if p = 0 then Inr s
      else
        let self = MEM_TO_CHUNK p in
        if IS_MMAPPED s self then unmap_chunk self s else bin_free_chunk bins self s)"

section \<open>Statistics\<close>

text \<open>The walk over one bin; \<open>None\<close> is a walk that does not come back to the bin.\<close>

partial_function (option) dump_bin :: "u64 \<Rightarrow> u64 \<Rightarrow> mal \<Rightarrow> string \<Rightarrow> string option" where
  "dump_bin b cur s acc =
     (if cur = b then Some acc
      else if csize s cur AND C_INUSE \<noteq> 0 then dump_bin b (nxt s cur) s acc
      else dump_bin b (nxt s cur) s (acc @ fmt_lu (csize s cur div SIZE_ALIGN) @ '' ''))"

fun dump_bins :: "nat list \<Rightarrow> u64 \<Rightarrow> mal \<Rightarrow> string option" where
  "dump_bins [] bins s = Some []"
| "dump_bins (i # is) bins s =
     (let b = BIN_TO_CHUNK bins i in
      if \<not> is_bit_set (binmap s) (of_nat i) \<or> nxt s b = b then dump_bins is bins s
      else Option.bind (dump_bin b (nxt s b) s (pad (CHR ''0'') 2 (to_base 10 i) @ '': '')) (\<lambda>l.
        Option.bind (dump_bins is bins s) (\<lambda>r. Some (l @ newline @ r))))"

definition musl_dump_bins :: "u64 \<Rightarrow> mal \<Rightarrow> string option" where
  "musl_dump_bins bins s =
     Option.bind (dump_bins [0..<64] bins s) (\<lambda>t.
       Some (newline @ ''=== STATS ==='' @ newline @ newline
         @ ''allocated = '' @ fmt_lu (allocated_bytes s) @ '', free = '' @ fmt_lu (free_bytes s)
         @ '', heap size = '' @ fmt_lu (heap_bytes s) @ '', free blocks = '' @ fmt_lu (free_block_bytes s)
         @ '', mmaps = '' @ fmt_lu (mmap_bytes s) @ '', reclaimed = '' @ fmt_lu (reclaimed_bytes s) @ newline
         @ t @ newline @ ''============='' @ newline @ newline))"

end
