(* ===== verification/Malloc_Bins.thy ===== *)
theory Malloc_Bins
  imports Oldmalloc
begin

text \<open>
  The free lists of the allocator: which bin a size belongs to, the circular lists the links of the
  chunks form, and the effect of \<open>lock_bin\<close>, \<open>unbin\<close> and \<open>bin_chunk\<close> on them as operations on lists.
\<close>

section \<open>Bin numbers\<close>

text \<open>The index as a function of the number of 32-byte units beyond the first.\<close>

definition bidx :: "nat \<Rightarrow> nat" where
  "bidx x = (if x \<le> 32 then x else if x < 512 then bin_tab ! (x div 8 - 4)
     else if x > 7168 then 63 else bin_tab ! (x div 128 - 4) + 16)"

lemma unat_div_const:
  "unat ((w :: u64) div 32) = unat w div 32" "unat (w div 8) = unat w div 8" "unat (w div 128) = unat w div 128"
  by (simp_all add: unat_div)

lemma unat_minus_le: "(b :: u64) \<le> a \<Longrightarrow> unat (a - b) = unat a - unat b"
  by (rule unat_sub)

lemma unat_less_const: "((w :: u64) < 512) = (unat w < 512)" "(w \<le> 32) = (unat w \<le> 32)" "(7168 < w) = (7168 < unat w)"
  by (simp_all add: word_less_nat_alt word_le_nat_alt)

lemma unat_tab_index:
  "32 \<le> unat x \<Longrightarrow> unat (x div 8 - 4) = unat x div 8 - 4" "512 \<le> unat x \<Longrightarrow> unat (x div 128 - 4) = unat x div 128 - 4"
  for x :: u64
  by (simp_all add: unat_minus_le word_le_nat_alt unat_div_const div_le_mono [of 32 _ 8, simplified] div_le_mono [of 512 _ 128, simplified])

lemma unat_units:
  assumes "32 \<le> unat (n :: u64)"
  shows "unat (n div 32 - 1) = unat n div 32 - 1"
  using assms by (subst unat_minus_le) (auto simp: unat_div_const word_le_nat_alt)

lemma bin_index_bidx: "32 \<le> unat n \<Longrightarrow> bin_index n = bidx (unat n div 32 - 1)"
  by (simp add: bin_index_def bidx_def SIZE_ALIGN_def Let_def unat_less_const unat_tab_index unat_units)

lemma bin_tab_mono: "i \<le> j \<Longrightarrow> j < 60 \<Longrightarrow> bin_tab ! i \<le> bin_tab ! j"
proof -
  have "sorted bin_tab" "length bin_tab = 60" by code_simp+
  then show "i \<le> j \<Longrightarrow> j < 60 \<Longrightarrow> bin_tab ! i \<le> bin_tab ! j" by (simp add: sorted_nth_mono)
qed

lemma bin_tab_range: "i < 60 \<Longrightarrow> 32 \<le> bin_tab ! i \<and> bin_tab ! i \<le> 47"
proof -
  have "list_all (\<lambda>x. 32 \<le> x \<and> x \<le> 47) bin_tab" "length bin_tab = 60" by code_simp+
  then show "i < 60 \<Longrightarrow> 32 \<le> bin_tab ! i \<and> bin_tab ! i \<le> 47" by (simp add: list_all_length)
qed

lemma tab_index_less: "x < 512 \<Longrightarrow> x div 8 - 4 < 60" "x \<le> 7168 \<Longrightarrow> x div 128 - 4 < 60" for x :: nat
  by linarith+

lemma bidx_mono:
  assumes "x \<le> y"
  shows "bidx x \<le> bidx y"
proof -
  note r = bin_tab_range [OF tab_index_less(1)] bin_tab_range [OF tab_index_less(2)]
  have "x div 8 - 4 \<le> y div 8 - 4" "x div 128 - 4 \<le> y div 128 - 4" using assms by (simp_all add: diff_le_mono div_le_mono)
  note m = bin_tab_mono [OF this(1) tab_index_less(1)] bin_tab_mono [OF this(2) tab_index_less(2)]
  show ?thesis using assms m r(1) [of x] r(1) [of y] r(2) [of x] r(2) [of y] unfolding bidx_def by auto
qed

lemma bidx_less: "bidx x < 64"
  using bin_tab_range [OF tab_index_less(1), of x] bin_tab_range [OF tab_index_less(2), of x] by (auto simp: bidx_def)

lemma bin_index_less: "32 \<le> unat n \<Longrightarrow> bin_index n < 64"
  by (simp add: bin_index_bidx bidx_less)

text \<open>Rounding up takes the bin after that of the next smaller size.\<close>

definition upidx :: "nat \<Rightarrow> nat" where
  "upidx x = (if x \<le> 32 then x else bidx (x - 1) + 1)"

lemma bin_index_up_upidx:
  assumes "32 \<le> unat n" "unat n \<le> 7168 * 32"
  shows "bin_index_up n = Inr (upidx (unat n div 32 - 1))"
proof -
  define x where "x = n div 32 - 1"
  have x: "unat x = unat n div 32 - 1" unfolding x_def by (rule unat_units [OF assms(1)])
  then have b: "unat x \<le> 7167" using assms(2) by linarith
  have up: "bin_index_up n = (if x \<le> 32 then Inr (unat x) else let x = x - 1 in
      if x < 512 then Inr (bin_tab ! unat (x div 8 - 4) + 1) else sbind (aget bin_tab (unat (x div 128 - 4))) (\<lambda>t. Inr (t + 17)))"
    by (simp add: bin_index_up_def SIZE_ALIGN_def Let_def x_def)
  show ?thesis
  proof (cases "x \<le> 32")
    case True
    then show ?thesis using x by (simp add: up upidx_def word_le_nat_alt)
  next
    case False
    then have y: "unat (x - 1) = unat x - 1" "32 < unat x" by (simp_all add: unat_minus_le word_le_nat_alt)
    have t: "length bin_tab = 60" "bin_tab ! 0 = 32" by code_simp+
    show ?thesis unfolding up x [symmetric] using False y b tab_index_less(2) [of "unat x - 1"] t
      by (auto simp: Let_def upidx_def bidx_def unat_less_const(1) unat_tab_index)
  qed
qed

lemma upidx_less: "x \<le> 7167 \<Longrightarrow> upidx x < 64"
proof -
  assume "x \<le> 7167"
  then have "bidx (x - 1) \<le> bidx 7167" by (intro bidx_mono) simp
  moreover have "bin_tab ! 51 = 46" by code_simp
  then have "bidx 7167 = 62" by (simp add: bidx_def)
  ultimately show "upidx x < 64" by (simp add: upidx_def)
qed

text \<open>A chunk in a bin at or above the rounded index of a request is large enough for it.\<close>

lemma upidx_le_bidx: "upidx x \<le> bidx y \<Longrightarrow> x \<le> y"
proof (rule ccontr)
  assume u: "upidx x \<le> bidx y" and "\<not> x \<le> y"
  then have "bidx y \<le> bidx (x - 1)" by (intro bidx_mono) simp
  moreover have "bidx (x - 1) = x - 1" if "x \<le> 32" using that by (auto simp: bidx_def)
  ultimately show False using u \<open>\<not> x \<le> y\<close> by (auto simp: upidx_def split: if_splits)
qed

section \<open>Linked lists\<close>

text \<open>The nodes \<open>xs\<close> lie between \<open>a\<close> and \<open>b\<close> in both directions. A list that returns to its start is a ring.\<close>

fun links :: "(u64 \<Rightarrow> u64) \<Rightarrow> (u64 \<Rightarrow> u64) \<Rightarrow> u64 \<Rightarrow> u64 list \<Rightarrow> u64 \<Rightarrow> bool" where
  "links n p a [] b \<longleftrightarrow> n a = b \<and> p b = a"
| "links n p a (x # xs) b \<longleftrightarrow> n a = x \<and> p x = a \<and> links n p x xs b"

lemma links_append: "links n p a (xs @ x # ys) b \<longleftrightarrow> links n p a xs x \<and> links n p x ys b"
  by (induction xs arbitrary: a) auto

lemma links_cong:
  "(\<And>y. y \<in> set (a # xs) \<Longrightarrow> n' y = n y) \<Longrightarrow> (\<And>y. y \<in> set (xs @ [b]) \<Longrightarrow> p' y = p y) \<Longrightarrow> links n' p' a xs b = links n p a xs b"
  by (induction xs arbitrary: a) auto

lemma links_first: "links n p a xs b \<Longrightarrow> n a = hd (xs @ [b])"
  by (cases xs) auto

lemma links_last: "links n p a xs b \<Longrightarrow> p b = last (a # xs)"
  by (induction xs arbitrary: a) auto

lemma links_retarget:
  "links n p a xs c \<Longrightarrow> distinct (a # xs) \<Longrightarrow> d \<notin> set xs \<Longrightarrow> links (n(last (a # xs) := d)) (p(d := last (a # xs))) a xs d"
proof (induction xs arbitrary: a)
  case (Cons x xs)
  have "links (n(last (x # xs) := d)) (p(d := last (x # xs))) x xs d" by (rule Cons.IH) (use Cons.prems in auto)
  moreover have "a \<noteq> last (x # xs)" using Cons.prems(2) by (metis distinct.simps(2) last_in_set list.distinct(1))
  ultimately show ?case using Cons.prems by (auto simp: fun_upd_def)
qed simp

text \<open>Taking a node out, and adding one at the end.\<close>

lemma ring_remove:
  assumes "links n p a (xs @ c # ys) a" "distinct (a # xs @ c # ys)"
  shows "links (n(p c := n c)) (p(n c := p c)) a (xs @ ys) a"
proof -
  have l: "links n p a xs c" "links n p c ys a" using assms(1) by (simp_all add: links_append)
  have pc: "p c = last (a # xs)" using links_last [OF l(1)] .
  have lx: "last (a # xs) \<in> set (a # xs)" by (rule last_in_set) simp
  show ?thesis
  proof (cases ys)
    case Nil
    then show ?thesis using l links_retarget [OF l(1), of a] assms(2) pc by simp
  next
    case (Cons y ys')
    then have n: "n c = y" "links n p y ys' a" using l(2) by simp_all
    have "links (n(last (a # xs) := y)) (p(y := last (a # xs))) a xs y"
      using links_retarget [OF l(1), of y] assms(2) Cons by simp
    moreover have "links (n(last (a # xs) := y)) (p(y := last (a # xs))) y ys' a"
      using n(2) assms(2) Cons lx by (subst links_cong [where n = n and p = p]) auto
    ultimately show ?thesis using n(1) pc Cons by (simp add: links_append)
  qed
qed

lemma ring_insert:
  assumes "links n p a xs a" "distinct (a # xs)" "c \<notin> set (a # xs)"
  shows "links (n(c := a, last (a # xs) := c)) (p(c := last (a # xs), a := c)) a (xs @ [c]) a"
proof -
  have lx: "last (a # xs) \<in> set (a # xs)" by (rule last_in_set) simp
  have "links (n(last (a # xs) := c)) (p(c := last (a # xs))) a xs c" using links_retarget [OF assms(1,2)] assms(3) by simp
  then have "links (n(c := a, last (a # xs) := c)) (p(c := last (a # xs), a := c)) a xs c"
    using assms(2,3) by (subst links_cong [where n = "n(last (a # xs) := c)" and p = "p(c := last (a # xs))"]) auto
  then show ?thesis using assms(3) lx by (auto simp: links_append)
qed

section \<open>The bins\<close>

text \<open>A bin nobody has locked yet has a null head and is empty.\<close>

definition ring :: "mal \<Rightarrow> u64 \<Rightarrow> u64 list \<Rightarrow> bool" where
  "ring s b xs \<longleftrightarrow> links (nxt s) (prv s) b xs b \<or> xs = [] \<and> nxt s b = 0"

text \<open>The table of bins lies where no index wraps around.\<close>

definition bins_placed :: "u64 \<Rightarrow> bool" where
  "bins_placed bins \<longleftrightarrow> 8 < unat bins \<and> unat bins + 1536 < 2 ^ 64"

lemma unat_BIN_TO_CHUNK:
  assumes "bins_placed bins" "i < 64"
  shows "unat (BIN_TO_CHUNK bins i) = unat bins + 24 * i - 8"
proof -
  have "BIN_TO_CHUNK bins i = of_nat (unat bins + 24 * i - 8)"
    using assms by (simp add: BIN_TO_CHUNK_def MEM_TO_CHUNK_def OVERHEAD_def bins_placed_def of_nat_diff)
  moreover have "unat bins + 24 * i - 8 < 2 ^ 64" using assms by (auto simp: bins_placed_def)
  ultimately show ?thesis by (simp add: unat_of_nat)
qed

lemma BIN_TO_CHUNK_inj: "bins_placed bins \<Longrightarrow> i < 64 \<Longrightarrow> j < 64 \<Longrightarrow> BIN_TO_CHUNK bins i = BIN_TO_CHUNK bins j \<longleftrightarrow> i = j"
  by (auto simp: word_unat_eq_iff unat_BIN_TO_CHUNK bins_placed_def)

lemma BIN_TO_CHUNK_nonzero: "bins_placed bins \<Longrightarrow> i < 64 \<Longrightarrow> BIN_TO_CHUNK bins i \<noteq> 0"
  by (auto simp: word_unat_eq_iff unat_BIN_TO_CHUNK bins_placed_def)

definition node_ok :: "u64 \<Rightarrow> u64 \<Rightarrow> bool" where
  "node_ok bins x \<longleftrightarrow> x \<noteq> 0 \<and> (\<forall>j<64. x \<noteq> BIN_TO_CHUNK bins j)"

text \<open>The lists of all bins: \<open>L i\<close> are the chunks of bin \<open>i\<close> in order.\<close>

definition bins_ok :: "u64 \<Rightarrow> mal \<Rightarrow> (nat \<Rightarrow> u64 list) \<Rightarrow> bool" where
  "bins_ok bins s L \<longleftrightarrow> (\<forall>i<64. ring s (BIN_TO_CHUNK bins i) (L i) \<and> distinct (L i) \<and> (bit (binmap s) i \<longleftrightarrow> L i \<noteq> [])
     \<and> (\<forall>x\<in>set (L i). node_ok bins x) \<and> (\<forall>j<64. i \<noteq> j \<longrightarrow> set (L i) \<inter> set (L j) = {}))"

lemma bins_okD:
  assumes "bins_ok bins s L" "i < 64"
  shows "ring s (BIN_TO_CHUNK bins i) (L i)" "distinct (L i)" "bit (binmap s) i \<longleftrightarrow> L i \<noteq> []"
    "x \<in> set (L i) \<Longrightarrow> node_ok bins x" "j < 64 \<Longrightarrow> i \<noteq> j \<Longrightarrow> set (L i) \<inter> set (L j) = {}"
  using assms unfolding bins_ok_def by blast+

subsection \<open>Fields\<close>

lemmas set_defs = set_psize_def set_csize_def set_nxt_def set_prv_def

lemma lock_bin_fields [simp]:
  "psize (lock_bin bins i s) = psize s" "csize (lock_bin bins i s) = csize s" "binmap (lock_bin bins i s) = binmap s"
  "stored_brk (lock_bin bins i s) = stored_brk s" "heap_end (lock_bin bins i s) = heap_end s"
  "allocated_bytes (lock_bin bins i s) = allocated_bytes s" "free_bytes (lock_bin bins i s) = free_bytes s"
  "free_block_bytes (lock_bin bins i s) = free_block_bytes s" "maps (lock_bin bins i s) = maps s"
  "sys_brk (lock_bin bins i s) = sys_brk s" "mmap_calls (lock_bin bins i s) = mmap_calls s"
  by (simp_all add: lock_bin_def set_defs Let_def)

lemma or_1_and_m2: "(w OR 1) AND - 2 = (w AND - 2 :: u64)"
  unfolding not_one_eq [symmetric] by (rule bit_eqI) (auto simp: bit_simps)

lemma CHUNK_SIZE_or: "csize s c = w OR 1 \<Longrightarrow> CHUNK_SIZE s c = w AND - 2"
  by (simp add: CHUNK_SIZE_def or_1_and_m2)

lemma unbin_fields:
  assumes "prv s c \<noteq> c"
  shows "nxt (unbin c i s) = (nxt s)(prv s c := nxt s c)" "prv (unbin c i s) = (prv s)(nxt s c := prv s c)"
    "binmap (unbin c i s) = (if prv s c = nxt s c then binmap s AND NOT (push_bit i 1) else binmap s)"
    "csize (unbin c i s) = (csize s)(c := csize s c OR 1)"
    "psize (unbin c i s) = (psize s)(NEXT_CHUNK s c := psize s (NEXT_CHUNK s c) OR 1)"
    "free_bytes (unbin c i s) = free_bytes s - CHUNK_SIZE s c"
    "free_block_bytes (unbin c i s) = free_block_bytes s - CHUNK_SIZE s c"
  using assms by (auto simp: unbin_def set_defs Let_def C_INUSE_def NEXT_CHUNK_def CHUNK_SIZE_def or_1_and_m2)

lemma unbin_other [simp]:
  "stored_brk (unbin c i s) = stored_brk s" "heap_end (unbin c i s) = heap_end s" "maps (unbin c i s) = maps s"
  "allocated_bytes (unbin c i s) = allocated_bytes s" "sys_brk (unbin c i s) = sys_brk s" "mmap_calls (unbin c i s) = mmap_calls s"
  by (simp_all add: unbin_def set_defs Let_def)

lemma bin_chunk_fields:
  fixes s bins c i
  defines "b \<equiv> BIN_TO_CHUNK bins i"
  assumes "c \<noteq> b" "prv s b \<noteq> c"
  shows "nxt (bin_chunk bins c i s) = (nxt s)(c := b, prv s b := c)" "prv (bin_chunk bins c i s) = (prv s)(c := prv s b, b := c)"
    "binmap (bin_chunk bins c i s) = (if prv s b = b then binmap s OR push_bit i 1 else binmap s)"
    "free_bytes (bin_chunk bins c i s) = free_bytes s + CHUNK_SIZE s c"
    "free_block_bytes (bin_chunk bins c i s) = free_block_bytes s + CHUNK_SIZE s c"
  using assms by (auto simp: bin_chunk_def set_defs Let_def CHUNK_SIZE_def)

lemma bin_chunk_other [simp]:
  "csize (bin_chunk bins c i s) = csize s" "psize (bin_chunk bins c i s) = psize s"
  "stored_brk (bin_chunk bins c i s) = stored_brk s" "heap_end (bin_chunk bins c i s) = heap_end s" "maps (bin_chunk bins c i s) = maps s"
  "allocated_bytes (bin_chunk bins c i s) = allocated_bytes s" "sys_brk (bin_chunk bins c i s) = sys_brk s"
  "mmap_calls (bin_chunk bins c i s) = mmap_calls s"
  by (simp_all add: bin_chunk_def set_defs Let_def)

subsection \<open>Operations\<close>

definition opened :: "u64 \<Rightarrow> mal \<Rightarrow> (nat \<Rightarrow> u64 list) \<Rightarrow> nat \<Rightarrow> bool" where
  "opened bins s L i \<longleftrightarrow> links (nxt s) (prv s) (BIN_TO_CHUNK bins i) (L i) (BIN_TO_CHUNK bins i)"

text \<open>Another ring keeps its links when the changed nodes are not among its own.\<close>

lemma ring_frame:
  assumes "ring s b xs" "\<And>y. y \<in> set (b # xs) \<Longrightarrow> nxt s' y = nxt s y \<and> prv s' y = prv s y"
  shows "ring s' b xs"
proof -
  have "links (nxt s') (prv s') b xs b = links (nxt s) (prv s) b xs b" by (rule links_cong) (use assms(2) in auto)
  then show ?thesis using assms by (auto simp: ring_def)
qed

lemma lock_bin_ok:
  assumes "bins_placed bins" "bins_ok bins s L" "i < 64"
  shows "bins_ok bins (lock_bin bins i s) L" "opened bins (lock_bin bins i s) L i"
proof -
  let ?b = "BIN_TO_CHUNK bins i"
  note D = bins_okD [OF assms(2,3)]
  have hd: "nxt s ?b \<noteq> 0" if "links (nxt s) (prv s) ?b (L i) ?b"
    using links_first [OF that] D(4) BIN_TO_CHUNK_nonzero [OF assms(1,3)] by (cases "L i") (auto simp: node_ok_def)
  show o: "opened bins (lock_bin bins i s) L i"
    using D(1) hd by (auto simp: ring_def opened_def lock_bin_def set_defs Let_def)
  have "ring (lock_bin bins i s) (BIN_TO_CHUNK bins j) (L j)" if j: "j < 64" for j
  proof (cases "j = i")
    case True
    then show ?thesis using o by (simp add: ring_def opened_def)
  next
    case False
    note Dj = bins_okD [OF assms(2) j]
    have "?b \<notin> set (BIN_TO_CHUNK bins j # L j)"
      using False Dj(4) [of ?b] BIN_TO_CHUNK_inj [OF assms(1,3) j] assms(3) by (auto simp: node_ok_def)
    then show ?thesis using Dj(1) by (elim ring_frame) (auto simp: lock_bin_def set_defs Let_def)
  qed
  then show "bins_ok bins (lock_bin bins i s) L" using assms(2) by (auto simp: bins_ok_def)
qed

lemma bins_nonempty_opened: "bins_ok bins s L \<Longrightarrow> i < 64 \<Longrightarrow> L i \<noteq> [] \<Longrightarrow> opened bins s L i"
  using bins_okD(1) [of bins s L i] by (auto simp: ring_def opened_def)

lemma bins_ok_update:
  assumes "bins_ok bins s L" "ring s' (BIN_TO_CHUNK bins i) xs" "distinct xs" "\<And>x. x \<in> set xs \<Longrightarrow> node_ok bins x"
    "\<And>j. j < 64 \<Longrightarrow> j \<noteq> i \<Longrightarrow> ring s' (BIN_TO_CHUNK bins j) (L j)" "\<And>j. j < 64 \<Longrightarrow> j \<noteq> i \<Longrightarrow> set xs \<inter> set (L j) = {}"
    "\<And>j. j < 64 \<Longrightarrow> bit (binmap s') j \<longleftrightarrow> (if j = i then xs \<noteq> [] else L j \<noteq> [])"
  shows "bins_ok bins s' (L(i := xs))"
  unfolding bins_ok_def
proof (intro allI impI)
  fix j :: nat assume j: "j < 64"
  note Dj = bins_okD [OF assms(1) j]
  show "ring s' (BIN_TO_CHUNK bins j) ((L(i := xs)) j) \<and> distinct ((L(i := xs)) j) \<and> (bit (binmap s') j \<longleftrightarrow> (L(i := xs)) j \<noteq> [])
    \<and> (\<forall>x\<in>set ((L(i := xs)) j). node_ok bins x) \<and> (\<forall>k<64. j \<noteq> k \<longrightarrow> set ((L(i := xs)) j) \<inter> set ((L(i := xs)) k) = {})"
  proof (cases "j = i")
    case True
    then show ?thesis using assms j by simp
  next
    case False
    have "set (L j) \<inter> set ((L(i := xs)) k) = {}" if "k < 64" "j \<noteq> k" for k
      using assms(6) [OF j False] Dj(5) [OF that] by auto
    then show ?thesis using assms(5,7) [OF j] Dj False by simp
  qed
qed

text \<open>A node of a bin has its neighbours in the bin or at its head.\<close>

lemma ring_neighbours:
  assumes "links n p b xs b" "c \<in> set xs" "distinct (b # xs)"
  shows "p c \<in> set (b # xs)" "n c \<in> set (b # xs)" "p c \<noteq> c" "p c = n c \<longleftrightarrow> xs = [c]"
proof -
  obtain us vs where xs: "xs = us @ c # vs" using assms(2) by (metis in_set_conv_decomp)
  then have "links n p b us c" "links n p c vs b" using assms(1) by (simp_all add: links_append)
  then have p: "p c = last (b # us)" and n: "n c = hd (vs @ [b])" by (simp_all add: links_last links_first)
  have l: "last (b # us) \<in> set (b # us)" "hd (vs @ [b]) \<in> set (vs @ [b])" by (rule last_in_set, simp, rule hd_in_set, simp)
  then show "p c \<in> set (b # xs)" "n c \<in> set (b # xs)" "p c \<noteq> c" using p n assms(3) xs by auto
  show "p c = n c \<longleftrightarrow> xs = [c]"
    using p n assms(3) l xs by (cases us rule: rev_cases; cases vs) auto
qed

lemma unbin_ok:
  assumes "bins_placed bins" "bins_ok bins s L" "i < 64" "c \<in> set (L i)"
  shows "bins_ok bins (unbin c i s) (L(i := remove1 c (L i)))" "prv s c \<noteq> c"
proof -
  let ?b = "BIN_TO_CHUNK bins i"
  note D = bins_okD [OF assms(2,3)]
  have lk: "links (nxt s) (prv s) ?b (L i) ?b" using bins_nonempty_opened [OF assms(2,3)] assms(4) by (fastforce simp: opened_def)
  have dist: "distinct (?b # L i)" using D(2,4) assms(3) by (auto simp: node_ok_def)
  note nb = ring_neighbours [OF lk assms(4) dist]
  show pc: "prv s c \<noteq> c" by (rule nb(3))
  note f = unbin_fields [OF pc]
  obtain us vs where xs: "L i = us @ c # vs" using assms(4) by (metis in_set_conv_decomp)
  have rm: "remove1 c (L i) = us @ vs" using D(2) xs by (simp add: remove1_append)
  have ri: "ring (unbin c i s) ?b (us @ vs)"
    using ring_remove [of "nxt s" "prv s" ?b us c vs] lk dist xs by (simp add: ring_def f)
  have rj: "ring (unbin c i s) (BIN_TO_CHUNK bins j) (L j)" if j: "j < 64" "j \<noteq> i" for j
  proof -
    note Dj = bins_okD [OF assms(2) j(1)]
    have "BIN_TO_CHUNK bins j \<notin> set (?b # L i)" "?b \<notin> set (L j)"
      using D(4) Dj(4) BIN_TO_CHUNK_inj [OF assms(1,3) j(1)] j assms(3) by (auto simp: node_ok_def)
    then have "set (BIN_TO_CHUNK bins j # L j) \<inter> set (?b # L i) = {}" using Dj(5) [OF assms(3)] j by auto
    then show ?thesis using nb(1,2) by (intro ring_frame [OF Dj(1)]) (auto simp: f)
  qed
  have bm: "bit (binmap (unbin c i s)) j \<longleftrightarrow> (if j = i then us @ vs \<noteq> [] else L j \<noteq> [])" if "j < 64" for j
    using bins_okD(3) [OF assms(2) that] nb(4) xs that by (auto simp: f bit_simps append_eq_Cons_conv)
  show "bins_ok bins (unbin c i s) (L(i := remove1 c (L i)))"
    unfolding rm by (rule bins_ok_update [OF assms(2) ri _ _ rj _ bm]) (use D dist xs in auto)
qed

lemma bin_chunk_ok:
  assumes "bins_placed bins" "bins_ok bins s L" "i < 64" "opened bins s L i" "node_ok bins c" "\<forall>j<64. c \<notin> set (L j)"
  shows "bins_ok bins (bin_chunk bins c i s) (L(i := L i @ [c]))" "c \<noteq> BIN_TO_CHUNK bins i" "prv s (BIN_TO_CHUNK bins i) \<noteq> c"
proof -
  let ?b = "BIN_TO_CHUNK bins i"
  note D = bins_okD [OF assms(2,3)]
  have lk: "links (nxt s) (prv s) ?b (L i) ?b" using assms(4) by (simp add: opened_def)
  have dist: "distinct (?b # L i)" using D(2,4) assms(3) by (auto simp: node_ok_def)
  have pb: "prv s ?b = last (?b # L i)" by (rule links_last [OF lk])
  have lin: "last (?b # L i) \<in> set (?b # L i)" by (rule last_in_set) simp
  show cb: "c \<noteq> ?b" using assms(3,5) by (auto simp: node_ok_def)
  show pc: "prv s ?b \<noteq> c" using pb lin cb assms(3,6) by auto
  note f = bin_chunk_fields [OF cb pc]
  have ri: "ring (bin_chunk bins c i s) ?b (L i @ [c])"
    using ring_insert [OF lk dist, of c] cb assms(3,6) by (simp add: ring_def f pb)
  have rj: "ring (bin_chunk bins c i s) (BIN_TO_CHUNK bins j) (L j)" if j: "j < 64" "j \<noteq> i" for j
  proof -
    note Dj = bins_okD [OF assms(2) j(1)]
    have "BIN_TO_CHUNK bins j \<notin> set (?b # L i)" "?b \<notin> set (L j)" "c \<notin> set (BIN_TO_CHUNK bins j # L j)"
      using D(4) Dj(4) BIN_TO_CHUNK_inj [OF assms(1,3) j(1)] j assms(3,5,6) by (auto simp: node_ok_def)
    then have "set (BIN_TO_CHUNK bins j # L j) \<inter> set (c # ?b # L i) = {}" using Dj(5) [OF assms(3)] j by auto
    then show ?thesis using lin unfolding pb [symmetric] by (intro ring_frame [OF Dj(1)]) (auto simp: f)
  qed
  have "prv s ?b = ?b \<longleftrightarrow> L i = []" unfolding pb using dist by (auto dest: last_in_set)
  then have bm: "bit (binmap (bin_chunk bins c i s)) j \<longleftrightarrow> j = i \<or> L j \<noteq> []" if "j < 64" for j
    using bins_okD(3) [OF assms(2) that] that by (auto simp: f bit_simps)
  show "bins_ok bins (bin_chunk bins c i s) (L(i := L i @ [c]))"
    by (rule bins_ok_update [OF assms(2) ri _ _ rj]) (use D dist bm assms(3,5,6) in auto)
qed

end
