(* ===== verification/Malloc_Heap.thy ===== *)
theory Malloc_Heap
  imports Malloc_Bins
begin

text \<open>
  The heap of the allocator as a list of chunks between a first address and a closing sentinel: each
  chunk has its size and whether it is free, and the two header words of neighbouring chunks agree.
  The lemmas relate the stores of the code to operations on that list.
\<close>

section \<open>Chunk lists\<close>

type_synonym chunks = "(u64 \<times> bool) list"

fun fin :: "u64 \<Rightarrow> chunks \<Rightarrow> u64" where
  "fin a [] = a"
| "fin a ((n, f) # cs) = fin (a + n) cs"

fun blocks :: "u64 \<Rightarrow> chunks \<Rightarrow> (u64 \<times> u64 \<times> bool) list" where
  "blocks a [] = []"
| "blocks a ((n, f) # cs) = (a, n, f) # blocks (a + n) cs"

definition total :: "chunks \<Rightarrow> nat" where
  "total cs = sum_list (map (\<lambda>(n, f). unat n) cs)"

text \<open>Sizes are positive multiples of 32, chunks start 16 bytes below one, and no address wraps.\<close>

definition unit_size :: "u64 \<Rightarrow> bool" where
  "unit_size n \<longleftrightarrow> 0 < unat n \<and> 32 dvd unat n"

definition wfc :: "u64 \<Rightarrow> chunks \<Rightarrow> bool" where
  "wfc a cs \<longleftrightarrow> 32 dvd unat a + 16 \<and> (\<forall>c\<in>set cs. unit_size (fst c)) \<and> unat a + total cs + 16 < 2 ^ 64"

lemma total_simps [simp]: "total [] = 0" "total ((n, f) # cs) = unat n + total cs" "total (xs @ ys) = total xs + total ys"
  by (simp_all add: total_def)

lemma fin_append [simp]: "fin a (xs @ ys) = fin (fin a xs) ys"
  by (induction a xs rule: fin.induct) simp_all

lemma blocks_append [simp]: "blocks a (xs @ ys) = blocks a xs @ blocks (fin a xs) ys"
  by (induction a xs rule: fin.induct) simp_all

lemma unat_add64: "unat a + unat b < 2 ^ 64 \<Longrightarrow> unat (a + b) = unat a + unat b" for a b :: u64
  using unat_add_lem [of a b] by simp

lemma wfc_Cons:
  "wfc a ((n, f) # cs) \<Longrightarrow> wfc (a + n) cs \<and> unit_size n \<and> unat (a + n) = unat a + unat n"
  by (auto simp: wfc_def unit_size_def unat_add64) (metis add.assoc add.commute dvd_add_right_iff)

lemma unat_fin: "wfc a cs \<Longrightarrow> unat (fin a cs) = unat a + total cs"
  by (induction a cs rule: fin.induct) (auto dest: wfc_Cons)

lemma wfc_append: "wfc a (xs @ ys) \<Longrightarrow> wfc a xs \<and> wfc (fin a xs) ys"
proof (induction a xs rule: fin.induct)
  case (1 a)
  then show ?case by (auto simp: wfc_def)
next
  case (2 a n f cs)
  then have "wfc a ((n, f) # cs)" by (auto simp: wfc_def)
  then show ?case using 2 wfc_Cons [of a n f "cs @ ys"] by auto
qed

lemma blocks_split: "(x, n, f) \<in> set (blocks a cs) \<Longrightarrow> \<exists>xs ys. cs = xs @ (n, f) # ys \<and> x = fin a xs"
proof (induction a cs rule: fin.induct)
  case (2 a m g cs)
  then show ?case
  proof (cases "(x, n, f) = (a, m, g)")
    case True
    then show ?thesis by (intro exI [of _ "[]"] exI [of _ cs]) auto
  next
    case False
    then obtain xs ys where "cs = xs @ (n, f) # ys" "x = fin (a + m) xs" using 2 by auto
    then show ?thesis by (intro exI [of _ "(m, g) # xs"] exI [of _ ys]) auto
  qed
qed simp

lemma blocks_range:
  assumes "wfc a cs" "(x, n, f) \<in> set (blocks a cs)"
  shows "unat a \<le> unat x" "unat x + unat n \<le> unat (fin a cs)" "unit_size n" "32 dvd unat x + 16"
proof -
  obtain xs ys where c: "cs = xs @ (n, f) # ys" "x = fin a xs" using blocks_split [OF assms(2)] by blast
  then have w: "wfc a xs" "wfc x ((n, f) # ys)" using wfc_append assms(1) by auto
  show "unat a \<le> unat x" using unat_fin [OF w(1)] c(2) by simp
  show "unat x + unat n \<le> unat (fin a cs)" using unat_fin [OF w(2)] c by simp
  show "unit_size n" "32 dvd unat x + 16" using w(2) by (auto simp: wfc_def)
qed

lemma blocks_disjoint:
  assumes "wfc a cs" "(x, n, f) \<in> set (blocks a cs)" "(y, m, g) \<in> set (blocks a cs)"
  shows "(x, n, f) = (y, m, g) \<or> unat x + unat n \<le> unat y \<or> unat y + unat m \<le> unat x"
  using assms
proof (induction a cs rule: fin.induct)
  case (2 a k h cs)
  note w = wfc_Cons [OF 2(2)]
  then show ?case using 2 blocks_range(1) [of "a + k" cs x n f] blocks_range(1) [of "a + k" cs y m g] by auto
qed simp

lemma blocks_unique:
  assumes "wfc a cs" "(x, n, f) \<in> set (blocks a cs)" "(x, m, g) \<in> set (blocks a cs)"
  shows "n = m \<and> f = g"
  using blocks_disjoint [OF assms] blocks_range(3) [OF assms(1)] assms(2,3) by (fastforce simp: unit_size_def)

section \<open>Headers\<close>

definition tag :: "u64 \<Rightarrow> bool \<Rightarrow> u64" where
  "tag n f = (if f then n else n OR 1)"

fun ltag :: "u64 \<Rightarrow> chunks \<Rightarrow> u64" where
  "ltag p [] = p"
| "ltag p ((n, f) # cs) = ltag (tag n f) cs"

fun tags :: "mal \<Rightarrow> u64 \<Rightarrow> u64 \<Rightarrow> chunks \<Rightarrow> bool" where
  "tags s p a [] \<longleftrightarrow> psize s a = p"
| "tags s p a ((n, f) # cs) \<longleftrightarrow> psize s a = p \<and> csize s a = tag n f \<and> tags s (tag n f) (a + n) cs"

lemma ltag_append [simp]: "ltag p (xs @ ys) = ltag (ltag p xs) ys"
  by (induction p xs rule: ltag.induct) simp_all

lemma tags_append: "tags s p a (xs @ ys) \<longleftrightarrow> tags s p a xs \<and> tags s (ltag p xs) (fin a xs) ys"
proof (induction xs arbitrary: p a)
  case Nil
  then show ?case by (cases ys) auto
qed auto

lemma tags_first: "tags s p a cs \<Longrightarrow> psize s a = p"
  by (cases cs) auto

lemma tags_last: "tags s p a cs \<Longrightarrow> psize s (fin a cs) = ltag p cs"
  by (induction s p a cs rule: tags.induct) auto

text \<open>Headers outside an interval of addresses may change, and the footer of the chunk before.\<close>

lemma tags_frame:
  assumes "wfc a cs" "tags s p a cs" "psize s' a = p'"
    "\<And>x. unat a \<le> unat x \<Longrightarrow> unat x < unat (fin a cs) \<Longrightarrow> csize s' x = csize s x"
    "\<And>x. unat a < unat x \<Longrightarrow> unat x \<le> unat (fin a cs) \<Longrightarrow> psize s' x = psize s x"
  shows "tags s' p' a cs"
  using assms
proof (induction s p a cs arbitrary: p' rule: tags.induct)
  case (2 s p a n f cs)
  note w = wfc_Cons [OF 2(2)]
  have n: "0 < unat n" using w by (simp add: unit_size_def)
  have le: "unat a + unat n \<le> unat (fin (a + n) cs)" using unat_fin [of "a + n" cs] w by simp
  have "psize s (a + n) = tag n f" using 2(3) tags_first by auto
  then have "psize s' (a + n) = tag n f" using 2(6) [of "a + n"] w n le by simp
  then have "tags s' (tag n f) (a + n) cs" using w n le 2(3,5,6) by (intro 2(1)) auto
  then show ?case using 2 n le by auto
qed simp

section \<open>The heap\<close>

definition chain_ok :: "mal \<Rightarrow> u64 \<Rightarrow> chunks \<Rightarrow> bool" where
  "chain_ok s a cs \<longleftrightarrow> wfc a cs \<and> tags s 1 a cs \<and> csize s (fin a cs) = 1"

text \<open>Replacing the chunks of an interval by others of the same total size.\<close>

lemma rechunk:
  assumes "chain_ok s a (xs @ ms @ ys)" "total ms' = total ms" "\<And>c. c \<in> set ms' \<Longrightarrow> unit_size (fst c)" "ms \<noteq> []"
    "tags s' (ltag 1 xs) (fin a xs) ms'"
    "\<And>x. unat x < unat (fin a xs) \<or> unat (fin a (xs @ ms)) \<le> unat x \<Longrightarrow> csize s' x = csize s x"
    "\<And>x. unat x \<le> unat (fin a xs) \<or> unat (fin a (xs @ ms)) < unat x \<Longrightarrow> psize s' x = psize s x"
  shows "chain_ok s' a (xs @ ms' @ ys)" "fin a (xs @ ms') = fin a (xs @ ms)"
proof -
  let ?c = "fin a xs" and ?e = "fin a (xs @ ms)"
  have w: "wfc a (xs @ ms @ ys)" and t: "tags s 1 a (xs @ ms @ ys)" and sen: "csize s (fin a (xs @ ms @ ys)) = 1"
    using assms(1) by (auto simp: chain_ok_def)
  have w1: "wfc a xs" "wfc ?c (ms @ ys)" using wfc_append [OF w] by auto
  then have w2: "wfc ?c ms" "wfc ?e ys" using wfc_append [of ?c ms ys] by auto
  have w': "wfc a (xs @ ms' @ ys)" using w assms(2,3) by (auto simp: wfc_def)
  then have "wfc ?c ms'" using wfc_append [of a xs] wfc_append [of ?c ms'] by blast
  then show e: "fin a (xs @ ms') = fin a (xs @ ms)"
    using unat_fin [of ?c ms'] unat_fin [of ?c ms] w2 assms(2) by (simp add: word_unat_eq_iff)
  have ce: "unat ?c < unat ?e" using unat_fin [OF w2(1)] w2(1) assms(4) by (cases ms) (auto simp: wfc_def unit_size_def)
  have tx: "tags s 1 a xs" "tags s (ltag 1 (xs @ ms)) ?e ys" using t by (simp_all add: tags_append)
  have "tags s' 1 a xs"
    using tags_first [OF tx(1)] w1(1) by (intro tags_frame [OF w1(1) tx(1)]) (auto simp: assms(6,7) unat_fin)
  moreover have "tags s' (ltag 1 (xs @ ms')) ?e ys"
    using tags_last [OF assms(5)] e ce by (intro tags_frame [OF w2(2) tx(2)]) (auto simp: assms(6,7))
  moreover have "csize s' (fin a (xs @ ms' @ ys)) = 1"
    using sen e unat_fin [OF w2(2)] by (simp add: assms(6))
  ultimately show "chain_ok s' a (xs @ ms' @ ys)"
    using w' assms(5) e by (simp add: chain_ok_def tags_append)
qed

text \<open>Headers beyond the closing sentinel, where mapped chunks lie, stay as they are.\<close>

definition frame :: "u64 \<Rightarrow> mal \<Rightarrow> mal \<Rightarrow> bool" where
  "frame e s s' \<longleftrightarrow> (\<forall>x. unat e < unat x \<longrightarrow> csize s' x = csize s x \<and> psize s' x = psize s x)"

lemma frame_trans: "frame e s s' \<Longrightarrow> frame e s' s'' \<Longrightarrow> frame e s s''"
  by (simp add: frame_def)

lemma frame_same: "csize s' = csize s \<Longrightarrow> psize s' = psize s \<Longrightarrow> frame e s s'"
  by (simp add: frame_def)

lemma frame_set: "unat c \<le> unat e \<Longrightarrow> frame e s (set_csize c v s)" "unat c \<le> unat e \<Longrightarrow> frame e s (set_psize c v s)"
  by (auto simp: frame_def set_defs)

lemma chunk_end:
  assumes "wfc a (xs @ ys)"
  shows "unat (fin a xs) \<le> unat (fin a (xs @ ys))"
  using unat_fin [OF assms] unat_fin [of a xs] wfc_append [OF assms] by simp

text \<open>The free chunks and the bins.\<close>

definition frees :: "u64 \<Rightarrow> chunks \<Rightarrow> (u64 \<times> u64) set" where
  "frees a cs = {(x, n). (x, n, True) \<in> set (blocks a cs)}"

definition live :: "u64 \<Rightarrow> chunks \<Rightarrow> (u64 \<times> u64) set" where
  "live a cs = {(x, n). (x, n, False) \<in> set (blocks a cs)}"

definition free_ok :: "u64 \<Rightarrow> mal \<Rightarrow> (u64 \<times> u64) set \<Rightarrow> (nat \<Rightarrow> u64 list) \<Rightarrow> bool" where
  "free_ok bins s F L \<longleftrightarrow> bins_ok bins s L \<and> (\<forall>i<64. set (L i) = fst ` {c \<in> F. bin_index (snd c) = i})
     \<and> free_bytes s = sum snd F \<and> free_block_bytes s = sum snd F"

definition heap_ok :: "u64 \<Rightarrow> mal \<Rightarrow> u64 \<Rightarrow> chunks \<Rightarrow> (nat \<Rightarrow> u64 list) \<Rightarrow> bool" where
  "heap_ok bins s a cs L \<longleftrightarrow> bins_placed bins \<and> unat bins + 1536 \<le> unat a \<and> chain_ok s a cs \<and> free_ok bins s (frees a cs) L"

lemma frees_simps [simp]:
  "frees a [] = {}" "frees a ((n, f) # cs) = (if f then {(a, n)} else {}) \<union> frees (a + n) cs"
  "frees a (xs @ ys) = frees a xs \<union> frees (fin a xs) ys"
  by (auto simp: frees_def)

lemma live_simps [simp]:
  "live a [] = {}" "live a ((n, f) # cs) = (if f then {} else {(a, n)}) \<union> live (a + n) cs"
  "live a (xs @ ys) = live a xs \<union> live (fin a xs) ys"
  by (auto simp: live_def)

lemma finite_frees [simp]: "finite (frees a cs)"
  by (rule finite_subset [where B = "(\<lambda>(x, n, f). (x, n)) ` set (blocks a cs)"]) (force simp: frees_def)+

lemma free_ok_cong:
  "nxt s' = nxt s \<Longrightarrow> prv s' = prv s \<Longrightarrow> binmap s' = binmap s \<Longrightarrow> free_bytes s' = free_bytes s \<Longrightarrow>
   free_block_bytes s' = free_block_bytes s \<Longrightarrow> free_ok bins s' F L = free_ok bins s F L"
  by (simp add: free_ok_def bins_ok_def ring_def)

lemma chain_ok_cong: "psize s' = psize s \<Longrightarrow> csize s' = csize s \<Longrightarrow> chain_ok s' a cs = chain_ok s a cs"
proof -
  assume *: "psize s' = psize s" "csize s' = csize s"
  have "tags s' p a cs = tags s p a cs" for p by (induction cs arbitrary: p a) (auto simp: *)
  then show ?thesis by (simp add: chain_ok_def *)
qed

lemma free_ok_lock:
  assumes "bins_placed bins" "free_ok bins s F L" "i < 64"
  shows "free_ok bins (lock_bin bins i s) F L" "opened bins (lock_bin bins i s) L i"
  using lock_bin_ok [OF assms(1) _ assms(3)] assms(2) by (auto simp: free_ok_def)

lemma tag_size: "unit_size n \<Longrightarrow> tag n f AND - 2 = n" "unit_size n \<Longrightarrow> tag n f AND 1 = (if f then 0 else 1)"
proof -
  assume "unit_size n"
  then have "even (unat n)" by (auto simp: unit_size_def elim: dvd_trans [rotated])
  then have "unat (n AND 1) = 0" by (simp add: and_one_eq unat_mod even_iff_mod_2_eq_zero)
  then have m: "n AND 1 = 0" by (simp add: unat_eq_zero)
  then have "n AND NOT 1 = n" using sub_and [of n 1] by simp
  note m = this m
  show "tag n f AND - 2 = n" using m(1) by (simp add: tag_def or_1_and_m2)
  show "tag n f AND 1 = (if f then 0 else 1)" using m by (simp add: tag_def bit.conj_disj_distrib2)
qed

lemma unit_size_ge: "unit_size n \<Longrightarrow> 32 \<le> unat n"
  by (auto simp: unit_size_def dest: dvd_imp_le)

lemma heap_node:
  assumes "bins_placed bins" "unat bins + 1536 \<le> unat x"
  shows "node_ok bins x"
  using assms unat_BIN_TO_CHUNK [OF assms(1)] by (auto simp: node_ok_def bins_placed_def)

text \<open>What the headers of a chunk say.\<close>

lemma chain_header:
  assumes "chain_ok s a (xs @ (n, f) # ys)"
  shows "csize s (fin a xs) = tag n f" "psize s (fin a xs) = ltag 1 xs" "psize s (fin a xs + n) = tag n f"
    "CHUNK_SIZE s (fin a xs) = n" "NEXT_CHUNK s (fin a xs) = fin a xs + n" "unit_size n"
    "unat (fin a xs + n) = unat (fin a xs) + unat n"
proof -
  have w: "wfc (fin a xs) ((n, f) # ys)" using assms wfc_append by (auto simp: chain_ok_def)
  then show u: "unit_size n" "unat (fin a xs + n) = unat (fin a xs) + unat n" using wfc_Cons by blast+
  show c: "csize s (fin a xs) = tag n f" "psize s (fin a xs) = ltag 1 xs" "psize s (fin a xs + n) = tag n f"
    using assms tags_first by (auto simp: chain_ok_def tags_append)
  show "CHUNK_SIZE s (fin a xs) = n" "NEXT_CHUNK s (fin a xs) = fin a xs + n"
    using c(1) tag_size(1) [OF u(1)] by (simp_all add: NEXT_CHUNK_def CHUNK_SIZE_def)
qed

text \<open>Other chunks have other addresses.\<close>

lemma chain_other:
  assumes "wfc a (xs @ (n, f) # ys)" "(x, m, g) \<in> set (blocks a xs) \<union> set (blocks (fin a xs + n) ys)"
  shows "x \<noteq> fin a xs"
proof -
  have "unat x \<noteq> unat (fin a xs)"
  proof (cases "(x, m, g) \<in> set (blocks a xs)")
    case True
    then show ?thesis using blocks_range(2,3) [of a xs x m g] wfc_append [OF assms(1)] by (auto simp: unit_size_def)
  next
    case False
    have w: "wfc (fin a xs) ((n, f) # ys)" using wfc_append [OF assms(1)] by blast
    then show ?thesis using wfc_Cons [OF w] blocks_range(1) [of "fin a xs + n" ys x m g] False assms(2) by (auto simp: unit_size_def)
  qed
  then show ?thesis by auto
qed

lemma frees_chunk:
  assumes "wfc a (xs @ (n, f) # ys)"
  shows "frees a (xs @ (n, True) # ys) - {(fin a xs, n)} = frees a (xs @ (n, False) # ys)"
    "(fin a xs, m) \<notin> frees a (xs @ (n, False) # ys)"
  using chain_other [OF assms] by (auto simp: frees_def)

lemma heap_unbin:
  assumes "heap_ok bins s a (xs @ (n, True) # ys) L"
  defines "c \<equiv> fin a xs" and "i \<equiv> bin_index n"
  shows "heap_ok bins (unbin c i s) a (xs @ (n, False) # ys) (L(i := remove1 c (L i)))" "i < 64" "c \<in> set (L i)"
    "frame (fin a (xs @ (n, True) # ys)) s (unbin c i s)"
proof -
  let ?cs = "xs @ (n, True) # ys"
  have h: "bins_placed bins" "unat bins + 1536 \<le> unat a" "chain_ok s a ?cs" "free_ok bins s (frees a ?cs) L"
    using assms(1) by (auto simp: heap_ok_def)
  note hd = chain_header [OF h(3), folded c_def]
  show i: "i < 64" unfolding i_def using bin_index_less [OF unit_size_ge [OF hd(6)]] .
  have b: "bins_ok bins s L" and set_L: "\<forall>j<64. set (L j) = fst ` {x \<in> frees a ?cs. bin_index (snd x) = j}"
    and st: "free_bytes s = sum snd (frees a ?cs)" "free_block_bytes s = sum snd (frees a ?cs)" using h(4) by (auto simp: free_ok_def)
  show cL: "c \<in> set (L i)" using set_L i by (force simp: i_def c_def)
  have "unat c \<le> unat (fin a ?cs)" "unat (c + n) \<le> unat (fin a ?cs)"
    using chunk_end [of a xs "(n, True) # ys"] chunk_end [of a "xs @ [(n, True)]" ys] h(3) by (simp_all add: chain_ok_def c_def)
  then show "frame (fin a ?cs) s (unbin c i s)"
    unfolding frame_def using unbin_fields(4,5) [OF unbin_ok(2) [OF h(1) b i cL], of i] hd(5) by auto
  note ub = unbin_ok [OF h(1) b i cL] and f = unbin_fields [OF unbin_ok(2) [OF h(1) b i cL]]
  have ne: "c \<noteq> c + n" using hd(6,7) by (auto simp: unit_size_def)
  have "chain_ok (unbin c i s) a (xs @ [(n, False)] @ ys)"
  proof (rule rechunk(1) [where ms = "[(n, True)]"])
    show "tags (unbin c i s) (ltag 1 xs) (fin a xs) [(n, False)]"
      using hd ne by (simp add: f c_def [symmetric] tag_def)
  qed (use h(3) hd in \<open>auto simp: f c_def [symmetric] unit_size_def\<close>)
  moreover have "free_ok bins (unbin c i s) (frees a (xs @ (n, False) # ys)) (L(i := remove1 c (L i)))"
  proof -
    have fr: "frees a ?cs - {(c, n)} = frees a (xs @ (n, False) # ys)" "(c, m) \<notin> frees a (xs @ (n, False) # ys)" for m
      using frees_chunk [of a xs n True ys] h(3) by (auto simp: chain_ok_def c_def)
    have mem: "(c, n) \<in> frees a ?cs" by (simp add: c_def)
    have "sum snd (frees a (xs @ (n, False) # ys)) = sum snd (frees a ?cs) - n"
      unfolding fr(1) [symmetric] by (subst sum_diff1) (simp_all only: mem finite_frees if_True snd_conv)
    moreover have "set ((L(i := remove1 c (L i))) j) = fst ` {x \<in> frees a (xs @ (n, False) # ys). bin_index (snd x) = j}" if "j < 64" for j
      using set_L that i bins_okD(2) [OF b i] fr(2) unfolding fr(1) [symmetric] by (auto simp: i_def image_iff) (metis fst_conv snd_conv)+
    ultimately show ?thesis using ub(1) st hd(4) by (simp add: free_ok_def f)
  qed
  ultimately show "heap_ok bins (unbin c i s) a (xs @ (n, False) # ys) (L(i := remove1 c (L i)))"
    using h by (simp add: heap_ok_def)
qed

text \<open>Putting a chunk whose headers already say free into its bin.\<close>

lemma heap_insert:
  assumes "bins_placed bins" "unat bins + 1536 \<le> unat a" "chain_ok s a (xs @ (n, True) # ys)"
    "free_ok bins s (frees a (xs @ (n, False) # ys)) L" "opened bins s L (bin_index n)"
  defines "c \<equiv> fin a xs" and "i \<equiv> bin_index n"
  shows "heap_ok bins (bin_chunk bins c i s) a (xs @ (n, True) # ys) (L(i := L i @ [c]))"
proof -
  let ?cs = "xs @ (n, True) # ys" and ?F = "frees a (xs @ (n, False) # ys)"
  note hd = chain_header [OF assms(3), folded c_def]
  have w: "wfc a ?cs" using assms(3) by (simp add: chain_ok_def)
  have i: "i < 64" unfolding i_def using bin_index_less [OF unit_size_ge [OF hd(6)]] .
  have b: "bins_ok bins s L" and set_L: "\<forall>j<64. set (L j) = fst ` {x \<in> ?F. bin_index (snd x) = j}"
    and st: "free_bytes s = sum snd ?F" "free_block_bytes s = sum snd ?F" using assms(4) by (auto simp: free_ok_def)
  have fr: "frees a ?cs = insert (c, n) ?F" "(c, m) \<notin> ?F" for m
    using frees_chunk [OF w] by (auto simp: c_def)
  have nL: "\<forall>j<64. c \<notin> set (L j)" using set_L fr(2) by auto
  have "unat a \<le> unat c" using unat_fin [of a xs] wfc_append [OF w] by (simp add: c_def)
  then have node: "node_ok bins c" using heap_node [OF assms(1)] assms(2) by simp
  note bc = bin_chunk_ok [OF assms(1) b i assms(5) [folded i_def] node nL]
  note f = bin_chunk_fields [OF bc(2,3)]
  have "sum snd (frees a ?cs) = sum snd ?F + n" unfolding fr(1) using fr(2) by (subst sum.insert) (simp_all only: finite_frees snd_conv add.commute not_False_eq_True)
  moreover have "set ((L(i := L i @ [c])) j) = fst ` {x \<in> frees a ?cs. bin_index (snd x) = j}" if "j < 64" for j
  proof -
    have "{x \<in> insert (c, n) ?F. bin_index (snd x) = j} = (if j = i then {(c, n)} else {}) \<union> {x \<in> ?F. bin_index (snd x) = j}"
      by (auto simp: i_def)
    then show ?thesis unfolding fr(1) using set_L that i by auto
  qed
  ultimately have "free_ok bins (bin_chunk bins c i s) (frees a ?cs) (L(i := L i @ [c]))"
    using bc(1) st hd(4) by (simp add: free_ok_def f)
  moreover have "chain_ok (bin_chunk bins c i s) a ?cs" using assms(3) by (subst chain_ok_cong) simp_all
  ultimately show ?thesis using assms(1,2) by (simp add: heap_ok_def)
qed

section \<open>Splitting\<close>

lemma heap_trim:
  assumes "heap_ok bins s a (xs @ (n1, False) # ys) L" "unit_size n" "unat n \<le> unat n1"
  shows "\<exists>rest L'. heap_ok bins (trim bins (fin a xs) n s) a (xs @ (n, False) # rest @ ys) L'
    \<and> (rest = [] \<and> n = n1 \<or> rest = [(n1 - n, True)] \<and> unat n < unat n1)
    \<and> frame (fin a (xs @ (n1, False) # ys)) s (trim bins (fin a xs) n s)"
proof -
  define c where "c = fin a xs"
  have h: "bins_placed bins" "unat bins + 1536 \<le> unat a" "chain_ok s a (xs @ (n1, False) # ys)" "free_ok bins s (frees a (xs @ (n1, False) # ys)) L"
    using assms(1) by (auto simp: heap_ok_def)
  note hd = chain_header [OF h(3), folded c_def]
  have d: "unat (n1 - n) = unat n1 - unat n" using assms(3) by (intro unat_minus_le) (simp add: word_le_nat_alt)
  have dv: "32 dvd unat n1 - unat n" using assms(2) hd(6) by (simp add: unit_size_def dvd_diff_nat)
  have small: "n1 - n \<le> DONTCARE \<longleftrightarrow> unat n1 = unat n"
    using dv assms(3) d by (auto simp: word_le_nat_alt DONTCARE_def dest: dvd_imp_le)
  show ?thesis
  proof (cases "unat n1 = unat n")
    case True
    then have "n = n1" by (simp add: word_unat_eq_iff)
    moreover have "trim bins c n s = s" using True small hd(4) by (simp add: trim_def)
    ultimately show ?thesis using assms(1) by (intro exI [of _ "[]"] exI [of _ L]) (simp add: c_def frame_same)
  next
    case False
    let ?r = "n1 - n" and ?i = "bin_index (n1 - n)"
    define s1 where "s1 = set_csize c (n OR 1) (set_psize (c + n1) ?r (set_csize (c + n) ?r (set_psize (c + n) (n OR 1) s)))"
    have t: "trim bins c n s = bin_chunk bins (c + n) ?i (lock_bin bins ?i s1)"
      using False small hd(4,5) by (simp add: trim_def Let_def s1_def C_INUSE_def)
    have ur: "unit_size ?r" using False d dv assms(3) by (simp add: unit_size_def)
    have n0: "0 < unat n" using assms(2) by (simp add: unit_size_def)
    have cn: "unat (c + n) = unat c + unat n" using hd(7) assms(3) unat_add64 [of c n] unat_lt64 [of "c + n1"] by (simp add: c_def)
    have e: "c + n + ?r = c + n1" by simp
    have ne: "c \<noteq> c + n" "c \<noteq> c + n1" "c + n \<noteq> c + n1" using cn hd(6,7) assms(2) False by (auto simp: unit_size_def)
    have ch: "chain_ok s1 a (xs @ [(n, False), (?r, True)] @ ys)"
    proof (rule rechunk(1) [where ms = "[(n1, False)]"])
      show "tags s1 (ltag 1 xs) (fin a xs) [(n, False), (?r, True)]"
        using hd ne by (simp add: s1_def set_defs c_def [symmetric] tag_def)
    qed (use h(3) hd cn d ur assms False n0 in \<open>auto simp: s1_def set_defs c_def [symmetric]\<close>)
    have i: "?i < 64" using bin_index_less [OF unit_size_ge [OF ur]] .
    have "free_ok bins s1 (frees a (xs @ (n1, False) # ys)) L" using h(4) by (subst free_ok_cong [of _ s]) (simp_all add: s1_def set_defs)
    moreover have "frees a ((xs @ [(n, False)]) @ (?r, False) # ys) = frees a (xs @ (n1, False) # ys)" by (simp add: e)
    ultimately have lk: "free_ok bins (lock_bin bins ?i s1) (frees a ((xs @ [(n, False)]) @ (?r, False) # ys)) L" "opened bins (lock_bin bins ?i s1) L ?i"
      using free_ok_lock [OF h(1) _ i] by simp_all
    have "chain_ok (lock_bin bins ?i s1) a ((xs @ [(n, False)]) @ (?r, True) # ys)" using ch by (subst chain_ok_cong [of _ s1]) simp_all
    moreover have "unat c \<le> unat (fin a (xs @ (n1, False) # ys))" "unat (c + n1) \<le> unat (fin a (xs @ (n1, False) # ys))"
      using chunk_end [of a xs "(n1, False) # ys"] chunk_end [of a "xs @ [(n1, False)]" ys] h(3) by (simp_all add: chain_ok_def c_def)
    then have "frame (fin a (xs @ (n1, False) # ys)) s (trim bins c n s)"
      using cn hd(7) assms(3) unfolding t frame_def by (auto simp: s1_def set_defs)
    ultimately show ?thesis
      using heap_insert [OF h(1,2) _ lk] False assms(3) by (intro exI [of _ "[(?r, True)]"]) (auto simp: t c_def [symmetric])
  qed
qed

section \<open>Merging\<close>

text \<open>A free neighbour leaves its bin; the chunks themselves stay as they are until \<open>bin_free_chunk\<close> writes the
  headers of the merged one.\<close>

lemma heap_lock:
  assumes "heap_ok bins s a cs L" "i < 64"
  shows "heap_ok bins (lock_bin bins i s) a cs L"
  using assms free_ok_lock [of bins s _ L i] chain_ok_cong [of "lock_bin bins i s" s] by (simp add: heap_ok_def)

lemma tag_free: "unit_size n \<Longrightarrow> (tag n f AND C_INUSE \<noteq> 0) \<longleftrightarrow> \<not> f"
  by (simp add: tag_size C_INUSE_def)

lemma ltag_free:
  assumes "wfc a xs" "ltag 1 xs AND C_INUSE = 0"
  obtains xs' p where "xs = xs' @ [(p, True)]"
proof (cases xs rule: rev_cases)
  case Nil
  then show ?thesis using assms(2) by (simp add: C_INUSE_def)
next
  case (snoc xs' x)
  moreover have "unit_size (fst x)" using assms(1) snoc by (simp add: wfc_def)
  ultimately show ?thesis using that tag_free [of "fst x" "snd x"] assms(2) by (cases x) auto
qed

lemma heap_merge_prev:
  assumes "heap_ok bins s a (xs @ (n, False) # ys) L"
  obtains X p L' where "merge_prev bins (fin a xs) sz s = (fin a X, sz + p, snd (snd (merge_prev bins (fin a xs) sz s)))"
    "heap_ok bins (snd (snd (merge_prev bins (fin a xs) sz s))) a (X @ (if p = 0 then [] else [(p, False)]) @ (n, False) # ys) L'"
    "xs = X @ (if p = 0 then [] else [(p, True)])"
    "X \<noteq> [] \<Longrightarrow> p \<noteq> 0 \<or> \<not> snd (last X)"
    "frame (fin a (xs @ (n, False) # ys)) s (snd (snd (merge_prev bins (fin a xs) sz s)))"
proof -
  have c: "chain_ok s a (xs @ (n, False) # ys)" using assms by (simp add: heap_ok_def)
  note hd = chain_header [OF c]
  have w: "wfc a xs" using c wfc_append by (auto simp: chain_ok_def)
  show ?thesis
  proof (cases "ltag 1 xs AND C_INUSE = 0")
    case False
    have "\<not> snd (last xs)" if "xs \<noteq> []"
      using that False w by (cases xs rule: rev_cases) (auto simp: tag_def C_INUSE_def wfc_def dest!: tag_size(2) [where f = True])
    then show ?thesis using False hd assms by (intro that [of xs 0 L]) (simp_all add: merge_prev_def frame_same)
  next
    case True
    then obtain X p where x: "xs = X @ [(p, True)]" using ltag_free [OF w] by blast
    have p: "unit_size p" "p \<noteq> 0" using w x by (auto simp: wfc_def unit_size_def)
    have ps: "psize s (fin a xs) = p" using hd(2) x by (simp add: tag_def)
    then have sz: "CHUNK_PSIZE s (fin a xs) = p" using tag_size(1) [OF p(1), of True] by (simp add: CHUNK_PSIZE_def tag_def)
    let ?s = "lock_bin bins (bin_index p) s"
    have i: "bin_index p < 64" using bin_index_less [OF unit_size_ge [OF p(1)]] .
    have "heap_ok bins ?s a (X @ (p, True) # (n, False) # ys) L" using heap_lock [OF _ i] assms x by simp
    from heap_unbin(1,4) [OF this] have "heap_ok bins (unbin (fin a X) (bin_index p) ?s) a (X @ (p, False) # (n, False) # ys)
        (L(bin_index p := remove1 (fin a X) (L (bin_index p))))" "frame (fin a (xs @ (n, False) # ys)) s (unbin (fin a X) (bin_index p) ?s)"
      using x by (simp_all add: frame_def)
    moreover have "merge_prev bins (fin a xs) sz s = (fin a X, sz + p, unbin (fin a X) (bin_index p) ?s)"
      using True ps sz p(2) hd(2) x by (simp add: merge_prev_def Let_def PREV_CHUNK_def CHUNK_PSIZE_def word_neq_0_conv)
    ultimately show ?thesis using x p(2) by (intro that [of X p]) simp_all
  qed
qed

lemma heap_ok_cong:
  "psize s' = psize s \<Longrightarrow> csize s' = csize s \<Longrightarrow> nxt s' = nxt s \<Longrightarrow> prv s' = prv s \<Longrightarrow> binmap s' = binmap s \<Longrightarrow>
   free_bytes s' = free_bytes s \<Longrightarrow> free_block_bytes s' = free_block_bytes s \<Longrightarrow> heap_ok bins s' a cs L = heap_ok bins s a cs L"
  unfolding heap_ok_def using free_ok_cong [of s' s] chain_ok_cong [of s' s] by simp

text \<open>The size of a free chunk at the head of a list, 0 when there is none.\<close>

definition nfree :: "chunks \<Rightarrow> u64" where
  "nfree ys = (case ys of (m, True) # _ \<Rightarrow> m | _ \<Rightarrow> 0)"

lemma next_size:
  assumes "chain_ok s a (xs @ ys)"
  shows "(if csize s (fin a xs) AND C_INUSE \<noteq> 0 then 0 else CHUNK_SIZE s (fin a xs)) = nfree ys"
    "csize s (fin a xs) AND C_INUSE = 0 \<longleftrightarrow> nfree ys \<noteq> 0"
proof -
  have "(if csize s (fin a xs) AND C_INUSE \<noteq> 0 then 0 else CHUNK_SIZE s (fin a xs)) = nfree ys
    \<and> (csize s (fin a xs) AND C_INUSE = 0 \<longleftrightarrow> nfree ys \<noteq> 0)"
  proof (cases ys)
    case Nil
    then show ?thesis using assms by (simp add: chain_ok_def nfree_def C_INUSE_def)
  next
    case (Cons y Y)
    obtain m f where y: "y = (m, f)" by (cases y)
    then have "chain_ok s a (xs @ (m, f) # Y)" using assms Cons by simp
    note hd = chain_header [OF this]
    then show ?thesis using Cons y tag_free [of m f] by (cases f) (auto simp: nfree_def unit_size_def)
  qed
  then show "(if csize s (fin a xs) AND C_INUSE \<noteq> 0 then 0 else CHUNK_SIZE s (fin a xs)) = nfree ys"
    "csize s (fin a xs) AND C_INUSE = 0 \<longleftrightarrow> nfree ys \<noteq> 0" by blast+
qed

lemma heap_merge_next:
  assumes "heap_ok bins s a (xs @ ys) L"
  obtains m Y L' s' where "merge_next bins (nfree ys) (fin a xs) sz s = (fin a xs + m, sz + m, s')"
    "heap_ok bins s' a (xs @ (if m = 0 then [] else [(m, False)]) @ Y) L'"
    "ys = (if m = 0 then [] else [(m, True)]) @ Y" "Y \<noteq> [] \<Longrightarrow> m \<noteq> 0 \<or> \<not> snd (hd Y)"
    "frame (fin a (xs @ ys)) s s'"
proof -
  have c: "chain_ok s a (xs @ ys)" using assms by (simp add: heap_ok_def)
  show ?thesis
  proof (cases "nfree ys = 0")
    case True
    have "\<forall>y\<in>set ys. unit_size (fst y)" using c by (auto simp: chain_ok_def wfc_def)
    then have "\<not> snd (hd ys)" if "ys \<noteq> []"
      using that True by (cases ys) (auto simp: nfree_def unit_size_def split: bool.splits)
    then show ?thesis using True assms by (intro that [of 0 s ys L]) (simp_all add: merge_next_def frame_same)
  next
    case False
    then obtain m Y where y: "ys = (m, True) # Y" "nfree ys = m" by (auto simp: nfree_def split: list.splits bool.splits)
    let ?s = "lock_bin bins (bin_index m) s"
    have hd: "unit_size m" "csize s (fin a xs) = tag m True" using chain_header [of s a xs m True Y] c y(1) by auto
    have i: "bin_index m < 64" using bin_index_less [OF unit_size_ge [OF hd(1)]] .
    have l: "heap_ok bins ?s a (xs @ (m, True) # Y) L" using heap_lock [OF _ i] assms y(1) by simp
    note u = heap_unbin(1) [OF l]
    have fr: "frame (fin a (xs @ ys)) s (unbin (fin a xs) (bin_index m) ?s)" using heap_unbin(4) [OF l] y(1) by (simp add: frame_def)
    have nx: "NEXT_CHUNK (unbin (fin a xs) (bin_index m) ?s) (fin a xs) = fin a xs + m"
      using u chain_header(5) by (auto simp: heap_ok_def)
    have "merge_next bins (nfree ys) (fin a xs) sz s = (fin a xs + m, sz + m, unbin (fin a xs) (bin_index m) ?s)"
      using False y(2) tag_free [OF hd(1), of True] hd(2) nx by (simp add: merge_next_def Let_def word_neq_0_conv)
    then show ?thesis using u y False fr by (intro that [of m _ Y]) simp_all
  qed
qed

section \<open>Freeing\<close>

text \<open>The part of the state that the lists and headers do not concern.\<close>

definition os_part :: "mal \<Rightarrow> u64 \<times> u64 \<times> (u64 \<times> u64) list \<times> u64 \<times> nat" where
  "os_part s = (heap_end s, stored_brk s, maps s, sys_brk s, mmap_calls s)"

lemma os_part_ops [simp]:
  "os_part (lock_bin bins i s) = os_part s" "os_part (unbin c i s) = os_part s" "os_part (bin_chunk bins c i s) = os_part s"
  "os_part (set_csize c v s) = os_part s" "os_part (set_psize c v s) = os_part s"
  "os_part (s\<lparr>allocated_bytes := w\<rparr>) = os_part s"
  "os_part (reclaim c e sz osz s) = os_part s" "os_part (trim bins c n s) = os_part s"
  "os_part (snd (snd (merge_prev bins c sz s))) = os_part s" "os_part (snd (snd (merge_next bins ns c sz s))) = os_part s"
  by (simp_all add: os_part_def set_defs reclaim_def trim_def merge_prev_def merge_next_def Let_def)

lemma allocated_ops [simp]:
  "allocated_bytes (set_csize c v s) = allocated_bytes s" "allocated_bytes (set_psize c v s) = allocated_bytes s"
  "allocated_bytes (reclaim c e sz osz s) = allocated_bytes s" "allocated_bytes (trim bins c n s) = allocated_bytes s"
  "allocated_bytes (snd (snd (merge_prev bins c sz s))) = allocated_bytes s"
  "allocated_bytes (snd (snd (merge_next bins ns c sz s))) = allocated_bytes s"
  by (simp_all add: set_defs reclaim_def trim_def merge_prev_def merge_next_def Let_def)

text \<open>Writing the headers of the merged chunk and putting it into its bin.\<close>

lemma heap_join:
  assumes "heap_ok bins s a (X @ ms @ Y) L" "\<And>y. y \<in> set ms \<Longrightarrow> \<not> snd y" "ms \<noteq> []" "unat sz = total ms" "e = fin a (X @ ms)"
  defines "i \<equiv> bin_index sz"
  shows "heap_ok bins (bin_chunk bins (fin a X) i (set_psize e sz (set_csize (fin a X) sz (lock_bin bins i s)))) a (X @ (sz, True) # Y)
    (L(i := L i @ [fin a X]))"
proof -
  let ?c = "fin a X"
  have h: "bins_placed bins" "unat bins + 1536 \<le> unat a" "chain_ok s a (X @ ms @ Y)" "free_ok bins s (frees a (X @ ms @ Y)) L"
    using assms(1) by (auto simp: heap_ok_def)
  have w: "wfc ?c ms" using h(3) wfc_append by (fastforce simp: chain_ok_def)
  have dv: "32 dvd total cs" if "\<forall>y\<in>set cs. unit_size (fst y)" for cs
    using that by (induction cs) (auto simp: unit_size_def)
  have u: "unit_size sz" using w assms(3,4) dv [of ms] by (cases ms) (auto simp: unit_size_def wfc_def)
  then have i: "i < 64" unfolding i_def using bin_index_less [OF unit_size_ge] by blast
  define s1 where "s1 = lock_bin bins i s"
  define s2 where "s2 = set_psize e sz (set_csize ?c sz s1)"
  have ue: "unat e = unat ?c + unat sz" using unat_fin [OF w] assms(4,5) by simp
  then have e: "?c + sz = e" using unat_add64 [of ?c sz] unat_lt64 [of e] by (simp add: word_unat_eq_iff)
  have ne: "?c \<noteq> e" using ue u by (auto simp: unit_size_def)
  have h1: "chain_ok s1 a (X @ ms @ Y)" using h(3) by (subst chain_ok_cong [of _ s]) (simp_all add: s1_def)
  have ch: "chain_ok s2 a (X @ [(sz, True)] @ Y)"
  proof (rule rechunk(1) [OF h1])
    have "tags s1 1 a X" using h1 by (simp add: chain_ok_def tags_append)
    then show "tags s2 (ltag 1 X) ?c [(sz, True)]" using tags_last [of s1 1 a X] e ne by (simp add: s2_def set_defs tag_def)
  qed (use u ue assms(3-5) ne in \<open>auto simp: s2_def set_defs unit_size_def\<close>)
  have lk: "free_ok bins s1 (frees a (X @ ms @ Y)) L" "opened bins s1 L i" unfolding s1_def using free_ok_lock [OF h(1,4) i] .
  have "\<forall>y\<in>set ms. \<not> snd y" using assms(2) by blast
  then have "frees b ms = {}" for b by (induction ms arbitrary: b) (auto split: if_splits)
  then have "frees a (X @ (sz, False) # Y) = frees a (X @ ms @ Y)" using e assms(5) by simp
  moreover have "free_ok bins s2 F L = free_ok bins s1 F L" for F by (rule free_ok_cong) (simp_all add: s2_def set_defs)
  ultimately have f2: "free_ok bins s2 (frees a (X @ (sz, False) # Y)) L" using lk(1) by simp
  have o2: "opened bins s2 L (bin_index sz)" using lk(2) by (simp add: opened_def s2_def set_defs i_def)
  from heap_insert [OF h(1,2) _ f2 o2] ch show ?thesis by (simp add: s2_def s1_def i_def)
qed

text \<open>The chunk lists before and after: the freed chunk absorbs its free neighbours.\<close>

lemma heap_free:
  assumes "heap_ok bins s a (xs @ (n, False) # ys) L"
  obtains X p m Y L' s' where "bin_free_chunk bins (fin a xs) s = Inr s'"
    "heap_ok bins s' a (X @ (p + n + m, True) # Y) L'"
    "xs = X @ (if p = 0 then [] else [(p, True)])" "ys = (if m = 0 then [] else [(m, True)]) @ Y"
    "unat (p + n + m) = unat p + unat n + unat m"
    "X \<noteq> [] \<Longrightarrow> p \<noteq> 0 \<or> \<not> snd (last X)" "Y \<noteq> [] \<Longrightarrow> m \<noteq> 0 \<or> \<not> snd (hd Y)"
    "allocated_bytes s' = allocated_bytes s - n" "os_part s' = os_part s" "frame (fin a (xs @ (n, False) # ys)) s s'"
proof -
  define c where "c = fin a xs"
  have ch: "chain_ok s a (xs @ (n, False) # ys)" using assms by (simp add: heap_ok_def)
  note hd = chain_header [OF ch, folded c_def]
  define s0 where "s0 = s\<lparr>allocated_bytes := allocated_bytes s - n\<rparr>"
  have h0: "heap_ok bins s0 a (xs @ (n, False) # ys) L" using assms by (subst heap_ok_cong [of _ s]) (simp_all add: s0_def)
  define s1 where "s1 = snd (snd (merge_prev bins c n s0))"
  obtain X p L1 where mp: "merge_prev bins c n s0 = (fin a X, n + p, s1)"
    and h1: "heap_ok bins s1 a (X @ (if p = 0 then [] else [(p, False)]) @ (n, False) # ys) L1"
    and x: "xs = X @ (if p = 0 then [] else [(p, True)])" "X \<noteq> [] \<Longrightarrow> p \<noteq> 0 \<or> \<not> snd (last X)"
    and fr1: "frame (fin a (xs @ (n, False) # ys)) s0 s1"
    using heap_merge_prev [OF h0, of n, folded c_def, folded s1_def] by metis
  let ?P = "if p = 0 then [] else [(p, False)]"
  have fx: "fin a (X @ ?P @ [(n, False)]) = c + n" using x(1) by (simp add: c_def)
  have ns: "(if csize s (c + n) AND C_INUSE \<noteq> 0 then 0 else CHUNK_SIZE s (c + n)) = nfree ys"
    using next_size(1) [of s a "xs @ [(n, False)]" ys] ch unfolding fin_append fin.simps c_def by simp
  have h1': "heap_ok bins s1 a ((X @ ?P @ [(n, False)]) @ ys) L1" using h1 by simp
  obtain m Y L2 s2 where mn: "merge_next bins (nfree ys) (c + n) (n + p) s1 = (c + n + m, n + p + m, s2)"
    and h2: "heap_ok bins s2 a ((X @ ?P @ [(n, False)]) @ (if m = 0 then [] else [(m, False)]) @ Y) L2"
    and y: "ys = (if m = 0 then [] else [(m, True)]) @ Y" "Y \<noteq> [] \<Longrightarrow> m \<noteq> 0 \<or> \<not> snd (hd Y)"
    and fr2: "frame (fin a ((X @ ?P @ [(n, False)]) @ ys)) s1 s2"
    by (rule heap_merge_next [OF h1', of "n + p", unfolded fx]) (rule that)
  let ?ms = "?P @ [(n, False)] @ (if m = 0 then [] else [(m, False)])" and ?sz = "n + p + m"
  have "wfc a (X @ ?ms @ Y)" using h2 by (simp add: heap_ok_def chain_ok_def)
  then have "total ?ms < 2 ^ 64" by (simp add: wfc_def)
  then have usz: "unat ?sz = total ?ms" and usz': "unat ?sz = unat p + unat n + unat m"
    using unat_add64 [of n p] unat_add64 [of "n + p" m] by (auto split: if_splits)
  define s3 where "s3 = bin_chunk bins (fin a X) (bin_index ?sz) (set_psize (c + n + m) ?sz (set_csize (fin a X) ?sz (lock_bin bins (bin_index ?sz) s2)))"
  have e: "c + n + m = fin a (X @ ?ms)" using fx by (simp add: add.assoc [symmetric])
  have h2': "heap_ok bins s2 a (X @ ?ms @ Y) L2" using h2 by simp
  have h3: "heap_ok bins s3 a (X @ (?sz, True) # Y) (L2(bin_index ?sz := L2 (bin_index ?sz) @ [fin a X]))"
    unfolding s3_def by (rule heap_join [OF h2' _ _ usz e]) (auto split: if_splits)
  have f0: "psize s0 = psize s" "csize s0 = csize s" "CHUNK_SIZE s0 x = CHUNK_SIZE s x" for x
    by (simp_all add: s0_def CHUNK_SIZE_def)
  define s4 where "s4 = reclaim (fin a X) (c + n + m) ?sz n s3"
  have "bin_free_chunk bins c s = Inr s4"
    unfolding bin_free_chunk_def Let_def hd(4,5) s0_def [symmetric] f0 ns hd(1,3) mp mn s4_def s3_def by (simp add: mn)
  moreover have "heap_ok bins s4 a (X @ (?sz, True) # Y) (L2(bin_index ?sz := L2 (bin_index ?sz) @ [fin a X]))"
    using h3 by (subst heap_ok_cong [of _ s3]) (simp_all add: s4_def reclaim_def Let_def)
  moreover have "allocated_bytes s2 = allocated_bytes s1" "os_part s2 = os_part s1"
    using allocated_ops(6) [of bins "nfree ys" "c + n" "n + p" s1] os_part_ops(10) [of bins "nfree ys" "c + n" "n + p" s1] mn by simp_all
  then have "allocated_bytes s4 = allocated_bytes s - n" "os_part s4 = os_part s"
    by (simp_all add: s4_def s3_def s1_def s0_def)
  moreover have "?sz = p + n + m" by simp
  moreover have "frame (fin a (xs @ (n, False) # ys)) s s4"
  proof -
    let ?e = "fin a (xs @ (n, False) # ys)"
    have ee: "fin a (X @ ?ms @ Y) = ?e" "fin a ((X @ ?P @ [(n, False)]) @ ys) = ?e" using x(1) y(1) by simp_all
    have "unat (fin a X) \<le> unat ?e" "unat (c + n + m) \<le> unat ?e"
      using chunk_end [of a X "?ms @ Y"] chunk_end [of a "X @ ?ms" Y] \<open>wfc a (X @ ?ms @ Y)\<close> e ee(1) by simp_all
    then have "frame ?e s2 s4" by (auto simp: frame_def s4_def s3_def reclaim_def Let_def set_defs)
    then show ?thesis using fr1 fr2 unfolding ee(2) by (auto simp: frame_def s0_def)
  qed
  ultimately show ?thesis using x y usz' that [of s4 X p m Y] unfolding c_def by metis
qed

end
