(* ===== verification/Malloc_Alloc.thy ===== *)
theory Malloc_Alloc
  imports Malloc_Heap
begin

text \<open>
  The allocating side: which chunk the search over the bins finds and that it ends, the fast path, and
  the growth of the heap, each as an operation on the chunk list of \<open>Malloc_Heap\<close>.
\<close>

section \<open>Searching\<close>

lemma ctz_spec: "x \<noteq> 0 \<Longrightarrow> (\<And>i. k \<le> i \<Longrightarrow> \<not> bit x i) \<Longrightarrow> ctz k x < k \<and> bit x (ctz k x)"
proof (induction k arbitrary: x)
  case 0
  then show ?case by (metis bit_eqI bit_0_eq bot_apply bot_bool_def le0)
next
  case (Suc k)
  show ?case
  proof (cases "bit x 0")
    case False
    have "drop_bit 1 x \<noteq> 0"
    proof
      assume "drop_bit 1 x = 0"
      then have "\<not> bit x (Suc i)" for i using bit_drop_bit_eq [of 1 x] by (metis bit_0_eq bot_apply bot_bool_def comp_apply plus_1_eq_Suc)
      then have "\<not> bit x i" for i using False by (cases i) simp_all
      then show False using Suc.prems(1) by (metis bit_eqI bit_0_eq bot_apply bot_bool_def)
    qed
    then show ?thesis using Suc.IH [of "drop_bit 1 x"] Suc.prems(2) False by (simp add: bit_drop_bit_eq)
  qed simp
qed

lemma first_set_spec: "x \<noteq> 0 \<Longrightarrow> first_set x < 64 \<and> bit x (first_set x)"
  unfolding first_set_def by (rule ctz_spec) (auto dest: bit_imp_le_length)

text \<open>A chunk of a bin.\<close>

lemma bin_member:
  assumes "heap_ok bins s a cs L" "j < 64" "c \<in> set (L j)"
  obtains xs m ys where "cs = xs @ (m, True) # ys" "c = fin a xs" "bin_index m = j"
proof -
  obtain m where "(c, m) \<in> frees a cs" "bin_index m = j" using assms by (force simp: heap_ok_def free_ok_def)
  then show ?thesis using blocks_split [of c m True a cs] that by (auto simp: frees_def)
qed

lemma bin_head:
  assumes "heap_ok bins s a cs L" "j < 64" "L j \<noteq> []"
  shows "nxt (lock_bin bins j s) (BIN_TO_CHUNK bins j) = hd (L j)" "hd (L j) \<noteq> BIN_TO_CHUNK bins j"
proof -
  have h: "bins_placed bins" "bins_ok bins s L" using assms(1) by (auto simp: heap_ok_def free_ok_def)
  show "nxt (lock_bin bins j s) (BIN_TO_CHUNK bins j) = hd (L j)"
    using links_first lock_bin_ok(2) [OF h assms(2)] assms(3) by (fastforce simp: opened_def)
  show "hd (L j) \<noteq> BIN_TO_CHUNK bins j" using bins_okD(4) [OF h(2) assms(2) hd_in_set [OF assms(3)]] assms(2) by (auto simp: node_ok_def)
qed

text \<open>Taking the first chunk of a bin.\<close>

lemma heap_take:
  assumes "heap_ok bins s a cs L" "j < 64" "L j \<noteq> []"
  obtains xs m ys L' where "cs = xs @ (m, True) # ys" "hd (L j) = fin a xs" "bin_index m = j"
    "heap_ok bins (unbin (hd (L j)) j (lock_bin bins j s)) a (xs @ (m, False) # ys) L'"
    "frame (fin a cs) s (unbin (hd (L j)) j (lock_bin bins j s))"
proof -
  obtain xs m ys where c: "cs = xs @ (m, True) # ys" "hd (L j) = fin a xs" "bin_index m = j"
    using bin_member [OF assms(1,2) hd_in_set [OF assms(3)]] by metis
  from heap_unbin(1,4) [of bins "lock_bin bins j s" a xs m ys L] heap_lock [OF assms(1,2)] c show ?thesis
    by (intro that [OF c]) (auto simp: frame_def)
qed

text \<open>The loop over the bins ends in its first round: the bin of the lowest set bit is not empty.\<close>

lemma search_bins_result:
  assumes "heap_ok bins s a cs L" "i < 64"
  defines "msk \<equiv> mask_high_bits (binmap s) (of_nat i)"
  shows "msk = 0 \<Longrightarrow> search_bins bins msk s = Some (None, s)"
    "msk \<noteq> 0 \<Longrightarrow> \<exists>j. i \<le> j \<and> j < 64 \<and> L j \<noteq> [] \<and> search_bins bins msk s = Some (Some (hd (L j)), unbin (hd (L j)) j (lock_bin bins j s))"
proof -
  show "msk = 0 \<Longrightarrow> search_bins bins msk s = Some (None, s)" by (subst search_bins.simps) simp
  assume m: "msk \<noteq> 0"
  define j where "j = first_set msk"
  have j: "j < 64" "bit msk j" using first_set_spec [OF m] by (simp_all add: j_def)
  then have "i \<le> j" "bit (binmap s) j" using assms(2) by (auto simp: msk_def bit_mask_high_bits unat_of_nat)
  moreover then have ne: "L j \<noteq> []" using assms(1) j(1) bins_okD(3) [of bins s L j] by (auto simp: heap_ok_def free_ok_def)
  moreover have "search_bins bins msk s = Some (Some (hd (L j)), unbin (hd (L j)) j (lock_bin bins j s))"
    using m bin_head [OF assms(1) j(1) ne] by (subst search_bins.simps) (simp add: Let_def j_def [symmetric])
  ultimately show "\<exists>j. i \<le> j \<and> j < 64 \<and> L j \<noteq> [] \<and> search_bins bins msk s = Some (Some (hd (L j)), unbin (hd (L j)) j (lock_bin bins j s))"
    using j(1) by blast
qed

text \<open>A set bit over an empty bin makes the loop run forever.\<close>

lemma search_bins_diverges:
  assumes "msk \<noteq> 0" "nxt (lock_bin bins (first_set msk) s) (BIN_TO_CHUNK bins (first_set msk)) = BIN_TO_CHUNK bins (first_set msk)"
  shows "search_bins bins msk s = None"
proof -
  have "\<not> (msk \<noteq> 0 \<and> nxt (lock_bin bins (first_set msk) s) (BIN_TO_CHUNK bins (first_set msk)) = BIN_TO_CHUNK bins (first_set msk))"
    if "search_bins bins msk s = Some r" for r
  proof (rule search_bins.raw_induct [OF _ that], goal_cases)
    case (1 search bins msk s r)
    let ?b = "BIN_TO_CHUNK bins (first_set msk)" and ?s = "lock_bin bins (first_set msk) s"
    show ?case
    proof
      assume e: "msk \<noteq> 0 \<and> nxt ?s ?b = ?b"
      then have "search bins msk ?s = Some r" using 1(2) by (simp add: Let_def)
      from 1(1) [OF this] have "nxt (lock_bin bins (first_set msk) ?s) ?b \<noteq> ?b" using e by simp
      then show False using e by (auto simp: lock_bin_def [of _ _ ?s] set_defs Let_def split: if_splits)
    qed
  qed
  then show ?thesis using assms by (cases "search_bins bins msk s") auto
qed

section \<open>Sizes\<close>

lemma adjust_size_spec:
  assumes "adjust_size k = Some n"
  shows "unit_size n" "unat k + 16 \<le> unat n \<or> k = 0" "unat n < unat k + 48"
proof -
  consider "k = 0" "n = 32" | "k - 1 \<le> PTRDIFF_MAX - SIZE_ALIGN - PAGE_SIZE" "n = align64_up (k + 16) (2 ^ 5)"
    using assms by (auto simp: adjust_size_def SIZE_ALIGN_def OVERHEAD_def split: if_splits)
  then have "unit_size n \<and> (unat k + 16 \<le> unat n \<or> k = 0) \<and> unat n < unat k + 48"
  proof cases
    case 1
    then show ?thesis by (simp add: unit_size_def)
  next
    case 2
    have "unat (- 1 :: u64) = 2 ^ 64 - 1" using unat_INVALID_VALUE by (simp only: INVALID_VALUE_def)
    then have "k \<noteq> 0" using 2(1) by (auto simp: PTRDIFF_MAX_def SIZE_ALIGN_def PAGE_SIZE_def word_le_nat_alt)
    then have "unat (k - 1) = unat k - 1" by (simp add: unat_minus_one)
    then have b: "unat k \<le> 9223372036854771680" using 2(1) by (simp add: PTRDIFF_MAX_def SIZE_ALIGN_def PAGE_SIZE_def word_le_nat_alt)
    then have k: "unat (k + 16) = unat k + 16" by (intro unat_add64 [of k 16, simplified]) simp
    from align64_up_least [of 5 "k + 16"] k b show ?thesis unfolding 2(2) by (simp add: unit_size_def)
  qed
  then show "unit_size n" "unat k + 16 \<le> unat n \<or> k = 0" "unat n < unat k + 48" by blast+
qed

section \<open>Growing\<close>

text \<open>The address from which \<open>expand_heap_os\<close> hands out memory, and what it asks for.\<close>

definition brk_of :: "mal \<Rightarrow> u64" where
  "brk_of s = (if stored_brk s = 0 then align64_up (sys_brk s) PAGE_SIZE else stored_brk s)"

definition grow_size :: "u64 \<Rightarrow> u64" where
  "grow_size n = align64_up (n + SIZE_ALIGN) PAGE_SIZE"

lemma grow_size_spec:
  assumes "unat n \<le> 7168 * 32"
  shows "4096 dvd unat (grow_size n)" "unat n + 32 \<le> unat (grow_size n)" "unat (grow_size n) \<le> 237568"
proof -
  have n: "unat (n + 32) = unat n + 32" using assms by (intro unat_add64 [of n 32, simplified]) simp
  from align64_up_least [of 12 "n + 32"] n assms
  have s: "4096 dvd unat (grow_size n) \<and> unat n + 32 \<le> unat (grow_size n) \<and> unat (grow_size n) < unat n + 32 + 4096"
    by (simp add: grow_size_def SIZE_ALIGN_def PAGE_SIZE_def)
  then show "4096 dvd unat (grow_size n)" "unat n + 32 \<le> unat (grow_size n)" "unat (grow_size n) \<le> 237568" using assms by auto
qed

text \<open>The heap ends where the pages below the program break end.\<close>

definition backed :: "mal \<Rightarrow> bool" where
  "backed s \<longleftrightarrow> brk_of s = align64_up (sys_brk s) PAGE_SIZE"

lemma multiple_unique:
  assumes "d dvd x" "d dvd y" "v \<le> x" "x < v + d" "v \<le> y" "y < v + (d :: nat)"
  shows "x = y"
proof -
  have "d dvd x - y" "d dvd y - x" using assms(1,2) by (simp_all add: dvd_diff_nat)
  moreover have "x - y < d" "y - x < d" using assms(3-6) by linarith+
  ultimately have "x - y = 0" "y - x = 0" using nat_dvd_not_less by blast+
  then show ?thesis by simp
qed

lemma align64_up_add:
  assumes "4096 dvd unat g" "unat v + unat g + 4096 \<le> 2 ^ 64"
  shows "align64_up (v + g) (2 ^ 12) = align64_up v (2 ^ 12) + g"
proof -
  have u: "unat (v + g) = unat v + unat g" using assms(2) by (intro unat_add64) simp
  have x: "4096 dvd unat (align64_up v (2 ^ 12)) \<and> unat v \<le> unat (align64_up v (2 ^ 12)) \<and> unat (align64_up v (2 ^ 12)) < unat v + 4096"
    using align64_up_least [of 12 v] assms(2) by simp
  have y: "4096 dvd unat (align64_up (v + g) (2 ^ 12)) \<and> unat v + unat g \<le> unat (align64_up (v + g) (2 ^ 12))
      \<and> unat (align64_up (v + g) (2 ^ 12)) < unat v + unat g + 4096"
    using align64_up_least [of 12 "v + g"] assms(2) u by simp
  have "unat (align64_up v (2 ^ 12) + g) = unat (align64_up v (2 ^ 12)) + unat g" using x assms(2) by (intro unat_add64) linarith
  moreover have "4096 dvd unat (align64_up v (2 ^ 12)) + unat g" using x assms(1) by simp
  ultimately have "unat (align64_up (v + g) (2 ^ 12)) = unat (align64_up v (2 ^ 12) + g)" using x y
    by (intro multiple_unique [of 4096 _ _ "unat v + unat g"]) simp_all
  then show ?thesis by (simp only: word_unat_eq_iff)
qed

text \<open>A header below the new end of the heap lies in memory when the break has moved.\<close>

lemma header_mapped_grown:
  assumes "backed s" "unat (brk_of s) + 2 ^ 20 < 2 ^ 63" "unat (sys_brk s) \<le> unat (brk_of s)" "unat n \<le> 7168 * 32"
    "sys_brk s' = sys_brk s + grow_size n" "unat c + 16 \<le> unat (brk_of s) + unat (grow_size n)"
  shows "header_mapped c s'"
proof -
  note g = grow_size_spec [OF assms(4)]
  have "unat (sys_brk s) + unat (grow_size n) + 4096 \<le> 2 ^ 64" using g(3) assms(2,3) by simp
  from align64_up_add [OF g(1) this] have "align64_up (sys_brk s') PAGE_SIZE = brk_of s + grow_size n"
    using assms(1,5) by (simp add: backed_def PAGE_SIZE_def)
  moreover have "unat (brk_of s + grow_size n) = unat (brk_of s) + unat (grow_size n)" using assms(2) g(3) by (intro unat_add64) simp
  ultimately show ?thesis using assms(6) by (simp add: header_mapped_def)
qed

text \<open>The result of \<open>sbrk\<close> is compared with 0 as an unsigned number, so the heap is taken to have grown whatever the
  kernel answered.\<close>

lemma expand_heap_os_result:
  assumes "unat n \<le> 7168 * 32" "unat (brk_of s) + 2 ^ 20 < 2 ^ 63" "brk_of s \<noteq> 0"
  shows "expand_heap_os os (n + SIZE_ALIGN) s = (Some (brk_of s, grow_size n),
    s\<lparr>sys_brk := (if sbrk_ok os (sys_brk s) (grow_size n) then sys_brk s + grow_size n else sys_brk s),
      stored_brk := brk_of s + grow_size n, heap_bytes := heap_bytes s + grow_size n\<rparr>)"
proof -
  note g = grow_size_spec [OF assms(1)]
  have n: "unat (n + 32) = unat n + 32" using assms(1) by (intro unat_add64 [of n 32, simplified]) simp
  have "unat (SIZE_MAX div 2 - PAGE_SIZE) = 2 ^ 63 - 1 - 4096" by (simp add: SIZE_MAX_def PAGE_SIZE_def)
  then have 1: "\<not> n + SIZE_ALIGN > SIZE_MAX div 2 - PAGE_SIZE" using n assms(1) by (simp add: word_less_nat_alt SIZE_ALIGN_def)
  have "unat (SIZE_MAX - brk_of s) = 2 ^ 64 - 1 - unat (brk_of s)"
    using unat_INVALID_VALUE unat_minus_le [OF word_n1_ge [of "brk_of s"]] by (simp add: SIZE_MAX_def INVALID_VALUE_def)
  then have 2: "\<not> grow_size n \<ge> SIZE_MAX - brk_of s" using g(3) assms(2) by (simp add: word_le_nat_alt)
  show ?thesis using 1 2 assms(3)
    by (auto simp: expand_heap_os_def sbrk_def Let_def brk_of_def grow_size_def [symmetric] split: if_splits)
qed

text \<open>The first growth makes a heap of one chunk in use; a later one turns the closing sentinel into the header of a
  further chunk.\<close>

lemma chain_grow:
  assumes "chain_ok s a cs" "unit_size n" "wfc a (cs @ [(n, False)])"
  defines "c \<equiv> fin a cs"
  shows "chain_ok (set_csize c (n OR 1) (set_csize (c + n) 1 (set_psize (c + n) (n OR 1) s))) a (cs @ [(n, False)])"
proof -
  have c: "tags s 1 a cs" "psize s c = ltag 1 cs" "wfc a cs" using assms(1) tags_last by (auto simp: chain_ok_def c_def)
  have w: "wfc c [(n, False)]" using wfc_append [OF assms(3)] by (simp add: c_def)
  then have u: "unat (c + n) = unat c + unat n" "0 < unat n" using wfc_Cons [of c n False "[]"] by (auto simp: unit_size_def)
  let ?s = "set_csize c (n OR 1) (set_csize (c + n) 1 (set_psize (c + n) (n OR 1) s))"
  have "tags ?s 1 a cs"
    using u tags_first [OF c(1)] unat_fin [OF c(3)]
    by (intro tags_frame [OF c(3,1)]) (auto simp: set_defs c_def [symmetric] tags_first)
  moreover have "c \<noteq> c + n" using u by auto
  ultimately show ?thesis using assms(3) c(2) by (simp add: chain_ok_def tags_append c_def [symmetric] set_defs tag_def)
qed

lemma chain_first:
  assumes "wfc a [(n, False)]"
  shows "chain_ok (set_csize a (n OR 1) (set_csize (a + n) 1 (set_psize (a + n) (n OR 1) (set_psize a 1 s)))) a [(n, False)]"
proof -
  have "unat (a + n) = unat a + unat n" "0 < unat n" using wfc_Cons [OF assms] by (auto simp: unit_size_def)
  then have "a \<noteq> a + n" by auto
  then show ?thesis using assms by (simp add: chain_ok_def set_defs tag_def)
qed

text \<open>No two neighbours are both free.\<close>

definition coalesced :: "chunks \<Rightarrow> bool" where
  "coalesced cs \<longleftrightarrow> successively (\<lambda>x y. \<not> (snd x \<and> snd y)) cs"

text \<open>The allocator before its first heap, and with one whose live chunks are \<open>B\<close>.\<close>

definition heap_state :: "u64 \<Rightarrow> mal \<Rightarrow> (u64 \<times> u64) set \<Rightarrow> u64 \<Rightarrow> chunks \<Rightarrow> (nat \<Rightarrow> u64 list) \<Rightarrow> bool" where
  "heap_state bins s B a cs L \<longleftrightarrow> heap_ok bins s a cs L \<and> B = live a cs \<and> heap_end s = fin a cs + 16 \<and> stored_brk s = heap_end s
     \<and> 4096 dvd unat (heap_end s) \<and> coalesced cs"

definition no_heap :: "u64 \<Rightarrow> mal \<Rightarrow> bool" where
  "no_heap bins s \<longleftrightarrow> bins_placed bins \<and> bins_ok bins s (\<lambda>_. []) \<and> free_bytes s = 0 \<and> free_block_bytes s = 0
     \<and> heap_end s = 0 \<and> stored_brk s = 0 \<and> unat bins + 1536 \<le> unat (sys_brk s)"

lemma unat_brk_of:
  assumes "unat (brk_of s) + 2 ^ 20 < 2 ^ 63" "stored_brk s = 0" "unat (sys_brk s) + 4096 \<le> 2 ^ 64"
  shows "unat (sys_brk s) \<le> unat (brk_of s)" "4096 dvd unat (brk_of s)"
  using align64_up_least [of 12 "sys_brk s"] assms(2,3) by (simp_all add: brk_of_def PAGE_SIZE_def)

lemma expand_first:
  assumes "no_heap bins s" "unat (brk_of s) + 2 ^ 20 < 2 ^ 63" "unat (sys_brk s) + 4096 \<le> 2 ^ 64" "unat n \<le> 7168 * 32" "unit_size n"
    "sbrk_ok os (sys_brk s) (grow_size n)"
  obtains L s' where "expand_heap os n s = Inr (Some (brk_of s + 16), s')"
    "heap_ok bins s' (brk_of s + 16) [(grow_size n - 32, False)] L" "heap_end s' = brk_of s + grow_size n" "stored_brk s' = heap_end s'"
    "unat n \<le> unat (grow_size n - 32)" "allocated_bytes s' = allocated_bytes s" "fin (brk_of s + 16) [(grow_size n - 32, False)] + 16 = heap_end s'"
    "sys_brk s' = sys_brk s + grow_size n" "maps s' = maps s" "mmap_calls s' = mmap_calls s" "4096 dvd unat (heap_end s')"
    "frame (heap_end s') s s'"
proof -
  let ?p = "brk_of s" and ?g = "grow_size n - 32"
  have nh: "bins_placed bins" "bins_ok bins s (\<lambda>_. [])" "free_bytes s = 0" "free_block_bytes s = 0" "heap_end s = 0" "stored_brk s = 0"
    "unat bins + 1536 \<le> unat (sys_brk s)" using assms(1) by (auto simp: no_heap_def)
  note b = unat_brk_of [OF assms(2) nh(6) assms(3)]
  have p0: "?p \<noteq> 0" using b(1) nh(1,7) by (auto simp: bins_placed_def)
  note g = grow_size_spec [OF assms(4)]
  have ug: "unat ?g = unat (grow_size n) - 32" using g(2) by (subst unat_minus_le) (auto simp: word_le_nat_alt)
  have ua: "unat (?p + 16) = unat ?p + 16" using assms(2) by (intro unat_add64 [of ?p 16, simplified]) simp
  have "32 dvd unat (grow_size n)" "32 dvd unat ?p" using g(1) b(2) by (auto elim: dvd_trans [rotated])
  then have w: "wfc (?p + 16) [(?g, False)]"
    using ug ua g assms(2,5) by (auto simp: wfc_def unit_size_def dvd_diff_nat dest: dvd_imp_le)
  define s0 where "s0 = snd (expand_heap_os os (n + SIZE_ALIGN) s)"
  have os: "expand_heap_os os (n + SIZE_ALIGN) s = (Some (?p, grow_size n), s0)"
    unfolding s0_def by (simp add: expand_heap_os_result [OF assms(4,2) p0])
  have f0: "heap_end s0 = heap_end s" "stored_brk s0 = ?p + grow_size n" "allocated_bytes s0 = allocated_bytes s"
    "nxt s0 = nxt s" "prv s0 = prv s" "binmap s0 = binmap s" "free_bytes s0 = 0" "free_block_bytes s0 = 0"
    "sys_brk s0 = sys_brk s + grow_size n" "maps s0 = maps s" "mmap_calls s0 = mmap_calls s" "psize s0 = psize s" "csize s0 = csize s"
    using nh assms(6) by (simp_all add: s0_def expand_heap_os_result [OF assms(4,2) p0])
  define s1 where "s1 = (set_psize (?p + 16) 1 s0)\<lparr>heap_end := ?p + grow_size n\<rparr>"
  define s2 where "s2 = set_csize (?p + 16) (?g OR 1) (set_csize (?p + 16 + ?g) 1 (set_psize (?p + 16 + ?g) (?g OR 1) s1))"
  have up: "unat (?p + grow_size n) = unat ?p + unat (grow_size n)" "unat (?p + 16 + ?g) = unat (?p + 16) + unat ?g"
    using assms(2) g(3) wfc_Cons [OF w] by (auto intro!: unat_add64)
  have "backed s" using nh(6) by (simp add: backed_def brk_of_def)
  note mp = header_mapped_grown [OF this assms(2) b(1) assms(4)]
  have m: "header_mapped (?p + 16) t" "header_mapped (?p + 16 + ?g) t" if "sys_brk t = sys_brk s + grow_size n" for t
    using that ua ug up(2) g(2) by (auto intro!: mp)
  have e: "expand_heap os n s = Inr (Some (?p + 16), s2)"
    using os f0(1,9) nh(5) p0 m [of s0] m [of s1] m [of "set_psize (?p + 16 + ?g) (?g OR 1) s1"]
      m [of "set_csize (?p + 16 + ?g) 1 (set_psize (?p + 16 + ?g) (?g OR 1) s1)"]
    by (simp add: expand_heap_def heap_sentinel_def store_psize_def store_csize_def s1_def s2_def SIZE_ALIGN_def OVERHEAD_def
      MEM_TO_CHUNK_def C_INUSE_def Let_def algebra_simps set_defs)
  have "chain_ok s2 (?p + 16) [(?g, False)]"
    using chain_first [OF w, of "s0\<lparr>heap_end := ?p + grow_size n\<rparr>"] by (simp add: s2_def s1_def set_defs)
  moreover have "free_ok bins s2 {} (\<lambda>_. [])"
    using nh(2) f0 by (simp add: free_ok_def s2_def s1_def set_defs bins_ok_def ring_def)
  ultimately have H: "heap_ok bins s2 (?p + 16) [(?g, False)] (\<lambda>_. [])" using nh(1,7) b(1) ua by (simp add: heap_ok_def)
  have dv: "4096 dvd unat (?p + grow_size n)" and fr: "frame (?p + grow_size n) s s2"
    using b(2) g(1,2) ug ua up f0 by (auto simp: frame_def s2_def s1_def set_defs)
  have he: "heap_end s2 = ?p + grow_size n" by (simp add: s2_def s1_def set_defs)
  show ?thesis by (rule that [OF e H]) (use dv fr he f0 g(2) ug in \<open>simp_all add: s2_def s1_def set_defs\<close>)
qed

lemma expand_next:
  assumes "heap_ok bins s a cs L" "heap_end s = fin a cs + 16" "stored_brk s = heap_end s" "4096 dvd unat (heap_end s)"
    "unat (brk_of s) + 2 ^ 20 < 2 ^ 63" "unat n \<le> 7168 * 32" "unit_size n"
    "backed s" "unat (sys_brk s) \<le> unat (brk_of s)" "sbrk_ok os (sys_brk s) (grow_size n)"
  obtains s' where "expand_heap os n s = Inr (Some (fin a cs), s')"
    "heap_ok bins s' a (cs @ [(grow_size n, False)]) L" "heap_end s' = heap_end s + grow_size n" "stored_brk s' = heap_end s'"
    "unat n \<le> unat (grow_size n)" "allocated_bytes s' = allocated_bytes s" "fin a (cs @ [(grow_size n, False)]) + 16 = heap_end s'"
    "sys_brk s' = sys_brk s + grow_size n" "maps s' = maps s" "mmap_calls s' = mmap_calls s" "4096 dvd unat (heap_end s')"
    "frame (heap_end s') s s'"
proof -
  let ?c = "fin a cs" and ?g = "grow_size n"
  have h: "bins_placed bins" "unat bins + 1536 \<le> unat a" "chain_ok s a cs" "free_ok bins s (frees a cs) L"
    using assms(1) by (auto simp: heap_ok_def)
  have w: "wfc a cs" using h(3) by (simp add: chain_ok_def)
  have uc: "unat ?c = unat a + total cs" "unat ?c + 16 < 2 ^ 64" using unat_fin [OF w] w by (auto simp: wfc_def)
  then have ue: "unat (heap_end s) = unat ?c + 16" unfolding assms(2) by (intro unat_add64 [of ?c 16, simplified]) simp
  then have p: "brk_of s = heap_end s" "heap_end s \<noteq> 0" using assms(3) by (auto simp: brk_of_def)
  note g = grow_size_spec [OF assms(6)]
  have "32 dvd unat ?g" using g(1) by (auto elim: dvd_trans [rotated])
  then have w': "wfc a (cs @ [(?g, False)])" "unit_size ?g"
    using w g(2,3) uc ue p(1) assms(5,7) by (auto simp: wfc_def unit_size_def)
  define s0 where "s0 = snd (expand_heap_os os (n + SIZE_ALIGN) s)"
  have os: "expand_heap_os os (n + SIZE_ALIGN) s = (Some (heap_end s, ?g), s0)"
    unfolding s0_def using p by (simp add: expand_heap_os_result [OF assms(6,5)])
  have f0: "heap_end s0 = heap_end s" "stored_brk s0 = heap_end s + ?g" "allocated_bytes s0 = allocated_bytes s"
    "nxt s0 = nxt s" "prv s0 = prv s" "binmap s0 = binmap s" "free_bytes s0 = free_bytes s" "free_block_bytes s0 = free_block_bytes s"
    "psize s0 = psize s" "csize s0 = csize s" "sys_brk s0 = sys_brk s + grow_size n" "maps s0 = maps s" "mmap_calls s0 = mmap_calls s"
    using p assms(10) by (simp_all add: s0_def expand_heap_os_result [OF assms(6,5)])
  define s1 where "s1 = s0\<lparr>heap_end := heap_end s + ?g\<rparr>"
  define s2 where "s2 = set_csize ?c (?g OR 1) (set_csize (?c + ?g) 1 (set_psize (?c + ?g) (?g OR 1) s1))"
  have c16: "heap_end s - 16 = ?c" "heap_end s + ?g - 16 = ?c + ?g" unfolding assms(2) by simp_all
  have cg: "unat (?c + ?g) = unat ?c + unat ?g" using wfc_append [OF w'(1)] wfc_Cons [of ?c ?g False "[]"] by simp
  have m: "header_mapped ?c t" "header_mapped (?c + ?g) t" if "sys_brk t = sys_brk s + grow_size n" for t
    using that cg ue p(1) by (auto intro!: header_mapped_grown [OF assms(8,5,9,6)])
  have e: "expand_heap os n s = Inr (Some ?c, s2)"
    using os p(2) f0(1,11) m [of s1] m [of "set_psize (?c + ?g) (?g OR 1) s1"] m [of "set_csize (?c + ?g) 1 (set_psize (?c + ?g) (?g OR 1) s1)"]
    by (simp add: expand_heap_def heap_sentinel_def store_psize_def store_csize_def s1_def s2_def OVERHEAD_def MEM_TO_CHUNK_def
      C_INUSE_def Let_def c16 set_defs)
  have "chain_ok s1 a cs" using h(3) by (subst chain_ok_cong [of _ s]) (simp_all add: s1_def f0)
  then have "chain_ok s2 a (cs @ [(?g, False)])" unfolding s2_def by (rule chain_grow) (use w' in auto)
  moreover have "free_ok bins s2 (frees a cs) L"
    using h(4) by (subst free_ok_cong [of _ s]) (simp_all add: s2_def s1_def set_defs f0)
  ultimately have H: "heap_ok bins s2 a (cs @ [(?g, False)]) L" using h(1,2) by (simp add: heap_ok_def)
  have "unat (heap_end s + ?g) = unat (heap_end s) + unat ?g" using assms(5) g(3) p(1) by (intro unat_add64) simp
  then have dv: "4096 dvd unat (heap_end s + ?g)" and fr: "frame (heap_end s + ?g) s s2"
    using assms(4) g(1) ue cg f0 by (auto simp: frame_def s2_def s1_def set_defs)
  have he: "heap_end s2 = heap_end s + ?g" by (simp add: s2_def s1_def set_defs)
  show ?thesis by (rule that [OF e H]) (use dv fr he f0 g(2) assms(2) in \<open>simp_all add: s2_def s1_def set_defs\<close>)
qed

section \<open>Handing out a chunk\<close>

lemma coalesced_split:
  "coalesced (xs @ ys) \<longleftrightarrow> coalesced xs \<and> coalesced ys \<and> (xs \<noteq> [] \<and> ys \<noteq> [] \<longrightarrow> \<not> (snd (last xs) \<and> snd (hd ys)))"
  by (auto simp: coalesced_def successively_append_iff)

lemma coalesced_Cons: "coalesced (x # ys) \<longleftrightarrow> coalesced ys \<and> (ys \<noteq> [] \<longrightarrow> \<not> (snd x \<and> snd (hd ys)))"
  by (cases ys) (auto simp: coalesced_def)

lemma coalesced_Nil [simp]: "coalesced []"
  by (simp add: coalesced_def)

lemma coalesced_take: "coalesced (xs @ (m, True) # ys) \<Longrightarrow> coalesced (xs @ (m, False) # ys) \<and> (ys \<noteq> [] \<longrightarrow> \<not> snd (hd ys))"
  by (auto simp: coalesced_split coalesced_Cons)

lemma malloc_finish_ok:
  assumes "heap_ok bins s a (xs @ (m, False) # ys) L" "unit_size n" "unat n \<le> unat m"
    "coalesced (xs @ (m, False) # ys)" "ys \<noteq> [] \<Longrightarrow> \<not> snd (hd ys)"
  obtains cs' L' s' where "malloc_finish bins (fin a xs) n s = (CHUNK_TO_MEM (fin a xs), s')" "heap_ok bins s' a cs' L'"
    "fin a cs' = fin a (xs @ (m, False) # ys)" "coalesced cs'" "live a cs' = insert (fin a xs, n) (live a xs \<union> live (fin a xs + m) ys)"
    "os_part s' = os_part s" "frame (fin a cs') s s'" "allocated_bytes s' = allocated_bytes s + n"
proof -
  let ?c = "fin a xs"
  obtain rest L' where t: "heap_ok bins (trim bins ?c n s) a (xs @ (n, False) # rest @ ys) L'"
    "rest = [] \<and> n = m \<or> rest = [(m - n, True)] \<and> unat n < unat m" "frame (fin a (xs @ (m, False) # ys)) s (trim bins ?c n s)"
    using heap_trim [OF assms(1-3)] by blast
  let ?s = "trim bins ?c n s"
  have sz: "CHUNK_SIZE ?s ?c = n" using chain_header(4) [of ?s a xs n False "rest @ ys"] t(1) by (simp add: heap_ok_def)
  define s' where "s' = ?s\<lparr>allocated_bytes := allocated_bytes ?s + n\<rparr>"
  have m: "malloc_finish bins ?c n s = (CHUNK_TO_MEM ?c, s')" by (simp add: malloc_finish_def sz s'_def)
  have h: "heap_ok bins s' a (xs @ (n, False) # rest @ ys) L'" using t(1) by (subst heap_ok_cong [of _ ?s]) (simp_all add: s'_def)
  have e: "?c + n + (m - n) = ?c + m" by simp
  have f: "fin a (xs @ (n, False) # rest @ ys) = fin a (xs @ (m, False) # ys)" using t(2) by (auto simp: e)
  show ?thesis
  proof (rule that [OF m h f])
    show "coalesced (xs @ (n, False) # rest @ ys)" using t(2) assms(4,5) by (auto simp: coalesced_split coalesced_Cons)
    show "live a (xs @ (n, False) # rest @ ys) = insert (?c, n) (live a xs \<union> live (?c + m) ys)" using t(2) by (auto simp: e)
    show "frame (fin a (xs @ (n, False) # rest @ ys)) s s'" unfolding f using t(3) by (simp add: frame_def s'_def)
  qed (simp_all add: s'_def)
qed

text \<open>The three ways to serve a request of \<open>n\<close> bytes, header included, below the threshold for mappings.\<close>

definition serve :: "os \<Rightarrow> u64 \<Rightarrow> u64 \<Rightarrow> nat \<Rightarrow> mal \<Rightarrow> (cerr + u64 \<times> mal) option" where
  "serve os bins n i s = (case malloc_fast bins n i s of
      (Some p, s) \<Rightarrow> Some (Inr (p, s))
    | (None, s) \<Rightarrow>
        Option.bind (search_bins bins (mask_high_bits (binmap s) (of_nat i)) s) (\<lambda>(found, s).
          case found of
            Some c \<Rightarrow> Some (Inr (malloc_finish bins c n s))
          | None \<Rightarrow>
              Some (sbind (expand_heap os n s) (\<lambda>(r, s). case r of
                 None \<Rightarrow> Inr (0, s)
               | Some c \<Rightarrow> Inr (malloc_finish bins c n s)))))"

lemma musl_malloc_serve:
  assumes "adjust_size k = Some n" "unat n \<le> 7168 * 32"
  shows "musl_malloc os bins k s = serve os bins n (upidx (unat n div 32 - 1)) s"
proof -
  have u: "32 \<le> unat n" using unit_size_ge [OF adjust_size_spec(1) [OF assms(1)]] .
  have "\<not> n > MMAP_THRESHOLD" using assms(2) by (simp add: MMAP_THRESHOLD_def SIZE_ALIGN_def word_less_nat_alt)
  then show ?thesis using assms(1) bin_index_up_upidx [OF u assms(2)] by (simp add: musl_malloc_def serve_def)
qed

text \<open>What serving a request does to a heap.\<close>

definition served :: "u64 \<Rightarrow> mal \<Rightarrow> (u64 \<times> u64) set \<Rightarrow> u64 \<Rightarrow> u64 \<Rightarrow> mal \<Rightarrow> bool" where
  "served bins s B n c s' \<longleftrightarrow> (\<exists>a cs L. heap_state bins s' (insert (c, n) B) a cs L) \<and> (\<forall>m. (c, m) \<notin> B)
     \<and> allocated_bytes s' = allocated_bytes s + n \<and> maps s' = maps s \<and> mmap_calls s' = mmap_calls s \<and> frame (heap_end s') s s'
     \<and> (heap_end s' = heap_end s \<and> sys_brk s' = sys_brk s \<or> heap_end s' = brk_of s + grow_size n \<and> sys_brk s' = sys_brk s + grow_size n)"

lemma heap_state_end:
  assumes "heap_state bins s B a cs L"
  shows "unat (heap_end s) = unat (fin a cs) + 16" "brk_of s = heap_end s" "heap_end s \<noteq> 0" "wfc a cs"
proof -
  show w: "wfc a cs" using assms by (simp add: heap_state_def heap_ok_def chain_ok_def)
  have e: "heap_end s = fin a cs + 16" using assms by (simp add: heap_state_def)
  show u: "unat (heap_end s) = unat (fin a cs) + 16"
    unfolding e using w unat_fin [OF w] by (intro unat_add64 [of "fin a cs" 16, simplified]) (simp add: wfc_def)
  then show "heap_end s \<noteq> 0" by auto
  then show "brk_of s = heap_end s" using assms by (auto simp: heap_state_def brk_of_def)
qed

lemma live_unique:
  assumes "wfc a cs" "(c, m, f) \<in> set (blocks a cs)" "f"
  shows "(c, k) \<notin> live a cs"
  using blocks_unique [OF assms(1,2)] assms(3) by (auto simp: live_def)

text \<open>Finishing with a chunk that was free, in a state that agrees with the one before on the rest.\<close>

lemma served_finish:
  assumes "heap_state bins s B a cs L" "cs = xs @ (m, True) # ys" "heap_ok bins s1 a (xs @ (m, False) # ys) L1"
    "unit_size n" "unat n \<le> unat m" "os_part s1 = os_part s" "allocated_bytes s1 = allocated_bytes s" "frame (fin a cs) s s1"
  obtains s' where "malloc_finish bins (fin a xs) n s1 = (CHUNK_TO_MEM (fin a xs), s')" "served bins s B n (fin a xs) s'"
proof -
  have hs: "heap_ok bins s a cs L" "B = live a cs" "heap_end s = fin a cs + 16" "stored_brk s = heap_end s" "4096 dvd unat (heap_end s)" "coalesced cs"
    using assms(1) by (auto simp: heap_state_def)
  note he = heap_state_end [OF assms(1)]
  obtain cs' L' s' where m: "malloc_finish bins (fin a xs) n s1 = (CHUNK_TO_MEM (fin a xs), s')" "heap_ok bins s' a cs' L'"
    "fin a cs' = fin a (xs @ (m, False) # ys)" "coalesced cs'" "live a cs' = insert (fin a xs, n) (live a xs \<union> live (fin a xs + m) ys)"
    "os_part s' = os_part s1" "frame (fin a cs') s1 s'" "allocated_bytes s' = allocated_bytes s1 + n"
    using malloc_finish_ok [OF assms(3-5)] coalesced_take [of xs m ys] hs(6) assms(2) by metis
  have o: "heap_end s' = heap_end s" "stored_brk s' = stored_brk s" "maps s' = maps s" "sys_brk s' = sys_brk s" "mmap_calls s' = mmap_calls s"
    using m(6) assms(6) by (auto simp: os_part_def)
  have "heap_state bins s' (insert (fin a xs, n) B) a cs' L'"
    using m hs o assms(2) by (auto simp: heap_state_def)
  moreover have "(fin a xs, k) \<notin> B" for k using live_unique [OF he(4), of "fin a xs" m True] hs(2) assms(2) by simp
  moreover have "frame (heap_end s') s s'" using m(3,7) assms(2,8) he(1) o(1) by (auto simp: frame_def)
  ultimately have "served bins s B n (fin a xs) s'" using m(8) assms(7) o unfolding served_def by auto
  with m(1) show ?thesis by (rule that)
qed

lemma fits_bin:
  assumes "unit_size n" "unit_size m" "upidx (unat n div 32 - 1) \<le> bin_index m"
  shows "unat n \<le> unat m"
proof -
  have "unat n div 32 - 1 \<le> unat m div 32 - 1"
    using assms(3) upidx_le_bidx bin_index_bidx [OF unit_size_ge [OF assms(2)]] by simp
  then show ?thesis using assms(1,2) unit_size_ge [OF assms(1)] unit_size_ge [OF assms(2)] by (auto simp: unit_size_def elim!: dvdE)
qed

text \<open>The fast path takes the head of the bin when it fits exactly, and otherwise changes nothing that matters.\<close>

lemma malloc_fast_result:
  assumes "heap_state bins s B a cs L" "unit_size n" "i = upidx (unat n div 32 - 1)" "i < 64"
  shows "(\<exists>c s'. malloc_fast bins n i s = (Some (CHUNK_TO_MEM c), s') \<and> served bins s B n c s')
    \<or> (\<exists>s'. malloc_fast bins n i s = (None, s') \<and> heap_state bins s' B a cs L \<and> os_part s' = os_part s
        \<and> allocated_bytes s' = allocated_bytes s \<and> csize s' = csize s \<and> psize s' = psize s)"
proof (cases "i < 63 \<and> is_bit_set (binmap s) (of_nat i)")
  case False
  then show ?thesis using assms(1) by (auto simp: malloc_fast_def)
next
  case True
  let ?s = "lock_bin bins i s"
  have h: "heap_ok bins s a cs L" using assms(1) by (simp add: heap_state_def)
  have "bit (binmap s) i" using True assms(4) by (simp add: is_bit_set_bit unat_of_nat)
  then have ne: "L i \<noteq> []" using h assms(4) bins_okD(3) [of bins s L i] by (auto simp: heap_ok_def free_ok_def)
  note hd = bin_head [OF h assms(4) ne]
  obtain xs m ys L' where t: "cs = xs @ (m, True) # ys" "hd (L i) = fin a xs" "bin_index m = i"
    "heap_ok bins (unbin (hd (L i)) i ?s) a (xs @ (m, False) # ys) L'" "frame (fin a cs) s (unbin (hd (L i)) i ?s)"
    by (rule heap_take [OF h assms(4) ne])
  have ch: "chain_ok ?s a (xs @ (m, True) # ys)" using heap_lock [OF h assms(4)] t(1) by (simp add: heap_ok_def)
  have sz: "CHUNK_SIZE ?s (fin a xs) = m" "unit_size m" using chain_header(4,6) [OF ch] .
  have le: "unat n \<le> unat m" using fits_bin [OF assms(2) sz(2)] assms(3) t(3) by simp
  have hl: "heap_state bins ?s B a cs L" using assms(1) heap_lock [OF h assms(4)] by (auto simp: heap_state_def)
  show ?thesis
  proof (cases "m - n \<le> DONTCARE")
    case False
    then have "malloc_fast bins n i s = (None, ?s)" using True hd sz t(2) by (simp add: malloc_fast_def Let_def)
    then show ?thesis using hl by auto
  next
    case fit: True
    let ?u = "unbin (fin a xs) i ?s"
    have "unat (m - n) \<le> 16" "unat (m - n) = unat m - unat n"
      using fit le unat_minus_le [of n m] by (simp_all add: DONTCARE_def word_le_nat_alt)
    moreover have "32 dvd unat m - unat n" using assms(2) sz(2) by (simp add: unit_size_def dvd_diff_nat)
    ultimately have "unat m - unat n = 0" by (metis dvd_imp_le le_trans not_gr0 numeral_le_iff semiring_norm(69,71,72))
    then have mn: "m = n" using le by (simp add: word_unat_eq_iff)
    have cs: "CHUNK_SIZE ?u (fin a xs) = n" using chain_header(4) [of ?u a xs m False ys] t(2,4) mn by (simp add: heap_ok_def)
    define s' where "s' = ?u\<lparr>allocated_bytes := allocated_bytes ?u + n\<rparr>"
    have f: "malloc_fast bins n i s = (Some (CHUNK_TO_MEM (fin a xs)), s')"
      using True hd sz t(2) fit cs by (simp add: malloc_fast_def Let_def s'_def)
    have "malloc_finish bins (fin a xs) n ?u = (CHUNK_TO_MEM (fin a xs), s')"
      using cs by (simp add: malloc_finish_def trim_def s'_def DONTCARE_def)
    moreover obtain s'' where "malloc_finish bins (fin a xs) n ?u = (CHUNK_TO_MEM (fin a xs), s'')" "served bins s B n (fin a xs) s''"
      by (rule served_finish [OF assms(1) t(1) _ assms(2) le]) (use t in simp_all)
    ultimately show ?thesis using f by auto
  qed
qed

lemma serve_heap:
  assumes "heap_state bins s B a cs L" "unit_size n" "unat n \<le> 7168 * 32" "unat (brk_of s) + 2 ^ 20 < 2 ^ 63"
    "backed s" "unat (sys_brk s) \<le> unat (brk_of s)" "sbrk_ok os (sys_brk s) (grow_size n)"
  shows "\<exists>c s'. serve os bins n (upidx (unat n div 32 - 1)) s = Some (Inr (CHUNK_TO_MEM c, s')) \<and> served bins s B n c s'"
proof -
  let ?i = "upidx (unat n div 32 - 1)"
  have i: "?i < 64" using assms(3) by (intro upidx_less) linarith
  consider c s' where "malloc_fast bins n ?i s = (Some (CHUNK_TO_MEM c), s')" "served bins s B n c s'"
    | s1 where "malloc_fast bins n ?i s = (None, s1)" "heap_state bins s1 B a cs L" "os_part s1 = os_part s"
      "allocated_bytes s1 = allocated_bytes s" "csize s1 = csize s" "psize s1 = psize s"
    using malloc_fast_result [OF assms(1,2) refl i] by blast
  then show ?thesis
  proof cases
    case 1
    then show ?thesis by (auto simp: serve_def)
  next
    case 2
    have sv: "served bins s B n c s'" if "served bins s1 B n c s'" for c s'
      using that 2(3-6) heap_state_end(2) [OF assms(1)] heap_state_end(2) [OF 2(2)]
      by (auto simp: served_def os_part_def frame_def)
    have h1: "heap_ok bins s1 a cs L" using 2(2) by (simp add: heap_state_def)
    let ?m = "mask_high_bits (binmap s1) (of_nat ?i)"
    show ?thesis
    proof (cases "?m = 0")
      case False
      then obtain j where j: "?i \<le> j" "j < 64" "L j \<noteq> []"
        "search_bins bins ?m s1 = Some (Some (hd (L j)), unbin (hd (L j)) j (lock_bin bins j s1))"
        using search_bins_result(2) [OF h1 i] by blast
      obtain xs m ys L' where t: "cs = xs @ (m, True) # ys" "hd (L j) = fin a xs" "bin_index m = j"
        "heap_ok bins (unbin (hd (L j)) j (lock_bin bins j s1)) a (xs @ (m, False) # ys) L'"
        "frame (fin a cs) s1 (unbin (hd (L j)) j (lock_bin bins j s1))"
        by (rule heap_take [OF h1 j(2,3)])
      have "unit_size m" using h1 t(1) by (auto simp: heap_ok_def chain_ok_def wfc_def)
      then have "unat n \<le> unat m" using fits_bin [OF assms(2)] j(1) t(3) by simp
      then obtain s' where "malloc_finish bins (fin a xs) n (unbin (hd (L j)) j (lock_bin bins j s1)) = (CHUNK_TO_MEM (fin a xs), s')"
        "served bins s1 B n (fin a xs) s'"
        by (rule served_finish [OF 2(2) t(1,4) assms(2)]) (use t in simp_all)
      then show ?thesis using sv 2(1) j(4) t(2) by (auto simp: serve_def)
    next
      case True
      have hs: "B = live a cs" "heap_end s1 = fin a cs + 16" "stored_brk s1 = heap_end s1" "4096 dvd unat (heap_end s1)" "coalesced cs"
        using 2(2) by (auto simp: heap_state_def)
      have "brk_of s1 = brk_of s" "sys_brk s1 = sys_brk s" using 2(3) by (simp_all add: brk_of_def os_part_def)
      then have room: "unat (brk_of s1) + 2 ^ 20 < 2 ^ 63" "backed s1" "unat (sys_brk s1) \<le> unat (brk_of s1)" "sbrk_ok os (sys_brk s1) (grow_size n)"
        using assms(4-7) by (simp_all add: backed_def)
      let ?g = "grow_size n"
      obtain s2 where e: "expand_heap os n s1 = Inr (Some (fin a cs), s2)" "heap_ok bins s2 a (cs @ [(?g, False)]) L"
        "heap_end s2 = heap_end s1 + ?g" "stored_brk s2 = heap_end s2" "unat n \<le> unat ?g" "allocated_bytes s2 = allocated_bytes s1"
        "fin a (cs @ [(?g, False)]) + 16 = heap_end s2" "sys_brk s2 = sys_brk s1 + grow_size n" "maps s2 = maps s1" "mmap_calls s2 = mmap_calls s1"
        "4096 dvd unat (heap_end s2)" "frame (heap_end s2) s1 s2"
        by (rule expand_next [OF h1 hs(2-4) room(1) assms(3,2) room(2-4)])
      have co: "coalesced (cs @ (?g, False) # [])" using hs(5) by (simp add: coalesced_split coalesced_Cons)
      obtain cs' L' s' where m: "malloc_finish bins (fin a cs) n s2 = (CHUNK_TO_MEM (fin a cs), s')" "heap_ok bins s' a cs' L'"
        "fin a cs' = fin a (cs @ [(?g, False)])" "coalesced cs'" "live a cs' = insert (fin a cs, n) (live a cs \<union> live (fin a cs + ?g) [])"
        "os_part s' = os_part s2" "frame (fin a cs') s2 s'" "allocated_bytes s' = allocated_bytes s2 + n"
        by (rule malloc_finish_ok [OF e(2) assms(2) e(5) co]) simp
      have o: "heap_end s' = heap_end s2" "stored_brk s' = stored_brk s2" "maps s' = maps s2" "sys_brk s' = sys_brk s2" "mmap_calls s' = mmap_calls s2"
        using m(6) by (auto simp: os_part_def)
      have hs': "heap_state bins s' (insert (fin a cs, n) B) a cs' L'" using m e hs(1) o by (auto simp: heap_state_def)
      have "(fin a cs, k) \<notin> B" for k
        using blocks_range(2,3) [OF heap_state_end(4) [OF 2(2)], of "fin a cs" k False] hs(1) by (auto simp: live_def unit_size_def)
      moreover have "frame (heap_end s') s1 s'"
        using e(12) m(7) heap_state_end(1) [OF hs'] unfolding o(1) by (auto simp: frame_def)
      ultimately have "served bins s1 B n (fin a cs) s'"
        using hs' m(8) e o heap_state_end(2) [OF 2(2)] by (auto simp: served_def)
      then show ?thesis using sv 2(1) search_bins_result(1) [OF h1 i True] e(1) m(1) by (auto simp: serve_def)
    qed
  qed
qed

lemma serve_first:
  assumes "no_heap bins s" "unit_size n" "unat n \<le> 7168 * 32" "unat (brk_of s) + 2 ^ 20 < 2 ^ 63" "unat (sys_brk s) + 4096 \<le> 2 ^ 64"
    "sbrk_ok os (sys_brk s) (grow_size n)"
  shows "\<exists>c s'. serve os bins n (upidx (unat n div 32 - 1)) s = Some (Inr (CHUNK_TO_MEM c, s')) \<and> served bins s {} n c s'"
proof -
  have nh: "bins_ok bins s (\<lambda>_. [])" using assms(1) by (simp add: no_heap_def)
  have "binmap s = 0"
  proof (rule bit_eqI)
    fix i show "bit (binmap s) i = bit 0 i" using bins_okD(3) [OF nh, of i] by (cases "i < 64") (auto dest: bit_imp_le_length)
  qed
  then have f: "malloc_fast bins n i s = (None, s)" "search_bins bins (mask_high_bits (binmap s) (of_nat i)) s = Some (None, s)" for i
    by (auto simp: malloc_fast_def is_bit_set_def mask_high_bits_def search_bins.simps)
  let ?a = "brk_of s + 16" and ?g = "grow_size n - 32"
  obtain L s1 where e: "expand_heap os n s = Inr (Some ?a, s1)" "heap_ok bins s1 ?a [(?g, False)] L" "heap_end s1 = brk_of s + grow_size n"
    "stored_brk s1 = heap_end s1" "unat n \<le> unat ?g" "allocated_bytes s1 = allocated_bytes s" "fin ?a [(?g, False)] + 16 = heap_end s1"
    "sys_brk s1 = sys_brk s + grow_size n" "maps s1 = maps s" "mmap_calls s1 = mmap_calls s" "4096 dvd unat (heap_end s1)" "frame (heap_end s1) s s1"
    by (rule expand_first [OF assms(1,4,5,3,2,6)])
  have e2: "heap_ok bins s1 ?a ([] @ (?g, False) # []) L" using e(2) by simp
  obtain cs' L' s' where m: "malloc_finish bins (fin ?a []) n s1 = (CHUNK_TO_MEM (fin ?a []), s')" "heap_ok bins s' ?a cs' L'"
    "fin ?a cs' = fin ?a ([] @ (?g, False) # [])" "coalesced cs'" "live ?a cs' = insert (fin ?a [], n) (live ?a [] \<union> live (fin ?a [] + ?g) [])"
    "os_part s' = os_part s1" "frame (fin ?a cs') s1 s'" "allocated_bytes s' = allocated_bytes s1 + n"
    by (rule malloc_finish_ok [OF e2 assms(2) e(5)]) (simp_all add: coalesced_Cons)
  have o: "heap_end s' = heap_end s1" "stored_brk s' = stored_brk s1" "maps s' = maps s1" "sys_brk s' = sys_brk s1" "mmap_calls s' = mmap_calls s1"
    using m(6) by (auto simp: os_part_def)
  have hs: "heap_state bins s' {(?a, n)} ?a cs' L'" using m e o by (auto simp: heap_state_def)
  have "frame (heap_end s') s s'" using e(12) m(7) heap_state_end(1) [OF hs] unfolding o(1) by (auto simp: frame_def)
  then have "served bins s {} n ?a s'" using hs m(8) e o by (auto simp: served_def)
  then show ?thesis using f e(1) m(1) by (auto simp: serve_def)
qed

end
