(* ===== verification/Malloc_Correct.thy ===== *)
theory Malloc_Correct
  imports Malloc_Alloc
begin

text \<open>
  The allocator as a whole: its invariant over the live chunks of the heap and the chunks with a
  mapping of their own, and that \<open>musl_malloc\<close> and \<open>musl_free\<close> keep it.
\<close>

section \<open>The invariant\<close>

text \<open>The live chunks of the heap are \<open>B\<close>. Chunks of their own mapping are \<open>M\<close>; they lie above \<open>lim\<close>, below which the
  heap has room for \<open>k\<close> more requests.\<close>

definition musl_ok :: "u64 \<Rightarrow> mal \<Rightarrow> (u64 \<times> u64) set \<Rightarrow> bool" where
  "musl_ok bins s B \<longleftrightarrow> no_heap bins s \<and> B = {} \<or> (\<exists>a cs L. heap_state bins s B a cs L)"

definition mapped_one :: "nat \<Rightarrow> mal \<Rightarrow> u64 \<Rightarrow> u64 \<Rightarrow> bool" where
  "mapped_one lim s c m \<longleftrightarrow> lim < unat c \<and> unat c + unat m < 2 ^ 64 \<and> 32 dvd unat c + 16 \<and> 32 \<le> unat m \<and> m AND 1 = 0
     \<and> csize s c = m \<and> psize s c = 16 \<and> (c - 16, m + 16) \<in> set (maps s)"

definition chunks_apart :: "u64 \<Rightarrow> u64 \<Rightarrow> u64 \<Rightarrow> u64 \<Rightarrow> bool" where
  "chunks_apart c m d n \<longleftrightarrow> unat c + unat m \<le> unat d \<or> unat d + unat n \<le> unat c"

definition mapped_ok :: "nat \<Rightarrow> mal \<Rightarrow> (u64 \<times> u64) set \<Rightarrow> bool" where
  "mapped_ok lim s M \<longleftrightarrow> finite M \<and> (\<forall>(c, m)\<in>M. mapped_one lim s c m) \<and> (\<forall>(c, m)\<in>M. \<forall>(d, n)\<in>M. c = d \<or> chunks_apart c m d n)"

definition alloc_ok :: "u64 \<Rightarrow> nat \<Rightarrow> nat \<Rightarrow> mal \<Rightarrow> (u64 \<times> u64) set \<Rightarrow> (u64 \<times> u64) set \<Rightarrow> bool" where
  "alloc_ok bins lim k s B M \<longleftrightarrow> musl_ok bins s B \<and> mapped_ok lim s M \<and> unat (brk_of s) + k * 2 ^ 18 + 2 ^ 20 \<le> lim \<and> lim < 2 ^ 63
     \<and> unat (sys_brk s) \<le> unat (brk_of s) \<and> allocated_bytes s = sum snd B + sum snd M"

lemma mapped_frame:
  assumes "mapped_ok lim s M" "frame e s s'" "unat e \<le> lim" "maps s' = maps s"
  shows "mapped_ok lim s' M"
proof -
  have "csize s' c = csize s c \<and> psize s' c = psize s c" if "(c, m) \<in> M" for c m
    using assms(1-3) that by (force simp: mapped_ok_def mapped_one_def frame_def)
  then have "mapped_one lim s' c m" if "(c, m) \<in> M" for c m
    using assms(1,4) that by (auto simp: mapped_ok_def mapped_one_def)
  then show ?thesis using assms(1) by (auto simp: mapped_ok_def)
qed

lemma finite_live [simp]: "finite (live a cs)"
  by (rule finite_subset [where B = "(\<lambda>(x, n, f). (x, n)) ` set (blocks a cs)"]) (force simp: live_def)+

lemma musl_ok_facts:
  assumes "musl_ok bins s B"
  shows "finite B" "(c, n) \<in> B \<Longrightarrow> unit_size n \<and> 32 dvd unat c + 16 \<and> unat c + unat n + 16 \<le> unat (brk_of s)"
    "(c, n) \<in> B \<Longrightarrow> (d, m) \<in> B \<Longrightarrow> (c, n) = (d, m) \<or> unat c + unat n \<le> unat d \<or> unat d + unat m \<le> unat c"
proof -
  show "finite B" using assms by (auto simp: musl_ok_def heap_state_def)
  show "unit_size n \<and> 32 dvd unat c + 16 \<and> unat c + unat n + 16 \<le> unat (brk_of s)" if m: "(c, n) \<in> B"
  proof -
    obtain a cs L where h: "heap_state bins s B a cs L" using assms m by (auto simp: musl_ok_def)
    have "(c, n, False) \<in> set (blocks a cs)" using h m by (auto simp: heap_state_def live_def)
    from blocks_range [OF heap_state_end(4) [OF h] this] heap_state_end [OF h] show ?thesis by simp
  qed
  show "(c, n) = (d, m) \<or> unat c + unat n \<le> unat d \<or> unat d + unat m \<le> unat c" if m: "(c, n) \<in> B" "(d, m) \<in> B"
  proof -
    obtain a cs L where h: "heap_state bins s B a cs L" using assms m by (auto simp: musl_ok_def)
    have "(c, n, False) \<in> set (blocks a cs)" "(d, m, False) \<in> set (blocks a cs)" using h m by (auto simp: heap_state_def live_def)
    from blocks_disjoint [OF heap_state_end(4) [OF h] this] show ?thesis by auto
  qed
qed

section \<open>Allocation\<close>

lemma malloc_small:
  assumes "alloc_ok bins lim (Suc k) s B M" "adjust_size z = Some n" "n \<le> MMAP_THRESHOLD" "backed s" "sbrk_ok os (sys_brk s) (grow_size n)"
  obtains c s' where "musl_malloc os bins z s = Some (Inr (CHUNK_TO_MEM c, s'))" "alloc_ok bins lim k s' (insert (c, n) B) M"
    "\<forall>m. (c, m) \<notin> B" "frame (brk_of s') s s'" "unat (brk_of s) \<le> unat (brk_of s')"
    "backed s'"
proof -
  have a: "musl_ok bins s B" "mapped_ok lim s M" "unat (brk_of s) + (k + 1) * 2 ^ 18 + 2 ^ 20 \<le> lim" "lim < 2 ^ 63"
    "unat (sys_brk s) \<le> unat (brk_of s)" "allocated_bytes s = sum snd B + sum snd M" using assms(1) by (auto simp: alloc_ok_def)
  have n: "unit_size n" "unat n \<le> 7168 * 32"
    using adjust_size_spec(1) [OF assms(2)] assms(3) by (auto simp: MMAP_THRESHOLD_def SIZE_ALIGN_def word_le_nat_alt)
  have room: "unat (brk_of s) + 2 ^ 20 < 2 ^ 63" "unat (sys_brk s) + 4096 \<le> 2 ^ 64" using a(3-5) by simp_all
  obtain c s' where v: "serve os bins n (upidx (unat n div 32 - 1)) s = Some (Inr (CHUNK_TO_MEM c, s'))" "served bins s B n c s'"
    using a(1) serve_heap [OF _ n room(1) assms(4) a(5) assms(5)] serve_first [OF _ n room assms(5)] unfolding musl_ok_def by metis
  from v(2) obtain a' cs L where h: "heap_state bins s' (insert (c, n) B) a' cs L" and new: "\<forall>m. (c, m) \<notin> B"
    and s': "allocated_bytes s' = allocated_bytes s + n" "maps s' = maps s" "frame (heap_end s') s s'"
    and br: "heap_end s' = heap_end s \<and> sys_brk s' = sys_brk s \<or> heap_end s' = brk_of s + grow_size n \<and> sys_brk s' = sys_brk s + grow_size n"
    by (auto simp: served_def)
  note he = heap_state_end [OF h]
  have ub: "unat (brk_of s + grow_size n) = unat (brk_of s) + unat (grow_size n)" using room grow_size_spec(3) [OF n(2)] by (intro unat_add64) simp
  have same: "heap_end s' = heap_end s \<Longrightarrow> brk_of s = heap_end s"
    using a(1) he(3) heap_state_end(2) by (auto simp: musl_ok_def no_heap_def)
  then have b: "unat (brk_of s) \<le> unat (brk_of s')" "unat (brk_of s') \<le> unat (brk_of s) + 2 ^ 18"
    using same br he(2) ub grow_size_spec(3) [OF n(2)] by auto
  have "unat (sys_brk s + grow_size n) = unat (sys_brk s) + unat (grow_size n)"
    using a(5) room grow_size_spec(3) [OF n(2)] by (intro unat_add64) simp
  then have sb: "unat (sys_brk s') \<le> unat (brk_of s')" using br a(5) he(2) b(1) ub by auto
  have "alloc_ok bins lim k s' (insert (c, n) B) M"
  proof -
    have "mapped_ok lim s' M" using mapped_frame [OF a(2) s'(3) _ s'(2)] b(2) a(3) he(2) by simp
    moreover have "sum snd (insert (c, n) B) = n + sum snd B" using new musl_ok_facts(1) [OF a(1)] by simp
    ultimately show ?thesis using h b(2) a s' sb by (auto simp: alloc_ok_def musl_ok_def algebra_simps)
  qed
  moreover have "backed s'"
  proof (cases "heap_end s' = heap_end s \<and> sys_brk s' = sys_brk s")
    case True
    then show ?thesis using same assms(4) he(2) by (simp add: backed_def)
  next
    case False
    then have e: "brk_of s' = brk_of s + grow_size n" "sys_brk s' = sys_brk s + grow_size n" using br he(2) by auto
    have "unat (sys_brk s) + unat (grow_size n) + 4096 \<le> 2 ^ 64" using a(5) room grow_size_spec(3) [OF n(2)] by simp
    from align64_up_add [OF grow_size_spec(1) [OF n(2)] this] show ?thesis using e assms(4) by (simp add: backed_def PAGE_SIZE_def)
  qed
  ultimately show ?thesis
    using that [OF _ _ new] v(1) musl_malloc_serve [OF assms(2) n(2)] s'(3) he(2) b(1) by metis
qed

lemma malloc_failed: "adjust_size z = None \<Longrightarrow> musl_malloc os bins z s = Some (Inr (0, s))"
  by (simp add: musl_malloc_def)

text \<open>The length of the mapping for a large request.\<close>

definition map_len :: "u64 \<Rightarrow> u64" where
  "map_len n = align64_up (n + OVERHEAD) PAGE_SIZE"

lemma adjust_size_bound:
  assumes "adjust_size z = Some n"
  shows "unat n \<le> 2 ^ 63"
proof -
  have "unat z \<le> 9223372036854771680"
  proof (cases "z = 0")
    case False
    then have "unat (z - 1) = unat z - 1" by (simp add: unat_minus_one)
    then show ?thesis using assms by (auto simp: adjust_size_def PTRDIFF_MAX_def SIZE_ALIGN_def PAGE_SIZE_def word_less_nat_alt split: if_splits)
  qed simp
  then show ?thesis using adjust_size_spec(3) [OF assms] by simp
qed

lemma map_len_spec:
  assumes "unat n \<le> 2 ^ 63"
  shows "4096 dvd unat (map_len n)" "unat n + 16 \<le> unat (map_len n)" "unat (map_len n) < unat n + 4112"
proof -
  have n: "unat (n + 16) = unat n + 16" using assms by (intro unat_add64 [of n 16, simplified]) simp
  from align64_up_least [of 12 "n + 16"] n assms
  show "4096 dvd unat (map_len n)" "unat n + 16 \<le> unat (map_len n)" "unat (map_len n) < unat n + 4112"
    by (simp_all add: map_len_def OVERHEAD_def PAGE_SIZE_def)
qed

lemma malloc_large_result:
  assumes "adjust_size z = Some n" "MMAP_THRESHOLD < n"
  shows "mmap_at os (mmap_calls s) (maps s) (map_len n) = None \<Longrightarrow> musl_malloc os bins z s = Some (Inr (0, s\<lparr>mmap_calls := mmap_calls s + 1\<rparr>))"
    "mmap_at os (mmap_calls s) (maps s) (map_len n) = Some base \<Longrightarrow> musl_malloc os bins z s = Some (Inr (CHUNK_TO_MEM (base + 16),
      s\<lparr>mmap_calls := mmap_calls s + 1, maps := (base, map_len n) # maps s, csize := (csize s)(base + 16 := map_len n - 16),
        psize := (psize s)(base + 16 := 16), mmap_bytes := mmap_bytes s + map_len n,
        allocated_bytes := allocated_bytes s + ((map_len n - 16) AND - 2)\<rparr>))"
  using assms by (simp_all add: add.commute [of 16 base] musl_malloc_def malloc_mmap_def mmap_def Let_def map_len_def SIZE_ALIGN_def OVERHEAD_def
    set_defs CHUNK_SIZE_def)

text \<open>The heap does not depend on headers above it.\<close>

lemma musl_ok_above:
  assumes "musl_ok bins s B" "\<And>x. unat x < unat (brk_of s) \<Longrightarrow> csize s' x = csize s x \<and> psize s' x = psize s x"
    "nxt s' = nxt s" "prv s' = prv s" "binmap s' = binmap s" "free_bytes s' = free_bytes s" "free_block_bytes s' = free_block_bytes s"
    "heap_end s' = heap_end s" "stored_brk s' = stored_brk s" "sys_brk s' = sys_brk s"
  shows "musl_ok bins s' B"
proof -
  have "heap_state bins s' B a cs L" if h: "heap_state bins s B a cs L" for a cs L
  proof -
    note e = heap_state_end [OF h]
    have c: "chain_ok s a cs" "free_ok bins s (frees a cs) L" using h by (auto simp: heap_state_def heap_ok_def)
    have eq: "csize s' x = csize s x \<and> psize s' x = psize s x" if "unat x \<le> unat (fin a cs)" for x
      using assms(2) [of x] e(1,2) that by simp
    have t: "tags s 1 a cs" using c(1) by (simp add: chain_ok_def)
    have "unat a \<le> unat (fin a cs)" using unat_fin [OF e(4)] by simp
    then have "tags s' 1 a cs" using eq tags_first [OF t] by (intro tags_frame [OF e(4) t]) auto
    then have "chain_ok s' a cs" using c(1) eq by (simp add: chain_ok_def)
    moreover have "free_ok bins s' (frees a cs) L" using c(2) assms(3-7) by (subst free_ok_cong [of _ s])
    ultimately show ?thesis using h assms(8,9) by (auto simp: heap_state_def heap_ok_def)
  qed
  moreover have "no_heap bins s' = no_heap bins s" using assms(3-10) by (simp add: no_heap_def bins_ok_def ring_def)
  ultimately show ?thesis using assms(1) unfolding musl_ok_def by blast
qed

text \<open>An answer of \<open>mmap\<close> that does not overlap what is in use.\<close>

definition placed_at :: "nat \<Rightarrow> (u64 \<times> u64) set \<Rightarrow> u64 \<Rightarrow> u64 \<Rightarrow> bool" where
  "placed_at lim M base len \<longleftrightarrow> 4096 dvd unat base \<and> lim \<le> unat base \<and> unat base + unat len < 2 ^ 64
     \<and> (\<forall>(c, m)\<in>M. unat base + unat len \<le> unat c \<or> unat c + unat m \<le> unat base)"

lemma malloc_large:
  assumes "alloc_ok bins lim k s B M" "adjust_size z = Some n" "MMAP_THRESHOLD < n"
    "mmap_at os (mmap_calls s) (maps s) (map_len n) = Some base" "placed_at lim M base (map_len n)"
  obtains s' where "musl_malloc os bins z s = Some (Inr (CHUNK_TO_MEM (base + 16), s'))"
    "alloc_ok bins lim k s' B (insert (base + 16, map_len n - 16) M)" "\<forall>m. (base + 16, m) \<notin> M" "unat z \<le> unat (map_len n) - 32"
proof -
  let ?c = "base + 16" and ?l = "map_len n"
  define s' where "s' = s\<lparr>mmap_calls := mmap_calls s + 1, maps := (base, ?l) # maps s, csize := (csize s)(?c := ?l - 16),
        psize := (psize s)(?c := 16), mmap_bytes := mmap_bytes s + ?l, allocated_bytes := allocated_bytes s + ((?l - 16) AND - 2)\<rparr>"
  have r: "musl_malloc os bins z s = Some (Inr (CHUNK_TO_MEM ?c, s'))" unfolding s'_def by (rule malloc_large_result(2) [OF assms(2-4)])
  have a: "musl_ok bins s B" "mapped_ok lim s M" "unat (brk_of s) + k * 2 ^ 18 + 2 ^ 20 \<le> lim" "lim < 2 ^ 63"
    "unat (sys_brk s) \<le> unat (brk_of s)" "allocated_bytes s = sum snd B + sum snd M" using assms(1) by (auto simp: alloc_ok_def)
  have pl: "4096 dvd unat base" "lim \<le> unat base" "unat base + unat ?l < 2 ^ 64"
    "(d, m) \<in> M \<Longrightarrow> unat base + unat ?l \<le> unat d \<or> unat d + unat m \<le> unat base" for d m
    using assms(5) by (auto simp: placed_at_def)
  note l = map_len_spec [OF adjust_size_bound [OF assms(2)]]
  have u: "unat ?c = unat base + 16" "unat (?l - 16) = unat ?l - 16"
    using l(2) pl(3) unat_minus_le [of 16 ?l] by (auto intro!: unat_add64 [of base 16, simplified] simp: word_le_nat_alt)
  have n32: "32 \<le> unat n" using unit_size_ge [OF adjust_size_spec(1) [OF assms(2)]] .
  have "32 dvd unat base" "2 dvd unat ?l" using pl(1) l(1) by (auto elim: dvd_trans [rotated])
  then have dv: "32 dvd unat ?c + 16" "even (unat (?l - 16))" using u l(2) by (simp_all add: dvd_diff_nat)
  have "unat ((?l - 16) AND 1) = 0" using dv(2) by (simp add: and_one_eq unat_mod even_iff_mod_2_eq_zero)
  then have ev: "(?l - 16) AND 1 = 0" by (simp add: unat_eq_zero)
  then have ev': "(?l - 16) AND - 2 = ?l - 16" using sub_and [of "?l - 16" 1] by simp
  have new: "\<forall>m. (?c, m) \<notin> M"
  proof (intro allI notI)
    fix m assume "(?c, m) \<in> M"
    from pl(4) [OF this] show False using u l(2) n32 by auto
  qed
  have "musl_ok bins s' B" using a(3) pl(2) u(1) by (intro musl_ok_above [OF a(1)]) (auto simp: s'_def)
  moreover have "mapped_ok lim s' (insert (?c, ?l - 16) M)"
  proof -
    have k: "mapped_one lim s' d m" if "(d, m) \<in> M" for d m
    proof -
      have "mapped_one lim s d m" "d \<noteq> ?c" using that new a(2) by (auto simp: mapped_ok_def)
      then show ?thesis by (simp add: mapped_one_def s'_def)
    qed
    have j: "chunks_apart ?c (?l - 16) d m" "chunks_apart d m ?c (?l - 16)" if "(d, m) \<in> M" for d m
      using pl(4) [OF that] u l(2) by (auto simp: chunks_apart_def)
    have "mapped_one lim s' ?c (?l - 16)" using u l(2) pl(2,3) dv(1) ev n32 by (simp add: mapped_one_def s'_def)
    then show ?thesis using a(2) k j unfolding mapped_ok_def by auto
  qed
  moreover have "allocated_bytes s' = sum snd B + sum snd (insert (?c, ?l - 16) M)" using a(2,6) new ev' by (simp add: s'_def mapped_ok_def)
  moreover have "brk_of s' = brk_of s" "sys_brk s' = sys_brk s" by (simp_all add: s'_def brk_of_def)
  ultimately have "alloc_ok bins lim k s' B (insert (?c, ?l - 16) M)" using a by (simp add: alloc_ok_def)
  moreover have "unat z \<le> unat ?l - 32" using l(2) adjust_size_spec(2) [OF assms(2)] by auto
  ultimately show ?thesis using that r new by blast
qed

section \<open>Release\<close>

lemma MEM_CHUNK [simp]: "MEM_TO_CHUNK (CHUNK_TO_MEM c) = c"
  by (simp add: MEM_TO_CHUNK_def CHUNK_TO_MEM_def)

lemma chunk_not_null: "unat c + 16 < 2 ^ 64 \<Longrightarrow> CHUNK_TO_MEM c \<noteq> 0"
  using unat_add64 [of c 16] by (auto simp: CHUNK_TO_MEM_def OVERHEAD_def unat_eq_0)

text \<open>Some chunk of \<open>F\<close> contains the chunk at \<open>c\<close> with \<open>n\<close> bytes.\<close>

definition covers :: "(u64 \<times> u64) set \<Rightarrow> u64 \<Rightarrow> u64 \<Rightarrow> bool" where
  "covers F c n \<longleftrightarrow> (\<exists>(d, m)\<in>F. unat d \<le> unat c \<and> unat c + unat n \<le> unat d + unat m)"

lemma heap_state_free:
  assumes "heap_state bins s B a cs L" "(c, n) \<in> B"
  obtains s' where "musl_free bins (CHUNK_TO_MEM c) s = Inr s'" "\<exists>cs L. heap_state bins s' (B - {(c, n)}) a cs L \<and> covers (frees a cs) c n"
    "allocated_bytes s' = allocated_bytes s - n" "os_part s' = os_part s" "frame (fin a cs) s s'"
proof -
  have hs: "heap_ok bins s a cs L" "B = live a cs" "heap_end s = fin a cs + 16" "stored_brk s = heap_end s" "4096 dvd unat (heap_end s)" "coalesced cs"
    using assms(1) by (auto simp: heap_state_def)
  note he = heap_state_end [OF assms(1)]
  have m: "(c, n, False) \<in> set (blocks a cs)" using assms(2) hs(2) by (auto simp: live_def)
  then obtain xs ys where c: "cs = xs @ (n, False) # ys" "c = fin a xs" using blocks_split by blast
  have hd: "csize s c = tag n False" "unit_size n" using chain_header(1,6) [of s a xs n False ys] hs(1) c by (auto simp: heap_ok_def)
  have h: "heap_ok bins s a (xs @ (n, False) # ys) L" using hs(1) c(1) by simp
  obtain X p m Y L' s' where f: "bin_free_chunk bins (fin a xs) s = Inr s'" "heap_ok bins s' a (X @ (p + n + m, True) # Y) L'"
    "xs = X @ (if p = 0 then [] else [(p, True)])" "ys = (if m = 0 then [] else [(m, True)]) @ Y"
    "unat (p + n + m) = unat p + unat n + unat m" "X \<noteq> [] \<Longrightarrow> p \<noteq> 0 \<or> \<not> snd (last X)" "Y \<noteq> [] \<Longrightarrow> m \<noteq> 0 \<or> \<not> snd (hd Y)"
    "allocated_bytes s' = allocated_bytes s - n" "os_part s' = os_part s" "frame (fin a (xs @ (n, False) # ys)) s s'"
    by (rule heap_free [OF h]) (rule that)
  have "unat c + 16 < 2 ^ 64" using blocks_range(2) [OF he(4) m] he(4) unat_fin [OF he(4)] by (simp add: wfc_def)
  then have r: "musl_free bins (CHUNK_TO_MEM c) s = Inr s'"
    using chunk_not_null [of c] hd tag_free [of n False] f(1) c(2) by (simp add: musl_free_def IS_MMAPPED_def)
  have fx: "fin a xs = fin a X + p" using f(3) by (cases "p = 0") simp_all
  then have sum: "fin a X + (p + n + m) = fin a xs + n + m" by (simp add: add.assoc)
  then have e: "fin a (X @ (p + n + m, True) # Y) = fin a cs" unfolding c(1) f(4) by (simp add: fx add.assoc)
  have co: "coalesced (X @ (p + n + m, True) # Y)"
    using hs(6) f(3,4,6,7) unfolding c(1) by (auto simp: coalesced_split coalesced_Cons split: if_splits)
  have "B - {(c, n)} = live a (X @ (p + n + m, True) # Y)"
  proof -
    have "live a cs = insert (c, n) (live a X \<union> live (fin a xs + n + m) Y)" using c f(3,4) by auto
    moreover have "(c, n) \<notin> live a X \<union> live (fin a xs + n + m) Y"
    proof -
      have "live a X \<union> live (fin a xs + n + m) Y \<subseteq> live a xs \<union> live (fin a xs + n) ys" using f(3,4) by (auto simp: add.assoc)
      moreover have "(c, n) \<notin> live a xs \<union> live (fin a xs + n) ys"
        using chain_other [of a xs n False ys c n False] he(4) c by (auto simp: live_def)
      ultimately show ?thesis by blast
    qed
    moreover have "live a (X @ (p + n + m, True) # Y) = live a X \<union> live (fin a xs + n + m) Y" by (simp add: fx add.assoc)
    ultimately show ?thesis using hs(2) by blast
  qed
  then have "heap_state bins s' (B - {(c, n)}) a (X @ (p + n + m, True) # Y) L'"
    using f(2,9) hs(3-5) e co by (auto simp: heap_state_def os_part_def)
  moreover have "covers (frees a (X @ (p + n + m, True) # Y)) c n"
  proof -
    have w: "wfc a xs" using wfc_append he(4) c(1) by blast
    have "unat (fin a xs) = unat (fin a X) + unat p"
      using f(3) w wfc_append [of a X "[(p, True)]"] wfc_Cons [of "fin a X" p True "[]"] by (cases "p = 0") auto
    then show ?thesis using f(5) c(2) by (auto simp: covers_def)
  qed
  ultimately show ?thesis using that r f(8-10) c(1) by blast
qed

lemma free_heap:
  assumes "alloc_ok bins lim k s B M" "(c, n) \<in> B"
  obtains s' where "musl_free bins (CHUNK_TO_MEM c) s = Inr s'" "alloc_ok bins lim k s' (B - {(c, n)}) M" "os_part s' = os_part s"
    "\<exists>a cs L. heap_state bins s' (B - {(c, n)}) a cs L \<and> covers (frees a cs) c n"
proof -
  have a: "musl_ok bins s B" "mapped_ok lim s M" "unat (brk_of s) + k * 2 ^ 18 + 2 ^ 20 \<le> lim" "lim < 2 ^ 63"
    "unat (sys_brk s) \<le> unat (brk_of s)" "allocated_bytes s = sum snd B + sum snd M" using assms(1) by (auto simp: alloc_ok_def)
  obtain a' cs L where h: "heap_state bins s B a' cs L" using a(1) assms(2) by (auto simp: musl_ok_def)
  obtain s' where f: "musl_free bins (CHUNK_TO_MEM c) s = Inr s'" "\<exists>cs L. heap_state bins s' (B - {(c, n)}) a' cs L \<and> covers (frees a' cs) c n"
    "allocated_bytes s' = allocated_bytes s - n" "os_part s' = os_part s" "frame (fin a' cs) s s'"
    by (rule heap_state_free [OF h assms(2)])
  have b: "brk_of s' = brk_of s" "sys_brk s' = sys_brk s" "maps s' = maps s" using f(4) by (auto simp: os_part_def brk_of_def)
  have "mapped_ok lim s' M" using mapped_frame [OF a(2) f(5) _ b(3)] heap_state_end(1,2) [OF h] a(3) by simp
  moreover have "sum snd (B - {(c, n)}) = sum snd B - n" using assms(2) musl_ok_facts(1) [OF a(1)] by (simp add: sum_diff1)
  ultimately have "alloc_ok bins lim k s' (B - {(c, n)}) M" using f(2,3) a b by (auto simp: alloc_ok_def musl_ok_def)
  then show ?thesis using that f(1,2,4) by blast
qed

lemma free_mapped:
  assumes "alloc_ok bins lim k s B M" "(c, m) \<in> M"
  obtains s' where "musl_free bins (CHUNK_TO_MEM c) s = Inr s'" "alloc_ok bins lim k s' B (M - {(c, m)})"
    "maps s' = remove1 (c - 16, m + 16) (maps s)" "mmap_bytes s' = mmap_bytes s - (m + 16)" "backed s' = backed s"
proof -
  have a: "musl_ok bins s B" "mapped_ok lim s M" "unat (brk_of s) + k * 2 ^ 18 + 2 ^ 20 \<le> lim" "lim < 2 ^ 63"
    "unat (sys_brk s) \<le> unat (brk_of s)" "allocated_bytes s = sum snd B + sum snd M" using assms(1) by (auto simp: alloc_ok_def)
  have c: "unat c + unat m < 2 ^ 64" "csize s c = m" "psize s c = 16" "m AND 1 = 0" "32 \<le> unat m"
    using a(2) assms(2) by (auto simp: mapped_ok_def mapped_one_def)
  have ev: "m AND - 2 = m" using sub_and [of m 1] c(4) by simp
  have n0: "CHUNK_TO_MEM c \<noteq> 0" using c(1,5) by (intro chunk_not_null) simp
  define s' where "s' = s\<lparr>allocated_bytes := allocated_bytes s - m, maps := remove1 (c - 16, m + 16) (maps s), mmap_bytes := mmap_bytes s - (m + 16)\<rparr>"
  have r: "musl_free bins (CHUNK_TO_MEM c) s = Inr s'"
    using n0 c ev by (simp add: musl_free_def IS_MMAPPED_def C_INUSE_def unmap_chunk_def munmap_def CHUNK_SIZE_def Let_def s'_def)
  have "mapped_ok lim s' (M - {(c, m)})"
  proof -
    have "mapped_one lim s' d n" if d: "(d, n) \<in> M" "(d, n) \<noteq> (c, m)" for d n
    proof -
      have o: "mapped_one lim s d n" using a(2) d(1) by (auto simp: mapped_ok_def)
      moreover have "(d - 16, n + 16) \<noteq> (c - 16, m + 16)" using d(2) by auto
      ultimately show ?thesis by (simp add: mapped_one_def s'_def)
    qed
    then show ?thesis using a(2) unfolding mapped_ok_def by auto
  qed
  moreover have "musl_ok bins s' B" by (rule musl_ok_above [OF a(1)]) (simp_all add: s'_def)
  moreover have "sum snd (M - {(c, m)}) = sum snd M - m" using assms(2) a(2) by (simp add: sum_diff1 mapped_ok_def)
  moreover have "brk_of s' = brk_of s" "sys_brk s' = sys_brk s" "allocated_bytes s' = allocated_bytes s - m" by (simp_all add: s'_def brk_of_def)
  ultimately have "alloc_ok bins lim k s' B (M - {(c, m)})" using a by (simp add: alloc_ok_def)
  then show ?thesis using that r by (simp add: s'_def backed_def brk_of_def)
qed

end
