(* ===== verification/Allocator.thy ===== *)
theory Allocator
  imports C_Lib
begin

text \<open>
  What a client may rely on from an allocator, and the program of \<open>test-musl-malloc.c\<close>, which calls
  \<open>musl_malloc\<close>, \<open>musl_free\<close> and \<open>musl_dump_bins\<close>, over any allocator that keeps to it.
\<close>

section \<open>The test program\<close>

text \<open>The two loops of \<open>main\<close>. The outer option is \<open>None\<close> when a call does not return; the result is
  the pointers with the text that was printed.\<close>

fun alloc_loop :: "(u64 \<Rightarrow> 's \<Rightarrow> (cerr + u64 \<times> 's) option) \<Rightarrow> ('s \<Rightarrow> string option) \<Rightarrow> u64 list \<Rightarrow> 's
    \<Rightarrow> (cerr + u64 list \<times> string \<times> 's) option" where
  "alloc_loop alloc dump [] s = Some (Inr ([], [], s))"
| "alloc_loop alloc dump (z # zs) s =
     Option.bind (alloc z s) (\<lambda>r. case r of Inl e \<Rightarrow> Some (Inl e) | Inr (p, s) \<Rightarrow>
       Option.bind (dump s) (\<lambda>t. Option.bind (alloc_loop alloc dump zs s) (\<lambda>r.
         Some (sbind r (\<lambda>(ps, u, s). Inr (p # ps, t @ u, s))))))"

fun free_loop :: "(u64 \<Rightarrow> 's \<Rightarrow> cerr + 's) \<Rightarrow> ('s \<Rightarrow> string option) \<Rightarrow> u64 list \<Rightarrow> 's \<Rightarrow> (cerr + string \<times> 's) option" where
  "free_loop release dump [] s = Some (Inr ([], s))"
| "free_loop release dump (p # ps) s =
     (case release p s of Inl e \<Rightarrow> Some (Inl e) | Inr s \<Rightarrow>
       Option.bind (dump s) (\<lambda>t. Option.bind (free_loop release dump ps s) (\<lambda>r.
         Some (sbind r (\<lambda>(u, s). Inr (t @ u, s))))))"

definition MIN_ORDER :: nat where "MIN_ORDER = 1"
definition MAX_ORDER :: nat where "MAX_ORDER = 24"
definition NUM_ALLOCS :: nat where "NUM_ALLOCS = MAX_ORDER - MIN_ORDER + 1"

text \<open>The sizes: \<open>rnd i\<close> is the result of the i-th call of \<open>rand\<close>.\<close>

definition alloc_size :: "(nat \<Rightarrow> u64) \<Rightarrow> nat \<Rightarrow> u64" where
  "alloc_size rnd i = (let size = push_bit (MIN_ORDER + i) 1 in size + rnd i mod size)"

definition test_main :: "(u64 \<Rightarrow> 's \<Rightarrow> (cerr + u64 \<times> 's) option) \<Rightarrow> (u64 \<Rightarrow> 's \<Rightarrow> cerr + 's) \<Rightarrow> ('s \<Rightarrow> string option)
    \<Rightarrow> (nat \<Rightarrow> u64) \<Rightarrow> 's \<Rightarrow> (cerr + string \<times> 's) option" where
  "test_main alloc release dump rnd s =
     Option.bind (alloc_loop alloc dump (map (alloc_size rnd) [0..<NUM_ALLOCS]) s) (\<lambda>r. case r of Inl e \<Rightarrow> Some (Inl e) | Inr (ps, t, s) \<Rightarrow>
       Option.bind (free_loop release dump ps s) (\<lambda>r. Some (sbind r (\<lambda>(u, s). Inr (t @ u, s)))))"

section \<open>The contract\<close>

text \<open>
  Blocks are pairs of an address and a length. \<open>ok k s A\<close> says that the state has the live blocks \<open>A\<close> and
  room for \<open>k\<close> more requests. A request may fail with the null pointer, and then the live blocks stay as they are.
\<close>

definition fresh_block :: "(u64 \<times> u64) set \<Rightarrow> u64 \<Rightarrow> u64 \<Rightarrow> u64 \<Rightarrow> bool" where
  "fresh_block A z p n \<longleftrightarrow> p \<noteq> 0 \<and> 32 dvd unat p \<and> unat z \<le> unat n \<and> unat p + unat n < 2 ^ 64
     \<and> (\<forall>(q, m)\<in>A. p \<noteq> q \<and> (unat p + unat n \<le> unat q \<or> unat q + unat m \<le> unat p))"

text \<open>The blocks behind the pointers \<open>ps\<close>, in order and without the null pointers.\<close>

fun behind :: "u64 list \<Rightarrow> (u64 \<times> u64) set \<Rightarrow> (u64 \<times> u64) set \<Rightarrow> bool" where
  "behind [] A A' \<longleftrightarrow> A' = A"
| "behind (p # ps) A A' \<longleftrightarrow> p = 0 \<and> behind ps A A' \<or> (\<exists>n z. fresh_block A z p n \<and> behind ps (insert (p, n) A) A')"

lemma behind_mono: "behind ps A A' \<Longrightarrow> A \<subseteq> A'"
  by (induction ps A A' rule: behind.induct) auto

locale allocator =
  fixes ok :: "nat \<Rightarrow> 's \<Rightarrow> (u64 \<times> u64) set \<Rightarrow> bool"
    and alloc :: "u64 \<Rightarrow> 's \<Rightarrow> (cerr + u64 \<times> 's) option"
    and release :: "u64 \<Rightarrow> 's \<Rightarrow> cerr + 's"
    and dump :: "'s \<Rightarrow> string option"
  assumes alloc_law: "ok (Suc k) s A \<Longrightarrow> \<exists>p s'. alloc z s = Some (Inr (p, s')) \<and> (p = 0 \<and> ok k s' A \<or> (\<exists>n. fresh_block A z p n \<and> ok k s' (insert (p, n) A)))"
    and release_law: "ok k s A \<Longrightarrow> (p, n) \<in> A \<Longrightarrow> \<exists>s'. release p s = Inr s' \<and> ok k s' (A - {(p, n)})"
    and release_null: "release 0 s = Inr s"
    and dump_law: "ok k s A \<Longrightarrow> \<exists>t. dump s = Some t"
begin

lemma alloc_loop_ok:
  "ok (length zs + k) s A \<Longrightarrow> \<exists>ps t s' A'. alloc_loop alloc dump zs s = Some (Inr (ps, t, s')) \<and> behind ps A A' \<and> ok k s' A'"
proof (induction zs arbitrary: s A)
  case (Cons z zs)
  then obtain p s1 where a: "alloc z s = Some (Inr (p, s1))"
    and c: "p = 0 \<and> ok (length zs + k) s1 A \<or> (\<exists>n. fresh_block A z p n \<and> ok (length zs + k) s1 (insert (p, n) A))"
    using alloc_law [of "length zs + k" s A z] by auto
  obtain A1 where A1: "ok (length zs + k) s1 A1" "\<And>ps A'. behind ps A1 A' \<Longrightarrow> behind (p # ps) A A'"
    using c by (elim disjE exE conjE) auto
  obtain t where t: "dump s1 = Some t" using dump_law [OF A1(1)] by blast
  from Cons.IH [OF A1(1)] obtain ps u s' A' where
    r: "alloc_loop alloc dump zs s1 = Some (Inr (ps, u, s'))" "behind ps A1 A'" "ok k s' A'" by blast
  then show ?case using a t A1(2) by fastforce
qed simp

lemma free_loop_ok:
  "behind ps A A' \<Longrightarrow> ok k s (A' - D) \<Longrightarrow> D \<subseteq> A \<Longrightarrow> \<exists>t s'. free_loop release dump ps s = Some (Inr (t, s')) \<and> ok k s' (A - D)"
proof (induction ps arbitrary: s A D)
  case (Cons p ps)
  from Cons.prems(1) consider "p = 0" "behind ps A A'" | n z where "fresh_block A z p n" "behind ps (insert (p, n) A) A'" by auto
  then obtain B E s1 where r: "release p s = Inr s1" "behind ps B A'" "ok k s1 (A' - E)" "E \<subseteq> B" "B - E = A - D"
  proof cases
    case 1
    then show ?thesis using that [of s A D] Cons.prems release_null by simp
  next
    case 2
    then have n: "(p, n) \<notin> A" "(p, n) \<in> A'" using behind_mono by (auto simp: fresh_block_def)
    then obtain s1 where "release p s = Inr s1" "ok k s1 (A' - D - {(p, n)})" using release_law [OF Cons.prems(2), of p n] Cons.prems(3) by auto
    moreover have "A' - D - {(p, n)} = A' - insert (p, n) D" by blast
    moreover have "insert (p, n) D \<subseteq> insert (p, n) A" "insert (p, n) A - insert (p, n) D = A - D" using n(1) Cons.prems(3) by auto
    ultimately show ?thesis using that [of s1 "insert (p, n) A" "insert (p, n) D"] 2(2) by auto
  qed
  obtain t where "dump s1 = Some t" using dump_law [OF r(3)] by blast
  moreover obtain u s' where "free_loop release dump ps s1 = Some (Inr (u, s'))" "ok k s' (A - D)"
    using Cons.IH [OF r(2-4)] r(5) by auto
  ultimately show ?case using r(1) by simp
qed auto

text \<open>The program returns, no call aborts, and the live blocks at the end are those of the start.\<close>

lemma test_main_ok:
  assumes "ok (NUM_ALLOCS + k) s A"
  shows "\<exists>t s'. test_main alloc release dump rnd s = Some (Inr (t, s')) \<and> ok k s' A"
proof -
  have "ok (length (map (alloc_size rnd) [0..<NUM_ALLOCS]) + k) s A" using assms by simp
  from alloc_loop_ok [OF this] obtain ps t s1 A' where
    a: "alloc_loop alloc dump (map (alloc_size rnd) [0..<NUM_ALLOCS]) s = Some (Inr (ps, t, s1))" "behind ps A A'" "ok k s1 A'" by blast
  from free_loop_ok [OF a(2), of k s1 "{}"] a(3) obtain u s' where "free_loop release dump ps s1 = Some (Inr (u, s'))" "ok k s' A" by auto
  then show ?thesis using a(1) by (simp add: test_main_def)
qed

end

end
