(* ===== verification/Malloc_Test.thy ===== *)
theory Malloc_Test
  imports Malloc_Correct Allocator
begin

text \<open>
  The allocator of \<open>musl/oldmalloc.c\<close> keeps to the contract of an allocator, so the program of
  \<open>test-musl-malloc.c\<close> runs on it as it does on any other.
\<close>

section \<open>Statistics\<close>

definition bin_line :: "mal \<Rightarrow> nat \<Rightarrow> u64 list \<Rightarrow> string" where
  "bin_line s i cs = pad (CHR ''0'') 2 (to_base 10 i) @ '': '' @ concat (map (\<lambda>c. fmt_lu (csize s c div SIZE_ALIGN) @ '' '') cs) @ newline"

lemma dump_bin_links:
  assumes "links (nxt s) p a xs b" "b \<notin> set xs" "list_all (\<lambda>x. csize s x AND 1 = 0) xs"
  shows "dump_bin b (nxt s a) s acc = Some (acc @ concat (map (\<lambda>c. fmt_lu (csize s c div SIZE_ALIGN) @ '' '') xs))"
  using assms
proof (induction xs arbitrary: a acc)
  case Nil
  then show ?case by (subst dump_bin.simps) simp
next
  case (Cons x xs)
  then show ?case by (subst dump_bin.simps) (auto simp: C_INUSE_def)
qed

lemma dump_bins_lists:
  assumes "bins_ok bins s L" "list_all (\<lambda>i. i < 64 \<and> list_all (\<lambda>x. csize s x AND 1 = 0) (L i)) is"
  shows "dump_bins is bins s = Some (concat (map (\<lambda>i. bin_line s i (L i)) (filter (\<lambda>i. L i \<noteq> []) is)))"
  using assms(2)
proof (induction "is")
  case (Cons i "is")
  let ?b = "BIN_TO_CHUNK bins i"
  have i: "i < 64" "list_all (\<lambda>x. csize s x AND 1 = 0) (L i)" using Cons.prems by auto
  note o = bins_okD [OF assms(1) i(1)]
  have set: "is_bit_set (binmap s) (of_nat i) \<longleftrightarrow> L i \<noteq> []" using o(3) i(1) by (simp add: is_bit_set_bit unat_of_nat)
  have nb: "?b \<notin> set (L i)" using o(4) i(1) by (auto simp: node_ok_def)
  show ?case
  proof (cases "L i = []")
    case False
    then have l: "links (nxt s) (prv s) ?b (L i) ?b" using o(1) by (simp add: ring_def)
    have "nxt s ?b \<noteq> ?b" using links_first [OF l] False nb by (cases "L i") auto
    then show ?thesis using Cons False set dump_bin_links [OF l nb i(2)] by (simp add: bin_line_def)
  qed (use Cons set in simp)
qed simp

text \<open>The chunks of the bins are free, so the statistics list them all.\<close>

lemma free_header:
  assumes "heap_ok bins s a cs L" "i < 64" "x \<in> set (L i)"
  shows "csize s x AND 1 = 0"
proof -
  obtain xs m ys where c: "cs = xs @ (m, True) # ys" "x = fin a xs" using bin_member [OF assms] by metis
  have "chain_ok s a (xs @ (m, True) # ys)" using assms(1) c(1) by (simp add: heap_ok_def)
  from chain_header(1,6) [OF this] show ?thesis using tag_free [of m True] c(2) by (simp add: C_INUSE_def)
qed

lemma dump_returns:
  assumes "musl_ok bins s B"
  shows "\<exists>t. musl_dump_bins bins s = Some t"
proof -
  obtain L where "bins_ok bins s L" "list_all (\<lambda>i. i < 64 \<and> list_all (\<lambda>x. csize s x AND 1 = 0) (L i)) [0..<64]"
  proof (cases "no_heap bins s")
    case True
    then show ?thesis using that [of "\<lambda>_. []"] by (simp add: no_heap_def list_all_iff)
  next
    case False
    then obtain a cs L where h: "heap_ok bins s a cs L" using assms by (auto simp: musl_ok_def heap_state_def)
    then show ?thesis using that [of L] free_header [OF h] by (auto simp: heap_ok_def free_ok_def list_all_iff)
  qed
  from dump_bins_lists [OF this] show ?thesis by (simp add: musl_dump_bins_def)
qed

section \<open>The contract\<close>

text \<open>The memory of a chunk follows its header and reaches to the header of the next one.\<close>

definition mem_block :: "u64 \<times> u64 \<Rightarrow> u64 \<times> u64" where
  "mem_block = (\<lambda>(c, n). (CHUNK_TO_MEM c, n - OVERHEAD))"

text \<open>The contract holds while the kernel lets the break move. It places a mapping on a page boundary above \<open>lim\<close>, clear of the mappings there are.\<close>

definition os_places :: "os \<Rightarrow> nat \<Rightarrow> bool" where
  "os_places os lim \<longleftrightarrow> (\<forall>i ms len base. mmap_at os i ms len = Some base \<longrightarrow> 4096 dvd unat base \<and> lim \<le> unat base \<and> unat base + unat len < 2 ^ 64
     \<and> (\<forall>(b, l)\<in>set ms. unat base + unat len \<le> unat b \<or> unat b + unat l \<le> unat base))"

definition musl_contract :: "os \<Rightarrow> u64 \<Rightarrow> nat \<Rightarrow> nat \<Rightarrow> mal \<Rightarrow> (u64 \<times> u64) set \<Rightarrow> bool" where
  "musl_contract os bins lim k s A \<longleftrightarrow> os_places os lim \<and> sbrk_ok os = (\<lambda>_ _. True) \<and> backed s
     \<and> (\<exists>B M. A = mem_block ` (B \<union> M) \<and> alloc_ok bins lim k s B M)"

lemma inj_mem_block: "inj mem_block"
  by (auto simp: inj_def mem_block_def CHUNK_TO_MEM_def)

lemma alloc_ok_weaken: "alloc_ok bins lim (Suc k) s B M \<Longrightarrow> alloc_ok bins lim k s B M"
  by (simp add: alloc_ok_def)

lemma alloc_block:
  assumes "alloc_ok bins lim k s B M" "(c, n) \<in> B \<union> M"
  shows "32 \<le> unat n" "32 dvd unat c + 16" "unat c + unat n < 2 ^ 64" "(c, n) \<in> B \<Longrightarrow> unat c + unat n < lim" "(c, n) \<in> M \<Longrightarrow> lim < unat c"
proof -
  have a: "musl_ok bins s B" "mapped_ok lim s M" "unat (brk_of s) + 2 ^ 20 \<le> lim" "lim < 2 ^ 63" using assms(1) by (auto simp: alloc_ok_def)
  have b: "unit_size n \<and> 32 dvd unat c + 16 \<and> unat c + unat n < lim" if "(c, n) \<in> B" using musl_ok_facts(2) [OF a(1) that] a(3) by simp
  have m: "mapped_one lim s c n" if "(c, n) \<in> M" using a(2) that by (auto simp: mapped_ok_def)
  show "32 \<le> unat n" "32 dvd unat c + 16" "unat c + unat n < 2 ^ 64" using assms(2) a(4) b m unit_size_ge by (auto simp: mapped_one_def)
  show "(c, n) \<in> B \<Longrightarrow> unat c + unat n < lim" using b by simp
  show "(c, n) \<in> M \<Longrightarrow> lim < unat c" using m by (simp add: mapped_one_def)
qed

lemma alloc_apart:
  assumes "alloc_ok bins lim k s B M" "(c, n) \<in> B \<union> M" "(d, m) \<in> B \<union> M"
  shows "(c, n) = (d, m) \<or> chunks_apart c n d m"
proof -
  have a: "musl_ok bins s B" "mapped_ok lim s M" using assms(1) by (auto simp: alloc_ok_def)
  note c = alloc_block(4,5) [OF assms(1,2)] and d = alloc_block(4,5) [OF assms(1,3)]
  have "(c, n) = (d, m) \<or> chunks_apart c n d m" if "(c, n) \<in> M" "(d, m) \<in> M"
  proof -
    have "csize s c = n" "csize s d = m" "c = d \<or> chunks_apart c n d m" using a(2) that by (auto simp: mapped_ok_def mapped_one_def)
    then show ?thesis by auto
  qed
  moreover have "(c, n) = (d, m) \<or> chunks_apart c n d m" if "(c, n) \<in> B" "(d, m) \<in> B"
    using musl_ok_facts(3) [OF a(1) that] by (simp add: chunks_apart_def)
  moreover have "chunks_apart c n d m" if "(c, n) \<in> B" "(d, m) \<in> M" using c(1) [OF that(1)] d(2) [OF that(2)] by (simp add: chunks_apart_def)
  moreover have "chunks_apart c n d m" if "(c, n) \<in> M" "(d, m) \<in> B" using d(1) [OF that(2)] c(2) [OF that(1)] by (simp add: chunks_apart_def)
  ultimately show ?thesis using assms(2,3) by blast
qed

text \<open>A chunk that is new among the live ones is a fresh block.\<close>

lemma fresh_mem:
  assumes "alloc_ok bins lim k s B M" "(c, n) \<in> B \<union> M" "(c, n) \<notin> A" "A \<subseteq> B \<union> M" "unat z + 16 \<le> unat n"
  shows "fresh_block (mem_block ` A) z (CHUNK_TO_MEM c) (n - OVERHEAD)"
proof -
  have mem: "unat (CHUNK_TO_MEM d) = unat d + 16 \<and> unat (m - OVERHEAD) = unat m - 16 \<and> 32 \<le> unat m" if "(d, m) \<in> B \<union> M" for d m
  proof -
    note b = alloc_block(1,3) [OF assms(1) that]
    then have "unat (d + 16) = unat d + 16" by (intro unat_add64 [of d 16, simplified]) simp
    then show ?thesis using b unat_minus_le [of 16 m] by (simp add: CHUNK_TO_MEM_def OVERHEAD_def word_le_nat_alt)
  qed
  note b = alloc_block(1-3) [OF assms(1,2)] and mc = mem [OF assms(2)]
  have "CHUNK_TO_MEM c \<noteq> q \<and> (unat (CHUNK_TO_MEM c) + unat (n - OVERHEAD) \<le> unat q \<or> unat q + unat l \<le> unat (CHUNK_TO_MEM c))"
    if ql: "(q, l) \<in> mem_block ` A" for q l
  proof -
    from ql obtain d m where q: "q = CHUNK_TO_MEM d" "l = m - OVERHEAD" and dm: "(d, m) \<in> A" by (auto simp: mem_block_def)
    have dm': "(d, m) \<in> B \<union> M" using dm assms(4) by auto
    have "chunks_apart c n d m" using alloc_apart [OF assms(1,2) dm'] dm assms(3) by auto
    then show ?thesis using mc mem [OF dm'] unfolding q by (auto simp: chunks_apart_def)
  qed
  then have "\<forall>(q, l)\<in>mem_block ` A. CHUNK_TO_MEM c \<noteq> q \<and> (unat (CHUNK_TO_MEM c) + unat (n - OVERHEAD) \<le> unat q \<or> unat q + unat l \<le> unat (CHUNK_TO_MEM c))"
    by blast
  moreover have "CHUNK_TO_MEM c \<noteq> 0" using mc by auto
  ultimately show ?thesis using b mc assms(5) unfolding fresh_block_def by simp
qed

lemma placed:
  assumes "os_places os lim" "alloc_ok bins lim k s B M" "mmap_at os (mmap_calls s) (maps s) len = Some base"
  shows "placed_at lim M base len"
proof -
  have m: "(c - 16, m + 16) \<in> set (maps s)" "unat (c - 16) + unat (m + 16) = unat c + unat m" "unat (c - 16) \<le> unat c" if "(c, m) \<in> M" for c m
  proof -
    have o: "mapped_one lim s c m" using assms(2) that by (auto simp: alloc_ok_def mapped_ok_def)
    then show "(c - 16, m + 16) \<in> set (maps s)" by (simp add: mapped_one_def)
    have "2 ^ 20 < unat c" using o assms(2) by (auto simp: mapped_one_def alloc_ok_def)
    then have "unat (c - 16) = unat c - 16" using unat_minus_le [of 16 c] by (simp add: word_le_nat_alt)
    moreover have "unat (m + 16) = unat m + 16" using o \<open>2 ^ 20 < unat c\<close> by (intro unat_add64 [of m 16, simplified]) (simp add: mapped_one_def)
    ultimately show "unat (c - 16) + unat (m + 16) = unat c + unat m" "unat (c - 16) \<le> unat c" using \<open>2 ^ 20 < unat c\<close> by simp_all
  qed
  have o: "4096 dvd unat base" "lim \<le> unat base" "unat base + unat len < 2 ^ 64"
    "(b, l) \<in> set (maps s) \<Longrightarrow> unat base + unat len \<le> unat b \<or> unat b + unat l \<le> unat base" for b l
    using assms(1,3) unfolding os_places_def by blast+
  have "unat base + unat len \<le> unat c \<or> unat c + unat m \<le> unat base" if "(c, m) \<in> M" for c m
    using o(4) [OF m(1) [OF that]] m(2,3) [OF that] by linarith
  then show ?thesis using o(1-3) by (auto simp: placed_at_def)
qed

text \<open>The laws of the contract.\<close>

lemma musl_alloc_law:
  assumes "musl_contract os bins lim (Suc k) s A"
  shows "\<exists>p s'. musl_malloc os bins z s = Some (Inr (p, s'))
    \<and> (p = 0 \<and> musl_contract os bins lim k s' A \<or> (\<exists>n. fresh_block A z p n \<and> musl_contract os bins lim k s' (insert (p, n) A)))"
proof -
  obtain B M where A: "A = mem_block ` (B \<union> M)" and a: "alloc_ok bins lim (Suc k) s B M" and os: "os_places os lim" "sbrk_ok os = (\<lambda>_ _. True)" "backed s"
    using assms by (auto simp: musl_contract_def)
  have keep: "musl_contract os bins lim k s' A" if "alloc_ok bins lim k s' B M" "backed s'" for s' using that A os by (auto simp: musl_contract_def)
  have new: "fresh_block A z (CHUNK_TO_MEM c) (n - OVERHEAD) \<and> musl_contract os bins lim k s' (insert (CHUNK_TO_MEM c, n - OVERHEAD) A)"
    if "alloc_ok bins lim k s' B' M'" "B' \<union> M' = insert (c, n) (B \<union> M)" "(c, n) \<notin> B \<union> M" "unat z + 16 \<le> unat n" "backed s'" for s' B' M' c n
  proof -
    have "fresh_block A z (CHUNK_TO_MEM c) (n - OVERHEAD)" unfolding A by (rule fresh_mem [OF that(1)]) (use that(2-4) in auto)
    moreover have "insert (CHUNK_TO_MEM c, n - OVERHEAD) A = mem_block ` (B' \<union> M')" using that(2) A by (simp add: mem_block_def)
    ultimately show ?thesis using that(1,5) os unfolding musl_contract_def by blast
  qed
  consider "adjust_size z = None" | n where "adjust_size z = Some n" "n \<le> MMAP_THRESHOLD" | n where "adjust_size z = Some n" "MMAP_THRESHOLD < n"
    by (metis not_le option.exhaust)
  then show ?thesis
  proof cases
    case 1
    then show ?thesis using malloc_failed [OF 1] keep [OF alloc_ok_weaken [OF a] os(3)] by auto
  next
    case (2 n)
    obtain c s' where m: "musl_malloc os bins z s = Some (Inr (CHUNK_TO_MEM c, s'))" "alloc_ok bins lim k s' (insert (c, n) B) M" "\<forall>m. (c, m) \<notin> B"
      and b: "backed s'" by (rule malloc_small [OF a 2 os(3), of os]) (simp_all add: os(2))
    have "(c, n) \<notin> M" using alloc_block(4,5) [OF m(2), of c n] by auto
    moreover have "unat z + 16 \<le> unat n" using adjust_size_spec(1,2) [OF 2(1)] unit_size_ge [of n] by auto
    ultimately show ?thesis using new [OF m(2), of c n] m(1,3) b by auto
  next
    case (3 n)
    show ?thesis
    proof (cases "mmap_at os (mmap_calls s) (maps s) (map_len n)")
      case None
      have "alloc_ok bins lim k (s\<lparr>mmap_calls := mmap_calls s + 1\<rparr>) B M"
        using alloc_ok_weaken [OF a] musl_ok_above [of bins s B "s\<lparr>mmap_calls := mmap_calls s + 1\<rparr>"]
          mapped_frame [of lim s M 0 "s\<lparr>mmap_calls := mmap_calls s + 1\<rparr>"]
        by (simp add: alloc_ok_def brk_of_def frame_def split: if_splits)
      moreover have "backed (s\<lparr>mmap_calls := mmap_calls s + 1\<rparr>)" using os(3) by (auto simp: backed_def brk_of_def split: if_splits)
      ultimately show ?thesis using malloc_large_result(1) [OF 3 None] keep by auto
    next
      case (Some base)
      obtain s' where m: "musl_malloc os bins z s = Some (Inr (CHUNK_TO_MEM (base + 16), s'))"
        "alloc_ok bins lim k s' B (insert (base + 16, map_len n - 16) M)" "\<forall>m. (base + 16, m) \<notin> M" "unat z \<le> unat (map_len n) - 32"
        by (rule malloc_large [OF alloc_ok_weaken [OF a] 3 Some placed [OF os(1) a Some]])
      have b: "backed s'" using os(3) m(1) malloc_large_result(2) [OF 3 Some, of bins] by (auto simp: backed_def brk_of_def)
      note l = map_len_spec(2) [OF adjust_size_bound [OF 3(1)]]
      have "32 \<le> unat n" using adjust_size_spec(1) [OF 3(1)] unit_size_ge by blast
      then have "unat z + 16 \<le> unat (map_len n - 16)" using m(4) l unat_minus_le [of 16 "map_len n"] by (simp add: word_le_nat_alt)
      moreover have "(base + 16, map_len n - 16) \<notin> B" using alloc_block(4,5) [OF m(2), of "base + 16" "map_len n - 16"] by auto
      ultimately show ?thesis using new [OF m(2), of "base + 16" "map_len n - 16"] m(1,3) b by auto
    qed
  qed
qed

lemma musl_release_law:
  assumes "musl_contract os bins lim k s A" "(p, n) \<in> A"
  shows "\<exists>s'. musl_free bins p s = Inr s' \<and> musl_contract os bins lim k s' (A - {(p, n)})"
proof -
  obtain B M where A: "A = mem_block ` (B \<union> M)" and a: "alloc_ok bins lim k s B M" and os: "os_places os lim" "sbrk_ok os = (\<lambda>_ _. True)" "backed s"
    using assms(1) by (auto simp: musl_contract_def)
  from assms(2) obtain c m where c: "(c, m) \<in> B \<union> M" "(p, n) = mem_block (c, m)" by (auto simp: A)
  have p: "p = CHUNK_TO_MEM c" using c(2) by (simp add: mem_block_def)
  have d: "A - {(p, n)} = mem_block ` (B \<union> M - {(c, m)})" unfolding A c(2) using image_set_diff [OF inj_mem_block, of "B \<union> M" "{(c, m)}"] by simp
  have "\<exists>s' B' M'. musl_free bins p s = Inr s' \<and> alloc_ok bins lim k s' B' M' \<and> backed s' \<and> B' \<union> M' = B \<union> M - {(c, m)}"
  proof (cases "(c, m) \<in> B")
    case True
    then have nm: "(c, m) \<notin> M" using alloc_block(4,5) [OF a c(1)] by auto
    obtain s' where "musl_free bins p s = Inr s'" "alloc_ok bins lim k s' (B - {(c, m)}) M" "os_part s' = os_part s"
      unfolding p by (rule free_heap [OF a True])
    moreover have "backed s'" using os(3) \<open>os_part s' = os_part s\<close> by (auto simp: backed_def brk_of_def os_part_def split: if_splits)
    moreover have "(B - {(c, m)}) \<union> M = B \<union> M - {(c, m)}" using nm by auto
    ultimately show ?thesis by blast
  next
    case False
    then have cm: "(c, m) \<in> M" using c(1) by simp
    obtain s' where "musl_free bins p s = Inr s'" "alloc_ok bins lim k s' B (M - {(c, m)})" "backed s'"
      unfolding p using free_mapped [OF a cm] os(3) by metis
    moreover have "B \<union> (M - {(c, m)}) = B \<union> M - {(c, m)}" using False by auto
    ultimately show ?thesis by blast
  qed
  then show ?thesis unfolding musl_contract_def d using os by metis
qed

interpretation musl: allocator "musl_contract os bins lim" "musl_malloc os bins" "musl_free bins" "musl_dump_bins bins"
  for os bins lim
proof
  show "\<exists>t. musl_dump_bins bins s = Some t" if "musl_contract os bins lim k s A" for k s A
    using that dump_returns by (auto simp: musl_contract_def alloc_ok_def)
  show "musl_free bins 0 s = Inr s" for s by (simp add: musl_free_def)
qed (fact musl_alloc_law musl_release_law)+

section \<open>The test program\<close>

text \<open>\<open>main\<close> of \<open>test-musl-malloc.c\<close>.\<close>

definition test_musl_main :: "os \<Rightarrow> u64 \<Rightarrow> (nat \<Rightarrow> u64) \<Rightarrow> mal \<Rightarrow> (cerr + string \<times> mal) option" where
  "test_musl_main os bins rnd s = test_main (musl_malloc os bins) (musl_free bins) (musl_dump_bins bins) rnd s"

text \<open>The allocator as the program starts: memory is zero, and the break lies above the data.\<close>

definition mal_init :: "u64 \<Rightarrow> mal" where
  "mal_init brk = \<lparr>psize = \<lambda>_. 0, csize = \<lambda>_. 0, nxt = \<lambda>_. 0, prv = \<lambda>_. 0, binmap = 0, stored_brk = 0, mmap_step = 0, heap_end = 0,
     allocated_bytes = 0, free_bytes = 0, heap_bytes = 0, free_block_bytes = 0, mmap_bytes = 0, reclaimed_bytes = 0,
     sys_brk = brk, maps = [], mmap_calls = 0, dropped = []\<rparr>"

lemma alloc_init:
  assumes "8 < unat bins" "unat bins + 1536 \<le> unat brk" "unat brk + 4096 + k * 2 ^ 18 + 2 ^ 20 \<le> lim" "lim < 2 ^ 63"
  shows "alloc_ok bins lim k (mal_init brk) {} {}"
proof -
  have b: "brk_of (mal_init brk) = align64_up brk (2 ^ 12)" by (simp add: brk_of_def mal_init_def PAGE_SIZE_def)
  from align64_up_least [of 12 brk] assms(3,4) have "unat brk \<le> unat (align64_up brk (2 ^ 12))" "unat (align64_up brk (2 ^ 12)) < unat brk + 4096" by simp_all
  moreover have "no_heap bins (mal_init brk)" using assms by (simp add: no_heap_def bins_placed_def bins_ok_def ring_def mal_init_def)
  ultimately show ?thesis using b assms(3,4) by (simp add: alloc_ok_def musl_ok_def mapped_ok_def mal_init_def)
qed

end
