(* ===== verification/Malloc_Props.thy ===== *)
theory Malloc_Props
  imports Malloc_Test
begin

text \<open>
  What the allocator of \<open>musl/oldmalloc.c\<close> guarantees and where it does not. The premises bound the
  addresses: the heap lies below \<open>lim\<close> and has room for \<open>k\<close> requests of up to 256 KiB; chunks
  with mappings of their own lie above \<open>lim\<close>.
\<close>

section \<open>Requests\<close>

definition roomy_os :: os where
  "roomy_os = \<lparr>sbrk_ok = \<lambda>_ _. True, mmap_at = \<lambda>i ms len. if ms = [] \<and> len \<le> 2 ^ 40 then Some (2 ^ 50) else None\<rparr>"

lemma roomy_os_places: "os_places roomy_os (2 ^ 40)"
  by (auto simp: os_places_def roomy_os_def word_le_nat_alt split: if_splits)

abbreviation start :: mal where
  "start \<equiv> mal_init 0x200000"

lemma start_ok: "k \<le> 2 ^ 20 \<Longrightarrow> alloc_ok 0x1000 (2 ^ 40) k start {} {}"
  by (rule alloc_init) simp_all

lemma start_backed: "backed start" "sbrk_ok roomy_os = (\<lambda>_ _. True)"
  by (simp_all add: backed_def brk_of_def mal_init_def roomy_os_def)

lemma start_block:
  obtains c s where "musl_malloc roomy_os 0x1000 100 start = Some (Inr (CHUNK_TO_MEM c, s))" "alloc_ok 0x1000 (2 ^ 40) 0 s {(c, 128)} {}"
proof -
  have "adjust_size 100 = Some 128" "(128::u64) \<le> MMAP_THRESHOLD" by code_simp+
  show ?thesis by (rule malloc_small [OF start_ok \<open>adjust_size 100 = Some 128\<close> \<open>128 \<le> MMAP_THRESHOLD\<close> start_backed(1), of 0 roomy_os])
    (use that start_backed(2) in auto)
qed

text \<open>C1. Where the kernel lets the break move by what the heap would have to grow, a request up to \<open>MMAP_THRESHOLD\<close> returns,
  with a block that is not null, aligned to 32 bytes, at least as long as the request and apart from every live block; the
  invariant holds with the new chunk, the heap again ends within the pages below the break, and the accounting
  grows by the size of the chunk. \<open>musl_malloc\<close> thereby neither loops, nor reads its table out of bounds, nor writes a header
  outside memory, nor aborts.\<close>

theorem malloc_serves:
  assumes "alloc_ok bins lim (Suc k) s B M" "adjust_size z = Some n" "n \<le> MMAP_THRESHOLD" "backed s"
    "sbrk_ok os (sys_brk s) (grow_size n)"
  shows "\<exists>c s'. musl_malloc os bins z s = Some (Inr (CHUNK_TO_MEM c, s')) \<and> alloc_ok bins lim k s' (insert (c, n) B) M \<and> backed s'
    \<and> fresh_block (mem_block ` (B \<union> M)) z (CHUNK_TO_MEM c) (n - OVERHEAD) \<and> allocated_bytes s' = allocated_bytes s + n"
proof -
  obtain c s' where m: "musl_malloc os bins z s = Some (Inr (CHUNK_TO_MEM c, s'))" "alloc_ok bins lim k s' (insert (c, n) B) M"
    "\<forall>m. (c, m) \<notin> B" "backed s'" by (rule malloc_small [OF assms])
  have "(c, n) \<notin> M" using alloc_block(4,5) [OF m(2), of c n] by auto
  moreover have "unat z + 16 \<le> unat n" using adjust_size_spec(1,2) [OF assms(2)] unit_size_ge [of n] by auto
  ultimately have "fresh_block (mem_block ` (B \<union> M)) z (CHUNK_TO_MEM c) (n - OVERHEAD)" using m(3) by (intro fresh_mem [OF m(2)]) auto
  moreover have "finite B" using musl_ok_facts(1) assms(1) by (auto simp: alloc_ok_def)
  then have "allocated_bytes s' = allocated_bytes s + n" using assms(1) m(2,3) by (simp add: alloc_ok_def algebra_simps)
  ultimately show ?thesis using m(1,2,4) by blast
qed

theorem malloc_serves_witness:
  "\<exists>c s'. musl_malloc roomy_os 0x1000 100 start = Some (Inr (CHUNK_TO_MEM c, s')) \<and> alloc_ok 0x1000 (2 ^ 40) 0 s' (insert (c, 128) {}) {} \<and> backed s'
    \<and> fresh_block (mem_block ` ({} \<union> {})) 100 (CHUNK_TO_MEM c) (128 - OVERHEAD) \<and> allocated_bytes s' = allocated_bytes start + 128"
proof (rule malloc_serves [OF start_ok])
  show "adjust_size 100 = Some 128" by code_simp
  show "(128::u64) \<le> MMAP_THRESHOLD" by code_simp
qed (simp_all add: start_backed)

text \<open>C2. Freeing a live block of the heap never aborts and removes exactly that block; its memory is part of one
  free chunk and the rest of the invariant stays, in particular that no two neighbouring chunks are free, that each free chunk is in
  the list of its bin and that the bitmap tells which lists are not empty.\<close>

theorem free_releases:
  assumes "alloc_ok bins lim k s B M" "(c, n) \<in> B"
  shows "\<exists>s'. musl_free bins (CHUNK_TO_MEM c) s = Inr s' \<and> alloc_ok bins lim k s' (B - {(c, n)}) M
    \<and> (\<exists>a cs L. heap_state bins s' (B - {(c, n)}) a cs L \<and> coalesced cs \<and> covers (frees a cs) c n)
    \<and> allocated_bytes s' = allocated_bytes s - n \<and> heap_end s' = heap_end s \<and> maps s' = maps s"
proof -
  obtain s' where f: "musl_free bins (CHUNK_TO_MEM c) s = Inr s'" "alloc_ok bins lim k s' (B - {(c, n)}) M" "os_part s' = os_part s"
    "\<exists>a cs L. heap_state bins s' (B - {(c, n)}) a cs L \<and> covers (frees a cs) c n"
    by (rule free_heap [OF assms])
  have h: "heap_end s' = heap_end s" "maps s' = maps s" using f(3) by (simp_all add: os_part_def)
  have "\<exists>a cs L. heap_state bins s' (B - {(c, n)}) a cs L \<and> coalesced cs \<and> covers (frees a cs) c n" using f(4) by (auto simp: heap_state_def)
  moreover have "finite B" using musl_ok_facts(1) assms(1) by (auto simp: alloc_ok_def)
  then have "allocated_bytes s' = allocated_bytes s - n" using assms f(2) by (simp add: alloc_ok_def sum_diff1)
  ultimately show ?thesis using f(1,2) h by blast
qed

theorem free_releases_witness:
  "\<exists>c s s'. musl_malloc roomy_os 0x1000 100 start = Some (Inr (CHUNK_TO_MEM c, s)) \<and> musl_free 0x1000 (CHUNK_TO_MEM c) s = Inr s'
    \<and> alloc_ok 0x1000 (2 ^ 40) 0 s' {} {}"
proof -
  obtain c s where m: "musl_malloc roomy_os 0x1000 100 start = Some (Inr (CHUNK_TO_MEM c, s))" "alloc_ok 0x1000 (2 ^ 40) 0 s {(c, 128)} {}"
    by (rule start_block)
  from free_releases [OF m(2), of c 128] m(1) show ?thesis by auto
qed

section \<open>Large requests\<close>

text \<open>C9. A larger request gets a mapping of its own, and freeing it unmaps exactly that mapping: the
  mappings and the byte counts are those of before, and no other block is touched.\<close>

theorem large_roundtrip:
  assumes "alloc_ok bins lim k s B M" "adjust_size z = Some n" "MMAP_THRESHOLD < n"
    "mmap_at os (mmap_calls s) (maps s) (map_len n) = Some base" "placed_at lim M base (map_len n)"
  shows "\<exists>s1 s2. musl_malloc os bins z s = Some (Inr (base + 32, s1)) \<and> maps s1 = (base, map_len n) # maps s
    \<and> fresh_block (mem_block ` (B \<union> M)) z (base + 32) (map_len n - 32)
    \<and> musl_free bins (base + 32) s1 = Inr s2 \<and> alloc_ok bins lim k s2 B M
    \<and> maps s2 = maps s \<and> mmap_bytes s2 = mmap_bytes s \<and> allocated_bytes s2 = allocated_bytes s"
proof -
  let ?c = "base + 16" and ?m = "map_len n - 16"
  obtain s1 where m: "musl_malloc os bins z s = Some (Inr (CHUNK_TO_MEM ?c, s1))" "alloc_ok bins lim k s1 B (insert (?c, ?m) M)"
    "\<forall>m. (?c, m) \<notin> M" "unat z \<le> unat (map_len n) - 32" by (rule malloc_large [OF assms])
  have s1: "maps s1 = (base, map_len n) # maps s" "mmap_bytes s1 = mmap_bytes s + map_len n"
    using malloc_large_result(2) [OF assms(2-4), of bins] m(1) by auto
  obtain s2 where f: "musl_free bins (CHUNK_TO_MEM ?c) s1 = Inr s2" "alloc_ok bins lim k s2 B (insert (?c, ?m) M - {(?c, ?m)})"
    "maps s2 = remove1 (?c - 16, ?m + 16) (maps s1)" "mmap_bytes s2 = mmap_bytes s1 - (?m + 16)"
    by (rule free_mapped [OF m(2) insertI1])
  have M: "insert (?c, ?m) M - {(?c, ?m)} = M" using m(3) by auto
  have "(?c, ?m) \<notin> B" using alloc_block(4,5) [OF m(2), of ?c ?m] by auto
  moreover have "unat z + 16 \<le> unat ?m" using m(4) map_len_spec(2) [OF adjust_size_bound [OF assms(2)]] unat_minus_le [of 16 "map_len n"]
      adjust_size_spec(1) [OF assms(2)] unit_size_ge [of n] by (simp add: word_le_nat_alt)
  ultimately have "fresh_block (mem_block ` (B \<union> M)) z (CHUNK_TO_MEM ?c) (?m - OVERHEAD)" using m(3) by (intro fresh_mem [OF m(2)]) auto
  moreover have "?m - OVERHEAD = map_len n - 32" "CHUNK_TO_MEM ?c = base + 32" by (simp_all add: OVERHEAD_def CHUNK_TO_MEM_def)
  moreover have "allocated_bytes s2 = allocated_bytes s" using f(2) assms(1) unfolding M by (simp add: alloc_ok_def)
  ultimately show ?thesis using m(1) s1 f unfolding M by simp
qed

theorem large_roundtrip_witness:
  "\<exists>s1 s2. musl_malloc roomy_os 0x1000 1000000 start = Some (Inr (2 ^ 50 + 32, s1)) \<and> maps s1 = (2 ^ 50, map_len 1000032) # maps start
    \<and> fresh_block (mem_block ` ({} \<union> {})) 1000000 (2 ^ 50 + 32) (map_len 1000032 - 32)
    \<and> musl_free 0x1000 (2 ^ 50 + 32) s1 = Inr s2 \<and> alloc_ok 0x1000 (2 ^ 40) 0 s2 {} {}
    \<and> maps s2 = maps start \<and> mmap_bytes s2 = mmap_bytes start \<and> allocated_bytes s2 = allocated_bytes start"
proof (rule large_roundtrip [OF start_ok])
  show "adjust_size 1000000 = Some 1000032" by code_simp
  show "MMAP_THRESHOLD < 1000032" by code_simp
  have "map_len 1000032 = 1003520" by code_simp
  then show "mmap_at roomy_os (mmap_calls start) (maps start) (map_len 1000032) = Some (2 ^ 50)" "placed_at (2 ^ 40) {} (2 ^ 50) (map_len 1000032)"
    by (simp_all add: roomy_os_def mal_init_def placed_at_def)
qed simp

section \<open>The search for a free chunk\<close>

text \<open>C10. The loop of \<open>musl_malloc\<close> over the bins ends in every state of the invariant: it finds the first
  chunk of a bin at or above the one asked for exactly when one of these bins is not empty.\<close>

theorem search_terminates:
  assumes "heap_ok bins s a cs L" "i < 64"
  shows "\<exists>r s'. search_bins bins (mask_high_bits (binmap s) (of_nat i)) s = Some (r, s')
    \<and> (case r of None \<Rightarrow> mask_high_bits (binmap s) (of_nat i) = 0 | Some c \<Rightarrow> (\<exists>j m. i \<le> j \<and> j < 64 \<and> c = hd (L j) \<and> (c, m) \<in> frees a cs \<and> bin_index m = j))"
proof (cases "mask_high_bits (binmap s) (of_nat i) = 0")
  case True
  then show ?thesis using search_bins_result(1) [OF assms] by auto
next
  case False
  from search_bins_result(2) [OF assms this] obtain j where j: "i \<le> j" "j < 64" "L j \<noteq> []"
    "search_bins bins (mask_high_bits (binmap s) (of_nat i)) s = Some (Some (hd (L j)), unbin (hd (L j)) j (lock_bin bins j s))" by auto
  have "\<exists>m. (hd (L j), m) \<in> frees a cs \<and> bin_index m = j" using assms(1) j(2,3) hd_in_set [OF j(3)] by (force simp: heap_ok_def free_ok_def)
  then show ?thesis using j by auto
qed

lemma start_heap:
  obtains s c a cs L where "heap_state 0x1000 s {(c, 128)} a cs L"
  using start_block by (metis alloc_ok_def musl_ok_def insert_not_empty)

theorem search_terminates_witness:
  "\<exists>s a cs L r s'. heap_ok 0x1000 s a cs L \<and> search_bins 0x1000 (mask_high_bits (binmap s) (of_nat 3)) s = Some (r, s')"
proof -
  obtain s c a cs L where h: "heap_state 0x1000 s {(c, 128)} a cs L" by (rule start_heap)
  then have "heap_ok 0x1000 s a cs L" by (simp add: heap_state_def)
  from this search_terminates [OF this, of 3] show ?thesis by auto
qed

text \<open>C11. A chunk in a bin at or above the rounded index of a request is large enough: \<open>bin_index_up\<close> never
  leads to a chunk that is too small, and its table accesses stay in bounds for every request up to the threshold.\<close>

theorem bin_fit:
  assumes "unit_size n" "n \<le> MMAP_THRESHOLD"
  shows "\<exists>i<64. bin_index_up n = Inr i \<and> (\<forall>m. unit_size m \<and> i \<le> bin_index m \<longrightarrow> n \<le> m)"
proof -
  have n: "32 \<le> unat n" "unat n \<le> 7168 * 32" using unit_size_ge [OF assms(1)] assms(2) by (simp_all add: MMAP_THRESHOLD_def SIZE_ALIGN_def word_le_nat_alt)
  then have "upidx (unat n div 32 - 1) < 64" by (intro upidx_less) linarith
  then show ?thesis using bin_index_up_upidx [OF n] fits_bin [OF assms(1)] by (auto simp: word_le_nat_alt)
qed

theorem bin_fit_witness: "\<exists>i<64. bin_index_up 4000 = Inr i \<and> (\<forall>m. unit_size m \<and> i \<le> bin_index m \<longrightarrow> 4000 \<le> m)"
proof (rule bin_fit)
  show "unit_size 4000" by (simp add: unit_size_def)
  show "(4000::u64) \<le> MMAP_THRESHOLD" by code_simp
qed

section \<open>Double free\<close>

text \<open>Freeing the memory of a chunk that is free aborts, and nothing is changed: the header of the chunk
  lost its mark, so the chunk is taken for one with a mapping of its own, and as its predecessor is in use the
  length before it is odd.\<close>

theorem double_free_aborts:
  assumes "heap_state bins s B a cs L" "(c, n) \<in> frees a cs"
  shows "musl_free bins (CHUNK_TO_MEM c) s = Inl Abort"
proof -
  have "heap_ok bins s a cs L" "coalesced cs" using assms(1) by (auto simp: heap_state_def)
  then have ch: "chain_ok s a cs" "coalesced cs" by (auto simp: heap_ok_def)
  have m: "(c, n, True) \<in> set (blocks a cs)" using assms(2) by (auto simp: frees_def)
  then obtain xs ys where c: "cs = xs @ (n, True) # ys" "c = fin a xs" using blocks_split by blast
  note h = chain_header [OF ch(1) [unfolded c(1)]]
  note he = heap_state_end(4) [OF assms(1)]
  have w: "wfc a xs" using wfc_append he c(1) by blast
  have odd: "ltag 1 xs AND 1 \<noteq> 0"
  proof
    assume "ltag 1 xs AND 1 = 0"
    then obtain ys' p where "xs = ys' @ [(p, True)]" using ltag_free [OF w] by (auto simp: C_INUSE_def)
    then show False using ch(2) c(1) by (simp add: coalesced_split coalesced_Cons)
  qed
  have "csize s c AND C_INUSE = 0" using h(1,6) tag_free [of n True] c(2) by simp
  moreover have "psize s c AND 1 \<noteq> 0" using h(2) odd c(2) by simp
  moreover have "CHUNK_TO_MEM c \<noteq> 0"
    using blocks_range(2) [OF he m] he unat_fin [OF he] by (intro chunk_not_null) (simp add: wfc_def)
  ultimately show ?thesis by (simp add: musl_free_def IS_MMAPPED_def unmap_chunk_def Let_def)
qed

theorem double_free_aborts_witness:
  "\<exists>s B a cs L c n. heap_state 0x1000 s B a cs L \<and> (c, n) \<in> frees a cs \<and> musl_free 0x1000 (CHUNK_TO_MEM c) s = Inl Abort"
proof -
  obtain c s where a: "alloc_ok 0x1000 (2 ^ 40) 0 s {(c, 128)} {}" by (rule start_block)
  obtain s' a' cs L where h: "heap_state 0x1000 s' ({(c, 128)} - {(c, 128)}) a' cs L" "covers (frees a' cs) c 128"
    by (rule free_heap [OF a singletonI]) blast
  then obtain d m where "(d, m) \<in> frees a' cs" by (auto simp: covers_def)
  with h(1) double_free_aborts [OF h(1) this] show ?thesis by blast
qed

section \<open>Memory from the kernel\<close>



text \<open>When the kernel refuses the increase, \<open>sbrk\<close> returns -1, which as a pointer is not less than 0: the heap is taken
  to have grown all the same, the fallback to a mapping is not reached, and the first header that is written beyond the
  break ends the program. \<open>far\<close> says that no mapping was placed right behind the break.\<close>

lemma header_not_mapped:
  assumes "unat (align64_up (sys_brk s) PAGE_SIZE) < unat c + 16" "\<forall>(b, l)\<in>set (maps s). unat c < unat b"
  shows "\<not> header_mapped c s"
  using assms by (fastforce simp: header_mapped_def)

theorem sbrk_failure_unnoticed:
  assumes "backed s" "brk_of s \<noteq> 0" "unat (brk_of s) + 2 ^ 20 < 2 ^ 63" "n \<le> MMAP_THRESHOLD" "\<not> sbrk_ok os (sys_brk s) (grow_size n)"
    and far: "\<forall>(b, l)\<in>set (maps s). unat (brk_of s) + 2 ^ 20 \<le> unat b"
  shows "expand_heap os n s = Inl BufferOverflow"
proof -
  have n: "unat n \<le> 7168 * 32" using assms(4) by (simp add: MMAP_THRESHOLD_def SIZE_ALIGN_def word_le_nat_alt)
  note g = grow_size_spec [OF n]
  let ?p = "brk_of s"
  have b: "align64_up (sys_brk s) PAGE_SIZE = ?p" using assms(1) by (simp add: backed_def)
  have u: "unat (?p + 16) = unat ?p + 16" "unat (?p + grow_size n) = unat ?p + unat (grow_size n)"
    using assms(3) g(3) unat_add64 [of ?p 16] unat_add64 [of ?p "grow_size n"] by simp_all
  have "16 \<le> ?p + grow_size n" using u(2) g(2) by (simp add: word_le_nat_alt)
  then have "unat (?p + grow_size n - 16) = unat ?p + unat (grow_size n) - 16" using u(2) unat_minus_le [of 16 "?p + grow_size n"] by simp
  moreover have "\<not> header_mapped c t" if "sys_brk t = sys_brk s" "maps t = maps s" "unat ?p < unat c + 16" "unat c < unat ?p + 2 ^ 20" for c t
    by (rule header_not_mapped) (use that b far in force)+
  ultimately have "\<not> header_mapped (?p + 16) t" "\<not> header_mapped (?p + grow_size n - 16) t" if "sys_brk t = sys_brk s" "maps t = maps s" for t
    using that u g(2,3) by simp_all
  then show ?thesis using assms(2,5) expand_heap_os_result [OF n assms(3,2), of os]
    by (auto simp: expand_heap_def heap_sentinel_def store_psize_def SIZE_ALIGN_def OVERHEAD_def MEM_TO_CHUNK_def Let_def add.commute)
qed

theorem sbrk_failure_unnoticed_witness: "expand_heap (roomy_os\<lparr>sbrk_ok := \<lambda>_ _. False\<rparr>) 128 start = Inl BufferOverflow"
proof (rule sbrk_failure_unnoticed [OF start_backed(1)])
  have "brk_of start = 0x200000" by (simp add: brk_of_def mal_init_def) code_simp
  then show "brk_of start \<noteq> 0" "unat (brk_of start) + 2 ^ 20 < 2 ^ 63" by simp_all
  show "(128::u64) \<le> MMAP_THRESHOLD" by code_simp
qed (simp_all add: mal_init_def)

section \<open>The test program\<close>

text \<open>C3. The program of \<open>test-musl-malloc.c\<close>, started on zeroed memory with any results of \<open>rand\<close> and a kernel
  that lets the break move, whatever it does with mappings, returns with every
  block it allocated freed and no byte accounted as allocated; none of its calls aborts, loops or writes a header outside memory. Its proof uses only the contract
  of an allocator, which the model of \<open>oldmalloc.c\<close> fulfils.\<close>

theorem test_musl_main_returns:
  assumes "os_places os lim" "8 < unat bins" "unat bins + 1536 \<le> unat brk" "unat brk + 2 ^ 23 \<le> lim" "lim < 2 ^ 63"
    "sbrk_ok os = (\<lambda>_ _. True)"
  shows "\<exists>t s'. test_musl_main os bins rnd (mal_init brk) = Some (Inr (t, s')) \<and> alloc_ok bins lim 0 s' {} {} \<and> allocated_bytes s' = 0"
proof -
  have "alloc_ok bins lim (NUM_ALLOCS + 0) (mal_init brk) {} {}"
    using assms by (intro alloc_init) (simp_all add: NUM_ALLOCS_def MAX_ORDER_def MIN_ORDER_def)
  then have "musl_contract os bins lim (NUM_ALLOCS + 0) (mal_init brk) {}" using assms(1,6)
    by (auto simp: musl_contract_def backed_def brk_of_def mal_init_def)
  from musl.test_main_ok [OF this, of rnd] obtain t s' where
    r: "test_musl_main os bins rnd (mal_init brk) = Some (Inr (t, s'))" "musl_contract os bins lim 0 s' {}" by (auto simp: test_musl_main_def)
  then have "alloc_ok bins lim 0 s' {} {}" by (auto simp: musl_contract_def)
  then show ?thesis using r(1) by (auto simp: alloc_ok_def)
qed

theorem test_musl_main_returns_witness:
  "\<exists>t s'. test_musl_main roomy_os 0x1000 (\<lambda>i. of_nat i) (mal_init 0x200000) = Some (Inr (t, s')) \<and> alloc_ok 0x1000 (2 ^ 40) 0 s' {} {} \<and> allocated_bytes s' = 0"
  by (rule test_musl_main_returns [OF roomy_os_places]) (simp_all add: roomy_os_def)

end
