(* ===== verification/Vm_Prog.thy ===== *)
theory Vm_Prog
  imports MM_Prelude
begin

text \<open>
  Programs that drive the kernel's memory management through system calls. A program is a tree of
  the calls it makes: a leaf is its result or its exit status, a node is a call with the
  continuation that takes the answer. The kernel is an interface, the locale \<open>vm_kernel\<close>: what it
  promises of the pages of a process after each call. The programs are verified against the
  interface, which is interpreted on an executable kernel at the end of the theory.
\<close>

section \<open>Calls\<close>

datatype prot = PROT_READ | PROT_WRITE | PROT_EXEC

datatype map_flag = MAP_PRIVATE | MAP_SHARED | MAP_ANON | MAP_FIXED | MAP_NORESERVE | MAP_POPULATE | MAP_GROWSDOWN

datatype mremap_flag = MREMAP_MAYMOVE | MREMAP_FIXED | MREMAP_DONTUNMAP | MREMAP_RELOCATE_ANON
  | MREMAP_MUST_RELOCATE_ANON

datatype madvice = MADV_NORMAL | MADV_DONTNEED | MADV_NOHUGEPAGE | MADV_PAGEOUT

text \<open>
  The system calls, with the loads and stores of bytes, which may fault, and the operations of the C library
  that reach outside the process. \<open>PROT_NONE\<close> is the empty list of protections. The answer is a
  triple: the return value (pointers and negative results as 64-bit words) and, for
  \<open>PROCMAP_QUERY\<close>, the bounds of the mapping, for \<open>clock_gettime\<close> the seconds and nanoseconds.
\<close>

datatype sys =
    SMmap u64 u64 "prot list" "map_flag list"
  | SMunmap u64 u64
  | SMremap u64 u64 u64 "mremap_flag list" u64
  | SMprotect u64 u64 "prot list"
  | SMadvise u64 u64 madvice
  | SStore u64 char
  | SFill u64 u64 char
  | SLoad u64
  | SClock
  | SPuts string
  | SKmsg string
  | SSystem string
  | SGetchar
  | SOpen string
  | SClose u64
  | SQuery u64 u64

type_synonym resp = "u64 \<times> u64 \<times> u64"

definition MAP_FAILED :: u64 where
  "MAP_FAILED = - 1"

section \<open>Programs\<close>

datatype 'a prog = Return 'a | Quit int | Sys sys "resp \<Rightarrow> 'a prog"

primrec bnd :: "'a prog \<Rightarrow> ('a \<Rightarrow> 'b prog) \<Rightarrow> 'b prog" where
  "bnd (Return x) f = f x"
| "bnd (Quit c) f = Quit c"
| "bnd (Sys q g) f = Sys q (\<lambda>r. bnd (g r) f)"

definition call :: "sys \<Rightarrow> u64 prog" where
  "call q = Sys q (\<lambda>r. Return (fst r))"

definition fatal :: "'a prog" where
  "fatal = Quit 1"

definition seq :: "'a prog \<Rightarrow> 'b prog \<Rightarrow> 'b prog" where
  "seq m p = bnd m (\<lambda>_. p)"

fun seqs :: "unit prog list \<Rightarrow> unit prog" where
  "seqs [] = Return ()"
| "seqs (m # ms) = seq m (seqs ms)"

definition whenever :: "bool \<Rightarrow> unit prog \<Rightarrow> unit prog" where
  "whenever b m = (if b then m else Return ())"

text \<open>\<open>mmap\<close> followed by the test for \<open>MAP_FAILED\<close> that ends the program.\<close>

definition mmap_or_exit :: "u64 \<Rightarrow> u64 \<Rightarrow> prot list \<Rightarrow> map_flag list \<Rightarrow> u64 prog" where
  "mmap_or_exit a len pr fl =
     bnd (call (SMmap a len pr fl)) (\<lambda>p. if p = MAP_FAILED then fatal else Return p)"

definition check0 :: "sys \<Rightarrow> unit prog" where
  "check0 q = bnd (call q) (\<lambda>r. if r \<noteq> 0 then fatal else Return ())"

definition ignore :: "sys \<Rightarrow> unit prog" where
  "ignore q = bnd (call q) (\<lambda>_. Return ())"

lemma bnd_assoc: "bnd (bnd m f) g = bnd m (\<lambda>x. bnd (f x) g)"
  by (induction m) simp_all

lemma seq_assoc: "seq (seq a b) c = seq a (seq b c)"
  by (simp add: seq_def bnd_assoc)

lemma seqs_append: "seqs (xs @ ys) = seq (seqs xs) (seqs ys)"
  by (induction xs) (simp_all add: seq_assoc, simp add: seq_def)

lemma bnd_Return [simp]: "bnd m Return = m"
  by (induction m) simp_all

datatype 'a outcome = Done 'a | Exited int | Killed

text \<open>A kernel answers a call with its next state and the answer; \<open>None\<close> is a fatal signal.\<close>

type_synonym 'k kernel = "'k \<Rightarrow> sys \<Rightarrow> ('k \<times> resp) option"

primrec run :: "'k kernel \<Rightarrow> 'a prog \<Rightarrow> 'k \<Rightarrow> 'a outcome \<times> 'k" where
  "run step (Return x) = (\<lambda>k. (Done x, k))"
| "run step (Quit c) = (\<lambda>k. (Exited c, k))"
| "run step (Sys q g) = (\<lambda>k. case step k q of None \<Rightarrow> (Killed, k) | Some (k', r) \<Rightarrow> run step (g r) k')"

lemma run_bnd: "run step (bnd m f) k = (case run step m k of
    (Done x, k') \<Rightarrow> run step (f x) k' | (Exited c, k') \<Rightarrow> (Exited c, k') | (Killed, k') \<Rightarrow> (Killed, k'))"
  by (induction m arbitrary: k) (auto split: option.splits)

lemma run_bnd_Done: "run step m k = (Done x, k') \<Longrightarrow> run step (bnd m f) k = run step (f x) k'"
  by (simp add: run_bnd)

lemma run_seq: "run step m k = (Done x, k') \<Longrightarrow> run step (seq m p) k = run step p k'"
  by (simp add: seq_def run_bnd)

lemma run_call: "step k q = Some (k', r) \<Longrightarrow> run step (call q) k = (Done (fst r), k')"
  by (simp add: call_def)

lemma run_check0: "step k q = Some (k', (0, x)) \<Longrightarrow> run step (check0 q) k = (Done (), k')"
  by (simp add: check0_def run_bnd run_call)

lemma run_ignore: "step k q = Some (k', r) \<Longrightarrow> run step (ignore q) k = (Done (), k')"
  by (simp add: ignore_def run_bnd run_call)

lemma run_mmap_or_exit:
  "step k (SMmap a len pr fl) = Some (k', (p, x)) \<Longrightarrow>
     run step (mmap_or_exit a len pr fl) k = (if p = MAP_FAILED then (Exited 1, k') else (Done p, k'))"
  by (simp add: mmap_or_exit_def run_bnd run_call fatal_def)

section \<open>Pages\<close>

record page =
  p_prot :: "prot list"
  p_pop :: bool

type_synonym pages = "u64 \<Rightarrow> page option"

definition page_addr :: "u64 \<Rightarrow> u64 \<Rightarrow> bool" where
  "page_addr psz a \<longleftrightarrow> (\<exists>j. a = of_nat j * psz)"

text \<open>The pages of a range, by index: \<open>&ptr[i * page_size]\<close>.\<close>

definition pg_at :: "u64 \<Rightarrow> u64 \<Rightarrow> nat \<Rightarrow> u64" where
  "pg_at psz base i = base + of_nat i * psz"

definition in_pages :: "u64 \<Rightarrow> u64 \<Rightarrow> nat \<Rightarrow> u64 \<Rightarrow> bool" where
  "in_pages psz a n p \<longleftrightarrow> list_ex (\<lambda>i. p = pg_at psz a i) [0..<n]"

lemma in_pages_iff: "in_pages psz a n p \<longleftrightarrow> (\<exists>i<n. p = pg_at psz a i)"
  by (auto simp: in_pages_def list_ex_iff)

text \<open>What the calls do to the pages.\<close>

definition map_pages :: "u64 \<Rightarrow> u64 \<Rightarrow> nat \<Rightarrow> page option \<Rightarrow> pages \<Rightarrow> pages" where
  "map_pages psz a n pg m = (\<lambda>p. if in_pages psz a n p then pg else m p)"

definition protect_pages :: "u64 \<Rightarrow> u64 \<Rightarrow> nat \<Rightarrow> prot list \<Rightarrow> pages \<Rightarrow> pages" where
  "protect_pages psz a n pr m =
     (\<lambda>p. if in_pages psz a n p then map_option (p_prot_update (\<lambda>_. pr)) (m p) else m p)"

definition move_pages :: "u64 \<Rightarrow> u64 \<Rightarrow> u64 \<Rightarrow> nat \<Rightarrow> bool \<Rightarrow> pages \<Rightarrow> pages" where
  "move_pages psz a b n dont_unmap m =
     (\<lambda>p. if in_pages psz b n p then m (p - b + a)
          else if in_pages psz a n p
          then (if dont_unmap then map_option (p_pop_update (\<lambda>_. False)) (m p) else None)
          else m p)"

definition grow_pages :: "u64 \<Rightarrow> u64 \<Rightarrow> nat \<Rightarrow> nat \<Rightarrow> pages \<Rightarrow> pages" where
  "grow_pages psz a n n' m =
     (\<lambda>p. if in_pages psz a n' p \<and> \<not> in_pages psz a n p
          then map_option (p_pop_update (\<lambda>_. False)) (m a) else m p)"

definition touch_page :: "u64 \<Rightarrow> pages \<Rightarrow> pages" where
  "touch_page a m = m(a := map_option (p_pop_update (\<lambda>_. True)) (m a))"

text \<open>All pages of a range are mapped with one protection.\<close>

definition uniform :: "u64 \<Rightarrow> u64 \<Rightarrow> nat \<Rightarrow> pages \<Rightarrow> bool" where
  "uniform psz a n m \<longleftrightarrow> list_all (\<lambda>i. m (pg_at psz a i) \<noteq> None
     \<and> map_option p_prot (m (pg_at psz a i)) = map_option p_prot (m a)) [0..<n]"

definition mapped :: "u64 \<Rightarrow> u64 \<Rightarrow> nat \<Rightarrow> pages \<Rightarrow> bool" where
  "mapped psz a n m \<longleftrightarrow> list_all (\<lambda>i. m (pg_at psz a i) \<noteq> None) [0..<n]"

definition unmapped :: "u64 \<Rightarrow> u64 \<Rightarrow> nat \<Rightarrow> pages \<Rightarrow> bool" where
  "unmapped psz a n m \<longleftrightarrow> list_all (\<lambda>i. m (pg_at psz a i) = None) [0..<n]"

definition apart :: "u64 \<Rightarrow> u64 \<Rightarrow> u64 \<Rightarrow> nat \<Rightarrow> bool" where
  "apart psz a b n \<longleftrightarrow> list_all (\<lambda>i. \<not> in_pages psz b n (pg_at psz a i)) [0..<n]"

definition fits :: "u64 \<Rightarrow> nat \<Rightarrow> bool" where
  "fits psz n \<longleftrightarrow> 0 < n \<and> n * unat psz < 2 ^ 64"

definition new_page :: "prot list \<Rightarrow> map_flag list \<Rightarrow> page" where
  "new_page pr fl = \<lparr>p_prot = pr, p_pop = (MAP_POPULATE \<in> set fl)\<rparr>"

section \<open>The interface\<close>

locale vm_kernel =
  fixes step :: "'k kernel" and page_at :: "'k \<Rightarrow> pages" and psz :: u64
  assumes psz_pos: "0 < psz"
  assumes mmap_fixed: "\<lbrakk>MAP_FIXED \<in> set fl; MAP_ANON \<in> set fl; fits psz n; page_addr psz a; a \<noteq> MAP_FAILED\<rbrakk> \<Longrightarrow>
    \<exists>k'. step k (SMmap a (of_nat n * psz) pr fl) = Some (k', (a, 0, 0))
      \<and> page_at k' = map_pages psz a n (Some (new_page pr fl)) (page_at k)"
  assumes mmap_anywhere: "\<lbrakk>MAP_FIXED \<notin> set fl; MAP_ANON \<in> set fl; fits psz n\<rbrakk> \<Longrightarrow>
    (\<exists>k'. step k (SMmap 0 (of_nat n * psz) pr fl) = Some (k', (MAP_FAILED, 0, 0)) \<and> page_at k' = page_at k)
    \<or> (\<exists>k' a. step k (SMmap 0 (of_nat n * psz) pr fl) = Some (k', (a, 0, 0))
      \<and> a \<noteq> MAP_FAILED \<and> page_addr psz a \<and> unat a + n * unat psz < 2 ^ 64 \<and> unmapped psz a n (page_at k)
      \<and> page_at k' = map_pages psz a n (Some (new_page pr fl)) (page_at k))"
  assumes munmap: "\<lbrakk>fits psz n; page_addr psz a\<rbrakk> \<Longrightarrow>
    \<exists>k'. step k (SMunmap a (of_nat n * psz)) = Some (k', (0, 0, 0))
      \<and> page_at k' = map_pages psz a n None (page_at k)"
  assumes mprotect: "\<lbrakk>fits psz n; page_addr psz a; mapped psz a n (page_at k)\<rbrakk> \<Longrightarrow>
    \<exists>k'. step k (SMprotect a (of_nat n * psz) pr) = Some (k', (0, 0, 0))
      \<and> page_at k' = protect_pages psz a n pr (page_at k)"
  assumes mremap_move: "\<lbrakk>MREMAP_FIXED \<in> set rf; MREMAP_MAYMOVE \<in> set rf; fits psz n; page_addr psz a; page_addr psz b;
      b \<noteq> MAP_FAILED; uniform psz a n (page_at k); apart psz a b n\<rbrakk> \<Longrightarrow>
    \<exists>k'. step k (SMremap a (of_nat n * psz) (of_nat n * psz) rf b) = Some (k', (b, 0, 0))
      \<and> page_at k' = move_pages psz a b n (MREMAP_DONTUNMAP \<in> set rf) (page_at k)"
  assumes mremap_grow: "\<lbrakk>n \<le> n'; fits psz n; fits psz n'; page_addr psz a; a \<noteq> MAP_FAILED; uniform psz a n (page_at k);
      unmapped psz (pg_at psz a n) (n' - n) (page_at k)\<rbrakk> \<Longrightarrow>
    \<exists>k'. step k (SMremap a (of_nat n * psz) (of_nat n' * psz) [] 0) = Some (k', (a, 0, 0))
      \<and> page_at k' = grow_pages psz a n n' (page_at k)"
  assumes store: "\<lbrakk>page_addr psz a; page_at k a = Some pg; PROT_WRITE \<in> set (p_prot pg)\<rbrakk> \<Longrightarrow>
    \<exists>k' r. step k (SStore a c) = Some (k', r) \<and> page_at k' = touch_page a (page_at k)"
  assumes advise: "\<exists>k' r. step k (SMadvise a len MADV_NORMAL) = Some (k', r) \<and> page_at k' = page_at k"

text \<open>The operations of the C library that do not touch the pages.\<close>

definition harmless :: "sys \<Rightarrow> bool" where
  "harmless q = (case q of SPuts _ \<Rightarrow> True | SSystem _ \<Rightarrow> True | SGetchar \<Rightarrow> True | SKmsg _ \<Rightarrow> True | SClock \<Rightarrow> True
     | SOpen _ \<Rightarrow> True | SClose _ \<Rightarrow> True | SQuery _ _ \<Rightarrow> True | _ \<Rightarrow> False)"

locale tool_kernel = vm_kernel +
  assumes harmless_step: "harmless q \<Longrightarrow> \<exists>k' r. step k q = Some (k', r) \<and> page_at k' = page_at k"
  assumes kmsg_ok: "\<exists>k'. step k (SKmsg s) = Some (k', (0, 0, 0)) \<and> page_at k' = page_at k"

section \<open>Layouts\<close>

text \<open>A layout lists the pages of a range of \<open>N\<close> pages from its first address; the operations on layouts
  are the abstract counterparts of those on pages.\<close>

type_synonym layout = "page option list"

definition layout :: "u64 \<Rightarrow> pages \<Rightarrow> u64 \<Rightarrow> nat \<Rightarrow> layout" where
  "layout psz m base N = map (\<lambda>i. m (pg_at psz base i)) [0..<N]"

definition lput :: "nat \<Rightarrow> nat \<Rightarrow> (nat \<Rightarrow> page option) \<Rightarrow> layout \<Rightarrow> layout" where
  "lput off n f L = map (\<lambda>i. if off \<le> i \<and> i < off + n then f i else L ! i) [0..<length L]"

definition lmove :: "nat \<Rightarrow> nat \<Rightarrow> nat \<Rightarrow> layout \<Rightarrow> layout" where
  "lmove off off' n L = lput off' n (\<lambda>i. L ! (i - off' + off)) (lput off n (\<lambda>_. None) L)"

lemma length_layout [simp]: "length (layout psz m base N) = N"
  by (simp add: layout_def)

lemma length_lput [simp]: "length (lput off n f L) = length L"
  by (simp add: lput_def)

lemma nth_layout [simp]: "i < N \<Longrightarrow> layout psz m base N ! i = m (pg_at psz base i)"
  by (simp add: layout_def)

lemma nth_lput [simp]: "i < length L \<Longrightarrow> lput off n f L ! i = (if off \<le> i \<and> i < off + n then f i else L ! i)"
  by (simp add: lput_def)

lemma layout_eqI: "(\<And>i. i < N \<Longrightarrow> m (pg_at psz base i) = L ! i) \<Longrightarrow> length L = N \<Longrightarrow> layout psz m base N = L"
  by (rule nth_equalityI) simp_all

lemma unat_index:
  assumes "fits psz N" "i < N"
  shows "unat (of_nat i * psz) = i * unat psz"
proof -
  have "i * unat psz \<le> N * unat psz" using assms(2) by simp
  moreover have "N * unat psz < 2 ^ 64" using assms(1) by (simp add: fits_def)
  ultimately have "i * unat psz < 2 ^ 64" by (rule le_less_trans)
  then show ?thesis
    by (simp add: unat_word_ariths unat_of_nat mod_mult_left_eq)
qed

lemma pg_at_inj:
  assumes "fits psz N" "0 < psz" "i < N" "j < N"
  shows "pg_at psz base i = pg_at psz base j \<longleftrightarrow> i = j"
proof
  assume "pg_at psz base i = pg_at psz base j"
  then have "unat (of_nat i * psz) = unat (of_nat j * psz)" by (simp add: pg_at_def)
  then have "i * unat psz = j * unat psz" using unat_index assms by metis
  then show "i = j" using assms(2) by (simp add: word_less_nat_alt)
qed simp

lemma pg_at_0 [simp]: "pg_at psz a 0 = a"
  by (simp add: pg_at_def)

lemma pg_at_pg_at [simp]: "pg_at psz (pg_at psz a i) j = pg_at psz a (i + j)"
  by (simp add: pg_at_def algebra_simps)

lemma pg_at_shift: "off' \<le> i \<Longrightarrow> pg_at psz a i - pg_at psz a off' + pg_at psz b off = pg_at psz b (i - off' + off)"
  by (simp add: pg_at_def of_nat_diff algebra_simps)

lemma page_addr_pg_at: "page_addr psz a \<Longrightarrow> page_addr psz (pg_at psz a i)"
  unfolding page_addr_def pg_at_def by (metis distrib_right of_nat_add)

lemma in_pages_index:
  assumes "fits psz N" "0 < psz" "i < N" "off + n \<le> N"
  shows "in_pages psz (pg_at psz base off) n (pg_at psz base i) \<longleftrightarrow> off \<le> i \<and> i < off + n"
proof
  assume "in_pages psz (pg_at psz base off) n (pg_at psz base i)"
  then obtain j where j: "j < n" "pg_at psz base i = pg_at psz base (off + j)"
    by (auto simp: in_pages_iff)
  then have "i = off + j" using pg_at_inj [OF assms(1,2), of i "off + j" base] assms(3,4) by simp
  then show "off \<le> i \<and> i < off + n" using j by simp
next
  assume "off \<le> i \<and> i < off + n"
  then have "i - off < n" "pg_at psz base i = pg_at psz (pg_at psz base off) (i - off)" by auto
  then show "in_pages psz (pg_at psz base off) n (pg_at psz base i)" by (auto simp: in_pages_iff)
qed

lemma layout_map_pages:
  assumes "fits psz N" "0 < psz" "off + n \<le> N"
  shows "layout psz (map_pages psz (pg_at psz base off) n pg m) base N = lput off n (\<lambda>_. pg) (layout psz m base N)"
  using assms by (intro layout_eqI) (simp_all add: map_pages_def in_pages_index)

lemma layout_protect_pages:
  assumes "fits psz N" "0 < psz" "off + n \<le> N"
  shows "layout psz (protect_pages psz (pg_at psz base off) n pr m) base N
     = lput off n (\<lambda>i. map_option (p_prot_update (\<lambda>_. pr)) (layout psz m base N ! i)) (layout psz m base N)"
  using assms by (intro layout_eqI) (simp_all add: protect_pages_def in_pages_index)

lemma layout_move_pages:
  assumes "fits psz N" "0 < psz" "off + n \<le> N" "off' + n \<le> N"
  shows "layout psz (move_pages psz (pg_at psz base off) (pg_at psz base off') n False m) base N
     = lmove off off' n (layout psz m base N)"
  using assms by (intro layout_eqI) (auto simp: move_pages_def lmove_def in_pages_index pg_at_shift)

lemma layout_touch_page:
  assumes "fits psz N" "0 < psz" "off < N"
  shows "layout psz (touch_page (pg_at psz base off) m) base N
     = lput off 1 (\<lambda>i. map_option (p_pop_update (\<lambda>_. True)) (layout psz m base N ! i)) (layout psz m base N)"
  using assms by (intro layout_eqI) (auto simp: touch_page_def pg_at_inj)

lemma layout_grow_pages:
  assumes "fits psz N" "0 < psz" "off + n' \<le> N" "n \<le> n'" "off < N"
  shows "layout psz (grow_pages psz (pg_at psz base off) n n' m) base N
     = lput (off + n) (n' - n) (\<lambda>_. map_option (p_pop_update (\<lambda>_. False)) (layout psz m base N ! off)) (layout psz m base N)"
  using assms by (intro layout_eqI) (auto simp: grow_pages_def in_pages_index)

section \<open>Rules for layouts\<close>

text \<open>A range of \<open>N\<close> pages that does not wrap.\<close>

definition region :: "u64 \<Rightarrow> u64 \<Rightarrow> nat \<Rightarrow> bool" where
  "region psz base N \<longleftrightarrow> page_addr psz base \<and> fits psz N \<and> unat base + N * unat psz < 2 ^ 64"

lemma region_not_failed:
  assumes "region psz base N" "0 < psz" "i < N"
  shows "pg_at psz base i \<noteq> MAP_FAILED"
proof
  assume "pg_at psz base i = MAP_FAILED"
  then have "unat (pg_at psz base i) = 2 ^ 64 - 1" using unat_INVALID_VALUE by (simp add: MAP_FAILED_def INVALID_VALUE_def)
  moreover have "unat (of_nat i * psz) = i * unat psz" using assms unat_index by (auto simp: region_def)
  moreover have "i * unat psz + unat psz \<le> N * unat psz"
    using assms(3) by (metis Suc_leI add.commute mult_Suc mult_le_mono1)
  moreover have "0 < unat psz" using assms(2) by (simp add: word_less_nat_alt)
  ultimately show False using assms(1) by (simp add: pg_at_def region_def unat_word_ariths)
qed

text \<open>Two ranges without a common page.\<close>

definition disjoint_ranges :: "u64 \<Rightarrow> u64 \<Rightarrow> nat \<Rightarrow> u64 \<Rightarrow> nat \<Rightarrow> bool" where
  "disjoint_ranges psz a n b m \<longleftrightarrow> (\<forall>i<n. \<forall>j<m. pg_at psz a i \<noteq> pg_at psz b j)"

lemma all_less_list: "(\<forall>i<n. P i) \<longleftrightarrow> list_all P [0..<n]"
  by (auto simp: list_all_iff)

lemma disjoint_ranges_sym: "disjoint_ranges psz a n b m \<Longrightarrow> disjoint_ranges psz b m a n"
  unfolding disjoint_ranges_def by metis

lemma not_in_pages_disjoint:
  "disjoint_ranges psz a N b M \<Longrightarrow> off + n \<le> N \<Longrightarrow> j < M \<Longrightarrow> \<not> in_pages psz (pg_at psz a off) n (pg_at psz b j)"
  by (auto simp: in_pages_iff disjoint_ranges_def) (metis add_less_mono1 add.commute less_le_trans)

lemma layout_other:
  assumes "disjoint_ranges psz a N b M" "off + n \<le> N"
  shows "layout psz (map_pages psz (pg_at psz a off) n pg m) b M = layout psz m b M"
    and "layout psz (protect_pages psz (pg_at psz a off) n pr m) b M = layout psz m b M"
    and "n' \<le> n \<Longrightarrow> layout psz (grow_pages psz (pg_at psz a off) n' n m) b M = layout psz m b M"
  using not_in_pages_disjoint [OF assms]
  by (auto intro!: layout_eqI simp: map_pages_def protect_pages_def grow_pages_def)

lemma layout_copy_pages:
  assumes "disjoint_ranges psz a N b M" "off + n \<le> N" "off' + n \<le> M" "fits psz M" "fits psz N" "0 < psz"
  shows "layout psz (move_pages psz (pg_at psz a off) (pg_at psz b off') n True m) b M
      = lput off' n (\<lambda>i. layout psz m a N ! (i - off' + off)) (layout psz m b M)"
    and "layout psz (move_pages psz (pg_at psz a off) (pg_at psz b off') n True m) a N
      = lput off n (\<lambda>i. map_option (p_pop_update (\<lambda>_. False)) (layout psz m a N ! i)) (layout psz m a N)"
  using not_in_pages_disjoint [OF assms(1,2)] not_in_pages_disjoint [OF disjoint_ranges_sym [OF assms(1)] assms(3)] assms
  by (auto intro!: layout_eqI simp: move_pages_def in_pages_index pg_at_shift)

lemma apart_same_range:
  assumes "fits psz N" "0 < psz" "off + n \<le> N" "off' + n \<le> N" "off + n \<le> off' \<or> off' + n \<le> off"
  shows "apart psz (pg_at psz base off) (pg_at psz base off') n"
  using assms by (auto simp: apart_def list_all_iff in_pages_index)

lemma apart_other_range:
  assumes "disjoint_ranges psz a N b M" "off + n \<le> N" "off' + n \<le> M"
  shows "apart psz (pg_at psz a off) (pg_at psz b off') n"
  using not_in_pages_disjoint [OF disjoint_ranges_sym [OF assms(1)] assms(3)] assms(2)
  by (auto simp: apart_def list_all_iff)

definition lmapped :: "nat \<Rightarrow> nat \<Rightarrow> layout \<Rightarrow> bool" where
  "lmapped off n L \<longleftrightarrow> list_all (\<lambda>i. L ! i \<noteq> None) [off..<off + n]"

definition lunmapped :: "nat \<Rightarrow> nat \<Rightarrow> layout \<Rightarrow> bool" where
  "lunmapped off n L \<longleftrightarrow> list_all (\<lambda>i. L ! i = None) [off..<off + n]"

definition luniform :: "nat \<Rightarrow> nat \<Rightarrow> layout \<Rightarrow> bool" where
  "luniform off n L \<longleftrightarrow> list_all (\<lambda>i. L ! i \<noteq> None \<and> map_option p_prot (L ! i) = map_option p_prot (L ! off)) [off..<off + n]"

lemma list_all_shift: "list_all (\<lambda>i. P (off + i)) [0..<n] \<longleftrightarrow> list_all P [off..<off + n]"
  unfolding list_all_iff set_upt
  by (metis (no_types, lifting) add_diff_inverse_nat add_less_cancel_left atLeastLessThan_iff le0 le_add1 not_less)

lemma layout_tests:
  assumes "off + n \<le> N"
  shows "mapped psz (pg_at psz base off) n m \<longleftrightarrow> lmapped off n (layout psz m base N)"
    and "unmapped psz (pg_at psz base off) n m \<longleftrightarrow> lunmapped off n (layout psz m base N)"
    and "0 < n \<Longrightarrow> uniform psz (pg_at psz base off) n m \<longleftrightarrow> luniform off n (layout psz m base N)"
proof -
  show "mapped psz (pg_at psz base off) n m \<longleftrightarrow> lmapped off n (layout psz m base N)"
    using assms list_all_shift [of "\<lambda>i. m (pg_at psz base i) \<noteq> None" off n]
    by (simp add: mapped_def lmapped_def) (simp add: list_all_iff)
  show "unmapped psz (pg_at psz base off) n m \<longleftrightarrow> lunmapped off n (layout psz m base N)"
    using assms list_all_shift [of "\<lambda>i. m (pg_at psz base i) = None" off n]
    by (simp add: unmapped_def lunmapped_def) (simp add: list_all_iff)
  show "0 < n \<Longrightarrow> uniform psz (pg_at psz base off) n m \<longleftrightarrow> luniform off n (layout psz m base N)"
    using assms list_all_shift [of "\<lambda>i. m (pg_at psz base i) \<noteq> None
        \<and> map_option p_prot (m (pg_at psz base i)) = map_option p_prot (m (pg_at psz base off))" off n]
    by (simp add: uniform_def luniform_def) (simp add: list_all_iff)
qed

section \<open>Running calls\<close>

context vm_kernel
begin

lemma run_mmap_fixed:
  assumes "region psz base N" "off + n \<le> N" "0 < n" "MAP_FIXED \<in> set fl" "MAP_ANON \<in> set fl"
  shows "\<exists>k'. run step (mmap_or_exit (pg_at psz base off) (of_nat n * psz) pr fl) k = (Done (pg_at psz base off), k')
    \<and> page_at k' = map_pages psz (pg_at psz base off) n (Some (new_page pr fl)) (page_at k)"
proof -
  have f: "pg_at psz base off \<noteq> MAP_FAILED" using region_not_failed [OF assms(1) psz_pos] assms(2,3) by simp
  have "n * unat psz \<le> N * unat psz" using assms(2) by simp
  then have "fits psz n" using assms(1,3) unfolding region_def fits_def by linarith
  then obtain k' where "step k (SMmap (pg_at psz base off) (of_nat n * psz) pr fl) = Some (k', (pg_at psz base off, 0, 0))"
    "page_at k' = map_pages psz (pg_at psz base off) n (Some (new_page pr fl)) (page_at k)"
    using mmap_fixed [OF assms(4,5), of n "pg_at psz base off" k pr] assms(1) f page_addr_pg_at by (auto simp: region_def)
  then show ?thesis using run_mmap_or_exit f by (metis (no_types, lifting))
qed

lemma fits_part: "region psz base N \<Longrightarrow> off + n \<le> N \<Longrightarrow> 0 < n \<Longrightarrow> fits psz n"
proof -
  assume a: "region psz base N" "off + n \<le> N" "0 < n"
  have "n * unat psz \<le> N * unat psz" using a(2) by simp
  then show "fits psz n" using a(1,3) unfolding region_def fits_def by linarith
qed

lemma step_munmap:
  assumes "region psz base N" "off + n \<le> N" "0 < n"
  shows "\<exists>k'. step k (SMunmap (pg_at psz base off) (of_nat n * psz)) = Some (k', (0, 0, 0))
    \<and> page_at k' = map_pages psz (pg_at psz base off) n None (page_at k)"
  using munmap [OF fits_part [OF assms]] assms(1) page_addr_pg_at by (auto simp: region_def)

lemma step_mprotect:
  assumes "region psz base N" "off + n \<le> N" "0 < n" "lmapped off n (layout psz (page_at k) base N)"
  shows "\<exists>k'. step k (SMprotect (pg_at psz base off) (of_nat n * psz) pr) = Some (k', (0, 0, 0))
    \<and> page_at k' = protect_pages psz (pg_at psz base off) n pr (page_at k)"
  using mprotect [OF fits_part [OF assms(1-3)]] assms page_addr_pg_at layout_tests(1) [OF assms(2)] by (auto simp: region_def)

lemma step_move:
  assumes "region psz base N" "off + n \<le> N" "off' + n \<le> N" "0 < n" "off + n \<le> off' \<or> off' + n \<le> off"
    "luniform off n (layout psz (page_at k) base N)" "MREMAP_FIXED \<in> set rf" "MREMAP_MAYMOVE \<in> set rf"
  shows "\<exists>k'. step k (SMremap (pg_at psz base off) (of_nat n * psz) (of_nat n * psz) rf (pg_at psz base off'))
      = Some (k', (pg_at psz base off', 0, 0))
    \<and> page_at k' = move_pages psz (pg_at psz base off) (pg_at psz base off') n (MREMAP_DONTUNMAP \<in> set rf) (page_at k)"
proof -
  have "fits psz N" using assms(1) by (simp add: region_def)
  then show ?thesis
    using mremap_move [OF assms(7,8) fits_part [OF assms(1,2,4)], of "pg_at psz base off" "pg_at psz base off'" k]
      assms page_addr_pg_at layout_tests(3) [OF assms(2)] region_not_failed [OF assms(1) psz_pos, of off']
      apart_same_range [OF _ psz_pos assms(2,3,5), of base]
    by (auto simp: region_def)
qed

lemma step_copy:
  assumes "region psz a N" "region psz b M" "disjoint_ranges psz a N b M" "off + n \<le> N" "off' + n \<le> M" "0 < n"
    "luniform off n (layout psz (page_at k) a N)" "MREMAP_FIXED \<in> set rf" "MREMAP_MAYMOVE \<in> set rf"
  shows "\<exists>k'. step k (SMremap (pg_at psz a off) (of_nat n * psz) (of_nat n * psz) rf (pg_at psz b off'))
      = Some (k', (pg_at psz b off', 0, 0))
    \<and> page_at k' = move_pages psz (pg_at psz a off) (pg_at psz b off') n (MREMAP_DONTUNMAP \<in> set rf) (page_at k)"
  using mremap_move [OF assms(8,9) fits_part [OF assms(1,4,6)], of "pg_at psz a off" "pg_at psz b off'" k]
    assms page_addr_pg_at layout_tests(3) [OF assms(4)] region_not_failed [OF assms(2) psz_pos, of off']
    apart_other_range [OF assms(3-5)]
  by (auto simp: region_def)

lemma step_grow:
  assumes "region psz base N" "off + n' \<le> N" "0 < n" "n \<le> n'" "luniform off n (layout psz (page_at k) base N)"
    "lunmapped (off + n) (n' - n) (layout psz (page_at k) base N)"
  shows "\<exists>k'. step k (SMremap (pg_at psz base off) (of_nat n * psz) (of_nat n' * psz) [] 0) = Some (k', (pg_at psz base off, 0, 0))
    \<and> page_at k' = grow_pages psz (pg_at psz base off) n n' (page_at k)"
proof -
  have b: "off + n \<le> N" "0 < n'" "(off + n) + (n' - n) \<le> N" using assms(2-4) by auto
  have "unmapped psz (pg_at psz (pg_at psz base off) n) (n' - n) (page_at k)"
    using layout_tests(2) [OF b(3), of psz base "page_at k"] assms(6) by simp
  moreover have "uniform psz (pg_at psz base off) n (page_at k)" using layout_tests(3) [OF b(1)] assms(3,5) by simp
  moreover have "pg_at psz base off \<noteq> MAP_FAILED" using region_not_failed [OF assms(1) psz_pos, of off] b assms(3) by simp
  ultimately show ?thesis
    using mremap_grow [OF assms(4) fits_part [OF assms(1) b(1) assms(3)] fits_part [OF assms(1,2) b(2)]] assms(1) page_addr_pg_at
    by (auto simp: region_def)
qed

lemma step_store:
  assumes "region psz base N" "off < N" "layout psz (page_at k) base N ! off = Some pg" "PROT_WRITE \<in> set (p_prot pg)"
  shows "\<exists>k' r. step k (SStore (pg_at psz base off) c) = Some (k', r)
    \<and> page_at k' = touch_page (pg_at psz base off) (page_at k)"
  using store [of "pg_at psz base off" k pg c] assms page_addr_pg_at by (auto simp: region_def)

end

end
