(* ===== verification/Vm_Kernel.thy ===== *)
theory Vm_Kernel
  imports Vm_Prog
begin

text \<open>
  An executable kernel for the programs of this development, and the proof that it keeps the promises
  of the interface of \<open>Vm_Prog\<close>. It shows that the interface can be met, and the witnesses of the
  program theorems run on it.
\<close>

section \<open>An executable kernel\<close>

text \<open>Pages of 4096 bytes. A mapping without a fixed address goes to the address that is given as a hint, or else to the first of a
  list of candidate addresses, where all its pages are free.\<close>

record pk =
  pk_pages :: pages
  pk_out :: "string list"

definition PSZ :: u64 where
  "PSZ = 0x1000"

definition aligned :: "u64 \<Rightarrow> bool" where
  "aligned a \<longleftrightarrow> a AND 0xfff = 0"

definition page_count :: "u64 \<Rightarrow> nat" where
  "page_count len = (unat len + 0xfff) div 0x1000"

definition candidates :: "u64 list" where
  "candidates = map (\<lambda>i. 0x7f0000000000 + of_nat i * 0x1000000) [0..<64]"

definition place :: "pages \<Rightarrow> nat \<Rightarrow> u64 option" where
  "place m n = List.find (\<lambda>a. unat a + n * 0x1000 < 2 ^ 64 \<and> unmapped PSZ a n m) candidates"

definition room_at :: "pages \<Rightarrow> u64 \<Rightarrow> nat \<Rightarrow> bool" where
  "room_at m a n \<longleftrightarrow> aligned a \<and> unat a + n * 0x1000 < 2 ^ 64 \<and> unmapped PSZ a n m"

definition spot :: "pages \<Rightarrow> u64 \<Rightarrow> nat \<Rightarrow> u64 option" where
  "spot m hint n = (if hint \<noteq> 0 \<and> room_at m hint n then Some hint else place m n)"

fun vma_edge :: "nat \<Rightarrow> u64 \<Rightarrow> pages \<Rightarrow> u64 \<Rightarrow> u64" where
  "vma_edge 0 d m a = a"
| "vma_edge (Suc fuel) d m a =
     (if m (a + d) \<noteq> None \<and> map_option p_prot (m (a + d)) = map_option p_prot (m a) then vma_edge fuel d m (a + d) else a)"

definition pk_mmap :: "pk \<Rightarrow> u64 \<Rightarrow> u64 \<Rightarrow> prot list \<Rightarrow> map_flag list \<Rightarrow> pk \<times> resp" where
  "pk_mmap k a len pr fl =
     (let n = page_count len; put = (\<lambda>a. k\<lparr>pk_pages := map_pages PSZ a n (Some (new_page pr fl)) (pk_pages k)\<rparr>) in
      if n = 0 \<or> MAP_ANON \<notin> set fl then (k, (MAP_FAILED, 0, 0))
      else if MAP_FIXED \<in> set fl then
        (if aligned a then (put a, (a, 0, 0)) else (k, (MAP_FAILED, 0, 0)))
      else (case spot (pk_pages k) a n of
          None \<Rightarrow> (k, (MAP_FAILED, 0, 0))
        | Some a \<Rightarrow> (put a, (a, 0, 0))))"

definition pk_mremap :: "pk \<Rightarrow> u64 \<Rightarrow> u64 \<Rightarrow> u64 \<Rightarrow> mremap_flag list \<Rightarrow> u64 \<Rightarrow> pk \<times> resp" where
  "pk_mremap k a ol nl rf b =
     (let n = page_count ol; n' = page_count nl; m = pk_pages k in
      if n = 0 \<or> \<not> aligned a \<or> \<not> uniform PSZ a n m then (k, (MAP_FAILED, 0, 0))
      else if MREMAP_FIXED \<in> set rf then
        (if MREMAP_MAYMOVE \<in> set rf \<and> n = n' \<and> aligned b \<and> apart PSZ a b n
         then (k\<lparr>pk_pages := move_pages PSZ a b n (MREMAP_DONTUNMAP \<in> set rf) m\<rparr>, (b, 0, 0))
         else (k, (MAP_FAILED, 0, 0)))
      else if MREMAP_DONTUNMAP \<in> set rf then
        (case if MREMAP_MAYMOVE \<in> set rf \<and> n = n' then place m n else None of
          None \<Rightarrow> (k, (MAP_FAILED, 0, 0))
        | Some b \<Rightarrow> (k\<lparr>pk_pages := move_pages PSZ a b n True m\<rparr>, (b, 0, 0)))
      else if n \<le> n' \<and> unmapped PSZ (pg_at PSZ a n) (n' - n) m
      then (k\<lparr>pk_pages := grow_pages PSZ a n n' m\<rparr>, (a, 0, 0))
      else (k, (MAP_FAILED, 0, 0)))"

definition pk_store :: "pk \<Rightarrow> u64 \<Rightarrow> (pk \<times> resp) option" where
  "pk_store k a =
     (let p = a AND NOT 0xfff in
      case pk_pages k p of
        None \<Rightarrow> None
      | Some pg \<Rightarrow> if PROT_WRITE \<in> set (p_prot pg)
          then Some (k\<lparr>pk_pages := touch_page p (pk_pages k)\<rparr>, (0, 0, 0)) else None)"

text \<open>The pages that bytes \<open>a .. a + len\<close> lie in.\<close>

definition byte_pages :: "u64 \<Rightarrow> u64 \<Rightarrow> u64 list" where
  "byte_pages a len = (if len = 0 then []
     else map (pg_at PSZ (a AND NOT 0xfff)) [0..<(unat (a AND 0xfff) + unat len - 1) div 0x1000 + 1])"

definition pk_writable :: "pages \<Rightarrow> u64 \<Rightarrow> bool" where
  "pk_writable m p = (case m p of None \<Rightarrow> False | Some pg \<Rightarrow> PROT_WRITE \<in> set (p_prot pg))"

definition pk_fill :: "pk \<Rightarrow> u64 \<Rightarrow> u64 \<Rightarrow> (pk \<times> resp) option" where
  "pk_fill k a len =
     (let ps = byte_pages a len in
      if list_all (pk_writable (pk_pages k)) ps then Some (k\<lparr>pk_pages := fold touch_page ps (pk_pages k)\<rparr>, (a, 0, 0)) else None)"

definition pk_load :: "pk \<Rightarrow> u64 \<Rightarrow> (pk \<times> resp) option" where
  "pk_load k a = (case pk_pages k (a AND NOT 0xfff) of
      None \<Rightarrow> None
    | Some pg \<Rightarrow> if PROT_READ \<in> set (p_prot pg) then Some (k, (0, 0, 0)) else None)"

definition pk_step :: "pk kernel" where
  "pk_step k q = (case q of
      SMmap a len pr fl \<Rightarrow> Some (pk_mmap k a len pr fl)
    | SMunmap a len \<Rightarrow>
        Some (if page_count len = 0 \<or> \<not> aligned a then (k, (- 1, 0, 0))
          else (k\<lparr>pk_pages := map_pages PSZ a (page_count len) None (pk_pages k)\<rparr>, (0, 0, 0)))
    | SMremap a ol nl rf b \<Rightarrow> Some (pk_mremap k a ol nl rf b)
    | SMprotect a len pr \<Rightarrow>
        Some (if \<not> aligned a \<or> \<not> mapped PSZ a (page_count len) (pk_pages k) then (k, (- 1, 0, 0))
          else (k\<lparr>pk_pages := protect_pages PSZ a (page_count len) pr (pk_pages k)\<rparr>, (0, 0, 0)))
    | SMadvise a len adv \<Rightarrow> Some (k, (0, 0, 0))
    | SStore a c \<Rightarrow> pk_store k a
    | SFill a len c \<Rightarrow> pk_fill k a len
    | SLoad a \<Rightarrow> pk_load k a
    | SClock \<Rightarrow> Some (k, (0, 0, 0))
    | SPuts s \<Rightarrow> Some (k\<lparr>pk_out := pk_out k @ [s]\<rparr>, (0, 0, 0))
    | SKmsg s \<Rightarrow> Some (k\<lparr>pk_out := pk_out k @ [s]\<rparr>, (0, 0, 0))
    | SSystem s \<Rightarrow> Some (k, (0, 0, 0))
    | SGetchar \<Rightarrow> Some (k, (10, 0, 0))
    | SOpen s \<Rightarrow> Some (k, (3, 0, 0))
    | SClose fd \<Rightarrow> Some (k, (0, 0, 0))
    | SQuery fd a \<Rightarrow>
        Some (if pk_pages k a = None then (k, (- 1, 0, 0))
          else (k, (0, vma_edge 1024 (- PSZ) (pk_pages k) a, vma_edge 1024 PSZ (pk_pages k) a + PSZ))))"

lemma page_count_mult:
  assumes "fits PSZ n"
  shows "page_count (of_nat n * PSZ) = n"
proof -
  have b: "n * 4096 < 2 ^ 64" using assms by (simp add: fits_def PSZ_def)
  then have "unat (of_nat n * PSZ) = n * 4096"
    by (simp add: PSZ_def unat_word_ariths unat_of_nat mod_mult_left_eq)
  then show ?thesis by (simp add: page_count_def)
qed

lemma aligned_page_addr: "page_addr PSZ a \<Longrightarrow> aligned a"
proof -
  assume "page_addr PSZ a"
  then obtain j where "a = push_bit 12 (of_nat j)" by (auto simp: page_addr_def PSZ_def push_bit_eq_mult mult.commute)
  moreover have "push_bit 12 w AND mask 12 = 0" for w :: u64 by (intro bit_eqI) (auto simp: bit_simps)
  ultimately show "aligned a" by (simp add: aligned_def mask_eq_exp_minus_1)
qed

lemma page_addr_floor: "page_addr PSZ a \<Longrightarrow> a AND NOT 0xfff = a"
proof -
  assume "page_addr PSZ a"
  then have "a AND mask 12 = 0" using aligned_page_addr by (simp add: aligned_def mask_eq_exp_minus_1)
  moreover have "a = (a AND mask 12) OR (a AND NOT (mask 12))" by (intro bit_eqI) (auto simp: bit_simps)
  ultimately show ?thesis by (simp add: mask_eq_exp_minus_1)
qed

lemma place_Some:
  assumes "place m n = Some a"
  shows "unat a + n * 4096 < 2 ^ 64" "unmapped PSZ a n m" "page_addr PSZ a" "a \<noteq> MAP_FAILED"
proof -
  have a: "unat a + n * 0x1000 < 2 ^ 64" "unmapped PSZ a n m" "a \<in> set candidates"
    using assms by (auto simp: place_def find_Some_iff)
  then show "unat a + n * 4096 < 2 ^ 64" "unmapped PSZ a n m" by simp_all
  obtain i where i: "i < 64" "a = 0x7f0000000000 + of_nat i * 0x1000000" using a(3) by (auto simp: candidates_def)
  then have "a = of_nat (0x7f0000000 + i * 0x1000) * PSZ" by (simp add: PSZ_def)
  then show p: "page_addr PSZ a" unfolding page_addr_def by blast
  show "a \<noteq> MAP_FAILED" using aligned_page_addr [OF p] by (auto simp: aligned_def MAP_FAILED_def)
qed

lemma page_addr_aligned: "aligned a \<Longrightarrow> page_addr PSZ a"
proof -
  assume "aligned a"
  then have "a AND mask 12 = 0" by (simp add: aligned_def mask_eq_exp_minus_1)
  moreover have "a = (a AND mask 12) OR push_bit 12 (drop_bit 12 a)"
    by (intro bit_eqI) (auto simp: bit_simps, metis le_add_diff_inverse not_less)
  ultimately have "a = of_nat (unat (drop_bit 12 a)) * PSZ" by (simp add: PSZ_def push_bit_eq_mult)
  then show "page_addr PSZ a" unfolding page_addr_def by blast
qed

lemma spot_Some:
  assumes "spot m hint n = Some a"
  shows "unat a + n * 4096 < 2 ^ 64" "unmapped PSZ a n m" "page_addr PSZ a" "a \<noteq> MAP_FAILED"
proof -
  have "room_at m a n \<or> place m n = Some a" using assms by (auto simp: spot_def split: if_splits)
  then show u: "unat a + n * 4096 < 2 ^ 64" "unmapped PSZ a n m" and p: "page_addr PSZ a"
    using place_Some [of m n a] page_addr_aligned by (auto simp: room_at_def)
  show "a \<noteq> MAP_FAILED" using aligned_page_addr [OF p] by (auto simp: aligned_def MAP_FAILED_def)
qed

interpretation pk: tool_kernel pk_step pk_pages PSZ
proof (unfold_locales, goal_cases)
  case 1
  show ?case by (simp add: PSZ_def)
next
  case (2 fl n a k pr)
  then show ?case using page_count_mult [of n] aligned_page_addr [of a]
    by (auto simp: pk_step_def pk_mmap_def Let_def fits_def)
next
  case (3 fl n k pr)
  then show ?case using page_count_mult [of n] spot_Some [of "pk_pages k" 0 n]
    by (cases "spot (pk_pages k) 0 n") (auto simp: pk_step_def pk_mmap_def Let_def fits_def PSZ_def)
next
  case (4 n a k)
  then show ?case using page_count_mult [of n] aligned_page_addr [of a] by (auto simp: pk_step_def fits_def)
next
  case (5 n a k pr)
  then show ?case using page_count_mult [of n] aligned_page_addr [of a] by (auto simp: pk_step_def fits_def)
next
  case (6 rf n a b k)
  then show ?case using page_count_mult [of n] aligned_page_addr [of a] aligned_page_addr [of b]
    by (auto simp: pk_step_def pk_mremap_def Let_def fits_def)
next
  case (7 n n' a k)
  then show ?case using page_count_mult [of n] page_count_mult [of n'] aligned_page_addr [of a]
    by (auto simp: pk_step_def pk_mremap_def Let_def fits_def)
next
  case (8 a k pg c)
  then show ?case using page_addr_floor [of a] by (auto simp: pk_step_def pk_store_def Let_def)
next
  case (9 k a len)
  then show ?case by (auto simp: pk_step_def)
next
  case (10 q k)
  then show ?case by (cases q) (auto simp: pk_step_def harmless_def)
next
  case (11 k s)
  then show ?case by (auto simp: pk_step_def)
qed
end
