(* ===== verification/Merge_Cases.thy ===== *)
theory Merge_Cases
  imports Vm_Kernel C_Lib
begin

text \<open>
  \<open>random/merge_cases.c\<close>, which drives the kernel through the cases of merging adjacent mappings. The
  helper functions are programs over the system calls; the case functions, which only call helpers
  with constants, are the lists of those calls. The comments of the source draw the pages after each
  call; the abstract run on layouts reproduces the drawings, and the programs refine it on every
  kernel that keeps the promises of the interface.
\<close>

section \<open>Helpers\<close>

definition NUM_PAGES :: nat where "NUM_PAGES = 10"

text \<open>\<open>kmsg\<close>: opening \<open>/dev/kmsg\<close> may fail; the line carries the process id.\<close>

definition kmsg :: "string \<Rightarrow> string \<Rightarrow> unit prog" where
  "kmsg pid msg = check0 (SKmsg (''mmap: <userland> '' @ pid @ '': '' @ msg @ newline))"

definition reserve :: "u64 \<Rightarrow> u64 prog" where
  "reserve sz = mmap_or_exit 0 sz [] [MAP_ANON, MAP_PRIVATE]"

definition prots :: "bool \<Rightarrow> bool \<Rightarrow> prot list" where
  "prots rd wr = (if rd then [PROT_READ] else []) @ (if wr then [PROT_WRITE] else [])"

definition do_map :: "u64 \<Rightarrow> u64 \<Rightarrow> nat \<Rightarrow> nat \<Rightarrow> bool \<Rightarrow> bool \<Rightarrow> bool prog" where
  "do_map psz base pg_offset pgs rd wr =
     bnd (call (SMmap (pg_at psz base pg_offset) (of_nat pgs * psz) (prots rd wr) [MAP_FIXED, MAP_ANON, MAP_PRIVATE]))
       (\<lambda>ptr. Return (ptr \<noteq> MAP_FAILED))"

definition or_fatal :: "bool prog \<Rightarrow> unit prog" where
  "or_fatal m = bnd m (\<lambda>ok. if \<not> ok then fatal else Return ())"

definition map_rw :: "u64 \<Rightarrow> u64 \<Rightarrow> nat \<Rightarrow> nat \<Rightarrow> unit prog" where
  "map_rw psz base pg_offset pgs = or_fatal (do_map psz base pg_offset pgs True True)"

definition map_ro :: "u64 \<Rightarrow> u64 \<Rightarrow> nat \<Rightarrow> nat \<Rightarrow> unit prog" where
  "map_ro psz base pg_offset pgs = or_fatal (do_map psz base pg_offset pgs True False)"

definition map_none :: "u64 \<Rightarrow> u64 \<Rightarrow> nat \<Rightarrow> nat \<Rightarrow> unit prog" where
  "map_none psz base pg_offset pgs = or_fatal (do_map psz base pg_offset pgs False False)"

definition remap :: "u64 \<Rightarrow> u64 \<Rightarrow> u64 \<Rightarrow> nat \<Rightarrow> nat \<Rightarrow> nat \<Rightarrow> unit prog" where
  "remap psz base rebase pg_offset pgs remap_pg_offset =
     bnd (call (SMremap (pg_at psz base pg_offset) (of_nat pgs * psz) (of_nat pgs * psz)
         [MREMAP_MAYMOVE, MREMAP_FIXED, MREMAP_DONTUNMAP] (pg_at psz rebase remap_pg_offset)))
       (\<lambda>ptr. if ptr = MAP_FAILED then fatal else Return ())"

definition remap_expand :: "u64 \<Rightarrow> u64 \<Rightarrow> nat \<Rightarrow> nat \<Rightarrow> nat \<Rightarrow> unit prog" where
  "remap_expand psz base pg_offset pgs new_pgs =
     bnd (call (SMremap (pg_at psz base pg_offset) (of_nat pgs * psz) (of_nat new_pgs * psz) [] 0))
       (\<lambda>ptr. if ptr = MAP_FAILED then fatal else Return ())"

definition do_unmap :: "u64 \<Rightarrow> u64 \<Rightarrow> nat \<Rightarrow> nat \<Rightarrow> bool prog" where
  "do_unmap psz ptr pg_offset pgs =
     bnd (call (SMunmap (pg_at psz ptr pg_offset) (of_nat pgs * psz))) (\<lambda>r. Return (r = 0))"

definition unmap :: "u64 \<Rightarrow> u64 \<Rightarrow> nat \<Rightarrow> nat \<Rightarrow> unit prog" where
  "unmap psz base pg_offset pgs = or_fatal (do_unmap psz base pg_offset pgs)"

definition reunmap :: "u64 \<Rightarrow> u64 \<Rightarrow> nat \<Rightarrow> nat \<Rightarrow> unit prog" where
  "reunmap psz rebase remap_pg_offset pgs = or_fatal (do_unmap psz rebase remap_pg_offset pgs)"

definition do_mprotect :: "u64 \<Rightarrow> u64 \<Rightarrow> nat \<Rightarrow> nat \<Rightarrow> bool \<Rightarrow> bool \<Rightarrow> bool prog" where
  "do_mprotect psz base pg_offset pgs rd wr =
     bnd (call (SMprotect (pg_at psz base pg_offset) (of_nat pgs * psz) (prots rd wr))) (\<lambda>r. Return (r = 0))"

definition mprotect_none :: "u64 \<Rightarrow> u64 \<Rightarrow> nat \<Rightarrow> nat \<Rightarrow> unit prog" where
  "mprotect_none psz base pg_offset pgs = or_fatal (do_mprotect psz base pg_offset pgs False False)"

definition mprotect_ro :: "u64 \<Rightarrow> u64 \<Rightarrow> nat \<Rightarrow> nat \<Rightarrow> unit prog" where
  "mprotect_ro psz base pg_offset pgs = or_fatal (do_mprotect psz base pg_offset pgs True False)"

definition mprotect_rw :: "u64 \<Rightarrow> u64 \<Rightarrow> nat \<Rightarrow> nat \<Rightarrow> unit prog" where
  "mprotect_rw psz base pg_offset pgs = or_fatal (do_mprotect psz base pg_offset pgs True True)"

section \<open>The cases\<close>

datatype op =
    Map nat nat | MapRo nat nat | MapNone nat nat | Remap nat nat nat | RemapExpand nat nat nat
  | Unmap nat nat | Reunmap nat nat | MprotectNone nat nat | MprotectRo nat nat | MprotectRw nat nat
  | Kmsg string

definition exec_op :: "u64 \<Rightarrow> string \<Rightarrow> u64 \<Rightarrow> u64 \<Rightarrow> op \<Rightarrow> unit prog" where
  "exec_op psz pid base rebase o' = (case o' of
      Map off n \<Rightarrow> map_rw psz base off n
    | MapRo off n \<Rightarrow> map_ro psz base off n
    | MapNone off n \<Rightarrow> map_none psz base off n
    | Remap off n off' \<Rightarrow> remap psz base rebase off n off'
    | RemapExpand off n n' \<Rightarrow> remap_expand psz base off n n'
    | Unmap off n \<Rightarrow> unmap psz base off n
    | Reunmap off n \<Rightarrow> reunmap psz rebase off n
    | MprotectNone off n \<Rightarrow> mprotect_none psz base off n
    | MprotectRo off n \<Rightarrow> mprotect_ro psz base off n
    | MprotectRw off n \<Rightarrow> mprotect_rw psz base off n
    | Kmsg s \<Rightarrow> kmsg pid s)"

definition mmap_cases :: "op list" where
  "mmap_cases =
    [Map 0 1, Map 2 1, Kmsg ''mmap: case 1'', Map 1 1,
     Unmap 1 1, Unmap 2 1, Kmsg ''mmap: case 2'', Map 1 1,
     Unmap 1 1, Unmap 0 1, Map 2 1, Kmsg ''mmap: case 3'', Map 1 1,
     Unmap 1 1, Unmap 2 1]"

definition mremap_cases :: "op list" where
  "mremap_cases =
    [Map 0 1, Map 2 1, Map 4 1,
     Remap 0 1 0, Remap 2 1 2, Kmsg ''mremap: case 1'', Remap 4 1 1,
     Reunmap 1 1, Reunmap 2 1, Kmsg ''mremap: case 2'', Remap 2 1 1,
     Reunmap 0 1, Reunmap 1 1, Remap 2 1 2, Kmsg ''mremap: case 3'', Remap 4 1 1,
     Reunmap 1 1, Reunmap 2 1, Unmap 0 1, Unmap 2 1, Unmap 4 1]"

definition mremap_expand_cases :: "op list" where
  "mremap_expand_cases =
    [Map 0 1, Map 2 1, Kmsg ''mremap [expand]: case 1'', RemapExpand 0 1 2,
     Unmap 0 3, Map 0 1, Kmsg ''mremap [expand]: case 2'', RemapExpand 0 1 2]"

definition mprotect_cases :: "op list" where
  "mprotect_cases =
    [Map 0 2, MapRo 2 1, Kmsg ''mprotect: case 4'', MprotectRo 1 1, Kmsg ''mprotect: case 5'', MprotectRw 1 1,
     Unmap 0 3, Map 0 1, MapRo 1 1, Map 2 1, Kmsg ''mprotect: case 6'', MprotectRw 1 1,
     MprotectNone 1 1, Unmap 2 1, Kmsg ''mprotect: case 7'', MprotectRw 1 1,
     MprotectRo 0 1, Kmsg ''mprotect: case 8'', MprotectRw 0 1]"

definition init :: "u64 \<Rightarrow> string \<Rightarrow> (u64 \<times> u64) prog" where
  "init psz pid =
     bnd (reserve (of_nat NUM_PAGES * psz)) (\<lambda>base.
     bnd (reserve (of_nat NUM_PAGES * psz)) (\<lambda>rebase.
     seq (kmsg pid (''  base: '' @ fmt_lx base @ '' - '' @ fmt_lx (pg_at psz base NUM_PAGES)))
     (seq (kmsg pid (''rebase: '' @ fmt_lx rebase @ '' - '' @ fmt_lx (pg_at psz rebase NUM_PAGES)))
       (Return (base, rebase)))))"

definition merge_cases_main :: "u64 \<Rightarrow> string \<Rightarrow> int prog" where
  "merge_cases_main psz pid =
     bnd (init psz pid) (\<lambda>(base, rebase).
       let cases = (\<lambda>ops. seqs (map (exec_op psz pid base rebase) ops)) in
       seq (cases mmap_cases) (seq (cases mremap_cases) (seq (cases mremap_expand_cases)
         (seq (cases mprotect_cases) (Return 0)))))"

section \<open>The abstract run\<close>

text \<open>The two reserved ranges as layouts. \<open>None\<close>: the call is not one the kernel promises to grant.\<close>

definition guard :: "bool \<Rightarrow> 'a \<Rightarrow> 'a option" where
  "guard b x = (if b then Some x else None)"

definition lprotect :: "nat \<Rightarrow> nat \<Rightarrow> prot list \<Rightarrow> layout \<Rightarrow> layout" where
  "lprotect off n pr L = lput off n (\<lambda>i. map_option (p_prot_update (\<lambda>_. pr)) (L ! i)) L"

definition lmap :: "nat \<Rightarrow> nat \<Rightarrow> prot list \<Rightarrow> layout \<Rightarrow> layout" where
  "lmap off n pr L = lput off n (\<lambda>_. Some \<lparr>p_prot = pr, p_pop = False\<rparr>) L"

definition inside :: "nat \<Rightarrow> nat \<Rightarrow> bool" where
  "inside off n \<longleftrightarrow> 0 < n \<and> off + n \<le> NUM_PAGES"

fun aop :: "op \<Rightarrow> layout \<times> layout \<Rightarrow> (layout \<times> layout) option" where
  "aop (Map off n) (A, B) = guard (inside off n) (lmap off n [PROT_READ, PROT_WRITE] A, B)"
| "aop (MapRo off n) (A, B) = guard (inside off n) (lmap off n [PROT_READ] A, B)"
| "aop (MapNone off n) (A, B) = guard (inside off n) (lmap off n [] A, B)"
| "aop (Remap off n off') (A, B) = guard (inside off n \<and> inside off' n \<and> luniform off n A)
     (lput off n (\<lambda>i. map_option (p_pop_update (\<lambda>_. False)) (A ! i)) A, lput off' n (\<lambda>i. A ! (i - off' + off)) B)"
| "aop (RemapExpand off n n') (A, B) = guard (0 < n \<and> n \<le> n' \<and> inside off n' \<and> luniform off n A \<and> lunmapped (off + n) (n' - n) A)
     (lput (off + n) (n' - n) (\<lambda>_. map_option (p_pop_update (\<lambda>_. False)) (A ! off)) A, B)"
| "aop (Unmap off n) (A, B) = guard (inside off n) (lput off n (\<lambda>_. None) A, B)"
| "aop (Reunmap off n) (A, B) = guard (inside off n) (A, lput off n (\<lambda>_. None) B)"
| "aop (MprotectNone off n) (A, B) = guard (inside off n \<and> lmapped off n A) (lprotect off n [] A, B)"
| "aop (MprotectRo off n) (A, B) = guard (inside off n \<and> lmapped off n A) (lprotect off n [PROT_READ] A, B)"
| "aop (MprotectRw off n) (A, B) = guard (inside off n \<and> lmapped off n A) (lprotect off n [PROT_READ, PROT_WRITE] A, B)"
| "aop (Kmsg s) (A, B) = Some (A, B)"

text \<open>The states after each call, from the first.\<close>

fun aops :: "op list \<Rightarrow> layout \<times> layout \<Rightarrow> (layout \<times> layout) list option" where
  "aops [] s = Some [s]"
| "aops (q # qs) s = Option.bind (aop q s) (\<lambda>s'. map_option (Cons s) (aops qs s'))"

text \<open>The drawings: unmapped, inaccessible, read-only and writable pages.\<close>

definition draw_page :: "page option \<Rightarrow> char" where
  "draw_page p = (case p of None \<Rightarrow> CHR ''.'' | Some pg \<Rightarrow>
     if PROT_WRITE \<in> set (p_prot pg) then CHR ''w'' else if PROT_READ \<in> set (p_prot pg) then CHR ''r'' else CHR ''n'')"

definition draw :: "nat \<Rightarrow> nat \<Rightarrow> layout \<times> layout \<Rightarrow> string \<times> string" where
  "draw n m s = (map draw_page (take n (fst s)), map draw_page (take m (snd s)))"

definition reserved :: layout where
  "reserved = replicate NUM_PAGES (Some \<lparr>p_prot = [], p_pop = False\<rparr>)"

section \<open>Refinement\<close>

definition shows_layouts :: "u64 \<Rightarrow> u64 \<Rightarrow> u64 \<Rightarrow> pages \<Rightarrow> layout \<times> layout \<Rightarrow> bool" where
  "shows_layouts psz base rebase m s \<longleftrightarrow> layout psz m base NUM_PAGES = fst s \<and> layout psz m rebase NUM_PAGES = snd s"

definition two_ranges :: "u64 \<Rightarrow> u64 \<Rightarrow> u64 \<Rightarrow> bool" where
  "two_ranges psz base rebase \<longleftrightarrow> region psz base NUM_PAGES \<and> region psz rebase NUM_PAGES
     \<and> disjoint_ranges psz base NUM_PAGES rebase NUM_PAGES"

context tool_kernel
begin

lemma run_do_map:
  assumes "region psz base NUM_PAGES" "inside off n"
  shows "\<exists>k'. run step (or_fatal (do_map psz base off n rd wr)) k = (Done (), k')
    \<and> page_at k' = map_pages psz (pg_at psz base off) n (Some \<lparr>p_prot = prots rd wr, p_pop = False\<rparr>) (page_at k)"
proof -
  have n: "off + n \<le> NUM_PAGES" "0 < n" using assms(2) by (auto simp: inside_def)
  have f: "pg_at psz base off \<noteq> MAP_FAILED" using region_not_failed [OF assms(1) psz_pos, of off] n by simp
  obtain k' where k': "run step (mmap_or_exit (pg_at psz base off) (of_nat n * psz) (prots rd wr) [MAP_FIXED, MAP_ANON, MAP_PRIVATE]) k
      = (Done (pg_at psz base off), k')"
    "page_at k' = map_pages psz (pg_at psz base off) n (Some \<lparr>p_prot = prots rd wr, p_pop = False\<rparr>) (page_at k)"
    using run_mmap_fixed [OF assms(1) n, of "[MAP_FIXED, MAP_ANON, MAP_PRIVATE]" "prots rd wr" k] by (auto simp: new_page_def)
  have "run step (or_fatal (do_map psz base off n rd wr)) k = (Done (), k')"
    using k'(1) f unfolding or_fatal_def do_map_def mmap_or_exit_def fatal_def
    by (auto simp: run_bnd split: prod.splits outcome.splits if_splits)
  then show ?thesis using k'(2) by blast
qed

lemma run_zero: "step k q = Some (k', (0, x)) \<Longrightarrow> run step (or_fatal (bnd (call q) (\<lambda>r. Return (r = 0)))) k = (Done (), k')"
  by (simp add: or_fatal_def run_bnd run_call)

lemma run_ptr: "step k q = Some (k', (p, x)) \<Longrightarrow> p \<noteq> MAP_FAILED \<Longrightarrow>
    run step (bnd (call q) (\<lambda>ptr. if ptr = MAP_FAILED then fatal else Return ())) k = (Done (), k')"
  by (simp add: run_bnd run_call)

lemma exec_op_ok:
  assumes "two_ranges psz base rebase" "shows_layouts psz base rebase (page_at k) s" "aop q s = Some s'"
  shows "\<exists>k'. run step (exec_op psz pid base rebase q) k = (Done (), k') \<and> shows_layouts psz base rebase (page_at k') s'"
proof -
  obtain A B where s: "s = (A, B)" by (cases s)
  have r: "region psz base NUM_PAGES" "region psz rebase NUM_PAGES" "disjoint_ranges psz base NUM_PAGES rebase NUM_PAGES"
    using assms(1) by (auto simp: two_ranges_def)
  have fit: "fits psz NUM_PAGES" using r(1) by (simp add: region_def)
  have L: "layout psz (page_at k) base NUM_PAGES = A" "layout psz (page_at k) rebase NUM_PAGES = B"
    using assms(2) by (auto simp: shows_layouts_def s)
  note rules = layout_map_pages [OF fit psz_pos] layout_protect_pages [OF fit psz_pos] layout_grow_pages [OF fit psz_pos]
    layout_other [OF r(3)] layout_other [OF disjoint_ranges_sym [OF r(3)]]
  have m: ?thesis if "exec_op psz pid base rebase q = or_fatal (do_map psz base off n rd wr)" "inside off n"
      "s' = (lmap off n (prots rd wr) A, B)" for off n rd wr
    using run_do_map [OF r(1) that(2), of rd wr k] that L
    by (auto simp: shows_layouts_def rules inside_def lmap_def)
  have u: ?thesis if "exec_op psz pid base rebase q = or_fatal (do_mprotect psz base off n rd wr)" "inside off n" "lmapped off n A"
      "s' = (lprotect off n (prots rd wr) A, B)" for off n rd wr
    using step_mprotect [OF r(1), of off n k "prots rd wr"] that L
    by (auto simp: shows_layouts_def rules inside_def lprotect_def do_mprotect_def dest!: run_zero)
  show ?thesis
  proof (cases q)
    case (Map off n)
    then show ?thesis using assms(3) m [of off n True True] by (auto simp: s guard_def exec_op_def map_rw_def prots_def split: if_splits)
  next
    case (MapRo off n)
    then show ?thesis using assms(3) m [of off n True False] by (auto simp: s guard_def exec_op_def map_ro_def prots_def split: if_splits)
  next
    case (MapNone off n)
    then show ?thesis using assms(3) m [of off n False False] by (auto simp: s guard_def exec_op_def map_none_def prots_def split: if_splits)
  next
    case (Remap off n off')
    then have i: "off + n \<le> NUM_PAGES" "off' + n \<le> NUM_PAGES" "0 < n" "luniform off n A"
      "s' = (lput off n (\<lambda>i. map_option (p_pop_update (\<lambda>_. False)) (A ! i)) A, lput off' n (\<lambda>i. A ! (i - off' + off)) B)"
      using assms(3) by (auto simp: s guard_def inside_def split: if_splits)
    have "pg_at psz rebase off' \<noteq> MAP_FAILED" using region_not_failed [OF r(2) psz_pos, of off'] i by simp
    then show ?thesis using step_copy [OF r i(1-3), of k "[MREMAP_MAYMOVE, MREMAP_FIXED, MREMAP_DONTUNMAP]"] i L
        layout_copy_pages [OF r(3) i(1,2) fit fit psz_pos, of "page_at k"]
      by (auto simp: Remap exec_op_def remap_def shows_layouts_def dest!: run_ptr)
  next
    case (RemapExpand off n n')
    then have i: "off + n' \<le> NUM_PAGES" "0 < n" "n \<le> n'" "luniform off n A" "lunmapped (off + n) (n' - n) A"
      "s' = (lput (off + n) (n' - n) (\<lambda>_. map_option (p_pop_update (\<lambda>_. False)) (A ! off)) A, B)"
      using assms(3) by (auto simp: s guard_def inside_def split: if_splits)
    have "pg_at psz base off \<noteq> MAP_FAILED" using region_not_failed [OF r(1) psz_pos, of off] i by simp
    then show ?thesis using step_grow [OF r(1) i(1-3), of k] i L
      by (auto simp: RemapExpand exec_op_def remap_expand_def shows_layouts_def rules dest!: run_ptr)
  next
    case (Unmap off n)
    then show ?thesis using assms(3) step_munmap [OF r(1), of off n k] L
      by (auto simp: s guard_def inside_def exec_op_def unmap_def do_unmap_def shows_layouts_def rules dest!: run_zero split: if_splits)
  next
    case (Reunmap off n)
    then show ?thesis using assms(3) step_munmap [OF r(2), of off n k] L
      by (auto simp: s guard_def inside_def exec_op_def reunmap_def do_unmap_def shows_layouts_def rules dest!: run_zero split: if_splits)
  next
    case (MprotectNone off n)
    then show ?thesis using assms(3) u [of off n False False] by (auto simp: s guard_def exec_op_def mprotect_none_def prots_def split: if_splits)
  next
    case (MprotectRo off n)
    then show ?thesis using assms(3) u [of off n True False] by (auto simp: s guard_def exec_op_def mprotect_ro_def prots_def split: if_splits)
  next
    case (MprotectRw off n)
    then show ?thesis using assms(3) u [of off n True True] by (auto simp: s guard_def exec_op_def mprotect_rw_def prots_def split: if_splits)
  next
    case (Kmsg msg)
    then show ?thesis using assms(3) kmsg_ok [of k] L run_check0
      by (fastforce simp: s exec_op_def kmsg_def shows_layouts_def)
  qed
qed

lemma exec_ops_ok:
  assumes "two_ranges psz base rebase" "aops qs s = Some ss" "shows_layouts psz base rebase (page_at k) s" "j \<le> length qs"
  shows "\<exists>k'. run step (seqs (map (exec_op psz pid base rebase) (take j qs))) k = (Done (), k')
    \<and> shows_layouts psz base rebase (page_at k') (ss ! j)"
  using assms(2-)
proof (induction qs arbitrary: s ss j k)
  case Nil
  then show ?case by auto
next
  case (Cons q qs)
  then obtain s' ss' where s': "aop q s = Some s'" "aops qs s' = Some ss'" "ss = s # ss'"
    by (auto simp: bind_eq_Some_conv)
  show ?case
  proof (cases j)
    case 0
    then show ?thesis using Cons.prems s' by auto
  next
    case (Suc i)
    obtain k1 where k1: "run step (exec_op psz pid base rebase q) k = (Done (), k1)" "shows_layouts psz base rebase (page_at k1) s'"
      using exec_op_ok [OF assms(1) Cons.prems(2) s'(1)] by blast
    then show ?thesis using Cons.IH [OF s'(2) k1(2), of i] Cons.prems(3) Suc s'(3) by (auto simp: run_seq [OF k1(1)])
  qed
qed

lemma run_reserve:
  assumes "fits psz n"
  shows "(\<exists>k'. run step (reserve (of_nat n * psz)) k = (Exited 1, k'))
    \<or> (\<exists>k' a. run step (reserve (of_nat n * psz)) k = (Done a, k') \<and> region psz a n \<and> unmapped psz a n (page_at k)
        \<and> page_at k' = map_pages psz a n (Some \<lparr>p_prot = [], p_pop = False\<rparr>) (page_at k))"
proof -
  consider k' where "step k (SMmap 0 (of_nat n * psz) [] [MAP_ANON, MAP_PRIVATE]) = Some (k', (MAP_FAILED, 0, 0))"
    | k' a where "step k (SMmap 0 (of_nat n * psz) [] [MAP_ANON, MAP_PRIVATE]) = Some (k', (a, 0, 0))"
      "a \<noteq> MAP_FAILED" "page_addr psz a" "unat a + n * unat psz < 2 ^ 64" "unmapped psz a n (page_at k)"
      "page_at k' = map_pages psz a n (Some (new_page [] [MAP_ANON, MAP_PRIVATE])) (page_at k)"
    using mmap_anywhere [of "[MAP_ANON, MAP_PRIVATE]" n k "[]"] assms by auto
  then show ?thesis
  proof cases
    case 1
    then show ?thesis by (auto simp: reserve_def dest!: run_mmap_or_exit)
  next
    case 2
    then show ?thesis using assms run_mmap_or_exit [of step k, OF 2(1)]
      by (auto simp: reserve_def region_def new_page_def)
  qed
qed

lemma fresh_disjoint:
  assumes "unmapped psz b n m" "mapped psz a n m"
  shows "disjoint_ranges psz a n b n"
  unfolding disjoint_ranges_def
proof (intro allI impI)
  fix i j assume "i < n" "j < n"
  then have "m (pg_at psz a i) \<noteq> None" "m (pg_at psz b j) = None"
    using assms by (simp_all add: unmapped_def mapped_def list_all_iff)
  then show "pg_at psz a i \<noteq> pg_at psz b j" by metis
qed

lemma run_kmsg: "\<exists>k'. run step (kmsg pid msg) k = (Done (), k') \<and> page_at k' = page_at k"
proof -
  obtain k' where "step k (SKmsg (''mmap: <userland> '' @ pid @ '': '' @ msg @ newline)) = Some (k', (0, 0, 0))" "page_at k' = page_at k"
    using kmsg_ok by blast
  then show ?thesis using run_check0 [of step k] unfolding kmsg_def by blast
qed

lemma run_init:
  assumes "fits psz NUM_PAGES"
  shows "(\<exists>k'. run step (init psz pid) k = (Exited 1, k'))
    \<or> (\<exists>k' base rebase. run step (init psz pid) k = (Done (base, rebase), k') \<and> two_ranges psz base rebase
        \<and> shows_layouts psz base rebase (page_at k') (reserved, reserved))"
proof -
  note r = run_reserve [OF assms]
  show ?thesis
  proof (cases "\<exists>k'. run step (reserve (of_nat NUM_PAGES * psz)) k = (Exited 1, k')")
    case True
    then show ?thesis by (auto simp: init_def run_bnd)
  next
    case False
    then obtain k1 a where 1: "run step (reserve (of_nat NUM_PAGES * psz)) k = (Done a, k1)" "region psz a NUM_PAGES"
      "page_at k1 = map_pages psz a NUM_PAGES (Some \<lparr>p_prot = [], p_pop = False\<rparr>) (page_at k)" using r [of k] by blast
    show ?thesis
    proof (cases "\<exists>k'. run step (reserve (of_nat NUM_PAGES * psz)) k1 = (Exited 1, k')")
      case True
      then show ?thesis using 1 by (auto simp: init_def run_bnd)
    next
      case False
      then obtain k2 b where 2: "run step (reserve (of_nat NUM_PAGES * psz)) k1 = (Done b, k2)" "region psz b NUM_PAGES"
        "unmapped psz b NUM_PAGES (page_at k1)"
        "page_at k2 = map_pages psz b NUM_PAGES (Some \<lparr>p_prot = [], p_pop = False\<rparr>) (page_at k1)" using r [of k1] by blast
      have La: "layout psz (page_at k1) a NUM_PAGES = reserved"
        using layout_map_pages [OF assms psz_pos, of 0 NUM_PAGES a] 1(3)
        by (auto simp: reserved_def intro!: nth_equalityI)
      have "mapped psz a NUM_PAGES (page_at k1)"
        using layout_tests(1) [of 0 NUM_PAGES NUM_PAGES psz a "page_at k1"] La
        by (auto simp: lmapped_def reserved_def list_all_iff)
      then have d: "disjoint_ranges psz a NUM_PAGES b NUM_PAGES" using fresh_disjoint 2(3) by blast
      have "layout psz (page_at k2) b NUM_PAGES = reserved" "layout psz (page_at k2) a NUM_PAGES = reserved"
        using layout_map_pages [OF assms psz_pos, of 0 NUM_PAGES b] 2(4) La
          layout_other(1) [OF disjoint_ranges_sym [OF d], of 0 NUM_PAGES]
        by (auto simp: reserved_def intro!: nth_equalityI)
      moreover obtain k3 where "run step (kmsg pid (''  base: '' @ fmt_lx a @ '' - '' @ fmt_lx (pg_at psz a NUM_PAGES))) k2 = (Done (), k3)"
        "page_at k3 = page_at k2" using run_kmsg by blast
      moreover obtain k4 where "run step (kmsg pid (''rebase: '' @ fmt_lx b @ '' - '' @ fmt_lx (pg_at psz b NUM_PAGES))) k3 = (Done (), k4)"
        "page_at k4 = page_at k3" using run_kmsg by blast
      ultimately have "run step (init psz pid) k = (Done (a, b), k4)" "shows_layouts psz a b (page_at k4) (reserved, reserved)"
        using 1(1) 2(1) by (simp_all add: init_def run_bnd seq_def shows_layouts_def)
      moreover have "two_ranges psz a b" using 1(2) 2(2) d by (simp add: two_ranges_def)
      ultimately show ?thesis by blast
    qed
  qed
qed

lemma exec_all:
  assumes "two_ranges psz base rebase" "aops qs s = Some ss" "shows_layouts psz base rebase (page_at k) s"
  shows "\<exists>k'. run step (seqs (map (exec_op psz pid base rebase) qs)) k = (Done (), k')
    \<and> shows_layouts psz base rebase (page_at k') (ss ! length qs)"
  using exec_ops_ok [OF assms, of "length qs"] by simp

end

definition all_cases :: "op list" where
  "all_cases = mmap_cases @ mremap_cases @ mremap_expand_cases @ mprotect_cases"

definition drawings :: "(string \<times> string) list" where
  "drawings =
    [(''nnnnn'', ''nnn''), (''wnnnn'', ''nnn''), (''wnwnn'', ''nnn''), (''wnwnn'', ''nnn''), (''wwwnn'', ''nnn''),
     (''w.wnn'', ''nnn''), (''w..nn'', ''nnn''), (''w..nn'', ''nnn''), (''ww.nn'', ''nnn''),
     (''w..nn'', ''nnn''), (''...nn'', ''nnn''), (''..wnn'', ''nnn''), (''..wnn'', ''nnn''), (''.wwnn'', ''nnn''),
     (''..wnn'', ''nnn''), (''...nn'', ''nnn''),
     (''w..nn'', ''nnn''), (''w.wnn'', ''nnn''), (''w.wnw'', ''nnn''),
     (''w.wnw'', ''wnn''), (''w.wnw'', ''wnw''), (''w.wnw'', ''wnw''), (''w.wnw'', ''www''),
     (''w.wnw'', ''w.w''), (''w.wnw'', ''w..''), (''w.wnw'', ''w..''), (''w.wnw'', ''ww.''),
     (''w.wnw'', ''.w.''), (''w.wnw'', ''...''), (''w.wnw'', ''..w''), (''w.wnw'', ''..w''), (''w.wnw'', ''.ww''),
     (''w.wnw'', ''..w''), (''w.wnw'', ''...''), (''..wnw'', ''...''), (''...nw'', ''...''), (''...n.'', ''...''),
     (''w..n.'', ''...''), (''w.wn.'', ''...''), (''w.wn.'', ''...''), (''wwwn.'', ''...''),
     (''...n.'', ''...''), (''w..n.'', ''...''), (''w..n.'', ''...''), (''ww.n.'', ''...''),
     (''ww.n.'', ''...''), (''wwrn.'', ''...''), (''wwrn.'', ''...''), (''wrrn.'', ''...''), (''wrrn.'', ''...''), (''wwrn.'', ''...''),
     (''...n.'', ''...''), (''w..n.'', ''...''), (''wr.n.'', ''...''), (''wrwn.'', ''...''), (''wrwn.'', ''...''), (''wwwn.'', ''...''),
     (''wnwn.'', ''...''), (''wn.n.'', ''...''), (''wn.n.'', ''...''), (''ww.n.'', ''...''),
     (''rw.n.'', ''...''), (''rw.n.'', ''...''), (''ww.n.'', ''...'')]"

lemma drawn: "map_option (map (draw 5 3)) (aops all_cases (reserved, reserved)) = Some drawings"
  by code_simp

lemma aops_all: "\<exists>ss. aops all_cases (reserved, reserved) = Some ss \<and> map (draw 5 3) ss = drawings"
  using drawn by (simp add: map_option_eq_Some)

lemma length_drawings: "length drawings = Suc (length all_cases)"
  by code_simp

section \<open>A process with two reserved ranges\<close>

definition demo_ranges :: pk where
  "demo_ranges = \<lparr>pk_pages = map_pages PSZ 0x10000 NUM_PAGES (Some \<lparr>p_prot = [], p_pop = False\<rparr>)
     (map_pages PSZ 0x20000 NUM_PAGES (Some \<lparr>p_prot = [], p_pop = False\<rparr>) (\<lambda>_. None)), pk_out = []\<rparr>"

lemma demo_two_ranges: "two_ranges PSZ 0x10000 0x20000"
proof -
  have "(0x10000 :: u64) = of_nat 16 * PSZ" "(0x20000 :: u64) = of_nat 32 * PSZ" by (simp_all add: PSZ_def)
  then have "page_addr PSZ 0x10000" "page_addr PSZ 0x20000" unfolding page_addr_def by blast+
  moreover have "disjoint_ranges PSZ 0x10000 NUM_PAGES 0x20000 NUM_PAGES"
    unfolding disjoint_ranges_def all_less_list by code_simp
  ultimately show ?thesis by (simp add: two_ranges_def region_def fits_def NUM_PAGES_def PSZ_def)
qed

lemma demo_layouts: "shows_layouts PSZ 0x10000 0x20000 (pk_pages demo_ranges) (reserved, reserved)"
  by code_simp

section \<open>Properties\<close>

text \<open>C19. The four case functions of \<open>merge_cases.c\<close> on every kernel that keeps the promises of the interface: no
  call fails, and after each call the pages of the two reserved ranges are those its comment draws,
  a reserved page that was never mapped or unmapped being inaccessible rather than absent.\<close>

theorem merge_cases_drawings:
  assumes "tool_kernel step page_at psz" "two_ranges psz base rebase"
    "shows_layouts psz base rebase (page_at k) (reserved, reserved)" "j < length drawings"
  shows "\<exists>k'. run step (seqs (map (exec_op psz pid base rebase) (take j all_cases))) k = (Done (), k')
    \<and> draw 5 3 (layout psz (page_at k') base NUM_PAGES, layout psz (page_at k') rebase NUM_PAGES) = drawings ! j"
proof -
  obtain ss where ss: "aops all_cases (reserved, reserved) = Some ss" "map (draw 5 3) ss = drawings" using aops_all by blast
  have "length ss = length drawings" using ss(2) by (metis length_map)
  then have j: "j \<le> length all_cases" "j < length ss" using assms(4) length_drawings by simp_all
  obtain k' where "run step (seqs (map (exec_op psz pid base rebase) (take j all_cases))) k = (Done (), k')"
    "shows_layouts psz base rebase (page_at k') (ss ! j)"
    using tool_kernel.exec_ops_ok [OF assms(1,2) ss(1) assms(3) j(1)] by blast
  moreover have "draw 5 3 (ss ! j) = drawings ! j" using ss(2) j(2) by (metis nth_map)
  ultimately show ?thesis by (auto simp: shows_layouts_def)
qed

theorem merge_cases_drawings_witness:
  "\<exists>k'. run pk_step (seqs (map (exec_op PSZ ''1'' 0x10000 0x20000) (take 4 all_cases))) demo_ranges = (Done (), k')
    \<and> draw 5 3 (layout PSZ (pk_pages k') 0x10000 NUM_PAGES, layout PSZ (pk_pages k') 0x20000 NUM_PAGES) = (''wwwnn'', ''nnn'')"
  using merge_cases_drawings [OF pk.tool_kernel_axioms demo_two_ranges demo_layouts, of 4 "''1''"]
  by (simp add: drawings_def)

text \<open>The program ends with success unless one of the two reservations at its start fails.\<close>

theorem merge_cases_exit:
  assumes "tool_kernel step page_at psz" "fits psz NUM_PAGES"
  shows "\<exists>k'. run step (merge_cases_main psz pid) k = (Exited 1, k') \<or> run step (merge_cases_main psz pid) k = (Done 0, k')"
proof (cases "\<exists>k'. run step (init psz pid) k = (Exited 1, k')")
  case True
  then show ?thesis by (auto simp: merge_cases_main_def run_bnd)
next
  case False
  then obtain k1 base rebase where 1: "run step (init psz pid) k = (Done (base, rebase), k1)" "two_ranges psz base rebase"
    "shows_layouts psz base rebase (page_at k1) (reserved, reserved)"
    using tool_kernel.run_init [OF assms, of pid k] by blast
  obtain ss where "aops all_cases (reserved, reserved) = Some ss" using aops_all by blast
  then obtain k2 where "run step (seqs (map (exec_op psz pid base rebase) all_cases)) k1 = (Done (), k2)"
    using tool_kernel.exec_all [OF assms(1) 1(2) _ 1(3)] by blast
  moreover have "run step (merge_cases_main psz pid) k
      = run step (seq (seqs (map (exec_op psz pid base rebase) all_cases)) (Return 0)) k1"
    by (simp add: merge_cases_main_def all_cases_def seqs_append seq_assoc run_bnd_Done [OF 1(1)])
  ultimately show ?thesis using run_seq by (metis run.simps(1))
qed

theorem merge_cases_exit_witness:
  "\<exists>k'. run pk_step (merge_cases_main PSZ ''1'') \<lparr>pk_pages = \<lambda>_. None, pk_out = []\<rparr> = (Exited 1, k')
    \<or> run pk_step (merge_cases_main PSZ ''1'') \<lparr>pk_pages = \<lambda>_. None, pk_out = []\<rparr> = (Done 0, k')"
  by (rule merge_cases_exit [OF pk.tool_kernel_axioms]) (simp add: fits_def NUM_PAGES_def PSZ_def)

end
