(* ===== verification/Range_Prog.thy ===== *)
theory Range_Prog
  imports Vm_Kernel
begin

text \<open>
  Straight-line programs on one range of pages. Many of the test programs reserve or name a range and
  then issue a fixed sequence of calls at page offsets inside it, each followed by the same reaction
  to a failure. Such a sequence is a list of range operations; running it is defined by the calls it
  makes, its effect by a function on layouts, and the two are related on every kernel that keeps
  the promises of the interface.
\<close>

section \<open>Operations\<close>

datatype rop =
    RMap nat nat "prot list" "map_flag list"        \<comment> \<open>\<open>mmap\<close>, exit on \<open>MAP_FAILED\<close>\<close>
  | RUnmap bool nat nat                              \<comment> \<open>\<open>munmap\<close>, with or without a test of the result\<close>
  | RMove nat nat nat "mremap_flag list"             \<comment> \<open>\<open>mremap\<close> to a fixed address, exit on \<open>MAP_FAILED\<close>\<close>
  | RProtect nat nat "prot list"                     \<comment> \<open>\<open>mprotect\<close>, exit on failure\<close>
  | RTouch nat char                                  \<comment> \<open>a store to the first byte of a page\<close>
  | RAdvise nat nat                                  \<comment> \<open>\<open>madvise(MADV_NORMAL)\<close>, result ignored\<close>
  | RIo sys                                          \<comment> \<open>output and the like\<close>

definition exec_rop :: "u64 \<Rightarrow> u64 \<Rightarrow> rop \<Rightarrow> unit prog" where
  "exec_rop psz ptr q = (case q of
      RMap off n pr fl \<Rightarrow> bnd (mmap_or_exit (pg_at psz ptr off) (of_nat n * psz) pr fl) (\<lambda>_. Return ())
    | RUnmap chk off n \<Rightarrow> (if chk then check0 else ignore) (SMunmap (pg_at psz ptr off) (of_nat n * psz))
    | RMove off off' n rf \<Rightarrow>
        bnd (call (SMremap (pg_at psz ptr off) (of_nat n * psz) (of_nat n * psz) rf (pg_at psz ptr off')))
          (\<lambda>r. if r = MAP_FAILED then fatal else Return ())
    | RProtect off n pr \<Rightarrow> check0 (SMprotect (pg_at psz ptr off) (of_nat n * psz) pr)
    | RTouch off c \<Rightarrow> ignore (SStore (pg_at psz ptr off) c)
    | RAdvise off n \<Rightarrow> ignore (SMadvise (pg_at psz ptr off) (of_nat n * psz) MADV_NORMAL)
    | RIo q \<Rightarrow> ignore q)"

definition exec_rops :: "u64 \<Rightarrow> u64 \<Rightarrow> rop list \<Rightarrow> unit prog" where
  "exec_rops psz ptr qs = seqs (map (exec_rop psz ptr) qs)"

section \<open>Their effect on layouts\<close>

text \<open>\<open>None\<close>: the call is not one the kernel promises to grant.\<close>

definition writable :: "page option \<Rightarrow> bool" where
  "writable p = (case p of None \<Rightarrow> False | Some pg \<Rightarrow> PROT_WRITE \<in> set (p_prot pg))"

fun arop :: "rop \<Rightarrow> layout \<Rightarrow> layout option" where
  "arop (RMap off n pr fl) L = (if 0 < n \<and> off + n \<le> length L \<and> MAP_FIXED \<in> set fl \<and> MAP_ANON \<in> set fl
     then Some (lput off n (\<lambda>_. Some (new_page pr fl)) L) else None)"
| "arop (RUnmap chk off n) L = (if 0 < n \<and> off + n \<le> length L then Some (lput off n (\<lambda>_. None) L) else None)"
| "arop (RMove off off' n rf) L = (if 0 < n \<and> off + n \<le> length L \<and> off' + n \<le> length L \<and> (off + n \<le> off' \<or> off' + n \<le> off)
       \<and> luniform off n L \<and> MREMAP_FIXED \<in> set rf \<and> MREMAP_MAYMOVE \<in> set rf \<and> MREMAP_DONTUNMAP \<notin> set rf
     then Some (lmove off off' n L) else None)"
| "arop (RProtect off n pr) L = (if 0 < n \<and> off + n \<le> length L \<and> lmapped off n L
     then Some (lput off n (\<lambda>i. map_option (p_prot_update (\<lambda>_. pr)) (L ! i)) L) else None)"
| "arop (RTouch off c) L = (if off < length L \<and> writable (L ! off)
     then Some (lput off 1 (\<lambda>i. map_option (p_pop_update (\<lambda>_. True)) (L ! i)) L) else None)"
| "arop (RAdvise off n) L = Some L"
| "arop (RIo q) L = (if harmless q then Some L else None)"

fun arops :: "rop list \<Rightarrow> layout \<Rightarrow> layout option" where
  "arops [] L = Some L"
| "arops (q # qs) L = Option.bind (arop q L) (arops qs)"

lemma length_arop: "arop q L = Some L' \<Longrightarrow> length L' = length L"
  by (cases q) (auto simp: lmove_def split: if_splits)

lemma length_arops: "arops qs L = Some L' \<Longrightarrow> length L' = length L"
  by (induction qs arbitrary: L) (auto simp: bind_eq_Some_conv length_arop)

lemma arops_append: "arops (xs @ ys) L = Option.bind (arops xs L) (arops ys)"
  by (induction xs arbitrary: L) (auto split: bind_splits)

text \<open>Operations that leave the pages alone may be dropped.\<close>

definition changes :: "rop \<Rightarrow> bool" where
  "changes q = (case q of RIo q' \<Rightarrow> \<not> harmless q' | RAdvise _ _ \<Rightarrow> False | _ \<Rightarrow> True)"

lemma arops_changes: "arops qs L = arops (filter changes qs) L"
  by (induction qs arbitrary: L) (auto simp: changes_def split: rop.splits bind_splits)

section \<open>Refinement\<close>

text \<open>A call outside the range is left alone.\<close>

definition same_outside :: "u64 \<Rightarrow> u64 \<Rightarrow> nat \<Rightarrow> pages \<Rightarrow> pages \<Rightarrow> bool" where
  "same_outside psz base N m m' \<longleftrightarrow> (\<forall>p. \<not> in_pages psz base N p \<longrightarrow> m' p = m p)"

lemma in_pages_part: "in_pages psz (pg_at psz base off) n p \<Longrightarrow> off + n \<le> N \<Longrightarrow> in_pages psz base N p"
  by (auto simp: in_pages_iff) (metis add_less_cancel_left less_le_trans)

lemma same_outside_refl [simp]: "same_outside psz base N m m"
  by (simp add: same_outside_def)

lemma same_outside_trans: "same_outside psz base N m m' \<Longrightarrow> same_outside psz base N m' m'' \<Longrightarrow> same_outside psz base N m m''"
  by (simp add: same_outside_def)

lemma same_outside_ops:
  assumes "off + n \<le> N"
  shows "same_outside psz base N m (map_pages psz (pg_at psz base off) n pg m)"
    "same_outside psz base N m (protect_pages psz (pg_at psz base off) n pr m)"
    "off' + n \<le> N \<Longrightarrow> same_outside psz base N m (move_pages psz (pg_at psz base off) (pg_at psz base off') n d m)"
  using assms in_pages_part
  by (auto simp: same_outside_def map_pages_def protect_pages_def move_pages_def)

lemma same_outside_touch: "off < N \<Longrightarrow> same_outside psz base N m (touch_page (pg_at psz base off) m)"
  by (auto simp: same_outside_def touch_page_def in_pages_iff)

definition range_shows :: "u64 \<Rightarrow> u64 \<Rightarrow> pages \<Rightarrow> layout \<Rightarrow> bool" where
  "range_shows psz ptr m L \<longleftrightarrow> layout psz m ptr (length L) = L"

definition no_access :: "nat \<Rightarrow> layout" where
  "no_access n = replicate n (Some \<lparr>p_prot = [], p_pop = False\<rparr>)"

lemma length_no_access [simp]: "length (no_access n) = n"
  by (simp add: no_access_def)

definition ends :: "'a outcome \<times> 'k \<Rightarrow> bool" where
  "ends r = (case fst r of Done _ \<Rightarrow> True | Exited c \<Rightarrow> c = 1 | Killed \<Rightarrow> False)"

lemma ends_bnd: "ends (run step m k) \<Longrightarrow> (\<And>x k'. run step m k = (Done x, k') \<Longrightarrow> ends (run step (f x) k')) \<Longrightarrow> ends (run step (bnd m f) k)"
  by (auto simp: ends_def run_bnd split: prod.splits outcome.splits)

lemma ends_simps [simp]: "ends (Done x, k)" "ends (Exited c, k) \<longleftrightarrow> c = 1" "\<not> ends (Killed, k)" "ends (run step fatal k)"
  by (simp_all add: ends_def fatal_def)

text \<open>The calls of a run with their answers, in order; the call that ends in a fatal signal has none.\<close>

primrec calls :: "'k kernel \<Rightarrow> 'a prog \<Rightarrow> 'k \<Rightarrow> (sys \<times> resp) list" where
  "calls step (Return x) = (\<lambda>k. [])"
| "calls step (Quit c) = (\<lambda>k. [])"
| "calls step (Sys q g) = (\<lambda>k. case step k q of None \<Rightarrow> [] | Some (k', r) \<Rightarrow> (q, r) # calls step (g r) k')"

lemma calls_bnd: "calls step (bnd m f) k = calls step m k @ (case run step m k of (Done x, k') \<Rightarrow> calls step (f x) k' | _ \<Rightarrow> [])"
  by (induction m arbitrary: k) (auto split: option.splits)

lemma calls_seq: "calls step (seq m p) k = calls step m k @ (case run step m k of (Done x, k') \<Rightarrow> calls step p k' | _ \<Rightarrow> [])"
  by (simp add: seq_def calls_bnd)

lemma calls_call: "calls step (call q) k = (case step k q of None \<Rightarrow> [] | Some (k', r) \<Rightarrow> [(q, r)])"
  by (simp add: call_def split: option.splits)

lemma calls_last:
  "calls step p k = cs @ [(q, r)] \<Longrightarrow> run step p k = (Exited c, k') \<Longrightarrow> \<exists>k1. step k1 q = Some (k', r)"
proof (induction p arbitrary: k cs)
  case (Sys q' g)
  then obtain k2 r' where s: "step k q' = Some (k2, r')" by (cases "step k q'") auto
  show ?case
  proof (cases "calls step (g r') k2 = []")
    case True
    then have "run step (g r') k2 = (Exited c, k2)" using Sys.prems s by (cases "g r'") (auto split: option.splits)
    then show ?thesis using Sys.prems s True by (cases cs) auto
  next
    case False
    then obtain cs' where "calls step (g r') k2 = cs' @ [(q, r)]" using Sys.prems(1) s by (cases cs) auto
    then show ?thesis using Sys.IH [of "g r'" k2 cs'] Sys.prems(2) s by auto
  qed
qed auto

text \<open>The answers by which the kernel refuses a call.\<close>

definition refused :: "sys \<times> resp \<Rightarrow> bool" where
  "refused = (\<lambda>(q, r). case q of SMmap _ _ _ _ \<Rightarrow> fst r = MAP_FAILED | SMremap _ _ _ _ _ \<Rightarrow> fst r = MAP_FAILED
     | SMunmap _ _ \<Rightarrow> fst r \<noteq> 0 | SMprotect _ _ _ \<Rightarrow> fst r \<noteq> 0 | _ \<Rightarrow> False)"

definition granted :: "(sys \<times> resp) list \<Rightarrow> bool" where
  "granted cs \<longleftrightarrow> list_all (\<lambda>c. \<not> refused c) cs"

lemma granted_simps [simp]: "granted []" "granted (c # cs) \<longleftrightarrow> \<not> refused c \<and> granted cs" "granted (cs @ ds) \<longleftrightarrow> granted cs \<and> granted ds"
  by (simp_all add: granted_def)

text \<open>A program that ends with status 1 only right after a call was refused.\<close>

definition exits_refused :: "'k kernel \<Rightarrow> 'a prog \<Rightarrow> bool" where
  "exits_refused step p \<longleftrightarrow> (\<forall>k k'. run step p k = (Exited 1, k') \<longrightarrow> (\<exists>cs c. calls step p k = cs @ [c] \<and> refused c))"

lemma exits_refused_simps [simp]: "exits_refused step (Return x)" "exits_refused step (Quit 0)" "exits_refused step (call q)"
  by (auto simp: exits_refused_def call_def split: option.splits)

lemma exits_refused_bnd: "exits_refused step m \<Longrightarrow> (\<And>x. exits_refused step (f x)) \<Longrightarrow> exits_refused step (bnd m f)"
  unfolding exits_refused_def run_bnd calls_bnd by (fastforce split: prod.splits outcome.splits)

lemma exits_refused_seq: "exits_refused step m \<Longrightarrow> exits_refused step p \<Longrightarrow> exits_refused step (seq m p)"
  unfolding seq_def by (rule exits_refused_bnd)

lemma exits_refused_ignore [simp]: "exits_refused step (ignore q)"
  unfolding ignore_def by (rule exits_refused_bnd) simp_all

lemma exits_refused_mmap [simp]: "exits_refused step (mmap_or_exit a len pr fl)"
  by (auto simp: exits_refused_def mmap_or_exit_def call_def fatal_def refused_def split: option.splits if_splits)

text \<open>The pages are in the end as they were at the start. Either the program completes with \<open>x\<close> and no call was refused, or it ends with
  status 1 right after the reservation \<open>q\<close> was refused, before which no call was.\<close>

definition restores_unless :: "'k kernel \<Rightarrow> ('k \<Rightarrow> pages) \<Rightarrow> sys \<Rightarrow> 'a prog \<Rightarrow> 'a \<Rightarrow> 'k \<Rightarrow> bool" where
  "restores_unless step page_at q p x k \<longleftrightarrow> (\<exists>k'. page_at k' = page_at k
     \<and> (run step p k = (Done x, k') \<and> granted (calls step p k)
        \<or> run step p k = (Exited 1, k') \<and> (\<exists>cs r. calls step p k = cs @ [(q, r)] \<and> granted cs \<and> refused (q, r))))"

lemma restores_unless_Return [simp]: "restores_unless step page_at q (Return x) x k"
  by (simp add: restores_unless_def)

lemma restores_unless_seq:
  assumes "restores_unless step page_at q p x k" "\<And>k'. restores_unless step page_at q p2 y k'"
  shows "restores_unless step page_at q (seq p p2) y k"
proof -
  obtain k' where p: "page_at k' = page_at k" "run step p k = (Done x, k') \<and> granted (calls step p k)
        \<or> run step p k = (Exited 1, k') \<and> (\<exists>cs r. calls step p k = cs @ [(q, r)] \<and> granted cs \<and> refused (q, r))"
    using assms(1) by (auto simp: restores_unless_def)
  obtain k2 where p2: "page_at k2 = page_at k'" "run step p2 k' = (Done y, k2) \<and> granted (calls step p2 k')
        \<or> run step p2 k' = (Exited 1, k2) \<and> (\<exists>cs r. calls step p2 k' = cs @ [(q, r)] \<and> granted cs \<and> refused (q, r))"
    using assms(2) [of k'] by (auto simp: restores_unless_def)
  show ?thesis
    using p(2)
  proof
    assume 1: "run step p k = (Done x, k') \<and> granted (calls step p k)"
    then have "run step (seq p p2) k = run step p2 k'" "calls step (seq p p2) k = calls step p k @ calls step p2 k'"
      by (simp_all add: run_seq calls_seq)
    then show ?thesis using p(1) p2 1 unfolding restores_unless_def by (metis append_assoc granted_simps(3))
  next
    assume "run step p k = (Exited 1, k') \<and> (\<exists>cs r. calls step p k = cs @ [(q, r)] \<and> granted cs \<and> refused (q, r))"
    then show ?thesis using p(1) by (auto simp: restores_unless_def seq_def run_bnd calls_bnd)
  qed
qed

lemma restores_unless_seqs:
  "(\<And>p k. p \<in> set ps \<Longrightarrow> restores_unless step page_at q p () k) \<Longrightarrow> restores_unless step page_at q (seqs ps) () k"
  by (induction ps arbitrary: k) (auto intro: restores_unless_seq)

text \<open>A program that exits with status 1, at whatever point, or completes with the pages as they were.\<close>

definition restores :: "'k kernel \<Rightarrow> ('k \<Rightarrow> pages) \<Rightarrow> 'a prog \<Rightarrow> 'k \<Rightarrow> bool" where
  "restores step page_at p k \<longleftrightarrow> (\<exists>k'. run step p k = (Exited 1, k')) \<or> (\<exists>x k'. run step p k = (Done x, k') \<and> page_at k' = page_at k)"

lemma restores_Return [simp]: "restores step page_at (Return x) k"
  by (simp add: restores_def)

lemma restores_seq: "restores step page_at p k \<Longrightarrow> (\<And>k'. restores step page_at q k') \<Longrightarrow> restores step page_at (seq p q) k"
  unfolding restores_def by (auto simp: seq_def run_bnd split: prod.splits outcome.splits) metis+

lemma restores_seqs: "(\<And>p k. p \<in> set ps \<Longrightarrow> restores step page_at p k) \<Longrightarrow> restores step page_at (seqs ps) k"
  by (induction ps arbitrary: k) (auto intro: restores_seq)

lemma exec_rops_append: "exec_rops psz ptr (xs @ ys) = seq (exec_rops psz ptr xs) (exec_rops psz ptr ys)"
  by (simp add: exec_rops_def seqs_append)

context tool_kernel
begin

lemma exec_rop_ok:
  assumes "region psz ptr (length L)" "range_shows psz ptr (page_at k) L" "arop q L = Some L'"
  shows "\<exists>k'. run step (exec_rop psz ptr q) k = (Done (), k') \<and> range_shows psz ptr (page_at k') L'
    \<and> same_outside psz ptr (length L) (page_at k) (page_at k')"
proof -
  have fit: "fits psz (length L)" using assms(1) by (simp add: region_def)
  have L: "layout psz (page_at k) ptr (length L) = L" using assms(2) by (simp add: range_shows_def)
  note rules = layout_map_pages [OF fit psz_pos] layout_protect_pages [OF fit psz_pos] layout_move_pages [OF fit psz_pos]
    layout_touch_page [OF fit psz_pos]
  show ?thesis
  proof (cases q)
    case (RMap off n pr fl)
    then have i: "off + n \<le> length L" "0 < n" "MAP_FIXED \<in> set fl" "MAP_ANON \<in> set fl" "L' = lput off n (\<lambda>_. Some (new_page pr fl)) L"
      using assms(3) by (auto split: if_splits)
    then obtain k' where "run step (mmap_or_exit (pg_at psz ptr off) (of_nat n * psz) pr fl) k = (Done (pg_at psz ptr off), k')"
      "page_at k' = map_pages psz (pg_at psz ptr off) n (Some (new_page pr fl)) (page_at k)"
      using run_mmap_fixed [OF assms(1)] by blast
    then show ?thesis using i L by (auto simp: RMap exec_rop_def run_bnd range_shows_def rules same_outside_ops)
  next
    case (RUnmap chk off n)
    then have i: "off + n \<le> length L" "0 < n" "L' = lput off n (\<lambda>_. None) L" using assms(3) by (auto split: if_splits)
    then obtain k' where "step k (SMunmap (pg_at psz ptr off) (of_nat n * psz)) = Some (k', (0, 0, 0))"
      "page_at k' = map_pages psz (pg_at psz ptr off) n None (page_at k)" using step_munmap [OF assms(1)] by blast
    then show ?thesis using i L run_check0 [of step k] run_ignore [of step k]
      by (auto simp: RUnmap exec_rop_def range_shows_def rules same_outside_ops)
  next
    case (RMove off off' n rf)
    then have i: "off + n \<le> length L" "off' + n \<le> length L" "0 < n" "off + n \<le> off' \<or> off' + n \<le> off" "luniform off n L"
      "MREMAP_FIXED \<in> set rf" "MREMAP_MAYMOVE \<in> set rf" "MREMAP_DONTUNMAP \<notin> set rf" "L' = lmove off off' n L"
      using assms(3) by (auto split: if_splits)
    obtain k' where "step k (SMremap (pg_at psz ptr off) (of_nat n * psz) (of_nat n * psz) rf (pg_at psz ptr off'))
        = Some (k', (pg_at psz ptr off', 0, 0))"
      "page_at k' = move_pages psz (pg_at psz ptr off) (pg_at psz ptr off') n False (page_at k)"
      using step_move [OF assms(1) i(1-4) _ i(6,7), of k] i(5,8) L by auto
    moreover have "pg_at psz ptr off' \<noteq> MAP_FAILED" using region_not_failed [OF assms(1) psz_pos, of off'] i by simp
    ultimately show ?thesis using i L
      by (auto simp: RMove exec_rop_def run_bnd run_call range_shows_def rules same_outside_ops lmove_def)
  next
    case (RProtect off n pr)
    then have i: "off + n \<le> length L" "0 < n" "lmapped off n L"
      "L' = lput off n (\<lambda>i. map_option (p_prot_update (\<lambda>_. pr)) (L ! i)) L" using assms(3) by (auto split: if_splits)
    obtain k' where "step k (SMprotect (pg_at psz ptr off) (of_nat n * psz) pr) = Some (k', (0, 0, 0))"
      "page_at k' = protect_pages psz (pg_at psz ptr off) n pr (page_at k)"
      using step_mprotect [OF assms(1) i(1,2), of k pr] i(3) L by auto
    then show ?thesis using i L run_check0 [of step k]
      by (auto simp: RProtect exec_rop_def range_shows_def rules same_outside_ops)
  next
    case (RTouch off c)
    then have i: "off < length L" "writable (L ! off)" "L' = lput off 1 (\<lambda>i. map_option (p_pop_update (\<lambda>_. True)) (L ! i)) L"
      using assms(3) by (auto split: if_splits)
    then obtain pg where "layout psz (page_at k) ptr (length L) ! off = Some pg" "PROT_WRITE \<in> set (p_prot pg)"
      using L by (auto simp: writable_def split: option.splits)
    then obtain k' r where "step k (SStore (pg_at psz ptr off) c) = Some (k', r)"
      "page_at k' = touch_page (pg_at psz ptr off) (page_at k)" using step_store [OF assms(1) i(1)] by blast
    then show ?thesis using i L run_ignore [of step k]
      by (auto simp: RTouch exec_rop_def range_shows_def rules same_outside_touch)
  next
    case (RAdvise off n)
    then show ?thesis using assms(2,3) advise [of k "pg_at psz ptr off" "of_nat n * psz"] run_ignore [of step k]
      by (auto simp: exec_rop_def range_shows_def)
  next
    case (RIo q')
    then show ?thesis using assms(2,3) harmless_step [of q' k] run_ignore [of step k]
      by (auto simp: exec_rop_def range_shows_def split: if_splits)
  qed
qed

lemma exec_rops_ok:
  assumes "region psz ptr (length L)" "range_shows psz ptr (page_at k) L" "arops qs L = Some L'"
  shows "\<exists>k'. run step (exec_rops psz ptr qs) k = (Done (), k') \<and> range_shows psz ptr (page_at k') L'
    \<and> same_outside psz ptr (length L) (page_at k) (page_at k')"
  using assms
proof (induction qs arbitrary: k L)
  case Nil
  then show ?case by (auto simp: exec_rops_def)
next
  case (Cons q qs)
  then obtain L1 where L1: "arop q L = Some L1" "arops qs L1 = Some L'" by (auto simp: bind_eq_Some_conv)
  obtain k1 where k1: "run step (exec_rop psz ptr q) k = (Done (), k1)" "range_shows psz ptr (page_at k1) L1"
    "same_outside psz ptr (length L) (page_at k) (page_at k1)"
    using exec_rop_ok [OF Cons.prems(1,2) L1(1)] by blast
  have len: "length L1 = length L" using length_arop [OF L1(1)] .
  obtain k2 where k2: "run step (exec_rops psz ptr qs) k1 = (Done (), k2)" "range_shows psz ptr (page_at k2) L'"
    "same_outside psz ptr (length L) (page_at k1) (page_at k2)"
    using Cons.IH [OF _ k1(2) L1(2)] Cons.prems(1) len by auto
  have "run step (exec_rops psz ptr (q # qs)) k = (Done (), k2)"
    using k2(1) by (simp add: exec_rops_def run_seq [OF k1(1)])
  then show ?case using k2 same_outside_trans [OF k1(3) k2(3)] by blast
qed

lemma harmless_granted: "harmless q \<Longrightarrow> \<not> refused (q, r)"
  by (auto simp: harmless_def refused_def split: sys.splits)

text \<open>No call of such a list is refused.\<close>

lemma exec_rop_granted:
  assumes "region psz ptr (length L)" "range_shows psz ptr (page_at k) L" "arop q L = Some L'"
  shows "granted (calls step (exec_rop psz ptr q) k)"
proof -
  have L: "layout psz (page_at k) ptr (length L) = L" using assms(2) by (simp add: range_shows_def)
  obtain k1 where ok: "run step (exec_rop psz ptr q) k = (Done (), k1)" using exec_rop_ok [OF assms] by blast
  show ?thesis
  proof (cases q)
    case (RUnmap chk off n)
    then have "off + n \<le> length L" "0 < n" using assms(3) by (auto split: if_splits)
    then show ?thesis using step_munmap [OF assms(1), of off n k] RUnmap
      by (auto simp: exec_rop_def check0_def ignore_def calls_bnd calls_call run_call refused_def)
  next
    case (RProtect off n pr)
    then have "off + n \<le> length L" "0 < n" "lmapped off n (layout psz (page_at k) ptr (length L))" using assms(3) L by (auto split: if_splits)
    then show ?thesis using step_mprotect [OF assms(1), of off n k pr] RProtect
      by (auto simp: exec_rop_def check0_def calls_bnd calls_call run_call refused_def)
  next
    case (RIo q')
    then show ?thesis using assms(3) harmless_granted
      by (auto simp: exec_rop_def ignore_def calls_bnd calls_call split: if_splits option.splits prod.splits outcome.splits)
  qed (use ok in \<open>auto simp: exec_rop_def mmap_or_exit_def ignore_def fatal_def run_bnd calls_bnd calls_call call_def refused_def
      split: if_splits option.splits prod.splits outcome.splits\<close>)
qed

lemma exec_rops_granted:
  assumes "region psz ptr (length L)" "range_shows psz ptr (page_at k) L" "arops qs L = Some L'"
  shows "granted (calls step (exec_rops psz ptr qs) k)"
  using assms
proof (induction qs arbitrary: k L)
  case (Cons q qs)
  then obtain L1 where L1: "arop q L = Some L1" "arops qs L1 = Some L'" by (auto simp: bind_eq_Some_conv)
  obtain k1 where k1: "run step (exec_rop psz ptr q) k = (Done (), k1)" "range_shows psz ptr (page_at k1) L1"
    using exec_rop_ok [OF Cons.prems(1,2) L1(1)] by blast
  have "granted (calls step (exec_rops psz ptr qs) k1)"
    using Cons.IH [OF _ k1(2) L1(2)] Cons.prems(1) length_arop [OF L1(1)] by simp
  then show ?case using exec_rop_granted [OF Cons.prems(1,2) L1(1)] k1(1) by (simp add: exec_rops_def calls_seq)
qed (simp add: exec_rops_def)

lemma restores_unless_ignore:
  assumes "harmless q'"
  shows "restores_unless step page_at q (ignore q') () k"
proof -
  obtain k' r where s: "step k q' = Some (k', r)" "page_at k' = page_at k" using harmless_step [OF assms] by blast
  then have "calls step (ignore q') k = [(q', r)]" by (simp add: ignore_def calls_bnd calls_call run_call [of step k])
  then show ?thesis using run_ignore [of step k, OF s(1)] s(2) harmless_granted [OF assms] by (simp add: restores_unless_def)
qed

lemma ends_harmless: "harmless q \<Longrightarrow> ends (run step (ignore q) k)"
  using harmless_step [of q k] run_ignore [of step k] by (auto simp: ends_def)

lemma restores_ignore: "harmless q \<Longrightarrow> restores step page_at (ignore q) k"
  using harmless_step [of q k] run_ignore [of step k] by (auto simp: restores_def)

lemma ends_ignore_seq: "harmless q \<Longrightarrow> (\<And>k'. ends (run step p k')) \<Longrightarrow> ends (run step (seq (ignore q) p) k)"
  unfolding seq_def by (rule ends_bnd) (auto intro: ends_harmless)

lemma run_map_range:
  assumes "fits psz n" "MAP_FIXED \<notin> set fl" "MAP_ANON \<in> set fl"
  shows "(\<exists>k'. run step (mmap_or_exit 0 (of_nat n * psz) pr fl) k = (Exited 1, k'))
    \<or> (\<exists>k' a. run step (mmap_or_exit 0 (of_nat n * psz) pr fl) k = (Done a, k') \<and> region psz a n
        \<and> unmapped psz a n (page_at k) \<and> range_shows psz a (page_at k') (replicate n (Some (new_page pr fl)))
        \<and> same_outside psz a n (page_at k) (page_at k'))"
proof -
  consider k' where "step k (SMmap 0 (of_nat n * psz) pr fl) = Some (k', (MAP_FAILED, 0, 0))"
    | k' a where "step k (SMmap 0 (of_nat n * psz) pr fl) = Some (k', (a, 0, 0))"
      "a \<noteq> MAP_FAILED" "page_addr psz a" "unat a + n * unat psz < 2 ^ 64" "unmapped psz a n (page_at k)"
      "page_at k' = map_pages psz a n (Some (new_page pr fl)) (page_at k)"
    using mmap_anywhere [OF assms(2,3,1), of k pr] by auto
  then show ?thesis
  proof cases
    case 1
    then show ?thesis by (auto dest!: run_mmap_or_exit)
  next
    case 2
    have "layout psz (page_at k') a n = replicate n (Some (new_page pr fl))"
      using layout_map_pages [OF assms(1) psz_pos, of 0 n a] 2(6) by (auto intro!: nth_equalityI)
    then show ?thesis using assms 2 run_mmap_or_exit [of step k, OF 2(1)] same_outside_ops(1) [of 0 n n psz a]
      by (auto simp: region_def range_shows_def)
  qed
qed

lemma run_reserve_range:
  assumes "fits psz n" "MAP_FIXED \<notin> set fl" "MAP_ANON \<in> set fl" "MAP_POPULATE \<notin> set fl"
  shows "(\<exists>k'. run step (mmap_or_exit 0 (of_nat n * psz) [] fl) k = (Exited 1, k'))
    \<or> (\<exists>k' a. run step (mmap_or_exit 0 (of_nat n * psz) [] fl) k = (Done a, k') \<and> region psz a n
        \<and> unmapped psz a n (page_at k) \<and> range_shows psz a (page_at k') (no_access n) \<and> same_outside psz a n (page_at k) (page_at k'))"
  using run_map_range [OF assms(1-3), of "[]" k] assms(4) by (simp add: no_access_def new_page_def)

text \<open>A program that reserves a range, works in it and unmaps all of it leaves the process as it was.\<close>

lemma same_pages:
  assumes "unmapped psz a n m" "same_outside psz a n m m'" "range_shows psz a m' (replicate n None)"
  shows "m' = m"
proof
  fix p
  show "m' p = m p"
  proof (cases "in_pages psz a n p")
    case True
    then obtain i where i: "i < n" "p = pg_at psz a i" by (auto simp: in_pages_iff)
    have "layout psz m' a n ! i = None" using assms(3) i(1) by (simp add: range_shows_def)
    then show ?thesis using i assms(1) by (simp add: unmapped_def list_all_iff)
  next
    case False
    then show ?thesis using assms(2) by (simp add: same_outside_def)
  qed
qed

lemma reserved_program:
  assumes "fits psz n" "MAP_FIXED \<notin> set fl" "MAP_ANON \<in> set fl" "MAP_POPULATE \<notin> set fl"
    "\<And>ptr. arops (qs ptr) (no_access n) = Some (replicate n None)"
  shows "restores step page_at (bnd (mmap_or_exit 0 (of_nat n * psz) [] fl) (\<lambda>ptr. exec_rops psz ptr (qs ptr))) k"
proof (cases "\<exists>k'. run step (mmap_or_exit 0 (of_nat n * psz) [] fl) k = (Exited 1, k')")
  case True
  then show ?thesis by (auto simp: restores_def run_bnd)
next
  case False
  then obtain k1 a where 1: "run step (mmap_or_exit 0 (of_nat n * psz) [] fl) k = (Done a, k1)" "region psz a n"
    "range_shows psz a (page_at k1) (no_access n)" "unmapped psz a n (page_at k)" "same_outside psz a n (page_at k) (page_at k1)"
    using run_reserve_range [OF assms(1-4), of k] by blast
  obtain k2 where 2: "run step (exec_rops psz a (qs a)) k1 = (Done (), k2)" "range_shows psz a (page_at k2) (replicate n None)"
    "same_outside psz a n (page_at k1) (page_at k2)"
    using exec_rops_ok [OF _ 1(3) assms(5)] 1(2) by auto
  have "page_at k2 = page_at k"
    by (rule same_pages [OF 1(4) same_outside_trans [OF 1(5) 2(3)] 2(2)])
  then show ?thesis using 2(1) by (auto simp: restores_def run_bnd_Done [OF 1(1)])
qed

lemma reserved_unless:
  assumes "fits psz n" "MAP_FIXED \<notin> set fl" "MAP_ANON \<in> set fl" "MAP_POPULATE \<notin> set fl"
    "\<And>ptr. arops (qs ptr) (no_access n) = Some (replicate n None)"
  shows "restores_unless step page_at (SMmap 0 (of_nat n * psz) [] fl)
    (bnd (mmap_or_exit 0 (of_nat n * psz) [] fl) (\<lambda>ptr. exec_rops psz ptr (qs ptr))) () k"
proof -
  let ?q = "SMmap 0 (of_nat n * psz) [] fl"
  consider k' where "step k ?q = Some (k', (MAP_FAILED, 0, 0))" "page_at k' = page_at k"
    | k' a where "step k ?q = Some (k', (a, 0, 0))" "a \<noteq> MAP_FAILED"
    using mmap_anywhere [OF assms(2,3,1), of k "[]"] by blast
  then show ?thesis
  proof cases
    case 1
    then have "run step (mmap_or_exit 0 (of_nat n * psz) [] fl) k = (Exited 1, k')" "calls step (mmap_or_exit 0 (of_nat n * psz) [] fl) k = [(?q, MAP_FAILED, 0, 0)]"
      by (auto simp: mmap_or_exit_def run_bnd calls_bnd call_def fatal_def)
    then show ?thesis using 1 by (auto simp: restores_unless_def run_bnd calls_bnd refused_def)
  next
    case 2
    then have c: "calls step (mmap_or_exit 0 (of_nat n * psz) [] fl) k = [(?q, a, 0, 0)]" and d: "run step (mmap_or_exit 0 (of_nat n * psz) [] fl) k = (Done a, k')"
      by (auto simp: mmap_or_exit_def run_bnd calls_bnd call_def)
    have r: "region psz a n" "range_shows psz a (page_at k') (no_access n)" using run_reserve_range [OF assms(1-4), of k] d by auto
    have g: "granted (calls step (exec_rops psz a (qs a)) k')" using exec_rops_granted [OF _ r(2) assms(5)] r(1) by simp
    have "restores step page_at (bnd (mmap_or_exit 0 (of_nat n * psz) [] fl) (\<lambda>ptr. exec_rops psz ptr (qs ptr))) k"
      by (rule reserved_program [OF assms])
    moreover obtain k2 where "run step (exec_rops psz a (qs a)) k' = (Done (), k2)" using exec_rops_ok [OF _ r(2) assms(5)] r(1) by auto
    ultimately show ?thesis using c d g 2(2) by (auto simp: restores_unless_def restores_def run_bnd calls_bnd refused_def)
  qed
qed

end

end
