(* ===== verification/Procmap.thy ===== *)
theory Procmap
  imports Range_Prog C_Lib
begin

text \<open>
  \<open>random/procmap.c\<close>: a test that places mappings in various states side by side with \<open>mremap\<close> and asks
  the kernel, through \<open>PROCMAP_QUERY\<close>, which of them merged. The bounds in the answer to a query are
  the kernel's, so the program is verified for any answer.
\<close>

section \<open>Configurations\<close>

datatype query_result = MERGE_UNKNOWN | NO_MERGE | MERGE_0_1 | MERGE_1_2 | MERGE_ALL

datatype vma_state = NO_VMA | EMPTY_ANON_VMA | SAME_ANON_VMA | DIFFERENT_ANON_VMA | DIFFERENT_ANON_VMA2
  | NUM_VMA_STATES

definition state_to_char :: "vma_state \<Rightarrow> char" where
  "state_to_char st = (case st of NO_VMA \<Rightarrow> CHR ''_'' | EMPTY_ANON_VMA \<Rightarrow> CHR ''.'' | SAME_ANON_VMA \<Rightarrow> CHR ''P''
     | DIFFERENT_ANON_VMA \<Rightarrow> CHR ''x'' | DIFFERENT_ANON_VMA2 \<Rightarrow> CHR ''y'' | NUM_VMA_STATES \<Rightarrow> CHR ''?'')"

record mremap_merge_config =
  map_fd :: u64
  states :: "vma_state \<times> vma_state"
  primary_populated :: bool
  relocate_anon :: bool

definition print_conf_state :: "mremap_merge_config \<Rightarrow> string" where
  "print_conf_state conf = [state_to_char (fst (states conf)),
     if primary_populated conf then CHR ''P'' else CHR ''.'', state_to_char (snd (states conf))]"

definition vma_state_of :: "mremap_merge_config \<Rightarrow> nat \<Rightarrow> vma_state" where
  "vma_state_of conf ind = (if ind = 0 then fst (states conf) else snd (states conf))"

definition is_none :: "mremap_merge_config \<Rightarrow> nat \<Rightarrow> bool" where
  "is_none conf ind \<longleftrightarrow> vma_state_of conf ind = NO_VMA"

definition is_empty :: "mremap_merge_config \<Rightarrow> nat \<Rightarrow> bool" where
  "is_empty conf ind \<longleftrightarrow> vma_state_of conf ind = EMPTY_ANON_VMA"

definition is_same :: "mremap_merge_config \<Rightarrow> nat \<Rightarrow> bool" where
  "is_same conf ind \<longleftrightarrow> vma_state_of conf ind = SAME_ANON_VMA"

definition is_diff :: "mremap_merge_config \<Rightarrow> nat \<Rightarrow> bool" where
  "is_diff conf ind \<longleftrightarrow> vma_state_of conf ind = DIFFERENT_ANON_VMA \<or> vma_state_of conf ind = DIFFERENT_ANON_VMA2"

definition is_primary_pop :: "mremap_merge_config \<Rightarrow> bool" where
  "is_primary_pop conf \<longleftrightarrow> primary_populated conf"

section \<open>Placing the mappings\<close>

definition move_flags :: "bool \<Rightarrow> mremap_flag list" where
  "move_flags reloc = [MREMAP_FIXED, MREMAP_MAYMOVE] @ (if reloc then [MREMAP_MUST_RELOCATE_ANON] else [])"

text \<open>\<open>mremap_move\<close> ends the program when \<open>mremap\<close> fails, as \<open>RMove\<close> does.\<close>

definition mremap_move :: "mremap_merge_config \<Rightarrow> nat \<Rightarrow> nat \<Rightarrow> nat \<Rightarrow> rop" where
  "mremap_move conf src_offset tgt_offset num_pages = RMove src_offset tgt_offset num_pages (move_flags (relocate_anon conf))"

definition rw :: "prot list" where
  "rw = [PROT_READ, PROT_WRITE]"

definition init_mappings :: "mremap_merge_config \<Rightarrow> rop list" where
  "init_mappings conf =
     RMap 0 3 rw [MAP_PRIVATE, MAP_ANON, MAP_FIXED] #
     (if is_same conf 0 \<and> is_same conf 1 \<and> is_primary_pop conf then
        [RTouch 0 (CHR ''x''), mremap_move conf 1 9 1]
      else
        [mremap_move conf 1 4 2]
        @ (if is_same conf 1 then [RTouch 4 (CHR ''x'')] else [])
        @ [mremap_move conf 4 1 1]
        @ (if is_same conf 0 then [RTouch 0 (CHR ''x'')] else [])
        @ [mremap_move conf 1 3 1]
        @ (if is_primary_pop conf then [RTouch 3 (CHR ''x'')] else [])
        @ (if is_diff conf 0 \<and> is_diff conf 1 \<and> vma_state_of conf 0 \<noteq> vma_state_of conf 1
           then [RTouch 0 (CHR ''x''), RTouch 5 (CHR ''x'')] else [])
        @ [mremap_move conf 5 1 1]
        @ (if is_diff conf 0 \<and> is_diff conf 1 then [RTouch 0 (CHR ''x'')] else [])
        @ [mremap_move conf 3 9 1, mremap_move conf 1 2 1]
        @ (if is_none conf 0 then [RUnmap False 0 1] else [])
        @ (if is_none conf 1 then [RUnmap False 2 1] else []))"

section \<open>Queries\<close>

definition query :: "u64 \<Rightarrow> u64 \<Rightarrow> resp prog" where
  "query fd addr = Sys (SQuery fd addr) Return"

definition classify :: "u64 \<Rightarrow> u64 \<Rightarrow> u64 \<Rightarrow> u64 \<Rightarrow> query_result" where
  "classify psz ptr st en =
     (let len = en - st in
      if len \<le> psz then NO_MERGE
      else if len = 3 * psz then MERGE_ALL
      else if st = ptr then MERGE_0_1
      else if st = pg_at psz ptr 1 then MERGE_1_2
      else MERGE_UNKNOWN)"

definition query_ptr :: "u64 \<Rightarrow> mremap_merge_config \<Rightarrow> u64 \<Rightarrow> query_result prog" where
  "query_ptr psz conf ptr =
     bnd (query (map_fd conf) (pg_at psz ptr 1)) (\<lambda>(ret, st, en).
       if ret \<noteq> 0 then fatal else Return (classify psz ptr st en))"

text \<open>\<open>__try_mremap\<close>.\<close>

definition do_try_mremap :: "u64 \<Rightarrow> mremap_merge_config \<Rightarrow> query_result prog" where
  "do_try_mremap psz conf =
     bnd (mmap_or_exit 0 (10 * psz) [] [MAP_PRIVATE, MAP_ANON]) (\<lambda>ptr.
       seq (exec_rops psz ptr (init_mappings conf))
         (seq (exec_rop psz ptr (mremap_move conf 9 1 1)) (query_ptr psz conf ptr)))"

definition try_mremap :: "u64 \<Rightarrow> mremap_merge_config \<Rightarrow> (query_result \<times> bool) prog" where
  "try_mremap psz conf =
     (if is_none conf 0 \<and> is_none conf 1 then Return (NO_MERGE, True)
      else if \<not> is_primary_pop conf \<and> (is_same conf 0 \<or> is_same conf 1) then Return (NO_MERGE, True)
      else bnd (do_try_mremap psz conf) (\<lambda>res. Return (res, False)))"

definition result_text :: "query_result \<Rightarrow> string" where
  "result_text res = (case res of MERGE_UNKNOWN \<Rightarrow> ''???'' | NO_MERGE \<Rightarrow> ''NO MERGE'' | MERGE_ALL \<Rightarrow> ''MERGE 0,1,2''
     | MERGE_0_1 \<Rightarrow> ''MERGE 0,1'' | MERGE_1_2 \<Rightarrow> ''MERGE 1,2'')"

definition print_query_result :: "mremap_merge_config \<Rightarrow> query_result \<Rightarrow> unit prog" where
  "print_query_result conf res = ignore (SPuts (print_conf_state conf @ '': '' @ result_text res @ newline))"

definition init_self_procmap :: "string \<Rightarrow> u64 option prog" where
  "init_self_procmap pid =
     bnd (call (SOpen (take 255 (''/proc/'' @ pid @ ''/maps'')))) (\<lambda>fd.
       Return (if sint fd < 0 then None else Some fd))"

section \<open>The second test\<close>

text \<open>The calls of \<open>do_mremap_mprotect\<close> at the address the first \<open>mmap\<close> returned, before and after the
  query.\<close>

definition mprotect_setup :: "mremap_merge_config \<Rightarrow> rop list" where
  "mprotect_setup conf =
     [RUnmap False 0 100,
      RMap 0 10 rw [MAP_ANON, MAP_PRIVATE, MAP_FIXED, MAP_NORESERVE],
      RMap 50 10 rw [MAP_ANON, MAP_PRIVATE, MAP_FIXED, MAP_NORESERVE],
      RTouch 50 (CHR ''x''),
      RProtect 50 10 [PROT_READ],
      RTouch 5 (CHR ''x''),
      RMove 5 60 5 (move_flags (relocate_anon conf)),
      RProtect 50 10 rw]"

definition mprotect_cleanup :: "rop list" where
  "mprotect_cleanup = [RUnmap False 0 5, RUnmap False 50 10, RUnmap False 60 10]"

definition do_mremap_mprotect :: "u64 \<Rightarrow> mremap_merge_config \<Rightarrow> unit prog" where
  "do_mremap_mprotect psz conf =
     bnd (mmap_or_exit 0 (100 * psz) [] [MAP_ANON, MAP_PRIVATE]) (\<lambda>ptr.
       seq (exec_rops psz ptr (mprotect_setup conf))
         (bnd (query (map_fd conf) (pg_at psz ptr 50)) (\<lambda>(ret, st, en).
           if ret \<noteq> 0 then fatal
           else seq (ignore (SPuts (if en - st > 10 * psz then ''mprotect() MERGED'' @ newline else ''mprotect() UNMERGED'' @ newline)))
             (exec_rops psz ptr mprotect_cleanup))))"

section \<open>All cases\<close>

definition all_states :: "vma_state list" where
  "all_states = [NO_VMA, EMPTY_ANON_VMA, SAME_ANON_VMA, DIFFERENT_ANON_VMA, DIFFERENT_ANON_VMA2]"

text \<open>One turn of the inner loop, with the configuration it leaves.\<close>

definition try_case :: "u64 \<Rightarrow> mremap_merge_config \<Rightarrow> unit prog" where
  "try_case psz conf = bnd (try_mremap psz conf) (\<lambda>(res, bypass). if bypass then Return () else print_query_result conf res)"

definition turn :: "u64 \<Rightarrow> vma_state \<times> vma_state \<Rightarrow> mremap_merge_config \<Rightarrow> mremap_merge_config prog" where
  "turn psz ij conf =
     (let conf = conf\<lparr>states := ij\<rparr> in
      seq (try_case psz conf)
        (let conf = conf\<lparr>primary_populated := True\<rparr> in
         seq (try_case psz conf) (Return conf)))"

fun turns :: "u64 \<Rightarrow> (vma_state \<times> vma_state) list \<Rightarrow> mremap_merge_config \<Rightarrow> mremap_merge_config prog" where
  "turns psz [] conf = Return conf"
| "turns psz (ij # ijs) conf = bnd (turn psz ij conf) (turns psz ijs)"

definition iterate_cases :: "u64 \<Rightarrow> mremap_merge_config \<Rightarrow> mremap_merge_config prog" where
  "iterate_cases psz conf =
     bnd (turns psz (List.product all_states all_states) conf) (\<lambda>conf.
       seq (do_mremap_mprotect psz conf) (Return conf))"

definition procmap_main :: "u64 \<Rightarrow> string \<Rightarrow> int prog" where
  "procmap_main psz pid =
     bnd (init_self_procmap pid) (\<lambda>fd. case fd of
         None \<Rightarrow> Return 1
       | Some fd \<Rightarrow>
           let conf = \<lparr>map_fd = fd, states = (NO_VMA, NO_VMA), primary_populated = False, relocate_anon = False\<rparr> in
           bnd (iterate_cases psz conf) (\<lambda>conf.
             let conf = conf\<lparr>relocate_anon := True\<rparr> in
             seq (ignore (SPuts (''-- WITH MREMAP_RELOCATE_ANON: --'' @ newline)))
               (seq (iterate_cases psz conf) (seq (ignore (SClose fd)) (Return 0)))))"

section \<open>What the placement achieves\<close>

definition rw_page :: "bool \<Rightarrow> page option" where
  "rw_page pop = Some \<lparr>p_prot = rw, p_pop = pop\<rparr>"

text \<open>A configuration that \<open>try_mremap\<close> does not filter out.\<close>

definition valid_conf :: "mremap_merge_config \<Rightarrow> bool" where
  "valid_conf conf \<longleftrightarrow> fst (states conf) \<noteq> NUM_VMA_STATES \<and> snd (states conf) \<noteq> NUM_VMA_STATES
     \<and> (is_same conf 0 \<or> is_same conf 1 \<longrightarrow> primary_populated conf)"

definition placed :: "mremap_merge_config \<Rightarrow> layout \<Rightarrow> bool" where
  "placed conf L \<longleftrightarrow> length L = 10
     \<and> L ! 0 = (if is_none conf 0 then None else rw_page (is_same conf 0 \<or> is_diff conf 0 \<and> is_diff conf 1))
     \<and> L ! 1 = None
     \<and> L ! 2 = (if is_none conf 1 then None
          else rw_page (is_diff conf 0 \<and> is_diff conf 1 \<and> vma_state_of conf 0 \<noteq> vma_state_of conf 1))
     \<and> L ! 9 = rw_page (primary_populated conf \<and> \<not> (is_same conf 0 \<and> is_same conf 1))"

lemma placed_cases:
  "\<forall>ij\<in>set (List.product all_states all_states). \<forall>pop re.
     let conf = \<lparr>map_fd = fd, states = ij, primary_populated = pop, relocate_anon = re\<rparr> in
     valid_conf conf \<longrightarrow> (case arops (init_mappings conf) (no_access 10) of None \<Rightarrow> False | Some L \<Rightarrow> placed conf L
       \<and> arop (mremap_move conf 9 1 1) L \<noteq> None)"
  unfolding Let_def by code_simp

lemma valid_states: "valid_conf conf \<Longrightarrow> states conf \<in> set (List.product all_states all_states)"
  by (cases "states conf"; cases "fst (states conf)"; cases "snd (states conf)") (auto simp: valid_conf_def all_states_def)

lemma init_mappings_placed:
  assumes "valid_conf conf"
  shows "\<exists>L. arops (init_mappings conf) (no_access 10) = Some L \<and> placed conf L \<and> arop (mremap_move conf 9 1 1) L \<noteq> None"
proof -
  obtain fd st pop re where c: "conf = \<lparr>map_fd = fd, states = st, primary_populated = pop, relocate_anon = re\<rparr>" by (cases conf)
  then have "st \<in> set (List.product all_states all_states)" using valid_states [OF assms] by simp
  from bspec [OF placed_cases this, of fd, THEN spec [of _ pop], THEN spec [of _ re]] show ?thesis
    using assms unfolding c Let_def by (auto split: option.split_asm)
qed

text \<open>A neighbour that is different while the other is not.\<close>

lemma lone_different:
  "is_diff conf 0 \<Longrightarrow> \<not> is_diff conf 1 \<Longrightarrow> init_mappings conf = init_mappings (conf\<lparr>states := (EMPTY_ANON_VMA, snd (states conf))\<rparr>)"
  by (auto simp: init_mappings_def is_diff_def is_same_def is_none_def is_primary_pop_def vma_state_of_def mremap_move_def)

section \<open>Schedule\<close>

definition run_case :: "u64 \<Rightarrow> mremap_merge_config \<Rightarrow> unit prog" where
  "run_case psz conf = bnd (do_try_mremap psz conf) (print_query_result conf)"

definition schedule :: "mremap_merge_config \<Rightarrow> (vma_state \<times> vma_state) list \<Rightarrow> mremap_merge_config list" where
  "schedule conf ijs = concat (map (\<lambda>ij. replicate 2 (conf\<lparr>states := ij, primary_populated := True\<rparr>)) ijs)"

lemma try_case_run: "states conf \<noteq> (NO_VMA, NO_VMA) \<Longrightarrow> primary_populated conf \<Longrightarrow> try_case psz conf = run_case psz conf"
  by (cases "states conf")
    (auto simp: try_case_def try_mremap_def run_case_def is_none_def is_primary_pop_def vma_state_of_def bnd_assoc)

lemma turns_schedule:
  assumes "primary_populated conf" "(NO_VMA, NO_VMA) \<notin> set ijs"
  shows "turns psz ijs conf = bnd (seqs (map (run_case psz) (schedule conf ijs)))
     (\<lambda>_. Return (conf\<lparr>states := last (states conf # ijs)\<rparr>))"
  using assms
proof (induction ijs arbitrary: conf)
  case Nil
  then show ?case by (simp add: schedule_def)
next
  case (Cons ij ijs)
  let ?c = "conf\<lparr>states := ij\<rparr>"
  have p: "?c\<lparr>primary_populated := True\<rparr> = ?c" using Cons.prems(1) by simp
  have t: "try_case psz ?c = run_case psz ?c" using Cons.prems by (intro try_case_run) auto
  have "turns psz ijs ?c = bnd (seqs (map (run_case psz) (schedule ?c ijs))) (\<lambda>_. Return (?c\<lparr>states := last (ij # ijs)\<rparr>))"
    using Cons.IH [of ?c] Cons.prems by simp
  moreover have "schedule conf (ij # ijs) = [?c, ?c] @ schedule ?c ijs"
    using Cons.prems(1) p by (simp add: schedule_def numeral_2_eq_2)
  ultimately show ?case
    by (simp add: turn_def Let_def t p seq_def bnd_assoc)
qed

lemma classify_spec:
  assumes "fits psz 3" "0 < psz" "i \<le> 1" "2 \<le> j" "j \<le> 3"
  shows "classify psz ptr (pg_at psz ptr i) (pg_at psz ptr j)
    = (if i = 0 then (if j = 3 then MERGE_ALL else MERGE_0_1) else (if j = 3 then MERGE_1_2 else NO_MERGE))"
proof -
  have u: "unat (of_nat m * psz) = m * unat psz" if "m < 3" for m using unat_index [OF assms(1) that] .
  have u3: "unat (3 * psz) = 3 * unat psz"
    using assms(1) by (simp add: fits_def unat_word_ariths)
  have p: "0 < unat psz" using assms(2) by (simp add: word_less_nat_alt)
  have d: "pg_at psz ptr j - pg_at psz ptr i = of_nat (j - i) * psz"
    using assms by (simp add: pg_at_def of_nat_diff algebra_simps)
  have n: "\<not> 2 * psz \<le> psz" "\<not> 3 * psz \<le> psz" "2 * psz \<noteq> 3 * psz" "psz \<noteq> 3 * psz"
    using u [of 2] u3 p by (auto simp: word_le_nat_alt word_unat_eq_iff)
  have q: "pg_at psz ptr 1 \<noteq> ptr" using pg_at_inj [OF assms(1,2), of 1 0 ptr] by simp
  have ij: "(i = 0 \<or> i = 1) \<and> (j = 2 \<or> j = 3)" using assms by linarith
  then show ?thesis using d n q by (auto simp: classify_def Let_def)
qed

section \<open>Running the program\<close>

lemma setup_cases:
  "\<forall>re. let conf = \<lparr>map_fd = fd, states = st, primary_populated = pop, relocate_anon = re\<rparr> in
     arops (mprotect_setup conf @ mprotect_cleanup) (no_access 100) = Some (replicate 100 None)"
  unfolding Let_def by code_simp

lemma setup_layout:
  "\<exists>L. arops (mprotect_setup conf) (no_access 100) = Some L \<and> arops mprotect_cleanup L = Some (replicate 100 None)"
proof -
  obtain fd st pop re where c: "conf = \<lparr>map_fd = fd, states = st, primary_populated = pop, relocate_anon = re\<rparr>" by (cases conf)
  then have "arops (mprotect_setup conf @ mprotect_cleanup) (no_access 100) = Some (replicate 100 None)"
    using setup_cases [of fd st pop] unfolding Let_def by blast
  then show ?thesis by (simp only: arops_append bind_eq_Some_conv)
qed

context tool_kernel
begin

lemma run_query: "\<exists>k' r. run step (query fd a) k = (Done r, k') \<and> page_at k' = page_at k"
  using harmless_step [of "SQuery fd a" k] by (auto simp: query_def harmless_def)

lemma ends_try:
  assumes "fits psz 10" "valid_conf conf"
  shows "ends (run step (do_try_mremap psz conf) k)"
proof (cases "\<exists>k'. run step (mmap_or_exit 0 (of_nat 10 * psz) [] [MAP_PRIVATE, MAP_ANON]) k = (Exited 1, k')")
  case True
  then show ?thesis by (auto simp: do_try_mremap_def run_bnd ends_def)
next
  case False
  then obtain k1 a where 1: "run step (mmap_or_exit 0 (10 * psz) [] [MAP_PRIVATE, MAP_ANON]) k = (Done a, k1)" "region psz a 10"
    "range_shows psz a (page_at k1) (no_access 10)" using run_reserve_range [OF assms(1), of "[MAP_PRIVATE, MAP_ANON]" k] by auto
  obtain L L' where L: "arops (init_mappings conf) (no_access 10) = Some L" "arop (mremap_move conf 9 1 1) L = Some L'"
    using init_mappings_placed [OF assms(2)] by auto
  have len: "length (no_access 10) = 10" "length L = 10" using length_arops [OF L(1)] by (simp_all add: no_access_def)
  obtain k2 where 2: "run step (exec_rops psz a (init_mappings conf)) k1 = (Done (), k2)" "range_shows psz a (page_at k2) L"
    using exec_rops_ok [OF _ 1(3) L(1)] 1(2) len by auto
  obtain k3 where 3: "run step (exec_rop psz a (mremap_move conf 9 1 1)) k2 = (Done (), k3)"
    using exec_rop_ok [OF _ 2(2) L(2)] 1(2) len by auto
  obtain k4 r where 4: "run step (query (map_fd conf) (pg_at psz a 1)) k3 = (Done r, k4)" using run_query by blast
  show ?thesis
    by (cases r) (auto simp: do_try_mremap_def run_bnd_Done [OF 1(1)] run_seq [OF 2(1)] run_seq [OF 3] query_ptr_def run_bnd_Done [OF 4]
        simp del: One_nat_def)
qed

lemma ends_try_case:
  assumes "fits psz 10" "states conf \<in> set (List.product all_states all_states)"
  shows "ends (run step (try_case psz conf) k)"
proof -
  have "valid_conf conf" if "\<not> (\<not> is_primary_pop conf \<and> (is_same conf 0 \<or> is_same conf 1))"
    using that assms(2) by (cases "states conf") (auto simp: valid_conf_def is_primary_pop_def all_states_def)
  then have "ends (run step (try_mremap psz conf) k)"
    by (auto simp: try_mremap_def intro!: ends_bnd ends_try [OF assms(1)])
  then show ?thesis unfolding try_case_def
    by (rule ends_bnd) (auto simp: print_query_result_def harmless_def intro!: ends_harmless)
qed

lemma ends_turns:
  assumes "fits psz 10" "set ijs \<subseteq> set (List.product all_states all_states)"
  shows "ends (run step (turns psz ijs conf) k)"
  using assms(2)
proof (induction ijs arbitrary: conf k)
  case Nil
  then show ?case by simp
next
  case (Cons ij ijs)
  have "ends (run step (turn psz ij conf) k)" for k
    using Cons.prems assms(1) by (auto simp: turn_def Let_def seq_def intro!: ends_bnd ends_try_case)
  then show ?case using Cons by (auto intro!: ends_bnd)
qed

lemma run_mprotect_test:
  assumes "fits psz 100"
  shows "ends (run step (do_mremap_mprotect psz conf) k)
    \<and> (\<forall>k'. run step (do_mremap_mprotect psz conf) k = (Done (), k') \<longrightarrow> page_at k' = page_at k)"
proof (cases "\<exists>k'. run step (mmap_or_exit 0 (of_nat 100 * psz) [] [MAP_ANON, MAP_PRIVATE]) k = (Exited 1, k')")
  case True
  then show ?thesis by (auto simp: do_mremap_mprotect_def run_bnd)
next
  case False
  then obtain k1 a where 1: "run step (mmap_or_exit 0 (100 * psz) [] [MAP_ANON, MAP_PRIVATE]) k = (Done a, k1)" "region psz a 100"
    "range_shows psz a (page_at k1) (no_access 100)" "unmapped psz a 100 (page_at k)" "same_outside psz a 100 (page_at k) (page_at k1)"
    using run_reserve_range [OF assms, of "[MAP_ANON, MAP_PRIVATE]" k] by auto
  obtain L where L: "arops (mprotect_setup conf) (no_access 100) = Some L" "arops mprotect_cleanup L = Some (replicate 100 None)"
    using setup_layout by blast
  have len: "length (no_access 100) = 100" "length L = 100" using length_arops [OF L(1)] by (simp_all add: no_access_def)
  obtain k2 where 2: "run step (exec_rops psz a (mprotect_setup conf)) k1 = (Done (), k2)" "range_shows psz a (page_at k2) L"
    "same_outside psz a 100 (page_at k1) (page_at k2)"
    using exec_rops_ok [OF _ 1(3) L(1)] 1(2) len by auto
  obtain k3 ret st en where 3: "run step (query (map_fd conf) (pg_at psz a 50)) k2 = (Done (ret, st, en), k3)" "page_at k3 = page_at k2"
    using run_query [of "map_fd conf" "pg_at psz a 50" k2] by auto
  let ?q = "SPuts (if en - st > 10 * psz then ''mprotect() MERGED'' @ newline else ''mprotect() UNMERGED'' @ newline)"
  obtain k4 where 4: "run step (ignore ?q) k3 = (Done (), k4)" "page_at k4 = page_at k3"
    using harmless_step [of ?q k3] run_ignore [of step k3 ?q] by (auto simp: harmless_def)
  obtain k5 where 5: "run step (exec_rops psz a mprotect_cleanup) k4 = (Done (), k5)" "range_shows psz a (page_at k5) (replicate 100 None)"
    "same_outside psz a 100 (page_at k4) (page_at k5)"
    using exec_rops_ok [OF _ _ L(2), of a k4] 1(2) 2(2) 3(2) 4(2) len by auto
  have r: "run step (do_mremap_mprotect psz conf) k = (if ret \<noteq> 0 then (Exited 1, k3) else (Done (), k5))"
    by (simp add: do_mremap_mprotect_def run_bnd_Done [OF 1(1)] run_seq [OF 2(1)] run_bnd_Done [OF 3(1)] run_seq [OF 4(1)] 5(1) fatal_def
        del: One_nat_def)
  have "same_outside psz a 100 (page_at k) (page_at k5)"
    using 1(5) 2(3) 3(2) 4(2) 5(3) by (auto intro: same_outside_trans)
  then have "page_at k5 = page_at k" using same_pages [OF 1(4)] 5(2) by blast
  then show ?thesis using r by simp
qed

lemma ends_iterate:
  assumes "fits psz 100"
  shows "ends (run step (iterate_cases psz conf) k)"
proof -
  have "fits psz 10" using assms by (simp add: fits_def)
  then show ?thesis unfolding iterate_cases_def seq_def
    by (auto intro!: ends_bnd ends_turns simp: run_mprotect_test [OF assms])
qed

lemma ends_main:
  assumes "fits psz 100"
  shows "ends (run step (procmap_main psz pid) k)"
proof -
  have "ends (run step (init_self_procmap pid) k)" for k
    using harmless_step [of "SOpen (take 255 (''/proc/'' @ pid @ ''/maps''))" k] run_call [of step k]
    by (auto simp: init_self_procmap_def run_bnd harmless_def)
  then show ?thesis unfolding procmap_main_def Let_def
    by (auto intro!: ends_bnd ends_iterate [OF assms] ends_harmless simp: seq_def harmless_def split: option.splits)
qed

end

section \<open>A reserved range\<close>

definition demo_range :: pk where
  "demo_range = \<lparr>pk_pages = map_pages PSZ 0x10000 10 (Some \<lparr>p_prot = [], p_pop = False\<rparr>) (\<lambda>_. None), pk_out = []\<rparr>"

definition demo_conf :: mremap_merge_config where
  "demo_conf = \<lparr>map_fd = 3, states = (DIFFERENT_ANON_VMA, SAME_ANON_VMA), primary_populated = True, relocate_anon = False\<rparr>"

lemma demo_region: "region PSZ 0x10000 10"
proof -
  have "(0x10000 :: u64) = of_nat 16 * PSZ" by (simp add: PSZ_def)
  then have "page_addr PSZ 0x10000" unfolding page_addr_def by blast
  then show ?thesis by (simp add: region_def fits_def PSZ_def)
qed

lemma demo_range_shows: "range_shows PSZ 0x10000 (pk_pages demo_range) (no_access 10)"
  by code_simp

section \<open>Properties\<close>

text \<open>C20. \<open>init_mappings\<close> of \<open>procmap.c\<close>, for every configuration that \<open>try_mremap\<close> lets through and on every kernel that
  keeps the promises of the interface, completes and leaves the left neighbour in page 0, the right
  one in page 2 and the mapping under test in page 9, with page 1 free between them; which of the
  pages have been touched is as the formula says.\<close>

theorem init_mappings_layout:
  assumes "tool_kernel step page_at psz" "valid_conf conf" "region psz ptr 10" "range_shows psz ptr (page_at k) (no_access 10)"
  shows "\<exists>k' L. run step (exec_rops psz ptr (init_mappings conf)) k = (Done (), k') \<and> range_shows psz ptr (page_at k') L
    \<and> L ! 0 = (if is_none conf 0 then None else rw_page (is_same conf 0 \<or> is_diff conf 0 \<and> is_diff conf 1))
    \<and> L ! 1 = None
    \<and> L ! 2 = (if is_none conf 1 then None else rw_page (is_diff conf 0 \<and> is_diff conf 1 \<and> vma_state_of conf 0 \<noteq> vma_state_of conf 1))
    \<and> L ! 9 = rw_page (primary_populated conf \<and> \<not> (is_same conf 0 \<and> is_same conf 1))"
proof -
  obtain L where L: "arops (init_mappings conf) (no_access 10) = Some L" "placed conf L" using init_mappings_placed [OF assms(2)] by blast
  moreover have "length (no_access 10) = 10" by (simp add: no_access_def)
  ultimately show ?thesis using tool_kernel.exec_rops_ok [OF assms(1) _ assms(4) L(1)] assms(3) by (auto simp: placed_def)
qed

theorem init_mappings_layout_witness:
  "\<exists>k' L. run pk_step (exec_rops PSZ 0x10000 (init_mappings demo_conf)) demo_range = (Done (), k') \<and> range_shows PSZ 0x10000 (pk_pages k') L
    \<and> L ! 0 = rw_page False \<and> L ! 2 = rw_page False \<and> L ! 9 = rw_page True"
proof -
  have "valid_conf demo_conf" by code_simp
  from init_mappings_layout [OF pk.tool_kernel_axioms this demo_region demo_range_shows] show ?thesis
    by (auto simp: demo_conf_def is_none_def is_same_def is_diff_def vma_state_of_def)
qed

text \<open>A left neighbour that should have a different \<open>anon_vma\<close> gets none unless the right one is to be different
  too: the calls made are those for an untouched left neighbour.\<close>

theorem lone_different_untouched:
  assumes "is_diff conf 0" "\<not> is_diff conf 1"
  shows "init_mappings conf = init_mappings (conf\<lparr>states := (EMPTY_ANON_VMA, snd (states conf))\<rparr>)"
  using assms by (rule lone_different)

theorem lone_different_untouched_witness:
  "init_mappings demo_conf = init_mappings (demo_conf\<lparr>states := (EMPTY_ANON_VMA, SAME_ANON_VMA)\<rparr>)"
  using lone_different_untouched [of demo_conf] by (simp add: demo_conf_def is_diff_def vma_state_of_def)

text \<open>The loops of \<open>iterate_cases\<close> never reset \<open>primary_populated\<close>: whatever its value at the start, all 24
  configurations with a neighbour are run twice with a populated mapping under test and none is run
  with an unpopulated one.\<close>

theorem iterate_cases_schedule:
  "turns psz (List.product all_states all_states) conf
     = bnd (seqs (map (run_case psz) (schedule conf (tl (List.product all_states all_states)))))
         (\<lambda>_. Return (conf\<lparr>primary_populated := True, states := (DIFFERENT_ANON_VMA2, DIFFERENT_ANON_VMA2)\<rparr>))
   \<and> length (schedule conf (tl (List.product all_states all_states))) = 48
   \<and> list_all primary_populated (schedule conf (tl (List.product all_states all_states)))"
proof (intro conjI)
  let ?ijs = "tl (List.product all_states all_states)" and ?c = "conf\<lparr>states := (NO_VMA, NO_VMA), primary_populated := True\<rparr>"
  have l: "List.product all_states all_states = (NO_VMA, NO_VMA) # ?ijs" "(NO_VMA, NO_VMA) \<notin> set ?ijs"
    "last ((NO_VMA, NO_VMA) # ?ijs) = (DIFFERENT_ANON_VMA2, DIFFERENT_ANON_VMA2)" by code_simp+
  have t: "turn psz (NO_VMA, NO_VMA) conf = Return ?c"
    by (simp add: turn_def try_case_def try_mremap_def is_none_def vma_state_of_def seq_def Let_def)
  have "schedule ?c ?ijs = schedule conf ?ijs" by (simp add: schedule_def)
  then have r: "turns psz ?ijs ?c = bnd (seqs (map (run_case psz) (schedule conf ?ijs)))
      (\<lambda>_. Return (conf\<lparr>primary_populated := True, states := (DIFFERENT_ANON_VMA2, DIFFERENT_ANON_VMA2)\<rparr>))"
    using turns_schedule [of ?c ?ijs psz] l(2,3) by simp
  have "turns psz (List.product all_states all_states) conf = turns psz ?ijs ?c"
    by (subst l(1)) (simp add: t)
  with r show "turns psz (List.product all_states all_states) conf
     = bnd (seqs (map (run_case psz) (schedule conf ?ijs)))
         (\<lambda>_. Return (conf\<lparr>primary_populated := True, states := (DIFFERENT_ANON_VMA2, DIFFERENT_ANON_VMA2)\<rparr>))"
    by simp
  show "length (schedule conf ?ijs) = 48"
    by (simp add: schedule_def all_states_def)
  show "list_all primary_populated (schedule conf ?ijs)"
    by (auto simp: schedule_def list_all_iff)
qed

text \<open>The classification of the answer to the query: when the mapping that holds page 1 runs from page \<open>i\<close> to
  page \<open>j\<close> of the three, the result names exactly the merged ones.\<close>

theorem classify_exact:
  assumes "fits psz 3" "0 < psz" "i \<le> 1" "2 \<le> j" "j \<le> 3"
  shows "classify psz ptr (pg_at psz ptr i) (pg_at psz ptr j)
    = (if i = 0 then (if j = 3 then MERGE_ALL else MERGE_0_1) else (if j = 3 then MERGE_1_2 else NO_MERGE))"
  using assms by (rule classify_spec)

theorem classify_exact_witness: "classify PSZ 0x10000 (pg_at PSZ 0x10000 1) (pg_at PSZ 0x10000 3) = MERGE_1_2"
  using classify_exact [of PSZ 1 3 "0x10000"] by (simp add: fits_def PSZ_def)

text \<open>C21. The program is never killed by a signal, whatever the kernel answers to its queries: every store goes to
  a writable page, and the only other end than its own is the exit after a failed call. When
  \<open>do_mremap_mprotect\<close> completes it has left the pages of the process as it found them.\<close>

theorem procmap_safe:
  assumes "tool_kernel step page_at psz" "fits psz 100"
  shows "ends (run step (procmap_main psz pid) k)
    \<and> (\<forall>k'. run step (do_mremap_mprotect psz conf) k = (Done (), k') \<longrightarrow> page_at k' = page_at k)"
  using tool_kernel.ends_main [OF assms] tool_kernel.run_mprotect_test [OF assms] by blast

theorem procmap_safe_witness:
  "ends (run pk_step (procmap_main PSZ ''1'') \<lparr>pk_pages = \<lambda>_. None, pk_out = []\<rparr>)"
  using procmap_safe [OF pk.tool_kernel_axioms] by (simp add: fits_def PSZ_def)

end
