(* ===== verification/Vma_Tests.thy ===== *)
theory Vma_Tests
  imports Range_Prog C_Lib
begin

text \<open>
  Test programs of \<open>random/\<close> that work inside one range of pages: \<open>mremap_unmap.c\<close>, \<open>split_vma.c\<close>,
  \<open>merge_split.c\<close>, \<open>mprotect_shrinking.c\<close>, \<open>munmap.c\<close>, \<open>mmap_simple_fixed.c\<close> and \<open>random_unmap.c\<close>. Each
  is the list of its calls; the theorems give the pages, and the mappings they form, at the points
  where the comments of the sources speak about them.
\<close>

definition RW :: "prot list" where
  "RW = [PROT_READ, PROT_WRITE]"

section \<open>\<open>mremap_unmap.c\<close>\<close>

definition yn :: "bool \<Rightarrow> char" where
  "yn b = (if b then CHR ''Y'' else CHR ''N'')"

definition touch_if :: "bool \<Rightarrow> nat \<Rightarrow> rop list" where
  "touch_if b off = (if b then [RTouch off (CHR ''x'')] else [])"

definition relocate_flags :: "mremap_flag list" where
  "relocate_flags = [MREMAP_MAYMOVE, MREMAP_FIXED, MREMAP_RELOCATE_ANON]"

definition grep_maps :: "string \<Rightarrow> u64 \<Rightarrow> u64 \<Rightarrow> sys" where
  "grep_maps pid a b = SSystem (''cat /proc/'' @ pid @ ''/maps | grep -E '' @ [CHR 0x22] @ fmt_lx a @ ''|'' @ fmt_lx b @ [CHR 0x22] @ newline)"

text \<open>The calls of \<open>do_move\<close> at the address the first \<open>mmap\<close> returned, up to the report.\<close>

definition do_move_calls :: "u64 \<Rightarrow> u64 \<Rightarrow> bool \<Rightarrow> bool \<Rightarrow> bool \<Rightarrow> rop list" where
  "do_move_calls psz ptr touch_a_first touch_a_afterwards touch_b =
     [RIo (SPuts (fmt_lx ptr @ ''-'' @ fmt_lx (pg_at psz ptr 10) @ newline)),
      RUnmap False 0 100,
      RMap 0 10 RW [MAP_ANON, MAP_PRIVATE, MAP_FIXED]]
     @ touch_if touch_a_first 0
     @ [RMove 5 15 5 relocate_flags]
     @ touch_if touch_a_afterwards 0
     @ touch_if touch_b 15
     @ [RMove 15 5 5 relocate_flags]"

definition do_move_cleanup :: "rop list" where
  "do_move_cleanup = [RUnmap False 0 5, RUnmap False 5 5]"

definition do_move :: "u64 \<Rightarrow> string \<Rightarrow> bool \<Rightarrow> bool \<Rightarrow> bool \<Rightarrow> unit prog" where
  "do_move psz pid touch_a_first touch_a_afterwards touch_b =
     seq (ignore (SPuts (''do_move: '' @ [yn touch_a_first, yn touch_a_afterwards, yn touch_b] @ newline)))
       (bnd (mmap_or_exit 0 (100 * psz) [] [MAP_ANON, MAP_PRIVATE]) (\<lambda>ptr.
         exec_rops psz ptr (do_move_calls psz ptr touch_a_first touch_a_afterwards touch_b
           @ [RIo (grep_maps pid ptr (pg_at psz ptr 5))] @ do_move_cleanup)))"

definition remap_mprotect_calls :: "u64 \<Rightarrow> string \<Rightarrow> u64 \<Rightarrow> rop list" where
  "remap_mprotect_calls psz pid ptr =
     [RIo (SPuts (fmt_lx ptr @ ''-'' @ fmt_lx (pg_at psz ptr 10) @ newline)),
      RUnmap False 0 100,
      RMap 0 10 RW [MAP_ANON, MAP_PRIVATE, MAP_FIXED],
      RMap 50 10 RW [MAP_ANON, MAP_PRIVATE, MAP_FIXED],
      RTouch 50 (CHR ''x''),
      RProtect 50 10 [PROT_READ],
      RTouch 5 (CHR ''x''),
      RMove 5 60 5 relocate_flags,
      RProtect 50 10 RW,
      RIo (grep_maps pid (pg_at psz ptr 50) (pg_at psz ptr 60)),
      RUnmap False 0 5, RUnmap False 50 10, RUnmap False 60 10]"

definition remap_mprotect :: "u64 \<Rightarrow> string \<Rightarrow> unit prog" where
  "remap_mprotect psz pid =
     seq (ignore (SPuts (newline @ ''do_mremap_mprotect'' @ newline)))
       (bnd (mmap_or_exit 0 (100 * psz) [] [MAP_ANON, MAP_PRIVATE]) (\<lambda>ptr.
         exec_rops psz ptr (remap_mprotect_calls psz pid ptr)))"

definition mremap_unmap_main :: "u64 \<Rightarrow> string \<Rightarrow> int prog" where
  "mremap_unmap_main psz pid =
     seq (seqs (map (\<lambda>i. do_move psz pid (bit i 0) (bit i 1) (bit i 2)) [0 :: nat ..< 8]))
       (seq (remap_mprotect psz pid) (Return 0))"

section \<open>\<open>split_vma.c\<close> and \<open>merge_split.c\<close>\<close>

text \<open>
  Both work on 100 pages at \<open>TARGET_PTR\<close> and first clear the page below and the page above, so the
  range here has 102 pages and starts one page below \<open>TARGET_PTR\<close>: page \<open>i\<close> of the source is page
  \<open>i + 1\<close>.
\<close>

definition TARGET_PTR :: u64 where "TARGET_PTR = 0x700000000000"
definition TEST_PAGES :: nat where "TEST_PAGES = 100"

definition fixed_flags :: "map_flag list" where
  "fixed_flags = [MAP_ANON, MAP_PRIVATE, MAP_FIXED]"

definition populate_flags :: "map_flag list" where
  "populate_flags = [MAP_ANON, MAP_PRIVATE, MAP_POPULATE, MAP_FIXED]"

definition ensure_space :: "rop list" where
  "ensure_space = [RMap 0 1 RW fixed_flags, RMap 101 1 RW fixed_flags, RUnmap True 0 1, RUnmap True 101 1]"

definition press_enter :: "string \<Rightarrow> rop list" where
  "press_enter msg = [RIo (SPuts (msg @ '' [press enter to continue...]'' @ newline)), RIo SGetchar]"

definition split_map :: "rop list" where
  "split_map = [RMap 1 TEST_PAGES RW populate_flags] @ press_enter (''ptr = '' @ fmt_p TARGET_PTR)"

definition split_split :: "rop list" where
  "split_split = [RUnmap True 51 1] @ press_enter ''split done''"

definition split_join :: "rop list" where
  "split_join = [RMap 51 1 RW populate_flags, RIo (SPuts (''merge done'' @ newline)), RAdvise 1 TEST_PAGES]"

definition split_vma_main :: "u64 \<Rightarrow> int prog" where
  "split_vma_main psz = seq (exec_rops psz (TARGET_PTR - psz) (ensure_space @ split_map @ split_split @ split_join)) (Return 0)"

definition merge_map :: "rop list" where
  "merge_map = [RMap 1 50 RW populate_flags, RMap 52 49 RW populate_flags] @ press_enter (''ptr = '' @ fmt_p TARGET_PTR)"

definition merge_join :: "u64 \<Rightarrow> rop list" where
  "merge_join psz = [RMap 51 1 RW populate_flags,
     RIo (SPuts (''ptr1='' @ fmt_p TARGET_PTR @ '', ptr2='' @ fmt_p (pg_at psz TARGET_PTR 51) @ '', ptr3='' @ fmt_p (pg_at psz TARGET_PTR 50) @ newline))]
     @ press_enter ''merge done'' @ [RAdvise 1 TEST_PAGES]"

definition merge_split_main :: "u64 \<Rightarrow> int prog" where
  "merge_split_main psz = seq (exec_rops psz (TARGET_PTR - psz) (ensure_space @ merge_map @ merge_join psz)) (Return 0)"

section \<open>\<open>mprotect_shrinking.c\<close>\<close>

text \<open>The page size is the constant 4096 in this source. The addresses are relative to the first
  mapping; the pointer \<open>ptr\<close> of the later calls is its page 1.\<close>

definition shrink_calls :: "rop list" where
  "shrink_calls =
     [RMap 1 10 RW [MAP_ANON, MAP_PRIVATE, MAP_FIXED, MAP_NORESERVE],
      RProtect 1 5 [PROT_READ],
      RTouch 6 (CHR ''x''),
      RProtect 6 5 [PROT_READ]]"

definition grep_dmesg :: "u64 \<Rightarrow> u64 \<Rightarrow> sys" where
  "grep_dmesg a b = SSystem (''dmesg | grep -E '' @ [CHR 0x22] @ fmt_lx a @ ''|'' @ fmt_lx b @ [CHR 0x22] @ newline)"

definition grep_starts :: "string \<Rightarrow> u64 \<Rightarrow> u64 \<Rightarrow> sys" where
  "grep_starts pid a b = SSystem (''cat /proc/'' @ pid @ ''/maps |  grep -E '' @ [CHR 0x22] @ ''^'' @ fmt_lx a @ ''|^'' @ fmt_lx b @ [CHR 0x22] @ newline)"

definition mprotect_shrinking_main :: "string \<Rightarrow> int prog" where
  "mprotect_shrinking_main pid =
     bnd (mmap_or_exit 0 (12 * PSZ) [] [MAP_ANON, MAP_PRIVATE]) (\<lambda>p.
       seq (exec_rops PSZ p (shrink_calls
         @ [RIo (grep_starts pid (pg_at PSZ p 1) (pg_at PSZ p 6)), RIo (grep_dmesg (pg_at PSZ p 1) (pg_at PSZ p 6))]))
         (Return 0))"

section \<open>\<open>munmap.c\<close> and \<open>mmap_simple_fixed.c\<close>\<close>

definition munmap_main :: "u64 \<Rightarrow> int prog" where
  "munmap_main psz = seq (exec_rops psz 0x5000000 [RUnmap True 0 4, RUnmap True 0 4]) (Return 0)"

definition MAX_ALLOCS :: nat where "MAX_ALLOCS = 100"

text \<open>One allocation of 1 MiB is 256 pages; the span is \<open>page_size << 30\<close>.\<close>

definition simple_fixed_main :: "int prog" where
  "simple_fixed_main =
     bnd (mmap_or_exit 0 (of_nat (2 ^ 30) * PSZ) [] [MAP_ANON, MAP_PRIVATE]) (\<lambda>span.
       seq (exec_rops PSZ span (map (\<lambda>i. RMap (i * 256) 256 RW [MAP_FIXED, MAP_ANON, MAP_PRIVATE]) [0..<MAX_ALLOCS]
           @ [RUnmap True 0 (2 ^ 30)]))
         (Return 0))"

section \<open>\<open>random_unmap.c\<close>\<close>

text \<open>\<open>random()\<close> is a parameter: the number it returns at each call.\<close>

definition get_random :: "nat \<Rightarrow> nat \<Rightarrow> nat" where
  "get_random rand_num mx = rand_num mod (mx + 1)"

text \<open>The calls of the remaining turns of the loop, from the number of calls of \<open>random\<close> made so far.\<close>

fun random_calls :: "nat \<Rightarrow> (nat \<Rightarrow> nat) \<Rightarrow> nat \<Rightarrow> rop list" where
  "random_calls 0 rnd j = []"
| "random_calls (Suc turns) rnd j =
     (let off = get_random (rnd j) (1000 - 1);
          sz = get_random (rnd (j + 1)) (1000 - off) in
      if sz = 0 then random_calls turns rnd (j + 2)
      else (if get_random (rnd (j + 2)) 1 \<noteq> 0 then RUnmap True off sz
            else RMap off sz RW [MAP_ANON, MAP_PRIVATE, MAP_FIXED]) # random_calls turns rnd (j + 3))"

definition random_unmap_main :: "u64 \<Rightarrow> (nat \<Rightarrow> nat) \<Rightarrow> int prog" where
  "random_unmap_main psz rnd =
     bnd (mmap_or_exit 0 (1000 * psz) RW [MAP_ANON, MAP_PRIVATE]) (\<lambda>ptr.
       seq (exec_rops psz ptr (random_calls 100000 rnd 0)) (Return 0))"

section \<open>Mappings of a layout\<close>

text \<open>The mappings the pages form when the kernel merges neighbours of equal protection: first page and
  length of each, without the inaccessible ones.\<close>

fun vma_runs :: "nat \<Rightarrow> layout \<Rightarrow> (nat \<times> nat \<times> prot list) list" where
  "vma_runs i [] = []"
| "vma_runs i (p # L) = (case p of
      None \<Rightarrow> vma_runs (Suc i) L
    | Some pg \<Rightarrow>
        (case vma_runs (Suc i) L of
           (s, n, pr) # vs \<Rightarrow> if s = Suc i \<and> pr = p_prot pg then (i, Suc n, pr) # vs else (i, 1, p_prot pg) # (s, n, pr) # vs
         | [] \<Rightarrow> [(i, 1, p_prot pg)]))"

definition vmas_of :: "layout \<Rightarrow> (nat \<times> nat) list" where
  "vmas_of L = map (\<lambda>(s, n, _). (s, n)) (filter (\<lambda>(_, _, pr). pr \<noteq> []) (vma_runs 0 L))"

end
