(* ===== verification/Vma_Correct.thy ===== *)
theory Vma_Correct
  imports Vma_Tests
begin

text \<open>
  What the programs of \<open>Vma_Tests\<close> do to the pages of the process, on every kernel that keeps the
  promises of the interface: the mappings at each stage of the split and merge tests, and that the
  other tests end, stay inside their range and clean up after themselves.
\<close>

section \<open>Call lists\<close>

text \<open>Without output, the call lists no longer depend on addresses.\<close>

definition move_ops :: "bool \<Rightarrow> bool \<Rightarrow> bool \<Rightarrow> rop list" where
  "move_ops a a' b = [RUnmap False 0 100, RMap 0 10 RW [MAP_ANON, MAP_PRIVATE, MAP_FIXED]] @ touch_if a 0
     @ [RMove 5 15 5 relocate_flags] @ touch_if a' 0 @ touch_if b 15 @ [RMove 15 5 5 relocate_flags] @ do_move_cleanup"

definition mprotect_ops :: "rop list" where
  "mprotect_ops = [RUnmap False 0 100, RMap 0 10 RW [MAP_ANON, MAP_PRIVATE, MAP_FIXED],
      RMap 50 10 RW [MAP_ANON, MAP_PRIVATE, MAP_FIXED], RTouch 50 (CHR ''x''), RProtect 50 10 [PROT_READ],
      RTouch 5 (CHR ''x''), RMove 5 60 5 relocate_flags, RProtect 50 10 RW,
      RUnmap False 0 5, RUnmap False 50 10, RUnmap False 60 10]"

lemma harmless_simps [simp]: "harmless (SPuts t)" "harmless (SSystem t)" "harmless SGetchar"
  by (simp_all add: harmless_def)

lemma changes_simps [simp]:
  "changes (RMap off n pr fl)" "changes (RUnmap chk off n)" "changes (RMove off off' n rf)" "changes (RProtect off n pr)"
  "changes (RTouch off c)" "\<not> changes (RAdvise off n)" "\<not> changes (RIo (SPuts t))" "\<not> changes (RIo (SSystem t))"
  "\<not> changes (RIo SGetchar)"
  by (simp_all add: changes_def)

lemma touch_if_changes [simp]: "filter changes (touch_if b off) = touch_if b off"
  by (simp add: touch_if_def)

lemma move_calls_change:
  "filter changes (do_move_calls psz ptr a a' b @ [RIo (grep_maps pid p q)] @ do_move_cleanup) = move_ops a a' b"
  by (simp add: do_move_calls_def move_ops_def do_move_cleanup_def grep_maps_def)

lemma mprotect_calls_change: "filter changes (remap_mprotect_calls psz pid ptr) = mprotect_ops"
  by (simp add: remap_mprotect_calls_def mprotect_ops_def grep_maps_def)

lemma move_ops_clean: "arops (move_ops a a' b) (no_access 100) = Some (replicate 100 None)"
proof -
  have "list_all (\<lambda>(a, a', b). arops (move_ops a a' b) (no_access 100) = Some (replicate 100 None))
    (List.product [True, False] (List.product [True, False] [True, False]))" by code_simp
  then show ?thesis by (cases a; cases a'; cases b) simp_all
qed

lemma mprotect_ops_clean: "arops mprotect_ops (no_access 100) = Some (replicate 100 None)"
  by code_simp

section \<open>Stages of the split and merge tests\<close>

text \<open>The pages that \<open>TARGET_PTR\<close> covers when the page \<open>hole\<close> is missing.\<close>

definition target_pages :: "nat list \<Rightarrow> layout" where
  "target_pages holes = map (\<lambda>i. if i = 0 \<or> i = 101 \<or> i \<in> set holes then None else Some (new_page RW populate_flags)) [0..<102]"

lemmas stage_defs = ensure_space_def split_map_def split_split_def split_join_def merge_map_def merge_join_def press_enter_def
  fixed_flags_def populate_flags_def TEST_PAGES_def

lemma split_map_layout: "length L = 102 \<Longrightarrow> arops (ensure_space @ split_map) L = Some (target_pages [])"
  by (simp add: stage_defs) (auto simp: target_pages_def populate_flags_def intro!: nth_equalityI)

lemma split_split_layout: "arops split_split (target_pages []) = Some (target_pages [51])"
  by (simp add: stage_defs) (auto simp: target_pages_def populate_flags_def intro!: nth_equalityI)

lemma join_layout: "arops [RMap 51 1 RW populate_flags] ((target_pages [51])[51 := p]) = Some (target_pages [])"
  by (simp add: stage_defs) (auto simp: target_pages_def populate_flags_def nth_list_update intro!: nth_equalityI)

lemma merge_map_layout: "length L = 102 \<Longrightarrow> arops (ensure_space @ merge_map) L = Some ((target_pages [51])[51 := L ! 51])"
  by (simp add: stage_defs) (auto simp: target_pages_def populate_flags_def nth_list_update intro!: nth_equalityI)

lemma target_vmas: "vmas_of (target_pages []) = [(1, 100)]" "vmas_of (target_pages [51]) = [(1, 50), (52, 49)]"
  by code_simp+

lemma target_hole: "(target_pages [51])[51 := None] = target_pages [51]"
  by (auto simp: target_pages_def nth_list_update intro!: nth_equalityI)

lemma length_target_pages [simp]: "length (target_pages holes) = 102"
  by (simp add: target_pages_def)

lemma split_join_layout: "arops split_join (target_pages [51]) = Some (target_pages [])"
  using join_layout [of None] by (auto simp: split_join_def target_hole split: if_splits)

lemma merge_join_layout: "arops (merge_join psz) ((target_pages [51])[51 := p]) = Some (target_pages [])"
  using join_layout [of p] by (auto simp: merge_join_def press_enter_def split: if_splits)

lemma split_stages_layout:
  "length L = 102 \<Longrightarrow> arops (ensure_space @ split_map @ split_split) L = Some (target_pages [51])"
  "length L = 102 \<Longrightarrow> arops (ensure_space @ split_map @ split_split @ split_join) L = Some (target_pages [])"
  using split_map_layout [of L] by (auto simp: arops_append split_split_layout split_join_layout bind_eq_Some_conv)

lemma merge_stages_layout:
  "length L = 102 \<Longrightarrow> arops (ensure_space @ merge_map @ merge_join psz) L = Some (target_pages [])"
  using merge_map_layout [of L] by (auto simp: arops_append merge_join_layout bind_eq_Some_conv)

section \<open>Runs\<close>

definition random_op :: "rop \<Rightarrow> bool" where
  "random_op q = (case q of RMap off n pr fl \<Rightarrow> 0 < n \<and> off + n \<le> 1000 \<and> MAP_FIXED \<in> set fl \<and> MAP_ANON \<in> set fl
     | RUnmap chk off n \<Rightarrow> 0 < n \<and> off + n \<le> 1000 | _ \<Rightarrow> False)"

lemma random_calls_ops: "list_all random_op (random_calls turns rnd j)"
proof (induction turns arbitrary: j)
  case (Suc turns)
  have "off + get_random r (1000 - off) \<le> 1000" if "off = get_random r' (1000 - 1)" for off r r'
  proof -
    have "off < 1000" using that mod_less_divisor [of 1000 r'] by (simp add: get_random_def)
    moreover have "get_random r (1000 - off) < 1000 - off + 1" using mod_less_divisor [of "1000 - off + 1" r] by (simp add: get_random_def)
    ultimately show ?thesis by simp
  qed
  then show ?case using Suc.IH by (auto simp: random_op_def Let_def)
qed simp

lemma random_ops_run: "list_all random_op qs \<Longrightarrow> length L = 1000 \<Longrightarrow> arops qs L \<noteq> None"
proof (induction qs arbitrary: L)
  case (Cons q qs)
  then obtain L1 where L1: "arop q L = Some L1" by (auto simp: random_op_def split: rop.splits)
  then have "length L1 = 1000" using length_arop [OF L1] Cons.prems(2) by simp
  then show ?case using Cons L1 by auto
qed simp

lemma shrink_layout: "map_option (vma_runs 0) (arops shrink_calls (no_access 12)) = Some [(0, 1, []), (1, 10, [PROT_READ]), (11, 1, [])]"
  by code_simp

definition fixed_map :: "nat \<Rightarrow> rop" where
  "fixed_map i = RMap (i * 256) 256 RW [MAP_FIXED, MAP_ANON, MAP_PRIVATE]"

lemma fixed_maps_run: "\<forall>i \<in> set is. i * 256 + 256 \<le> length L \<Longrightarrow> \<exists>L'. arops (map fixed_map is) L = Some L' \<and> length L' = length L"
proof (induction "is" arbitrary: L)
  case (Cons i "is")
  let ?L = "lput (i * 256) 256 (\<lambda>_. Some (new_page RW [MAP_FIXED, MAP_ANON, MAP_PRIVATE])) L"
  show ?case using Cons.IH [of ?L] Cons.prems by (simp add: fixed_map_def)
qed simp

lemma fixed_maps_clean:
  assumes "0 < N" "n * 256 \<le> N"
  shows "arops (map fixed_map [0..<n] @ [RUnmap True 0 N]) (no_access N) = Some (replicate N None)"
proof -
  have "i * 256 + 256 \<le> N" if "i < n" for i using mult_le_mono1 [of "Suc i" n 256] that assms(2) by simp
  then obtain L' where "arops (map fixed_map [0..<n]) (no_access N) = Some L'" "length L' = N"
    using fixed_maps_run [of "[0..<n]" "no_access N"] by auto
  moreover have "lput 0 N (\<lambda>_. None) L' = replicate N None" if "length L' = N" for L' :: layout
    using that by (auto intro!: nth_equalityI)
  ultimately show ?thesis using assms(1) by (simp add: arops_append)
qed

text \<open>The reservation with which each test of \<open>mremap_unmap.c\<close> starts.\<close>

definition reservation :: "u64 \<Rightarrow> sys" where
  "reservation psz = SMmap 0 (100 * psz) [] [MAP_ANON, MAP_PRIVATE]"

context tool_kernel
begin

lemma run_stage:
  assumes "region psz ptr n" "\<And>L. length L = n \<Longrightarrow> P L \<Longrightarrow> arops qs L = Some (f L)" "P (layout psz (page_at k) ptr n)"
  shows "\<exists>k'. run step (exec_rops psz ptr qs) k = (Done (), k')
    \<and> layout psz (page_at k') ptr n = f (layout psz (page_at k) ptr n) \<and> same_outside psz ptr n (page_at k) (page_at k')"
proof -
  let ?L = "layout psz (page_at k) ptr n"
  have "range_shows psz ptr (page_at k) ?L" by (simp add: range_shows_def)
  moreover have a: "arops qs ?L = Some (f ?L)" using assms(2,3) by simp
  ultimately show ?thesis using exec_rops_ok [of ptr ?L k qs "f ?L"] assms(1) length_arops [OF a] by (auto simp: range_shows_def)
qed

lemma do_move_restores:
  assumes "fits psz 100"
  shows "restores_unless step page_at (reservation psz) (do_move psz pid a a' b) () k"
proof -
  have "arops (do_move_calls psz ptr a a' b @ [RIo (grep_maps pid ptr (pg_at psz ptr 5))] @ do_move_cleanup) (no_access 100)
      = Some (replicate 100 None)" for ptr
    using move_ops_clean by (subst arops_changes) (simp only: move_calls_change)
  note r = reserved_unless [OF assms _ _ _ this, of "[MAP_ANON, MAP_PRIVATE]"]
  show ?thesis unfolding do_move_def reservation_def
    by (rule restores_unless_seq [OF restores_unless_ignore]) (use r in simp_all)
qed

lemma remap_mprotect_restores:
  assumes "fits psz 100"
  shows "restores_unless step page_at (reservation psz) (remap_mprotect psz pid) () k"
proof -
  have "arops (remap_mprotect_calls psz pid ptr) (no_access 100) = Some (replicate 100 None)" for ptr
    using mprotect_ops_clean by (subst arops_changes) (simp only: mprotect_calls_change)
  note r = reserved_unless [OF assms _ _ _ this, of "[MAP_ANON, MAP_PRIVATE]"]
  show ?thesis unfolding remap_mprotect_def reservation_def
    by (rule restores_unless_seq [OF restores_unless_ignore]) (use r in simp_all)
qed

lemma mremap_main_restores:
  assumes "fits psz 100"
  shows "restores_unless step page_at (reservation psz) (mremap_unmap_main psz pid) 0 k"
  unfolding mremap_unmap_main_def using do_move_restores [OF assms] remap_mprotect_restores [OF assms]
  by (intro restores_unless_seq [OF restores_unless_seqs] restores_unless_seq restores_unless_Return) auto

lemma random_main_ends:
  assumes "fits psz 1000"
  shows "(\<exists>k'. run step (random_unmap_main psz rnd) k = (Exited 1, k'))
    \<or> (\<exists>k' a. run step (random_unmap_main psz rnd) k = (Done 0, k') \<and> unmapped psz a 1000 (page_at k)
        \<and> same_outside psz a 1000 (page_at k) (page_at k'))"
proof (cases "\<exists>k'. run step (mmap_or_exit 0 (1000 * psz) RW [MAP_ANON, MAP_PRIVATE]) k = (Exited 1, k')")
  case True
  then show ?thesis by (auto simp: random_unmap_main_def run_bnd)
next
  case False
  let ?L = "replicate 1000 (Some (new_page RW [MAP_ANON, MAP_PRIVATE]))"
  obtain k1 a where 1: "run step (mmap_or_exit 0 (1000 * psz) RW [MAP_ANON, MAP_PRIVATE]) k = (Done a, k1)" "region psz a 1000"
    "range_shows psz a (page_at k1) ?L" "unmapped psz a 1000 (page_at k)" "same_outside psz a 1000 (page_at k) (page_at k1)"
    using run_map_range [OF assms, of "[MAP_ANON, MAP_PRIVATE]" RW k] False by auto
  obtain L' where "arops (random_calls 100000 rnd 0) ?L = Some L'"
    using random_ops_run [OF random_calls_ops, of ?L 100000 rnd 0] by auto
  then obtain k2 where 2: "run step (exec_rops psz a (random_calls 100000 rnd 0)) k1 = (Done (), k2)"
    "same_outside psz a 1000 (page_at k1) (page_at k2)" using exec_rops_ok [of a ?L k1] 1(2,3) by auto
  have "run step (random_unmap_main psz rnd) k = (Done 0, k2)"
    by (simp add: random_unmap_main_def run_bnd_Done [OF 1(1)] run_seq [OF 2(1)])
  then show ?thesis using 1(4) same_outside_trans [OF 1(5) 2(2)] by blast
qed

lemma shrink_ends:
  assumes "psz = PSZ"
  shows "(\<exists>k'. run step (mprotect_shrinking_main pid) k = (Exited 1, k'))
    \<or> (\<exists>k' a. run step (mprotect_shrinking_main pid) k = (Done 0, k') \<and> vma_runs 0 (layout PSZ (page_at k') a 12)
        = [(0, 1, []), (1, 10, [PROT_READ]), (11, 1, [])])"
proof (cases "\<exists>k'. run step (mmap_or_exit 0 (12 * PSZ) [] [MAP_ANON, MAP_PRIVATE]) k = (Exited 1, k')")
  case True
  then show ?thesis by (auto simp: mprotect_shrinking_main_def run_bnd)
next
  case False
  have "fits PSZ 12" by (simp add: fits_def PSZ_def)
  then obtain k1 a where 1: "run step (mmap_or_exit 0 (12 * PSZ) [] [MAP_ANON, MAP_PRIVATE]) k = (Done a, k1)" "region PSZ a 12"
    "range_shows PSZ a (page_at k1) (no_access 12)"
    using run_reserve_range [of 12 "[MAP_ANON, MAP_PRIVATE]" k] False by (auto simp: assms)
  let ?qs = "shrink_calls @ [RIo (grep_starts pid (pg_at PSZ a 1) (pg_at PSZ a 6)), RIo (grep_dmesg (pg_at PSZ a 1) (pg_at PSZ a 6))]"
  obtain L' where L': "arops shrink_calls (no_access 12) = Some L'" "length L' = 12"
    "vma_runs 0 L' = [(0, 1, []), (1, 10, [PROT_READ]), (11, 1, [])]"
    using shrink_layout length_arops by (auto simp: map_option_eq_Some)
  then have "arops ?qs (no_access 12) = Some L'" by (simp add: arops_append grep_starts_def grep_dmesg_def)
  then obtain k2 where 2: "run step (exec_rops PSZ a ?qs) k1 = (Done (), k2)" "layout PSZ (page_at k2) a 12 = L'"
    using exec_rops_ok [of a "no_access 12" k1 ?qs L'] 1(2,3) L'(2) by (auto simp: assms range_shows_def)
  have "run step (mprotect_shrinking_main pid) k = (Done 0, k2)"
    by (simp only: mprotect_shrinking_main_def run_bnd_Done [OF 1(1)] run_seq [OF 2(1)] run.simps)
  then show ?thesis using 2(2) L'(3) by blast
qed

lemma simple_fixed_restores:
  assumes "psz = PSZ"
  shows "restores step page_at simple_fixed_main k"
proof -
  have f: "fits psz (2 ^ 30)" by (simp add: fits_def PSZ_def assms)
  have e: "simple_fixed_main = seq (bnd (mmap_or_exit 0 (of_nat (2 ^ 30) * PSZ) [] [MAP_ANON, MAP_PRIVATE])
      (\<lambda>span. exec_rops PSZ span (map fixed_map [0..<MAX_ALLOCS] @ [RUnmap True 0 (2 ^ 30)]))) (Return 0)"
    unfolding simple_fixed_main_def fixed_map_def [abs_def] by (simp only: seq_def bnd_assoc)
  have c: "arops (map fixed_map [0..<MAX_ALLOCS] @ [RUnmap True 0 (2 ^ 30)]) (no_access (2 ^ 30)) = Some (replicate (2 ^ 30) None)"
    by (rule fixed_maps_clean) (simp_all add: MAX_ALLOCS_def)
  have "restores step page_at (bnd (mmap_or_exit 0 (of_nat (2 ^ 30) * PSZ) [] [MAP_ANON, MAP_PRIVATE])
      (\<lambda>span. exec_rops PSZ span (map fixed_map [0..<MAX_ALLOCS] @ [RUnmap True 0 (2 ^ 30)]))) k"
    by (rule reserved_program [OF f _ _ _ c, unfolded assms]) simp_all
  then show ?thesis unfolding e by (rule restores_seq) (rule restores_Return)
qed

end

section \<open>Properties\<close>

text \<open>The range of the split and merge tests on the executable kernel, with nothing mapped.\<close>

definition demo_empty :: pk where
  "demo_empty = \<lparr>pk_pages = \<lambda>_. None, pk_out = []\<rparr>"

lemma demo_target: "region PSZ (TARGET_PTR - PSZ) 102"
proof -
  have "TARGET_PTR - PSZ = of_nat 0x6ffffffff * PSZ" by (simp add: TARGET_PTR_def PSZ_def)
  then have "page_addr PSZ (TARGET_PTR - PSZ)" unfolding page_addr_def by blast
  then show ?thesis by (simp add: region_def fits_def PSZ_def TARGET_PTR_def)
qed

text \<open>C23. \<open>split_vma.c\<close>, whatever was mapped around \<open>TARGET_PTR\<close> before: the 100 populated pages form one mapping,
  the \<open>munmap\<close> of page 50 splits it into one of 50 and one of 49 pages, and mapping the page again
  merges them into one; the program succeeds. Page \<open>i\<close> of the source is page \<open>i + 1\<close> of the range.\<close>

theorem split_vma_mappings:
  assumes "tool_kernel step page_at psz" "region psz (TARGET_PTR - psz) 102"
  shows "\<exists>k1 k2 k3. run step (exec_rops psz (TARGET_PTR - psz) (ensure_space @ split_map)) k = (Done (), k1)
    \<and> vmas_of (layout psz (page_at k1) (TARGET_PTR - psz) 102) = [(1, 100)]
    \<and> run step (exec_rops psz (TARGET_PTR - psz) (ensure_space @ split_map @ split_split)) k = (Done (), k2)
    \<and> vmas_of (layout psz (page_at k2) (TARGET_PTR - psz) 102) = [(1, 50), (52, 49)]
    \<and> run step (split_vma_main psz) k = (Done 0, k3)
    \<and> vmas_of (layout psz (page_at k3) (TARGET_PTR - psz) 102) = [(1, 100)]"
proof -
  note st = tool_kernel.run_stage [OF assms, where P = "\<lambda>_. True" and k = k]
  obtain k1 k2 k3 where "run step (exec_rops psz (TARGET_PTR - psz) (ensure_space @ split_map)) k = (Done (), k1)"
      "layout psz (page_at k1) (TARGET_PTR - psz) 102 = target_pages []"
    "run step (exec_rops psz (TARGET_PTR - psz) (ensure_space @ split_map @ split_split)) k = (Done (), k2)"
      "layout psz (page_at k2) (TARGET_PTR - psz) 102 = target_pages [51]"
    and 3: "run step (exec_rops psz (TARGET_PTR - psz) (ensure_space @ split_map @ split_split @ split_join)) k = (Done (), k3)"
      "layout psz (page_at k3) (TARGET_PTR - psz) 102 = target_pages []"
    using st [of "ensure_space @ split_map" "\<lambda>_. target_pages []"] st [of "ensure_space @ split_map @ split_split" "\<lambda>_. target_pages [51]"]
      st [of "ensure_space @ split_map @ split_split @ split_join" "\<lambda>_. target_pages []"] split_map_layout split_stages_layout by blast
  moreover from 3(1) have "run step (split_vma_main psz) k = (Done 0, k3)" by (simp add: split_vma_main_def run_seq)
  ultimately show ?thesis by (simp add: target_vmas)
qed

theorem split_vma_mappings_witness:
  "\<exists>k3. run pk_step (split_vma_main PSZ) demo_empty = (Done 0, k3)
    \<and> vmas_of (layout PSZ (pk_pages k3) (TARGET_PTR - PSZ) 102) = [(1, 100)]"
  using split_vma_mappings [OF pk.tool_kernel_axioms demo_target] by blast

text \<open>\<open>merge_split.c\<close>: when page 50 is free, the first two calls leave a mapping of 50 and one of 49 pages;
  whether it is free or not, mapping it joins everything into one mapping of 100 pages, and the program succeeds.\<close>

theorem merge_split_mappings:
  assumes "tool_kernel step page_at psz" "region psz (TARGET_PTR - psz) 102"
  shows "(layout psz (page_at k) (TARGET_PTR - psz) 102 ! 51 = None \<longrightarrow>
      (\<exists>k1. run step (exec_rops psz (TARGET_PTR - psz) (ensure_space @ merge_map)) k = (Done (), k1)
        \<and> vmas_of (layout psz (page_at k1) (TARGET_PTR - psz) 102) = [(1, 50), (52, 49)]))
    \<and> (\<exists>k2. run step (merge_split_main psz) k = (Done 0, k2)
        \<and> vmas_of (layout psz (page_at k2) (TARGET_PTR - psz) 102) = [(1, 100)])"
proof (intro conjI impI)
  assume n: "layout psz (page_at k) (TARGET_PTR - psz) 102 ! 51 = None"
  then show "\<exists>k1. run step (exec_rops psz (TARGET_PTR - psz) (ensure_space @ merge_map)) k = (Done (), k1)
      \<and> vmas_of (layout psz (page_at k1) (TARGET_PTR - psz) 102) = [(1, 50), (52, 49)]"
    using tool_kernel.run_stage [OF assms, where P = "\<lambda>L. L ! 51 = None" and f = "\<lambda>_. target_pages [51]" and k = k and qs = "ensure_space @ merge_map"]
      merge_map_layout by (auto simp: target_hole target_vmas)
next
  obtain k2 where 2: "run step (exec_rops psz (TARGET_PTR - psz) (ensure_space @ merge_map @ merge_join psz)) k = (Done (), k2)"
      "layout psz (page_at k2) (TARGET_PTR - psz) 102 = target_pages []"
    using tool_kernel.run_stage [OF assms, where P = "\<lambda>_. True" and f = "\<lambda>_. target_pages []" and k = k and qs = "ensure_space @ merge_map @ merge_join psz"]
      merge_stages_layout by blast
  from 2(1) have "run step (merge_split_main psz) k = (Done 0, k2)" by (simp add: merge_split_main_def run_seq)
  then show "\<exists>k2. run step (merge_split_main psz) k = (Done 0, k2) \<and> vmas_of (layout psz (page_at k2) (TARGET_PTR - psz) 102) = [(1, 100)]"
    using 2(2) by (simp add: target_vmas)
qed

theorem merge_split_mappings_witness:
  "\<exists>k1. run pk_step (exec_rops PSZ (TARGET_PTR - PSZ) (ensure_space @ merge_map)) demo_empty = (Done (), k1)
    \<and> vmas_of (layout PSZ (pk_pages k1) (TARGET_PTR - PSZ) 102) = [(1, 50), (52, 49)]"
  using merge_split_mappings [OF pk.tool_kernel_axioms demo_target, of demo_empty] by (simp add: demo_empty_def)

text \<open>C24. \<open>mremap_unmap.c\<close>: each of its tests, with every choice of the pages touched, and all nine one after the other complete
  with the pages of the process as they were, no store faulting and no call being refused; or the last call is the reservation a test
  starts with, which the kernel refuses, the program exits with status 1 right after it, and the pages are again as they were.\<close>

theorem mremap_unmap_restores:
  assumes "tool_kernel step page_at psz" "fits psz 100"
  shows "restores_unless step page_at (reservation psz) (do_move psz pid touch_a_first touch_a_afterwards touch_b) () k
    \<and> restores_unless step page_at (reservation psz) (mremap_unmap_main psz pid) 0 k"
  using tool_kernel.do_move_restores [OF assms] tool_kernel.mremap_main_restores [OF assms] by blast

lemma empty_reservation:
  assumes "pk_step k (reservation PSZ) = Some (k', r)" "pk_pages k' = (\<lambda>_. None)"
  shows "\<not> refused (reservation PSZ, r)"
proof
  assume "refused (reservation PSZ, r)"
  moreover have "page_count (100 * PSZ) = 100" by (simp add: PSZ_def page_count_def)
  ultimately have "pk_pages k = pk_pages k'" "place (pk_pages k) 100 = None"
    using assms(1) place_Some(4) [of "pk_pages k" 100]
    by (auto simp: reservation_def refused_def pk_step_def pk_mmap_def spot_def Let_def split: option.splits)
  then have "place (\<lambda>_. None) 100 = None" using assms(2) by simp
  moreover have "0x7f0000000000 + of_nat 0 * 0x1000000 \<in> set candidates" unfolding candidates_def set_map by (rule imageI) simp
  ultimately show False by (auto simp: place_def find_None_iff unmapped_def list_all_iff)
qed

theorem mremap_unmap_restores_witness:
  "\<exists>k'. run pk_step (mremap_unmap_main PSZ ''1'') demo_empty = (Done 0, k') \<and> pk_pages k' = pk_pages demo_empty
    \<and> granted (calls pk_step (mremap_unmap_main PSZ ''1'') demo_empty)"
proof -
  have "restores_unless pk_step pk_pages (reservation PSZ) (mremap_unmap_main PSZ ''1'') 0 demo_empty"
    using mremap_unmap_restores [OF pk.tool_kernel_axioms] by (simp add: fits_def PSZ_def)
  moreover have "\<not> (\<exists>cs r. calls pk_step (mremap_unmap_main PSZ ''1'') demo_empty = cs @ [(reservation PSZ, r)] \<and> refused (reservation PSZ, r))"
    if "run pk_step (mremap_unmap_main PSZ ''1'') demo_empty = (Exited 1, k')" "pk_pages k' = pk_pages demo_empty" for k'
    using calls_last [OF _ that(1)] empty_reservation that(2) by (fastforce simp: demo_empty_def)
  ultimately show ?thesis unfolding restores_unless_def by blast
qed

text \<open>\<open>mprotect_shrinking.c\<close>: unless its reservation fails it succeeds, and the two halves whose protection it
  changed one after the other are one read-only mapping between the two reserved pages at its ends.\<close>

theorem mprotect_shrinking_merges:
  assumes "tool_kernel step page_at PSZ"
  shows "(\<exists>k'. run step (mprotect_shrinking_main pid) k = (Exited 1, k'))
    \<or> (\<exists>k' a. run step (mprotect_shrinking_main pid) k = (Done 0, k')
        \<and> vma_runs 0 (layout PSZ (page_at k') a 12) = [(0, 1, []), (1, 10, [PROT_READ]), (11, 1, [])])"
  using tool_kernel.shrink_ends [OF assms refl] .

theorem mprotect_shrinking_merges_witness:
  "(\<exists>k'. run pk_step (mprotect_shrinking_main ''1'') demo_empty = (Exited 1, k'))
    \<or> (\<exists>k' a. run pk_step (mprotect_shrinking_main ''1'') demo_empty = (Done 0, k')
        \<and> vma_runs 0 (layout PSZ (pk_pages k') a 12) = [(0, 1, []), (1, 10, [PROT_READ]), (11, 1, [])])"
  by (rule mprotect_shrinking_merges [OF pk.tool_kernel_axioms])

text \<open>\<open>random_unmap.c\<close>: for every sequence of random numbers its 100,000 turns end, no call fails, and no page
  outside the range it mapped at the start is changed.\<close>

theorem random_unmap_confined:
  assumes "tool_kernel step page_at psz" "fits psz 1000"
  shows "(\<exists>k'. run step (random_unmap_main psz rnd) k = (Exited 1, k'))
    \<or> (\<exists>k' a. run step (random_unmap_main psz rnd) k = (Done 0, k') \<and> unmapped psz a 1000 (page_at k)
        \<and> same_outside psz a 1000 (page_at k) (page_at k'))"
  using tool_kernel.random_main_ends [OF assms] .

theorem random_unmap_confined_witness:
  "(\<exists>k'. run pk_step (random_unmap_main PSZ (\<lambda>i. i * 7)) demo_empty = (Exited 1, k'))
    \<or> (\<exists>k' a. run pk_step (random_unmap_main PSZ (\<lambda>i. i * 7)) demo_empty = (Done 0, k') \<and> unmapped PSZ a 1000 (pk_pages demo_empty)
        \<and> same_outside PSZ a 1000 (pk_pages demo_empty) (pk_pages k'))"
  by (rule random_unmap_confined [OF pk.tool_kernel_axioms]) (simp add: fits_def PSZ_def)

text \<open>\<open>mmap_simple_fixed.c\<close> and \<open>munmap.c\<close>: the 100 mappings of 1 MiB all fit in the span and one \<open>munmap\<close> of the
  span removes them; unmapping an already unmapped range is not an error, so the second \<open>munmap\<close> of
  \<open>munmap.c\<close> succeeds too and the program changes nothing else.\<close>

theorem fixed_programs:
  assumes "tool_kernel step page_at PSZ"
  shows "restores step page_at simple_fixed_main k
    \<and> (region PSZ 0x5000000 4 \<longrightarrow> (\<exists>k'. run step (munmap_main PSZ) k = (Done 0, k')
        \<and> layout PSZ (page_at k') 0x5000000 4 = replicate 4 None \<and> same_outside PSZ 0x5000000 4 (page_at k) (page_at k')))"
proof (intro conjI impI)
  show "restores step page_at simple_fixed_main k" using tool_kernel.simple_fixed_restores [OF assms refl] .
  assume r: "region PSZ 0x5000000 4"
  have "arops [RUnmap True 0 4, RUnmap True 0 4] L = Some (replicate 4 None)" if "length L = 4" for L
    using that by (auto intro!: nth_equalityI)
  then obtain k' where "run step (exec_rops PSZ 0x5000000 [RUnmap True 0 4, RUnmap True 0 4]) k = (Done (), k')"
    "layout PSZ (page_at k') 0x5000000 4 = replicate 4 None" "same_outside PSZ 0x5000000 4 (page_at k) (page_at k')"
    using tool_kernel.run_stage [OF assms r, where P = "\<lambda>_. True" and f = "\<lambda>_. replicate 4 None" and k = k] by blast
  then show "\<exists>k'. run step (munmap_main PSZ) k = (Done 0, k')
        \<and> layout PSZ (page_at k') 0x5000000 4 = replicate 4 None \<and> same_outside PSZ 0x5000000 4 (page_at k) (page_at k')"
    by (simp add: munmap_main_def run_seq)
qed

theorem fixed_programs_witness: "restores pk_step pk_pages simple_fixed_main demo_empty
    \<and> (\<exists>k'. run pk_step (munmap_main PSZ) demo_empty = (Done 0, k'))"
proof -
  have "(0x5000000 :: u64) = of_nat 0x5000 * PSZ" by (simp add: PSZ_def)
  then have "page_addr PSZ 0x5000000" unfolding page_addr_def by blast
  then have "region PSZ 0x5000000 4" by (simp add: region_def fits_def PSZ_def)
  then show ?thesis using fixed_programs [OF pk.tool_kernel_axioms] by blast
qed

end
