(* ===== verification/Char_Dev.thy ===== *)
theory Char_Dev
  imports C_Lib
begin

text \<open>
  What the kernel modules use of the kernel's library, as parameters with their documented behaviour, and
  how a program reaches a character device through a buffered stream.
\<close>

section \<open>The kernel's library\<close>

record vma =
  vm_start :: u64
  vm_end :: u64
  vm_flags :: u64

text \<open>
  \<open>to_buffer avail pos bytes\<close> is \<open>simple_write_to_buffer\<close>: its result with the bytes at the start of the buffer.
  \<open>from_buffer size pos bytes\<close> is \<open>simple_read_from_buffer\<close>: its result with the bytes delivered.
  \<open>kscan_lu\<close> and \<open>kscan_d\<close> are the kernel's \<open>sscanf\<close> with \<open>%lu\<close> and \<open>%d\<close>.
\<close>

record klib =
  find_vma :: "u64 \<Rightarrow> vma option"
  to_buffer :: "nat \<Rightarrow> nat \<Rightarrow> string \<Rightarrow> int \<times> string"
  from_buffer :: "nat \<Rightarrow> nat \<Rightarrow> string \<Rightarrow> int \<times> string"
  kscan_lu :: "string \<Rightarrow> u64 option"
  kscan_d :: "string \<Rightarrow> int option"

definition klib_ok :: "klib \<Rightarrow> bool" where
  "klib_ok K \<longleftrightarrow> (\<forall>avail s. s \<noteq> [] \<and> length s \<le> avail \<longrightarrow> to_buffer K avail 0 s = (int (length s), s))
     \<and> (\<forall>size s. length s \<le> size \<longrightarrow> from_buffer K size 0 s = (int (length s), s))
     \<and> (\<forall>w. kscan_lu K (fmt_lu w @ newline) = Some w) \<and> (\<forall>e. kscan_d K (fmt_d e @ newline) = Some e)"

lemma klib_okD:
  assumes "klib_ok K"
  shows "s \<noteq> [] \<Longrightarrow> length s \<le> avail \<Longrightarrow> to_buffer K avail 0 s = (int (length s), s)"
    "length s \<le> sz \<Longrightarrow> from_buffer K sz 0 s = (int (length s), s)"
    "kscan_lu K (fmt_lu w @ newline) = Some w" "kscan_d K (fmt_d e @ newline) = Some e"
  using assms unfolding klib_ok_def by blast+

text \<open>\<open>simple_write_to_buffer\<close> copies at most the bytes that are available, and the modules end the text themselves:
  \<open>buf[count] = 0\<close> in an array of \<open>len\<close> bytes, which must not be past its end.\<close>

definition copies_within :: "klib \<Rightarrow> bool" where
  "copies_within K \<longleftrightarrow> (\<forall>avail pos s. fst (to_buffer K avail pos s) \<le> int avail)"

definition end_text :: "nat \<Rightarrow> int \<Rightarrow> string \<Rightarrow> cerr + string" where
  "end_text len count buf = (if count < int len then Inr (take (nat count) buf) else Inl BufferOverflow)"

lemma end_text_within:
  assumes "copies_within K" "to_buffer K avail pos s = (count, buf)" "avail < len"
  shows "end_text len count buf = Inr (take (nat count) buf)"
proof -
  have "count \<le> int avail" using assms(1,2) unfolding copies_within_def by (metis fst_conv)
  then show ?thesis using assms(3) by (simp add: end_text_def)
qed

lemma end_text_all [simp]: "length s < len \<Longrightarrow> end_text len (int (length s)) s = Inr s"
  by (simp add: end_text_def)

text \<open>A library that behaves as documented, with the mappings of a list.\<close>

definition scan_int :: "string \<Rightarrow> int option" where
  "scan_int s = (let (neg, r) = scan_sign (dropWhile is_space s); ds = takeWhile is_digit r
     in if ds = [] then None else Some (if neg then - int (base_val 10 ds) else int (base_val 10 ds)))"

definition sample_klib :: "vma list \<Rightarrow> klib" where
  "sample_klib vs = \<lparr>find_vma = \<lambda>a. List.find (\<lambda>v. a < vm_end v) vs,
     to_buffer = \<lambda>avail pos s. if avail \<le> pos \<or> s = [] then (0, []) else (int (min (length s) (avail - pos)), take (avail - pos) s),
     from_buffer = \<lambda>size pos s. (int (min size (length s - pos)), take size (drop pos s)),
     kscan_lu = \<lambda>s. map_option fst (scan_lu s), kscan_d = scan_int\<rparr>"

lemma dec_scan:
  "takeWhile is_digit (to_base 10 n @ newline) = to_base 10 n" "scan_sign (dropWhile is_space (to_base 10 n @ newline)) = (False, to_base 10 n @ newline)"
proof -
  show "takeWhile is_digit (to_base 10 n @ newline) = to_base 10 n"
    by (subst takeWhile_append2) (auto dest: dec_digits simp: newline_def)
  have "is_digit (hd (to_base 10 n))" by (rule dec_digits [of _ n]) simp
  then show "scan_sign (dropWhile is_space (to_base 10 n @ newline)) = (False, to_base 10 n @ newline)"
    using is_digit_not_sign [of "hd (to_base 10 n)"] by (subst dropWhile_stop) (auto simp: scan_sign_digit hd_append)
qed

lemma scan_int_fmt_d: "scan_int (fmt_d e @ newline) = Some e"
proof (cases "e < 0")
  case True
  have "\<not> is_space (CHR ''-'')" by code_simp
  then have "scan_sign (dropWhile is_space (fmt_d e @ newline)) = (True, to_base 10 (nat (- e)) @ newline)"
    using True by (simp add: fmt_d_def scan_sign_def)
  then show ?thesis using True by (simp add: scan_int_def dec_scan base_val_to_base Let_def)
next
  case False
  then show ?thesis by (simp add: scan_int_def fmt_d_def dec_scan base_val_to_base Let_def)
qed

lemma sample_klib_ok: "klib_ok (sample_klib vs)"
  using scan_lu_fmt_lu [of newline] scan_int_fmt_d by (auto simp: klib_ok_def sample_klib_def newline_def)

lemma sample_klib_within: "copies_within (sample_klib vs)"
  by (auto simp: copies_within_def sample_klib_def)

section \<open>Streams on a device\<close>

text \<open>
  A device handles a write with \<open>wr\<close>: the bytes and its state give the result, negative for an error, with the new state. A stream keeps what
  \<open>fprintf\<close> printed until it is flushed; after a failed write the text stays in the stream, and \<open>fclose\<close> tries once more and
  reports to nobody.
\<close>

definition fflush :: "(string \<Rightarrow> 's \<Rightarrow> int \<times> 's) \<Rightarrow> string \<Rightarrow> 's \<Rightarrow> string \<times> 's" where
  "fflush wr pending s = (if pending = [] then ([], s)
     else let (ret, s) = wr pending s in (if ret < 0 then pending else drop (nat ret) pending, s))"

definition fclose_out :: "(string \<Rightarrow> 's \<Rightarrow> int \<times> 's) \<Rightarrow> string \<Rightarrow> 's \<Rightarrow> 's" where
  "fclose_out wr pending s = snd (fflush wr pending s)"

definition EINVAL :: int where "EINVAL = 22"
definition ENXIO :: int where "ENXIO = 6"

lemma fmt_lu_length: "length (fmt_lu w @ newline) \<le> 254"
proof -
  have "unat w < 10 ^ 20" by (rule order_less_trans [OF unat_lt64]) simp
  then have "length (to_base 10 (unat w)) \<le> 20" by (intro to_base_length) simp_all
  then show ?thesis by (simp add: fmt_lu_def newline_def)
qed

end
