(* ===== verification/Vma_Dev.thy ===== *)
theory Vma_Dev
  imports Char_Dev Vm_Prog
begin

text \<open>
  The flags of a mapping, from the kernel to the terminal: the modules \<open>kernel/vmaflags\<close> and \<open>kernel/vmainfo\<close>, the functions of
  \<open>random/shared.c\<close> that ask the first one, and the program \<open>random/vma.c\<close>.
\<close>

section \<open>The kernel modules\<close>

text \<open>\<open>output_buf\<close> is the text up to its null.\<close>

record vdev =
  output_buf :: string
  output_buf_size :: nat

definition vdev_init :: vdev where
  "vdev_init = \<lparr>output_buf = [], output_buf_size = 1\<rparr>"

text \<open>The two modules differ in the text they print. \<open>pos\<close> is the offset of the open file; the result is the number of bytes
  taken or a negative error, the new offset and the state.\<close>

definition vma_write :: "klib \<Rightarrow> (vma \<Rightarrow> string) \<Rightarrow> nat \<Rightarrow> string \<Rightarrow> vdev \<Rightarrow> int \<times> nat \<times> vdev" where
  "vma_write K text pos inp d =
     (let d = d\<lparr>output_buf := [], output_buf_size := 1\<rparr>;
          (cnt, start_buf) = to_buffer K 254 pos inp;
          pos' = (if cnt > 0 then pos + nat cnt else pos)
      in if cnt \<le> 0 then (- EINVAL, pos', d)
         else (case kscan_lu K start_buf of
             None \<Rightarrow> (- EINVAL, pos', d)
           | Some start \<Rightarrow>
               (case find_vma K start of
                  None \<Rightarrow> (- ENXIO, pos', d)
                | Some vma \<Rightarrow>
                    if start < vm_start vma then (- ENXIO, pos', d)
                    else (int (length inp), length inp,
                      d\<lparr>output_buf := take 4094 (text vma), output_buf_size := 1 + length (text vma)\<rparr>))))"

definition vmaflags_write :: "klib \<Rightarrow> nat \<Rightarrow> string \<Rightarrow> vdev \<Rightarrow> int \<times> nat \<times> vdev" where
  "vmaflags_write K = vma_write K (\<lambda>vma. fmt_lx (vm_flags vma))"

definition vmainfo_write :: "klib \<Rightarrow> nat \<Rightarrow> string \<Rightarrow> vdev \<Rightarrow> int \<times> nat \<times> vdev" where
  "vmainfo_write K = vma_write K (\<lambda>vma. ''start='' @ fmt_lx (vm_start vma) @ '', end='' @ fmt_lx (vm_end vma) @ '', flags='' @ fmt_lx (vm_flags vma))"

definition vmaflags_read :: "klib \<Rightarrow> nat \<Rightarrow> nat \<Rightarrow> vdev \<Rightarrow> int \<times> string" where
  "vmaflags_read K sz pos d = from_buffer K sz pos (take (output_buf_size d) (output_buf d @ [CHR 0x00]))"

definition vmainfo_read :: "klib \<Rightarrow> nat \<Rightarrow> nat \<Rightarrow> vdev \<Rightarrow> int \<times> string" where
  "vmainfo_read K sz pos d = from_buffer K sz pos (take (output_buf_size d) (output_buf d @ [CHR 0x00]))"

section \<open>Printing flags\<close>

definition flags_map :: "(u64 \<times> string) list" where
  "flags_map =
    [(0x1, ''VM_READ''), (0x2, ''VM_WRITE''), (0x4, ''VM_EXEC''),
     (0x8, ''VM_SHARED''), (0x10, ''VM_MAYREAD''), (0x20, ''VM_MAYWRITE''),
     (0x40, ''VM_MAYEXEC''), (0x80, ''VM_MAYSHARE''), (0x100, ''VM_GROWSDOWN''),
     (0x200, ''VM_UFFD_MISSING''), (0x400, ''VM_PFNMAP''), (0x1000, ''VM_UFFD_WP''),
     (0x2000, ''VM_LOCKED''), (0x4000, ''VM_IO''), (0x8000, ''VM_SEQ_READ''),
     (0x10000, ''VM_RAND_READ''), (0x20000, ''VM_DONTCOPY''), (0x40000, ''VM_DONTEXPAND''),
     (0x80000, ''VM_LOCKONFAULT''), (0x100000, ''VM_ACCOUNT''), (0x200000, ''VM_NORESERVE''),
     (0x400000, ''VM_HUGETLB''), (0x800000, ''VM_SYNC''), (0x2000000, ''VM_WIPEONFORK''),
     (0x4000000, ''VM_DONTDUMP''), (0x8000000, ''VM_SOFTDIRTY''), (0x10000000, ''VM_MIXEDMAP''),
     (0x20000000, ''VM_HUGEPAGE''), (0x40000000, ''VM_NOHUGEPAGE''), (0x80000000, ''VM_MERGEABLE''),
     (0x20, ''VM_PKEY_SHIFT''), (0x100000000, ''VM_PKEY_BIT0''), (0x200000000, ''VM_PKEY_BIT1''),
     (0x400000000, ''VM_PKEY_BIT2''), (0x800000000, ''VM_PKEY_BIT3''), (0x1000000000, ''VM_PKEY_BIT4''),
     (0x1000000, ''VM_PAT''), (0x2000000000, ''VM_UFFD_MINOR'')]"

fun flags_loop :: "(u64 \<times> string) list \<Rightarrow> u64 \<Rightarrow> string list \<times> u64" where
  "flags_loop [] flags = ([], flags)"
| "flags_loop ((flag, name) # ps) flags =
     (if flags AND flag \<noteq> flag then flags_loop ps flags
      else let (ns, rest) = flags_loop ps (flags AND NOT flag) in (name # ns, rest))"

definition print_vma_flags :: "u64 \<Rightarrow> string" where
  "print_vma_flags flags =
     (if flags = 0 then ''VM_NONE'' @ newline
      else
        let (ns, rest) = flags_loop flags_map flags
        in concat (map (\<lambda>n. n @ '' '') ns) @ (if rest \<noteq> 0 then ''(invalid: '' @ fmt_lu rest @ '' remain)'' else []) @ newline)"

text \<open>\<open>%lx\<close>: white space, an optional sign, an optional \<open>0x\<close>, hexadecimal digits.\<close>

definition hex_digit :: "char \<Rightarrow> nat option" where
  "hex_digit c = (if is_digit c then Some (of_char c - 48)
     else if chr_between (CHR ''a'') (CHR ''f'') c then Some (of_char c - 87)
     else if chr_between (CHR ''A'') (CHR ''F'') c then Some (of_char c - 55) else None)"

definition is_hex_digit :: "char \<Rightarrow> bool" where
  "is_hex_digit c \<longleftrightarrow> hex_digit c \<noteq> None"

definition hex_value :: "string \<Rightarrow> nat" where
  "hex_value s = foldl (\<lambda>acc c. acc * 16 + the (hex_digit c)) 0 s"

definition scan_lx :: "string \<Rightarrow> u64 option" where
  "scan_lx s =
     (let (neg, r) = scan_sign (dropWhile is_space s);
          r = (if take 2 r = ''0x'' \<or> take 2 r = ''0X'' then drop 2 r else r);
          ds = takeWhile is_hex_digit r;
          n = hex_value ds
      in if ds = [] then None else Some (if n \<ge> 2 ^ 64 then - 1 else if neg then - of_nat n else of_nat n))"

text \<open>\<open>present\<close> says whether the device can be opened and is the same for both calls; \<open>garbage\<close> is the uninitialised
  \<open>flags\<close>. The result of \<open>fflush\<close> is discarded.\<close>

definition dev_wr :: "klib \<Rightarrow> string \<Rightarrow> vdev \<Rightarrow> int \<times> vdev" where
  "dev_wr K inp d = (let (ret, _, d) = vmaflags_write K 0 inp d in (ret, d))"

definition lookup_vma_flags :: "klib \<Rightarrow> bool \<Rightarrow> u64 \<Rightarrow> u64 \<Rightarrow> vdev \<Rightarrow> cerr + string \<times> vdev" where
  "lookup_vma_flags K present garbage addr d =
     (if \<not> present then Inl (Exit 1)
      else
        let (pending, d) = fflush (dev_wr K) (fmt_lu addr @ newline) d;
            d = fclose_out (dev_wr K) pending d;
            (n, bytes) = vmaflags_read K 4096 0 d
        in if n \<le> 0 then Inl (Exit 1)
           else Inr (print_vma_flags (case scan_lx bytes of None \<Rightarrow> garbage | Some f \<Rightarrow> f), d))"

section \<open>The program of \<open>vma.c\<close>\<close>

text \<open>
  The program makes nine mappings and asks for the flags of each. A stage is the text it prints first and the calls that must succeed;
  a failed one ends the program with status 1. \<open>ok\<close> and \<open>addr\<close> are the answers of the kernel: which calls of a stage succeed and
  where its mapping lies, which is \<open>MAP_FAILED\<close> when \<open>mmap\<close> failed. \<open>K i\<close> is the kernel with the mappings of the first stages.
\<close>

datatype vma_call = VOpen string | VMmap nat "prot list" "map_flag list" bool | VMlock2 nat | VMlock nat | VMunlock nat

definition vma_stages :: "(string \<times> vma_call list) list" where
  "vma_stages =
    [(''1: '', [VMmap 1 [] [MAP_ANON, MAP_PRIVATE] False]),
     (''2: '', [VMmap 1 [PROT_READ] [MAP_ANON, MAP_PRIVATE] False]),
     (''3: '', [VMmap 1 [PROT_READ, PROT_WRITE] [MAP_ANON, MAP_PRIVATE] False]),
     (''4: '', [VMmap 1 [PROT_READ, PROT_WRITE, PROT_EXEC] [MAP_ANON, MAP_PRIVATE] False]),
     (''5: '', [VMmap 1 [PROT_READ, PROT_WRITE, PROT_EXEC] [MAP_ANON, MAP_PRIVATE, MAP_POPULATE] False]),
     (''6: '', [VMmap 1 [PROT_READ, PROT_WRITE, PROT_EXEC] [MAP_ANON, MAP_SHARED] False]),
     (''7: '', [VOpen ''vma.c'', VMmap 1 [PROT_READ, PROT_WRITE] [MAP_SHARED] True]),
     (''8: '', [VMmap 3 [PROT_READ, PROT_WRITE] [MAP_ANON, MAP_PRIVATE, MAP_POPULATE] False, VMlock2 0]),
     (''9: '', [VMmap 3 [PROT_READ, PROT_WRITE] [MAP_ANON, MAP_PRIVATE] False, VMlock 0, VMlock 2, VMunlock 0])]"

definition examine_vma :: "klib \<Rightarrow> bool \<Rightarrow> u64 \<Rightarrow> u64 \<Rightarrow> vdev \<Rightarrow> cerr + string \<times> vdev" where
  "examine_vma K present garbage ptr d =
     (if ptr = MAP_FAILED then Inr (''(invalid mapping!)'' @ newline, d) else lookup_vma_flags K present garbage ptr d)"

fun run_stages :: "(nat \<Rightarrow> klib) \<Rightarrow> bool \<Rightarrow> u64 \<Rightarrow> (nat \<Rightarrow> vma_call \<Rightarrow> bool) \<Rightarrow> (nat \<Rightarrow> u64) \<Rightarrow> nat \<Rightarrow> (string \<times> vma_call list) list \<Rightarrow> vdev
    \<Rightarrow> cerr + int \<times> string \<times> vdev" where
  "run_stages K present garbage ok addr i [] d = Inr (0, [], d)"
| "run_stages K present garbage ok addr i ((label, calls) # stages) d =
     (if \<not> list_all (ok i) calls then Inr (1, label, d)
      else sbind (examine_vma (K i) present garbage (addr i) d) (\<lambda>(text, d).
        sbind (run_stages K present garbage ok addr (i + 1) stages d) (\<lambda>(st, rest, d). Inr (st, label @ text @ rest, d))))"

definition vma_main :: "(nat \<Rightarrow> klib) \<Rightarrow> bool \<Rightarrow> u64 \<Rightarrow> (nat \<Rightarrow> vma_call \<Rightarrow> bool) \<Rightarrow> (nat \<Rightarrow> u64) \<Rightarrow> vdev \<Rightarrow> cerr + int \<times> string \<times> vdev" where
  "vma_main K present garbage ok addr d = run_stages K present garbage ok addr 1 vma_stages d"

section \<open>Which flags are printed\<close>

text \<open>Entries whose bit has not occurred before.\<close>

fun firsts :: "(nat \<times> string) list \<Rightarrow> (nat \<times> string) list" where
  "firsts [] = []"
| "firsts ((k, n) # es) = (k, n) # filter (\<lambda>e. fst e \<noteq> k) (firsts es)"

lemma and_push_bit: "k < 64 \<Longrightarrow> flags AND push_bit k 1 = push_bit k 1 \<longleftrightarrow> bit flags k" for flags :: u64
proof -
  assume k: "k < 64"
  have a: "bit (flags AND push_bit k 1) j \<longleftrightarrow> bit flags k \<and> j = k" "bit (push_bit k 1 :: u64) j \<longleftrightarrow> j = k" for j using k by (auto simp: bit_simps)
  show ?thesis
  proof
    assume "flags AND push_bit k 1 = push_bit k 1"
    from arg_cong [OF this, of "\<lambda>w. bit w k"] show "bit flags k" by (simp only: a simp_thms)
  next
    assume "bit flags k"
    then show "flags AND push_bit k 1 = push_bit k 1" by (intro bit_eqI) (simp only: a simp_thms)
  qed
qed

lemma flags_loop_spec:
  assumes "list_all (\<lambda>e. fst e < 64) es"
  shows "\<exists>rest. flags_loop (map (\<lambda>(k, n). (push_bit k 1, n)) es) flags = (map snd (filter (\<lambda>e. bit flags (fst e)) (firsts es)), rest)
    \<and> (\<forall>j. bit rest j \<longleftrightarrow> bit flags j \<and> j \<notin> fst ` set es)"
  using assms
proof (induction es arbitrary: flags)
  case (Cons e es)
  obtain k n where e: "e = (k, n)" by fastforce
  have k: "k < 64" using Cons.prems e by simp
  have c: "bit (flags AND NOT (push_bit k 1)) i \<longleftrightarrow> i \<noteq> k \<and> bit flags i" for i using k by (auto simp: bit_simps dest: bit_imp_le_length)
  note a = and_push_bit [OF k, of flags]
  show ?case
  proof (cases "bit flags k")
    case True
    from Cons.IH [of "flags AND NOT (push_bit k 1)"] Cons.prems obtain rest where
      "flags_loop (map (\<lambda>(k, n). (push_bit k 1, n)) es) (flags AND NOT (push_bit k 1)) = (map snd (filter (\<lambda>e. fst e \<noteq> k \<and> bit flags (fst e)) (firsts es)), rest)"
      "\<forall>j. bit rest j \<longleftrightarrow> (j \<noteq> k \<and> bit flags j) \<and> j \<notin> fst ` set es" unfolding c by auto
    then show ?thesis using True a e by (auto simp: Let_def)
  next
    case False
    from Cons.IH [of flags] Cons.prems obtain rest where
      r: "flags_loop (map (\<lambda>(k, n). (push_bit k 1, n)) es) flags = (map snd (filter (\<lambda>e. bit flags (fst e)) (firsts es)), rest)"
      "\<forall>j. bit rest j \<longleftrightarrow> bit flags j \<and> j \<notin> fst ` set es" by auto
    have "filter (\<lambda>e. fst e \<noteq> k \<and> bit flags (fst e)) (firsts es) = filter (\<lambda>e. bit flags (fst e)) (firsts es)"
      using False by (intro filter_cong) auto
    then show ?thesis using r False a e by auto
  qed
qed simp

text \<open>The table with the number of the bit in place of the flag. \<open>VM_PKEY_SHIFT\<close> has the bit of \<open>VM_MAYWRITE\<close>.\<close>

definition flag_bits :: "(nat \<times> string) list" where
  "flag_bits = zip ([0..<11] @ [12..<24] @ [25..<32] @ [5] @ [32..<37] @ [24, 37]) (map snd flags_map)"

lemma flag_bits_map: "flags_map = map (\<lambda>(k, n). (push_bit k 1, n)) flag_bits"
  by code_simp

lemma flag_bits_firsts: "firsts flag_bits = filter (\<lambda>e. snd e \<noteq> ''VM_PKEY_SHIFT'') flag_bits"
  by code_simp

lemma flag_bits_range: "list_all (\<lambda>e. fst e < 64) flag_bits"
  by code_simp

definition KNOWN_FLAGS :: u64 where "KNOWN_FLAGS = 0x3FFFFFF7FF"

lemma bit_KNOWN_FLAGS: "bit KNOWN_FLAGS j \<longleftrightarrow> j \<in> fst ` set flag_bits"
proof (cases "j < 64")
  case True
  have "list_all (\<lambda>j. bit KNOWN_FLAGS j \<longleftrightarrow> j \<in> set (map fst flag_bits)) [0..<64]" by code_simp
  then have "\<forall>j\<in>set [0..<64]. bit KNOWN_FLAGS j \<longleftrightarrow> j \<in> set (map fst flag_bits)" by (simp only: list_all_iff)
  then show ?thesis using True by simp
next
  case False
  then have "\<not> bit KNOWN_FLAGS j" using bit_imp_le_length [of KNOWN_FLAGS j] by auto
  moreover have "j \<notin> fst ` set flag_bits" using False flag_bits_range by (auto simp: list_all_iff)
  ultimately show ?thesis by simp
qed

lemma flags_loop_result:
  "flags_loop flags_map flags = (map snd (filter (\<lambda>(f, n). flags AND f \<noteq> 0 \<and> n \<noteq> ''VM_PKEY_SHIFT'') flags_map), flags AND NOT KNOWN_FLAGS)"
proof -
  obtain rest where r: "flags_loop flags_map flags = (map snd (filter (\<lambda>e. bit flags (fst e)) (firsts flag_bits)), rest)"
    "\<forall>j. bit rest j \<longleftrightarrow> bit flags j \<and> j \<notin> fst ` set flag_bits"
    using flags_loop_spec [OF flag_bits_range, of flags] unfolding flag_bits_map [symmetric] by blast
  have "rest = flags AND NOT KNOWN_FLAGS" using r(2) by (intro bit_eqI) (simp add: bit_simps bit_KNOWN_FLAGS)
  moreover have "flags AND push_bit k 1 \<noteq> 0 \<longleftrightarrow> bit flags k" if "k < 64" for k by (rule and_single [OF that])
  then have "filter (\<lambda>e. bit flags (fst e) \<and> snd e \<noteq> ''VM_PKEY_SHIFT'') flag_bits
      = filter (\<lambda>e. flags AND push_bit (fst e) 1 \<noteq> 0 \<and> snd e \<noteq> ''VM_PKEY_SHIFT'') flag_bits"
    using flag_bits_range by (intro filter_cong) (auto simp: list_all_iff)
  then have "map snd (filter (\<lambda>e. bit flags (fst e)) (firsts flag_bits)) = map snd (filter (\<lambda>(f, n). flags AND f \<noteq> 0 \<and> n \<noteq> ''VM_PKEY_SHIFT'') flags_map)"
    unfolding flag_bits_firsts by (simp add: flag_bits_map filter_map comp_def split_beta conj_commute)
  ultimately show ?thesis using r(1) by simp
qed

section \<open>From the kernel to the terminal\<close>

lemma hex_digit_chr [simp]: "d < 16 \<Longrightarrow> hex_digit (digit_chr d) = Some d"
  by (auto simp: hex_digit_def is_digit_def chr_between_def digit_chr_cases)

lemma hex_value_digits: "set s \<subseteq> digit_chr ` {..<16} \<Longrightarrow> foldl (\<lambda>acc c. acc * 16 + the (hex_digit c)) a s = foldl (\<lambda>acc c. acc * 16 + digit_val c) a s"
  by (induction s arbitrary: a) auto

lemma digit_chr_not: "c \<in> digit_chr ` {..<16} \<Longrightarrow> c \<noteq> CHR ''x'' \<and> c \<noteq> CHR ''X'' \<and> c \<noteq> CHR ''-'' \<and> c \<noteq> CHR ''+'' \<and> \<not> is_space c"
proof -
  have "list_all (\<lambda>d. digit_chr d \<noteq> CHR ''x'' \<and> digit_chr d \<noteq> CHR ''X'' \<and> digit_chr d \<noteq> CHR ''-'' \<and> digit_chr d \<noteq> CHR ''+'' \<and> \<not> is_space (digit_chr d)) [0..<16]"
    by code_simp
  then show "c \<in> digit_chr ` {..<16} \<Longrightarrow> c \<noteq> CHR ''x'' \<and> c \<noteq> CHR ''X'' \<and> c \<noteq> CHR ''-'' \<and> c \<noteq> CHR ''+'' \<and> \<not> is_space c"
    by (auto simp: list_all_iff)
qed

lemma scan_lx_fmt_lx: "scan_lx (fmt_lx w @ [CHR 0x00]) = Some w"
proof -
  let ?d = "to_base 16 (unat w)"
  have ds: "set ?d \<subseteq> digit_chr ` {..<16}" using to_base_set [of 16 "unat w"] by simp
  obtain c r where d: "?d = c # r" by (cases ?d) (simp_all add: to_base_nonempty)
  note c = digit_chr_not [of c]
  have sg: "scan_sign (dropWhile is_space (?d @ [CHR 0x00])) = (False, ?d @ [CHR 0x00])" using ds d c by (simp add: scan_sign_def)
  have "hd (r @ [CHR 0x00]) \<in> insert (CHR 0x00) (digit_chr ` {..<16})" using ds d by (cases r) auto
  then have x: "take 2 (?d @ [CHR 0x00]) \<noteq> ''0x'' \<and> take 2 (?d @ [CHR 0x00]) \<noteq> ''0X''"
    using d digit_chr_not [of "hd (r @ [CHR 0x00])"] by (cases r) (auto simp: numeral_2_eq_2)
  have "\<not> is_hex_digit (CHR 0x00)" by code_simp
  moreover have "is_hex_digit c" if "c \<in> set ?d" for c using ds that by (auto simp: is_hex_digit_def)
  ultimately have t: "takeWhile is_hex_digit (?d @ [CHR 0x00]) = ?d" by (subst takeWhile_append2) simp_all
  have "hex_value ?d = unat w" using hex_value_digits [OF ds, of 0] base_val_to_base [of 16 "unat w"] by (simp add: hex_value_def base_val_def)
  then show ?thesis using x by (simp add: scan_lx_def fmt_lx_def sg t Let_def)
qed

text \<open>Writing an address to the device, with a mapping there or without.\<close>

lemma dev_wr_mapped:
  assumes "klib_ok K" "find_vma K addr = Some v" "vm_start v \<le> addr"
  shows "dev_wr K (fmt_lu addr @ newline) d = (int (length (fmt_lu addr @ newline)), d\<lparr>output_buf := fmt_lx (vm_flags v), output_buf_size := 1 + length (fmt_lx (vm_flags v))\<rparr>)"
proof -
  have "\<not> addr < vm_start v" using assms(3) by simp
  then show ?thesis using assms(2) klib_okD(1) [OF assms(1) _ fmt_lu_length] klib_okD(3) [OF assms(1)] length_fmt_lx [of "vm_flags v"]
    by (simp add: dev_wr_def vmaflags_write_def vma_write_def Let_def newline_def)
qed

lemma dev_wr_unmapped:
  assumes "klib_ok K" "case find_vma K addr of None \<Rightarrow> True | Some v \<Rightarrow> addr < vm_start v"
  shows "dev_wr K (fmt_lu addr @ newline) d = (- ENXIO, d\<lparr>output_buf := [], output_buf_size := 1\<rparr>)"
  using assms klib_okD(1) [OF assms(1) _ fmt_lu_length] klib_okD(3) [OF assms(1)]
  by (cases "find_vma K addr") (simp_all add: dev_wr_def vmaflags_write_def vma_write_def Let_def newline_def)

lemma lookup_mapped:
  assumes "klib_ok K" "find_vma K addr = Some v" "vm_start v \<le> addr"
  shows "\<exists>d'. lookup_vma_flags K True garbage addr d = Inr (print_vma_flags (vm_flags v), d')"
proof -
  let ?d = "d\<lparr>output_buf := fmt_lx (vm_flags v), output_buf_size := 1 + length (fmt_lx (vm_flags v))\<rparr>"
  have "fflush (dev_wr K) (fmt_lu addr @ newline) d = ([], ?d)"
    using dev_wr_mapped [OF assms] by (simp add: fflush_def newline_def)
  moreover have "vmaflags_read K 4096 0 ?d = (int (length (fmt_lx (vm_flags v) @ [CHR 0x00])), fmt_lx (vm_flags v) @ [CHR 0x00])"
    using klib_okD(2) [OF assms(1), of "fmt_lx (vm_flags v) @ [CHR 0x00]" 4096] length_fmt_lx [of "vm_flags v"] by (simp add: vmaflags_read_def)
  ultimately show ?thesis by (simp add: lookup_vma_flags_def fclose_out_def fflush_def scan_lx_fmt_lx)
qed

section \<open>Properties\<close>

definition sample_vmas :: "vma list" where
  "sample_vmas = [\<lparr>vm_start = 0x1000, vm_end = 0x5000, vm_flags = 0x73\<rparr>]"

lemma sample_found: "find_vma (sample_klib sample_vmas) 0x2000 = Some \<lparr>vm_start = 0x1000, vm_end = 0x5000, vm_flags = 0x73\<rparr>"
  by (simp add: sample_klib_def sample_vmas_def)

text \<open>Every flag word is printed as the names of its known bits in the order of the table, each name once; bits that no
  entry has are reported as a number. The entry \<open>VM_PKEY_SHIFT\<close> is a bit number and not a flag: its value is the bit of \<open>VM_MAYWRITE\<close>,
  which the loop has cleared before, so it is never printed.\<close>

theorem print_vma_flags_names:
  "print_vma_flags flags = (if flags = 0 then ''VM_NONE'' @ newline
     else concat (map (\<lambda>(f, n). n @ '' '') (filter (\<lambda>(f, n). flags AND f \<noteq> 0 \<and> n \<noteq> ''VM_PKEY_SHIFT'') flags_map))
       @ (if flags AND NOT KNOWN_FLAGS \<noteq> 0 then ''(invalid: '' @ fmt_lu (flags AND NOT KNOWN_FLAGS) @ '' remain)'' else []) @ newline)"
  by (simp add: print_vma_flags_def flags_loop_result comp_def case_prod_unfold)

text \<open>C25. For an address inside a mapping, \<open>lookup_vma_flags\<close> prints exactly the flags the kernel has for that mapping: what the program writes the
  module reads back, and what the module prints in hexadecimal the program scans to the same number.\<close>

theorem lookup_prints_flags:
  assumes "klib_ok K" "find_vma K addr = Some v" "vm_start v \<le> addr"
  shows "\<exists>d'. lookup_vma_flags K True garbage addr d = Inr (print_vma_flags (vm_flags v), d')"
  by (rule lookup_mapped [OF assms])

theorem lookup_prints_flags_witness:
  "\<exists>d'. lookup_vma_flags (sample_klib sample_vmas) True 0 0x2000 vdev_init = Inr (print_vma_flags 0x73, d')"
  using lookup_prints_flags [OF sample_klib_ok [of sample_vmas], of "0x2000" "\<lparr>vm_start = 0x1000, vm_end = 0x5000, vm_flags = 0x73\<rparr>" 0 vdev_init]
  by (simp add: sample_found)

text \<open>For an address outside every mapping the module answers \<open>ENXIO\<close>, which the program does not notice, as it only tests what \<open>fprintf\<close>
  put into the buffer. It then reads the empty answer, where the scan stores nothing, and prints the flags of an uninitialised variable.\<close>

theorem lookup_unmapped_prints_garbage:
  assumes "klib_ok K" "case find_vma K addr of None \<Rightarrow> True | Some v \<Rightarrow> addr < vm_start v"
  shows "lookup_vma_flags K True garbage addr d = Inr (print_vma_flags garbage, d\<lparr>output_buf := [], output_buf_size := 1\<rparr>)"
proof -
  let ?d = "d\<lparr>output_buf := [], output_buf_size := 1\<rparr>"
  have w: "dev_wr K (fmt_lu addr @ newline) e = (- ENXIO, e\<lparr>output_buf := [], output_buf_size := 1\<rparr>)" for e by (rule dev_wr_unmapped [OF assms])
  have f: "fflush (dev_wr K) (fmt_lu addr @ newline) e = (fmt_lu addr @ newline, e\<lparr>output_buf := [], output_buf_size := 1\<rparr>)" for e
    using w by (simp add: fflush_def ENXIO_def)
  have "vmaflags_read K 4096 0 ?d = (1, [CHR 0x00])" using klib_okD(2) [OF assms(1), of "[CHR 0x00]" 4096] by (simp add: vmaflags_read_def)
  moreover have "scan_lx [CHR 0x00] = None" by code_simp
  ultimately show ?thesis using f [of d] f [of ?d] by (simp add: lookup_vma_flags_def fclose_out_def)
qed

theorem lookup_unmapped_prints_garbage_witness:
  "lookup_vma_flags (sample_klib sample_vmas) True 0x8000 0x9000 vdev_init = Inr (print_vma_flags 0x8000, vdev_init\<lparr>output_buf := [], output_buf_size := 1\<rparr>)"
  by (rule lookup_unmapped_prints_garbage [OF sample_klib_ok]) (simp add: sample_klib_def sample_vmas_def)

text \<open>The stages of \<open>vma.c\<close> when every call succeeds.\<close>

lemma run_stages_ok:
  assumes "\<forall>j. klib_ok (K j)" "\<forall>j c. ok j c" "\<forall>j. addr j \<noteq> MAP_FAILED \<and> find_vma (K j) (addr j) = Some (v j) \<and> vm_start (v j) \<le> addr j"
  shows "\<exists>d'. run_stages K True garbage ok addr i stages d
    = Inr (0, concat (map (\<lambda>(j, label, calls). label @ print_vma_flags (vm_flags (v j))) (enumerate i stages)), d')"
proof (induction stages arbitrary: i d)
  case (Cons s stages)
  obtain label calls where s: "s = (label, calls)" by fastforce
  have "list_all (ok i) calls" using assms(2) by (simp add: list_all_iff)
  moreover obtain d1 where "examine_vma (K i) True garbage (addr i) d = Inr (print_vma_flags (vm_flags (v i)), d1)"
    using lookup_mapped [of "K i" "addr i" "v i" garbage d] assms(1,3) by (auto simp: examine_vma_def)
  moreover obtain d2 where "run_stages K True garbage ok addr (i + 1) stages d1
      = Inr (0, concat (map (\<lambda>(j, label, calls). label @ print_vma_flags (vm_flags (v j))) (enumerate (i + 1) stages)), d2)" using Cons.IH by blast
  ultimately show ?case using s by simp
qed simp

text \<open>When all nine mappings of \<open>vma.c\<close> can be made, the program ends with status 0 and prints, after each number, the flags of the
  corresponding mapping and no other.\<close>

theorem vma_main_output:
  assumes "\<forall>j. klib_ok (K j)" "\<forall>j c. ok j c" "\<forall>j. addr j \<noteq> MAP_FAILED \<and> find_vma (K j) (addr j) = Some (v j) \<and> vm_start (v j) \<le> addr j"
  shows "\<exists>d'. vma_main K True garbage ok addr d = Inr (0, concat (map (\<lambda>j. fmt_lu (of_nat j) @ '': '' @ print_vma_flags (vm_flags (v j))) [1..<10]), d')"
proof -
  have "map (\<lambda>(j, label, calls). label @ x j) (enumerate 1 vma_stages) = map (\<lambda>j. fmt_lu (of_nat j) @ '': '' @ x j) [1..<10]" for x :: "nat \<Rightarrow> string"
  proof -
    have "map (\<lambda>(j, label, calls). (label, j)) (enumerate 1 vma_stages) = map (\<lambda>j. (fmt_lu (of_nat j) @ '': '', j)) [1..<10]" by code_simp
    from arg_cong [OF this, of "map (\<lambda>(l, j). l @ x j)"] show ?thesis by (simp add: comp_def case_prod_unfold)
  qed
  then show ?thesis using run_stages_ok [OF assms, of garbage 1 vma_stages d] by (simp add: vma_main_def)
qed

theorem vma_main_output_witness:
  "\<exists>d'. vma_main (\<lambda>_. sample_klib sample_vmas) True 0 (\<lambda>_ _. True) (\<lambda>_. 0x2000) vdev_init
     = Inr (0, concat (map (\<lambda>j. fmt_lu (of_nat j) @ '': '' @ print_vma_flags 0x73) [1..<10]), d')"
  using vma_main_output [of "\<lambda>_. sample_klib sample_vmas" "\<lambda>_ _. True" "\<lambda>_. 0x2000" "\<lambda>_. \<lparr>vm_start = 0x1000, vm_end = 0x5000, vm_flags = 0x73\<rparr>" 0 vdev_init]
  by (simp add: sample_klib_ok sample_found MAP_FAILED_def)

end
