(* ===== verification/Mad.thy ===== *)
theory Mad
  imports Char_Dev
begin

text \<open>
  The module \<open>mad/kernel/mad.c\<close>, which pins a page of a process and later writes to it or unpins it, and the program
  \<open>mad/mad.c\<close>, which drives it. A page is its frame number. What \<open>pin_user_pages_unlocked\<close> answers and whether
  devices can be registered are parameters. The messages to the kernel log are left out.
\<close>

section \<open>The module\<close>

type_synonym pfn = nat

record mad =
  curr_page :: "pfn option"
  pins :: "pfn \<Rightarrow> nat"
  dirty :: "pfn set"
  first_byte :: "pfn \<Rightarrow> char"
  registered :: "string list"

text \<open>The answer of \<open>pin_user_pages_unlocked\<close> for one page: its result, with the page it stored when the result is 1.\<close>

type_synonym pinner = "u64 \<Rightarrow> int \<times> pfn"

definition pin_page :: "pfn \<Rightarrow> mad \<Rightarrow> mad" where
  "pin_page p s = s\<lparr>curr_page := Some p, pins := (pins s)(p := pins s p + 1)\<rparr>"

text \<open>A write to the first device in its two halves, the test of \<open>curr_page\<close> with the parsing of the address, and the pinning: nothing keeps a
  second write from running between them. The left results are a null that would be stored past the end of the buffer and, inside, an error
  of the call.\<close>

definition gup_uaddr_check :: "klib \<Rightarrow> nat \<Rightarrow> string \<Rightarrow> mad \<Rightarrow> cerr + int + u64" where
  "gup_uaddr_check K pos inp s =
     (if curr_page s \<noteq> None then Inr (Inl (- EINVAL))
      else
        let (cnt, addr_buf) = to_buffer K 254 pos inp in
        if cnt \<le> 0 then Inr (Inl (- EINVAL))
        else sbind (end_text 255 cnt addr_buf) (\<lambda>addr_buf.
          (case kscan_lu K addr_buf of
            None \<Rightarrow> Inr (Inl (- EINVAL))
          | Some uaddr \<Rightarrow> if uaddr AND 4095 \<noteq> 0 then Inr (Inl (- EINVAL)) else Inr (Inr uaddr))))"

definition gup_uaddr_pin :: "pinner \<Rightarrow> u64 \<Rightarrow> string \<Rightarrow> mad \<Rightarrow> int \<times> mad" where
  "gup_uaddr_pin pin uaddr inp s =
     (let (ret, page) = pin uaddr in
      if - 4095 \<le> ret \<and> ret < 0 then (ret, s)
      else if ret \<noteq> 1 then (- EINVAL, s)
      else (int (length inp), pin_page page s))"

definition gup_uaddr_write :: "klib \<Rightarrow> pinner \<Rightarrow> nat \<Rightarrow> string \<Rightarrow> mad \<Rightarrow> cerr + int \<times> mad" where
  "gup_uaddr_write K pin pos inp s =
     sbind (gup_uaddr_check K pos inp s) (\<lambda>r. case r of
         Inl err \<Rightarrow> Inr (err, s)
       | Inr uaddr \<Rightarrow> Inr (gup_uaddr_pin pin uaddr inp s))"

text \<open>\<open>unpin_user_pages_dirty_lock\<close> with \<open>make_dirty\<close> true marks the page dirty and drops one pin.\<close>

definition unpin_curr_page :: "mad \<Rightarrow> mad" where
  "unpin_curr_page s = (case curr_page s of None \<Rightarrow> s
     | Some p \<Rightarrow> s\<lparr>curr_page := None, pins := (pins s)(p := pins s p - 1), dirty := insert p (dirty s)\<rparr>)"

definition write_dirty :: "mad \<Rightarrow> mad" where
  "write_dirty s = (case curr_page s of None \<Rightarrow> s
     | Some p \<Rightarrow> s\<lparr>dirty := insert p (dirty s), first_byte := (first_byte s)(p := CHR ''x'')\<rparr>)"

definition gup_event_write :: "klib \<Rightarrow> nat \<Rightarrow> string \<Rightarrow> mad \<Rightarrow> cerr + int \<times> mad" where
  "gup_event_write K pos inp s =
     (if curr_page s = None then Inr (- EINVAL, s)
      else
        let (cnt, event_buf) = to_buffer K 9 pos inp in
        if cnt \<le> 0 then Inr (- EINVAL, s)
        else sbind (end_text 10 cnt event_buf) (\<lambda>event_buf.
          (case kscan_d K event_buf of
            None \<Rightarrow> Inr (- EINVAL, s)
          | Some event \<Rightarrow>
              if event = 0 then Inr (int (length inp), unpin_curr_page s)
              else if event = 1 then Inr (int (length inp), write_dirty s)
              else Inr (- EINVAL, s))))"

text \<open>\<open>reg\<close> is the result of \<open>misc_register\<close> for a device.\<close>

definition mad_init :: "(string \<Rightarrow> int) \<Rightarrow> mad \<Rightarrow> int \<times> mad" where
  "mad_init reg s =
     (if reg ''gup_uaddr'' \<noteq> 0 then (reg ''gup_uaddr'', s)
      else
        let s = s\<lparr>registered := ''gup_uaddr'' # registered s\<rparr> in
        (reg ''gup_event'', if reg ''gup_event'' = 0 then s\<lparr>registered := ''gup_event'' # registered s\<rparr> else s))"

definition mad_exit :: "mad \<Rightarrow> mad" where
  "mad_exit s =
     (let s = s\<lparr>registered := filter (\<lambda>d. d \<noteq> ''gup_uaddr'' \<and> d \<noteq> ''gup_event'') (registered s)\<rparr>
      in if curr_page s \<noteq> None then unpin_curr_page s else s)"

text \<open>The module as a state machine: it moves with each write a process makes to one of its devices, with whatever bytes, one write after the other.\<close>

datatype mad_write = WriteUaddr nat string | WriteEvent nat string

inductive mad_step :: "klib \<Rightarrow> pinner \<Rightarrow> mad \<Rightarrow> mad_write \<Rightarrow> int \<Rightarrow> mad \<Rightarrow> bool" for K pin where
  uaddr: "gup_uaddr_write K pin pos inp s = Inr (ret, s') \<Longrightarrow> mad_step K pin s (WriteUaddr pos inp) ret s'"
| event: "gup_event_write K pos inp s = Inr (ret, s') \<Longrightarrow> mad_step K pin s (WriteEvent pos inp) ret s'"

inductive mad_reach :: "klib \<Rightarrow> pinner \<Rightarrow> mad \<Rightarrow> mad \<Rightarrow> bool" for K pin s0 where
  start: "mad_reach K pin s0 s0"
| step: "mad_reach K pin s0 s \<Longrightarrow> mad_step K pin s w ret s' \<Longrightarrow> mad_reach K pin s0 s'"

inductive_cases mad_stepE: "mad_step K pin s w ret s'"

section \<open>The program\<close>

text \<open>Each function prints to a stream on a device and closes it; only \<open>fopen\<close> can make it fail.\<close>

definition wrote :: "cerr + int \<times> mad \<Rightarrow> mad \<Rightarrow> int \<times> mad" where
  "wrote r s = (case r of Inr r \<Rightarrow> r | Inl _ \<Rightarrow> (- 1, s))"

definition gup_page :: "klib \<Rightarrow> pinner \<Rightarrow> bool \<Rightarrow> u64 \<Rightarrow> mad \<Rightarrow> bool \<times> mad" where
  "gup_page K pin present addr s =
     (if \<not> present then (False, s) else (True, fclose_out (\<lambda>inp s. wrote (gup_uaddr_write K pin 0 inp s) s) (fmt_lu addr @ newline) s))"

definition gup_write_event :: "klib \<Rightarrow> bool \<Rightarrow> int \<Rightarrow> mad \<Rightarrow> bool \<times> mad" where
  "gup_write_event K present event s =
     (if \<not> present then (False, s) else (True, fclose_out (\<lambda>inp s. wrote (gup_event_write K 0 inp s) s) (fmt_d event @ newline) s))"

definition gup_unpin :: "klib \<Rightarrow> bool \<Rightarrow> mad \<Rightarrow> bool \<times> mad" where
  "gup_unpin K present = gup_write_event K present 0"

definition gup_write_dirty :: "klib \<Rightarrow> bool \<Rightarrow> mad \<Rightarrow> bool \<times> mad" where
  "gup_write_dirty K present = gup_write_event K present 1"

text \<open>
  What the program meets: whether the file opens, where it is mapped and in which page its first page lies, whether each \<open>msync\<close> succeeds, and whether
  the two devices can be opened. A store makes the page dirty, \<open>msync\<close> makes it clean.
\<close>

record mad_env =
  file_ok :: bool
  map_at :: "u64 option"
  frame :: pfn
  sync_ok :: "nat \<Rightarrow> bool"
  uaddr_dev :: bool
  event_dev :: bool

definition do_sync :: "mad_env \<Rightarrow> nat \<Rightarrow> mad \<Rightarrow> bool \<times> mad" where
  "do_sync e i s = (if sync_ok e i then (True, s\<lparr>dirty := dirty s - {frame e}\<rparr>) else (False, s))"

definition store_first :: "mad_env \<Rightarrow> mad \<Rightarrow> mad" where
  "store_first e s = s\<lparr>dirty := insert (frame e) (dirty s), first_byte := (first_byte s)(frame e := CHR ''x'')\<rparr>"

definition mad_main :: "klib \<Rightarrow> pinner \<Rightarrow> mad_env \<Rightarrow> mad \<Rightarrow> int \<times> mad" where
  "mad_main K pin e s =
     (if \<not> file_ok e then (1, s)
      else (case map_at e of
          None \<Rightarrow> (1, s)
        | Some ptr \<Rightarrow>
            let (ok, s) = do_sync e 0 s in
            if \<not> ok then (1, s)
            else
              let (ok, s) = gup_page K pin (uaddr_dev e) ptr s in
              if \<not> ok then (1, s)
              else
                let (ok, s) = do_sync e 1 (store_first e s) in
                if \<not> ok then (1, snd (gup_unpin K (event_dev e) s))
                else
                  let (ok, s) = gup_write_dirty K (event_dev e) s in
                  if \<not> ok then (1, snd (gup_unpin K (event_dev e) s))
                  else
                    let (ok, s) = gup_unpin K (event_dev e) s in
                    (if ok then 0 else 1, s)))"

section \<open>The invariant of the module\<close>

text \<open>The only pin the module holds is the one of its current page.\<close>

definition mad_ok :: "mad \<Rightarrow> bool" where
  "mad_ok s \<longleftrightarrow> pins s = (case curr_page s of None \<Rightarrow> (\<lambda>_. 0) | Some p \<Rightarrow> (\<lambda>_. 0)(p := 1))"

lemma unpin_ok: "mad_ok s \<Longrightarrow> mad_ok (unpin_curr_page s) \<and> curr_page (unpin_curr_page s) = None"
  by (auto simp: mad_ok_def unpin_curr_page_def fun_eq_iff split: option.splits)

lemma write_dirty_ok: "mad_ok s \<Longrightarrow> mad_ok (write_dirty s) \<and> curr_page (write_dirty s) = curr_page s"
  by (auto simp: mad_ok_def write_dirty_def split: option.splits)

lemma pin_ok: "mad_ok s \<Longrightarrow> curr_page s = None \<Longrightarrow> mad_ok (pin_page p s)"
  by (simp add: mad_ok_def pin_page_def)

lemma uaddr_write_cases:
  assumes "gup_uaddr_write K pin pos inp s = Inr (ret, s')"
  shows "s' = s \<or> curr_page s = None \<and> (\<exists>p. s' = pin_page p s)"
proof -
  have "curr_page s = None" if "gup_uaddr_check K pos inp s = Inr (Inr a)" for a
    using that by (auto simp: gup_uaddr_check_def split: if_splits)
  moreover obtain r where r: "gup_uaddr_check K pos inp s = Inr r" "(case r of Inl err \<Rightarrow> Inr (err, s) | Inr a \<Rightarrow> Inr (gup_uaddr_pin pin a inp s)) = (Inr (ret, s') :: cerr + int \<times> mad)"
    using assms unfolding gup_uaddr_write_def by (elim sbind_eq_InrE) (rule that)
  moreover have "snd (gup_uaddr_pin pin a inp s) \<in> {s, pin_page (snd (pin a)) s}" for a
    by (auto simp: gup_uaddr_pin_def Let_def split: prod.splits)
  ultimately show ?thesis by (cases r) (auto, metis insert_iff singletonD snd_conv)
qed

lemma event_write_cases:
  assumes "gup_event_write K pos inp s = Inr (ret, s')"
  shows "s' \<in> {s, unpin_curr_page s, write_dirty s}"
  using assms by (auto simp: gup_event_write_def Let_def split: if_splits option.splits prod.splits)

lemma mad_step_ok: "mad_step K pin s w ret s' \<Longrightarrow> mad_ok s \<Longrightarrow> mad_ok s'"
  by (erule mad_stepE; drule uaddr_write_cases event_write_cases) (auto simp: unpin_ok write_dirty_ok pin_ok)

text \<open>No write ends a run: the nulls are stored within the buffers.\<close>

lemma mad_writes_bounded:
  assumes "copies_within K"
  shows "\<exists>r. gup_uaddr_write K pin pos inp s = Inr r" "\<exists>r. gup_event_write K pos inp s = Inr r"
proof -
  obtain count buf where t: "to_buffer K 254 pos inp = (count, buf)" by fastforce
  then show "\<exists>r. gup_uaddr_write K pin pos inp s = Inr r" using end_text_within [OF assms t, of 255]
    by (auto simp: gup_uaddr_write_def gup_uaddr_check_def split: option.splits)
  obtain count buf where t: "to_buffer K 9 pos inp = (count, buf)" by fastforce
  then show "\<exists>r. gup_event_write K pos inp s = Inr r" using end_text_within [OF assms t, of 10]
    by (auto simp: gup_event_write_def split: option.splits)
qed

lemma mad_reach_ok: "mad_reach K pin s0 s \<Longrightarrow> mad_ok s0 \<Longrightarrow> mad_ok s"
  by (induction rule: mad_reach.induct) (auto intro: mad_step_ok)

section \<open>What the program does to the module\<close>

lemma event_closed:
  assumes "klib_ok K" "event = 0 \<or> event = 1"
  shows "fclose_out (\<lambda>inp s. wrote (gup_event_write K 0 inp s) s) (fmt_d event @ newline) s
    = (if curr_page s = None then s else if event = 0 then unpin_curr_page s else write_dirty s)"
proof -
  have l: "length (fmt_d event) = 1" using assms(2) by (auto simp: fmt_d_def to_base.simps)
  then have "to_buffer K 9 0 (fmt_d event @ newline) = (int (length (fmt_d event @ newline)), fmt_d event @ newline)"
    by (intro klib_okD(1) [OF assms(1)]) (simp_all add: newline_def)
  moreover have "end_text 10 (int (length (fmt_d event @ newline))) (fmt_d event @ newline) = Inr (fmt_d event @ newline)"
    by (rule end_text_all) (simp add: l newline_def)
  ultimately show ?thesis using assms(2) klib_okD(4) [OF assms(1), of event] l
    by (auto simp: fclose_out_def fflush_def wrote_def gup_event_write_def Let_def newline_def EINVAL_def)
qed

lemma uaddr_checked:
  assumes "klib_ok K"
  shows "gup_uaddr_check K 0 (fmt_lu addr @ newline) s
    = Inr (if curr_page s = None \<and> addr AND 4095 = 0 then Inr addr else Inl (- EINVAL))"
proof -
  have "to_buffer K 254 0 (fmt_lu addr @ newline) = (int (length (fmt_lu addr @ newline)), fmt_lu addr @ newline)"
    by (rule klib_okD(1) [OF assms _ fmt_lu_length]) (simp add: newline_def)
  moreover have "end_text 255 (int (length (fmt_lu addr @ newline))) (fmt_lu addr @ newline) = Inr (fmt_lu addr @ newline)"
    by (rule end_text_all) (rule le_less_trans [OF fmt_lu_length], simp)
  ultimately show ?thesis using klib_okD(3) [OF assms, of addr]
    by (simp add: gup_uaddr_check_def Let_def newline_def)
qed

lemma uaddr_written:
  assumes "klib_ok K"
  shows "\<exists>ret. gup_uaddr_write K pin 0 (fmt_lu addr @ newline) s
    = Inr (ret, if curr_page s = None \<and> addr AND 4095 = 0 \<and> fst (pin addr) = 1 then pin_page (snd (pin addr)) s else s)"
  by (auto simp: gup_uaddr_write_def uaddr_checked [OF assms] gup_uaddr_pin_def Let_def split: prod.splits)

lemma uaddr_closed:
  assumes "klib_ok K"
  shows "fclose_out (\<lambda>inp s. wrote (gup_uaddr_write K pin 0 inp s) s) (fmt_lu addr @ newline) s
    = (if curr_page s = None \<and> addr AND 4095 = 0 \<and> fst (pin addr) = 1 then pin_page (snd (pin addr)) s else s)"
  using uaddr_written [OF assms, of pin addr s] by (auto simp: fclose_out_def fflush_def newline_def wrote_def)

definition mad_start :: mad where
  "mad_start = \<lparr>curr_page = None, pins = \<lambda>_. 0, dirty = {}, first_byte = \<lambda>_. CHR ''a'', registered = [''gup_event'', ''gup_uaddr'']\<rparr>"

definition mad_fine :: mad_env where
  "mad_fine = \<lparr>file_ok = True, map_at = Some 0x7000, frame = 3, sync_ok = \<lambda>_. True, uaddr_dev = True, event_dev = True\<rparr>"

text \<open>C26. Whatever bytes are written to the two devices, in whatever order and at whatever offsets, one write after the other, the module holds at most one
  pin, that of its current page; a second request while it holds one is refused. When the module is removed, no page stays pinned.\<close>

theorem mad_pins_balanced:
  assumes "mad_reach K pin s0 s" "mad_ok s0"
  shows "mad_ok s \<and> (\<forall>pos inp. curr_page s \<noteq> None \<longrightarrow> gup_uaddr_write K pin pos inp s = Inr (- EINVAL, s))
    \<and> pins (mad_exit s) = (\<lambda>_. 0) \<and> curr_page (mad_exit s) = None"
proof -
  have "mad_ok s" by (rule mad_reach_ok [OF assms])
  then show ?thesis
    by (auto simp: mad_ok_def mad_exit_def Let_def unpin_curr_page_def gup_uaddr_write_def gup_uaddr_check_def fun_eq_iff split: option.splits)
qed

theorem mad_pins_balanced_witness:
  "\<exists>s. mad_reach (sample_klib []) (\<lambda>_. (1, 3)) mad_start s \<and> curr_page s = Some 3 \<and> pins (mad_exit s) = (\<lambda>_. 0)"
proof -
  let ?t = "fmt_lu 0x7000 @ newline" and ?pin = "\<lambda>_. (1, 3)"
  obtain ret where "gup_uaddr_write (sample_klib []) ?pin 0 ?t mad_start = Inr (ret, pin_page 3 mad_start)"
    using uaddr_written [OF sample_klib_ok, of "[]" ?pin "0x7000" mad_start] by (auto simp: mad_start_def)
  then have r: "mad_reach (sample_klib []) ?pin mad_start (pin_page 3 mad_start)" by (rule mad_reach.step [OF mad_reach.start mad_step.uaddr])
  have "mad_ok mad_start" by (simp add: mad_ok_def mad_start_def)
  from mad_pins_balanced [OF r this] r show ?thesis by (auto simp: pin_page_def)
qed

text \<open>Two writes at the same time break this: when both have found no current page before either pins one, the first page stays pinned for ever.\<close>

theorem mad_race_leaks:
  assumes "klib_ok K" "a AND 4095 = 0" "b AND 4095 = 0" "pin a = (1, p)" "pin b = (1, q)" "p \<noteq> q" "mad_ok s" "curr_page s = None"
  shows "\<exists>s'. gup_uaddr_check K 0 (fmt_lu a @ newline) s = Inr (Inr a) \<and> gup_uaddr_check K 0 (fmt_lu b @ newline) s = Inr (Inr b)
    \<and> s' = snd (gup_uaddr_pin pin b (fmt_lu b @ newline) (snd (gup_uaddr_pin pin a (fmt_lu a @ newline) s)))
    \<and> pins (mad_exit s') p = 1"
  using assms
  by (simp add: uaddr_checked gup_uaddr_pin_def pin_page_def mad_exit_def unpin_curr_page_def mad_ok_def)

theorem mad_race_leaks_witness:
  "\<exists>s'. gup_uaddr_check (sample_klib []) 0 (fmt_lu 0x1000 @ newline) mad_start = Inr (Inr 0x1000)
    \<and> gup_uaddr_check (sample_klib []) 0 (fmt_lu 0x2000 @ newline) mad_start = Inr (Inr 0x2000)
    \<and> s' = snd (gup_uaddr_pin (\<lambda>a. (1, unat a)) 0x2000 (fmt_lu 0x2000 @ newline)
        (snd (gup_uaddr_pin (\<lambda>a. (1, unat a)) 0x1000 (fmt_lu 0x1000 @ newline) mad_start)))
    \<and> pins (mad_exit s') 0x1000 = 1"
  using mad_race_leaks [OF sample_klib_ok, of "0x1000" "0x2000" "\<lambda>a. (1, unat a)" "0x1000" "0x2000" mad_start "[]"]
  by (simp add: mad_ok_def mad_start_def)

text \<open>When every call succeeds and the module pins the page, the program ends with status 0; the module has written to the page and marked it dirty
  after \<open>msync\<close> had cleaned it, and holds no pin in the end.\<close>

theorem mad_main_dirties:
  assumes "klib_ok K" "mad_ok s" "curr_page s = None" "file_ok e" "map_at e = Some ptr" "\<forall>i. sync_ok e i" "uaddr_dev e" "event_dev e"
    "ptr AND 4095 = 0" "pin ptr = (1, frame e)"
  shows "\<exists>s'. mad_main K pin e s = (0, s') \<and> frame e \<in> dirty s' \<and> first_byte s' (frame e) = CHR ''x'' \<and> curr_page s' = None \<and> pins s' = pins s"
  using assms event_closed [OF assms(1)] uaddr_closed [OF assms(1)]
  by (simp add: mad_main_def do_sync_def gup_page_def store_first_def gup_write_dirty_def gup_unpin_def gup_write_event_def Let_def
      pin_page_def write_dirty_def unpin_curr_page_def fun_eq_iff)

theorem mad_main_dirties_witness:
  "\<exists>s'. mad_main (sample_klib []) (\<lambda>_. (1, 3)) mad_fine mad_start = (0, s') \<and> 3 \<in> dirty s' \<and> first_byte s' 3 = CHR ''x'' \<and> curr_page s' = None \<and> pins s' = pins mad_start"
  using mad_main_dirties [OF sample_klib_ok, of mad_start mad_fine "0x7000" "\<lambda>_. (1, 3)" "[]"]
  by (simp add: mad_fine_def mad_ok_def mad_start_def)

text \<open>The program takes what \<open>fprintf\<close> put into its buffer for success, and the module refuses only when the stream is closed: when no page can be pinned the
  program still ends with status 0, although the module did nothing and the page is as clean as \<open>msync\<close> left it.\<close>

theorem mad_refusal_unnoticed:
  assumes "klib_ok K" "curr_page s = None" "file_ok e" "map_at e = Some ptr" "\<forall>i. sync_ok e i" "uaddr_dev e" "event_dev e" "fst (pin ptr) \<noteq> 1"
  shows "\<exists>s'. mad_main K pin e s = (0, s') \<and> frame e \<notin> dirty s' \<and> curr_page s' = None \<and> pins s' = pins s"
  using assms event_closed [OF assms(1)] uaddr_closed [OF assms(1)]
  by (simp add: mad_main_def do_sync_def gup_page_def store_first_def gup_write_dirty_def gup_unpin_def gup_write_event_def Let_def)

theorem mad_refusal_unnoticed_witness:
  "\<exists>s'. mad_main (sample_klib []) (\<lambda>_. (- 14, 0)) mad_fine mad_start = (0, s') \<and> 3 \<notin> dirty s' \<and> curr_page s' = None \<and> pins s' = pins mad_start"
  using mad_refusal_unnoticed [OF sample_klib_ok, of mad_start mad_fine "0x7000" "\<lambda>_. (- 14, 0)" "[]"]
  by (simp add: mad_fine_def mad_start_def)

text \<open>A page stays pinned when the second device cannot be opened, and a device stays registered when the second one cannot be.\<close>

lemma mad_main_leaks_pin:
  assumes "klib_ok K" "curr_page s = None" "file_ok e" "map_at e = Some ptr" "\<forall>i. sync_ok e i" "uaddr_dev e" "\<not> event_dev e"
    "ptr AND 4095 = 0" "pin ptr = (1, frame e)"
  shows "\<exists>s'. mad_main K pin e s = (1, s') \<and> curr_page s' = Some (frame e)"
  using assms uaddr_closed [OF assms(1)]
  by (simp add: mad_main_def do_sync_def gup_page_def store_first_def gup_write_dirty_def gup_unpin_def gup_write_event_def Let_def pin_page_def)

lemma mad_init_leaks_device:
  "reg ''gup_uaddr'' = 0 \<Longrightarrow> reg ''gup_event'' \<noteq> 0 \<Longrightarrow> mad_init reg s = (reg ''gup_event'', s\<lparr>registered := ''gup_uaddr'' # registered s\<rparr>)"
  by (simp add: mad_init_def Let_def)

end
