(* ===== verification/Lru_Scan.thy ===== *)
theory Lru_Scan
  imports C_Lib "HOL-Library.Multiset"
begin

text \<open>
  The program \<open>random/scan.c\<close>, which shuffles an array of pages, links the pages in that order and adds up
  their ages in three ways. A pointer to \<open>struct page\<close> is the index of the page in the array \<open>memmap\<close>, \<open>None\<close> the null
  pointer. The random numbers, the times and whether memory can be had are parameters.
\<close>

section \<open>The program\<close>

text \<open>\<open>flags\<close> and \<open>padding\<close> are never used.\<close>

record lru_page =
  page_next :: "nat option"
  page_prev :: "nat option"
  age :: u64

definition zero_page :: lru_page where
  "zero_page = \<lparr>page_next = None, page_prev = None, age = 0\<rparr>"

text \<open>One step of the shuffle and one step of the loop that links the pages. \<open>rnd i\<close> is what \<open>mrand48\<close> returns in round \<open>i\<close>.\<close>

definition swap_step :: "(nat \<Rightarrow> u64) \<Rightarrow> nat list \<Rightarrow> nat \<Rightarrow> nat list" where
  "swap_step rnd array i =
     (let j = unat (rnd i mod (of_nat i + 1));
          page = array ! j
      in (array[j := array ! i])[i := page])"

definition link_step :: "nat list \<Rightarrow> u64 \<Rightarrow> lru_page list \<Rightarrow> nat \<Rightarrow> lru_page list" where
  "link_step array cnt mm i =
     (let page = array ! i in
      mm[page := (mm ! page)\<lparr>page_next := Some (array ! unat ((of_nat i + 1) mod cnt)),
                               page_prev := Some (array ! unat ((of_nat i - 1) mod cnt)),
                               age := of_nat i\<rparr>])"

definition shuffle :: "(nat \<Rightarrow> u64) \<Rightarrow> u64 \<Rightarrow> nat list \<Rightarrow> lru_page list \<Rightarrow> nat list \<times> lru_page list" where
  "shuffle rnd cnt array mm =
     (let array = foldl (swap_step rnd) array [1..<unat cnt]
      in (array, foldl (link_step array cnt) mm [0..<unat cnt]))"

text \<open>The three scans. The last one follows the links; \<open>None\<close> is a walk that does not end.\<close>

definition phys_scan :: "lru_page list \<Rightarrow> u64" where
  "phys_scan mm = foldl (\<lambda>tot page. tot + age page) 0 mm"

definition array_scan :: "nat list \<Rightarrow> lru_page list \<Rightarrow> u64" where
  "array_scan array mm = foldl (\<lambda>tot p. tot + age (mm ! p)) 0 array"

partial_function (option) list_scan :: "lru_page list \<Rightarrow> nat option \<Rightarrow> u64 \<Rightarrow> (cerr + u64) option" where
  "list_scan mm page tot = (case page of
      None \<Rightarrow> Some (Inl NullDeref)
    | Some p \<Rightarrow>
        if p < length mm then
          let tot = tot + age (mm ! p);
              page = page_next (mm ! p)
          in if page = Some 0 then Some (Inr tot) else list_scan mm page tot
        else Some (Inl OutOfBounds))"

text \<open>The options, as \<open>getopt\<close> delivers them with the value \<open>strtoul\<close> gives for the argument.\<close>

datatype scan_opt = OptC u64 | OptS u64 | OptV | OptUnknown char

record scan_conf =
  page_count :: u64
  seed :: u64
  verbose :: u32

fun scan_opts :: "scan_opt list \<Rightarrow> scan_conf \<Rightarrow> char + scan_conf" where
  "scan_opts [] c = Inr c"
| "scan_opts (OptC v # os) c = scan_opts os (c\<lparr>page_count := page_count c * v\<rparr>)"
| "scan_opts (OptS v # os) c = scan_opts os (c\<lparr>seed := v\<rparr>)"
| "scan_opts (OptV # os) c = scan_opts os (c\<lparr>verbose := verbose c + 1\<rparr>)"
| "scan_opts (OptUnknown o' # os) c = Inl o'"

definition printv :: "u32 \<Rightarrow> scan_conf \<Rightarrow> string \<Rightarrow> string" where
  "printv level c s = (if level \<le> verbose c then s else [])"

text \<open>\<open>secs i\<close> is the text \<open>%f\<close> prints for the i-th time. The result is the status with the text written to the standard output.
  Neither loop over the arrays runs when \<open>malloc\<close> fails and the count is 0.\<close>

definition scan_main :: "scan_opt list \<Rightarrow> u64 \<Rightarrow> bool \<Rightarrow> bool \<Rightarrow> (u64 \<Rightarrow> nat \<Rightarrow> u64) \<Rightarrow> (nat \<Rightarrow> string) \<Rightarrow> (cerr + int \<times> string) option" where
  "scan_main opts now calloc_ok malloc_ok rnd secs = (case scan_opts opts \<lparr>page_count = 1000 * 1000, seed = now, verbose = 0\<rparr> of
      Inl _ \<Rightarrow> Some (Inr (1, []))
    | Inr c \<Rightarrow>
        if \<not> calloc_ok then Some (Inr (1, []))
        else if \<not> malloc_ok \<and> page_count c \<noteq> 0 then Some (Inl NullDeref)
        else
          let n = unat (page_count c);
              (array, mm) = shuffle (rnd (seed c)) (page_count c) [0..<n] (replicate n zero_page);
              out = printv 3 c (''Allocated memmap for '' @ fmt_lu (page_count c) @ '' pages in '' @ secs 0 @ ''s'' @ newline)
                @ printv 2 c (''random seed '' @ fmt_lu (seed c) @ newline)
                @ printv 3 c (''Created shuffled list in '' @ secs 1 @ ''s'' @ newline)
                @ printv 3 c (''total = '' @ fmt_lu (phys_scan mm) @ newline)
                @ printv 1 c (''Physical scan in '' @ secs 2 @ ''s'' @ newline)
                @ printv 3 c (''total = '' @ fmt_lu (array_scan array mm) @ newline)
                @ printv 1 c (''Array scan in '' @ secs 3 @ ''s'' @ newline)
          in Option.bind (list_scan mm (Some 0) 0) (\<lambda>r. Some (sbind r (\<lambda>tot.
               Inr (0, out
                 @ printv 3 c (''total = '' @ fmt_lu tot @ newline)
                 @ printv 1 c (''ListLRU scan in '' @ secs 4 @ ''s'' @ newline)
                 @ ''Physical scan is '' @ secs 5 @ '' faster than ListLRU'' @ newline
                 @ ''Physical scan is '' @ secs 6 @ '' faster than ArrayLRU'' @ newline)))))"

section \<open>The shuffle\<close>

lemma unat_of_nat_Suc: "unat (of_nat i + 1 :: u64) = Suc i mod 2 ^ 64"
proof -
  have "(of_nat i + 1 :: u64) = of_nat (Suc i)" by simp
  then show ?thesis by (simp only: unat_of_nat) simp
qed

lemma swap_index:
  fixes r :: u64
  shows "unat (r mod (of_nat i + 1)) \<le> i"
proof (cases "Suc i < 2 ^ 64")
  case True
  then have "unat (of_nat i + 1 :: u64) = Suc i" by (simp add: unat_of_nat_Suc)
  then have "unat (r mod (of_nat i + 1)) = unat r mod Suc i" by (simp only: unat_mod)
  then show ?thesis by (simp only: less_Suc_eq_le [symmetric]) simp
next
  case False
  have "unat (r mod (of_nat i + 1)) < 2 ^ 64" by (rule unat_lt64)
  then show ?thesis using False by linarith
qed

lemma swap_step_mset:
  assumes "i < length array"
  shows "mset (swap_step rnd array i) = mset array" "length (swap_step rnd array i) = length array"
  using assms le_less_trans [OF swap_index [of "rnd i" i] assms]
  by (simp_all add: swap_step_def Let_def mset_swap)

lemma shuffle_mset: "list_all (\<lambda>i. i < length array) is \<Longrightarrow> mset (foldl (swap_step rnd) array is) = mset array"
  by (induction "is" arbitrary: array) (simp_all add: swap_step_mset)

section \<open>The links\<close>

text \<open>The page at position \<open>i\<close> of the array, as the second loop leaves it.\<close>

definition linked :: "nat list \<Rightarrow> u64 \<Rightarrow> nat \<Rightarrow> lru_page" where
  "linked array cnt i = \<lparr>page_next = Some (array ! unat ((of_nat i + 1) mod cnt)), page_prev = Some (array ! unat ((of_nat i - 1) mod cnt)), age = of_nat i\<rparr>"

lemma link_step_linked: "link_step array cnt mm i = mm[array ! i := linked array cnt i]"
  by (cases "mm ! (array ! i)") (simp add: link_step_def linked_def Let_def)

lemma link_loop:
  assumes "distinct array" "set array \<subseteq> {..<length mm}" "k \<le> length array"
  shows "length (foldl (link_step array cnt) mm [0..<k]) = length mm \<and> (\<forall>i<k. foldl (link_step array cnt) mm [0..<k] ! (array ! i) = linked array cnt i)"
  using assms(3)
proof (induction k)
  case (Suc k)
  define m' where "m' = foldl (link_step array cnt) mm [0..<k]"
  have l: "length m' = length mm" "\<And>i. i < k \<Longrightarrow> m' ! (array ! i) = linked array cnt i" using Suc by (auto simp: m'_def)
  have "array ! k < length mm" using assms(2) Suc.prems nth_mem [of k array] by (auto simp del: nth_mem)
  moreover have "\<forall>i<k. array ! i \<noteq> array ! k" using assms(1) Suc.prems by (auto simp: nth_eq_iff_index_eq)
  moreover have "foldl (link_step array cnt) mm [0..<Suc k] = m'[array ! k := linked array cnt k]" by (simp add: m'_def link_step_linked [symmetric])
  ultimately show ?case using l by (auto simp: less_Suc_eq nth_list_update)
qed simp

definition gauss :: "nat \<Rightarrow> u64" where
  "gauss n = sum_list (map of_nat [0..<n])"

lemma foldl_plus: "foldl (\<lambda>t x. t + f x) a xs = a + sum_list (map f xs)" for a :: u64
  by (induction xs arbitrary: a) (simp_all add: add.assoc)

lemma sum_list_mset_cong: "mset xs = mset ys \<Longrightarrow> sum_list (map f xs) = sum_list (map f ys)" for f :: "nat \<Rightarrow> u64"
  by (metis mset_map sum_mset_sum_list)

text \<open>An array of all pages in some order, with the pages linked in that order.\<close>

definition ring_of :: "nat list \<Rightarrow> u64 \<Rightarrow> lru_page list \<Rightarrow> bool" where
  "ring_of array cnt mm \<longleftrightarrow> 0 < cnt \<and> mset array = mset [0..<unat cnt] \<and> length mm = unat cnt \<and> (\<forall>i<unat cnt. mm ! (array ! i) = linked array cnt i)"

lemma shuffle_ring:
  assumes "0 < cnt" "length mm = unat cnt" "shuffle rnd cnt [0..<unat cnt] mm = (array, mm')"
  shows "ring_of array cnt mm'"
proof -
  have a: "array = foldl (swap_step rnd) [0..<unat cnt] [1..<unat cnt]" "mm' = foldl (link_step array cnt) mm [0..<unat cnt]"
    using assms(3) by (auto simp: shuffle_def Let_def)
  have m: "mset array = mset [0..<unat cnt]" unfolding a(1) by (rule shuffle_mset) (simp add: list_all_iff)
  have d: "distinct array" using mset_eq_imp_distinct_iff [OF m] by simp
  have e: "set array \<subseteq> {..<length mm}" using mset_eq_setD [OF m] assms(2) by auto
  have l: "unat cnt \<le> length array" using mset_eq_length [OF m] by simp
  from link_loop [OF d e l, of cnt] show ?thesis unfolding a(2) [symmetric] ring_of_def using assms(1,2) m by simp
qed

lemma ring_facts:
  assumes "ring_of array cnt mm"
  shows "length array = unat cnt" "i < unat cnt \<Longrightarrow> array ! i < unat cnt" "0 < unat cnt"
    "i < unat cnt \<Longrightarrow> j < unat cnt \<Longrightarrow> array ! i = array ! j \<longleftrightarrow> i = j"
proof -
  have m: "mset array = mset [0..<unat cnt]" and c: "0 < cnt" using assms by (auto simp: ring_of_def)
  show l: "length array = unat cnt" using mset_eq_length [OF m] by simp
  show "0 < unat cnt" using c by (simp add: word_less_nat_alt)
  show "array ! i < unat cnt" if "i < unat cnt" using mset_eq_setD [OF m] nth_mem [of i array] l that by (auto simp del: nth_mem)
  show "array ! i = array ! j \<longleftrightarrow> i = j" if "i < unat cnt" "j < unat cnt"
    using mset_eq_imp_distinct_iff [OF m] l that by (simp add: nth_eq_iff_index_eq)
qed

lemma array_total:
  assumes "ring_of array cnt mm"
  shows "array_scan array mm = gauss (unat cnt)"
proof -
  have "map (\<lambda>p. age (mm ! p)) array = map of_nat [0..<unat cnt]"
    using assms ring_facts(1) [OF assms] by (intro nth_equalityI) (auto simp: ring_of_def linked_def)
  then show ?thesis by (simp add: array_scan_def foldl_plus gauss_def)
qed

lemma phys_total:
  assumes "ring_of array cnt mm"
  shows "phys_scan mm = gauss (unat cnt)"
proof -
  have m: "mset array = mset [0..<unat cnt]" "length mm = unat cnt" using assms by (auto simp: ring_of_def)
  have "map age mm = map (\<lambda>p. age (mm ! p)) [0..<unat cnt]" using m(2) by (intro nth_equalityI) auto
  then have "sum_list (map age mm) = sum_list (map (\<lambda>p. age (mm ! p)) array)" using sum_list_mset_cong [OF m(1)] by simp
  then show ?thesis using array_total [OF assms] by (simp add: phys_scan_def array_scan_def foldl_plus)
qed

text \<open>The walk along the links, from the position \<open>(k + m) mod n\<close> to the end.\<close>

lemma next_index:
  fixes cnt :: u64
  assumes "i < unat cnt"
  shows "unat ((of_nat i + 1) mod cnt) = Suc i mod unat cnt"
proof -
  have "Suc i < 2 ^ 64" using assms unat_lt64 [of cnt] by linarith
  then show ?thesis by (simp only: unat_mod unat_of_nat_Suc) simp
qed

lemma list_walk:
  assumes "ring_of array cnt mm" "k < unat cnt" "array ! k = 0" "m < unat cnt"
  shows "list_scan mm (Some (array ! ((k + m) mod unat cnt))) tot = Some (Inr (tot + sum_list (map (\<lambda>q. of_nat ((k + q) mod unat cnt)) [m..<unat cnt])))"
  using assms(4)
proof (induction "unat cnt - m" arbitrary: m tot)
  case 0
  then show ?case by simp
next
  case (Suc d)
  let ?n = "unat cnt" and ?i = "(k + m) mod unat cnt"
  have i: "?i < ?n" using Suc.prems by simp
  have pg: "mm ! (array ! ?i) = linked array cnt ?i" "array ! ?i < length mm" using assms(1) i ring_facts(2) [OF assms(1) i] by (auto simp: ring_of_def)
  have nx: "page_next (mm ! (array ! ?i)) = Some (array ! ((k + Suc m) mod ?n))" "age (mm ! (array ! ?i)) = of_nat ?i"
    using pg(1) next_index [OF i] by (simp_all add: linked_def mod_Suc_eq)
  have up: "[m..<?n] = m # [Suc m..<?n]" using Suc.prems by (simp add: upt_conv_Cons)
  show ?case
  proof (cases "Suc m = ?n")
    case True
    then have "(k + Suc m) mod ?n = k" using assms(2) by simp
    then show ?thesis using pg nx assms(3) True up by (subst list_scan.simps) simp
  next
    case False
    then have m: "Suc m < ?n" using Suc.prems by simp
    have "(k + Suc m) mod ?n \<noteq> k"
    proof
      assume "(k + Suc m) mod ?n = k"
      then show False using assms(2) m by (cases "k + Suc m < ?n") (auto simp: le_mod_geq)
    qed
    then have "array ! ((k + Suc m) mod ?n) \<noteq> 0" using ring_facts(4) [OF assms(1) _ assms(2), of "(k + Suc m) mod ?n"] m assms(3) by simp
    then have "list_scan mm (Some (array ! ?i)) tot = list_scan mm (Some (array ! ((k + Suc m) mod ?n))) (tot + of_nat ?i)"
      using pg nx by (subst list_scan.simps) simp
    then show ?thesis using Suc.hyps(1) [of "Suc m" "tot + of_nat ?i"] Suc.hyps(2) m up by (simp add: add.assoc)
  qed
qed

lemma mset_rotation: "mset (rotate k xs) = mset xs"
proof (induction k)
  case (Suc k)
  then show ?case by (cases "rotate k xs") (simp_all add: rotate1_hd_tl)
qed simp

lemma rotation: "map (\<lambda>q. (k + q) mod n) [0..<n] = rotate k [0..<n]"
  by (rule nth_equalityI) (simp_all add: nth_rotate add.commute)

lemma list_total:
  assumes "ring_of array cnt mm"
  shows "list_scan mm (Some 0) 0 = Some (Inr (gauss (unat cnt)))"
proof -
  have m: "mset array = mset [0..<unat cnt]" using assms by (simp add: ring_of_def)
  have "0 \<in> set array" using mset_eq_setD [OF m] ring_facts(3) [OF assms] by simp
  then obtain k where k: "k < unat cnt" "array ! k = 0" using ring_facts(1) [OF assms] by (metis in_set_conv_nth)
  have "sum_list (map (\<lambda>q. of_nat ((k + q) mod unat cnt)) [0..<unat cnt]) = sum_list (map (of_nat :: nat \<Rightarrow> u64) (rotate k [0..<unat cnt]))"
    unfolding rotation [symmetric] by (simp add: comp_def)
  also have "\<dots> = gauss (unat cnt)" unfolding gauss_def by (rule sum_list_mset_cong) (simp only: mset_rotation)
  finally show ?thesis using list_walk [OF assms k, of 0 0] k ring_facts(3) [OF assms] by simp
qed

section \<open>What the program does\<close>

lemma gauss_double: "2 * gauss n = of_nat (n * (n - 1))"
proof (induction n)
  case (Suc n)
  have "gauss (Suc n) = gauss n + of_nat n" by (simp add: gauss_def)
  then show ?case using Suc by (cases n) (simp_all add: algebra_simps)
qed (simp add: gauss_def)

text \<open>C27. For every seed, every sequence of random numbers and every positive count the array holds each page once, the three scans
  all end and give the same total, the sum of the numbers below the count, and the program ends with status 0. In particular
  the walk along the links visits every page exactly once before it is back at the first one.\<close>

theorem scan_totals_agree:
  assumes "scan_opts opts \<lparr>page_count = 1000 * 1000, seed = now, verbose = 0\<rparr> = Inr c" "0 < page_count c"
    "shuffle (rnd (seed c)) (page_count c) [0..<unat (page_count c)] (replicate (unat (page_count c)) zero_page) = (array, mm)"
  shows "mset array = mset [0..<unat (page_count c)] \<and> phys_scan mm = array_scan array mm \<and> list_scan mm (Some 0) 0 = Some (Inr (array_scan array mm))
    \<and> 2 * array_scan array mm = of_nat (unat (page_count c) * (unat (page_count c) - 1))
    \<and> (\<exists>out. scan_main opts now True True rnd secs = Some (Inr (0, out)))"
proof -
  have r: "ring_of array (page_count c) mm" using shuffle_ring [OF assms(2) _ assms(3)] by simp
  then have "mset array = mset [0..<unat (page_count c)]" by (simp add: ring_of_def)
  then show ?thesis using phys_total [OF r] array_total [OF r] list_total [OF r] gauss_double assms(1,3) by (simp add: scan_main_def Let_def)
qed

theorem scan_totals_agree_witness:
  "\<exists>array mm. shuffle (\<lambda>i. of_nat (7 * i)) 4000000 [0..<4000000] (replicate 4000000 zero_page) = (array, mm) \<and> mset array = mset [0..<4000000]
     \<and> list_scan mm (Some 0) 0 = Some (Inr (array_scan array mm))"
proof -
  obtain array mm where s: "shuffle (\<lambda>i. of_nat (7 * i)) 4000000 [0..<4000000] (replicate 4000000 zero_page) = (array, mm)" by (cases "shuffle (\<lambda>i. of_nat (7 * i)) 4000000 [0..<4000000] (replicate 4000000 zero_page)") blast
  have "scan_opts [OptC 4] \<lparr>page_count = 1000 * 1000, seed = 5, verbose = 0\<rparr> = Inr \<lparr>page_count = 4000000, seed = 5, verbose = 0\<rparr>" by simp
  from scan_totals_agree [OF this, of "\<lambda>_ i. of_nat (7 * i)" array mm "\<lambda>_. []"] s show ?thesis by simp
qed

text \<open>The backward links are right for every page but the first of the array: for that one the unsigned \<open>(i - 1) % count\<close> is
  \<open>(2^64 - 1) mod count\<close>, so \<open>prev\<close> points to the last page only when the count divides \<open>2^64\<close>; for the default count
  of a million it does not.\<close>

theorem scan_prev_links:
  assumes "0 < cnt" "shuffle rnd cnt [0..<unat cnt] (replicate (unat cnt) zero_page) = (array, mm)"
  shows "(\<forall>i. 0 < i \<and> i < unat cnt \<longrightarrow> page_prev (mm ! (array ! i)) = Some (array ! (i - 1)))
    \<and> (page_prev (mm ! (array ! 0)) = Some (array ! (unat cnt - 1)) \<longleftrightarrow> unat cnt dvd 2 ^ 64)"
proof -
  have r: "ring_of array cnt mm" using shuffle_ring [OF assms(1) _ assms(2)] by simp
  note n = ring_facts(3) [OF r]
  have pv: "page_prev (mm ! (array ! i)) = Some (array ! unat ((of_nat i - 1) mod cnt))" if "i < unat cnt" for i
    using r that by (simp add: ring_of_def linked_def)
  have "unat ((of_nat i - 1) mod cnt) = i - 1" if "0 < i" "i < unat cnt" for i
  proof -
    have "i < 2 ^ 64" using that unat_lt64 [of cnt] by linarith
    then have "(of_nat i - 1 :: u64) = of_nat (i - 1)" using that by (simp add: of_nat_diff)
    then have "unat (of_nat i - 1 :: u64) = i - 1" using \<open>i < 2 ^ 64\<close> by (simp add: unat_of_nat)
    then show ?thesis using that by (simp add: unat_mod)
  qed
  moreover have "page_prev (mm ! (array ! 0)) = Some (array ! ((2 ^ 64 - 1) mod unat cnt))"
    using pv [OF n] unat_INVALID_VALUE unfolding INVALID_VALUE_def by (simp add: unat_mod)
  moreover have "array ! ((2 ^ 64 - 1) mod unat cnt) = array ! (unat cnt - 1) \<longleftrightarrow> unat cnt dvd 2 ^ 64"
  proof -
    have "(2 ^ 64 - 1) mod unat cnt = unat cnt - 1 \<longleftrightarrow> unat cnt dvd 2 ^ 64"
    proof -
      have "Suc ((2 ^ 64 - 1) mod unat cnt) = unat cnt \<longleftrightarrow> Suc (2 ^ 64 - 1) mod unat cnt = 0"
        using n mod_less_divisor [OF n, of "2 ^ 64 - 1"] by (simp only: mod_Suc split: if_splits) auto
      then show ?thesis using n by (auto simp: dvd_eq_mod_eq_0)
    qed
    then show ?thesis using ring_facts(4) [OF r, of "(2 ^ 64 - 1) mod unat cnt" "unat cnt - 1"] n by simp
  qed
  ultimately show ?thesis using pv by simp
qed

theorem scan_prev_links_witness:
  "\<exists>array mm. shuffle (\<lambda>_. 0) 3 [0..<3] (replicate 3 zero_page) = (array, mm) \<and> page_prev (mm ! (array ! 0)) \<noteq> Some (array ! 2)"
proof -
  obtain array mm where s: "shuffle (\<lambda>_. 0) 3 [0..<3] (replicate 3 zero_page) = (array, mm)" by (cases "shuffle (\<lambda>_. 0) 3 [0..<3] (replicate 3 zero_page)") blast
  then show ?thesis using scan_prev_links [of 3 "\<lambda>_. 0" array mm] by simp
qed

text \<open>With \<open>-c 0\<close> the last scan reads a page of the empty array.\<close>

lemma scan_no_pages: "scan_main [OptC 0] now True True rnd secs = Some (Inl OutOfBounds)"
  by (simp add: scan_main_def shuffle_def Let_def list_scan.simps)

end
