(* ===== verification/Fd_Server.thy ===== *)
theory Fd_Server
  imports C_Lib
begin

text \<open>
  The programs of \<open>socket/\<close>: the client sends a record and an open file over a socket, the server prints the record and the
  file. What the kernel delivers for a connection is the input of the server, which keeps count of its open descriptors.
\<close>

section \<open>Messages\<close>

definition MAX_NAME_SIZE :: nat where "MAX_NAME_SIZE = 20"
definition SOL_SOCKET :: int where "SOL_SOCKET = 1"
definition SCM_RIGHTS :: int where "SCM_RIGHTS = 1"

text \<open>The 20 bytes of the name and the number, with the size of the structure.\<close>

record custom_socket_msg =
  msg_name :: string
  msg_n :: int

definition MSG_SIZE :: int where "MSG_SIZE = 24"

text \<open>A control message: its level and type and what \<open>read\<close> delivers from the descriptor in it, \<open>None\<close> for an error.\<close>

record cmsg =
  cmsg_level :: int
  cmsg_type :: int
  file_bytes :: "string option"

record received =
  recv_size :: int
  recv_msg :: custom_socket_msg
  recv_ctrl :: "cmsg option"

record server =
  open_fds :: int
  printed :: string

definition say :: "string \<Rightarrow> server \<Rightarrow> server" where
  "say t s = s\<lparr>printed := printed s @ t\<rparr>"

definition c_str :: "string \<Rightarrow> string" where
  "c_str bs = takeWhile (\<lambda>c. c \<noteq> CHR 0x00) bs"

text \<open>\<open>%s\<close> on an array: without a null it reads on past the end.\<close>

definition fmt_array :: "string \<Rightarrow> cerr + string" where
  "fmt_array bs = (if CHR 0x00 \<in> set bs then Inr (c_str bs) else Inl OutOfBounds)"

section \<open>The server\<close>

text \<open>\<open>read\<close> delivers at most 512 bytes; the null goes after them.\<close>

definition output_file :: "string option \<Rightarrow> server \<Rightarrow> cerr + server" where
  "output_file file s = (case file of
      None \<Rightarrow> Inl (Exit 1)
    | Some bytes \<Rightarrow>
        let got = take 512 bytes in
        if length got = 512 then Inl BufferOverflow
        else Inr ((say (''OUTPUT:'' @ newline @ c_str got) s)\<lparr>open_fds := open_fds s - 1\<rparr>))"

text \<open>
  One round of the loop. The result is the status when \<open>main\<close> returns, else \<open>None\<close>. \<open>accept\<close> opens a descriptor, and a file that
  arrives with the message is another one, whether or not the server looks at it.
\<close>

definition serve_one :: "received option option \<Rightarrow> server \<Rightarrow> cerr + int option \<times> server" where
  "serve_one acc s =
     (let s = say (''Waiting for connection...'' @ newline) s in
      case acc of
        None \<Rightarrow> Inr (Some 1, s)
      | Some rcv \<Rightarrow>
          let s = say (''Server connected.'' @ newline) (s\<lparr>open_fds := open_fds s + 1\<rparr>) in
          (case rcv of
             None \<Rightarrow> Inr (Some 1, s)
           | Some m \<Rightarrow>
               let s = (if recv_ctrl m \<noteq> None then s\<lparr>open_fds := open_fds s + 1\<rparr> else s) in
               if recv_size m \<noteq> MSG_SIZE then Inr (Some 1, s)
               else
                 sbind (fmt_array (msg_name (recv_msg m))) (\<lambda>name.
                   let s = say (''CONNECT: name=['' @ name @ ''], n=['' @ fmt_d (msg_n (recv_msg m)) @ '']'' @ newline) s in
                   case recv_ctrl m of
                     None \<Rightarrow> Inr (None, say (''<no fd>'' @ newline) s)
                   | Some c \<Rightarrow>
                       if cmsg_level c \<noteq> SOL_SOCKET \<or> cmsg_type c \<noteq> SCM_RIGHTS then Inr (Some 1, s)
                       else sbind (output_file (file_bytes c) s) (\<lambda>s. Inr (None, s)))))"

text \<open>The loop over the connections that come; \<open>None\<close> at the end is a server that waits for the next one.\<close>

fun server_loop :: "received option option list \<Rightarrow> server \<Rightarrow> cerr + int option \<times> server" where
  "server_loop [] s = Inr (None, s)"
| "server_loop (a # as) s =
     sbind (serve_one a s) (\<lambda>(st, s). case st of Some c \<Rightarrow> Inr (Some c, s) | None \<Rightarrow> server_loop as s)"

definition server_main :: "bool \<Rightarrow> bool \<Rightarrow> bool \<Rightarrow> received option option list \<Rightarrow> cerr + int option \<times> server" where
  "server_main socket_ok bind_ok listen_ok conns =
     (let s = \<lparr>open_fds = 0, printed = []\<rparr> in
      if \<not> socket_ok then Inr (Some 1, s)
      else
        let s = s\<lparr>open_fds := 1\<rparr> in
        if \<not> bind_ok \<or> \<not> listen_ok then Inr (Some 1, s)
        else server_loop conns (say (''set up.'' @ newline) s))"

section \<open>The client\<close>

text \<open>\<open>strcpy\<close> into the array of a message, whose other bytes are as they were.\<close>

definition strcpy_array :: "string \<Rightarrow> string \<Rightarrow> cerr + string" where
  "strcpy_array old t = (if length t \<ge> length old then Inl BufferOverflow else Inr (t @ [CHR 0x00] @ drop (length t + 1) old))"

text \<open>What the client sends: the record with the descriptor of \<open>test.txt\<close>. \<open>garbage\<close> are the uninitialised bytes of the name.\<close>

definition client_main :: "string option \<Rightarrow> bool \<Rightarrow> bool \<Rightarrow> bool \<Rightarrow> string \<Rightarrow> cerr + int \<times> received option" where
  "client_main test_txt socket_ok connect_ok send_ok garbage = (case test_txt of
      None \<Rightarrow> Inr (1, None)
    | Some contents \<Rightarrow>
        if \<not> socket_ok \<or> \<not> connect_ok then Inr (1, None)
        else
          sbind (strcpy_array (take MAX_NAME_SIZE garbage) ''lozzy'') (\<lambda>name.
            if \<not> send_ok then Inr (1, None)
            else Inr (0, Some \<lparr>recv_size = MSG_SIZE, recv_msg = \<lparr>msg_name = name, msg_n = 100\<rparr>,
              recv_ctrl = Some \<lparr>cmsg_level = SOL_SOCKET, cmsg_type = SCM_RIGHTS, file_bytes = Some contents\<rparr>\<rparr>)))"

section \<open>Properties\<close>

lemma strcpy_then_print:
  assumes "length t < length old" "CHR 0x00 \<notin> set t"
  shows "\<exists>bs. strcpy_array old t = Inr bs \<and> fmt_array bs = Inr t"
  using assms by (auto simp: strcpy_array_def fmt_array_def c_str_def takeWhile_append2 takeWhile_append)

text \<open>C28. Client and server together: for a file of less than 512 bytes the server prints the name and the number the client stored and then the
  file up to its first null, waits for the next connection, and has one descriptor more open than before, that of the
  connection, which is never closed.\<close>

theorem client_reaches_server:
  assumes "20 \<le> length garbage" "length contents < 512"
  shows "\<exists>m. client_main (Some contents) True True True garbage = Inr (0, Some m)
    \<and> serve_one (Some (Some m)) s = Inr (None, \<lparr>open_fds = open_fds s + 1, printed = printed s @ ''Waiting for connection...'' @ newline
        @ ''Server connected.'' @ newline @ ''CONNECT: name=[lozzy], n=[100]'' @ newline @ ''OUTPUT:'' @ newline @ c_str contents\<rparr>)"
proof -
  obtain bs where b: "strcpy_array (take MAX_NAME_SIZE garbage) ''lozzy'' = Inr bs" "fmt_array bs = Inr ''lozzy''"
    using strcpy_then_print [of "''lozzy''" "take MAX_NAME_SIZE garbage"] assms(1) by (auto simp: MAX_NAME_SIZE_def)
  have d: "fmt_d 100 = ''100''" by code_simp
  show ?thesis using assms(2) b d by (cases s) (simp add: client_main_def serve_one_def output_file_def say_def SOL_SOCKET_def SCM_RIGHTS_def Let_def)
qed

theorem client_reaches_server_witness:
  "\<exists>m. client_main (Some ''hello'') True True True (replicate 20 CHR ''z'') = Inr (0, Some m)
    \<and> serve_one (Some (Some m)) \<lparr>open_fds = 1, printed = []\<rparr> = Inr (None, \<lparr>open_fds = 2, printed = ''Waiting for connection...'' @ newline
        @ ''Server connected.'' @ newline @ ''CONNECT: name=[lozzy], n=[100]'' @ newline @ ''OUTPUT:'' @ newline @ ''hello''\<rparr>)"
  using client_reaches_server [of "replicate 20 CHR ''z''" "''hello''" "\<lparr>open_fds = 1, printed = []\<rparr>"] by (simp add: c_str_def)

text \<open>A client that sends a file of 512 bytes or more makes the server write one byte past its buffer, and one that closes the
  connection early, or sends another size, makes it end.\<close>

theorem server_brought_down:
  "(512 \<le> length contents \<and> 20 \<le> length garbage \<longrightarrow> (\<exists>m. client_main (Some contents) True True True garbage = Inr (0, Some m)
      \<and> server_loop (Some (Some m) # conns) s = Inl BufferOverflow))
    \<and> (recv_size m \<noteq> MSG_SIZE \<longrightarrow> (\<exists>s'. server_loop (Some (Some m) # conns) s = Inr (Some 1, s')))"
proof (intro conjI impI)
  assume a: "512 \<le> length contents \<and> 20 \<le> length garbage"
  obtain bs where b: "strcpy_array (take MAX_NAME_SIZE garbage) ''lozzy'' = Inr bs" "fmt_array bs = Inr ''lozzy''"
    using strcpy_then_print [of "''lozzy''" "take MAX_NAME_SIZE garbage"] a by (auto simp: MAX_NAME_SIZE_def)
  then show "\<exists>m. client_main (Some contents) True True True garbage = Inr (0, Some m) \<and> server_loop (Some (Some m) # conns) s = Inl BufferOverflow"
    using a by (simp add: client_main_def serve_one_def output_file_def say_def SOL_SOCKET_def SCM_RIGHTS_def Let_def)
qed (simp add: serve_one_def Let_def)

theorem server_brought_down_witness:
  "\<exists>m. client_main (Some (replicate 600 CHR ''a'')) True True True (replicate 20 CHR ''z'') = Inr (0, Some m)
      \<and> server_loop [Some (Some m)] \<lparr>open_fds = 1, printed = []\<rparr> = Inl BufferOverflow"
  using server_brought_down [of "replicate 600 CHR ''a''" "replicate 20 CHR ''z''" "[]" "\<lparr>open_fds = 1, printed = []\<rparr>"] by simp

text \<open>The connections are never closed: after any number of rounds that did not end the server, that many descriptors are open beside the
  listening one.\<close>

lemma serve_one_fds: "serve_one a s = Inr (None, s') \<Longrightarrow> open_fds s' = open_fds s + 1"
  by (auto simp: serve_one_def output_file_def say_def Let_def sbind_eq_Inr_iff split: option.splits if_splits)

lemma server_loop_fds: "server_loop as s = Inr (None, s') \<Longrightarrow> open_fds s' = open_fds s + int (length as)"
proof (induction as arbitrary: s)
  case (Cons a as)
  then obtain s1 where "serve_one a s = Inr (None, s1)" "server_loop as s1 = Inr (None, s')"
    by (auto simp: sbind_eq_Inr_iff split: option.splits)
  then show ?case using Cons.IH serve_one_fds by fastforce
qed simp

text \<open>A server that still runs after \<open>k\<close> connections has \<open>k\<close> descriptors open beside the listening socket.\<close>

theorem server_leaks_connections:
  assumes "server_main True True True conns = Inr (None, s)"
  shows "open_fds s = 1 + int (length conns)"
  using assms server_loop_fds by (fastforce simp: server_main_def say_def)

theorem server_leaks_connections_witness:
  "\<exists>s. server_main True True True [Some (Some \<lparr>recv_size = 24, recv_msg = \<lparr>msg_name = [CHR 0x00], msg_n = 1\<rparr>, recv_ctrl = None\<rparr>)] = Inr (None, s) \<and> open_fds s = 2"
proof -
  obtain s where s: "server_main True True True [Some (Some \<lparr>recv_size = 24, recv_msg = \<lparr>msg_name = [CHR 0x00], msg_n = 1\<rparr>, recv_ctrl = None\<rparr>)] = Inr (None, s)"
    by (simp add: server_main_def serve_one_def fmt_array_def MSG_SIZE_def Let_def)
  from s server_leaks_connections [OF s] show ?thesis by simp
qed

end
