(* ===== verification/Userfaultfd.thy ===== *)
theory Userfaultfd
  imports C_Lib Bitwise
begin

text \<open>
  The handler of page faults of \<open>userfaultfd/shared.c\<close> and the thread of \<open>userfaultfd/simple.c\<close> that feeds it. The kernel is a
  parameter: where each mapping is placed and whether a copy succeeds. The state keeps the pages that
  are mapped for copies, the copies made and the text printed.
\<close>

section \<open>Events\<close>

definition UFFD_EVENT_PAGEFAULT :: nat where "UFFD_EVENT_PAGEFAULT = 0x12"
definition UFFD_EVENT_FORK :: nat where "UFFD_EVENT_FORK = 0x13"
definition UFFD_EVENT_REMAP :: nat where "UFFD_EVENT_REMAP = 0x14"
definition UFFD_EVENT_REMOVE :: nat where "UFFD_EVENT_REMOVE = 0x15"
definition UFFD_EVENT_UNMAP :: nat where "UFFD_EVENT_UNMAP = 0x16"

text \<open>The members of the message that are read; which of them are meaningful depends on the event.\<close>

record uffd_msg =
  msg_event :: nat
  fault_flags :: u64
  fault_address :: u64
  fault_ptid :: u32
  fork_ufd :: u32

definition zero_msg :: uffd_msg where
  "zero_msg = \<lparr>msg_event = 0, fault_flags = 0, fault_address = 0, fault_ptid = 0, fork_ufd = 0\<rparr>"

record uffdio_copy =
  copy_src :: u64
  copy_dst :: u64
  copy_len :: u64

record uffd_env =
  page_sz :: u64
  page_at :: "nat \<Rightarrow> u64 option"
  copy_ok :: "nat \<Rightarrow> bool"

record uffd =
  mapped_pages :: "u64 list"
  map_calls :: nat
  copies :: "uffdio_copy list"
  uffd_text :: string

definition utter :: "string \<Rightarrow> uffd \<Rightarrow> uffd" where
  "utter t s = s\<lparr>uffd_text := uffd_text s @ t\<rparr>"

definition PAGE_ALIGN :: "uffd_env \<Rightarrow> u64 \<Rightarrow> u64" where
  "PAGE_ALIGN e addr = addr AND NOT (page_sz e - 1)"

definition fmt_u :: "u32 \<Rightarrow> string" where
  "fmt_u w = to_base 10 (unat w)"

definition map_page :: "uffd_env \<Rightarrow> uffd \<Rightarrow> cerr + u64 \<times> uffd" where
  "map_page e s = (case page_at e (map_calls s) of
      None \<Rightarrow> Inl (Exit 1)
    | Some ptr \<Rightarrow> Inr (ptr, s\<lparr>mapped_pages := ptr # mapped_pages s, map_calls := map_calls s + 1\<rparr>))"

text \<open>\<open>None\<close> is a failed \<open>munmap\<close>.\<close>

definition unmap_page :: "bool \<Rightarrow> u64 \<Rightarrow> uffd \<Rightarrow> cerr + uffd" where
  "unmap_page ok ptr s = (if ok then Inr (s\<lparr>mapped_pages := remove1 ptr (mapped_pages s)\<rparr>) else Inl (Exit 1))"

definition handle_fault :: "uffd_env \<Rightarrow> u64 \<Rightarrow> uffd_msg \<Rightarrow> uffd \<Rightarrow> cerr + uffd" where
  "handle_fault e uffd m s =
     (let s = utter (''-- page fault uffd=['' @ fmt_lu uffd @ ''] --'' @ newline) s;
          s = utter (''flags='' @ fmt_lx (fault_flags m) @ '' addr='' @ fmt_lx (fault_address m) @ '' pid='' @ fmt_u (fault_ptid m) @ newline) s
      in sbind (map_page e s) (\<lambda>(ptr, s).
        let copy = \<lparr>copy_src = ptr, copy_dst = PAGE_ALIGN e (fault_address m), copy_len = page_sz e\<rparr>
        in if copy_ok e (length (copies s)) then Inr (s\<lparr>copies := copy # copies s\<rparr>) else Inl (Exit 1)))"

definition handle_fork :: "u64 \<Rightarrow> uffd_msg \<Rightarrow> uffd \<Rightarrow> u32 \<times> uffd" where
  "handle_fork uffd m s =
     (fork_ufd m, utter (''-- fork uffd=['' @ fmt_lu uffd @ ''] --'' @ newline @ ''Child uffd=['' @ fmt_u (fork_ufd m) @ '']'' @ newline) s)"

definition handle_remap :: "u64 \<Rightarrow> uffd \<Rightarrow> uffd" where
  "handle_remap uffd s = utter (''-- remap uffd=['' @ fmt_lu uffd @ ''] --'' @ newline) s"

definition handle_remove :: "u64 \<Rightarrow> uffd \<Rightarrow> uffd" where
  "handle_remove uffd s = utter (''-- remove uffd=['' @ fmt_lu uffd @ ''] --'' @ newline) s"

definition handle_unmap :: "u64 \<Rightarrow> uffd \<Rightarrow> uffd" where
  "handle_unmap uffd s = utter (''-- unmap uffd=['' @ fmt_lx uffd @ ''] --'' @ newline) s"

definition handle_event :: "uffd_env \<Rightarrow> u64 \<Rightarrow> uffd_msg option \<Rightarrow> uffd \<Rightarrow> cerr + u32 \<times> uffd" where
  "handle_event e uffd msg s = (case msg of
      None \<Rightarrow> Inr (0, s)
    | Some m \<Rightarrow>
        if msg_event m = UFFD_EVENT_PAGEFAULT then sbind (handle_fault e uffd m s) (\<lambda>s. Inr (0, s))
        else if msg_event m = UFFD_EVENT_FORK then Inr (handle_fork uffd m s)
        else if msg_event m = UFFD_EVENT_REMAP then Inr (0, handle_remap uffd s)
        else if msg_event m = UFFD_EVENT_REMOVE then Inr (0, handle_remove uffd s)
        else if msg_event m = UFFD_EVENT_UNMAP then Inr (0, handle_unmap uffd s)
        else Inl (Exit 1))"

text \<open>The range that is registered: its start and its length. The product of the number of pages and the page size is computed in \<open>int\<close>; past its range the
  behaviour is undefined, here an error.\<close>

definition register_page_range :: "uffd_env \<Rightarrow> u64 \<Rightarrow> int \<Rightarrow> cerr + u64 \<times> u64" where
  "register_page_range e ptr num_pages =
     (let len = num_pages * uint (page_sz e)
      in if len < - (2 ^ 31) \<or> 2 ^ 31 \<le> len then Inl OutOfBounds else Inr (PAGE_ALIGN e ptr, word_of_int len))"

text \<open>
  The thread. An input is the result of \<open>poll\<close>, of \<open>read\<close> and the message; a \<open>read\<close> that fails leaves the message zero and
  is not tested for. With no more inputs the thread waits.
\<close>

datatype uffd_read = PollFails | ReadEnd | ReadFails | ReadMsg uffd_msg

fun listener_thread :: "uffd_env \<Rightarrow> u64 \<Rightarrow> uffd_read list \<Rightarrow> uffd \<Rightarrow> cerr + uffd" where
  "listener_thread e uffd [] s = Inr (utter (''poll'' @ newline) s)"
| "listener_thread e uffd (r # rs) s =
     (let s = utter (''poll'' @ newline) s in
      case r of
        PollFails \<Rightarrow> Inl (Exit 1)
      | ReadEnd \<Rightarrow> Inl (Exit 1)
      | ReadFails \<Rightarrow> sbind (handle_event e uffd (Some zero_msg) s) (\<lambda>(_, s). listener_thread e uffd rs s)
      | ReadMsg m \<Rightarrow> sbind (handle_event e uffd (Some m) s) (\<lambda>(_, s). listener_thread e uffd rs s))"

section \<open>Properties\<close>

lemma PAGE_ALIGN_spec:
  assumes "page_sz e = 2 ^ k" "k < 64"
  shows "2 ^ k dvd unat (PAGE_ALIGN e a)" "unat (PAGE_ALIGN e a) \<le> unat a" "unat a < unat (PAGE_ALIGN e a) + 2 ^ k"
proof -
  have "PAGE_ALIGN e a = a AND NOT (mask k)" using assms(1) by (simp add: PAGE_ALIGN_def mask_eq_exp_minus_1)
  then have al: "PAGE_ALIGN e a = a - take_bit k a" using sub_and [of a "mask k"] by (simp add: take_bit_eq_mask)
  have "take_bit k a \<le> a" by (simp add: word_le_nat_alt unsigned_take_bit_eq)
  then have u: "unat (PAGE_ALIGN e a) = unat a - unat (take_bit k a)" unfolding al by (rule unat_sub)
  then show "unat (PAGE_ALIGN e a) \<le> unat a" by simp
  have t: "unat (take_bit k a) = unat a mod 2 ^ k" by (simp only: unsigned_take_bit_eq) (simp add: take_bit_eq_mod)
  then show "2 ^ k dvd unat (PAGE_ALIGN e a)" using u by (simp add: dvd_minus_mod)
  have "unat a mod 2 ^ k < 2 ^ k" "unat a mod 2 ^ k \<le> unat a" by simp_all
  then show "unat a < unat (PAGE_ALIGN e a) + 2 ^ k" unfolding u t by linarith
qed

definition uffd_start :: uffd where
  "uffd_start = \<lparr>mapped_pages = [], map_calls = 0, copies = [], uffd_text = []\<rparr>"

definition uffd_kernel :: uffd_env where
  "uffd_kernel = \<lparr>page_sz = 4096, page_at = \<lambda>i. Some (of_nat (4096 * (i + 1))), copy_ok = \<lambda>_. True\<rparr>"

definition fault_at :: "u64 \<Rightarrow> uffd_msg" where
  "fault_at a = \<lparr>msg_event = UFFD_EVENT_PAGEFAULT, fault_flags = 0, fault_address = a, fault_ptid = 0, fork_ufd = 0\<rparr>"

text \<open>A page fault is resolved with the page it happened in: the copy goes to a page boundary, covers the faulting address, is one page long and
  comes from a page mapped for it.\<close>

theorem fault_copies_page:
  assumes "page_sz e = 2 ^ k" "k < 64" "msg_event m = UFFD_EVENT_PAGEFAULT" "page_at e (map_calls s) = Some ptr" "copy_ok e (length (copies s))"
  shows "\<exists>s' c. handle_event e uffd (Some m) s = Inr (0, s') \<and> copies s' = c # copies s \<and> copy_src c = ptr \<and> copy_len c = 2 ^ k
    \<and> 2 ^ k dvd unat (copy_dst c) \<and> unat (copy_dst c) \<le> unat (fault_address m) \<and> unat (fault_address m) < unat (copy_dst c) + 2 ^ k"
  using assms(3-5) assms(1) PAGE_ALIGN_spec [OF assms(1,2), of "fault_address m"]
  by (simp add: handle_event_def handle_fault_def map_page_def utter_def Let_def)

theorem fault_copies_page_witness:
  "\<exists>s' c. handle_event uffd_kernel 3 (Some (fault_at 0x12345)) uffd_start = Inr (0, s') \<and> copies s' = c # copies uffd_start \<and> copy_src c = 4096 \<and> copy_len c = 2 ^ 12
    \<and> 2 ^ 12 dvd unat (copy_dst c) \<and> unat (copy_dst c) \<le> unat (0x12345 :: u64) \<and> unat (0x12345 :: u64) < unat (copy_dst c) + 2 ^ 12"
  using fault_copies_page [of uffd_kernel 12 "fault_at 0x12345" uffd_start 4096 3] by (simp add: uffd_kernel_def fault_at_def uffd_start_def)

text \<open>The pages that are mapped for copies are never unmapped.\<close>

definition is_fault :: "uffd_read \<Rightarrow> bool" where
  "is_fault r = (case r of ReadMsg m \<Rightarrow> msg_event m = UFFD_EVENT_PAGEFAULT | _ \<Rightarrow> False)"

lemma handle_event_pages:
  "handle_event e uffd (Some m) s = Inr (x, s') \<Longrightarrow> length (mapped_pages s') = length (mapped_pages s) + (if msg_event m = UFFD_EVENT_PAGEFAULT then 1 else 0)"
  by (auto simp: handle_event_def handle_fault_def map_page_def handle_fork_def handle_remap_def handle_remove_def handle_unmap_def utter_def Let_def sbind_eq_Inr_iff
      split: if_splits option.splits)

lemma zero_msg_exits: "handle_event e uffd (Some zero_msg) s = Inl (Exit 1)"
  by (simp add: handle_event_def zero_msg_def UFFD_EVENT_PAGEFAULT_def UFFD_EVENT_FORK_def UFFD_EVENT_REMAP_def UFFD_EVENT_REMOVE_def UFFD_EVENT_UNMAP_def)

text \<open>A thread that is still waiting after some events has seen no failed \<open>read\<close>, as this ends the process with an unrecognised event, and has one more page
  mapped for every fault among them, none of which is ever unmapped.\<close>

theorem listener_leaks_pages:
  assumes "listener_thread e uffd rs s = Inr s'"
  shows "ReadFails \<notin> set rs \<and> length (mapped_pages s') = length (mapped_pages s) + length (filter is_fault rs)"
  using assms
proof (induction rs arbitrary: s)
  case (Cons r rs)
  show ?case
  proof (cases r)
    case (ReadMsg m)
    then obtain x s1 where "handle_event e uffd (Some m) (utter (''poll'' @ newline) s) = Inr (x, s1)" "listener_thread e uffd rs s1 = Inr s'"
      using Cons.prems by (auto simp: Let_def sbind_eq_Inr_iff)
    then show ?thesis using Cons.IH [of s1] handle_event_pages [of e uffd m] ReadMsg by (auto simp: is_fault_def utter_def)
  qed (use Cons.prems zero_msg_exits in \<open>auto simp: Let_def\<close>)
qed (auto simp: utter_def)

theorem listener_leaks_pages_witness:
  "\<exists>s'. listener_thread uffd_kernel 3 [ReadMsg (fault_at 0x5000), ReadMsg (fault_at 0x6000)] uffd_start = Inr s' \<and> length (mapped_pages s') = 2"
proof -
  obtain s' where s: "listener_thread uffd_kernel 3 [ReadMsg (fault_at 0x5000), ReadMsg (fault_at 0x6000)] uffd_start = Inr s'"
    by (simp add: handle_event_def handle_fault_def map_page_def utter_def Let_def fault_at_def uffd_kernel_def uffd_start_def)
  from s listener_leaks_pages [OF s] show ?thesis by (simp add: is_fault_def fault_at_def uffd_start_def)
qed

end
