(* ===== verification/Uffd_Prog.thy ===== *)
theory Uffd_Prog
  imports Userfaultfd Vm_Prog
begin

text \<open>
  The programs of \<open>userfaultfd/\<close>: setting up the descriptor and the range, and the main functions of \<open>simple.c\<close>, \<open>server.c\<close> and
  \<open>client.c\<close>. The first store into the registered range is resolved by the thread of theory \<open>Userfaultfd\<close>.
\<close>

section \<open>Setting up\<close>

definition UFFD_API :: u64 where "UFFD_API = 0xAA"
definition UFFD_FEATURE_EVENT_FORK :: u64 where "UFFD_FEATURE_EVENT_FORK = push_bit 1 1"
definition UFFD_FEATURE_EVENT_REMAP :: u64 where "UFFD_FEATURE_EVENT_REMAP = push_bit 2 1"
definition UFFD_FEATURE_EVENT_REMOVE :: u64 where "UFFD_FEATURE_EVENT_REMOVE = push_bit 3 1"
definition UFFD_FEATURE_THREAD_ID :: u64 where "UFFD_FEATURE_THREAD_ID = push_bit 8 1"
definition UFFDIO_REGISTER_MODE_MISSING :: u64 where "UFFDIO_REGISTER_MODE_MISSING = push_bit 0 1"
definition UFFDIO_REGISTER_MODE_WP :: u64 where "UFFDIO_REGISTER_MODE_WP = push_bit 1 1"

definition REQUIRED_FEATURES :: u64 where
  "REQUIRED_FEATURES = UFFD_FEATURE_THREAD_ID OR UFFD_FEATURE_EVENT_FORK OR UFFD_FEATURE_EVENT_REMAP OR UFFD_FEATURE_EVENT_REMOVE"

text \<open>The requests a program makes of the descriptor.\<close>

datatype uffd_request = ApiRequest u64 u64 | RegisterRequest u64 u64 u64

text \<open>The kernel: the descriptor of a new \<open>userfaultfd\<close>, which requests it grants, whether a thread can be made, where the range is mapped, whether it
  can be protected, the result of \<open>fork\<close>.\<close>

record uffd_os =
  uk_env :: uffd_env
  new_uffd :: "bool \<Rightarrow> u64 option"
  grants :: "uffd_request \<Rightarrow> bool"
  thread_ok :: bool
  range_at :: "u64 option"
  protect_ok :: bool
  fork_result :: "int option"

definition make_handler :: "uffd_os \<Rightarrow> bool \<Rightarrow> cerr + u64" where
  "make_handler U block = (case new_uffd U block of
      None \<Rightarrow> Inl (Exit 1)
    | Some uffd \<Rightarrow> if \<not> grants U (ApiRequest UFFD_API REQUIRED_FEATURES) then Inl (Exit 1) else Inr uffd)"

definition register_range :: "uffd_os \<Rightarrow> u64 \<Rightarrow> u64 \<Rightarrow> cerr + uffd_request" where
  "register_range U ptr len =
     (let reg = RegisterRequest ptr len (UFFDIO_REGISTER_MODE_MISSING OR UFFDIO_REGISTER_MODE_WP)
      in if \<not> grants U reg then Inl (Exit 1) else Inr reg)"

definition uffd_client_main :: "cerr + int" where
  "uffd_client_main = Inr 0"

definition uffd_server_main :: "uffd_os \<Rightarrow> cerr + int" where
  "uffd_server_main U = sbind (make_handler U False) (\<lambda>uffd. Inr 0)"

section \<open>The program \<open>simple.c\<close>\<close>

text \<open>The last of the three pages: whether it can be written and whether it is there. A store to a page that is missing waits for the thread, which is
  told of the fault and copies a page to the place; when the thread ends the process, the store does not happen.\<close>

record page_state =
  pg_writable :: bool
  pg_present :: bool

definition store_page :: "uffd_env \<Rightarrow> u64 \<Rightarrow> u64 \<Rightarrow> u32 \<Rightarrow> page_state \<times> uffd \<Rightarrow> (page_state \<times> uffd) outcome" where
  "store_page e uffd addr tid = (\<lambda>(pg, s).
     if \<not> pg_writable pg then Killed
     else if pg_present pg then Done (pg, s)
     else (case listener_thread e uffd [ReadMsg \<lparr>msg_event = UFFD_EVENT_PAGEFAULT, fault_flags = 1, fault_address = addr, fault_ptid = tid, fork_ufd = 0\<rparr>] s of
         Inl (Exit c) \<Rightarrow> Exited c
       | Inl _ \<Rightarrow> Killed
       | Inr s' \<Rightarrow> Done (pg\<lparr>pg_present := list_ex (\<lambda>c. copy_dst c = PAGE_ALIGN e addr) (copies s')\<rparr>, s')))"

text \<open>The child prints and exits; the parent waits for it and then for the thread, which does not end. \<open>Done None\<close> is a process that waits for ever.\<close>

definition after_fork :: "uffd_os \<Rightarrow> int \<Rightarrow> uffd \<Rightarrow> (int option \<times> uffd) outcome" where
  "after_fork U parent_pid s =
     (let s = utter (''fork from pid='' @ fmt_d parent_pid @ newline) s in
      case fork_result U of
        None \<Rightarrow> Exited 1
      | Some pid \<Rightarrow> if pid = 0 then Done (Some 0, utter (''hi from child'' @ newline) s)
          else Done (None, utter (''child pid='' @ fmt_d pid @ newline) s))"

definition simple_main :: "uffd_os \<Rightarrow> u32 \<Rightarrow> int \<Rightarrow> uffd \<Rightarrow> (int option \<times> uffd) outcome" where
  "simple_main U tid parent_pid s = (case make_handler U False of
      Inl _ \<Rightarrow> Exited 1
    | Inr uffd \<Rightarrow>
        if \<not> thread_ok U then Exited 1
        else (case range_at U of None \<Rightarrow> Exited 1
        | Some ptr \<Rightarrow> (case sbind (register_page_range (uk_env U) ptr 3) (\<lambda>(a, n). register_range U a n) of
            Inl _ \<Rightarrow> Exited 1
          | Inr _ \<Rightarrow> (case store_page (uk_env U) uffd (ptr + 2 * 4096) tid (\<lparr>pg_writable = True, pg_present = False\<rparr>, s) of
              Exited c \<Rightarrow> Exited c
            | Killed \<Rightarrow> Killed
            | Done (pg, s) \<Rightarrow>
                if \<not> protect_ok U then Exited 1
                else (case store_page (uk_env U) uffd (ptr + 2 * 4096) tid (pg\<lparr>pg_writable := False\<rparr>, s) of
                    Exited c \<Rightarrow> Exited c
                  | Killed \<Rightarrow> Killed
                  | Done (pg, s) \<Rightarrow> after_fork U parent_pid s)))))"

section \<open>What becomes of \<open>simple.c\<close>\<close>

definition touch :: "u64 \<Rightarrow> u32 \<Rightarrow> uffd_msg" where
  "touch addr tid = \<lparr>msg_event = UFFD_EVENT_PAGEFAULT, fault_flags = 1, fault_address = addr, fault_ptid = tid, fork_ufd = 0\<rparr>"

lemma handle_event_touch:
  "handle_event e fd (Some (touch addr tid)) s = Inl x \<Longrightarrow> x = Exit 1"
  "handle_event e fd (Some (touch addr tid)) s = Inr (y, s') \<Longrightarrow> \<exists>c. copies s' = c # copies s \<and> copy_dst c = PAGE_ALIGN e addr"
  by (auto simp: handle_event_def handle_fault_def map_page_def touch_def utter_def Let_def sbind_def split: option.splits if_splits)

lemma touch_resolved:
  assumes "page_at e (map_calls s) \<noteq> None" "copy_ok e (length (copies s))"
  shows "\<exists>y s'. handle_event e fd (Some (touch addr tid)) s = Inr (y, s')"
  using assms by (auto simp: handle_event_def handle_fault_def map_page_def touch_def utter_def Let_def)

lemma store_missing_page:
  "store_page e fd addr tid (\<lparr>pg_writable = True, pg_present = False\<rparr>, s)
     = (case handle_event e fd (Some (touch addr tid)) (utter (''poll'' @ newline) s) of
          Inl _ \<Rightarrow> Exited 1
        | Inr (_, s') \<Rightarrow> Done (\<lparr>pg_writable = True, pg_present = True\<rparr>, utter (''poll'' @ newline) s'))"
proof (cases "handle_event e fd (Some (touch addr tid)) (utter (''poll'' @ newline) s)")
  case (Inl x)
  then show ?thesis using handle_event_touch(1) [OF Inl] by (simp add: store_page_def touch_def [symmetric] Let_def)
next
  case (Inr r)
  obtain y s' where r: "r = (y, s')" by (cases r)
  show ?thesis using handle_event_touch(2) [OF Inr [unfolded r]] Inr r
    by (auto simp: store_page_def touch_def [symmetric] Let_def utter_def)
qed

lemma store_protected_page: "store_page e fd addr tid (\<lparr>pg_writable = False, pg_present = b\<rparr>, s) = Killed"
  by (simp add: store_page_def)

lemmas simple_defs = simple_main_def store_missing_page store_protected_page make_handler_def register_page_range_def register_range_def Let_def

lemma simple_ends:
  assumes "page_sz (uk_env U) = 4096"
  shows "simple_main U tid parent_pid s = Exited 1 \<or> simple_main U tid parent_pid s = Killed"
  by (simp add: simple_defs assms split: option.split sum.split)

lemma simple_killed:
  assumes "page_sz (uk_env U) = 4096" "new_uffd U False \<noteq> None" "\<forall>r. grants U r" "thread_ok U" "range_at U \<noteq> None" "protect_ok U"
    "page_at (uk_env U) (map_calls s) \<noteq> None" "copy_ok (uk_env U) (length (copies s))"
  shows "simple_main U tid parent_pid s = Killed"
proof -
  have "\<exists>y s'. handle_event (uk_env U) fd (Some (touch a tid)) (utter (''poll'' @ newline) s) = Inr (y, s')" for fd a
    using touch_resolved [of "uk_env U" "utter (''poll'' @ newline) s"] assms(7,8) by (simp add: utter_def)
  then show ?thesis using assms by (auto simp: simple_defs split: option.split sum.split) (metis sum.distinct(1))
qed

text \<open>No run of \<open>simple.c\<close> comes to its \<open>fork\<close>: it ends with status 1 when a call fails, and when all succeed it is killed by the second store,
  which goes to the page that has just been made inaccessible.\<close>

theorem simple_never_forks:
  assumes "page_sz (uk_env U) = 4096"
  shows "simple_main U tid parent_pid s \<in> {Exited 1, Killed}
    \<and> (new_uffd U False \<noteq> None \<and> (\<forall>r. grants U r) \<and> thread_ok U \<and> range_at U \<noteq> None \<and> protect_ok U
       \<and> page_at (uk_env U) (map_calls s) \<noteq> None \<and> copy_ok (uk_env U) (length (copies s)) \<longrightarrow> simple_main U tid parent_pid s = Killed)"
  using simple_ends [OF assms] simple_killed [OF assms] by auto

definition obliging :: uffd_os where
  "obliging = \<lparr>uk_env = uffd_kernel, new_uffd = \<lambda>_. Some 3, grants = \<lambda>_. True, thread_ok = True, range_at = Some 0x7f0000000000,
     protect_ok = True, fork_result = Some 7\<rparr>"

theorem simple_never_forks_witness: "simple_main obliging 7 7 uffd_start = Killed"
  using simple_never_forks [of obliging 7 7 uffd_start] by (simp add: obliging_def uffd_kernel_def uffd_start_def)

end
