(* ===== verification/Pagemap_Tour.thy ===== *)
theory Pagemap_Tour
  imports Read_Pageflags
begin

text \<open>
  The program \<open>random/pagemap_tour.c\<close>, which prints what the kernel says of a page before and after it is used. The
  \<open>/proc\<close> files are those of \<open>Pagestat\<close>; \<open>n\<close> counts the open descriptors.
\<close>

section \<open>The program\<close>

definition TOUR_SOFTDIRTY :: u64 where "TOUR_SOFTDIRTY = push_bit 55 1"
definition TOUR_EXCLUSIVE :: u64 where "TOUR_EXCLUSIVE = push_bit 56 1"
definition TOUR_FILE :: u64 where "TOUR_FILE = push_bit 61 1"
definition TOUR_SWAPPED :: u64 where "TOUR_SWAPPED = push_bit 62 1"
definition TOUR_PRESENT :: u64 where "TOUR_PRESENT = push_bit 63 1"
definition TOUR_SWAP_OFFSET_SHIFT :: nat where "TOUR_SWAP_OFFSET_SHIFT = 5"
definition TOUR_SWAP_TYPE_MASK :: u64 where "TOUR_SWAP_TYPE_MASK = push_bit 5 1 - 1"
definition TOUR_PFN_MASK :: u64 where "TOUR_PFN_MASK = push_bit 55 1 - 1"

text \<open>A failed call ends the program with status 1. The descriptor is not closed.\<close>

definition tour_read_u64 :: "procfs \<Rightarrow> string \<Rightarrow> u64 \<Rightarrow> nat \<Rightarrow> cerr + u64 \<times> nat" where
  "tour_read_u64 env path off n = (case u64_file env path of
      None \<Rightarrow> Inl (Exit 1)
    | Some contents \<Rightarrow>
        if sint off < 0 then Inl (Exit 1)
        else (case contents off 1 of [w] \<Rightarrow> Inr (w, n + 1) | _ \<Rightarrow> Inl (Exit 1)))"

definition tour_read_pagemap :: "procfs \<Rightarrow> u64 \<Rightarrow> nat \<Rightarrow> cerr + u64 \<times> nat" where
  "tour_read_pagemap env ptr n =
     (let virt_page_num = ptr div page_size env; off = virt_page_num * 8
      in tour_read_u64 env ''/proc/self/pagemap'' off n)"

definition tour_read_kpageflags :: "procfs \<Rightarrow> u64 \<Rightarrow> nat \<Rightarrow> cerr + u64 \<times> nat" where
  "tour_read_kpageflags env pfn n = tour_read_u64 env ''/proc/kpageflags'' (pfn * 8) n"

definition tour_read_mapcount :: "procfs \<Rightarrow> u64 \<Rightarrow> nat \<Rightarrow> cerr + u64 \<times> nat" where
  "tour_read_mapcount env pfn n = tour_read_u64 env ''/proc/kpagecount'' (pfn * 8) n"

definition describe_swapped :: "u64 \<Rightarrow> string" where
  "describe_swapped pagemap =
     (let type = pagemap AND TOUR_SWAP_TYPE_MASK;
          off = drop_bit TOUR_SWAP_OFFSET_SHIFT (pagemap AND TOUR_PFN_MASK)
      in ''swapped: type='' @ fmt_lu type @ '', offset='' @ fmt_lu off @ newline)"

definition tour_flags :: "string list" where
  "tour_flags = [''ACTIVE'', ''DIRTY'', ''LOCKED'', ''LRU'', ''MMAP'', ''NOPAGE'', ''REFERENCED'', ''SWAPBACKED'', ''UPTODATE'', ''WRITEBACK'']"

definition describe_kpageflags :: "kpf \<Rightarrow> procfs \<Rightarrow> u64 \<Rightarrow> nat \<Rightarrow> cerr + string \<times> nat" where
  "describe_kpageflags kpf env pfn n =
     sbind (tour_read_kpageflags env pfn n) (\<lambda>(kpageflags, n).
       Inr (concat (map (\<lambda>f. if kpageflags AND push_bit (kpf f) 1 \<noteq> 0 then '' ['' @ f @ '']'' else []) tour_flags), n))"

definition describe_addr :: "kpf \<Rightarrow> procfs \<Rightarrow> u64 \<Rightarrow> nat \<Rightarrow> cerr + string \<times> nat" where
  "describe_addr kpf env ptr n =
     sbind (tour_read_pagemap env ptr n) (\<lambda>(pagemap, n).
       if pagemap AND TOUR_PRESENT = 0 then
         (if pagemap AND TOUR_SWAPPED \<noteq> 0 then Inr (fmt_p ptr @ '': '' @ describe_swapped pagemap, n)
          else Inr (fmt_p ptr @ '': '' @ ''<not present>'' @ newline, n))
       else
         let pfn = pagemap AND TOUR_PFN_MASK in
         sbind (tour_read_mapcount env pfn n) (\<lambda>(mapcount, n).
           sbind (describe_kpageflags kpf env pfn n) (\<lambda>(flags, n).
             Inr (fmt_p ptr @ '': '' @ (if pagemap AND TOUR_FILE \<noteq> 0 then ''file'' else ''anon'') @ '': pfn='' @ fmt_lu pfn
               @ (if pagemap AND TOUR_SOFTDIRTY \<noteq> 0 then '' [SD]'' else [])
               @ (if pagemap AND TOUR_EXCLUSIVE \<noteq> 0 then '' [EX]'' else [])
               @ '' mapped='' @ fmt_lu mapcount @ flags @ newline, n))))"

text \<open>\<open>env i\<close> is the state of the files when an address is described for the i-th time; the two mappings and the file may fail. The
  descriptor of the file is closed.\<close>

definition tour_main :: "kpf \<Rightarrow> (nat \<Rightarrow> procfs) \<Rightarrow> u64 option \<Rightarrow> bool \<Rightarrow> u64 option \<Rightarrow> string \<Rightarrow> cerr + int \<times> string \<times> nat" where
  "tour_main kpf env anon_at file_ok file_at contents = (case anon_at of
      None \<Rightarrow> Inr (1, [], 0)
    | Some ptr \<Rightarrow>
        sbind (describe_addr kpf (env 0) ptr 0) (\<lambda>(t0, n).
        sbind (describe_addr kpf (env 1) ptr n) (\<lambda>(t1, n).
          if \<not> file_ok then Inr (1, t0 @ t1, n)
          else (case file_at of
              None \<Rightarrow> Inr (1, t0 @ t1, n + 1)
            | Some ptr \<Rightarrow>
                sbind (describe_addr kpf (env 2) ptr n) (\<lambda>(t2, n).
                sbind (describe_addr kpf (env 3) ptr n) (\<lambda>(t3, n).
                sbind (describe_addr kpf (env 4) ptr n) (\<lambda>(t4, n).
                  Inr (0, t0 @ t1 @ t2 @ ''test contents: '' @ contents @ t3 @ t4, n))))))))"

section \<open>Facts on masks\<close>

lemma tour_bits:
  "w AND TOUR_PRESENT \<noteq> 0 \<longleftrightarrow> bit w 63" "w AND TOUR_SWAPPED \<noteq> 0 \<longleftrightarrow> bit w 62" "w AND TOUR_FILE \<noteq> 0 \<longleftrightarrow> bit w 61"
  "w AND TOUR_EXCLUSIVE \<noteq> 0 \<longleftrightarrow> bit w 56" "w AND TOUR_SOFTDIRTY \<noteq> 0 \<longleftrightarrow> bit w 55"
  unfolding TOUR_PRESENT_def TOUR_SWAPPED_def TOUR_FILE_def TOUR_EXCLUSIVE_def TOUR_SOFTDIRTY_def by (rule and_single, simp)+

lemma tour_masks: "TOUR_PFN_MASK = mask 55" "TOUR_SWAP_TYPE_MASK = mask 5"
  by (simp_all add: TOUR_PFN_MASK_def TOUR_SWAP_TYPE_MASK_def mask_eq_exp_minus_1 push_bit_eq_mult)

lemma tour_read_entry:
  "tour_read_u64 env path (i * 8) n = (case u64_entries env path i 1 of None \<Rightarrow> Inl (Exit 1) | Some ws \<Rightarrow> Inr (hd ws, n + 1))"
  by (auto simp: tour_read_u64_def u64_entries_def length_Suc_conv split: option.splits list.splits)

section \<open>Properties\<close>

text \<open>A page that was swapped out is described by the type and the offset it was swapped to: the five low bits and the fifty above them, as the
  kernel packs them.\<close>

theorem swap_entry_described:
  assumes "t < 2 ^ 5" "off < 2 ^ 50"
  shows "describe_swapped (push_bit 62 1 OR push_bit 5 off OR t) = ''swapped: type='' @ fmt_lu t @ '', offset='' @ fmt_lu off @ newline"
proof -
  have t: "\<not> bit t j" if "5 \<le> j" for j
    using assms(1) that less_mask_eq [of t 5] by (auto simp: take_bit_eq_mask [symmetric] bit_take_bit_iff dest: arg_cong [where f = "\<lambda>w. bit w j"])
  have o: "\<not> bit off j" if "50 \<le> j" for j
    using assms(2) that less_mask_eq [of off 50] by (auto simp: take_bit_eq_mask [symmetric] bit_take_bit_iff dest: arg_cong [where f = "\<lambda>w. bit w j"])
  define h :: u64 where "h = push_bit 62 1"
  have h: "bit h j \<longleftrightarrow> j = 62" for j unfolding h_def by (simp only: bit_push_bit_iff bit_1_iff) auto
  have "(h OR push_bit 5 off OR t) AND mask 5 = t"
    by (rule bit_eqI) (use t in \<open>auto simp: bit_simps h not_le [symmetric]\<close>)
  moreover have "drop_bit 5 ((h OR push_bit 5 off OR t) AND mask 55) = off"
    by (rule bit_eqI) (use t o in \<open>auto simp: bit_simps h not_le [symmetric]\<close>)
  ultimately show ?thesis by (simp only: describe_swapped_def TOUR_SWAP_OFFSET_SHIFT_def tour_masks h_def Let_def)
qed

theorem swap_entry_described_witness:
  "describe_swapped (push_bit 62 1 OR push_bit 5 123456 OR 3) = ''swapped: type='' @ fmt_lu 3 @ '', offset='' @ fmt_lu 123456 @ newline"
  by (rule swap_entry_described) simp_all

text \<open>What is printed of an address, by what its page map entry says.\<close>

lemma describe_addr_cases:
  assumes "u64_entries env ''/proc/self/pagemap'' (ptr div page_size env) 1 = Some [w]"
  shows "\<not> bit w 63 \<Longrightarrow> bit w 62 \<Longrightarrow> describe_addr kpf env ptr n = Inr (fmt_p ptr @ '': '' @ describe_swapped w, n + 1)"
    "\<not> bit w 63 \<Longrightarrow> \<not> bit w 62 \<Longrightarrow> describe_addr kpf env ptr n = Inr (fmt_p ptr @ '': '' @ ''<not present>'' @ newline, n + 1)"
    "bit w 63 \<Longrightarrow> u64_entries env ''/proc/kpagecount'' (w AND mask 55) 1 = Some [c] \<Longrightarrow> u64_entries env ''/proc/kpageflags'' (w AND mask 55) 1 = Some [fl]
      \<Longrightarrow> \<exists>t. describe_addr kpf env ptr n = Inr (fmt_p ptr @ '': '' @ (if bit w 61 then ''file'' else ''anon'') @ '': pfn='' @ fmt_lu (w AND mask 55) @ t, n + 3)"
  using assms tour_bits [of w]
  by (simp_all add: describe_addr_def tour_read_pagemap_def tour_read_mapcount_def describe_kpageflags_def tour_read_kpageflags_def tour_read_entry
      tour_masks Let_def)

lemma describe_addr_opens: "describe_addr kpf env ptr n = Inr (t, n') \<Longrightarrow> n < n'"
  by (auto simp: describe_addr_def tour_read_pagemap_def tour_read_mapcount_def describe_kpageflags_def tour_read_kpageflags_def tour_read_u64_def Let_def
      split: option.splits list.splits if_splits)

text \<open>The program describes a page exactly as \<open>read-pageflags\<close> reads its entry: it prints a frame number only when \<open>extract_pfn\<close> finds one, and
  then that number. For an entry with the bits for present and for swapped both set, which the kernel does not make, the tools
  would differ.\<close>

theorem tour_prints_pfn:
  assumes "u64_entries env ''/proc/self/pagemap'' (ptr div page_size env) 1 = Some [w]" "\<not> (bit w 63 \<and> bit w 62)"
    "u64_entries env ''/proc/kpagecount'' (w AND mask 55) 1 = Some [c]" "u64_entries env ''/proc/kpageflags'' (w AND mask 55) 1 = Some [fl]"
  shows "if extract_pfn w = INVALID_VALUE
    then (\<exists>t n'. describe_addr kpf env ptr n = Inr (fmt_p ptr @ '': '' @ t, n') \<and> (t = describe_swapped w \<or> t = ''<not present>'' @ newline))
    else (\<exists>t n'. describe_addr kpf env ptr n = Inr (fmt_p ptr @ '': '' @ (if bit w 61 then ''file'' else ''anon'') @ '': pfn='' @ fmt_lu (extract_pfn w) @ t, n'))"
proof -
  have e: "extract_pfn w = (if bit w 63 then w AND mask 55 else INVALID_VALUE)"
  proof -
    have "w \<noteq> INVALID_VALUE" using assms(2) by auto
    moreover have "CHECK_BIT w 62 \<longleftrightarrow> bit w 62" "CHECK_BIT w 63 \<longleftrightarrow> bit w 63" by (simp_all add: CHECK_BIT_bit)
    moreover have "PAGEMAP_PFN_MASK = mask 55" by (rule PFN_MASK_mask)
    ultimately show ?thesis using assms(2) by (auto simp: extract_pfn_def PAGEMAP_SWAPPED_BIT_def PAGEMAP_PRESENT_BIT_def)
  qed
  have "w AND mask 55 \<noteq> INVALID_VALUE"
  proof
    assume "w AND mask 55 = INVALID_VALUE"
    from arg_cong [OF this, of "\<lambda>v. bit v 60"] show False by (simp add: bit_simps)
  qed
  then have n: "extract_pfn w = INVALID_VALUE \<longleftrightarrow> \<not> bit w 63" using e by auto
  show ?thesis
  proof (cases "bit w 63")
    case True
    then have "extract_pfn w = w AND mask 55" using e by simp
    then show ?thesis using describe_addr_cases(3) [OF assms(1) True assms(3,4), of kpf n] n True by (simp only: simp_thms if_False) blast
  next
    case False
    then show ?thesis using describe_addr_cases(1,2) [OF assms(1) False] n by (cases "bit w 62") simp_all
  qed
qed

definition tour_env :: "u64 \<Rightarrow> procfs" where
  "tour_env w = \<lparr>text_file = \<lambda>_. None, u64_file = \<lambda>_. Some (\<lambda>_ _. [w]), page_size = 4096\<rparr>"

lemma tour_env_entries: "u64_entries (tour_env w) path 7 1 = Some [w]" "u64_entries (tour_env w) path 0 1 = Some [w]"
  "u64_entries (tour_env w) path 5 1 = Some [w]"
  by (simp_all add: u64_entries_def tour_env_def)

theorem tour_prints_pfn_witness:
  "\<exists>t n'. describe_addr (\<lambda>_. 3) (tour_env (push_bit 63 1 OR 5)) 0x7000 0 = Inr (fmt_p 0x7000 @ '': '' @ ''anon'' @ '': pfn='' @ fmt_lu 5 @ t, n')"
proof -
  let ?w = "push_bit 63 1 OR 5 :: u64"
  have w: "?w AND mask 55 = 5" "\<not> (bit ?w 63 \<and> bit ?w 62)" "extract_pfn ?w = 5" "\<not> bit ?w 61" by code_simp+
  have "u64_entries (tour_env ?w) ''/proc/self/pagemap'' (0x7000 div page_size (tour_env ?w)) 1 = Some [?w]"
    "u64_entries (tour_env ?w) ''/proc/kpagecount'' (?w AND mask 55) 1 = Some [?w]" "u64_entries (tour_env ?w) ''/proc/kpageflags'' (?w AND mask 55) 1 = Some [?w]"
    unfolding w(1) by (simp_all only: tour_env_entries) (simp add: u64_entries_def tour_env_def)
  from tour_prints_pfn [OF this(1) w(2) this(2,3), of "\<lambda>_. 3" 0] show ?thesis unfolding w(3) using w(4) by (simp add: INVALID_VALUE_def)
qed

text \<open>No descriptor of a \<open>/proc\<close> file is ever closed: each description leaves at least one open, and the program ends with all of them
  open.\<close>

theorem tour_leaks_descriptors:
  assumes "tour_main kpf env (Some p) True (Some q) contents = Inr (st, text', n)"
  shows "st = 0 \<and> 5 \<le> n"
  using assms by (auto simp: tour_main_def sbind_eq_Inr_iff dest!: describe_addr_opens)

theorem tour_leaks_descriptors_witness:
  "\<exists>text' n. tour_main (\<lambda>_. 3) (\<lambda>_. tour_env 0) (Some 0x7000) True (Some 0x7000) ''hello'' = Inr (0, text', n) \<and> 5 \<le> n"
proof -
  have e: "u64_entries (tour_env 0) ''/proc/self/pagemap'' (0x7000 div page_size (tour_env 0)) 1 = Some [0]" by (simp add: u64_entries_def tour_env_def)
  obtain text' n where "tour_main (\<lambda>_. 3) (\<lambda>_. tour_env 0) (Some 0x7000) True (Some 0x7000) ''hello'' = Inr (0, text', n)"
    using describe_addr_cases(2) [OF e] by (simp add: tour_main_def)
  from this tour_leaks_descriptors [OF this] show ?thesis by blast
qed

end
