(* ===== verification/Shmem.thy ===== *)
theory Shmem
  imports C_Lib
begin

text \<open>
  The programs of \<open>shmem/\<close>: two processes share a page, through a name (\<open>posix\<close>), a key (\<open>sysv\<close>), a descriptor
  (\<open>memfd\<close>) or a \<open>fork\<close>, and each writes ten letters into its own byte. A process is the list of what it still has to do; the two
  take turns in any order. What a run can lead to is a question of their interleaving, so the steps are a relation.
\<close>

section \<open>Processes\<close>

text \<open>
  The actions on the shared page; \<open>Call\<close> is a system call that may fail and does not concern the page's bytes. \<open>memset\<close> and \<open>printf\<close>
  are one action each. \<open>sleep\<close> is left out: an action may come arbitrarily late. A wait is the loop that sleeps until the byte has the
  value.
\<close>

datatype action =
    Call string
  | OpenCreate nat           \<comment> \<open>\<open>shm_open\<close> or \<open>shmget\<close> with the flag to create it, with its size at creation\<close>
  | OpenNamed                \<comment> \<open>the same without the flag\<close>
  | Publish                  \<comment> \<open>the message that tells the path of a descriptor\<close>
  | Truncate nat
  | Memset nat
  | Poke nat char
  | Show string
  | AwaitAtLeast nat char
  | AwaitChar nat char
  | Unlink
  | Fork "action list"
  | Join

datatype proc = Absent | Running "action list" | Exited int | Bus

datatype who = Srv | Cli

lemma who_Cli: "p \<noteq> Srv \<longleftrightarrow> p = Cli" "p \<noteq> Cli \<longleftrightarrow> p = Srv"
  by (cases p; simp)+

fun other :: "who \<Rightarrow> who" where
  "other Srv = Cli"
| "other Cli = Srv"

record shobj =
  content :: string
  named :: bool

record world =
  obj :: shobj
  procs :: "who \<Rightarrow> proc"
  screen :: "string list"

text \<open>\<open>char\<close> is signed.\<close>

definition schar :: "char \<Rightarrow> int" where
  "schar c = (if (of_char c :: int) < 128 then of_char c else of_char c - 256)"

definition c_text :: "string \<Rightarrow> string" where
  "c_text bs = takeWhile (\<lambda>c. c \<noteq> CHR 0x00) bs"

datatype answer = Ok shobj "string list" | Fails | Faults | Waits

text \<open>The page is mapped as a whole, but an access behind the end of the object is a bus error.\<close>

definition awaits :: "nat \<Rightarrow> (char \<Rightarrow> bool) \<Rightarrow> shobj \<Rightarrow> answer" where
  "awaits k P ob = (if length (content ob) \<le> k then Faults else if P (content ob ! k) then Ok ob [] else Waits)"

fun effect :: "action \<Rightarrow> shobj \<Rightarrow> answer" where
  "effect (OpenCreate n) ob = Ok (if named ob then ob else \<lparr>content = replicate n (CHR 0x00), named = True\<rparr>) []"
| "effect OpenNamed ob = (if named ob then Ok ob [] else Fails)"
| "effect Publish ob = Ok (ob\<lparr>named := True\<rparr>) []"
| "effect (Truncate n) ob = Ok (ob\<lparr>content := take n (content ob @ replicate n (CHR 0x00))\<rparr>) []"
| "effect (Memset n) ob = (if length (content ob) < n then Faults
     else Ok (ob\<lparr>content := replicate n (CHR 0x00) @ drop n (content ob)\<rparr>) [])"
| "effect (Poke k c) ob = (if length (content ob) \<le> k then Faults else Ok (ob\<lparr>content := (content ob)[k := c]\<rparr>) [])"
| "effect (Show tag) ob = (if CHR 0x00 \<notin> set (content ob) then Faults else Ok ob [tag @ c_text (content ob)])"
| "effect (AwaitAtLeast k c) ob = awaits k (\<lambda>d. \<not> schar d < schar c) ob"
| "effect (AwaitChar k c) ob = awaits k (\<lambda>d. d = c) ob"
| "effect Unlink ob = (if named ob then Ok (ob\<lparr>named := False\<rparr>) [] else Fails)"
| "effect _ ob = Ok ob []"

definition gone :: "proc \<Rightarrow> bool" where
  "gone p = (case p of Exited _ \<Rightarrow> True | Bus \<Rightarrow> True | _ \<Rightarrow> False)"

definition set_proc :: "who \<Rightarrow> proc \<Rightarrow> world \<Rightarrow> world" where
  "set_proc p x w = w\<lparr>procs := (procs w)(p := x)\<rparr>"

definition carry_out :: "who \<Rightarrow> action \<Rightarrow> action list \<Rightarrow> world \<Rightarrow> world option" where
  "carry_out p a as w = (case effect a (obj w) of
      Ok ob ls \<Rightarrow> Some (set_proc p (Running as) (w\<lparr>obj := ob, screen := screen w @ ls\<rparr>))
    | Fails \<Rightarrow> Some (set_proc p (Exited 1) w)
    | Faults \<Rightarrow> Some (set_proc p Bus w)
    | Waits \<Rightarrow> None)"

fun act :: "who \<Rightarrow> action list \<Rightarrow> world \<Rightarrow> world option" where
  "act p [] w = Some (set_proc p (Exited 0) w)"
| "act p (Fork prog # as) w = Some (set_proc p (Running as) (set_proc (other p) (Running prog) w))"
| "act p (Join # as) w = (if gone (procs w (other p)) then Some (set_proc p (Running as) w) else None)"
| "act p (a # as) w = carry_out p a as w"

definition turn :: "who \<Rightarrow> world \<Rightarrow> world option" where
  "turn p w = (case procs w p of Running as \<Rightarrow> act p as w | _ \<Rightarrow> None)"

text \<open>\<open>flaky\<close> tells which system calls may fail for reasons of their own.\<close>

inductive sstep :: "(action \<Rightarrow> bool) \<Rightarrow> world \<Rightarrow> world \<Rightarrow> bool" for flaky where
  moves: "turn p w = Some w' \<Longrightarrow> sstep flaky w w'"
| fails: "procs w p = Running (a # as) \<Longrightarrow> flaky a \<Longrightarrow> sstep flaky w (set_proc p (Exited 1) w)"

inductive sreach :: "(action \<Rightarrow> bool) \<Rightarrow> world \<Rightarrow> world \<Rightarrow> bool" for flaky w0 where
  start: "sreach flaky w0 w0"
| step: "sreach flaky w0 w \<Longrightarrow> sstep flaky w w' \<Longrightarrow> sreach flaky w0 w'"

inductive_cases sstepE: "sstep flaky w w'"

definition ended :: "(action \<Rightarrow> bool) \<Rightarrow> world \<Rightarrow> bool" where
  "ended flaky w \<longleftrightarrow> (\<nexists>w'. sstep flaky w w')"

section \<open>The programs\<close>

definition NUM_LOOPS :: nat where "NUM_LOOPS = 10"
definition SHM_SIZE :: nat where "SHM_SIZE = 4096"

definition letters :: "nat \<Rightarrow> string \<Rightarrow> action list" where
  "letters k tag = concat (map (\<lambda>i. [Poke k (char_of (97 + i)), Show tag]) [0..<NUM_LOOPS])"

definition posix_client :: "action list" where
  "posix_client = [OpenNamed, Call ''mmap''] @ letters 1 ''client: ''"

definition posix_server :: "action list" where
  "posix_server = [OpenCreate 0, Truncate SHM_SIZE, Call ''mmap'', Memset SHM_SIZE] @ letters 0 ''server: ''
     @ [AwaitChar 1 (char_of (97 + (NUM_LOOPS - 1))), Unlink]"

definition sysv_client :: "action list" where
  "sysv_client = [OpenNamed, Call ''shmat''] @ letters 1 ''client: ''"

definition sysv_server :: "action list" where
  "sysv_server = [OpenCreate SHM_SIZE, Call ''shmat'', Memset SHM_SIZE] @ letters 0 ''server: ''"

definition memfd_client :: "action list" where
  "memfd_client = [OpenNamed, Call ''mmap''] @ letters 1 ''client: ''"

definition memfd_server :: "action list" where
  "memfd_server = [Call ''memfd_create'', Truncate SHM_SIZE, Call ''fcntl'', Call ''mmap'', Memset SHM_SIZE, Publish,
     AwaitAtLeast 1 (CHR ''a'')] @ letters 0 ''server: ''"

text \<open>A new anonymous page is zero.\<close>

definition fork_child :: "action list" where
  "fork_child = letters 1 ''child: ''"

definition fork_parent :: "action list" where
  "fork_parent = [Call ''mmap'', Fork fork_child] @ letters 0 ''parent: '' @ [Join]"

definition no_object :: shobj where
  "no_object = \<lparr>content = [], named = False\<rparr>"

definition zeroed :: string where
  "zeroed = replicate SHM_SIZE (CHR 0x00)"

definition world_of :: "shobj \<Rightarrow> action list \<Rightarrow> proc \<Rightarrow> world" where
  "world_of ob server client = \<lparr>obj = ob, procs = (\<lambda>p. if p = Srv then Running server else client), screen = []\<rparr>"

section \<open>Every run ends\<close>

fun work_of :: "action \<Rightarrow> nat" where
  "work_of (Fork as) = 3 + sum_list (map work_of as)"
| "work_of _ = 1"

definition work_left :: "proc \<Rightarrow> nat" where
  "work_left p = (case p of Running as \<Rightarrow> 1 + sum_list (map work_of as) | _ \<Rightarrow> 0)"

definition work :: "world \<Rightarrow> nat" where
  "work w = work_left (procs w Srv) + work_left (procs w Cli)"

lemma carry_out_procs: "carry_out p a as w = Some w' \<Longrightarrow> \<exists>x. procs w' = (procs w)(p := x) \<and> work_left x \<le> work_left (Running as)"
  by (auto simp: carry_out_def set_proc_def work_left_def split: answer.splits)

lemma work_update: "work w = work_left (procs w p) + work_left (procs w (other p))"
  by (cases p) (simp_all add: work_def)

lemma other_neq [simp]: "other p \<noteq> p" "p \<noteq> other p"
  by (cases p; simp)+

lemma carry_out_work: "carry_out p a as w = Some w' \<Longrightarrow> procs w p = Running (a # as) \<Longrightarrow> work w' < work w"
proof -
  assume a: "carry_out p a as w = Some w'" "procs w p = Running (a # as)"
  obtain x where x: "procs w' = (procs w)(p := x)" "work_left x \<le> work_left (Running as)" using carry_out_procs [OF a(1)] by blast
  have "0 < work_of a" by (cases a) simp_all
  then have "work_left (Running as) < work_left (Running (a # as))" by (simp add: work_left_def)
  then show "work w' < work w" using x a(2) work_update [of w p] work_update [of w' p] by simp
qed

lemma act_work: "act p as w = Some w' \<Longrightarrow> procs w p = Running as \<Longrightarrow> work w' < work w"
proof (induction p as w rule: act.induct)
  case (1 p w)
  then show ?case by (auto simp: work_update [of _ p] set_proc_def work_left_def)
next
  case (2 p prog as w)
  then show ?case by (auto simp: work_update [of _ p] set_proc_def work_left_def)
next
  case (3 p as w)
  then show ?case by (auto simp: work_update [of _ p] set_proc_def work_left_def split: if_splits)
qed (simp_all add: carry_out_work)

lemma turn_work: "turn p w = Some w' \<Longrightarrow> work w' < work w"
  by (auto simp: turn_def split: proc.splits intro: act_work)

lemma sstep_work: "sstep flaky w w' \<Longrightarrow> work w' < work w"
proof (erule sstepE)
  fix p a as assume "procs w p = Running (a # as)" "w' = set_proc p (Exited 1) w"
  then show "work w' < work w" by (cases p) (auto simp: work_def set_proc_def work_left_def)
qed (rule turn_work)

section \<open>The bytes of the page\<close>

definition cells :: "char \<Rightarrow> char \<Rightarrow> string" where
  "cells a b = a # b # replicate (SHM_SIZE - 2) (CHR 0x00)"

lemma zeroed_cells: "zeroed = cells (CHR 0x00) (CHR 0x00)"
  by (simp add: zeroed_def cells_def SHM_SIZE_def numeral_eq_Suc)

lemma cells_simps [simp]:
  "length (cells a b) = SHM_SIZE" "(cells a b)[0 := c] = cells c b" "(cells a b)[Suc 0 := c] = cells a c" "CHR 0x00 \<in> set (cells a b)"
  "cells a b ! 0 = a" "cells a b ! Suc 0 = b" "take SHM_SIZE (cells a b @ xs) = cells a b"
  by (simp_all add: cells_def SHM_SIZE_def)

text \<open>What a process does once the page is set up: it stores into its own byte only.\<close>

fun byte_of :: "who \<Rightarrow> nat" where
  "byte_of Srv = 0"
| "byte_of Cli = 1"

fun modest :: "who \<Rightarrow> action \<Rightarrow> bool" where
  "modest p (Poke k c) = (k = byte_of p)"
| "modest p (AwaitChar k c) = (k = 1)"
| "modest p (AwaitAtLeast k c) = (k = 1)"
| "modest p (Show tag) = True"
| "modest p (Call f) = True"
| "modest p OpenNamed = True"
| "modest p Unlink = True"
| "modest p Join = True"
| "modest p _ = False"

fun last_poke :: "char \<Rightarrow> action list \<Rightarrow> char" where
  "last_poke c [] = c"
| "last_poke c (Poke k d # as) = last_poke d as"
| "last_poke c (a # as) = last_poke c as"

lemma last_poke_append [simp]: "last_poke c (as @ bs) = last_poke (last_poke c as) bs"
  by (induction c as rule: last_poke.induct) simp_all

definition bytes_are :: "char \<Rightarrow> char \<Rightarrow> world \<Rightarrow> bool" where
  "bytes_are a b w \<longleftrightarrow> content (obj w) = cells a b"

lemma modest_turn:
  assumes "turn p w = Some w'" "procs w p = Running (x # as)" "modest p x" "bytes_are a b w"
    "x = OpenNamed \<or> x = Unlink \<Longrightarrow> named (obj w)"
  shows "procs w' = (procs w)(p := Running as) \<and> named (obj w') = (named (obj w) \<and> x \<noteq> Unlink)
    \<and> (if p = Srv then bytes_are (last_poke a [x]) b w' else bytes_are a (last_poke b [x]) w')
    \<and> (\<forall>k c. x = AwaitChar k c \<longrightarrow> k = 1 \<and> b = c) \<and> (x = Join \<longrightarrow> gone (procs w (other p)))"
proof -
  have t: "act p (x # as) w = Some w'" using assms(1,2) by (simp add: turn_def)
  show ?thesis
  proof (cases x)
    case (Poke k c)
    then show ?thesis using t assms(3,4) by (cases p) (auto simp: carry_out_def set_proc_def bytes_are_def SHM_SIZE_def)
  next
    case (AwaitChar k c)
    then show ?thesis using t assms(3,4) by (auto simp: carry_out_def set_proc_def bytes_are_def awaits_def SHM_SIZE_def split: if_splits)
  next
    case (AwaitAtLeast k c)
    then show ?thesis using t assms(3,4) by (auto simp: carry_out_def set_proc_def bytes_are_def awaits_def SHM_SIZE_def split: if_splits)
  qed (use t assms(3-5) in \<open>auto simp: carry_out_def set_proc_def bytes_are_def split: if_splits\<close>)
qed

lemma modest_stuck:
  assumes "turn p w = None" "procs w p = Running (x # as)" "modest p x" "bytes_are a b w"
  shows "(\<exists>c. x = AwaitChar 1 c \<and> b \<noteq> c) \<or> (\<exists>c. x = AwaitAtLeast 1 c \<and> schar b < schar c) \<or> (x = Join \<and> \<not> gone (procs w (other p)))"
proof -
  have t: "act p (x # as) w = None" using assms(1,2) by (simp add: turn_def)
  show ?thesis using t assms(3,4)
    by (cases x) (auto simp: carry_out_def bytes_are_def awaits_def SHM_SIZE_def split: if_splits)
qed

section \<open>Two processes on a page that is set up\<close>

definition stands :: "action list \<Rightarrow> action list \<Rightarrow> action list \<Rightarrow> proc \<Rightarrow> bool" where
  "stands prog past rest pr \<longleftrightarrow> prog = past @ rest \<and> (pr = Running rest \<or> (rest = [] \<and> pr = Exited 0))"

text \<open>The server \<open>S\<close> may wait for the client's last letter and may only then remove the name; the client \<open>C\<close> opens it first.\<close>

definition paired :: "action list \<Rightarrow> action list \<Rightarrow> bool" where
  "paired S C \<longleftrightarrow> (\<forall>x\<in>set S. modest Srv x \<and> x \<noteq> OpenNamed) \<and> (\<forall>x\<in>set C. modest Cli x \<and> x \<noteq> Unlink \<and> x \<noteq> Join)
     \<and> (\<forall>k c. AwaitChar k c \<notin> set C \<and> AwaitAtLeast k c \<notin> set C) \<and> last_poke (CHR 0x00) C \<noteq> CHR 0x00
     \<and> (\<forall>c. AwaitChar 1 c \<in> set S \<longrightarrow> c = last_poke (CHR 0x00) C)
     \<and> (\<forall>c. AwaitAtLeast 1 c \<in> set S \<longrightarrow> \<not> schar (last_poke (CHR 0x00) C) < schar c)
     \<and> (\<forall>p1 p2. S = p1 @ Unlink # p2 \<longrightarrow> Unlink \<notin> set p1 \<and> (\<exists>c. AwaitChar 1 c \<in> set p1))
     \<and> (\<forall>q1 q2. C = q1 @ OpenNamed # q2 \<longrightarrow> q1 = [])"

definition pair_inv :: "action list \<Rightarrow> action list \<Rightarrow> bool \<Rightarrow> world \<Rightarrow> bool" where
  "pair_inv S C nm w \<longleftrightarrow> (\<exists>p1 p2 q1 q2. stands S p1 p2 (procs w Srv) \<and> stands C q1 q2 (procs w Cli)
     \<and> bytes_are (last_poke (CHR 0x00) p1) (last_poke (CHR 0x00) q1) w \<and> (named (obj w) \<longleftrightarrow> nm \<and> Unlink \<notin> set p1)
     \<and> ((\<exists>c. AwaitChar 1 c \<in> set p1) \<longrightarrow> q1 \<noteq> []))"

lemma stands_step: "stands prog past (x # rest) (Running (x # rest)) \<Longrightarrow> stands prog (past @ [x]) rest (Running rest)"
  by (simp add: stands_def)

lemma turn_end: "procs w p = Running [] \<Longrightarrow> turn p w = Some (set_proc p (Exited 0) w)"
  by (simp add: turn_def)

lemma turn_SomeE:
  assumes "turn p w = Some w'" "stands prog past rest (procs w p)"
  obtains (End) "rest = []" "w' = set_proc p (Exited 0) w" | (Act) x as where "rest = x # as" "procs w p = Running (x # as)"
  using assms by (cases rest) (auto simp: stands_def turn_def)

lemma pair_inv_srv:
  assumes P: "paired S C" and nm: "nm \<or> (OpenNamed \<notin> set C \<and> Unlink \<notin> set S)" and t: "turn Srv w = Some w'" and I: "pair_inv S C nm w"
  shows "pair_inv S C nm w'"
proof -
  obtain p1 p2 q1 q2 where i: "stands S p1 p2 (procs w Srv)" "stands C q1 q2 (procs w Cli)"
      "bytes_are (last_poke (CHR 0x00) p1) (last_poke (CHR 0x00) q1) w" "named (obj w) \<longleftrightarrow> nm \<and> Unlink \<notin> set p1"
      "(\<exists>c. AwaitChar 1 c \<in> set p1) \<longrightarrow> q1 \<noteq> []"
    using I by (auto simp: pair_inv_def)
  show ?thesis using t i(1)
  proof (cases rule: turn_SomeE)
    case End
    then show ?thesis using i by (auto simp: pair_inv_def set_proc_def stands_def bytes_are_def)
  next
    case (Act x as)
    have S: "S = p1 @ x # as" using i(1) Act by (simp add: stands_def)
    then have x: "modest Srv x" "x \<noteq> OpenNamed" using P by (auto simp: paired_def)
    have "x = Unlink \<Longrightarrow> named (obj w)" using P S i(4) nm by (auto simp: paired_def)
    then have m: "procs w' = (procs w)(Srv := Running as)" "named (obj w') = (named (obj w) \<and> x \<noteq> Unlink)"
      "bytes_are (last_poke (last_poke (CHR 0x00) p1) [x]) (last_poke (CHR 0x00) q1) w'"
      "\<forall>k c. x = AwaitChar k c \<longrightarrow> k = 1 \<and> last_poke (CHR 0x00) q1 = c"
      using modest_turn [OF t Act(2) x(1) i(3)] x(2) by auto
    have a: "AwaitChar 1 c \<in> set (p1 @ [x]) \<Longrightarrow> q1 \<noteq> []" for c
      using m(4) i(5) P S by (auto simp: paired_def)
    show ?thesis unfolding pair_inv_def
      by (rule exI [of _ "p1 @ [x]"], rule exI [of _ as], rule exI [of _ q1], rule exI [of _ q2])
        (use m i a Act in \<open>auto simp: stands_def\<close>)
  qed
qed

lemma pair_inv_cli:
  assumes P: "paired S C" and nm: "nm \<or> (OpenNamed \<notin> set C \<and> Unlink \<notin> set S)" and t: "turn Cli w = Some w'" and I: "pair_inv S C nm w"
  shows "pair_inv S C nm w'"
proof -
  obtain p1 p2 q1 q2 where i: "stands S p1 p2 (procs w Srv)" "stands C q1 q2 (procs w Cli)"
      "bytes_are (last_poke (CHR 0x00) p1) (last_poke (CHR 0x00) q1) w" "named (obj w) \<longleftrightarrow> nm \<and> Unlink \<notin> set p1"
      "(\<exists>c. AwaitChar 1 c \<in> set p1) \<longrightarrow> q1 \<noteq> []"
    using I by (auto simp: pair_inv_def)
  show ?thesis using t i(2)
  proof (cases rule: turn_SomeE)
    case End
    then show ?thesis using i by (auto simp: pair_inv_def set_proc_def stands_def bytes_are_def)
  next
    case (Act x as)
    have C: "C = q1 @ x # as" using i(2) Act by (simp add: stands_def)
    then have x: "modest Cli x" "x \<noteq> Unlink" using P by (auto simp: paired_def)
    have "named (obj w)" if "x = OpenNamed"
    proof -
      have "q1 = []" using P C that unfolding paired_def by blast
      then have "\<forall>c. AwaitChar 1 c \<notin> set p1" using i(5) by blast
      moreover have "Unlink \<in> set p1 \<Longrightarrow> \<exists>c. AwaitChar 1 c \<in> set p1"
      proof -
        assume "Unlink \<in> set p1"
        then obtain a b where "p1 = a @ Unlink # b" by (auto simp: in_set_conv_decomp)
        then have "S = a @ Unlink # (b @ p2)" using i(1) by (simp add: stands_def)
        then have "\<exists>c. AwaitChar 1 c \<in> set a" using P unfolding paired_def by blast
        then show ?thesis using \<open>p1 = a @ Unlink # b\<close> by auto
      qed
      ultimately show ?thesis using i(4) nm C that by auto
    qed
    then have m: "procs w' = (procs w)(Cli := Running as)" "named (obj w') = named (obj w)"
      "bytes_are (last_poke (CHR 0x00) p1) (last_poke (last_poke (CHR 0x00) q1) [x]) w'"
      using modest_turn [OF t Act(2) x(1) i(3)] x(2) by auto
    show ?thesis unfolding pair_inv_def
      by (rule exI [of _ p1], rule exI [of _ p2], rule exI [of _ "q1 @ [x]"], rule exI [of _ as])
        (use m i Act in \<open>auto simp: stands_def\<close>)
  qed
qed

abbreviation steadily :: "action \<Rightarrow> bool" where
  "steadily \<equiv> \<lambda>_. False"

lemma pair_inv_reach:
  assumes "sreach steadily w0 w" "paired S C" "nm \<or> (OpenNamed \<notin> set C \<and> Unlink \<notin> set S)" "pair_inv S C nm w0"
  shows "pair_inv S C nm w"
  using assms(1)
proof (induction rule: sreach.induct)
  case (step w w')
  from step.hyps(2) obtain p where "turn p w = Some w'" by (auto elim: sstepE)
  then show ?case using pair_inv_srv [OF assms(2,3)] pair_inv_cli [OF assms(2,3)] step.IH by (cases p) blast+
qed (rule assms(4))

lemma pair_ends:
  assumes "pair_inv S C nm w" "paired S C" "ended steadily w"
  shows "procs w Srv = Exited 0 \<and> procs w Cli = Exited 0 \<and> bytes_are (last_poke (CHR 0x00) S) (last_poke (CHR 0x00) C) w
    \<and> (named (obj w) \<longleftrightarrow> nm \<and> Unlink \<notin> set S)"
proof -
  obtain p1 p2 q1 q2 where i: "stands S p1 p2 (procs w Srv)" "stands C q1 q2 (procs w Cli)"
      "bytes_are (last_poke (CHR 0x00) p1) (last_poke (CHR 0x00) q1) w" "named (obj w) \<longleftrightarrow> nm \<and> Unlink \<notin> set p1"
    using assms(1) by (auto simp: pair_inv_def)
  have n: "turn p w = None" for p
  proof (cases "turn p w")
    case (Some w')
    then show ?thesis using assms(3) sstep.moves [OF Some, of steadily] unfolding ended_def by blast
  qed simp
  have c: "procs w Cli = Exited 0 \<and> q1 = C"
  proof (cases "procs w Cli = Running q2")
    case True
    show ?thesis
    proof (cases q2)
      case Nil
      then show ?thesis using n [of Cli] True turn_end by auto
    next
      case (Cons x as)
      then have "x \<in> set C" using i(2) by (auto simp: stands_def)
      then show ?thesis using modest_stuck [OF n [of Cli] _ _ i(3), of x as] True Cons assms(2) by (auto simp: paired_def)
    qed
  qed (use i(2) in \<open>auto simp: stands_def\<close>)
  have s: "procs w Srv = Exited 0 \<and> p1 = S"
  proof (cases "procs w Srv = Running p2")
    case True
    show ?thesis
    proof (cases p2)
      case Nil
      then show ?thesis using n [of Srv] True turn_end by auto
    next
      case (Cons x as)
      then have "x \<in> set S" using i(1) by (auto simp: stands_def)
      then show ?thesis using modest_stuck [OF n [of Srv] _ _ i(3), of x as] True Cons assms(2) c by (auto simp: paired_def gone_def)
    qed
  qed (use i(1) in \<open>auto simp: stands_def\<close>)
  show ?thesis using c s i(3,4) by auto
qed

section \<open>The four programs\<close>

lemma letters_list:
  "letters k tag = [Poke k (CHR ''a''), Show tag, Poke k (CHR ''b''), Show tag, Poke k (CHR ''c''), Show tag, Poke k (CHR ''d''), Show tag,
     Poke k (CHR ''e''), Show tag, Poke k (CHR ''f''), Show tag, Poke k (CHR ''g''), Show tag, Poke k (CHR ''h''), Show tag,
     Poke k (CHR ''i''), Show tag, Poke k (CHR ''j''), Show tag]"
proof -
  have "map (\<lambda>i. char_of (97 + i)) [0..<NUM_LOOPS] = ''abcdefghij''" by code_simp
  then have "map (\<lambda>i. [Poke k (char_of (97 + i)), Show tag]) [0..<NUM_LOOPS] = map (\<lambda>c. [Poke k c, Show tag]) ''abcdefghij''"
    by (metis (no_types, lifting) map_map comp_def map_eq_conv)
  then show ?thesis by (simp add: letters_def)
qed

lemma last_letter: "char_of (97 + (NUM_LOOPS - 1)) = CHR ''j''"
  by code_simp

lemma only_occurrence: "L @ [u] = p1 @ u # p2 \<Longrightarrow> u \<notin> set L \<Longrightarrow> p1 = L"
  using append_Cons_eq_iff [of u L "[]" p1 p2] by simp

lemma first_occurrence: "u # L = q1 @ u # q2 \<Longrightarrow> u \<notin> set L \<Longrightarrow> q1 = []"
  by (cases q1) auto

lemma posix_paired: "paired (drop 4 posix_server) posix_client"
proof -
  have s: "drop 4 posix_server = (letters 0 ''server: '' @ [AwaitChar 1 (CHR ''j'')]) @ [Unlink]" by (simp add: posix_server_def last_letter [simplified])
  have n: "Unlink \<notin> set (letters 0 ''server: '' @ [AwaitChar 1 (CHR ''j'')])" "OpenNamed \<notin> set (Call ''mmap'' # letters 1 ''client: '')"
    by (simp_all add: letters_list)
  have "p1 = letters 0 ''server: '' @ [AwaitChar 1 (CHR ''j'')]" if "drop 4 posix_server = p1 @ Unlink # p2" for p1 p2
    using only_occurrence [OF that [unfolded s] n(1)] .
  then have u: "Unlink \<notin> set p1 \<and> (\<exists>c. AwaitChar 1 c \<in> set p1)" if "drop 4 posix_server = p1 @ Unlink # p2" for p1 p2
    using that n(1) by fastforce
  have o: "posix_client = q1 @ OpenNamed # q2 \<Longrightarrow> q1 = []" for q1 q2
    using first_occurrence [OF _ n(2)] by (simp add: posix_client_def)
  show ?thesis using u o unfolding paired_def
    by (simp add: s posix_client_def letters_list)
qed

lemma pair_inv_start:
  "pair_inv S C nm (world_of \<lparr>content = zeroed, named = nm\<rparr> S (Running C))"
  unfolding pair_inv_def
  by (rule exI [of _ "[]"], rule exI [of _ S], rule exI [of _ "[]"], rule exI [of _ C])
    (simp add: stands_def world_of_def bytes_are_def zeroed_cells)

lemma sreach_trans: "sreach flaky w1 w2 \<Longrightarrow> sreach flaky w0 w1 \<Longrightarrow> sreach flaky w0 w2"
  by (induction rule: sreach.induct) (auto intro: sreach.step)

text \<open>A run can always be continued to its end.\<close>

lemma end_reachable: "\<exists>w'. sreach flaky w w' \<and> ended flaky w'"
proof (induction "work w" arbitrary: w rule: less_induct)
  case less
  show ?case
  proof (cases "ended flaky w")
    case False
    then obtain w1 where w1: "sstep flaky w w1" by (auto simp: ended_def)
    then obtain w' where "sreach flaky w1 w'" "ended flaky w'" using less sstep_work by blast
    then show ?thesis using sreach_trans sreach.step [OF sreach.start w1] by blast
  qed (use sreach.start in blast)
qed

text \<open>C29. posix: once the server has cleared the page, every run ends, in whatever order the two take turns: each turn leaves less to do, and
  when neither can go on both have ended with status 0, the server has removed the name and the page holds the last letter of each. The
  server's wait for the client's last letter thus always comes to its end.\<close>

theorem posix_handshake:
  assumes "sreach steadily (world_of \<lparr>content = zeroed, named = True\<rparr> (drop 4 posix_server) (Running posix_client)) w"
  shows "(\<forall>w'. sstep steadily w w' \<longrightarrow> work w' < work w)
    \<and> (ended steadily w \<longrightarrow> procs w Srv = Exited 0 \<and> procs w Cli = Exited 0 \<and> \<not> named (obj w)
        \<and> content (obj w) = cells (CHR ''j'') (CHR ''j''))"
proof -
  have "pair_inv (drop 4 posix_server) posix_client True w"
    using pair_inv_reach [OF assms posix_paired _ pair_inv_start] by simp
  moreover have "last_poke (CHR 0x00) (drop 4 posix_server) = CHR ''j''" "last_poke (CHR 0x00) posix_client = CHR ''j''"
    "Unlink \<in> set (drop 4 posix_server)"
    by (simp_all add: posix_server_def posix_client_def letters_list)
  ultimately show ?thesis using pair_ends [OF _ posix_paired] sstep_work by (auto simp: bytes_are_def)
qed

theorem posix_handshake_witness:
  "\<exists>w. sreach steadily (world_of \<lparr>content = zeroed, named = True\<rparr> (drop 4 posix_server) (Running posix_client)) w
    \<and> procs w Srv = Exited 0 \<and> procs w Cli = Exited 0"
  using end_reachable posix_handshake by blast

section \<open>Schedules\<close>

fun follow :: "who list \<Rightarrow> world \<Rightarrow> world option" where
  "follow [] w = Some w"
| "follow (p # ps) w = Option.bind (turn p w) (follow ps)"

lemma follow_append: "follow (ps @ qs) w = Option.bind (follow ps w) (follow qs)"
  by (induction ps arbitrary: w) (auto split: bind_splits)

lemma follow_reach: "follow ps w = Some w' \<Longrightarrow> sreach flaky w w'"
proof (induction ps arbitrary: w)
  case (Cons p ps)
  then obtain w1 where w1: "turn p w = Some w1" "sreach flaky w1 w'" by (auto simp: bind_eq_Some_conv)
  from sreach_trans [OF w1(2) sreach.step [OF sreach.start sstep.moves [OF w1(1)]]] show ?case .
qed (auto intro: sreach.start)

lemma SHM_SIZE_gt: "Suc 0 < SHM_SIZE" "0 < SHM_SIZE"
  by (simp_all add: SHM_SIZE_def)

text \<open>C30. The name exists before the page is set up. A client that starts in between may be ahead of the server's \<open>memset\<close>, which then wipes
  out its letters: the client ends with success and the server waits for ever. A client that is even before the \<open>ftruncate\<close> is
  killed by a bus error.\<close>

theorem posix_race:
  "(\<exists>w. sreach steadily (world_of no_object posix_server (Running posix_client)) w \<and> ended steadily w
      \<and> procs w Cli = Exited 0 \<and> procs w Srv = Running [AwaitChar 1 (CHR ''j''), Unlink])
   \<and> (\<exists>w. sreach steadily (world_of no_object posix_server (Running posix_client)) w \<and> procs w Cli = Bus)"
proof
  let ?w0 = "world_of no_object posix_server (Running posix_client)"
  have p: "posix_server = [OpenCreate 0, Truncate SHM_SIZE, Call ''mmap'', Memset SHM_SIZE] @ letters 0 ''server: '' @ [AwaitChar 1 (CHR ''j''), Unlink]"
    by (simp add: posix_server_def last_letter [simplified])
  have "\<exists>w. follow (replicate 3 Srv @ replicate 23 Cli @ replicate 21 Srv) ?w0 = Some w
      \<and> procs w Cli = Exited 0 \<and> procs w Srv = Running [AwaitChar 1 (CHR ''j''), Unlink] \<and> bytes_are (CHR ''j'') (CHR 0x00) w"
    by (simp add: p posix_client_def letters_list world_of_def no_object_def turn_def set_proc_def carry_out_def numeral_eq_Suc
        zeroed_def [symmetric] zeroed_cells bytes_are_def fun_upd_def not_le SHM_SIZE_gt)
  then obtain w where w: "follow (replicate 3 Srv @ replicate 23 Cli @ replicate 21 Srv) ?w0 = Some w"
      "procs w Cli = Exited 0" "procs w Srv = Running [AwaitChar 1 (CHR ''j''), Unlink]" "bytes_are (CHR ''j'') (CHR 0x00) w" by blast
  have "turn p w = None" for p
    using w SHM_SIZE_gt by (cases p) (auto simp: turn_def carry_out_def awaits_def bytes_are_def)
  then have "ended steadily w" by (auto simp: ended_def elim: sstepE)
  then show "\<exists>w. sreach steadily ?w0 w \<and> ended steadily w \<and> procs w Cli = Exited 0 \<and> procs w Srv = Running [AwaitChar 1 (CHR ''j''), Unlink]"
    using follow_reach [OF w(1)] w by blast
  have "\<exists>w. follow [Srv, Cli, Cli, Cli] ?w0 = Some w \<and> procs w Cli = Bus"
    by (simp add: p posix_client_def letters_list world_of_def no_object_def turn_def set_proc_def carry_out_def)
  then show "\<exists>w. sreach steadily ?w0 w \<and> procs w Cli = Bus" using follow_reach by blast
qed

lemma only_step:
  assumes "sreach flaky w0 w" "\<And>w'. sstep flaky w0 w' \<Longrightarrow> w' = w1"
  shows "w = w0 \<or> sreach flaky w1 w"
  using assms(1)
proof (induction rule: sreach.induct)
  case (step w w')
  then show ?case using assms(2) sreach.start sreach.step by blast
qed simp

lemma turn_Absent: "procs w p = Absent \<Longrightarrow> turn p w = None"
  by (simp add: turn_def)

lemma steadily_turn: "sstep steadily w w' \<Longrightarrow> \<exists>p. turn p w = Some w'"
  by (auto elim: sstepE)

definition fork_start :: world where
  "fork_start = world_of \<lparr>content = zeroed, named = False\<rparr> fork_parent Absent"

lemma fork_paired: "paired (drop 2 fork_parent) fork_child"
proof -
  have s: "drop 2 fork_parent = letters 0 ''parent: '' @ [Join]" by (simp add: fork_parent_def)
  have "Unlink \<notin> set (drop 2 fork_parent)" "OpenNamed \<notin> set fork_child" by (simp_all add: s fork_child_def letters_list)
  then have "\<forall>p1 p2. drop 2 fork_parent \<noteq> p1 @ Unlink # p2" "\<forall>q1 q2. fork_child \<noteq> q1 @ OpenNamed # q2" by (metis in_set_conv_decomp)+
  then show ?thesis unfolding paired_def by (simp add: s fork_child_def letters_list)
qed

lemma fork_reach:
  assumes "sreach steadily fork_start w"
  shows "(\<exists>p w'. turn p w = Some w') \<or> pair_inv (drop 2 fork_parent) fork_child False w"
proof -
  define ob where "ob = \<lparr>content = zeroed, named = False\<rparr>"
  define w1 where "w1 = world_of ob (Fork fork_child # drop 2 fork_parent) Absent"
  define w2 where "w2 = world_of ob (drop 2 fork_parent) (Running fork_child)"
  have t0: "turn Srv fork_start = Some w1" "turn Cli fork_start = None"
    by (simp_all add: fork_start_def w1_def ob_def world_of_def turn_def fork_parent_def carry_out_def set_proc_def fun_eq_iff)
  have t1: "turn Srv w1 = Some w2" "turn Cli w1 = None"
    by (auto simp: w1_def w2_def world_of_def turn_def set_proc_def fun_eq_iff who_Cli)
  have u0: "sstep steadily fork_start w' \<Longrightarrow> w' = w1" and u1: "sstep steadily w1 w' \<Longrightarrow> w' = w2" for w'
    using steadily_turn t0 t1 who.exhaust by (metis option.distinct(1) option.inject)+
  consider "w = fork_start" | "w = w1" | "sreach steadily w2 w"
    using only_step [OF assms u0] only_step [OF _ u1] by blast
  then show ?thesis
  proof cases
    case 3
    have "pair_inv (drop 2 fork_parent) fork_child False w2" using pair_inv_start by (simp add: w2_def ob_def)
    moreover have "OpenNamed \<notin> set fork_child \<and> Unlink \<notin> set (drop 2 fork_parent)" by (simp add: fork_child_def fork_parent_def letters_list)
    ultimately show ?thesis using pair_inv_reach [OF 3 fork_paired] by blast
  qed (use t0 t1 in blast)+
qed

text \<open>fork: every run of parent and child ends, and both end with status 0; the parent ends after the child.\<close>

theorem fork_run_ends:
  assumes "sreach steadily fork_start w"
  shows "(\<forall>w'. sstep steadily w w' \<longrightarrow> work w' < work w)
    \<and> (ended steadily w \<longrightarrow> procs w Srv = Exited 0 \<and> procs w Cli = Exited 0 \<and> content (obj w) = cells (CHR ''j'') (CHR ''j''))"
proof -
  have l: "last_poke (CHR 0x00) (drop 2 fork_parent) = CHR ''j''" "last_poke (CHR 0x00) fork_child = CHR ''j''"
    by (simp_all add: fork_parent_def fork_child_def letters_list)
  have "pair_inv (drop 2 fork_parent) fork_child False w" if "ended steadily w"
    using fork_reach [OF assms] that sstep.moves unfolding ended_def by blast
  then show ?thesis using pair_ends [OF _ fork_paired] l sstep_work by (auto simp: bytes_are_def)
qed

theorem fork_run_ends_witness:
  "\<exists>w. sreach steadily fork_start w \<and> procs w Srv = Exited 0 \<and> procs w Cli = Exited 0"
  using end_reachable fork_run_ends by blast

section \<open>A descriptor and a key\<close>

lemma memfd_paired: "paired (drop 6 memfd_server) memfd_client"
proof -
  have s: "drop 6 memfd_server = AwaitAtLeast 1 (CHR ''a'') # letters 0 ''server: ''" by (simp add: memfd_server_def)
  have n: "Unlink \<notin> set (drop 6 memfd_server)" "OpenNamed \<notin> set (Call ''mmap'' # letters 1 ''client: '')"
    by (simp_all add: s letters_list)
  then have "\<forall>p1 p2. drop 6 memfd_server \<noteq> p1 @ Unlink # p2" by (metis in_set_conv_decomp)
  moreover have "memfd_client = q1 @ OpenNamed # q2 \<Longrightarrow> q1 = []" for q1 q2
    using first_occurrence [OF _ n(2)] by (simp add: memfd_client_def)
  moreover have "\<not> schar (CHR ''j'') < schar (CHR ''a'')" by code_simp
  ultimately show ?thesis unfolding paired_def by (simp add: s memfd_client_def letters_list)
qed

text \<open>The server's page at each point of its preparation, before the path is known, and the client that came too early.\<close>

definition memfd_pages :: "string list" where
  "memfd_pages = [[], [], zeroed, zeroed, zeroed, zeroed]"

definition memfd_inv :: "world \<Rightarrow> bool" where
  "memfd_inv w \<longleftrightarrow>
     (\<exists>n<6. procs w Srv = Running (drop n memfd_server) \<and> obj w = \<lparr>content = memfd_pages ! n, named = False\<rparr>
        \<and> (procs w Cli = Running memfd_client \<or> procs w Cli = Exited 1))
   \<or> (procs w Srv = Running (drop 6 memfd_server) \<and> procs w Cli = Exited 1 \<and> content (obj w) = zeroed)
   \<or> pair_inv (drop 6 memfd_server) memfd_client True w"

lemma less_6: "n < 6 \<longleftrightarrow> n = 0 \<or> n = 1 \<or> n = 2 \<or> n = 3 \<or> n = 4 \<or> n = (5::nat)"
  by auto

lemma memfd_setup_step:
  assumes "turn Srv w = Some w'" "n < 6" "procs w Srv = Running (drop n memfd_server)" "obj w = \<lparr>content = memfd_pages ! n, named = False\<rparr>"
  shows "procs w' = (procs w)(Srv := Running (drop (Suc n) memfd_server))
    \<and> obj w' = (if n = 5 then \<lparr>content = zeroed, named = True\<rparr> else \<lparr>content = memfd_pages ! Suc n, named = False\<rparr>)"
  using assms(2) assms(1,3,4) unfolding less_6
  by (elim disjE) (auto simp: memfd_server_def turn_def carry_out_def set_proc_def memfd_pages_def zeroed_def)

lemma early_client:
  assumes "turn Cli w = Some w'" "procs w Cli = Running memfd_client" "\<not> named (obj w)"
  shows "w' = set_proc Cli (Exited 1) w"
  using assms by (simp add: turn_def memfd_client_def carry_out_def)

lemma turn_gone: "procs w p = Exited c \<Longrightarrow> turn p w = None"
  by (simp add: turn_def)

lemma memfd_inv_step:
  assumes "turn p w = Some w'" "memfd_inv w"
  shows "memfd_inv w'"
  using assms(2) unfolding memfd_inv_def [of w]
proof (elim disjE exE conjE)
  fix n assume n: "n < 6" and s: "procs w Srv = Running (drop n memfd_server)" "obj w = \<lparr>content = memfd_pages ! n, named = False\<rparr>"
    and c: "procs w Cli = Running memfd_client"
  show ?thesis
  proof (cases p)
    case Srv
    then have m: "procs w' = (procs w)(Srv := Running (drop (Suc n) memfd_server))"
      "obj w' = (if n = 5 then \<lparr>content = zeroed, named = True\<rparr> else \<lparr>content = memfd_pages ! Suc n, named = False\<rparr>)"
      using memfd_setup_step [OF _ n s] assms(1) by auto
    show ?thesis
    proof (cases "n = 5")
      case True
      then have "pair_inv (drop 6 memfd_server) memfd_client True w'"
        unfolding pair_inv_def using m c
        by (intro exI [of _ "[]"] exI [of _ "drop 6 memfd_server"] exI [of _ memfd_client] conjI)
          (auto simp: stands_def bytes_are_def zeroed_cells)
      then show ?thesis by (simp add: memfd_inv_def)
    next
      case False
      then show ?thesis using m c n by (auto simp: memfd_inv_def intro!: exI [of _ "Suc n"])
    qed
  next
    case Cli
    then have "w' = set_proc Cli (Exited 1) w" using early_client assms(1) c s by simp
    then show ?thesis using n s by (auto simp: memfd_inv_def set_proc_def)
  qed
next
  fix n assume n: "n < 6" and s: "procs w Srv = Running (drop n memfd_server)" "obj w = \<lparr>content = memfd_pages ! n, named = False\<rparr>"
    and c: "procs w Cli = Exited 1"
  then have p: "p = Srv" using assms(1) turn_gone who_Cli by (metis option.distinct(1))
  have m: "procs w' = (procs w)(Srv := Running (drop (Suc n) memfd_server))"
      "obj w' = (if n = 5 then \<lparr>content = zeroed, named = True\<rparr> else \<lparr>content = memfd_pages ! Suc n, named = False\<rparr>)"
    using memfd_setup_step [OF _ n s] assms(1) p by auto
  show ?thesis
  proof (cases "n = 5")
    case False
    then show ?thesis using m c n by (auto simp: memfd_inv_def intro!: exI [of _ "Suc n"])
  qed (use m c in \<open>simp add: memfd_inv_def\<close>)
next
  assume s: "procs w Srv = Running (drop 6 memfd_server)" "procs w Cli = Exited 1" "content (obj w) = zeroed"
  have "schar (CHR 0x00) < schar (CHR ''a'')" by code_simp
  then have "turn p w = None" using s SHM_SIZE_gt
    by (cases p) (auto simp: turn_def memfd_server_def carry_out_def awaits_def zeroed_cells)
  then show ?thesis using assms(1) by simp
next
  assume "pair_inv (drop 6 memfd_server) memfd_client True w"
  then show ?thesis using assms(1) pair_inv_srv [OF memfd_paired] pair_inv_cli [OF memfd_paired] by (cases p) (auto simp: memfd_inv_def)
qed

lemma memfd_setup_moves:
  assumes "n < 6" "procs w Srv = Running (drop n memfd_server)" "obj w = \<lparr>content = memfd_pages ! n, named = False\<rparr>"
  shows "\<not> ended steadily w"
proof -
  have "turn Srv w \<noteq> None"
    using assms unfolding less_6 by (elim disjE) (auto simp: memfd_server_def turn_def carry_out_def memfd_pages_def zeroed_def)
  then show ?thesis using sstep.moves unfolding ended_def by blast
qed

text \<open>memfd: the path is told only after the page is cleared, so no letter is lost. Every run ends; either both processes have ended with
  status 0, or the client was started before the path was told and failed, and then the server waits for another one.\<close>

theorem memfd_run_ends:
  assumes "sreach steadily (world_of no_object memfd_server (Running memfd_client)) w"
  shows "(\<forall>w'. sstep steadily w w' \<longrightarrow> work w' < work w)
    \<and> (ended steadily w \<longrightarrow> (procs w Srv = Exited 0 \<and> procs w Cli = Exited 0 \<and> content (obj w) = cells (CHR ''j'') (CHR ''j''))
        \<or> (procs w Srv = Running (drop 6 memfd_server) \<and> procs w Cli = Exited 1))"
proof -
  have "memfd_inv w" using assms
  proof (induction rule: sreach.induct)
    case start
    show ?case unfolding memfd_inv_def by (rule disjI1, rule exI [of _ 0]) (simp add: world_of_def no_object_def memfd_pages_def)
  next
    case (step w w')
    then show ?case using memfd_inv_step steadily_turn by blast
  qed
  then have "(procs w Srv = Exited 0 \<and> procs w Cli = Exited 0 \<and> content (obj w) = cells (CHR ''j'') (CHR ''j''))
        \<or> (procs w Srv = Running (drop 6 memfd_server) \<and> procs w Cli = Exited 1)" if "ended steadily w"
    unfolding memfd_inv_def
  proof (elim disjE exE conjE)
    assume "pair_inv (drop 6 memfd_server) memfd_client True w"
    from pair_ends [OF this memfd_paired that] show ?thesis
      by (simp add: bytes_are_def memfd_server_def memfd_client_def letters_list)
  qed (use memfd_setup_moves that in blast)+
  then show ?thesis using sstep_work by blast
qed

theorem memfd_run_ends_witness:
  "\<exists>w. sreach steadily (world_of no_object memfd_server (Running memfd_client)) w
    \<and> (procs w Cli = Exited 0 \<or> procs w Cli = Exited 1)"
  using end_reachable memfd_run_ends by metis

text \<open>With a key the page has its size from the start and nobody waits for a letter.\<close>

definition keyed :: "action \<Rightarrow> bool" where
  "keyed x \<longleftrightarrow> x = OpenNamed \<or> x = Memset SHM_SIZE \<or> (\<exists>f. x = Call f) \<or> (\<exists>k c. k \<le> 1 \<and> x = Poke k c) \<or> (\<exists>t. x = Show t)"

definition is_cells :: "string \<Rightarrow> bool" where
  "is_cells bs \<longleftrightarrow> (\<exists>a b. bs = cells a b)"

lemma is_cells [simp]: "is_cells (cells a b)"
  by (auto simp: is_cells_def)

definition page_ready :: "world \<Rightarrow> bool" where
  "page_ready w \<longleftrightarrow> named (obj w) \<and> is_cells (content (obj w))"

lemma keyed_turn:
  assumes "procs w p = Running (x # as)" "keyed x" "page_ready w"
  shows "\<exists>w'. turn p w = Some w' \<and> procs w' = (procs w)(p := Running as) \<and> page_ready w'"
proof -
  obtain a b where ab: "named (obj w)" "content (obj w) = cells a b" using assms(3) by (auto simp: page_ready_def is_cells_def)
  have m: "replicate SHM_SIZE (CHR 0x00) @ drop SHM_SIZE (cells a b) = cells (CHR 0x00) (CHR 0x00)"
    using zeroed_cells by (simp add: zeroed_def)
  have le: "k \<le> 1 \<longleftrightarrow> k = 0 \<or> k = Suc 0" for k by auto
  have "is_cells ((cells a b)[k := c])" if "k \<le> 1" for k c
    using that unfolding le by (elim disjE) simp_all
  then show ?thesis using assms(1,2) ab m SHM_SIZE_gt
    by (auto simp: keyed_def turn_def carry_out_def set_proc_def page_ready_def)
qed

definition sysv_inv :: "world \<Rightarrow> bool" where
  "sysv_inv w \<longleftrightarrow>
     (procs w Srv = Running sysv_server \<and> obj w = no_object \<and> (procs w Cli = Running sysv_client \<or> procs w Cli = Exited 1))
   \<or> (page_ready w \<and> (procs w Srv = Exited 0 \<or> (\<exists>as. procs w Srv = Running as \<and> list_all keyed as))
        \<and> (procs w Cli = Exited 0 \<or> procs w Cli = Exited 1 \<or> (\<exists>as. procs w Cli = Running as \<and> list_all keyed as)))"

lemma page_ready_proc [simp]: "page_ready (set_proc p x w) = page_ready w"
  by (simp add: page_ready_def set_proc_def)

lemma sysv_client_keyed: "list_all keyed sysv_client"
  by (simp add: sysv_client_def letters_list keyed_def)

lemma keyed_progress:
  assumes "page_ready w" "procs w p = Running as" "list_all keyed as"
  shows "\<exists>w' x. turn p w = Some w' \<and> procs w' = (procs w)(p := x) \<and> page_ready w' \<and> (x = Exited 0 \<or> (\<exists>as. x = Running as \<and> list_all keyed as))"
proof (cases as)
  case Nil
  then show ?thesis using assms(1,2) turn_end [of w p] by (auto simp: set_proc_def page_ready_def)
next
  case (Cons x xs)
  then show ?thesis using keyed_turn [of w p x xs] assms by auto
qed

lemma sysv_inv_step:
  assumes "turn p w = Some w'" "sysv_inv w"
  shows "sysv_inv w'"
  using assms(2) unfolding sysv_inv_def [of w]
proof (elim disjE conjE)
  assume s: "procs w Srv = Running sysv_server" "obj w = no_object" and c: "procs w Cli = Running sysv_client"
  show ?thesis
  proof (cases p)
    case Srv
    then have "w' = set_proc Srv (Running (tl sysv_server)) (w\<lparr>obj := \<lparr>content = zeroed, named = True\<rparr>\<rparr>)"
      using assms(1) s by (auto simp: turn_def sysv_server_def carry_out_def no_object_def zeroed_def set_proc_def)
    then show ?thesis using c sysv_client_keyed
      by (auto simp: sysv_inv_def page_ready_def zeroed_cells set_proc_def sysv_server_def letters_list keyed_def)
  next
    case Cli
    then have "w' = set_proc Cli (Exited 1) w"
      using assms(1) s c by (simp add: turn_def sysv_client_def carry_out_def no_object_def)
    then show ?thesis using s by (simp add: sysv_inv_def set_proc_def)
  qed
next
  assume s: "procs w Srv = Running sysv_server" "obj w = no_object" and c: "procs w Cli = Exited 1"
  then have "p = Srv" using assms(1) turn_gone who_Cli by (metis option.distinct(1))
  then have "w' = set_proc Srv (Running (tl sysv_server)) (w\<lparr>obj := \<lparr>content = zeroed, named = True\<rparr>\<rparr>)"
    using assms(1) s by (auto simp: turn_def sysv_server_def carry_out_def no_object_def zeroed_def set_proc_def)
  then show ?thesis using c
    by (auto simp: sysv_inv_def page_ready_def zeroed_cells set_proc_def sysv_server_def letters_list keyed_def)
qed (use assms(1) turn_gone [of w p] keyed_progress [of w p] in \<open>cases p; fastforce simp: sysv_inv_def\<close>)+

text \<open>sysv: whenever the client starts, every run ends, the server with status 0 and the client with status 0, or with 1 when it was too early.\<close>

theorem sysv_run_ends:
  assumes "sreach steadily (world_of no_object sysv_server (Running sysv_client)) w"
  shows "(\<forall>w'. sstep steadily w w' \<longrightarrow> work w' < work w)
    \<and> (ended steadily w \<longrightarrow> procs w Srv = Exited 0 \<and> (procs w Cli = Exited 0 \<or> procs w Cli = Exited 1))"
proof -
  have inv: "sysv_inv w" using assms
  proof (induction rule: sreach.induct)
    case start
    show ?case by (simp add: sysv_inv_def world_of_def)
  next
    case (step w w')
    then show ?case using sysv_inv_step steadily_turn by blast
  qed
  have "procs w Srv = Exited 0 \<and> (procs w Cli = Exited 0 \<or> procs w Cli = Exited 1)" if e: "ended steadily w"
  proof -
    have n: "turn p w = None" for p
    proof (cases "turn p w")
      case (Some w')
      then show ?thesis using e sstep.moves [OF Some, of steadily] unfolding ended_def by blast
    qed simp
    have "procs w Srv \<noteq> Running sysv_server" using n [of Srv] by (auto simp: turn_def sysv_server_def carry_out_def)
    moreover have "\<not> (page_ready w \<and> procs w p = Running as \<and> list_all keyed as)" for p as
      using keyed_progress [of w p as] n [of p] by auto
    ultimately show ?thesis using inv by (auto simp: sysv_inv_def)
  qed
  then show ?thesis using sstep_work by blast
qed

theorem sysv_run_ends_witness:
  "\<exists>w. sreach steadily (world_of no_object sysv_server (Running sysv_client)) w \<and> procs w Srv = Exited 0"
  using end_reachable sysv_run_ends by blast

end
