(* ===== verification/Exper.thy ===== *)
theory Exper
  imports Char_Dev Read_Pageflags
begin

text \<open>
  The module \<open>kernel/exper/exper.c\<close>: the two devices that \<open>read-pageflags.c\<close> asks for the reference count and the buffers of a
  frame, and the experiment with the kernel's lists that runs when the module is loaded. The kernel's library, its page table and its
  lists are parameters.
\<close>

section \<open>Pages and their buffers\<close>

datatype bh_flag = BH_Uptodate | BH_Dirty | BH_Lock | BH_Req | BH_Mapped | BH_New | BH_Async_Read | BH_Async_Write
  | BH_Delay | BH_Boundary | BH_Write_EIO | BH_Unwritten | BH_Quiet | BH_Meta | BH_Prio | BH_Defer_Completion

text \<open>\<open>page_buffers\<close> is the state of the first buffer head: which flags are set in \<open>b_state\<close>. The bit numbers belong to the kernel.\<close>

record kpage =
  page_ref_count :: int
  page_buffers :: "(bh_flag \<Rightarrow> bool) option"

type_synonym page_table = "u64 \<Rightarrow> kpage option"

text \<open>A buffer of 255 bytes: its text up to the null and its size.\<close>

record xbuf =
  xb_text :: string
  xb_size :: int

definition refcount_init :: xbuf where
  "refcount_init = \<lparr>xb_text = ''0'', xb_size = 2\<rparr>"

definition pagebuffers_init :: xbuf where
  "pagebuffers_init = \<lparr>xb_text = ''[]'', xb_size = 3\<rparr>"

text \<open>\<open>strncat(buf, str, 254)\<close>: at most 254 bytes and a null are appended, wherever the text of the buffer ends.\<close>

definition strncat :: "string \<Rightarrow> string \<Rightarrow> cerr + string" where
  "strncat buf str = (let t = buf @ take 254 str in if length t \<ge> 255 then Inl BufferOverflow else Inr t)"

definition bh_names :: "(bh_flag \<times> string) list" where
  "bh_names =
    [(BH_Uptodate, ''U''), (BH_Dirty, ''D''), (BH_Lock, ''L''), (BH_Req, ''R''), (BH_Mapped, ''M''), (BH_New, ''N''),
     (BH_Async_Read, ''Ar''), (BH_Async_Write, ''Aw''), (BH_Delay, ''De''), (BH_Boundary, ''B''), (BH_Write_EIO, ''Ew''),
     (BH_Unwritten, ''Un''), (BH_Quiet, ''Q''), (BH_Meta, ''Me''), (BH_Prio, ''!''), (BH_Defer_Completion, ''@'')]"

fun check_flags :: "(bh_flag \<Rightarrow> bool) \<Rightarrow> (bh_flag \<times> string) list \<Rightarrow> string \<Rightarrow> cerr + string" where
  "check_flags st [] buf = Inr buf"
| "check_flags st ((flag, str) # fs) buf =
     (if st flag then sbind (strncat buf str) (check_flags st fs) else check_flags st fs buf)"

definition read_buffer_head :: "(bh_flag \<Rightarrow> bool) \<Rightarrow> cerr + xbuf" where
  "read_buffer_head st =
     sbind (check_flags st bh_names ''['') (\<lambda>buf.
     sbind (strncat buf '']'') (\<lambda>buf. Inr \<lparr>xb_text = buf, xb_size = int (length buf)\<rparr>))"

section \<open>The devices\<close>

text \<open>The bytes of a buffer that a read may deliver; what is behind the null is not looked at.\<close>

definition xbuf_bytes :: "xbuf \<Rightarrow> string" where
  "xbuf_bytes b = take (nat (xb_size b)) (xb_text b @ [CHR 0x00])"

definition pagebuffers_read :: "klib \<Rightarrow> nat \<Rightarrow> nat \<Rightarrow> xbuf \<Rightarrow> int \<times> string" where
  "pagebuffers_read K sz pos b = from_buffer K sz pos (xbuf_bytes b)"

definition refcount_read :: "klib \<Rightarrow> nat \<Rightarrow> nat \<Rightarrow> xbuf \<Rightarrow> int \<times> string" where
  "refcount_read K sz pos b = from_buffer K sz pos (xbuf_bytes b)"

text \<open>The result of a write, the offset of the open file and the state after it. \<open>simple_write_to_buffer\<close> moves the offset by
  what it took, and a write that succeeds sets it to its length.\<close>

definition pagebuffers_write :: "klib \<Rightarrow> page_table \<Rightarrow> nat \<Rightarrow> string \<Rightarrow> xbuf \<Rightarrow> cerr + int \<times> nat \<times> xbuf" where
  "pagebuffers_write K pfn_to_page pos inp b =
     (let (count, pfn_buf) = to_buffer K 254 pos inp in
      if count \<le> 0 then Inr (- EINVAL, pos, b)
      else sbind (end_text 255 count pfn_buf) (\<lambda>pfn_buf.
        (case kscan_lu K pfn_buf of
          None \<Rightarrow> Inr (- EINVAL, pos + nat count, b)
        | Some pfn \<Rightarrow> (case pfn_to_page pfn of
              None \<Rightarrow> Inr (- EINVAL, pos + nat count, b)
            | Some pg \<Rightarrow> (case page_buffers pg of
                  Some st \<Rightarrow> sbind (read_buffer_head st) (\<lambda>b. Inr (int (length inp), length inp, b))
                | None \<Rightarrow> Inr (int (length inp), length inp, \<lparr>xb_text = ''[]'', xb_size = 3\<rparr>))))))"

text \<open>\<open>snprintf\<close> into 255 bytes returns the length of the whole text.\<close>

definition refcount_write :: "klib \<Rightarrow> page_table \<Rightarrow> nat \<Rightarrow> string \<Rightarrow> xbuf \<Rightarrow> cerr + int \<times> nat \<times> xbuf" where
  "refcount_write K pfn_to_page pos inp b =
     (let (count, pfn_buf) = to_buffer K 254 pos inp in
      if count \<le> 0 then Inr (- EINVAL, pos, b)
      else sbind (end_text 255 count pfn_buf) (\<lambda>pfn_buf.
        (case kscan_lu K pfn_buf of
          None \<Rightarrow> Inr (- EINVAL, pos + nat count, b)
        | Some pfn \<Rightarrow> (case pfn_to_page pfn of
              None \<Rightarrow> Inr (- EINVAL, pos + nat count, b)
            | Some pg \<Rightarrow>
                let t = fmt_d (page_ref_count pg)
                in Inr (int (length inp), length inp, \<lparr>xb_text = take 254 t, xb_size = int (length t) + 1\<rparr>)))))"

section \<open>The experiment with lists\<close>

text \<open>
  The kernel's lists of objects: \<open>list_entries\<close> is what a walk from the head visits, an object is its \<open>val\<close>. The two heads are numbered.
\<close>

record 'l klists =
  list_new :: 'l
  list_entries :: "'l \<Rightarrow> nat \<Rightarrow> int list"
  list_add_tail :: "int \<Rightarrow> nat \<Rightarrow> 'l \<Rightarrow> 'l"
  list_splice_init :: "nat \<Rightarrow> nat \<Rightarrow> 'l \<Rightarrow> 'l"
  list_del_init :: "int \<Rightarrow> nat \<Rightarrow> 'l \<Rightarrow> 'l"

definition pr_entry :: "int \<Rightarrow> string" where
  "pr_entry v = ''entry: '' @ fmt_d v"

definition pr_list :: "string \<Rightarrow> int list \<Rightarrow> string list" where
  "pr_list title vs = title # map pr_entry vs"

text \<open>\<open>a.prev\<close> is the last entry of the list. The loop ends when the list is empty.\<close>

partial_function (option) drain :: "'l klists \<Rightarrow> nat \<Rightarrow> 'l \<Rightarrow> (string list \<times> 'l) option" where
  "drain L a s =
     (if list_entries L s a = [] then Some ([], s)
      else
        let v = last (list_entries L s a)
        in Option.bind (drain L a (list_del_init L v a s)) (\<lambda>(out, s). Some (pr_entry v # out, s)))"

definition list_exper :: "'l klists \<Rightarrow> (string list \<times> 'l) option" where
  "list_exper L =
     (let a = 0; b = 1;
          s = list_new L;
          s = list_add_tail L 1 a s;
          s = list_add_tail L 2 a s;
          s = list_add_tail L 3 b s;
          s = list_add_tail L 4 b s;
          out = pr_list ''List A:'' (list_entries L s a) @ pr_list ''List B:'' (list_entries L s b);
          s = list_splice_init L b a s;
          out = out @ [''Post splice b-> a''] @ pr_list ''List A:'' (list_entries L s a) @ pr_list ''List B:'' (list_entries L s b)
            @ [''Reverse through list:'']
      in Option.bind (drain L a s) (\<lambda>(rev, s). Some (out @ rev, s)))"

section \<open>Loading the module\<close>

text \<open>What the kernel answers when the module is loaded: the page it hands out, the memory of \<open>kmalloc\<close>, the flags of both, the two orders, the
  results of registering the devices.\<close>

record exper_env =
  page_ok :: bool
  kmalloc_ok :: bool
  page_flags :: u64
  kmalloc_flags :: u64
  hugetlb_order :: nat
  pageblock_ord :: nat
  register :: "string \<Rightarrow> int"

text \<open>The error, the kernel's log, the devices that are registered and the number of allocations that are not released.\<close>

record exper =
  klog :: "string list"
  misc_devs :: "string list"
  kmem_live :: int

definition exper_init :: "'l klists \<Rightarrow> exper_env \<Rightarrow> exper \<Rightarrow> (cerr + int \<times> exper) option" where
  "exper_init L e s = Option.bind (list_exper L) (\<lambda>(out, _).
     let s = s\<lparr>klog := klog s @ out\<rparr> in
     if \<not> page_ok e then Some (Inl NullDeref)
     else
       let s = s\<lparr>klog := klog s @ [''flags = '' @ fmt_lu (page_flags e)]\<rparr> in
       if \<not> kmalloc_ok e then Some (Inl NullDeref)
       else
         let s = s\<lparr>klog := klog s @ [''kmalloc flags = '' @ fmt_lu (kmalloc_flags e),
               ''HUGETLB_PAGE_ORDER = '' @ to_base 10 (hugetlb_order e) @ '', pageblock_order = '' @ to_base 10 (pageblock_ord e)]\<rparr>
         in if register e ''refcount'' \<noteq> 0 then Some (Inr (register e ''refcount'', s))
            else
              let s = s\<lparr>misc_devs := ''refcount'' # misc_devs s\<rparr> in
              if register e ''pagebuffers'' \<noteq> 0 then Some (Inr (register e ''pagebuffers'', s))
              else Some (Inr (0, s\<lparr>misc_devs := ''pagebuffers'' # misc_devs s\<rparr>)))"

definition exper_exit :: "exper \<Rightarrow> exper" where
  "exper_exit s = s\<lparr>misc_devs := filter (\<lambda>d. d \<noteq> ''refcount'' \<and> d \<noteq> ''pagebuffers'') (misc_devs s)\<rparr>"

section \<open>Properties of the devices\<close>

definition bh_text :: "(bh_flag \<Rightarrow> bool) \<Rightarrow> string" where
  "bh_text st = ''['' @ concat (map snd (filter (st \<circ> fst) bh_names)) @ '']''"

lemma check_flags_result:
  assumes "length buf + length (concat (map snd fs)) < 255"
  shows "check_flags st fs buf = Inr (buf @ concat (map snd (filter (st \<circ> fst) fs)))"
  using assms
proof (induction fs arbitrary: buf)
  case (Cons f fs)
  obtain flag str where f: "f = (flag, str)" by fastforce
  have "length str < 255" "length (buf @ str) + length (concat (map snd fs)) < 255" using Cons.prems f by simp_all
  then show ?case using Cons.IH [of "buf @ str"] Cons.IH [of buf] Cons.prems f by (simp add: strncat_def Let_def)
qed simp

lemma concat_filter: "length (concat (map snd (filter P fs))) \<le> length (concat (map snd fs))"
    "set (concat (map snd (filter P fs))) \<subseteq> set (concat (map snd fs))"
  by (induction fs) auto

lemma bh_names_text: "length (concat (map snd bh_names)) = 22" "CHR 0x00 \<notin> set (concat (map snd bh_names))"
  by (simp_all add: bh_names_def)

lemma bh_text_length: "length (bh_text st) \<le> 24"
  using concat_filter(1) [of "st \<circ> fst" bh_names] by (simp add: bh_text_def bh_names_text del: length_concat)

lemma bh_text_no_null: "CHR 0x00 \<notin> set (bh_text st)"
  using concat_filter(2) [of "st \<circ> fst" bh_names] bh_names_text(2) by (auto simp: bh_text_def)

lemma read_buffer_head_result: "read_buffer_head st = Inr \<lparr>xb_text = bh_text st, xb_size = int (length (bh_text st))\<rparr>"
proof -
  note l = bh_names_text(1)
  have c: "check_flags st bh_names ''['' = Inr (''['' @ concat (map snd (filter (st \<circ> fst) bh_names)))"
    by (rule check_flags_result) (simp add: l)
  have "length (bh_text st) < 255" using bh_text_length [of st] by linarith
  then show ?thesis using c by (simp add: read_buffer_head_def strncat_def bh_text_def Let_def)
qed

text \<open>The device as \<open>read-pageflags.c\<close> meets it: \<open>fprintf\<close> only fills a buffer, which is written from the start when the stream is
  flushed; the answer is read from the start.\<close>

definition written :: "cerr + int \<times> nat \<times> xbuf \<Rightarrow> xbuf \<Rightarrow> int \<times> xbuf" where
  "written r b = (case r of Inr (ret, _, b) \<Rightarrow> (ret, b) | Inl _ \<Rightarrow> (- 1, b))"

definition refcount_wr :: "klib \<Rightarrow> page_table \<Rightarrow> string \<Rightarrow> xbuf \<Rightarrow> int \<times> xbuf" where
  "refcount_wr K pages inp b = written (refcount_write K pages 0 inp b) b"

definition pagebuffers_wr :: "klib \<Rightarrow> page_table \<Rightarrow> string \<Rightarrow> xbuf \<Rightarrow> int \<times> xbuf" where
  "pagebuffers_wr K pages inp b = written (pagebuffers_write K pages 0 inp b) b"

definition refcount_device :: "klib \<Rightarrow> page_table \<Rightarrow> xbuf \<Rightarrow> device" where
  "refcount_device K pages b = \<lparr>d_write = \<lambda>_. True, d_reopen = True,
     d_reply = \<lambda>pfn. snd (refcount_read K 4096 0 (fclose_out (refcount_wr K pages) (fmt_lu pfn @ newline) b))\<rparr>"

definition pagebuffers_device :: "klib \<Rightarrow> page_table \<Rightarrow> xbuf \<Rightarrow> device" where
  "pagebuffers_device K pages b = \<lparr>d_write = \<lambda>_. True, d_reopen = True,
     d_reply = \<lambda>pfn. snd (pagebuffers_read K 4096 0 (fclose_out (pagebuffers_wr K pages) (fmt_lu pfn @ newline) b))\<rparr>"

lemma pfn_read:
  assumes "klib_ok K"
  shows "to_buffer K 254 0 (fmt_lu pfn @ newline) = (int (length (fmt_lu pfn @ newline)), fmt_lu pfn @ newline)"
    "kscan_lu K (fmt_lu pfn @ newline) = Some pfn" "0 < int (length (fmt_lu pfn @ newline))"
    "end_text 255 (int (length (fmt_lu pfn @ newline))) (fmt_lu pfn @ newline) = Inr (fmt_lu pfn @ newline)"
  using klib_okD [OF assms] fmt_lu_length [of pfn] end_text_all [of "fmt_lu pfn @ newline" 255] by (simp_all add: newline_def)

lemma refcount_written:
  assumes "klib_ok K"
  shows "refcount_wr K pages (fmt_lu pfn @ newline) b = (case pages pfn of
      None \<Rightarrow> (- EINVAL, b)
    | Some pg \<Rightarrow> (int (length (fmt_lu pfn @ newline)), \<lparr>xb_text = take 254 (fmt_d (page_ref_count pg)), xb_size = int (length (fmt_d (page_ref_count pg))) + 1\<rparr>))"
  using pfn_read [OF assms, of pfn] by (simp add: refcount_wr_def written_def refcount_write_def Let_def split: option.splits)

lemma pagebuffers_written:
  assumes "klib_ok K"
  shows "pagebuffers_wr K pages (fmt_lu pfn @ newline) b = (case pages pfn of
      None \<Rightarrow> (- EINVAL, b)
    | Some pg \<Rightarrow> (int (length (fmt_lu pfn @ newline)), case page_buffers pg of
          None \<Rightarrow> \<lparr>xb_text = ''[]'', xb_size = 3\<rparr>
        | Some st \<Rightarrow> \<lparr>xb_text = bh_text st, xb_size = int (length (bh_text st))\<rparr>))"
  using pfn_read [OF assms, of pfn]
  by (simp add: pagebuffers_wr_def written_def pagebuffers_write_def read_buffer_head_result Let_def split: option.splits)

lemma fclose_dev: "fclose_out wr (fmt_lu pfn @ newline) b = snd (wr (fmt_lu pfn @ newline) b)"
  by (simp add: fclose_out_def fflush_def newline_def split_beta)

lemma xbuf_read:
  assumes "klib_ok K" "length (xb_text b) < 255"
  shows "from_buffer K 4096 0 (xbuf_bytes b) = (int (length (xbuf_bytes b)), xbuf_bytes b)"
proof (rule klib_okD(2) [OF assms(1)])
  show "length (xbuf_bytes b) \<le> 4096" using assms(2) by (simp add: xbuf_bytes_def)
qed

lemma fmt_d_length:
  assumes "- (2 ^ 31) \<le> i" "i < 2 ^ 31"
  shows "length (fmt_d i) \<le> 12"
proof -
  have "nat i < 10 ^ 11" "nat (- i) < 10 ^ 11" using assms by auto
  then have "length (to_base 10 (nat i)) \<le> 11" "length (to_base 10 (nat (- i))) \<le> 11" by (intro to_base_length; simp)+
  then show ?thesis by (simp add: fmt_d_def)
qed

lemma scan_d_fmt_d:
  assumes "- (2 ^ 31) \<le> i" "i < 2 ^ 31"
  shows "scan_d (fmt_d i @ [CHR 0x00]) = Some i"
proof -
  have si: "sint (word_of_int i :: 32 word) = i" using assms by (simp add: signed_of_int signed_take_bit_int_eq_self)
  have z: "\<not> is_space (CHR ''-'')" "\<not> is_digit (CHR 0x00)" by code_simp+
  have t: "takeWhile is_digit (to_base 10 n @ [CHR 0x00]) = to_base 10 n" for n
    using z(2) by (subst takeWhile_append2) (auto dest: dec_digits)
  have h: "is_digit (hd (to_base 10 n))" for n by (rule dec_digits [of _ n]) simp
  have d: "scan_sign (to_base 10 n @ [CHR 0x00]) = (False, to_base 10 n @ [CHR 0x00])"
    "dropWhile is_space (to_base 10 n @ [CHR 0x00]) = to_base 10 n @ [CHR 0x00]" for n
    using is_digit_not_sign [of "hd (to_base 10 n)"] h [of n] by (simp_all add: scan_sign_digit dropWhile_stop hd_append)
  show ?thesis
  proof (cases "i < 0")
    case True
    then show ?thesis using si z(1) by (simp add: scan_d_def fmt_d_def scan_sign_def t base_val_to_base Let_def)
  next
    case False
    then show ?thesis using si by (simp add: scan_d_def fmt_d_def d t base_val_to_base Let_def)
  qed
qed

text \<open>C31. The module and the library together: for a frame the kernel knows, what \<open>get_refcount\<close> returns is the reference count, whatever was asked
  before, and \<open>print_page_buffers\<close> prints the letters of the flags that are set, in the order of the table; its text never fills the
  buffers on either side.\<close>

theorem exper_devices_answer:
  assumes "klib_ok K" "pages pfn = Some pg" "- (2 ^ 31) \<le> page_ref_count pg" "page_ref_count pg < 2 ^ 31"
  shows "get_refcount \<lparr>dev_refcount = Some (refcount_device K pages r), dev_pagebuffers = Some (pagebuffers_device K pages b)\<rparr> pfn
      = Inr (page_ref_count pg)
    \<and> print_page_buffers \<lparr>dev_refcount = Some (refcount_device K pages r), dev_pagebuffers = Some (pagebuffers_device K pages b)\<rparr> pfn
      = Inr (''page_buffers='' @ (case page_buffers pg of None \<Rightarrow> ''[]'' | Some st \<Rightarrow> bh_text st) @ '' '')"
proof
  let ?t = "fmt_d (page_ref_count pg)"
  have l: "length ?t \<le> 12" by (rule fmt_d_length [OF assms(3,4)])
  have "xbuf_bytes \<lparr>xb_text = take 254 ?t, xb_size = int (length ?t) + 1\<rparr> = ?t @ [CHR 0x00]"
    using l by (simp add: xbuf_bytes_def nat_add_distrib)
  then show "get_refcount \<lparr>dev_refcount = Some (refcount_device K pages r), dev_pagebuffers = Some (pagebuffers_device K pages b)\<rparr> pfn
      = Inr (page_ref_count pg)"
    using l scan_d_fmt_d [OF assms(3,4)] xbuf_read [OF assms(1), of "\<lparr>xb_text = take 254 ?t, xb_size = int (length ?t) + 1\<rparr>"]
    by (simp add: get_refcount_def refcount_device_def refcount_read_def fclose_dev refcount_written [OF assms(1)] assms(2))
  define bt where "bt = (case page_buffers pg of None \<Rightarrow> \<lparr>xb_text = ''[]'', xb_size = 3\<rparr>
      | Some st \<Rightarrow> \<lparr>xb_text = bh_text st, xb_size = int (length (bh_text st))\<rparr>)"
  have "length (bh_text st) \<le> 24 \<and> CHR 0x00 \<notin> set (bh_text st) \<and> bh_text st \<noteq> []" for st
    using bh_text_length [of st] bh_text_no_null [of st] by (simp add: bh_text_def)
  then have "length (bh_text st) < 255 \<and> CHR 0x00 \<notin> set (bh_text st) \<and> bh_text st \<noteq> []" for st
    by (meson le_less_trans numeral_less_iff rel_simps)
  then have b: "length (xb_text bt) < 255" "0 < length (xbuf_bytes bt)" "length (xbuf_bytes bt) < 255"
      "takeWhile (\<lambda>c. c \<noteq> CHR 0x00) (xbuf_bytes bt) = (case page_buffers pg of None \<Rightarrow> ''[]'' | Some st \<Rightarrow> bh_text st)"
    by (auto simp: bt_def xbuf_bytes_def less_le_trans le_less_trans takeWhile_eq_all_conv split: option.splits)
  show "print_page_buffers \<lparr>dev_refcount = Some (refcount_device K pages r), dev_pagebuffers = Some (pagebuffers_device K pages b)\<rparr> pfn
      = Inr (''page_buffers='' @ (case page_buffers pg of None \<Rightarrow> ''[]'' | Some st \<Rightarrow> bh_text st) @ '' '')"
    using b xbuf_read [OF assms(1) b(1)]
    by (simp add: print_page_buffers_def pagebuffers_device_def pagebuffers_read_def fclose_dev pagebuffers_written [OF assms(1)] assms(2)
        bt_def [symmetric] Let_def)
qed

theorem exper_devices_answer_witness:
  "get_refcount \<lparr>dev_refcount = Some (refcount_device (sample_klib []) (\<lambda>_. Some \<lparr>page_ref_count = 3, page_buffers = None\<rparr>) refcount_init),
      dev_pagebuffers = Some (pagebuffers_device (sample_klib []) (\<lambda>_. Some \<lparr>page_ref_count = 3, page_buffers = None\<rparr>) pagebuffers_init)\<rparr> 7 = Inr 3"
  using exper_devices_answer [OF sample_klib_ok, of "\<lambda>_. Some \<lparr>page_ref_count = 3, page_buffers = None\<rparr>" 7] by simp

text \<open>A frame number without a page is refused, but the refusal gets lost between \<open>fflush\<close> and \<open>fclose\<close>, and the library takes the
  answer to the last question for the answer to this one.\<close>

theorem exper_stale_answer:
  assumes "klib_ok K" "pages pfn = Some pg" "- (2 ^ 31) \<le> page_ref_count pg" "page_ref_count pg < 2 ^ 31" "pages bad = None"
  shows "get_refcount \<lparr>dev_refcount = Some (refcount_device K pages (snd (refcount_wr K pages (fmt_lu pfn @ newline) r))), dev_pagebuffers = None\<rparr> bad
      = Inr (page_ref_count pg)"
proof -
  let ?t = "fmt_d (page_ref_count pg)"
  have l: "length ?t \<le> 12" by (rule fmt_d_length [OF assms(3,4)])
  have "xbuf_bytes \<lparr>xb_text = take 254 ?t, xb_size = int (length ?t) + 1\<rparr> = ?t @ [CHR 0x00]"
    using l by (simp add: xbuf_bytes_def nat_add_distrib)
  then show ?thesis
    using l scan_d_fmt_d [OF assms(3,4)] xbuf_read [OF assms(1), of "\<lparr>xb_text = take 254 ?t, xb_size = int (length ?t) + 1\<rparr>"]
    by (simp add: get_refcount_def refcount_device_def refcount_read_def fclose_dev refcount_written [OF assms(1)] assms(2,5))
qed

theorem exper_stale_answer_witness:
  "get_refcount \<lparr>dev_refcount = Some (refcount_device (sample_klib []) ((\<lambda>_. None)(7 := Some \<lparr>page_ref_count = 3, page_buffers = None\<rparr>))
      (snd (refcount_wr (sample_klib []) ((\<lambda>_. None)(7 := Some \<lparr>page_ref_count = 3, page_buffers = None\<rparr>)) (fmt_lu 7 @ newline) refcount_init))),
      dev_pagebuffers = None\<rparr> 8 = Inr 3"
  using exper_stale_answer [OF sample_klib_ok, of "(\<lambda>_. None)(7 := Some \<lparr>page_ref_count = 3, page_buffers = None\<rparr>)" 7 _ 8 "[]" refcount_init] by simp

section \<open>The lists\<close>

definition klists_ok :: "'l klists \<Rightarrow> bool" where
  "klists_ok L \<longleftrightarrow> (\<forall>h. list_entries L (list_new L) h = [])
     \<and> (\<forall>s v h h'. (\<forall>j. v \<notin> set (list_entries L s j)) \<longrightarrow>
          list_entries L (list_add_tail L v h s) h' = (if h' = h then list_entries L s h @ [v] else list_entries L s h'))
     \<and> (\<forall>s b a h. a \<noteq> b \<longrightarrow> list_entries L (list_splice_init L b a s) h =
          (if h = a then list_entries L s b @ list_entries L s a else if h = b then [] else list_entries L s h))
     \<and> (\<forall>s v h h'. v \<in> set (list_entries L s h) \<longrightarrow>
          list_entries L (list_del_init L v h s) h' = (if h' = h then remove1 v (list_entries L s h) else list_entries L s h'))"

definition sample_klists :: "(nat \<Rightarrow> int list) klists" where
  "sample_klists = \<lparr>list_new = \<lambda>_. [], list_entries = \<lambda>s h. s h, list_add_tail = \<lambda>v h s. s(h := s h @ [v]),
     list_splice_init = \<lambda>b a s. s(a := s b @ s a, b := []), list_del_init = \<lambda>v h s. s(h := remove1 v (s h))\<rparr>"

lemma sample_klists_ok: "klists_ok sample_klists"
  by (auto simp: klists_ok_def sample_klists_def)

lemma remove1_last: "distinct xs \<Longrightarrow> xs \<noteq> [] \<Longrightarrow> remove1 (last xs) xs = butlast xs"
  by (induction xs) auto

lemma drain_result:
  assumes "klists_ok L" "distinct (list_entries L s a)"
  shows "\<exists>s'. drain L a s = Some (map pr_entry (rev (list_entries L s a)), s') \<and> list_entries L s' a = []"
  using assms(2)
proof (induction "list_entries L s a" arbitrary: s rule: rev_induct)
  case Nil
  then show ?case by (simp add: drain.simps)
next
  case (snoc v vs)
  define s1 where "s1 = list_del_init L v a s"
  have e: "list_entries L s a = vs @ [v]" using snoc.hyps(2) by simp
  then have "v \<in> set (list_entries L s a)" by simp
  then have "list_entries L s1 a = remove1 v (list_entries L s a)" using assms(1) unfolding klists_ok_def s1_def by metis
  then have s1: "list_entries L s1 a = vs" using e snoc.prems by (simp add: remove1_append)
  then obtain s' where "drain L a s1 = Some (map pr_entry (rev vs), s')" "list_entries L s' a = []"
    using snoc.hyps(1) [of s1] snoc.prems e by auto
  then show ?case using e by (subst drain.simps) (simp add: s1_def)
qed

text \<open>Whatever lists the kernel implements with the documented operations, the experiment ends and its log shows the two lists, then the joined list
  with the entries of B in front and B empty, then the entries from last to first.\<close>

theorem list_exper_log:
  assumes "klists_ok L"
  shows "\<exists>s. list_exper L = Some (pr_list ''List A:'' [1, 2] @ pr_list ''List B:'' [3, 4] @ [''Post splice b-> a'']
      @ pr_list ''List A:'' [3, 4, 1, 2] @ pr_list ''List B:'' [] @ [''Reverse through list:''] @ map pr_entry [2, 1, 4, 3], s)
    \<and> list_entries L s 0 = [] "
proof -
  define s1 where "s1 = list_add_tail L 1 0 (list_new L)"
  define s2 where "s2 = list_add_tail L 2 0 s1"
  define s3 where "s3 = list_add_tail L 3 1 s2"
  define s4 where "s4 = list_add_tail L 4 1 s3"
  define s5 where "s5 = list_splice_init L 1 0 s4"
  have new: "list_entries L (list_new L) h = []" for h using assms unfolding klists_ok_def by blast
  have add: "(\<And>j. v \<notin> set (list_entries L s j)) \<Longrightarrow>
      list_entries L (list_add_tail L v h s) h' = (if h' = h then list_entries L s h @ [v] else list_entries L s h')" for v s h h'
    using assms unfolding klists_ok_def by blast
  have e1: "list_entries L s1 h = (if h = 0 then [1] else [])" for h unfolding s1_def by (subst add) (simp_all add: new)
  have e2: "list_entries L s2 h = (if h = 0 then [1, 2] else [])" for h unfolding s2_def by (subst add) (simp_all add: e1)
  have e3: "list_entries L s3 h = (if h = 0 then [1, 2] else if h = 1 then [3] else [])" for h unfolding s3_def by (subst add) (simp_all add: e2)
  have e4: "list_entries L s4 h = (if h = 0 then [1, 2] else if h = 1 then [3, 4] else [])" for h unfolding s4_def by (subst add) (simp_all add: e3)
  have "list_entries L s5 h = (if h = 0 then list_entries L s4 1 @ list_entries L s4 0 else if h = 1 then [] else list_entries L s4 h)" for h
    using assms unfolding klists_ok_def s5_def by (metis zero_neq_one)
  then have e5: "list_entries L s5 0 = [3, 4, 1, 2]" "list_entries L s5 1 = []" by (simp_all add: e4)
  obtain s where "drain L 0 s5 = Some (map pr_entry (rev [3, 4, 1, 2]), s)" "list_entries L s 0 = []"
    using drain_result [OF assms, of s5 0] e5 by auto
  then show ?thesis
    by (simp add: list_exper_def Let_def s1_def [symmetric] s2_def [symmetric] s3_def [symmetric] s4_def [symmetric] s5_def [symmetric] e4 e5 pr_list_def
        del: One_nat_def)
qed

theorem list_exper_log_witness:
  "\<exists>out s. list_exper sample_klists = Some (out, s) \<and> s 0 = []"
  using list_exper_log [OF sample_klists_ok] by (auto simp: sample_klists_def)

section \<open>What the buffers can contain\<close>

text \<open>The type of a buffer of the module: a text that ends within the 255 bytes and a size that counts it with or without its null.\<close>

definition wf_xbuf :: "xbuf \<Rightarrow> bool" where
  "wf_xbuf b \<longleftrightarrow> length (xb_text b) < 255 \<and> CHR 0x00 \<notin> set (xb_text b) \<and> xb_size b \<in> {int (length (xb_text b)), int (length (xb_text b)) + 1}"

datatype exper_write = Write_Refcount nat string | Write_Pagebuffers nat string

text \<open>Writes to the two devices, in any order; the result is the last one's.\<close>

fun exper_writes :: "klib \<Rightarrow> page_table \<Rightarrow> exper_write list \<Rightarrow> xbuf \<times> xbuf \<Rightarrow> cerr + xbuf \<times> xbuf" where
  "exper_writes K pages [] s = Inr s"
| "exper_writes K pages (Write_Refcount pos inp # ws) (r, b) = 
     sbind (refcount_write K pages pos inp r) (\<lambda>(_, _, r). exper_writes K pages ws (r, b))"
| "exper_writes K pages (Write_Pagebuffers pos inp # ws) (r, b) =
     sbind (pagebuffers_write K pages pos inp b) (\<lambda>(_, _, b). exper_writes K pages ws (r, b))"

lemma fmt_d_no_null: "CHR 0x00 \<notin> set (fmt_d i)"
proof -
  have "\<not> is_digit (CHR 0x00)" by code_simp
  then show ?thesis using dec_digits [of "CHR 0x00"] by (auto simp: fmt_d_def)
qed

lemma refcount_write_wf:
  assumes "copies_within K" "\<forall>pfn pg. pages pfn = Some pg \<longrightarrow> - (2 ^ 31) \<le> page_ref_count pg \<and> page_ref_count pg < 2 ^ 31" "wf_xbuf b"
  shows "\<exists>c off b'. refcount_write K pages pos inp b = Inr (c, off, b') \<and> wf_xbuf b'"
proof -
  have w: "wf_xbuf \<lparr>xb_text = take 254 (fmt_d (page_ref_count pg)), xb_size = int (length (fmt_d (page_ref_count pg))) + 1\<rparr>" if "pages pfn = Some pg" for pfn pg
  proof -
    have "length (fmt_d (page_ref_count pg)) \<le> 12" using that assms(2) fmt_d_length by blast
    then show ?thesis using fmt_d_no_null by (simp add: wf_xbuf_def)
  qed
  obtain count buf where t: "to_buffer K 254 pos inp = (count, buf)" by fastforce
  show ?thesis using w assms(3) t end_text_within [OF assms(1) t, of 255] by (auto simp: refcount_write_def Let_def split: option.splits)
qed

lemma pagebuffers_write_wf:
  assumes "copies_within K" "wf_xbuf b"
  shows "\<exists>c off b'. pagebuffers_write K pages pos inp b = Inr (c, off, b') \<and> wf_xbuf b'"
proof -
  have "wf_xbuf \<lparr>xb_text = bh_text st, xb_size = int (length (bh_text st))\<rparr>" for st
    using bh_text_length [of st] bh_text_no_null [of st] by (simp add: wf_xbuf_def)
  moreover have "wf_xbuf \<lparr>xb_text = ''[]'', xb_size = 3\<rparr>" by (simp add: wf_xbuf_def)
  moreover obtain count buf where t: "to_buffer K 254 pos inp = (count, buf)" by fastforce
  ultimately show ?thesis
    using assms(2) end_text_within [OF assms(1) t, of 255]
    by (auto simp: pagebuffers_write_def read_buffer_head_result Let_def split: option.splits)
qed

text \<open>C32. Whatever is written to the two devices, in any order and at any offset: as long as \<open>simple_write_to_buffer\<close> copies no more
  than it is allowed to, neither the buffer on the stack, with the null that the module puts behind the number, nor the two buffers of the
  module overflow, and these remain texts that end within their 255 bytes, with a size that a read may deliver.\<close>

theorem exper_buffers_typed:
  assumes "copies_within K" "\<forall>pfn pg. pages pfn = Some pg \<longrightarrow> - (2 ^ 31) \<le> page_ref_count pg \<and> page_ref_count pg < 2 ^ 31"
  shows "\<exists>r b. exper_writes K pages ws (refcount_init, pagebuffers_init) = Inr (r, b) \<and> wf_xbuf r \<and> wf_xbuf b"
proof -
  have "\<exists>r' b'. exper_writes K pages ws (r, b) = Inr (r', b') \<and> wf_xbuf r' \<and> wf_xbuf b'" if "wf_xbuf r" "wf_xbuf b" for r b
    using that assms
  proof (induction K pages ws "(r, b)" arbitrary: r b rule: exper_writes.induct)
    case (2 K pages pos inp ws r b)
    obtain c off r' where "refcount_write K pages pos inp r = Inr (c, off, r')" "wf_xbuf r'" using refcount_write_wf [OF 2(4,5,2)] by blast
    then show ?case using 2(1,3,4,5) by simp
  next
    case (3 K pages pos inp ws r b)
    obtain c off b' where "pagebuffers_write K pages pos inp b = Inr (c, off, b')" "wf_xbuf b'" using pagebuffers_write_wf [OF 3(4,3)] by blast
    then show ?case using 3(1,2,4,5) by simp
  qed simp
  moreover have "wf_xbuf refcount_init" "wf_xbuf pagebuffers_init" by (simp_all add: wf_xbuf_def refcount_init_def pagebuffers_init_def)
  ultimately show ?thesis by blast
qed

theorem exper_buffers_typed_witness:
  "\<exists>r b. exper_writes (sample_klib []) (\<lambda>pfn. if pfn = 7 then Some \<lparr>page_ref_count = 3, page_buffers = Some (\<lambda>_. True)\<rparr> else None)
      [Write_Pagebuffers 0 (''7'' @ newline), Write_Refcount 0 (''7'' @ newline)] (refcount_init, pagebuffers_init) = Inr (r, b) \<and> wf_xbuf r \<and> wf_xbuf b"
  by (rule exper_buffers_typed [OF sample_klib_within]) simp

end
