(* ===== verification/Xarray_Dump.thy ===== *)
theory Xarray_Dump
  imports C_Lib
begin

text \<open>
  The module \<open>kernel/xarray/xarray.c\<close>, which stores one entry in an array and shows the nodes the kernel keeps for it, as it is compiled:
  \<open>ADD_SEQUENTIALLY\<close> is not defined. The array after the store is a parameter.
\<close>

section \<open>The array\<close>

text \<open>A slot of a node: empty, a value, another node with its shift and its slots, or an internal entry that is none of these.\<close>

datatype xa_entry = XNull | XZero | XValue u64 | XNode nat "xa_entry list" | XInternal u64

definition NUM_ENTRIES :: nat where "NUM_ENTRIES = 64 * 64 + 1"
definition MAX_DEPTH :: nat where "MAX_DEPTH = 5"

text \<open>\<open>static char buf[MAX_DEPTH][NUM_ENTRIES + 1]\<close>, initially zero. A row keeps what an earlier node left in it.\<close>

type_synonym rows = "string list"

definition rows_init :: rows where
  "rows_init = replicate MAX_DEPTH (replicate (NUM_ENTRIES + 1) (CHR 0x00))"

definition put_char :: "nat \<Rightarrow> nat \<Rightarrow> char \<Rightarrow> rows \<Rightarrow> cerr + rows" where
  "put_char depth offset c buf =
     (if depth < length buf \<and> offset < length (buf ! depth) then Inr (buf[depth := (buf ! depth)[offset := c]]) else Inl OutOfBounds)"

definition row_text :: "nat \<Rightarrow> rows \<Rightarrow> cerr + string" where
  "row_text depth buf =
     (if depth < length buf \<and> CHR 0x00 \<in> set (buf ! depth) then Inr (takeWhile (\<lambda>c. c \<noteq> CHR 0x00) (buf ! depth)) else Inl OutOfBounds)"

definition fmt_02d :: "nat \<Rightarrow> string" where \<comment> \<open>\<open>%02d\<close>\<close>
  "fmt_02d n = pad (CHR ''0'') 2 (to_base 10 n)"

definition node_line :: "nat \<Rightarrow> nat \<Rightarrow> string \<Rightarrow> string" where
  "node_line depth shift text = ''IVG: '' @ to_base 10 depth @ '': '' @ fmt_02d shift @ '': '' @ text"

section \<open>The walk\<close>

text \<open>The loop over the slots has the next offset and the count as arguments; the result is the count, the rows and the log.\<close>

function (sequential) examine_node :: "nat \<Rightarrow> nat \<Rightarrow> xa_entry list \<Rightarrow> rows \<Rightarrow> cerr + nat \<times> rows \<times> string list"
  and examine_slots :: "nat \<Rightarrow> xa_entry list \<Rightarrow> nat \<Rightarrow> nat \<Rightarrow> rows \<Rightarrow> cerr + nat \<times> rows \<times> string list" where
  "examine_node depth shift slots buf =
     sbind (examine_slots depth slots 0 0 buf) (\<lambda>(count, buf, log).
     sbind (row_text depth buf) (\<lambda>text. Inr (count + 1, buf, log @ [node_line depth shift text])))"
| "examine_slots depth [] offset count buf = Inr (count, buf, [])"
| "examine_slots depth (XNull # es) offset count buf =
     sbind (put_char depth offset (CHR ''.'') buf) (\<lambda>buf. examine_slots depth es (offset + 1) count buf)"
| "examine_slots depth (XValue v # es) offset count buf =
     sbind (put_char depth offset (CHR ''*'') buf) (\<lambda>buf. examine_slots depth es (offset + 1) count buf)"
| "examine_slots depth (XNode shift slots # es) offset count buf =
     sbind (put_char depth offset (CHR ''N'') buf) (\<lambda>buf.
     sbind (examine_node (depth + 1) shift slots buf) (\<lambda>(c, buf, log).
     sbind (examine_slots depth es (offset + 1) (count + c) buf) (\<lambda>(count, buf, log'). Inr (count, buf, log @ log'))))"
| "examine_slots depth (e # es) offset count buf = examine_slots depth es offset count buf"
  by pat_completeness auto

termination
  by (relation "measure (\<lambda>x. case x of Inl (depth, shift, slots, buf) \<Rightarrow> 2 * size_list size slots + 1
      | Inr (depth, slots, offset, count, buf) \<Rightarrow> 2 * size_list size slots)") auto

definition examine_xa :: "xa_entry \<Rightarrow> rows \<Rightarrow> cerr + rows \<times> string list" where
  "examine_xa head buf = (case head of
      XNode shift slots \<Rightarrow>
        sbind (examine_node 0 shift slots buf) (\<lambda>(count, buf, log). Inr (buf, log @ [''IVG: num nodes='' @ to_base 10 count]))
    | XInternal w \<Rightarrow> Inr (buf, [''IVG: Unrecognised head value '' @ fmt_lu w @ ''?''])
    | XValue v \<Rightarrow> Inr (buf, [''IVG: [*]''])
    | _ \<Rightarrow> Inr (buf, [''IVG: [.]'']))"

text \<open>\<open>store i v\<close> is the array after \<open>xa_store\<close>.\<close>

definition xarray_init :: "(nat \<Rightarrow> u64 \<Rightarrow> xa_entry) \<Rightarrow> rows \<Rightarrow> cerr + int \<times> rows \<times> string list" where
  "xarray_init store buf =
     sbind (examine_xa (store (NUM_ENTRIES - 1) (of_nat (NUM_ENTRIES - 1))) buf) (\<lambda>(buf, log). Inr (0, buf, log))"

section \<open>What a dump shows\<close>

text \<open>The reference: the lines of a tree, its children first, and the number of its nodes.\<close>

definition slot_char :: "xa_entry \<Rightarrow> char" where
  "slot_char e = (case e of XNull \<Rightarrow> CHR ''.'' | XValue _ \<Rightarrow> CHR ''*'' | _ \<Rightarrow> CHR ''N'')"

fun dump :: "nat \<Rightarrow> xa_entry \<Rightarrow> string list" where
  "dump depth (XNode shift slots) = concat (map (dump (depth + 1)) slots) @ [node_line depth shift (map slot_char slots)]"
| "dump depth e = []"

fun nodes :: "xa_entry \<Rightarrow> nat" where
  "nodes (XNode shift slots) = 1 + sum_list (map nodes slots)"
| "nodes e = 0"

text \<open>The levels of nodes, and trees of which every node has 64 slots and no internal entries.\<close>

fun levels :: "xa_entry \<Rightarrow> nat" where
  "levels (XNode shift slots) = 1 + foldr max (map levels slots) 0"
| "levels e = 0"

fun plain :: "xa_entry \<Rightarrow> bool" where
  "plain (XNode shift slots) \<longleftrightarrow> length slots = 64 \<and> (\<forall>e\<in>set slots. plain e)"
| "plain e \<longleftrightarrow> (case e of XNull \<Rightarrow> True | XValue _ \<Rightarrow> True | _ \<Rightarrow> False)"

definition row_ok :: "string \<Rightarrow> bool" where
  "row_ok r \<longleftrightarrow> length r = NUM_ENTRIES + 1 \<and> (\<forall>i<length r. 64 \<le> i \<longrightarrow> r ! i = CHR 0x00)"

definition rows_ok :: "rows \<Rightarrow> bool" where
  "rows_ok buf \<longleftrightarrow> length buf = MAX_DEPTH \<and> (\<forall>d<MAX_DEPTH. row_ok (buf ! d))"

lemma rows_init_ok: "rows_ok rows_init"
  by (simp add: rows_ok_def row_ok_def rows_init_def)

lemma NUM_ENTRIES_64: "64 < NUM_ENTRIES"
  by (simp add: NUM_ENTRIES_def)

lemma put_char_ok:
  assumes "rows_ok buf" "depth < MAX_DEPTH" "offset < 64"
  shows "\<exists>buf'. put_char depth offset c buf = Inr buf' \<and> rows_ok buf' \<and> (\<forall>d. d \<noteq> depth \<longrightarrow> buf' ! d = buf ! d)
    \<and> buf' ! depth = (buf ! depth)[offset := c]"
proof -
  have l: "length (buf ! depth) = NUM_ENTRIES + 1" "depth < length buf" using assms by (auto simp: rows_ok_def row_ok_def)
  let ?b = "buf[depth := (buf ! depth)[offset := c]]"
  have "put_char depth offset c buf = Inr ?b" using l assms(3) NUM_ENTRIES_64 by (simp add: put_char_def)
  moreover have "rows_ok ?b" using assms l by (auto simp: rows_ok_def row_ok_def nth_list_update)
  ultimately show ?thesis using l by auto
qed

lemma row_text_ok:
  assumes "rows_ok buf" "depth < MAX_DEPTH" "take 64 (buf ! depth) = t" "CHR 0x00 \<notin> set t"
  shows "row_text depth buf = Inr t"
proof -
  have r: "row_ok (buf ! depth)" "depth < length buf" using assms(1,2) by (auto simp: rows_ok_def)
  then have l: "length (buf ! depth) = NUM_ENTRIES + 1" by (simp add: row_ok_def)
  have n: "buf ! depth ! 64 = CHR 0x00" using r l NUM_ENTRIES_64 by (simp add: row_ok_def)
  have b: "buf ! depth = t @ CHR 0x00 # drop (Suc 64) (buf ! depth)"
    using n l NUM_ENTRIES_64 id_take_nth_drop [of 64 "buf ! depth"] unfolding assms(3) n by simp
  have "takeWhile (\<lambda>c. c \<noteq> CHR 0x00) (t @ CHR 0x00 # u) = t" for u
    using assms(4) by (subst takeWhile_append2) auto
  moreover have "CHR 0x00 \<in> set (t @ CHR 0x00 # u)" for u by simp
  ultimately have "takeWhile (\<lambda>c. c \<noteq> CHR 0x00) (buf ! depth) = t" "CHR 0x00 \<in> set (buf ! depth)"
    using b by metis+
  then show ?thesis using r(2) by (simp add: row_text_def)
qed

lemma slot_char_not_null: "slot_char e \<noteq> CHR 0x00"
  by (cases e) (simp_all add: slot_char_def)

lemma levels_le: "depth + foldr max (map levels es) 0 \<le> n \<longleftrightarrow> depth \<le> n \<and> (\<forall>e\<in>set es. depth + levels e \<le> n)"
  by (induction es) auto

lemma take_update: "take k (xs[k := c]) = take k xs"
  by (simp add: take_update_cancel)

lemma take_Suc_update: "k < length xs \<Longrightarrow> take (Suc k) (xs[k := c]) = take k xs @ [c]"
  by (simp add: take_Suc_conv_app_nth)

text \<open>The loop writes the characters of the remaining slots into its row and leaves the rows above alone.\<close>

definition slots_done :: "nat \<Rightarrow> xa_entry list \<Rightarrow> nat \<Rightarrow> nat \<Rightarrow> rows \<Rightarrow> cerr + nat \<times> rows \<times> string list \<Rightarrow> bool" where
  "slots_done depth es offset count buf r \<longleftrightarrow>
     (if \<forall>e\<in>set es. depth + 1 + levels e \<le> MAX_DEPTH
      then \<exists>buf'. r = Inr (count + sum_list (map nodes es), buf', concat (map (dump (depth + 1)) es)) \<and> rows_ok buf'
        \<and> (\<forall>d<depth. buf' ! d = buf ! d) \<and> take 64 (buf' ! depth) = take offset (buf ! depth) @ map slot_char es
      else r = Inl OutOfBounds)"

definition node_done :: "nat \<Rightarrow> nat \<Rightarrow> xa_entry list \<Rightarrow> rows \<Rightarrow> cerr + nat \<times> rows \<times> string list \<Rightarrow> bool" where
  "node_done depth shift slots buf r \<longleftrightarrow>
     (if depth + levels (XNode shift slots) \<le> MAX_DEPTH
      then \<exists>buf'. r = Inr (nodes (XNode shift slots), buf', dump depth (XNode shift slots)) \<and> rows_ok buf' \<and> (\<forall>d<depth. buf' ! d = buf ! d)
      else r = Inl OutOfBounds)"

lemma put_fails: "rows_ok buf \<Longrightarrow> MAX_DEPTH \<le> depth \<Longrightarrow> put_char depth offset c buf = Inl OutOfBounds"
  by (simp add: put_char_def rows_ok_def)

lemma slots_step:
  assumes "rows_ok buf" "depth < MAX_DEPTH" "offset < 64" "levels e = 0" "nodes e = 0" "dump (depth + 1) e = []"
    "\<And>buf'. put_char depth offset (slot_char e) buf = Inr buf' \<Longrightarrow> rows_ok buf' \<Longrightarrow> slots_done depth es (offset + 1) count buf' (f buf')"
  shows "slots_done depth (e # es) offset count buf (sbind (put_char depth offset (slot_char e) buf) f)"
proof -
  obtain buf' where b: "put_char depth offset (slot_char e) buf = Inr buf'" "rows_ok buf'" "\<forall>d. d \<noteq> depth \<longrightarrow> buf' ! d = buf ! d"
    "buf' ! depth = (buf ! depth)[offset := slot_char e]" using put_char_ok [OF assms(1-3)] by blast
  have "offset < length (buf ! depth)" using assms(1-3) NUM_ENTRIES_64 by (auto simp: rows_ok_def row_ok_def)
  then have "take (Suc offset) (buf' ! depth) = take offset (buf ! depth) @ [slot_char e]" using b(4) take_Suc_update by metis
  then show ?thesis using assms(7) [OF b(1,2)] b assms(2,4-6) by (auto simp: slots_done_def)
qed

lemma examine_spec:
  "rows_ok buf \<Longrightarrow> depth \<le> MAX_DEPTH \<Longrightarrow> plain (XNode shift slots) \<Longrightarrow> node_done depth shift slots buf (examine_node depth shift slots buf)"
  "rows_ok buf \<Longrightarrow> depth < MAX_DEPTH \<Longrightarrow> offset + length es = 64 \<Longrightarrow> \<forall>e\<in>set es. plain e \<Longrightarrow>
     slots_done depth es offset count buf (examine_slots depth es offset count buf)"
proof (induction depth shift slots buf and depth es offset count buf rule: examine_node_examine_slots.induct)
  case (1 depth shift slots buf)
  show ?case
  proof (cases "depth < MAX_DEPTH")
    case True
    have d: "slots_done depth slots 0 0 buf (examine_slots depth slots 0 0 buf)" using 1 True by simp
    have lev: "depth + levels (XNode shift slots) \<le> MAX_DEPTH \<longleftrightarrow> (\<forall>e\<in>set slots. depth + 1 + levels e \<le> MAX_DEPTH)"
      using levels_le [of "depth + 1" slots MAX_DEPTH] True by simp
    show ?thesis
    proof (cases "\<forall>e\<in>set slots. depth + 1 + levels e \<le> MAX_DEPTH")
      case c: True
      then obtain buf' where b: "examine_slots depth slots 0 0 buf = Inr (sum_list (map nodes slots), buf', concat (map (dump (depth + 1)) slots))"
        "rows_ok buf'" "\<forall>d<depth. buf' ! d = buf ! d" "take 64 (buf' ! depth) = map slot_char slots"
        using d by (auto simp: slots_done_def)
      have "row_text depth buf' = Inr (map slot_char slots)"
        using row_text_ok [OF b(2) True b(4)] slot_char_not_null by (metis (no_types, lifting) ex_map_conv)
      then show ?thesis using b c lev by (simp add: node_done_def)
    qed (use d lev in \<open>simp add: slots_done_def node_done_def\<close>)
  next
    case False
    then have e: "depth = MAX_DEPTH" using 1 by simp
    obtain e es where s: "slots = e # es" "plain e" using 1 by (cases slots) auto
    then have "examine_slots depth slots 0 0 buf = Inl OutOfBounds"
      using put_fails [OF 1(2)] e by (cases e) auto
    then show ?thesis using e by (simp add: node_done_def)
  qed
next
  case (2 depth offset count buf)
  then show ?case by (simp add: slots_done_def)
next
  case (3 depth es offset count buf)
  show ?case using slots_step [of buf depth offset XNull es count "\<lambda>b. examine_slots depth es (offset + 1) count b"] 3
    by (auto simp: slot_char_def)
next
  case (4 depth v es offset count buf)
  show ?case using slots_step [of buf depth offset "XValue v" es count "\<lambda>b. examine_slots depth es (offset + 1) count b"] 4
    by (auto simp: slot_char_def)
next
  case (5 depth shift slots es offset count buf)
  have o: "offset < 64" using 5 by simp
  obtain b1 where b1: "put_char depth offset (CHR ''N'') buf = Inr b1" "rows_ok b1" "\<forall>d. d \<noteq> depth \<longrightarrow> b1 ! d = buf ! d"
    "b1 ! depth = (buf ! depth)[offset := CHR ''N'']" using put_char_ok [OF 5(3,4) o] by blast
  have n: "node_done (depth + 1) shift slots b1 (examine_node (depth + 1) shift slots b1)"
    using 5 b1 by simp
  show ?case
  proof (cases "depth + 1 + levels (XNode shift slots) \<le> MAX_DEPTH")
    case True
    then obtain b2 where b2: "examine_node (depth + 1) shift slots b1 = Inr (nodes (XNode shift slots), b2, dump (depth + 1) (XNode shift slots))"
      "rows_ok b2" "\<forall>d<depth + 1. b2 ! d = b1 ! d" using n by (auto simp: node_done_def)
    have s: "slots_done depth es (offset + 1) (count + c) b2 (examine_slots depth es (offset + 1) (count + c) b2)" for c
      using 5(2) [OF b2(2)] 5(4-6) by simp
    have "offset < length (buf ! depth)" using 5(3,4) o NUM_ENTRIES_64 by (auto simp: rows_ok_def row_ok_def)
    then have "take (Suc offset) (b2 ! depth) = take offset (buf ! depth) @ [CHR ''N'']" using b1(4) b2(3) take_Suc_update by simp
    moreover have "\<forall>d<depth. b2 ! d = buf ! d" using b1(3) b2(3) by auto
    ultimately show ?thesis using s [of "nodes (XNode shift slots)"] b1 b2 True
      by (auto simp: slots_done_def slot_char_def add.assoc simp del: nodes.simps levels.simps dump.simps examine_node.simps)
  qed (use n b1 in \<open>simp add: node_done_def slots_done_def\<close>)
qed simp_all

text \<open>C33. For every array whose nodes have 64 slots of values, nodes and nothing, the dump is the reference: the lines of the nodes, each after those of
  its children and with one character for each slot, and the number of nodes. It needs at most five levels; a node on the sixth one is
  written behind the end of the rows.\<close>

theorem examine_xa_dump:
  assumes "plain (XNode shift slots)"
  shows "\<exists>buf'. examine_xa (XNode shift slots) rows_init = (if levels (XNode shift slots) \<le> MAX_DEPTH
      then Inr (buf', dump 0 (XNode shift slots) @ [''IVG: num nodes='' @ to_base 10 (nodes (XNode shift slots))]) else Inl OutOfBounds)"
  using examine_spec(1) [OF rows_init_ok _ assms, of 0]
  by (auto simp: node_done_def examine_xa_def simp del: nodes.simps levels.simps dump.simps examine_node.simps split: if_splits)

text \<open>The array of the module: one value at index 4096, so three levels of nodes.\<close>

definition sparse_node :: "nat \<Rightarrow> nat \<Rightarrow> xa_entry \<Rightarrow> xa_entry" where
  "sparse_node shift i e = XNode shift ((replicate 64 XNull)[i := e])"

definition sparse :: xa_entry where
  "sparse = sparse_node 12 1 (sparse_node 6 0 (sparse_node 0 0 (XValue 4096)))"

lemma sparse_node_facts:
  assumes "i < 64" "plain e"
  shows "plain (sparse_node s i e)" "levels (sparse_node s i e) = 1 + levels e" "nodes (sparse_node s i e) = 1 + nodes e"
proof -
  have u: "(replicate 64 XNull)[i := e] = replicate i XNull @ e # replicate (63 - i) XNull"
    using assms(1) by (simp add: upd_conv_take_nth_drop)
  have f: "(max (0 :: nat) ^^ n) x = x" for n x by (induction n) simp_all
  show "plain (sparse_node s i e)" using assms by (auto simp: sparse_node_def dest: set_update_subset_insert [THEN subsetD])
  show "levels (sparse_node s i e) = 1 + levels e" "nodes (sparse_node s i e) = 1 + nodes e"
    by (simp_all add: sparse_node_def u f sum_list_replicate)
qed

theorem examine_xa_dump_witness:
  "\<exists>buf'. examine_xa sparse rows_init = Inr (buf', dump 0 sparse @ [''IVG: num nodes=3''])"
proof -
  have p: "plain sparse" "levels sparse = 3" "nodes sparse = 3" by (simp_all add: sparse_def sparse_node_facts)
  obtain s ss where e: "sparse = XNode s ss" by (simp add: sparse_def sparse_node_def)
  have "to_base 10 3 = ''3''" by code_simp
  then show ?thesis using examine_xa_dump [of s ss] p e by (simp add: MAX_DEPTH_def del: nodes.simps levels.simps dump.simps plain.simps)
qed

end
