(* ===== verification/Read_Progs.thy ===== *)
theory Read_Progs
  imports C_Lib
begin

text \<open>
  Two programs that read files: \<open>simple/read.c\<close>, which reads a whole file with a loop of \<open>read\<close> calls and leaves through labels
  that release what it holds, and \<open>read-pageflags/readahead.c\<close>, which reads a file of 256 pages in steps.
\<close>

section \<open>A whole file\<close>

text \<open>\<open>rd i n\<close> is the answer to the i-th \<open>read\<close>, which asks for \<open>n\<close> bytes: \<open>None\<close> an error, else the bytes, none at the end of the file.\<close>

type_synonym reader = "nat \<Rightarrow> nat \<Rightarrow> string option"

record read_env =
  file_opens :: bool
  stat_size :: "nat option"
  malloc_succeeds :: bool
  answers :: reader

record read_result =
  status :: int
  text_out :: string
  open_files :: int
  live_bufs :: int

text \<open>\<open>None\<close> is a loop that does not end. The result is the buffer with what was read, or \<open>None\<close> after a failed call.\<close>

partial_function (option) read_loop :: "reader \<Rightarrow> nat \<Rightarrow> nat \<Rightarrow> string \<Rightarrow> string option option" where
  "read_loop rd i sz buf = (case rd i (sz - length buf) of
      None \<Rightarrow> Some None
    | Some bytes \<Rightarrow>
        let buf = buf @ bytes
        in if length buf < sz then read_loop rd (i + 1) sz buf else Some (Some buf))"

text \<open>\<open>printf("%s")\<close> stops at the first null byte; one is stored behind the \<open>size\<close> bytes of the file.\<close>

definition upto_null :: "string \<Rightarrow> string" where
  "upto_null bs = takeWhile (\<lambda>c. c \<noteq> CHR 0x00) bs"

definition read_main :: "read_env \<Rightarrow> read_result option" where
  "read_main e =
     (let done = (\<lambda>err out fds bufs. Some \<lparr>status = err, text_out = out, open_files = fds, live_bufs = bufs\<rparr>) in
      if \<not> file_opens e then done 1 [] 0 0
      else (case stat_size e of
          None \<Rightarrow> done 1 [] (1 - 1) 0
        | Some sz \<Rightarrow>
            if sz = 0 then done 0 [] (1 - 1) 0
            else if \<not> malloc_succeeds e then done 1 [] (1 - 1) 0
            else Option.bind (read_loop (answers e) 0 sz []) (\<lambda>r. case r of
                None \<Rightarrow> done 1 [] (1 - 1) (1 - 1)
              | Some buf \<Rightarrow> done 0 (upto_null (buf @ [CHR 0x00])) (1 - 1) (1 - 1))))"

text \<open>A file with these bytes: each call delivers the next ones, at least one and at most as many as asked for, until the end. \<open>sofar i\<close> is how many
  bytes the kernel has delivered before the i-th call.\<close>

definition serves :: "reader \<Rightarrow> (nat \<Rightarrow> nat) \<Rightarrow> string \<Rightarrow> bool" where
  "serves rd sofar bytes \<longleftrightarrow> sofar 0 = 0 \<and> (\<forall>i n. 0 < n \<longrightarrow> sofar i < length bytes \<longrightarrow> n = length bytes - sofar i \<longrightarrow>
     sofar i < sofar (Suc i) \<and> sofar (Suc i) \<le> length bytes \<and> rd i n = Some (take (sofar (Suc i) - sofar i) (drop (sofar i) bytes)))"

lemma read_loop_serves:
  assumes "serves rd sofar bytes" "sofar i < length bytes"
  shows "read_loop rd i (length bytes) (take (sofar i) bytes) = Some (Some bytes)"
  using assms(2)
proof (induction "length bytes - sofar i" arbitrary: i rule: less_induct)
  case less
  have s: "sofar i < sofar (Suc i)" "sofar (Suc i) \<le> length bytes"
    "rd i (length bytes - sofar i) = Some (take (sofar (Suc i) - sofar i) (drop (sofar i) bytes))"
    using assms(1) less.prems unfolding serves_def by (metis zero_less_diff)+
  have t: "take (sofar i) bytes @ take (sofar (Suc i) - sofar i) (drop (sofar i) bytes) = take (sofar (Suc i)) bytes"
    using s(1) take_add [of "sofar i" "sofar (Suc i) - sofar i" bytes] by simp
  show ?case
  proof (cases "sofar (Suc i) < length bytes")
    case True
    have "length bytes - sofar (Suc i) < length bytes - sofar i" using s True by simp
    then show ?thesis using less.hyps [of "Suc i"] less.prems s True by (subst read_loop.simps) (simp add: t)
  next
    case False
    then have "sofar (Suc i) = length bytes" using s(2) by simp
    then show ?thesis using less.prems s by (subst read_loop.simps) (simp add: t)
  qed
qed

lemma upto_null_end: "upto_null (bytes @ [CHR 0x00]) = upto_null bytes"
  by (induction bytes) (simp_all add: upto_null_def)

text \<open>As long as the file has the size it had at \<open>fstat\<close>, the loop ends however the kernel splits the reads, and the program prints the file up
  to its first null byte.\<close>

theorem read_prints_file:
  assumes "file_opens e" "stat_size e = Some (length bytes)" "malloc_succeeds e" "serves (answers e) sofar bytes"
  shows "read_main e = Some \<lparr>status = 0, text_out = upto_null bytes, open_files = 0, live_bufs = 0\<rparr>"
proof (cases "bytes = []")
  case True
  then show ?thesis using assms by (simp add: read_main_def upto_null_def)
next
  case False
  have "sofar 0 = 0" using assms(4) by (simp add: serves_def)
  then have "read_loop (answers e) 0 (length bytes) [] = Some (Some bytes)"
    using read_loop_serves [OF assms(4), of 0] False by simp
  moreover have "upto_null (bytes @ [CHR 0x00]) = upto_null bytes" by (rule upto_null_end)
  ultimately show ?thesis using assms False by (simp add: read_main_def)
qed

text \<open>Reads of three bytes.\<close>

definition by_threes :: "string \<Rightarrow> nat \<Rightarrow> nat" where
  "by_threes bytes i = min (length bytes) (3 * i)"

theorem read_prints_file_witness:
  "read_main \<lparr>file_opens = True, stat_size = Some 8, malloc_succeeds = True,
      answers = \<lambda>i n. Some (take 3 (drop (3 * i) ''abcdefgh''))\<rparr> = Some \<lparr>status = 0, text_out = ''abcdefgh'', open_files = 0, live_bufs = 0\<rparr>"
proof -
  let ?s = "by_threes ''abcdefgh''"
  have v: "?s 0 = 0" "?s 1 = 3" "?s 2 = 6" "?s 3 = 8" by (simp_all add: by_threes_def)
  have "serves (\<lambda>i n. Some (take 3 (drop (3 * i) ''abcdefgh''))) ?s ''abcdefgh''"
    unfolding serves_def
  proof (intro conjI allI impI)
    fix i n :: nat assume "?s i < length ''abcdefgh''"
    then have "i = 0 \<or> i = 1 \<or> i = 2" by (auto simp: by_threes_def)
    then show "?s i < ?s (Suc i)" "?s (Suc i) \<le> length ''abcdefgh''"
      "Some (take 3 (drop (3 * i) ''abcdefgh'')) = Some (take (?s (Suc i) - ?s i) (drop (?s i) ''abcdefgh''))"
      using v by (elim disjE; simp add: numeral_eq_Suc)+
  qed (rule v)
  from read_prints_file [of "\<lparr>file_opens = True, stat_size = Some 8, malloc_succeeds = True,
      answers = \<lambda>i n. Some (take 3 (drop (3 * i) ''abcdefgh''))\<rparr>" "''abcdefgh''" ?s] this
  show ?thesis by (simp add: upto_null_def)
qed

lemma read_loop_needs_progress:
  assumes "read_loop rd i sz buf = Some r"
  shows "(\<forall>j\<ge>i. \<forall>n. rd j n = Some []) \<longrightarrow> \<not> length buf < sz"
proof (rule read_loop.raw_induct [where P = "\<lambda>rd i sz buf r. (\<forall>j\<ge>i. \<forall>n. rd j n = Some []) \<longrightarrow> \<not> length buf < sz", OF _ assms])
  fix f :: "reader \<Rightarrow> nat \<Rightarrow> nat \<Rightarrow> string \<Rightarrow> string option option" and rd i sz buf r
  assume h: "\<And>rd i sz buf r. f rd i sz buf = Some r \<Longrightarrow> (\<forall>j\<ge>i. \<forall>n. rd j n = Some []) \<longrightarrow> \<not> length buf < sz"
    and e: "(case rd i (sz - length buf) of None \<Rightarrow> Some None
        | Some bytes \<Rightarrow> let buf = buf @ bytes in if length buf < sz then f rd (i + 1) sz buf else Some (Some buf)) = Some r"
  show "(\<forall>j\<ge>i. \<forall>n. rd j n = Some []) \<longrightarrow> \<not> length buf < sz"
  proof (intro impI notI)
    assume a: "\<forall>j\<ge>i. \<forall>n. rd j n = Some []" and l: "length buf < sz"
    have "rd i (sz - length buf) = Some []" using a by blast
    then have "f rd (i + 1) sz buf = Some r" using e l by simp
    then show False using h [of rd "i + 1" sz buf r] a l by simp
  qed
qed

lemma read_loop_hangs:
  assumes "\<forall>j\<ge>i. \<forall>n. rd j n = Some []" "length buf < sz"
  shows "read_loop rd i sz buf = None"
  using read_loop_needs_progress [of rd i sz buf] assms by (cases "read_loop rd i sz buf") auto

text \<open>C34. When the file has become shorter after \<open>fstat\<close>, the reads at its end deliver nothing, which the loop takes for progress: the program
  never ends.\<close>

theorem read_hangs_on_truncation:
  assumes "file_opens e" "stat_size e = Some sz" "malloc_succeeds e" "\<forall>i n. answers e i n = (if i = 0 then Some bytes else Some [])" "length bytes < sz"
  shows "read_main e = None"
proof -
  have "read_loop (answers e) 0 sz [] = read_loop (answers e) 1 sz bytes"
    using assms(4,5) by (subst read_loop.simps) simp
  also have "\<dots> = None" by (rule read_loop_hangs) (use assms(4,5) in simp_all)
  finally show ?thesis using assms by (auto simp: read_main_def)
qed

theorem read_hangs_on_truncation_witness:
  "read_main \<lparr>file_opens = True, stat_size = Some 8, malloc_succeeds = True, answers = \<lambda>i n. if i = 0 then Some ''abc'' else Some []\<rparr> = None"
  using read_hangs_on_truncation [of "\<lparr>file_opens = True, stat_size = Some 8, malloc_succeeds = True, answers = \<lambda>i n. if i = 0 then Some ''abc'' else Some []\<rparr>" 8 "''abc''"]
  by simp

text \<open>Whenever the program ends, by whichever label, it has closed the file and released the buffer.\<close>

lemma read_main_releases: "read_main e = Some r \<Longrightarrow> open_files r = 0 \<and> live_bufs r = 0"
  by (auto simp: read_main_def Let_def bind_eq_Some_conv split: if_splits option.splits)

section \<open>Reading ahead\<close>

definition NUM_PAGES :: int where "NUM_PAGES = 256"

text \<open>The arguments after the name of the program, as \<open>atoi\<close> converts them; which of the reads succeed; the page size. The result is the status
  with the reads, each with its offset in the file and its length.\<close>

record ra_env =
  ra_args :: "int list"
  ra_page :: nat
  ra_opens :: bool
  ra_seek :: bool
  ra_read :: "nat \<Rightarrow> bool"

type_synonym reads = "(int \<times> int) list"

definition read_pages :: "ra_env \<Rightarrow> int \<Rightarrow> int \<Rightarrow> reads \<Rightarrow> int + int \<times> reads" where
  "read_pages e pos count rs = (if \<not> ra_read e (length rs) then Inl 1 else Inr (pos + count * 4096, rs @ [(pos, count * 4096)]))"

function iterate_minor :: "ra_env \<Rightarrow> int \<Rightarrow> int \<Rightarrow> int \<Rightarrow> reads \<Rightarrow> int + reads" where
  "iterate_minor e i pos count rs =
     (if count < 1 \<or> NUM_PAGES \<le> i then Inr rs
      else (case read_pages e pos count rs of Inl st \<Rightarrow> Inl st | Inr (pos, rs) \<Rightarrow> iterate_minor e (i + count) pos count rs))"
  by auto
termination by (relation "measure (\<lambda>(e, i, pos, count, rs). nat (NUM_PAGES - i))") auto

declare iterate_minor.simps [simp del]

text \<open>With one argument the whole file is read from its start.\<close>

definition readahead_main :: "ra_env \<Rightarrow> int + reads" where
  "readahead_main e =
     (if length (ra_args e) < 1 then Inl 1
      else
        let do_iterate = (length (ra_args e) = 1);
            offset = (if do_iterate then - 1 else ra_args e ! 0);
            count = (if do_iterate then ra_args e ! 0 else ra_args e ! 1)
        in if count < 1 \<or> NUM_PAGES < count then Inl 1
           else if \<not> do_iterate \<and> (offset < 0 \<or> NUM_PAGES \<le> offset) then Inl 1
           else if \<not> ra_opens e then Inl 1
           else if do_iterate then iterate_minor e 0 0 count []
           else if \<not> ra_seek e then Inl 1
           else (case read_pages e (offset * int (ra_page e)) count [] of Inl st \<Rightarrow> Inl st | Inr (_, rs) \<Rightarrow> Inr rs))"

lemma iterate_minor_covers:
  assumes "1 \<le> count" "\<forall>i. ra_read e i" "pos = i * 4096" "0 \<le> i"
  shows "\<exists>n. iterate_minor e i pos count rs = Inr (rs @ map (\<lambda>j. ((i + int j * count) * 4096, count * 4096)) [0..<n])
    \<and> NUM_PAGES \<le> i + int n * count \<and> (0 < n \<longrightarrow> i + int (n - 1) * count < NUM_PAGES)"
  using assms(3,4)
proof (induction "nat (NUM_PAGES - i)" arbitrary: i pos rs rule: less_induct)
  case less
  show ?case
  proof (cases "NUM_PAGES \<le> i")
    case True
    then show ?thesis by (intro exI [of _ 0]) (simp add: iterate_minor.simps)
  next
    case False
    then have "nat (NUM_PAGES - (i + count)) < nat (NUM_PAGES - i)" "pos + count * 4096 = (i + count) * 4096" "0 \<le> i + count"
      using assms(1) less.prems by (simp_all add: algebra_simps)
    from less.hyps [OF this, of "rs @ [(pos, count * 4096)]"] obtain n where n:
      "iterate_minor e (i + count) (pos + count * 4096) count (rs @ [(pos, count * 4096)])
        = Inr ((rs @ [(pos, count * 4096)]) @ map (\<lambda>j. ((i + count + int j * count) * 4096, count * 4096)) [0..<n])"
      "NUM_PAGES \<le> i + count + int n * count" "0 < n \<longrightarrow> i + count + int (n - 1) * count < NUM_PAGES" by blast
    have m: "map (\<lambda>j. ((i + int j * count) * 4096, count * 4096)) [0..<Suc n]
      = (pos, count * 4096) # map (\<lambda>j. ((i + count + int j * count) * 4096, count * 4096)) [0..<n]"
      using less.prems by (simp add: upt_conv_Cons map_Suc_upt [symmetric] algebra_simps del: upt_Suc)
    have r: "iterate_minor e i pos count rs = Inr (rs @ map (\<lambda>j. ((i + int j * count) * 4096, count * 4096)) [0..<Suc n])"
      unfolding m using n(1) False assms(1,2) by (subst iterate_minor.simps) (simp add: read_pages_def)
    have "0 < Suc n \<longrightarrow> i + int (Suc n - 1) * count < NUM_PAGES" using n(3) False by (cases n) (simp_all add: algebra_simps)
    moreover have "NUM_PAGES \<le> i + int (Suc n) * count" using n(2) by (simp add: algebra_simps)
    ultimately show ?thesis using r by blast
  qed
qed

text \<open>With one argument the reads cover the 256 pages from the start without gaps, and only the last may go beyond them.\<close>

lemma readahead_covers:
  assumes "ra_args e = [count]" "1 \<le> count" "count \<le> NUM_PAGES" "ra_opens e" "\<forall>i. ra_read e i"
  shows "\<exists>n. readahead_main e = Inr (map (\<lambda>j. (int j * count * 4096, count * 4096)) [0..<n])
    \<and> NUM_PAGES \<le> int n * count \<and> (0 < n \<longrightarrow> int (n - 1) * count < NUM_PAGES)"
proof -
  have "readahead_main e = iterate_minor e 0 0 count []" using assms by (simp add: readahead_main_def)
  then show ?thesis using iterate_minor_covers [OF assms(2,5), of 0 0 "[]"] by simp
qed

end
