(* ===== verification/Private_File.thy ===== *)
theory Private_File
  imports Bitwise
begin

text \<open>
  The program \<open>random/private2.c\<close>, which maps a file of ten pages twice, shared and private, and prints the first byte of each page as it
  stores through the mappings and changes the size of the file. The kernel is a parameter: what a load delivers after stores, mappings and
  changes of the size.
\<close>

section \<open>The kernel\<close>

text \<open>\<open>True\<close> is the shared mapping, \<open>False\<close> the private one; an offset is one in the file.\<close>

record 'k fops =
  fstore :: "bool \<Rightarrow> nat \<Rightarrow> char \<Rightarrow> 'k \<Rightarrow> 'k"
  fload :: "bool \<Rightarrow> nat \<Rightarrow> 'k \<Rightarrow> char"
  fsize :: "'k \<Rightarrow> nat"
  fmap :: "bool \<Rightarrow> 'k \<Rightarrow> 'k option"
  fopen_create :: "'k \<Rightarrow> 'k option"
  ftrunc :: "nat \<Rightarrow> 'k \<Rightarrow> 'k option"
  fstat_ok :: "'k \<Rightarrow> bool"
  fpwrite :: "string \<Rightarrow> 'k \<Rightarrow> int \<times> 'k"

section \<open>The program\<close>

text \<open>A step writes text and ends with the next state or with an error.\<close>

type_synonym 'k pstep = "'k \<Rightarrow> string \<times> (cerr + 'k)"

definition andthen :: "'k pstep \<Rightarrow> 'k pstep \<Rightarrow> 'k pstep" where
  "andthen f g k = (case f k of (t, Inl e) \<Rightarrow> (t, Inl e) | (t, Inr k) \<Rightarrow> (let (u, r) = g k in (t @ u, r)))"

fun steps :: "'k pstep list \<Rightarrow> 'k pstep" where
  "steps [] k = ([], Inr k)"
| "steps (f # fs) k = andthen f (steps fs) k"

definition NR_PAGES :: nat where "NR_PAGES = 10"

definition ALIGN_UP :: "u64 \<Rightarrow> u64 \<Rightarrow> u64" where
  "ALIGN_UP from to = (from + to - 1) AND NOT (to - 1)"

definition size_of :: "nat \<Rightarrow> nat" where
  "size_of ps = NR_PAGES * ps"

text \<open>An access through a mapping of \<open>size\<close> bytes: it must lie in the mapping and in the pages of the file.\<close>

definition accessible :: "'k fops \<Rightarrow> nat \<Rightarrow> nat \<Rightarrow> 'k \<Rightarrow> bool" where
  "accessible F ps off k \<longleftrightarrow> off < size_of ps \<and> off < unat (ALIGN_UP (of_nat (fsize F k)) (of_nat ps))"

definition poke :: "'k fops \<Rightarrow> nat \<Rightarrow> bool \<Rightarrow> nat \<Rightarrow> char \<Rightarrow> 'k pstep" where
  "poke F ps sh off c k = ([], if accessible F ps off k then Inr (fstore F sh off c k) else Inl OutOfBounds)"

definition get_fd :: "'k fops \<Rightarrow> nat \<Rightarrow> 'k pstep" where
  "get_fd F ps k = ([], case fopen_create F k of None \<Rightarrow> Inl (Exit 1)
     | Some k \<Rightarrow> (case ftrunc F (size_of ps) k of None \<Rightarrow> Inl (Exit 1) | Some k \<Rightarrow> Inr k))"

text \<open>The counter of \<open>reset_buffer\<close> is an \<open>int\<close>, the size it is compared with an \<open>unsigned long\<close>.\<close>

definition reset_buffer :: "'k fops \<Rightarrow> nat \<Rightarrow> bool \<Rightarrow> 'k pstep" where
  "reset_buffer F ps sh = steps (map (\<lambda>i. poke F ps sh i (CHR ''x'')) [0..<min (size_of ps) (2 ^ 31)]
     @ (if 2 ^ 31 \<le> size_of ps then [\<lambda>k. ([], Inl IntOverflow)] else []))"

definition copy_first_half :: "'k fops \<Rightarrow> nat \<Rightarrow> bool \<Rightarrow> 'k pstep" where
  "copy_first_half F ps sh = steps (map (\<lambda>i. poke F ps sh (i * ps) (CHR ''y'')) [0..<NR_PAGES div 2])"

definition put :: "string \<Rightarrow> 'k pstep" where
  "put t k = (t, Inr k)"

definition print_byte :: "'k fops \<Rightarrow> nat \<Rightarrow> bool \<Rightarrow> nat \<Rightarrow> 'k pstep" where
  "print_byte F ps sh off k = (if accessible F ps off k then ([fload F sh off k], Inr k) else ([], Inl OutOfBounds))"

definition print_buf :: "'k fops \<Rightarrow> nat \<Rightarrow> bool \<Rightarrow> 'k pstep" where
  "print_buf F ps sh k =
     (if \<not> fstat_ok F k then ([], Inl (Exit 1))
      else
        let num_pages = unat (ALIGN_UP (of_nat (fsize F k)) (of_nat ps) div of_nat ps)
        in steps (put (if sh then ''shared:  '' else ''private: '') # map (\<lambda>i. print_byte F ps sh (i * ps)) [0..<num_pages] @ [put [CHR 0x0A]]) k)"

definition PRINT :: "'k fops \<Rightarrow> nat \<Rightarrow> string \<Rightarrow> 'k pstep" where
  "PRINT F ps prefix = steps [put (''--- '' @ prefix @ '' ---'' @ [CHR 0x0A]), print_buf F ps True, print_buf F ps False]"

definition do_overwrite :: "'k fops \<Rightarrow> nat \<Rightarrow> 'k pstep" where
  "do_overwrite F ps k =
     (let (n, k) = fpwrite F (replicate (size_of ps) (CHR ''z'')) k in ([], if n \<noteq> int (size_of ps) then Inl (Exit 1) else Inr k))"

definition map_file :: "'k fops \<Rightarrow> bool \<Rightarrow> 'k pstep" where
  "map_file F sh k = ([], case fmap F sh k of None \<Rightarrow> Inl (Exit 1) | Some k \<Rightarrow> Inr k)"

text \<open>The results of these calls of \<open>ftruncate\<close> are not tested.\<close>

definition try_trunc :: "'k fops \<Rightarrow> nat \<Rightarrow> 'k pstep" where
  "try_trunc F n k = ([], Inr (case ftrunc F n k of None \<Rightarrow> k | Some k \<Rightarrow> k))"

text \<open>\<open>LOOP_PRINT\<close> is defined, so the last loop does not end; \<open>turns\<close> is how many of its turns are looked at.\<close>

definition private2_main :: "'k fops \<Rightarrow> nat \<Rightarrow> nat \<Rightarrow> 'k pstep" where
  "private2_main F ps turns = steps (
     [get_fd F ps, map_file F True, reset_buffer F ps True, map_file F False, PRINT F ps ''init'',
      copy_first_half F ps False, PRINT F ps ''copied private pages'',
      try_trunc F (11 * ps), PRINT F ps ''truncated UP'',
      try_trunc F (5 * ps), try_trunc F (10 * ps), PRINT F ps ''truncated DOWN then back up again'',
      reset_buffer F ps True, copy_first_half F ps False, do_overwrite F ps, PRINT F ps ''after overwrite'']
     @ replicate turns (PRINT F ps ''loop''))"

section \<open>What is known of the kernel\<close>

text \<open>
  Stores and loads, the size after a change, a private mapping that shows the file as it is until a page is written. What a private mapping
  shows after a later change of the file is not specified.
\<close>

definition fops_ok :: "'k fops \<Rightarrow> bool" where
  "fops_ok F \<longleftrightarrow> (\<forall>sh o' c k. fsize F (fstore F sh o' c k) = fsize F k)
     \<and> (\<forall>sh k k'. fmap F sh k = Some k' \<longrightarrow> fsize F k' = fsize F k \<and> (\<forall>i. fload F True i k' = fload F True i k))
     \<and> (\<forall>k k' i. fmap F False k = Some k' \<longrightarrow> fload F False i k' = fload F True i k)
     \<and> (\<forall>n k k'. ftrunc F n k = Some k' \<longrightarrow> fsize F k' = n \<and> (\<forall>i<min n (fsize F k). fload F True i k' = fload F True i k))
     \<and> (\<forall>k i c j. i < fsize F k \<longrightarrow> fload F True j (fstore F True i c k) = (if j = i then c else fload F True j k))
     \<and> (\<forall>k i c j. i < fsize F k \<longrightarrow> fload F False j (fstore F False i c k) = (if j = i then c else fload F False j k))
     \<and> (\<forall>k i c j. i < fsize F k \<longrightarrow> fload F True j (fstore F False i c k) = fload F True j k)"

definition willing :: "'k fops \<Rightarrow> bool" where
  "willing F \<longleftrightarrow> (\<forall>k. fopen_create F k \<noteq> None \<and> fstat_ok F k \<and> (\<forall>sh. fmap F sh k \<noteq> None) \<and> (\<forall>n. ftrunc F n k \<noteq> None))"

section \<open>Running the steps\<close>

lemma andthen_Inr: "f k = (t, Inr k') \<Longrightarrow> andthen f g k = (t @ fst (g k'), snd (g k'))"
  by (simp add: andthen_def split_beta Let_def)

lemma andthen_Inl: "f k = (t, Inl e) \<Longrightarrow> andthen f g k = (t, Inl e)"
  by (simp add: andthen_def)

lemma steps_append: "steps (fs @ gs) k = andthen (steps fs) (steps gs) k"
proof (induction fs arbitrary: k)
  case (Cons f fs)
  show ?case
  proof (cases "f k")
    case (Pair t r)
    then show ?thesis using Cons by (cases r) (simp_all add: andthen_def split_beta Let_def split: prod.splits sum.splits)
  qed
qed (simp add: andthen_def)

lemma steps_pokes:
  assumes "fops_ok F" "\<forall>i\<in>set is. accessible F ps (h i) k"
  shows "steps (map (\<lambda>i. poke F ps sh (h i) c) is) k = ([], Inr (foldl (\<lambda>k i. fstore F sh (h i) c k) k is))"
  using assms(2)
proof (induction "is" arbitrary: k)
  case (Cons i "is")
  have "fsize F (fstore F sh (h i) c k) = fsize F k" using assms(1) by (simp add: fops_ok_def)
  then have "\<forall>j\<in>set is. accessible F ps (h j) (fstore F sh (h i) c k)" using Cons.prems by (simp add: accessible_def)
  from Cons.IH [OF this] show ?case using Cons.prems by (simp add: andthen_def poke_def)
qed simp

lemma stores_size: "fops_ok F \<Longrightarrow> fsize F (foldl (\<lambda>k i. fstore F sh (h i) c k) k is) = fsize F k"
  by (induction "is" arbitrary: k) (simp_all add: fops_ok_def)

lemma store_laws:
  assumes "fops_ok F" "i < fsize F k"
  shows "fload F sh j (fstore F sh i c k) = (if j = i then c else fload F sh j k)"
    "fload F True j (fstore F False i c k) = fload F True j k"
  using assms by (cases sh; simp add: fops_ok_def)+

lemma map_laws:
  assumes "fops_ok F" "fmap F sh k = Some k'"
  shows "fsize F k' = fsize F k" "fload F True i k' = fload F True i k" "\<not> sh \<Longrightarrow> fload F False i k' = fload F True i k"
  using assms by (simp_all add: fops_ok_def)

lemma stores_load:
  assumes "fops_ok F" "\<forall>i\<in>set is. h i < fsize F k"
  shows "fload F sh j (foldl (\<lambda>k i. fstore F sh (h i) c k) k is) = (if j \<in> h ` set is then c else fload F sh j k)"
  using assms(2)
proof (induction "is" arbitrary: k)
  case (Cons i "is")
  have "fsize F (fstore F sh (h i) c k) = fsize F k" using assms(1) by (simp add: fops_ok_def)
  then show ?case using Cons.IH [of "fstore F sh (h i) c k"] Cons.prems store_laws(1) [OF assms(1), of "h i" k] by auto
qed simp

lemma private_stores:
  assumes "fops_ok F" "\<forall>i\<in>set is. h i < fsize F k"
  shows "fload F True j (foldl (\<lambda>k i. fstore F False (h i) c k) k is) = fload F True j k"
  using assms(2)
proof (induction "is" arbitrary: k)
  case (Cons i "is")
  have "fsize F (fstore F False (h i) c k) = fsize F k" using assms(1) by (simp add: fops_ok_def)
  then show ?case using Cons.IH [of "fstore F False (h i) c k"] Cons.prems store_laws(2) [OF assms(1), of "h i" k] by simp
qed simp

lemma ALIGN_UP_pages:
  assumes "k \<le> 30" "n \<le> 100"
  shows "unat (ALIGN_UP (of_nat (n * 2 ^ k)) (of_nat (2 ^ k))) = n * 2 ^ k"
    "unat (ALIGN_UP (of_nat (n * 2 ^ k)) (of_nat (2 ^ k)) div of_nat (2 ^ k)) = n"
proof -
  have k: "(2 :: nat) ^ k \<le> 2 ^ 30" using assms(1) by (rule power_increasing) simp
  have nk: "n * 2 ^ k \<le> 100 * 2 ^ 30" using assms(2) k by (rule mult_le_mono)
  have u: "unat (of_nat (2 ^ k) :: u64) = 2 ^ k" "unat (of_nat (n * 2 ^ k) :: u64) = n * 2 ^ k"
    using k nk by (simp_all only: unat_of_nat) simp_all
  have "(of_nat (n * 2 ^ k) + of_nat (2 ^ k) - 1 :: u64) = of_nat (n * 2 ^ k + (2 ^ k - 1))"
    by (simp only: of_nat_add of_nat_diff [of 1 "2 ^ k"] one_le_power [of 2]) (simp add: algebra_simps)
  then have "unat (of_nat (n * 2 ^ k) + of_nat (2 ^ k) - 1 :: u64) = n * 2 ^ k + (2 ^ k - 1)"
    using k nk by (simp only: unat_of_nat) (subst mod_less; simp)
  then have "unat (align64 (of_nat (n * 2 ^ k) + of_nat (2 ^ k) - 1) (2 ^ k)) = (n * 2 ^ k + (2 ^ k - 1)) div 2 ^ k * 2 ^ k"
    using align64_pow2 [of k] assms(1) by simp
  moreover have "(n * q + (q - 1)) div q = n" if "0 < q" for q :: nat using that by (subst div_mult_self3) simp_all
  then have "(n * 2 ^ k + (2 ^ k - 1)) div 2 ^ k = n" by simp
  ultimately show a: "unat (ALIGN_UP (of_nat (n * 2 ^ k)) (of_nat (2 ^ k))) = n * 2 ^ k" by (simp add: ALIGN_UP_def align64_def)
  show "unat (ALIGN_UP (of_nat (n * 2 ^ k)) (of_nat (2 ^ k)) div of_nat (2 ^ k)) = n"
    unfolding unat_div a u(1) by simp
qed

lemma steps_prints:
  assumes "\<forall>i\<in>set is. accessible F ps (h i) k"
  shows "steps (map (\<lambda>i. print_byte F ps sh (h i)) is) k = (map (\<lambda>i. fload F sh (h i) k) is, Inr k)"
  using assms by (induction "is") (simp_all add: andthen_def print_byte_def)

lemma page_less: "i < n \<Longrightarrow> i * 2 ^ k < n * (2 :: nat) ^ k"
  by simp

lemma accessible_pages:
  assumes "k \<le> 30" "n \<le> 100" "fsize F s = n * 2 ^ k"
  shows "accessible F (2 ^ k) off s \<longleftrightarrow> off < 10 * 2 ^ k \<and> off < n * 2 ^ k"
  using ALIGN_UP_pages(1) [OF assms(1,2)] by (simp add: accessible_def assms(3) size_of_def NR_PAGES_def)

text \<open>A line of \<open>print_buf\<close> for a file of ten pages, and for one of eleven.\<close>

definition line_of :: "'k fops \<Rightarrow> nat \<Rightarrow> bool \<Rightarrow> 'k \<Rightarrow> string" where
  "line_of F ps sh s = (if sh then ''shared:  '' else ''private: '') @ map (\<lambda>i. fload F sh (i * ps) s) [0..<10]"

lemma print_buf_ten:
  assumes "k \<le> 30" "fsize F s = 10 * 2 ^ k" "fstat_ok F s"
  shows "print_buf F (2 ^ k) sh s = (line_of F (2 ^ k) sh s @ [CHR 0x0A], Inr s)"
proof -
  have "steps (map (\<lambda>i. print_byte F (2 ^ k) sh (i * 2 ^ k)) [0..<10]) s = (map (\<lambda>i. fload F sh (i * 2 ^ k) s) [0..<10], Inr s)"
    by (rule steps_prints) (use accessible_pages [OF assms(1) _ assms(2)] in simp)
  then show ?thesis using assms(3) ALIGN_UP_pages(2) [OF assms(1), of 10]
    by (simp add: print_buf_def assms(2) line_of_def Let_def steps_append andthen_def put_def del: upt_rec_numeral)
qed

lemma print_buf_eleven:
  assumes "k \<le> 30" "fsize F s = 11 * 2 ^ k" "fstat_ok F s"
  shows "print_buf F (2 ^ k) sh s = (line_of F (2 ^ k) sh s, Inl OutOfBounds)"
proof -
  have a: "steps (map (\<lambda>i. print_byte F (2 ^ k) sh (i * 2 ^ k)) [0..<10]) s = (map (\<lambda>i. fload F sh (i * 2 ^ k) s) [0..<10], Inr s)"
    by (rule steps_prints) (use accessible_pages [OF assms(1) _ assms(2)] in simp)
  have u: "[0..<11] = [0..<10] @ [10 :: nat]" using upt_Suc_append [of 0 10] by simp
  have "\<not> accessible F (2 ^ k) (10 * 2 ^ k) s" using accessible_pages [OF assms(1) _ assms(2)] by simp
  then show ?thesis using assms(3) ALIGN_UP_pages(2) [OF assms(1), of 11] a
    by (simp add: print_buf_def assms(2) line_of_def Let_def u steps_append andthen_def put_def print_byte_def del: upt_rec_numeral)
qed

text \<open>C35. On every kernel on which all calls succeed the program prints the two mappings before and after its private stores and then reads
  behind the end of its mapping, whatever the size of a page up to 128 MiB, from where on the counter of \<open>reset_buffer\<close> would overflow: it takes the number of pages to print from the size of the file, which is eleven pages by then, but has
  mapped ten.\<close>

theorem private2_overreads:
  assumes "fops_ok F" "willing F" "k \<le> 27"
  shows "private2_main F (2 ^ k) turns s =
    (''--- init ---'' @ [CHR 0x0A] @ ''shared:  xxxxxxxxxx'' @ [CHR 0x0A] @ ''private: xxxxxxxxxx'' @ [CHR 0x0A]
     @ ''--- copied private pages ---'' @ [CHR 0x0A] @ ''shared:  xxxxxxxxxx'' @ [CHR 0x0A] @ ''private: yyyyyxxxxx'' @ [CHR 0x0A]
     @ ''--- truncated UP ---'' @ [CHR 0x0A] @ ''shared:  xxxxxxxxxx'', Inl OutOfBounds)"
proof -
  let ?p = "2 ^ k :: nat"
  have "?p \<le> 2 ^ 27" using assms(3) by (intro power_increasing) simp_all
  then have small: "10 * ?p < 2 ^ 31" by simp
  have k30: "k \<le> 30" using assms(3) by simp
  obtain s1 s2 s3 where s1: "fopen_create F s = Some s1" and s2: "ftrunc F (10 * ?p) s1 = Some s2" and s3: "fmap F True s2 = Some s3"
    using assms(2) unfolding willing_def by (meson option.exhaust)
  define s4 where "s4 = foldl (\<lambda>k i. fstore F True i (CHR ''x'') k) s3 [0..<10 * ?p]"
  obtain s5 where s5: "fmap F False s4 = Some s5" using assms(2) unfolding willing_def by (meson option.exhaust)
  define s6 where "s6 = foldl (\<lambda>k i. fstore F False (i * ?p) (CHR ''y'') k) s5 [0..<5]"
  obtain s7 where s7: "ftrunc F (11 * ?p) s6 = Some s7" using assms(2) unfolding willing_def by (meson option.exhaust)
  have st: "fstat_ok F x" for x using assms(2) by (simp add: willing_def)
  have z2: "fsize F s2 = 10 * ?p" using assms(1) s2 unfolding fops_ok_def by blast
  have z3: "fsize F s3 = 10 * ?p" using map_laws(1) [OF assms(1) s3] z2 by simp
  have z4: "fsize F s4 = 10 * ?p" unfolding s4_def stores_size [OF assms(1)] by (rule z3)
  have z5: "fsize F s5 = 10 * ?p" using map_laws(1) [OF assms(1) s5] z4 by simp
  have z6: "fsize F s6 = 10 * ?p" unfolding s6_def stores_size [OF assms(1)] by (rule z5)
  have z7: "fsize F s7 = 11 * ?p" using assms(1) s7 unfolding fops_ok_def by blast
  have l4: "fload F True i s4 = CHR ''x''" if "i < 10 * ?p" for i
    unfolding s4_def by (subst stores_load [OF assms(1)]) (use that z3 in auto)
  have l5: "fload F sh i s5 = CHR ''x''" if "i < 10 * ?p" for sh i
    using map_laws [OF assms(1) s5] l4 [OF that] by (cases sh) simp_all
  have m5: "\<forall>i\<in>set [0..<5]. i * ?p < fsize F s5" by (simp add: z5)
  have l6: "fload F True i s6 = CHR ''x''" if "i < 10 * ?p" for i
    unfolding s6_def by (subst private_stores [OF assms(1) m5]) (use l5 that in auto)
  have p6: "fload F False (i * ?p) s6 = (if i < 5 then CHR ''y'' else CHR ''x'')" if "i < 10" for i
    unfolding s6_def by (subst stores_load [OF assms(1) m5]) (use l5 that in auto)
  have l7: "fload F True i s7 = CHR ''x''" if i: "i < 10 * ?p" for i
  proof -
    have "i < min (11 * ?p) (fsize F s6)" using i z6 by simp
    then have "fload F True i s7 = fload F True i s6" using assms(1) s7 unfolding fops_ok_def by blast
    then show ?thesis using l6 [OF i] by simp
  qed
  have c: "map f [0..<10] = [f 0, f 1, f 2, f 3, f 4, f 5, f 6, f 7, f 8, f 9]" for f :: "nat \<Rightarrow> char"
  proof -
    have "[0..<10] = [0, 1, 2, 3, 4, 5, 6, 7, 8, 9 :: nat]" by code_simp
    then show ?thesis by simp
  qed
  have w: "line_of F ?p True s5 = ''shared:  xxxxxxxxxx''" "line_of F ?p False s5 = ''private: xxxxxxxxxx''"
    "line_of F ?p True s6 = ''shared:  xxxxxxxxxx''" "line_of F ?p False s6 = ''private: yyyyyxxxxx''"
    "line_of F ?p True s7 = ''shared:  xxxxxxxxxx''"
    unfolding line_of_def c using l5 l6 l7 p6 [of 0] p6 [of 1] p6 [of 2] p6 [of 3] p6 [of 4] p6 [of 5] p6 [of 6] p6 [of 7] p6 [of 8] p6 [of 9] by simp_all
  have e1: "get_fd F ?p s = ([], Inr s2)" using s1 s2 by (simp add: get_fd_def size_of_def NR_PAGES_def)
  have e2: "map_file F True s2 = ([], Inr s3)" "map_file F False s4 = ([], Inr s5)" using s3 s5 by (simp_all add: map_file_def)
  have e3: "reset_buffer F ?p True s3 = ([], Inr s4)"
  proof -
    have "reset_buffer F ?p True = steps (map (\<lambda>i. poke F ?p True i (CHR ''x'')) [0..<10 * ?p])"
      using small by (simp add: reset_buffer_def size_of_def NR_PAGES_def min_def)
    then show ?thesis
      unfolding s4_def by (simp only:) (rule steps_pokes [OF assms(1)], use accessible_pages [OF k30 _ z3] in simp)
  qed
  have e4: "copy_first_half F ?p False s5 = ([], Inr s6)"
    unfolding copy_first_half_def s6_def NR_PAGES_def
    by (subst steps_pokes [OF assms(1)]) (use accessible_pages [OF k30 _ z5] in auto)
  have e5: "try_trunc F (11 * ?p) s6 = ([], Inr s7)" using s7 by (simp add: try_trunc_def)
  have pr: "PRINT F ?p t x = (''--- '' @ t @ '' ---'' @ [CHR 0x0A] @ line_of F ?p True x @ [CHR 0x0A] @ line_of F ?p False x @ [CHR 0x0A], Inr x)"
    if "fsize F x = 10 * ?p" for t x
    using print_buf_ten [OF k30 that st] by (simp add: PRINT_def andthen_def put_def)
  have pr11: "PRINT F ?p t s7 = (''--- '' @ t @ '' ---'' @ [CHR 0x0A] @ line_of F ?p True s7, Inl OutOfBounds)" for t
    using print_buf_eleven [OF k30 z7 st] by (simp add: PRINT_def andthen_def put_def)
  show ?thesis
    by (simp add: private2_main_def andthen_def e1 e2 e3 e4 e5 pr [OF z5] pr [OF z6] pr11 w Let_def)
qed

text \<open>A kernel that behaves so: the bytes of the file and the bytes that the private mapping has for itself, which truncation takes away.\<close>

record sample_file =
  sf_bytes :: "nat \<Rightarrow> char"
  sf_size :: nat
  sf_own :: "nat \<Rightarrow> char option"

definition sample_fops :: "sample_file fops" where
  "sample_fops = \<lparr>fstore = \<lambda>sh i c k. if sh then k\<lparr>sf_bytes := (sf_bytes k)(i := c)\<rparr> else k\<lparr>sf_own := (sf_own k)(i := Some c)\<rparr>,
     fload = \<lambda>sh i k. if sh then sf_bytes k i else (case sf_own k i of None \<Rightarrow> sf_bytes k i | Some c \<Rightarrow> c),
     fsize = sf_size,
     fmap = \<lambda>sh k. Some (if sh then k else k\<lparr>sf_own := (\<lambda>_. None)\<rparr>),
     fopen_create = \<lambda>k. Some k,
     ftrunc = \<lambda>n k. Some (k\<lparr>sf_size := n, sf_bytes := (\<lambda>i. if i < min n (sf_size k) then sf_bytes k i else CHR 0x00),
       sf_own := (\<lambda>i. if i < n then sf_own k i else None)\<rparr>),
     fstat_ok = \<lambda>k. True,
     fpwrite = \<lambda>bs k. (int (length bs), k\<lparr>sf_bytes := (\<lambda>i. if i < length bs then bs ! i else sf_bytes k i)\<rparr>)\<rparr>"

lemma sample_fops_ok: "fops_ok sample_fops" "willing sample_fops"
  by (auto simp: fops_ok_def sample_fops_def willing_def split: option.splits)

theorem private2_overreads_witness:
  "\<exists>t. private2_main sample_fops (2 ^ 12) 0 \<lparr>sf_bytes = \<lambda>_. CHR 0x00, sf_size = 0, sf_own = \<lambda>_. None\<rparr> = (t, Inl OutOfBounds)"
  using private2_overreads [OF sample_fops_ok, of 12 0] by simp

end
