(* ===== verification/Block_File.thy ===== *)
theory Block_File
  imports Read_Pageflags Bitwise
begin

text \<open>
  The program \<open>block_exper/block_vs_file.c\<close>: it finds the first block of a file on its device, maps the first page of the file and that block of
  the device, and stores letters through the two mappings in turn, printing both after each. What the two mappings show after a
  store or an \<open>msync\<close> is up to the kernel, a parameter.
\<close>

section \<open>Blocks\<close>

text \<open>The macros at the two widths they are used at. In the second one the multiple is an \<open>unsigned int\<close>, so the complement is taken in 32 bits.\<close>

definition ROUND_DOWN :: "u64 \<Rightarrow> u64 \<Rightarrow> u64" where
  "ROUND_DOWN val multiple = val AND NOT (multiple - 1)"

definition ROUND_UP :: "u64 \<Rightarrow> u64 \<Rightarrow> u64" where
  "ROUND_UP val multiple = (val + multiple - 1) AND NOT (multiple - 1)"

definition ROUND_UP_32 :: "u64 \<Rightarrow> u32 \<Rightarrow> u64" where
  "ROUND_UP_32 val multiple = (val + ucast multiple - 1) AND ucast (NOT (multiple - 1))"

definition DIV_UP :: "u64 \<Rightarrow> u64 \<Rightarrow> u64" where
  "DIV_UP val multiple = ROUND_UP val multiple div multiple"

definition DIV_UP_32 :: "u64 \<Rightarrow> u32 \<Rightarrow> u64" where
  "DIV_UP_32 val multiple = ROUND_UP_32 val multiple div ucast multiple"

definition next_char :: "char \<Rightarrow> char" where
  "next_char chr = (if \<not> chr_between (CHR ''a'') (CHR ''z'') chr then CHR ''a''
     else if chr = CHR ''z'' then CHR ''a'' else char_of ((of_char chr :: nat) + 1))"

text \<open>\<open>do next = next_char(next) while (next == avoid)\<close>; \<open>None\<close> would be a loop that does not end.\<close>

partial_function (option) next_unlike :: "char \<Rightarrow> char \<Rightarrow> char option" where
  "next_unlike avoid c = (let c = next_char c in if c = avoid then next_unlike avoid c else Some c)"

text \<open>\<open>fibmap\<close> is the answer to \<open>ioctl(FIBMAP)\<close> for a block of the file.\<close>

definition get_block_nums :: "(u64 \<Rightarrow> u64 option) \<Rightarrow> bool \<Rightarrow> u64 \<Rightarrow> u32 \<Rightarrow> cerr + u64 list" where
  "get_block_nums fibmap calloc_ok num_blocks blksize =
     (let sectors_per_block = ucast (blksize div 512) in
      if \<not> calloc_ok then Inl (Exit 1)
      else foldr (\<lambda>i r. sbind r (\<lambda>bs. case fibmap (of_nat i * sectors_per_block) of None \<Rightarrow> Inl (Exit 1) | Some b \<Rightarrow> Inr (b # bs)))
        [0..<unat num_blocks] (Inr []))"

section \<open>The program\<close>

record 'k twin =
  file_text :: "'k \<Rightarrow> string"
  dev_text :: "'k \<Rightarrow> string"
  put_file :: "char \<Rightarrow> 'k \<Rightarrow> 'k"
  put_dev :: "char \<Rightarrow> 'k \<Rightarrow> 'k"
  sync_file :: "'k \<Rightarrow> 'k"
  sync_dev :: "'k \<Rightarrow> 'k"
  proc_files :: "'k \<Rightarrow> procfs"
  flag_devs :: "'k \<Rightarrow> devices"

record blk_env =
  be_args :: nat
  be_path :: string
  be_file :: bool
  be_dev :: bool
  be_stat :: "(u64 \<times> u32) option"
  be_geometry :: "u64 option"
  be_fibmap :: "u64 \<Rightarrow> u64 option"
  be_calloc :: bool
  be_page :: u64
  be_file_map :: "u64 option"
  be_dev_map :: "u64 \<Rightarrow> u64 option"
  be_stack :: string

definition line :: "string \<Rightarrow> string" where
  "line t = t @ newline"

definition first_chr :: "string \<Rightarrow> char" where
  "first_chr t = (case t of [] \<Rightarrow> CHR 0x00 | c # _ \<Rightarrow> c)"

text \<open>The results of \<open>print_flags_virt\<close> are not tested.\<close>

definition print_buffers :: "kpf \<Rightarrow> 'k twin \<Rightarrow> blk_env \<Rightarrow> u64 \<Rightarrow> u64 \<Rightarrow> 'k \<Rightarrow> cerr + string" where
  "print_buffers kpf T e file_buf dev_buf k =
     sbind (print_flags_virt kpf (proc_files T k) (flag_devs T k) (be_stack e) file_buf ''file'') (\<lambda>(_, f).
     sbind (print_flags_virt kpf (proc_files T k) (flag_devs T k) (be_stack e) dev_buf ''dev'') (\<lambda>(_, d).
       Inr (''file='' @ file_text T k @ line ''---'' @ ''dev ='' @ dev_text T k @ line ''---'' @ f @ d @ line ''---'')))"

text \<open>What is stored: the letter and through which mapping.\<close>

datatype letter = ToFile char | ToDev char

definition store_letter :: "'k twin \<Rightarrow> letter \<Rightarrow> 'k \<Rightarrow> 'k" where
  "store_letter T l k = (case l of ToFile c \<Rightarrow> put_file T c k | ToDev c \<Rightarrow> put_dev T c k)"

text \<open>The stages after the mappings: what is done to the state and the title of the print that follows. \<open>f0\<close> and \<open>d0\<close> are the letters that are read.\<close>

definition letters_of :: "char \<Rightarrow> (char \<Rightarrow> char) \<Rightarrow> char list option" where
  "letters_of f0 d0 =
     (let n1 = next_char f0 in
      Option.bind (next_unlike n1 (d0 n1)) (\<lambda>m1.
      Option.bind (next_unlike n1 m1) (\<lambda>m2.
      Option.bind (next_unlike m2 n1) (\<lambda>n2.
      Option.bind (next_unlike n2 m2) (\<lambda>m3. Some [n1, m1, m2, n2, m3])))))"

fun stages :: "kpf \<Rightarrow> 'k twin \<Rightarrow> blk_env \<Rightarrow> u64 \<Rightarrow> u64 \<Rightarrow> (('k \<Rightarrow> 'k) \<times> string) list \<Rightarrow> 'k \<Rightarrow> cerr + string" where
  "stages kpf T e file_buf dev_buf [] k = Inr []"
| "stages kpf T e file_buf dev_buf ((f, title) # ss) k =
     sbind (print_buffers kpf T e file_buf dev_buf (f k)) (\<lambda>t.
     sbind (stages kpf T e file_buf dev_buf ss (f k)) (\<lambda>u. Inr (line title @ t @ u)))"

definition chr_quoted :: "char \<Rightarrow> string" where
  "chr_quoted c = [CHR 0x27, c, CHR 0x27]"

definition exper_stages :: "'k twin \<Rightarrow> char list \<Rightarrow> (('k \<Rightarrow> 'k) \<times> string) list" where
  "exper_stages T ls =
     (case ls of [n1, m1, m2, n2, m3] \<Rightarrow>
       [(store_letter T (ToFile n1), ''-- after write to file '' @ chr_quoted n1 @ '' --''),
        (store_letter T (ToDev m1), ''-- after write to dev '' @ chr_quoted m1 @ '' --''),
        (sync_dev T, ''-- after msync DEV --''),
        (store_letter T (ToDev m2) \<circ> sync_file T, ''-- after write to dev '' @ chr_quoted m2 @ '' --''),
        (sync_dev T, ''-- after msync DEV --''),
        (store_letter T (ToFile n2), ''-- after set file_buf to '' @ chr_quoted n2 @ '' --''),
        (store_letter T (ToDev m3) \<circ> sync_file T, ''-- after msync FILE, set dev_buf to '' @ chr_quoted m3 @ '' --'')]
     | _ \<Rightarrow> [])"

text \<open>\<open>None\<close> is a loop that does not end. A division by a block of less than a sector ends the process with a signal, here as an abort.\<close>

definition block_main :: "kpf \<Rightarrow> 'k twin \<Rightarrow> blk_env \<Rightarrow> 'k \<Rightarrow> (cerr + int \<times> string) option" where
  "block_main kpf T e k =
     (if be_args e < 2 \<or> \<not> be_file e \<or> \<not> be_dev e then Some (Inr (1, []))
      else (case be_stat e of None \<Rightarrow> Some (Inr (1, []))
      | Some (st_size, blksize) \<Rightarrow> if blksize = 0 then Some (Inl Abort) else
        let sectors_per_block = ucast (blksize div 512) :: u64;
            num_blocks = DIV_UP_32 st_size blksize;
            size_in_pages = DIV_UP st_size (be_page e)
        in (case be_geometry e of None \<Rightarrow> Some (Inr (1, []))
        | Some start \<Rightarrow>
          if sectors_per_block = 0 then Some (Inl Abort)
          else
            let out = line (be_path e @ '' has '' @ fmt_lu num_blocks @ '' block(s) of size '' @ to_base 10 (unat blksize)
                  @ '', totalling '' @ fmt_lu size_in_pages @ '' pages. Disk starts at '' @ fmt_lu (start div sectors_per_block))
            in if num_blocks = 0 then Some (Inr (1, out))
               else (case get_block_nums (be_fibmap e) (be_calloc e) num_blocks blksize of
                   Inl _ \<Rightarrow> Some (Inr (1, out))
                 | Inr block_nums \<Rightarrow>
                   if hd block_nums = 0 then Some (Inr (1, out))
                   else
                     let out = out @ line (''First LBA is '' @ fmt_lu (hd block_nums)) in
                     (case be_file_map e of None \<Rightarrow> Some (Inr (1, out))
                     | Some file_buf \<Rightarrow>
                       let offset = hd block_nums * be_page e;
                           offset_page_start = ROUND_DOWN offset (be_page e);
                           out = out @ line (''Offset='' @ fmt_lu offset @ '', offset_page_start='' @ fmt_lu offset_page_start
                             @ '', delta='' @ fmt_lu (offset - offset_page_start)) @ line ''---''
                       in (case be_dev_map e offset_page_start of None \<Rightarrow> Some (Inr (1, out))
                       | Some dev_buf \<Rightarrow>
                         let dev_buf = dev_buf + (offset - offset_page_start) in
                         Option.bind (letters_of (first_chr (file_text T k)) (\<lambda>n1. first_chr (dev_text T (put_file T n1 k)))) (\<lambda>ls.
                         Some (sbind (stages kpf T e file_buf dev_buf ((\<lambda>k. k, ''-- read --'') # exper_stages T ls) k) (\<lambda>t. Inr (0, out @ t))))))))))"

section \<open>Letters\<close>

definition lower :: "char \<Rightarrow> bool" where
  "lower c \<longleftrightarrow> chr_between (CHR ''a'') (CHR ''z'') c"

lemma next_char_cases: "next_char c = (if lower c then if c = CHR ''z'' then CHR ''a'' else char_of ((of_char c :: nat) + 1) else CHR ''a'')"
  by (simp add: next_char_def lower_def)

lemma lower_next_char: "lower (next_char c)"
proof (cases "lower c \<and> c \<noteq> CHR ''z''")
  case True
  then have "97 \<le> (of_char c :: nat)" "(of_char c :: nat) \<le> 122" "(of_char c :: nat) \<noteq> 122"
    using of_char_eq_iff [of c "CHR ''z''"] by (auto simp: lower_def chr_between_def)
  then show ?thesis using True by (simp add: next_char_cases) (simp add: lower_def chr_between_def)
next
  case False
  then show ?thesis by (auto simp: next_char_cases lower_def chr_between_def)
qed

lemma next_char_moves: "lower c \<Longrightarrow> next_char c \<noteq> c"
proof (cases "c = CHR ''z''")
  case False
  assume "lower c"
  then have "(of_char c :: nat) \<le> 122" by (simp add: lower_def chr_between_def)
  moreover have "(of_char c :: nat) \<noteq> 122" using False of_char_eq_iff [where 'a = nat, of c "CHR ''z''"] by simp
  ultimately have "(of_char c :: nat) < 122" by simp
  then have "(of_char (char_of ((of_char c :: nat) + 1)) :: nat) = of_char c + 1" by simp
  then have "char_of ((of_char c :: nat) + 1) \<noteq> c" by (metis n_not_Suc_n Suc_eq_plus1)
  then show ?thesis using False \<open>lower c\<close> by (simp add: next_char_cases)
qed (simp add: next_char_cases lower_def chr_between_def)

lemma next_unlike_result: "\<exists>d. next_unlike avoid c = Some d \<and> lower d \<and> d \<noteq> avoid"
proof (cases "next_char c = avoid")
  case True
  then have "next_char avoid \<noteq> avoid" using next_char_moves [of avoid] lower_next_char [of c] by simp
  then have "next_unlike avoid (next_char c) = Some (next_char avoid)" using True by (subst next_unlike.simps) simp
  then show ?thesis using True \<open>next_char avoid \<noteq> avoid\<close> lower_next_char by (subst next_unlike.simps) simp
qed (subst next_unlike.simps, simp add: lower_next_char)

text \<open>The loops that look for the next letter end. Whatever the two mappings show, every letter that is stored is a lower-case one and differs
  from the one that was last stored through the other mapping, so that each print can tell which store it shows.\<close>

theorem letters_alternate:
  "\<exists>n1 m1 m2 n2 m3. letters_of f0 d0 = Some [n1, m1, m2, n2, m3] \<and> list_all lower [n1, m1, m2, n2, m3]
    \<and> m1 \<noteq> n1 \<and> m2 \<noteq> n1 \<and> n2 \<noteq> m2 \<and> m3 \<noteq> n2"
proof -
  define n1 where "n1 = next_char f0"
  obtain m1 where m1: "next_unlike n1 (d0 n1) = Some m1" "lower m1" "m1 \<noteq> n1" using next_unlike_result by blast
  obtain m2 where m2: "next_unlike n1 m1 = Some m2" "lower m2" "m2 \<noteq> n1" using next_unlike_result by blast
  obtain n2 where n2: "next_unlike m2 n1 = Some n2" "lower n2" "n2 \<noteq> m2" using next_unlike_result by blast
  obtain m3 where m3: "next_unlike n2 m2 = Some m3" "lower m3" "m3 \<noteq> n2" using next_unlike_result by blast
  show ?thesis using m1 m2 n2 m3 lower_next_char [of f0] by (simp add: letters_of_def n1_def [symmetric])
qed

section \<open>Large files\<close>

lemma ROUND_UP_32_spec:
  assumes "k < 32"
  shows "ROUND_UP_32 val (2 ^ k) = take_bit 32 (val + 2 ^ k - 1) AND NOT (mask k)"
proof -
  have m: "(2 ^ k - 1 :: u32) = mask k" by (simp add: mask_eq_exp_minus_1)
  have u: "(ucast (2 ^ k :: u32) :: u64) = 2 ^ k" by (intro bit_eqI) (use assms in \<open>auto simp: bit_simps\<close>)
  have n: "(ucast (NOT (mask k) :: u32) :: u64) = take_bit 32 (NOT (mask k))"
    by (intro bit_eqI) (auto simp: bit_simps)
  show ?thesis unfolding ROUND_UP_32_def u m n
    by (intro bit_eqI) (auto simp: bit_simps)
qed

lemma unat_add_of_nat: "unat (x + of_nat m) = (unat x + m) mod 2 ^ 64" for x :: u64
  by (simp add: unat_word_ariths unat_of_nat mod_add_right_eq)

lemma block_count:
  assumes "k < 32" "unat st_size mod 2 ^ 32 + 2 ^ k \<le> 2 ^ 32"
  shows "unat (DIV_UP_32 st_size (2 ^ k)) = (unat st_size mod 2 ^ 32 + 2 ^ k - 1) div 2 ^ k"
proof -
  let ?m = "2 ^ k - 1 :: nat"
  have k: "(2 :: nat) ^ k < 2 ^ 64" using assms(1) by (intro pow2_lt64) simp
  have u: "(ucast (2 ^ k :: u32) :: u64) = 2 ^ k" by (intro bit_eqI) (use assms(1) in \<open>auto simp: bit_simps\<close>)
  have w: "st_size + 2 ^ k - 1 = st_size + of_nat ?m" by (simp add: of_nat_diff)
  have "unat (st_size + of_nat ?m) = (unat st_size + ?m) mod 2 ^ 64"
    by (rule unat_add_of_nat)
  then have "unat (st_size + of_nat ?m) mod 2 ^ 32 = (unat st_size + ?m) mod 2 ^ 32"
    by (simp only:) (simp add: mod_mod_cancel)
  also have "\<dots> = (unat st_size mod 2 ^ 32 + ?m) mod 2 ^ 32" by (simp only: mod_add_left_eq)
  also have "\<dots> = unat st_size mod 2 ^ 32 + ?m" using assms(2) by (intro mod_less) simp
  finally have t: "unat (take_bit 32 (st_size + 2 ^ k - 1)) = unat st_size mod 2 ^ 32 + ?m"
    unfolding w by (simp only: unsigned_take_bit_eq) (simp only: take_bit_eq_mod)
  have "ROUND_UP_32 st_size (2 ^ k) = align64 (take_bit 32 (st_size + 2 ^ k - 1)) (2 ^ k)"
    using assms(1) by (simp add: ROUND_UP_32_spec align64_def mask_u64)
  then have "unat (ROUND_UP_32 st_size (2 ^ k)) = (unat st_size mod 2 ^ 32 + ?m) div 2 ^ k * 2 ^ k"
    using align64_pow2 [of k] assms(1) t by simp
  moreover have "unat (2 ^ k :: u64) = 2 ^ k" using unat_push1 [of k] assms(1) by (simp add: push_bit_eq_mult)
  ultimately have "unat (DIV_UP_32 st_size (2 ^ k)) = (unat st_size mod 2 ^ 32 + ?m) div 2 ^ k"
    by (simp add: DIV_UP_32_def u unat_div)
  then show ?thesis by simp
qed

text \<open>The number of blocks is right for files below 4 GiB. Of a larger one only the size modulo 4 GiB is taken, as the mask that rounds up has
  32 bits: a file of exactly 4 GiB has no block at all for the program, and it ends with status 1.\<close>

theorem block_count_wraps:
  assumes "k < 32" "unat st_size mod 2 ^ 32 + 2 ^ k \<le> 2 ^ 32"
  shows "unat (DIV_UP_32 st_size (2 ^ k)) = (unat st_size mod 2 ^ 32 + 2 ^ k - 1) div 2 ^ k"
  using assms by (rule block_count)

theorem block_count_wraps_witness:
  "unat (DIV_UP_32 (2 ^ 32) (2 ^ 12)) = 0 \<and> unat (DIV_UP_32 10000 (2 ^ 12)) = 3"
  using block_count_wraps [of 12 "2 ^ 32"] block_count_wraps [of 12 10000] by simp

text \<open>So the program refuses such a file.\<close>

lemma four_gib_refused:
  assumes "2 \<le> be_args e" "be_file e" "be_dev e" "be_stat e = Some (2 ^ 32, 4096)" "be_geometry e = Some start"
  shows "\<exists>out. block_main kpf T e k = Some (Inr (1, out))"
proof -
  have "DIV_UP_32 (2 ^ 32) 4096 = 0" using block_count [of 12 "2 ^ 32"] by (simp add: word_unat_eq_iff)
  then show ?thesis using assms by (simp add: block_main_def Let_def)
qed

end
