(* ===== verification/Fragment.thy ===== *)
theory Fragment
  imports C_Lib "HOL-Library.Multiset"
begin

text \<open>
  The modules \<open>kernel/fragment/fragment.c\<close> and \<open>kernel/fragment2/fragment2.c\<close>, which take all free memory in blocks of 512 pages; the
  first gives back the upper half of each and then asks for large areas. The kernel's allocators are the interface \<open>page_allocator\<close>: which blocks
  of pages and which areas are allocated.
\<close>

section \<open>The allocators\<close>

text \<open>A \<open>struct page\<close> is the number of its frame; \<open>vmalloc_huge\<close> delivers 0 when it fails.\<close>

record 'k page_ops =
  alloc_pages :: "nat \<Rightarrow> 'k \<Rightarrow> (nat \<times> 'k) option"
  split_page :: "nat \<Rightarrow> nat \<Rightarrow> 'k \<Rightarrow> 'k"
  free_pages :: "nat \<Rightarrow> nat \<Rightarrow> 'k \<Rightarrow> 'k"
  vmalloc_huge :: "u64 \<Rightarrow> 'k \<Rightarrow> u64 \<times> 'k"
  vfree :: "u64 \<Rightarrow> 'k \<Rightarrow> 'k"

record 'k frag =
  kernel :: 'k
  frag_pages :: "nat list"
  vaddrs :: "u64 list"
  frag_log :: "string list"

definition NUM_VMALLOCS :: nat where "NUM_VMALLOCS = 100"
definition VMALLOC_SIZE :: u64 where "VMALLOC_SIZE = push_bit (9 + 12) 1"

definition pr :: "string \<Rightarrow> 'k frag \<Rightarrow> 'k frag" where
  "pr t s = s\<lparr>frag_log := frag_log s @ [''IVG: '' @ t]\<rparr>"

section \<open>The first module\<close>

text \<open>\<open>while ((page = alloc_pages(...)))\<close>; \<open>None\<close> is a loop that does not end. \<open>list_add\<close> puts the page at the front.\<close>

partial_function (option) take_all :: "'k page_ops \<Rightarrow> nat \<Rightarrow> 'k frag \<Rightarrow> (nat \<times> 'k frag) option" where
  "take_all A cnt s = (case alloc_pages A 9 (kernel s) of
      None \<Rightarrow> Some (cnt, s)
    | Some (page, k) \<Rightarrow> take_all A (cnt + 1) (s\<lparr>kernel := k, frag_pages := page # frag_pages s\<rparr>))"

definition free_half :: "'k page_ops \<Rightarrow> nat \<Rightarrow> 'k \<Rightarrow> 'k" where
  "free_half A page k = (let buddy = page + 2 ^ 8 in free_pages A buddy 8 (split_page A page 9 k))"

fun vmalloc_loop :: "'k page_ops \<Rightarrow> nat \<Rightarrow> nat \<Rightarrow> 'k frag \<Rightarrow> nat \<times> 'k frag" where
  "vmalloc_loop A 0 cnt s = (cnt, s)"
| "vmalloc_loop A (Suc left) cnt s =
     (let i = NUM_VMALLOCS - Suc left; (v, k) = vmalloc_huge A VMALLOC_SIZE (kernel s);
          s = s\<lparr>kernel := k, vaddrs := (vaddrs s)[i := v]\<rparr>
      in if v = 0 then (cnt, pr ''Unable to vmalloc!'' s) else vmalloc_loop A left (cnt + 1) s)"

definition fragment_init :: "'k page_ops \<Rightarrow> 'k frag \<Rightarrow> (int \<times> 'k frag) option" where
  "fragment_init A s = Option.bind (take_all A 0 s) (\<lambda>(cnt, s).
     let s = pr (to_base 10 cnt @ '' order-9 pages allocated, or '' @ to_base 10 (cnt * 2) @ '' MiB'') s;
         s = s\<lparr>kernel := fold (free_half A) (frag_pages s) (kernel s)\<rparr>;
         s = pr (to_base 10 cnt @ '' order-8 pages freed, or '' @ to_base 10 cnt @ '' MiB'') s;
         (cnt, s) = vmalloc_loop A NUM_VMALLOCS 0 s;
         s = pr (''vmalloc()'' @ [CHR 0x27] @ ''d '' @ to_base 10 cnt @ '' pages of size '' @ fmt_lu VMALLOC_SIZE) s
     in Some (0, s))"

fun vfree_loop :: "'k page_ops \<Rightarrow> nat \<Rightarrow> u64 list \<Rightarrow> 'k \<Rightarrow> nat \<times> 'k" where
  "vfree_loop A i [] k = (i, k)"
| "vfree_loop A i (v # vs) k = (if v = 0 then (i, k) else vfree_loop A (i + 1) vs (vfree A v k))"

definition fragment_exit :: "'k page_ops \<Rightarrow> 'k frag \<Rightarrow> 'k frag" where
  "fragment_exit A s =
     (let s = s\<lparr>kernel := fold (\<lambda>page. free_pages A page 8) (frag_pages s) (kernel s)\<rparr>;
          cnt = length (frag_pages s);
          s = pr (to_base 10 cnt @ '' order-8 pages freed, or '' @ to_base 10 cnt @ '' MiB'') s;
          (i, k) = vfree_loop A 0 (vaddrs s) (kernel s);
          s = s\<lparr>kernel := k\<rparr>
      in pr (''vfreed()'' @ [CHR 0x27] @ ''d '' @ to_base 10 i @ '' pages of size '' @ fmt_lu VMALLOC_SIZE) s)"

section \<open>The second module\<close>

definition fragment2_init :: "'k page_ops \<Rightarrow> 'k frag \<Rightarrow> (int \<times> 'k frag) option" where
  "fragment2_init A s = Option.bind (take_all A 0 s) (\<lambda>(cnt, s).
     Some (0, pr (to_base 10 cnt @ '' order-9 pages allocated, or '' @ to_base 10 (cnt * 2) @ '' MiB'') s))"

definition fragment2_exit :: "'k page_ops \<Rightarrow> 'k frag \<Rightarrow> 'k frag" where
  "fragment2_exit A s =
     (let s = s\<lparr>kernel := fold (\<lambda>page. free_pages A page 9) (frag_pages s) (kernel s)\<rparr>
      in pr (to_base 10 (length (frag_pages s)) @ '' order-9 pages freed'') s)"

section \<open>What is allocated\<close>

definition frames :: "nat \<Rightarrow> nat \<Rightarrow> nat set" where
  "frames page order = {page..<page + 2 ^ order}"

lemma frames_nonempty [simp]: "frames p n \<noteq> {}"
  by (simp add: frames_def)

text \<open>
  The promises. The allocator has a set of blocks, each with its order: a new block shares no frame with one that is there, and there is only so much of it;
  after \<open>split_page\<close> each page is a block of its own, which has to be freed individually; what may be freed is a block, with its order. Nothing is promised of
  a call that frees anything else. Areas are counted.
\<close>

locale page_allocator =
  fixes A :: "'k page_ops" and live :: "'k \<Rightarrow> (nat \<times> nat) set" and areas :: "'k \<Rightarrow> u64 multiset" and room :: "'k \<Rightarrow> nat"
  assumes alloc: "alloc_pages A n k = Some (p, k') \<Longrightarrow> (\<forall>(q, m)\<in>live k. frames q m \<inter> frames p n = {})
      \<and> live k' = insert (p, n) (live k) \<and> areas k' = areas k \<and> room k' < room k"
    and split: "(p, n) \<in> live k \<Longrightarrow> live (split_page A p n k) = live k - {(p, n)} \<union> (\<lambda>q. (q, 0)) ` frames p n \<and> areas (split_page A p n k) = areas k"
    and free: "(p, n) \<in> live k \<Longrightarrow> live (free_pages A p n k) = live k - {(p, n)} \<and> areas (free_pages A p n k) = areas k"
    and valloc: "vmalloc_huge A sz k = (v, k') \<Longrightarrow> live k' = live k \<and> areas k' = (if v = 0 then areas k else add_mset v (areas k))"
    and vrelease: "v \<in># areas k \<Longrightarrow> live (vfree A v k) = live k \<and> areas (vfree A v k) = areas k - {#v#}"
begin

lemma take_all_ends:
  "\<exists>ps k'. take_all A cnt s = Some (cnt + length ps, s\<lparr>kernel := k', frag_pages := ps @ frag_pages s\<rparr>) \<and> alloc_pages A 9 k' = None
    \<and> live k' = live (kernel s) \<union> (\<lambda>p. (p, 9)) ` set ps \<and> distinct ps \<and> areas k' = areas (kernel s)
    \<and> (\<forall>p\<in>set ps. \<forall>(q, m)\<in>live (kernel s). frames q m \<inter> frames p 9 = {})"
proof (induction "room (kernel s)" arbitrary: s cnt rule: less_induct)
  case less
  show ?case
  proof (cases "alloc_pages A 9 (kernel s)")
    case None
    have "s = s\<lparr>kernel := kernel s, frag_pages := [] @ frag_pages s\<rparr>" by simp
    then show ?thesis using None by (intro exI [of _ "[]"] exI [of _ "kernel s"]) (subst take_all.simps, simp)
  next
    case (Some r)
    obtain p k1 where r: "r = (p, k1)" by (cases r)
    note a = alloc [OF Some [unfolded r]]
    let ?s = "s\<lparr>kernel := k1, frag_pages := p # frag_pages s\<rparr>"
    obtain ps k' where i: "take_all A (cnt + 1) ?s = Some (cnt + 1 + length ps, ?s\<lparr>kernel := k', frag_pages := ps @ frag_pages ?s\<rparr>)"
      "alloc_pages A 9 k' = None" "live k' = live k1 \<union> (\<lambda>p. (p, 9)) ` set ps" "distinct ps" "areas k' = areas k1"
      "\<forall>p\<in>set ps. \<forall>(q, m)\<in>live k1. frames q m \<inter> frames p 9 = {}"
      using less.hyps [of ?s "cnt + 1"] a by auto
    have "p \<notin> set ps" using i(6) a by fastforce
    then have "distinct (ps @ [p])" using i(4) by simp
    moreover have "take_all A cnt s = Some (cnt + length (ps @ [p]), s\<lparr>kernel := k', frag_pages := (ps @ [p]) @ frag_pages s\<rparr>)"
      using Some r i(1) by (subst take_all.simps) simp
    moreover have "\<forall>p\<in>set (ps @ [p]). \<forall>(q, m)\<in>live (kernel s). frames q m \<inter> frames p 9 = {}" using i(6) a by auto
    moreover have "live k' = live (kernel s) \<union> (\<lambda>p. (p, 9)) ` set (ps @ [p])" using i(3) a by auto
    ultimately show ?thesis using a i(2,5) by (intro exI [of _ "ps @ [p]"] exI [of _ k'] conjI) auto
  qed
qed

lemma fold_free:
  assumes "distinct ps" "\<forall>p\<in>set ps. (p, n) \<in> live k"
  shows "live (fold (\<lambda>p. free_pages A p n) ps k) = live k - (\<lambda>p. (p, n)) ` set ps \<and> areas (fold (\<lambda>p. free_pages A p n) ps k) = areas k"
  using assms
proof (induction ps arbitrary: k)
  case (Cons p ps)
  let ?k = "free_pages A p n k"
  have f: "live ?k = live k - {(p, n)}" "areas ?k = areas k" using free [of p n k] Cons.prems by auto
  then have "\<forall>q\<in>set ps. (q, n) \<in> live ?k" using Cons.prems by auto
  then show ?case using Cons.IH [of ?k] Cons.prems f by auto
qed simp

lemma vmalloc_loop_result:
  assumes "vaddrs s = vs @ replicate left 0" "0 \<notin> set vs" "length vs + left = NUM_VMALLOCS"
  shows "\<exists>us s'. vmalloc_loop A left cnt s = (cnt + length us, s') \<and> vaddrs s' = vs @ us @ replicate (left - length us) 0 \<and> 0 \<notin> set us
    \<and> live (kernel s') = live (kernel s) \<and> areas (kernel s') = areas (kernel s) + mset us \<and> frag_pages s' = frag_pages s"
  using assms
proof (induction left arbitrary: vs cnt s)
  case 0
  then show ?case by (intro exI [of _ "[]"]) simp
next
  case (Suc left)
  obtain v k where v: "vmalloc_huge A VMALLOC_SIZE (kernel s) = (v, k)" by fastforce
  note w = valloc [OF v]
  have i: "NUM_VMALLOCS - Suc left = length vs" using Suc.prems(3) by simp
  let ?s = "s\<lparr>kernel := k, vaddrs := (vaddrs s)[length vs := v]\<rparr>"
  have u: "vaddrs ?s = vs @ v # replicate left 0" using Suc.prems(1) by (simp add: list_update_append)
  show ?case
  proof (cases "v = 0")
    case True
    then show ?thesis using v w i u by (intro exI [of _ "[]"]) (simp add: Let_def pr_def)
  next
    case False
    have "vaddrs ?s = (vs @ [v]) @ replicate left 0" using u by simp
    moreover have "0 \<notin> set (vs @ [v])" "length (vs @ [v]) + left = NUM_VMALLOCS" using False Suc.prems(2,3) by auto
    ultimately obtain us s' where
      "vmalloc_loop A left (cnt + 1) ?s = (cnt + 1 + length us, s')" "vaddrs s' = (vs @ [v]) @ us @ replicate (left - length us) 0"
      "0 \<notin> set us" "live (kernel s') = live (kernel ?s)" "areas (kernel s') = areas (kernel ?s) + mset us" "frag_pages s' = frag_pages ?s"
      using Suc.IH [of ?s "vs @ [v]" "cnt + 1"] by blast
    then show ?thesis using v w i False by (intro exI [of _ "v # us"]) (simp add: Let_def)
  qed
qed

lemma vfree_loop_result:
  assumes "mset vs \<subseteq># areas k" "0 \<notin> set vs"
  shows "\<exists>k'. vfree_loop A i (vs @ replicate n 0) k = (i + length vs, k') \<and> live k' = live k \<and> areas k' = areas k - mset vs"
  using assms
proof (induction vs arbitrary: i k)
  case Nil
  then show ?case by (cases n) simp_all
next
  case (Cons v vs)
  have v: "v \<in># areas k" using Cons.prems(1) by (auto dest: mset_subset_eqD)
  note w = vrelease [OF v]
  have "mset vs \<subseteq># areas (vfree A v k)" using Cons.prems(1) w by (simp add: insert_subset_eq_iff)
  from Cons.IH [OF this, of "i + 1"] Cons.prems(2) w show ?case by auto
qed

lemma areas_given_back:
  assumes "vaddrs s = replicate NUM_VMALLOCS 0" "vmalloc_loop A NUM_VMALLOCS cnt s = (cnt', s')"
  shows "areas (snd (vfree_loop A 0 (vaddrs s') (kernel s'))) = areas (kernel s) \<and> live (snd (vfree_loop A 0 (vaddrs s') (kernel s'))) = live (kernel s)"
proof -
  obtain us where u: "vaddrs s' = us @ replicate (NUM_VMALLOCS - length us) 0" "0 \<notin> set us" "live (kernel s') = live (kernel s)"
    "areas (kernel s') = areas (kernel s) + mset us"
    using vmalloc_loop_result [of s "[]" NUM_VMALLOCS cnt] assms by auto
  then show ?thesis using vfree_loop_result [of us "kernel s'" 0 "NUM_VMALLOCS - length us"] by auto
qed

lemma init2_exit:
  assumes "frag_pages s = []"
  shows "\<exists>s'. fragment2_init A s = Some (0, s') \<and> alloc_pages A 9 (kernel s') = None
    \<and> live (kernel s') = live (kernel s) \<union> (\<lambda>p. (p, 9)) ` set (frag_pages s') \<and> live (kernel s) \<inter> (\<lambda>p. (p, 9)) ` set (frag_pages s') = {}
    \<and> live (kernel (fragment2_exit A s')) = live (kernel s) \<and> areas (kernel (fragment2_exit A s')) = areas (kernel s)"
proof -
  obtain ps k1 where t: "take_all A 0 s = Some (length ps, s\<lparr>kernel := k1, frag_pages := ps\<rparr>)" "alloc_pages A 9 k1 = None"
    "live k1 = live (kernel s) \<union> (\<lambda>p. (p, 9)) ` set ps" "distinct ps" "areas k1 = areas (kernel s)"
    "\<forall>p\<in>set ps. \<forall>(q, m)\<in>live (kernel s). frames q m \<inter> frames p 9 = {}"
    using take_all_ends [of 0 s] assms by auto
  have d: "live (kernel s) \<inter> (\<lambda>p. (p, 9)) ` set ps = {}" using t(6) by fastforce
  have "live (fold (\<lambda>p. free_pages A p 9) ps k1) = live (kernel s)" "areas (fold (\<lambda>p. free_pages A p 9) ps k1) = areas (kernel s)"
    using fold_free [OF t(4), of 9 k1] t(3,5) d by auto
  then show ?thesis using t(1-3) d by (auto simp: fragment2_init_def fragment2_exit_def pr_def Let_def)
qed

lemma split_not_block:
  assumes "frag_pages s = []" "alloc_pages A 9 (kernel s) \<noteq> None"
  shows "\<exists>p ps k. take_all A 0 s = Some (length (p # ps), s\<lparr>kernel := k, frag_pages := p # ps\<rparr>)
    \<and> (p + 2 ^ 8, 8) \<notin> live (split_page A p 9 k) \<and> (\<forall>q\<in>frames (p + 2 ^ 8) 8. (q, 0) \<in> live (split_page A p 9 k))"
proof -
  obtain ps k1 where t: "take_all A 0 s = Some (length ps, s\<lparr>kernel := k1, frag_pages := ps\<rparr>)" "alloc_pages A 9 k1 = None"
    "live k1 = live (kernel s) \<union> (\<lambda>p. (p, 9)) ` set ps" "\<forall>p\<in>set ps. \<forall>(q, m)\<in>live (kernel s). frames q m \<inter> frames p 9 = {}"
    using take_all_ends [of 0 s] assms(1) by auto
  have "ps \<noteq> []"
  proof
    assume "ps = []"
    moreover obtain p k where "alloc_pages A 9 (kernel s) = Some (p, k)" using assms(2) by auto
    moreover have "take_all A 1 (s\<lparr>kernel := k, frag_pages := [p]\<rparr>) \<noteq> Some (0, x)" for x
      using take_all_ends [of 1 "s\<lparr>kernel := k, frag_pages := [p]\<rparr>"] by auto
    ultimately show False using t(1) assms(1) by (subst (asm) take_all.simps) simp
  qed
  then obtain p qs where ps: "ps = p # qs" by (cases ps) auto
  have sub: "frames (p + 2 ^ 8) 8 \<subseteq> frames p 9" by (auto simp: frames_def)
  have "(p + 2 ^ 8, 8) \<notin> live (kernel s)"
  proof
    assume "(p + 2 ^ 8, 8) \<in> live (kernel s)"
    then have "frames (p + 2 ^ 8) 8 \<inter> frames p 9 = {}" using t(4) ps by auto
    then show False using sub frames_nonempty [of "p + 2 ^ 8" 8] by blast
  qed
  moreover have "live (split_page A p 9 k1) = live k1 - {(p, 9)} \<union> (\<lambda>q. (q, 0)) ` frames p 9" using split [of p 9 k1] t(3) ps by auto
  ultimately show ?thesis using t(1,3) ps sub by (intro exI [of _ p] exI [of _ qs] exI [of _ k1]) auto
qed

end

section \<open>A sample of the allocators\<close>

text \<open>A number of free blocks, the blocks and areas that are in use; areas are served while there are few.\<close>

record pool =
  pool_free :: nat
  pool_live :: "(nat \<times> nat) set"
  pool_areas :: "u64 multiset"

definition pool_ops :: "pool page_ops" where
  "pool_ops = \<lparr>
     alloc_pages = \<lambda>n k. (let p = (pool_free k - 1) * 512 in
       if pool_free k = 0 \<or> n > 9 \<or> (\<exists>(q, m)\<in>pool_live k. frames q m \<inter> frames p n \<noteq> {}) then None
       else Some (p, k\<lparr>pool_free := pool_free k - 1, pool_live := insert (p, n) (pool_live k)\<rparr>)),
     split_page = \<lambda>p n k. k\<lparr>pool_live := pool_live k - {(p, n)} \<union> (\<lambda>q. (q, 0)) ` frames p n\<rparr>,
     free_pages = \<lambda>p n k. k\<lparr>pool_live := pool_live k - {(p, n)}\<rparr>,
     vmalloc_huge = \<lambda>sz k. if size (pool_areas k) < 2 then (of_nat (4096 * (size (pool_areas k) + 1)), k\<lparr>pool_areas := add_mset (of_nat (4096 * (size (pool_areas k) + 1))) (pool_areas k)\<rparr>)
       else (0, k),
     vfree = \<lambda>v k. k\<lparr>pool_areas := pool_areas k - {#v#}\<rparr>\<rparr>"

interpretation pool: page_allocator pool_ops pool_live pool_areas pool_free
proof
  have z: "(of_nat (4096 * (n + 1)) :: u64) \<noteq> 0" if "n < 2" for n
    using that by (cases n) (auto simp: less_Suc_eq)
  fix n p v sz k k'
  show "alloc_pages pool_ops n k = Some (p, k') \<Longrightarrow> (\<forall>(q, m)\<in>pool_live k. frames q m \<inter> frames p n = {})
      \<and> pool_live k' = insert (p, n) (pool_live k) \<and> pool_areas k' = pool_areas k \<and> pool_free k' < pool_free k"
    by (auto simp: pool_ops_def Let_def split: if_splits)
  show "(p, n) \<in> pool_live k \<Longrightarrow> pool_live (split_page pool_ops p n k) = pool_live k - {(p, n)} \<union> (\<lambda>q. (q, 0)) ` frames p n
      \<and> pool_areas (split_page pool_ops p n k) = pool_areas k"
    by (simp add: pool_ops_def)
  show "(p, n) \<in> pool_live k \<Longrightarrow> pool_live (free_pages pool_ops p n k) = pool_live k - {(p, n)} \<and> pool_areas (free_pages pool_ops p n k) = pool_areas k"
    by (simp add: pool_ops_def)
  show "vmalloc_huge pool_ops sz k = (v, k') \<Longrightarrow> pool_live k' = pool_live k \<and> pool_areas k' = (if v = 0 then pool_areas k else add_mset v (pool_areas k))"
    using z [of "size (pool_areas k)"] by (auto simp: pool_ops_def split: if_splits)
  show "v \<in># pool_areas k \<Longrightarrow> pool_live (vfree pool_ops v k) = pool_live k \<and> pool_areas (vfree pool_ops v k) = pool_areas k - {#v#}"
    by (simp add: pool_ops_def)
qed

section \<open>Properties\<close>

text \<open>C40. Loading \<open>fragment2\<close> ends with the memory: it holds the blocks of 512 pages that it was given, in its list and none of them twice, and there is no other
  one to be had. Unloading it gives each of them back, with the order it was allocated with, and leaves the allocator with what was there before.\<close>

theorem fragment2_balanced:
  assumes "page_allocator A live areas room" "frag_pages s = []"
  shows "\<exists>s'. fragment2_init A s = Some (0, s') \<and> alloc_pages A 9 (kernel s') = None
    \<and> live (kernel s') = live (kernel s) \<union> (\<lambda>p. (p, 9)) ` set (frag_pages s') \<and> live (kernel s) \<inter> (\<lambda>p. (p, 9)) ` set (frag_pages s') = {}
    \<and> live (kernel (fragment2_exit A s')) = live (kernel s) \<and> areas (kernel (fragment2_exit A s')) = areas (kernel s)"
  by (rule page_allocator.init2_exit [OF assms])

definition pool_start :: "pool frag" where
  "pool_start = \<lparr>kernel = \<lparr>pool_free = 3, pool_live = {(5000, 0)}, pool_areas = {#}\<rparr>, frag_pages = [], vaddrs = replicate NUM_VMALLOCS 0, frag_log = []\<rparr>"

theorem fragment2_balanced_witness:
  "\<exists>s'. fragment2_init pool_ops pool_start = Some (0, s') \<and> alloc_pages pool_ops 9 (kernel s') = None
    \<and> pool_live (kernel (fragment2_exit pool_ops s')) = {(5000, 0)}"
  using fragment2_balanced [OF pool.page_allocator_axioms, of pool_start] by (auto simp: pool_start_def)

text \<open>\<open>fragment\<close> does not keep to what \<open>split_page\<close> asks for: the first thing it frees, with order 8, is the upper half of a block it has just split, of which every
  page is a block of its own. What the allocator does then it does not promise, and \<open>fragment_exit\<close> frees the lower halves in the same way.\<close>

theorem fragment_frees_split_pages:
  assumes "page_allocator A live areas room" "frag_pages s = []" "alloc_pages A 9 (kernel s) \<noteq> None"
  shows "\<exists>p ps k. take_all A 0 s = Some (length (p # ps), s\<lparr>kernel := k, frag_pages := p # ps\<rparr>)
    \<and> free_half A p k = free_pages A (p + 2 ^ 8) 8 (split_page A p 9 k)
    \<and> (p + 2 ^ 8, 8) \<notin> live (split_page A p 9 k) \<and> (\<forall>q\<in>frames (p + 2 ^ 8) 8. (q, 0) \<in> live (split_page A p 9 k))"
  using page_allocator.split_not_block [OF assms] by (simp add: free_half_def Let_def)

theorem fragment_frees_split_pages_witness:
  "\<exists>p ps k. take_all pool_ops 0 pool_start = Some (length (p # ps), pool_start\<lparr>kernel := k, frag_pages := p # ps\<rparr>)
    \<and> (p + 2 ^ 8, 8) \<notin> pool_live (split_page pool_ops p 9 k)"
proof -
  have "alloc_pages pool_ops 9 (kernel pool_start) \<noteq> None" by (simp add: pool_ops_def pool_start_def frames_def Let_def)
  then show ?thesis using fragment_frees_split_pages [OF pool.page_allocator_axioms, of pool_start] by (auto simp: pool_start_def)
qed

text \<open>The areas of \<open>fragment\<close>: what \<open>vmalloc_huge\<close> has delivered until it failed is given back by the loop of \<open>fragment_exit\<close>.\<close>

theorem fragment_areas_given_back:
  assumes "page_allocator A live areas room" "vaddrs s = replicate NUM_VMALLOCS 0" "vmalloc_loop A NUM_VMALLOCS cnt s = (cnt', s')"
  shows "areas (snd (vfree_loop A 0 (vaddrs s') (kernel s'))) = areas (kernel s) \<and> live (snd (vfree_loop A 0 (vaddrs s') (kernel s'))) = live (kernel s)"
  by (rule page_allocator.areas_given_back [OF assms])

theorem fragment_areas_given_back_witness:
  "let s' = snd (vmalloc_loop pool_ops NUM_VMALLOCS 0 pool_start) in pool_areas (snd (vfree_loop pool_ops 0 (vaddrs s') (kernel s'))) = {#}"
proof -
  have "vmalloc_loop pool_ops NUM_VMALLOCS 0 pool_start
      = (fst (vmalloc_loop pool_ops NUM_VMALLOCS 0 pool_start), snd (vmalloc_loop pool_ops NUM_VMALLOCS 0 pool_start))" by simp
  from fragment_areas_given_back [OF pool.page_allocator_axioms _ this]
  show ?thesis by (simp add: Let_def pool_start_def)
qed

end
