(* ===== verification/Mremap_Bench.thy ===== *)
theory Mremap_Bench
  imports Range_Prog Bitwise
begin

text \<open>
  The benchmark \<open>random/mremap_bench.c\<close>: it populates a region, moves it with \<open>mremap\<close>, checks the bytes that
  were moved and adds up how long the moves took, for many sizes. Floating-point arithmetic is a parameter: how many bytes of a region are
  to be populated and how the totals are printed. The interface of the kernel is extended by the contents of memory.
\<close>

section \<open>The code\<close>

definition PG :: u64 where "PG = push_bit 12 1"
definition MB :: u64 where "MB = push_bit 20 1"
definition NS_PER_SEC :: u64 where "NS_PER_SEC = 1000000000"
definition PMD_SIZE :: u64 where "PMD_SIZE = push_bit 21 1"

record relocate_struct =
  additional_flags :: "mremap_flag list"
  nohuge :: bool
  old_len :: u64
  new_len :: u64
  pop_len :: u64
  align :: u64
  time_ns :: u64

text \<open>A null pointer is 0.\<close>

definition mmap_aligned :: "u64 \<Rightarrow> u64 \<Rightarrow> prot list \<Rightarrow> u64 prog" where
  "mmap_aligned len algn prt =
     (let new_len = len + 2 * algn in
      bnd (call (SMmap 0 new_len prt [MAP_ANON, MAP_PRIVATE])) (\<lambda>ptr.
        if ptr = MAP_FAILED then Return 0
        else if algn = 0 then Return ptr
        else seq (ignore (SMunmap ptr new_len))
          (let new_addr = (ptr + algn) AND NOT (algn - 1) in
           if new_addr > ptr then
             bnd (call (SMmap new_addr len prt [MAP_ANON, MAP_PRIVATE, MAP_FIXED])) (\<lambda>p. if p = MAP_FAILED then Return 0 else Return p)
           else Return ptr)))"

definition map_and_populate_region :: "relocate_struct \<Rightarrow> u64 prog" where
  "map_and_populate_region r =
     bnd (mmap_aligned (old_len r) (align r) [PROT_READ, PROT_WRITE]) (\<lambda>ptr.
       if ptr = 0 then Return 0
       else bnd (if nohuge r then call (SMadvise ptr (old_len r) MADV_NOHUGEPAGE) else Return 0) (\<lambda>e.
         if e \<noteq> 0 then seq (ignore (SMunmap ptr (old_len r))) (Return 0)
         else seq (ignore (SFill ptr (pop_len r) (CHR ''x''))) (Return ptr)))"

definition reserve_region :: "relocate_struct \<Rightarrow> u64 prog" where
  "reserve_region r =
     bnd (mmap_aligned (new_len r) (align r) []) (\<lambda>ptr.
       if ptr = 0 then Return 0
       else bnd (call (SMunmap ptr (new_len r))) (\<lambda>e. if e \<noteq> 0 then Return 0 else Return ptr))"

text \<open>\<open>n\<close> bytes from the \<open>i\<close>-th on.\<close>

fun check_bytes :: "u64 \<Rightarrow> nat \<Rightarrow> nat \<Rightarrow> bool prog" where
  "check_bytes dst i 0 = Return True"
| "check_bytes dst i (Suc n) =
     bnd (call (SLoad (dst + of_nat i))) (\<lambda>c. if c \<noteq> of_char (CHR ''x'') then Return False else check_bytes dst (i + 1) n)"

definition check_move :: "relocate_struct \<Rightarrow> u64 \<Rightarrow> bool prog" where
  "check_move r dst = check_bytes dst 0 (unat (pop_len r))"

definition clock_ns :: "u64 prog" where
  "clock_ns = Sys SClock (\<lambda>(_, tv_sec, tv_nsec). Return (tv_sec * NS_PER_SEC + tv_nsec))"

text \<open>From the two regions on. \<open>None\<close> is the result false, otherwise the time is stored in the structure.\<close>

definition timed_move :: "relocate_struct \<Rightarrow> u64 \<Rightarrow> u64 \<Rightarrow> relocate_struct option prog" where
  "timed_move r src dst =
     bnd clock_ns (\<lambda>start_ns.
     bnd (call (SMremap src (old_len r) (new_len r) ([MREMAP_FIXED, MREMAP_MAYMOVE] @ additional_flags r) dst)) (\<lambda>p.
       if p \<noteq> dst then seq (ignore (SMunmap src (old_len r))) (Return None)
       else bnd clock_ns (\<lambda>end_ns.
         bnd (check_move r dst) (\<lambda>ok.
           if \<not> ok then Return None
           else
             bnd (call (SMadvise dst (new_len r) MADV_PAGEOUT)) (\<lambda>e.
               if e \<noteq> 0 then Return None
               else seq (ignore (SMunmap dst (new_len r))) (Return (Some (r\<lparr>time_ns := end_ns - start_ns\<rparr>))))))))"

definition time_relocate :: "relocate_struct \<Rightarrow> relocate_struct option prog" where
  "time_relocate r =
     bnd (map_and_populate_region r) (\<lambda>src.
       if src = 0 then Return None
       else bnd (reserve_region r) (\<lambda>dst.
         if dst = 0 then seq (ignore (SMunmap src (old_len r))) (Return None)
         else timed_move r src dst))"

definition bench_remap :: "u64 \<Rightarrow> bool \<Rightarrow> u64 \<Rightarrow> bool \<Rightarrow> u64 \<Rightarrow> u64 prog" where
  "bench_remap len relocate pop nohg algn =
     bnd (time_relocate \<lparr>additional_flags = (if relocate then [MREMAP_MUST_RELOCATE_ANON] else []), nohuge = nohg,
         old_len = len, new_len = len, pop_len = pop, align = algn, time_ns = 0\<rparr>)
       (\<lambda>r. case r of None \<Rightarrow> fatal | Some r \<Rightarrow> Return (time_ns r))"

definition remap_normal :: "u64 \<Rightarrow> u64 \<Rightarrow> bool \<Rightarrow> bool \<Rightarrow> u64 prog" where
  "remap_normal len pop nohg algn = bench_remap len False pop nohg (if algn \<and> len \<ge> PMD_SIZE then PMD_SIZE else 0)"

definition remap_relocate :: "u64 \<Rightarrow> u64 \<Rightarrow> bool \<Rightarrow> bool \<Rightarrow> u64 prog" where
  "remap_relocate len pop nohg algn = bench_remap len True pop nohg (if algn \<and> len \<ge> PMD_SIZE then PMD_SIZE else 0)"

text \<open>The totals, with the counter of the loops, which is also what the averages are divided by.\<close>

record totals =
  tot_count :: nat
  tot_normal :: u64
  tot_remap :: u64
  max_normal :: u64
  max_remap :: u64

definition bench_step :: "(u64 \<Rightarrow> u64) \<Rightarrow> bool \<Rightarrow> bool \<Rightarrow> u64 \<Rightarrow> totals \<Rightarrow> totals prog" where
  "bench_step pop nohg algn len t =
     bnd (remap_normal len (pop len) nohg algn) (\<lambda>normal_ns.
     bnd (remap_relocate len (pop len) nohg algn) (\<lambda>remap_ns.
       Return (t\<lparr>max_remap := max (max_remap t) remap_ns, max_normal := max (max_normal t) normal_ns,
         tot_normal := tot_normal t + normal_ns, tot_remap := tot_remap t + remap_ns\<rparr>)))"

function small_sizes :: "(u64 \<Rightarrow> u64) \<Rightarrow> bool \<Rightarrow> bool \<Rightarrow> nat \<Rightarrow> totals \<Rightarrow> totals prog" where
  "small_sizes pop nohg algn count t =
     (if count * unat PG < 2 * unat MB then
        bnd (bench_step pop nohg algn (of_nat count * PG) t) (\<lambda>t. small_sizes pop nohg algn (count + 1) t)
      else Return (t\<lparr>tot_count := count\<rparr>))"
  by auto
termination by (relation "measure (\<lambda>(_, _, _, count, _). 512 - count)") (auto simp: PG_def MB_def)

definition MB_INTERVAL :: nat where "MB_INTERVAL = 100"

function large_sizes :: "(u64 \<Rightarrow> u64) \<Rightarrow> bool \<Rightarrow> bool \<Rightarrow> nat \<Rightarrow> totals \<Rightarrow> totals prog" where
  "large_sizes pop nohg algn count t =
     (if count \<le> 1000 then
        bnd (bench_step pop nohg algn (of_nat count * MB) t) (\<lambda>t. large_sizes pop nohg algn (count + MB_INTERVAL) t)
      else Return (t\<lparr>tot_count := count\<rparr>))"
  by auto
termination by (relation "measure (\<lambda>(_, _, _, count, _). 1001 - count)") (auto simp: MB_INTERVAL_def)

declare small_sizes.simps [simp del] large_sizes.simps [simp del]

definition no_totals :: totals where
  "no_totals = \<lparr>tot_count = 0, tot_normal = 0, tot_remap = 0, max_normal = 0, max_remap = 0\<rparr>"

text \<open>\<open>report\<close> is the text of the averages and maxima.\<close>

type_synonym reporter = "nat \<Rightarrow> bool \<Rightarrow> bool \<Rightarrow> totals \<Rightarrow> string"

definition measure_moves :: "(u64 \<Rightarrow> u64) \<Rightarrow> bool \<Rightarrow> bool \<Rightarrow> totals prog" where
  "measure_moves pop nohg algn = bnd (small_sizes pop nohg algn 1 no_totals) (\<lambda>t. large_sizes pop nohg algn 1 t)"

definition time_move :: "(nat \<Rightarrow> u64 \<Rightarrow> u64) \<Rightarrow> reporter \<Rightarrow> nat \<Rightarrow> bool \<Rightarrow> bool \<Rightarrow> unit prog" where
  "time_move pop report i nohg algn = bnd (measure_moves (pop i) nohg algn) (\<lambda>t. ignore (SPuts (report i nohg algn t)))"

definition mremap_bench_main :: "(nat \<Rightarrow> u64 \<Rightarrow> u64) \<Rightarrow> reporter \<Rightarrow> int prog" where
  "mremap_bench_main pop report =
     seq (seqs (map (\<lambda>i. time_move pop report i False False) [1..<11]))
    (seq (seqs (map (\<lambda>i. time_move pop report i False True) [1..<11]))
    (seq (seqs (map (\<lambda>i. time_move pop report i True False) [1..<11]))
    (seq (seqs (map (\<lambda>i. time_move pop report i True True) [1..<11])) (Return 0))))"

section \<open>The kernel and the contents of memory\<close>

text \<open>Some pages of a range may have been touched: none outside, and which pages are mapped and how they are protected stays.\<close>

definition touched :: "u64 \<Rightarrow> u64 \<Rightarrow> nat \<Rightarrow> pages \<Rightarrow> pages \<Rightarrow> bool" where
  "touched psz a n m m' \<longleftrightarrow> same_outside psz a n m m' \<and> (\<forall>p. map_option p_prot (m' p) = map_option p_prot (m p))"

definition offers :: "prot \<Rightarrow> u64 \<Rightarrow> u64 \<Rightarrow> nat \<Rightarrow> pages \<Rightarrow> bool" where
  "offers pr psz a n m \<longleftrightarrow> (\<forall>i<n. \<exists>pg. m (pg_at psz a i) = Some pg \<and> pr \<in> set (p_prot pg))"

text \<open>Calls that do not write to the pages of a range that is mapped.\<close>

definition spares :: "u64 \<Rightarrow> u64 \<Rightarrow> nat \<Rightarrow> sys \<Rightarrow> bool" where
  "spares psz a n q = (case q of
      SMmap b len pr fl \<Rightarrow> MAP_FIXED \<notin> set fl \<or> (\<exists>m. fits psz m \<and> len = of_nat m * psz \<and> disjoint_ranges psz a n b m)
    | SMunmap b len \<Rightarrow> \<exists>m. fits psz m \<and> len = of_nat m * psz \<and> disjoint_ranges psz a n b m
    | SMadvise _ _ adv \<Rightarrow> adv \<noteq> MADV_DONTNEED
    | SClock \<Rightarrow> True
    | _ \<Rightarrow> False)"

locale byte_kernel = tool_kernel step page_at psz for step :: "'k kernel" and page_at :: "'k \<Rightarrow> pages" and psz :: u64 +
  fixes byte_at :: "'k \<Rightarrow> u64 \<Rightarrow> char"
  assumes advise_any: "region psz a n \<Longrightarrow>
      \<exists>k' r. step k (SMadvise a (of_nat n * psz) adv) = Some (k', r) \<and> touched psz a n (page_at k) (page_at k')"
    and fill: "\<lbrakk>region psz a n; offers PROT_WRITE psz a n (page_at k); unat len \<le> n * unat psz\<rbrakk> \<Longrightarrow>
      \<exists>k' r. step k (SFill a len c) = Some (k', r) \<and> touched psz a n (page_at k) (page_at k')
        \<and> (\<forall>i<n * unat psz. byte_at k' (a + of_nat i) = (if i < unat len then c else byte_at k (a + of_nat i)))"
    and load: "\<lbrakk>region psz a n; offers PROT_READ psz a n (page_at k); i < n * unat psz\<rbrakk> \<Longrightarrow>
      \<exists>k' x. step k (SLoad (a + of_nat i)) = Some (k', (of_char (byte_at k (a + of_nat i)), x))
        \<and> touched psz a n (page_at k) (page_at k') \<and> byte_at k' = byte_at k"
    and kept: "\<lbrakk>step k q = Some (k', r); region psz a n; mapped psz a n (page_at k); spares psz a n q; i < n * unat psz\<rbrakk> \<Longrightarrow>
      byte_at k' (a + of_nat i) = byte_at k (a + of_nat i)"
    and moved: "\<lbrakk>step k (SMremap a (of_nat n * psz) (of_nat n * psz) rf b) = Some (k', r); MREMAP_FIXED \<in> set rf; MREMAP_MAYMOVE \<in> set rf;
        region psz a n; region psz b n; uniform psz a n (page_at k); apart psz a b n; i < n * unat psz\<rbrakk> \<Longrightarrow>
      byte_at k' (b + of_nat i) = byte_at k (a + of_nat i)"

section \<open>The executable kernel with bytes\<close>

type_synonym bk = "pk \<times> (u64 \<Rightarrow> char)"

definition bk_bytes :: "sys \<Rightarrow> u64 \<Rightarrow> (u64 \<Rightarrow> char) \<Rightarrow> u64 \<Rightarrow> char" where
  "bk_bytes q ret m = (case q of
      SMmap a len pr fl \<Rightarrow> if ret = MAP_FAILED then m else (\<lambda>p. if in_pages PSZ ret (page_count len) (p AND NOT 0xfff) then CHR 0x00 else m p)
    | SMremap a ol nl rf b \<Rightarrow>
        if ret = MAP_FAILED \<or> MREMAP_FIXED \<notin> set rf \<and> MREMAP_DONTUNMAP \<notin> set rf then m
        else (\<lambda>p. if in_pages PSZ ret (page_count ol) (p AND NOT 0xfff) then m (p - ret + a)
          else if MREMAP_DONTUNMAP \<in> set rf \<and> in_pages PSZ a (page_count ol) (p AND NOT 0xfff) then CHR 0x00 else m p)
    | SStore a c \<Rightarrow> m(a := c)
    | SFill a len c \<Rightarrow> (\<lambda>p. if p - a < len then c else m p)
    | _ \<Rightarrow> m)"

definition bk_step :: "bk kernel" where
  "bk_step km q = (case km of (k, m) \<Rightarrow>
     map_option (\<lambda>(k', r). ((k', bk_bytes q (fst r) m), case q of SLoad a \<Rightarrow> (of_char (m a), snd r) | _ \<Rightarrow> r)) (pk_step k q))"

lemma bk_step_Some: "pk_step k q = Some (k', r) \<Longrightarrow> (\<forall>a. q \<noteq> SLoad a) \<Longrightarrow> bk_step (k, m) q = Some ((k', bk_bytes q (fst r) m), r)"
  by (simp add: bk_step_def split: sys.split)

lemma PSZ_12: "unat PSZ = 4096" "PSZ = 2 ^ 12"
  by (simp_all add: PSZ_def)

lemma region_byte:
  assumes "region PSZ a n" "i < n * 4096"
  shows "(a + of_nat i) AND NOT 0xfff = pg_at PSZ a (i div 4096)" "i div 4096 < n" "unat (a + of_nat i) = unat a + i"
proof -
  have r: "page_addr PSZ a" "unat a + n * 4096 < 2 ^ 64" using assms(1) by (simp_all add: region_def PSZ_12)
  then have i: "unat (of_nat i :: u64) = i" using assms(2) by (simp add: unat_of_nat)
  then show u: "unat (a + of_nat i) = unat a + i" using r assms(2) by (subst unat_word_ariths) simp
  show d: "i div 4096 < n" using assms(2) by (simp add: less_mult_imp_div_less)
  have f: "unat (w AND NOT 0xfff) = unat w div 4096 * 4096" for w :: u64
    using align64_pow2 [of 12 w] by (simp add: align64_def)
  have "unat a div 4096 * 4096 = unat a" using f [of a] page_addr_floor [OF r(1)] by simp
  then have a: "4096 dvd unat a" by (metis dvd_triv_right)
  have "(unat a + i) div 4096 * 4096 = unat a + i div 4096 * 4096" using a by (auto simp: dvd_def)
  moreover have "i div 4096 * 4096 \<le> i" by simp
  then have "unat (of_nat (i div 4096) * PSZ) = i div 4096 * 4096" "unat a + i div 4096 * 4096 < 2 ^ 64"
    using r(2) assms(2) unat_index [of PSZ n "i div 4096"] assms(1) d by (simp_all add: region_def PSZ_12)
  then have "unat (pg_at PSZ a (i div 4096)) = unat a + i div 4096 * 4096"
    unfolding pg_at_def by (subst unat_word_ariths) simp
  ultimately have "unat ((a + of_nat i) AND NOT 0xfff) = unat (pg_at PSZ a (i div 4096))" by (simp only: f u)
  then show "(a + of_nat i) AND NOT 0xfff = pg_at PSZ a (i div 4096)" by (simp add: word_unat_eq_iff)
qed

lemma byte_pages_region:
  assumes "region PSZ a n" "unat len \<le> n * 4096" "p \<in> set (byte_pages a len)"
  shows "\<exists>i<n. p = pg_at PSZ a i"
proof -
  have r: "page_addr PSZ a" using assms(1) by (simp add: region_def)
  have z: "a AND 0xfff = 0" using aligned_page_addr [OF r] by (simp add: aligned_def)
  obtain i where i: "p = pg_at PSZ (a AND NOT 0xfff) i" "i < (unat (a AND 0xfff) + unat len - 1) div 0x1000 + 1" "len \<noteq> 0"
    using assms(3) by (auto simp: byte_pages_def split: if_splits)
  have "0 < unat len" using i(3) by (simp add: unat_gt_0)
  then have "unat len - 1 < n * 4096" using assms(2) by linarith
  then have "(unat len - 1) div 4096 < n" by (simp add: less_mult_imp_div_less)
  then have "i < n" using i(2) z by simp
  then show ?thesis using i(1) page_addr_floor [OF r] by auto
qed

lemma touch_page_protection: "map_option p_prot (fold touch_page ps m p) = map_option p_prot (m p)"
  by (induction ps arbitrary: m) (auto simp: touch_page_def map_option_case split: option.splits)

lemma touch_page_outside: "p \<notin> set ps \<Longrightarrow> fold touch_page ps m p = m p"
  by (induction ps arbitrary: m) (auto simp: touch_page_def)

lemma bk_fill:
  assumes "region PSZ a n" "offers PROT_WRITE PSZ a n (pk_pages k)" "unat len \<le> n * 4096"
  shows "pk_step k (SFill a len c) = Some (k\<lparr>pk_pages := fold touch_page (byte_pages a len) (pk_pages k)\<rparr>, (a, 0, 0))"
    "touched PSZ a n (pk_pages k) (fold touch_page (byte_pages a len) (pk_pages k))"
proof -
  have "list_all (pk_writable (pk_pages k)) (byte_pages a len)"
    using assms(2) byte_pages_region [OF assms(1,3)] by (auto simp: list_all_iff pk_writable_def offers_def split: option.splits) force+
  then show "pk_step k (SFill a len c) = Some (k\<lparr>pk_pages := fold touch_page (byte_pages a len) (pk_pages k)\<rparr>, (a, 0, 0))"
    by (simp add: pk_step_def pk_fill_def Let_def)
  have "p \<notin> set (byte_pages a len)" if "\<not> in_pages PSZ a n p" for p
    using byte_pages_region [OF assms(1,3)] that by (auto simp: in_pages_iff)
  then show "touched PSZ a n (pk_pages k) (fold touch_page (byte_pages a len) (pk_pages k))"
    using touch_page_protection touch_page_outside by (simp add: touched_def same_outside_def)
qed

lemma bk_load:
  assumes "region PSZ a n" "offers PROT_READ PSZ a n (pk_pages k)" "i < n * 4096"
  shows "pk_step k (SLoad (a + of_nat i)) = Some (k, (0, 0, 0))"
  using assms region_byte(1,2) [OF assms(1,3)] by (auto simp: pk_step_def pk_load_def offers_def split: option.splits)

lemma touched_refl [simp]: "touched psz a n m m"
  by (simp add: touched_def)

lemma mapped_not_new:
  assumes "mapped psz a n m" "unmapped psz b N m" "j < n"
  shows "\<not> in_pages psz b N (pg_at psz a j)"
proof
  assume "in_pages psz b N (pg_at psz a j)"
  then obtain i where "i < N" "pg_at psz a j = pg_at psz b i" by (auto simp: in_pages_iff)
  moreover have "m (pg_at psz a j) \<noteq> None" using assms(1,3) by (auto simp: mapped_def list_all_iff)
  moreover have "m (pg_at psz b i) = None" if "i < N" for i using assms(2) that by (auto simp: unmapped_def list_all_iff)
  ultimately show False by metis
qed

lemma bk_kept:
  assumes "pk_step k q = Some (k', r)" "region PSZ a n" "mapped PSZ a n (pk_pages k)" "spares PSZ a n q" "i < n * 4096"
  shows "bk_bytes q (fst r) m (a + of_nat i) = m (a + of_nat i)"
proof (cases q)
  case (SMmap b len pr fl)
  note b = region_byte [OF assms(2,5)]
  show ?thesis
  proof (cases "MAP_FIXED \<in> set fl")
    case True
    then obtain M where M: "fits PSZ M" "len = of_nat M * PSZ" "disjoint_ranges PSZ a n b M" using assms(4) SMmap by (auto simp: spares_def)
    have "\<not> in_pages PSZ b M (pg_at PSZ a (i div 4096))" using M(3) b(2) by (auto simp: in_pages_iff disjoint_ranges_def)
    moreover have "fst r = MAP_FAILED \<or> fst r = b" using assms(1) SMmap True by (auto simp: pk_step_def pk_mmap_def Let_def split: if_splits)
    ultimately show ?thesis using b(1) page_count_mult [OF M(1)] M(2) SMmap by (auto simp: bk_bytes_def)
  next
    case False
    then have "fst r = MAP_FAILED \<or> spot (pk_pages k) b (page_count len) = Some (fst r)"
      using assms(1) SMmap by (auto simp: pk_step_def pk_mmap_def Let_def split: if_splits option.splits)
    then show ?thesis using spot_Some(2) [of "pk_pages k" b "page_count len" "fst r"] mapped_not_new [OF assms(3) _ b(2)] b(1) SMmap
      by (auto simp: bk_bytes_def)
  qed
qed (use assms(4) in \<open>auto simp: spares_def bk_bytes_def\<close>)

lemma bk_moved:
  assumes "pk_step k (SMremap a (of_nat n * PSZ) (of_nat n * PSZ) rf b) = Some (k', r)" "MREMAP_FIXED \<in> set rf" "MREMAP_MAYMOVE \<in> set rf"
    "region PSZ a n" "region PSZ b n" "uniform PSZ a n (pk_pages k)" "apart PSZ a b n" "i < n * 4096"
  shows "bk_bytes (SMremap a (of_nat n * PSZ) (of_nat n * PSZ) rf b) (fst r) m (b + of_nat i) = m (a + of_nat i)"
proof -
  have f: "fits PSZ n" "page_addr PSZ a" "page_addr PSZ b" using assms(4,5) by (simp_all add: region_def)
  then have n: "0 < n" by (simp add: fits_def)
  have b: "b \<noteq> MAP_FAILED" using region_not_failed [OF assms(5), of 0] n by (simp add: PSZ_def)
  obtain k2 where "pk_step k (SMremap a (of_nat n * PSZ) (of_nat n * PSZ) rf b) = Some (k2, (b, 0, 0))"
    using pk.mremap_move [OF assms(2,3) f b assms(6,7)] by auto
  then have "r = (b, 0, 0)" using assms(1) by simp
  moreover have "in_pages PSZ b n (pg_at PSZ b (i div 4096))" using region_byte(2) [OF assms(5,8)] by (auto simp: in_pages_iff)
  ultimately show ?thesis using b assms(2) region_byte(1) [OF assms(5,8)] page_count_mult [OF f(1)] by (simp add: bk_bytes_def add.commute)
qed

interpretation bk: byte_kernel bk_step "\<lambda>km. pk_pages (fst km)" PSZ snd
proof (unfold_locales, goal_cases)
  case 1
  show ?case by (simp add: PSZ_def)
next
  case (2 fl n a k pr)
  then obtain k' where "pk_step (fst k) (SMmap a (of_nat n * PSZ) pr fl) = Some (k', (a, 0, 0))"
    "pk_pages k' = map_pages PSZ a n (Some (new_page pr fl)) (pk_pages (fst k))" using pk.mmap_fixed [of fl n a "fst k" pr] by blast
  then show ?case using bk_step_Some [of "fst k" _ k' "(a, 0, 0)" "snd k"] by auto
next
  case (3 fl n k pr)
  then show ?case using pk.mmap_anywhere [of fl n "fst k" pr] bk_step_Some [of "fst k" "SMmap 0 (of_nat n * PSZ) pr fl" _ _ "snd k"] by fastforce
next
  case (4 n a k)
  then show ?case using pk.munmap [of n a "fst k"] bk_step_Some [of "fst k" "SMunmap a (of_nat n * PSZ)" _ _ "snd k"] by fastforce
next
  case (5 n a k pr)
  then show ?case using pk.mprotect [of n a "fst k" pr] bk_step_Some [of "fst k" "SMprotect a (of_nat n * PSZ) pr" _ _ "snd k"] by fastforce
next
  case (6 rf n a b k)
  then show ?case using pk.mremap_move [of rf n a b "fst k"] bk_step_Some [of "fst k" "SMremap a (of_nat n * PSZ) (of_nat n * PSZ) rf b" _ _ "snd k"] by fastforce
next
  case (7 n n' a k)
  then show ?case using pk.mremap_grow [of n n' a "fst k"] bk_step_Some [of "fst k" "SMremap a (of_nat n * PSZ) (of_nat n' * PSZ) [] 0" _ _ "snd k"] by fastforce
next
  case (8 a k pg c)
  then show ?case using pk.store [of a "fst k" pg c] bk_step_Some [of "fst k" "SStore a c" _ _ "snd k"] by fastforce
next
  case (9 k a len)
  then show ?case using pk.advise [of "fst k" a len] bk_step_Some [of "fst k" "SMadvise a len MADV_NORMAL" _ _ "snd k"] by fastforce
next
  case (10 q k)
  then have "\<forall>a. q \<noteq> SLoad a" by (auto simp: harmless_def)
  then show ?case using pk.harmless_step [OF 10, of "fst k"] bk_step_Some [of "fst k" q _ _ "snd k"] by fastforce
next
  case (11 k s)
  then show ?case using pk.kmsg_ok [of "fst k" s] bk_step_Some [of "fst k" "SKmsg s" _ _ "snd k"] by fastforce
next
  case (12 a n k adv)
  show ?case using bk_step_Some [of "fst k" "SMadvise a (of_nat n * PSZ) adv" "fst k" "(0, 0, 0)" "snd k"] by (fastforce simp: pk_step_def)
next
  case (13 a n k len c)
  then have l: "unat len \<le> n * 4096" by (simp add: PSZ_12)
  have "(a + of_nat i - a < len) = (i < unat len)" if "i < n * 4096" for i
    using region_byte(3) [OF 13(1) that] that 13(1) by (simp add: word_less_nat_alt region_def PSZ_12 unat_of_nat)
  then show ?case using bk_fill(1) [OF 13(1,2) l, of c] bk_fill(2) [OF 13(1,2) l] bk_step_Some [of "fst k" "SFill a len c" _ _ "snd k"]
    by (simp add: bk_bytes_def PSZ_12)
next
  case (14 a n k i)
  then show ?case using bk_load [of a n "fst k" i] by (simp add: PSZ_12 bk_step_def bk_bytes_def split_beta)
next
  case (15 k q k' r a n i)
  then obtain k1 r1 where k1: "pk_step (fst k) q = Some (k1, r1)" "snd k' = bk_bytes q (fst r1) (snd k)"
    by (auto simp: bk_step_def split: prod.splits)
  show ?case using bk_kept [OF k1(1) 15(2-4), of i "snd k"] 15(5) k1(2) by (simp add: PSZ_12)
next
  case (16 k a n rf b k' r i)
  then obtain k1 r1 where k1: "pk_step (fst k) (SMremap a (of_nat n * PSZ) (of_nat n * PSZ) rf b) = Some (k1, r1)"
    "snd k' = bk_bytes (SMremap a (of_nat n * PSZ) (of_nat n * PSZ) rf b) (fst r1) (snd k)"
    by (auto simp: bk_step_def split: prod.splits)
  show ?case using bk_moved [OF k1(1) 16(2-7), of i "snd k"] 16(8) k1(2) by (simp add: PSZ_12)
qed

section \<open>Running the benchmark\<close>

lemma run_bnd_call: "step k q = Some (k', r) \<Longrightarrow> run step (bnd (call q) f) k = run step (f (fst r)) k'"
  by (simp add: run_bnd run_call)

lemma run_ignore_seq: "step k q = Some (k', r) \<Longrightarrow> run step (seq (ignore q) p) k = run step p k'"
  by (simp add: run_seq run_ignore)

lemma unmapped_disjoint: "unmapped psz b N m \<Longrightarrow> mapped psz a n m \<Longrightarrow> disjoint_ranges psz a n b N"
  using mapped_not_new [of psz a n m b N] by (auto simp: disjoint_ranges_def in_pages_iff)

lemma map_unmap: "unmapped psz a n m \<Longrightarrow> map_pages psz a n None (map_pages psz a n pg m) = m"
  by (rule ext) (auto simp: map_pages_def unmapped_def in_pages_iff list_all_iff)

lemma mapped_outside: "mapped psz b n m \<Longrightarrow> unmapped psz a N m \<Longrightarrow> mapped psz b n (map_pages psz a N pg m)"
  using mapped_not_new [of psz b n m a N] by (auto simp: mapped_def map_pages_def list_all_iff)

text \<open>The bytes of all ranges that are mapped in the first state.\<close>

definition bytes_kept :: "u64 \<Rightarrow> ('k \<Rightarrow> pages) \<Rightarrow> ('k \<Rightarrow> u64 \<Rightarrow> char) \<Rightarrow> 'k \<Rightarrow> 'k \<Rightarrow> bool" where
  "bytes_kept psz page_at byte_at k k' \<longleftrightarrow>
     (\<forall>b n. region psz b n \<longrightarrow> mapped psz b n (page_at k) \<longrightarrow> (\<forall>i<n * unat psz. byte_at k' (b + of_nat i) = byte_at k (b + of_nat i)))"

lemma unat_PG: "unat PG = 4096"
  by (simp add: PG_def)

lemma unat_MB: "unat MB = 1048576"
  by (simp add: MB_def)

text \<open>A range that has been mapped and touched.\<close>

definition fresh_range :: "u64 \<Rightarrow> prot list \<Rightarrow> u64 \<Rightarrow> nat \<Rightarrow> pages \<Rightarrow> pages \<Rightarrow> bool" where
  "fresh_range psz prt a n m m' \<longleftrightarrow> region psz a n \<and> unmapped psz a n m
     \<and> touched psz a n (map_pages psz a n (Some \<lparr>p_prot = prt, p_pop = False\<rparr>) m) m'"

text \<open>What the code relies on: the region is a number of pages, no larger than 4 GiB; no more of it is populated than there is.\<close>

definition sized :: "relocate_struct \<Rightarrow> nat \<Rightarrow> bool" where
  "sized r n \<longleftrightarrow> 0 < n \<and> n \<le> 2 ^ 20 \<and> old_len r = of_nat n * PG \<and> new_len r = of_nat n * PG \<and> unat (pop_len r) \<le> n * unat PG
     \<and> (align r = 0 \<or> align r = PMD_SIZE) \<and> MREMAP_DONTUNMAP \<notin> set (additional_flags r)"

definition populated :: "u64 \<Rightarrow> ('k \<Rightarrow> pages) \<Rightarrow> ('k \<Rightarrow> u64 \<Rightarrow> char) \<Rightarrow> relocate_struct \<Rightarrow> nat \<Rightarrow> u64 \<Rightarrow> pages \<Rightarrow> 'k \<Rightarrow> bool" where
  "populated psz page_at byte_at r n src m k \<longleftrightarrow> fresh_range psz [PROT_READ, PROT_WRITE] src n m (page_at k) \<and> (\<forall>i<unat (pop_len r). byte_at k (src + of_nat i) = CHR ''x'')"

text \<open>The address that is chosen lies in the range that was mapped to find it, behind its start and in front of its end by more than the length.\<close>

lemma aligned_place:
  assumes "page_addr PG p" "unat p + N * 4096 < 2 ^ 64" "512 \<le> N"
  shows "\<exists>off. 0 < off \<and> off \<le> 512 \<and> (p + PMD_SIZE) AND NOT (PMD_SIZE - 1) = pg_at PG p off"
    "p < (p + PMD_SIZE) AND NOT (PMD_SIZE - 1)"
proof -
  have P: "PMD_SIZE = 2 ^ 21" "PG = PSZ" by (simp_all add: PMD_SIZE_def PG_def PSZ_def)
  let ?q = "(p + PMD_SIZE) AND NOT (PMD_SIZE - 1)"
  have "unat (p + PMD_SIZE) = unat p + 2 ^ 21" using assms(2,3) unfolding P by (subst unat_word_ariths) simp
  then have q: "unat ?q = (unat p + 2 ^ 21) div 2 ^ 21 * 2 ^ 21"
    using align64_pow2 [of 21 "p + PMD_SIZE"] unfolding P by (simp only: align64_def)
  have "unat (p AND NOT 0xfff) = unat p div 4096 * 4096" using align64_pow2 [of 12 p] by (simp add: align64_def)
  then have d: "4096 dvd unat p" using page_addr_floor [of p] assms(1) P by (metis dvd_triv_right)
  have b: "unat p < unat ?q" "unat ?q \<le> unat p + 2 ^ 21"
  proof -
    have m: "(unat p + 2 ^ 21) mod 2 ^ 21 < (2 ^ 21 :: nat)" by (rule mod_less_divisor) simp
    show "unat p < unat ?q" using div_mult_mod_eq [of "unat p + 2 ^ 21" "2 ^ 21"] m unfolding q by linarith
    show "unat ?q \<le> unat p + 2 ^ 21" unfolding q by (rule div_times_less_eq_dividend)
  qed
  then show "p < ?q" by (simp add: word_less_nat_alt)
  have "4096 dvd unat ?q" unfolding q by simp
  then have "4096 dvd unat ?q - unat p" using d by simp
  then obtain off where off: "unat ?q - unat p = 4096 * off" by (auto simp: dvd_def)
  have o: "0 < off" "off \<le> 512" using b off by auto
  have "unat (of_nat off * PG) = off * 4096" using o unfolding P by (subst unat_word_ariths) (simp add: PSZ_def unat_of_nat)
  then have "unat (pg_at PG p off) = unat p + off * 4096" using assms(2,3) o unfolding pg_at_def by (subst unat_word_ariths) simp
  then have "?q = pg_at PG p off" using off b(1) by (simp add: word_unat_eq_iff)
  then show "\<exists>off. 0 < off \<and> off \<le> 512 \<and> ?q = pg_at PG p off" using o by blast
qed

context byte_kernel
begin

lemma bytes_kept_refl: "bytes_kept psz page_at byte_at k k"
  by (simp add: bytes_kept_def)

lemma bytes_kept_step:
  assumes "step k q = Some (k', r)" "\<And>b n. mapped psz b n (page_at k) \<Longrightarrow> spares psz b n q"
  shows "bytes_kept psz page_at byte_at k k'"
  using kept [OF assms(1)] assms(2) by (simp add: bytes_kept_def)

lemma bytes_kept_trans:
  assumes "bytes_kept psz page_at byte_at k k'" "bytes_kept psz page_at byte_at k' k''"
    "\<And>b n. mapped psz b n (page_at k) \<Longrightarrow> mapped psz b n (page_at k')"
  shows "bytes_kept psz page_at byte_at k k''"
  using assms unfolding bytes_kept_def by metis

lemma region_part:
  assumes "region psz p N" "off + n \<le> N" "0 < n"
  shows "region psz (pg_at psz p off) n"
proof -
  have "unat (of_nat off * psz) = off * unat psz" using assms unat_index [of psz N off] by (simp add: region_def)
  moreover have "off * unat psz + n * unat psz \<le> N * unat psz" using assms(2) by (metis distrib_right mult_le_mono1)
  ultimately have "unat (pg_at psz p off) + n * unat psz \<le> unat p + N * unat psz" "unat (pg_at psz p off) = unat p + off * unat psz"
    using assms(1) unfolding pg_at_def region_def by (subst unat_word_ariths; simp)+
  then show ?thesis using assms fits_part [OF assms] page_addr_pg_at by (auto simp: region_def)
qed

lemma mmap_aligned_run:
  assumes "psz = PG" "0 < n" "n \<le> 2 ^ 20" "algn = 0 \<or> algn = PMD_SIZE"
  shows "(\<exists>k'. run step (mmap_aligned (of_nat n * psz) algn prt) k = (Done 0, k'))
    \<or> (\<exists>k' a. run step (mmap_aligned (of_nat n * psz) algn prt) k = (Done a, k') \<and> region psz a n \<and> unmapped psz a n (page_at k)
         \<and> page_at k' = map_pages psz a n (Some \<lparr>p_prot = prt, p_pop = False\<rparr>) (page_at k) \<and> bytes_kept psz page_at byte_at k k')"
    (is "?failed \<or> ?placed")
proof -
  have psz: "unat psz = 4096" using assms(1) by (simp add: PG_def)
  let ?fl = "[MAP_ANON, MAP_PRIVATE]"
  have new: "new_page prt ?fl = \<lparr>p_prot = prt, p_pop = False\<rparr>" "new_page prt (?fl @ [MAP_FIXED]) = \<lparr>p_prot = prt, p_pop = False\<rparr>"
    by (simp_all add: new_page_def)
  define N where "N = (if algn = 0 then n else n + 1024)"
  have pmd: "PMD_SIZE = 512 * PG" by (simp add: PMD_SIZE_def PG_def)
  have N: "n \<le> N" "fits psz N" using assms(2,3) by (simp_all add: N_def fits_def psz)
  have len: "of_nat n * psz + 2 * algn = of_nat N * psz"
    using assms(4) by (auto simp: N_def pmd assms(1) distrib_right)
  show ?thesis
  proof (cases "\<exists>k'. step k (SMmap 0 (of_nat N * psz) prt ?fl) = Some (k', (MAP_FAILED, 0, 0))")
    case True
    then obtain k1 where 0: "step k (SMmap 0 (of_nat N * psz) prt ?fl) = Some (k1, (MAP_FAILED, 0, 0))" by blast
    have "run step (mmap_aligned (of_nat n * psz) algn prt) k = (Done 0, k1)"
      by (simp add: mmap_aligned_def Let_def len run_bnd_call [of step k, OF 0])
    then show ?thesis by blast
  next
    case False
    then obtain k1 p where 1: "step k (SMmap 0 (of_nat N * psz) prt ?fl) = Some (k1, (p, 0, 0))" "p \<noteq> MAP_FAILED" "page_addr psz p"
      "unat p + N * unat psz < 2 ^ 64" "unmapped psz p N (page_at k)" "page_at k1 = map_pages psz p N (Some (new_page prt ?fl)) (page_at k)"
      using mmap_anywhere [of ?fl N k prt] N(2) by auto
    have k1: "bytes_kept psz page_at byte_at k k1" by (rule bytes_kept_step [OF 1(1)]) (simp add: spares_def)
    show ?thesis
    proof (cases "algn = 0")
      case True
      then have Nn: "N = n" by (simp add: N_def)
      have "run step (mmap_aligned (of_nat n * psz) algn prt) k = (Done p, k1)"
        using 1(2) True len by (simp add: mmap_aligned_def Let_def run_bnd_call [of step k, OF 1(1)])
      moreover have "region psz p n" using 1 N(2) by (simp add: region_def Nn)
      ultimately show ?thesis using 1(5,6) new(1) k1 by (auto simp: Nn)
    next
      case False
      then have a: "algn = PMD_SIZE" "N = n + 1024" using assms(4) by (simp_all add: N_def)
      obtain k2 where 2: "step k1 (SMunmap p (of_nat N * psz)) = Some (k2, (0, 0, 0))" "page_at k2 = page_at k"
        using munmap [OF N(2) 1(3), of k1] map_unmap [OF 1(5)] 1(6) by auto
      have k2: "bytes_kept psz page_at byte_at k k2"
        unfolding bytes_kept_def
      proof (intro allI impI)
        fix b m i assume b: "region psz b m" "mapped psz b m (page_at k)" "i < m * unat psz"
        have "byte_at k2 (b + of_nat i) = byte_at k1 (b + of_nat i)"
        proof (rule kept [OF 2(1) b(1) _ _ b(3)])
          show "mapped psz b m (page_at k1)" unfolding 1(6) by (rule mapped_outside [OF b(2) 1(5)])
          show "spares psz b m (SMunmap p (of_nat N * psz))"
            using N(2) unmapped_disjoint [OF 1(5) b(2)] by (auto simp: spares_def)
        qed
        then show "byte_at k2 (b + of_nat i) = byte_at k (b + of_nat i)" using k1 b by (simp add: bytes_kept_def)
      qed
      obtain off where off: "0 < off" "off \<le> 512" "(p + algn) AND NOT (algn - 1) = pg_at psz p off" "p < (p + algn) AND NOT (algn - 1)"
        using aligned_place [of p N] 1(3,4) a(2) unfolding a(1) assms(1) psz [unfolded assms(1)] by auto
      let ?a = "pg_at psz p off"
      have rp: "region psz p N" using 1(3,4) N(2) by (simp add: region_def)
      have on: "off + n \<le> N" "0 < n" using off(2) a(2) assms(2) by auto
      have ra: "region psz ?a n" using region_part [OF rp on] .
      have ua: "unmapped psz ?a n (page_at k)"
        using 1(5) on by (auto simp: unmapped_def list_all_iff)
      obtain k3 where 3: "step k2 (SMmap ?a (of_nat n * psz) prt (?fl @ [MAP_FIXED])) = Some (k3, (?a, 0, 0))"
        "page_at k3 = map_pages psz ?a n (Some (new_page prt (?fl @ [MAP_FIXED]))) (page_at k2)"
        using mmap_fixed [of "?fl @ [MAP_FIXED]" n ?a k2 prt] ra region_not_failed [OF rp psz_pos, of off] on by (auto simp: region_def)
      have "bytes_kept psz page_at byte_at k2 k3"
      proof (rule bytes_kept_step [OF 3(1)])
        fix b m assume "mapped psz b m (page_at k2)"
        then show "spares psz b m (SMmap ?a (of_nat n * psz) prt (?fl @ [MAP_FIXED]))"
          using unmapped_disjoint [OF ua] ra 2(2) by (auto simp: spares_def region_def)
      qed
      then have k3: "bytes_kept psz page_at byte_at k k3" using k2 2(2) unfolding bytes_kept_def by metis
      have "run step (mmap_aligned (of_nat n * psz) algn prt) k = (Done ?a, k3)"
        using 1(2) False off(3,4) region_not_failed [OF rp psz_pos, of off] on
        by (simp add: mmap_aligned_def Let_def len run_bnd_call [of step k, OF 1(1)] run_ignore_seq [of step k1, OF 2(1)]
            run_bnd_call [of step k2, OF 3(1) [simplified]])
      then show ?thesis using ra ua 3(2) 2(2) new(2) k3 by auto
    qed
  qed
qed

lemma touched_mapped: "touched psz a n m m' \<Longrightarrow> mapped psz b N m' \<longleftrightarrow> mapped psz b N m"
  unfolding touched_def mapped_def list_all_iff by (metis map_option_is_None)

lemma touched_uniform: "touched psz a n m m' \<Longrightarrow> uniform psz b N m' \<longleftrightarrow> uniform psz b N m"
  unfolding touched_def uniform_def list_all_iff by (metis map_option_is_None)

lemma touched_offers:
  assumes "touched psz a n m m'"
  shows "offers pr psz b N m' \<longleftrightarrow> offers pr psz b N m"
proof -
  have "(\<exists>pg. m' p = Some pg \<and> pr \<in> set (p_prot pg)) \<longleftrightarrow> (\<exists>pg. m p = Some pg \<and> pr \<in> set (p_prot pg))" for p
  proof -
    have "map_option p_prot (m' p) = map_option p_prot (m p)" using assms by (simp add: touched_def)
    then show ?thesis by (cases "m p"; cases "m' p") auto
  qed
  then show ?thesis by (simp add: offers_def)
qed

lemma touched_trans: "touched psz a n m m' \<Longrightarrow> touched psz a n m' m'' \<Longrightarrow> touched psz a n m m''"
  unfolding touched_def by (metis same_outside_trans)

lemma fresh_range_facts:
  assumes "fresh_range psz prt a n m m'"
  shows "region psz a n" "unmapped psz a n m" "same_outside psz a n m m'" "mapped psz a n m'" "uniform psz a n m'"
    "pr \<in> set prt \<Longrightarrow> offers pr psz a n m'"
proof -
  let ?m = "map_pages psz a n (Some \<lparr>p_prot = prt, p_pop = False\<rparr>) m"
  have t: "touched psz a n ?m m'" and r: "region psz a n" and u: "unmapped psz a n m" using assms by (simp_all add: fresh_range_def)
  show "region psz a n" "unmapped psz a n m" by fact+
  have n: "0 < n" using r by (simp add: region_def fits_def)
  have i: "?m (pg_at psz a i) = Some \<lparr>p_prot = prt, p_pop = False\<rparr>" if "i < n" for i
    using that by (auto simp: map_pages_def in_pages_iff)
  have "same_outside psz a n m ?m" using same_outside_ops(1) [of 0 n n psz a] by simp
  then show "same_outside psz a n m m'" using t same_outside_trans by (auto simp: touched_def)
  have "mapped psz a n ?m" "uniform psz a n ?m" using i n i [of 0] by (simp_all add: mapped_def uniform_def list_all_iff)
  then show "mapped psz a n m'" "uniform psz a n m'" using touched_mapped [OF t] touched_uniform [OF t] by simp_all
  show "offers pr psz a n m'" if "pr \<in> set prt" using touched_offers [OF t] i that by (simp add: offers_def)
qed

lemma populate_run:
  assumes "psz = PG" "0 < n" "n \<le> 2 ^ 20" "align r = 0 \<or> align r = PMD_SIZE" "old_len r = of_nat n * psz" "unat (pop_len r) \<le> n * unat psz"
  shows "(\<exists>k'. run step (map_and_populate_region r) k = (Done 0, k'))
    \<or> (\<exists>k' a. run step (map_and_populate_region r) k = (Done a, k') \<and> fresh_range psz [PROT_READ, PROT_WRITE] a n (page_at k) (page_at k')
         \<and> (\<forall>i<unat (pop_len r). byte_at k' (a + of_nat i) = CHR ''x''))"
    (is "?failed \<or> ?placed")
  using mmap_aligned_run [OF assms(1-4), of "[PROT_READ, PROT_WRITE]" k]
proof (elim disjE exE conjE)
  fix k1 assume "run step (mmap_aligned (of_nat n * psz) (align r) [PROT_READ, PROT_WRITE]) k = (Done 0, k1)"
  then show ?thesis by (simp add: map_and_populate_region_def assms(5) run_bnd)
next
  fix k1 a assume 1: "run step (mmap_aligned (of_nat n * psz) (align r) [PROT_READ, PROT_WRITE]) k = (Done a, k1)" "region psz a n"
    "unmapped psz a n (page_at k)" "page_at k1 = map_pages psz a n (Some \<lparr>p_prot = [PROT_READ, PROT_WRITE], p_pop = False\<rparr>) (page_at k)"
  have f1: "fresh_range psz [PROT_READ, PROT_WRITE] a n (page_at k) (page_at k1)" using 1 by (simp add: fresh_range_def touched_def)
  show ?thesis
  proof (cases "a = 0")
    case True
    then show ?thesis using 1(1) by (simp add: map_and_populate_region_def assms(5) run_bnd)
  next
    case False
    define adv :: "u64 prog" where "adv = (if nohuge r then call (SMadvise a (of_nat n * psz) MADV_NOHUGEPAGE) else Return 0)"
    obtain e k2 where 2: "run step adv k1 = (Done e, k2)" "touched psz a n (page_at k1) (page_at k2)"
    proof -
      obtain k2 ret where "step k1 (SMadvise a (of_nat n * psz) MADV_NOHUGEPAGE) = Some (k2, ret)" "touched psz a n (page_at k1) (page_at k2)"
        using advise_any [OF 1(2), of k1 MADV_NOHUGEPAGE] by blast
      then show ?thesis using that [of "fst ret" k2] that [of 0 k1] run_call [of step k1] by (cases "nohuge r") (simp_all add: adv_def touched_def)
    qed
    have "run step (map_and_populate_region r) k = run step (bnd adv (\<lambda>e. if e \<noteq> 0 then seq (ignore (SMunmap a (of_nat n * psz))) (Return 0)
        else seq (ignore (SFill a (pop_len r) (CHR ''x''))) (Return a))) k1"
      using False unfolding map_and_populate_region_def assms(5) adv_def by (simp add: run_bnd_Done [of step, OF 1(1)])
    then have body: "run step (map_and_populate_region r) k = run step (if e \<noteq> 0 then seq (ignore (SMunmap a (of_nat n * psz))) (Return 0)
        else seq (ignore (SFill a (pop_len r) (CHR ''x''))) (Return a)) k2"
      by (simp only: run_bnd_Done [of step, OF 2(1)])
    have f2: "fresh_range psz [PROT_READ, PROT_WRITE] a n (page_at k) (page_at k2)"
      using 1(4) 2(2) f1 by (simp add: fresh_range_def)
    show ?thesis
    proof (cases "e = 0")
      case False
      obtain k3 where "step k2 (SMunmap a (of_nat n * psz)) = Some (k3, (0, 0, 0))" using munmap [of n a k2] 1(2) by (auto simp: region_def)
      then have "run step (map_and_populate_region r) k = (Done 0, k3)"
        using False by (simp add: body run_ignore_seq [of step])
      then show ?thesis by blast
    next
      case True
      obtain k3 x where 3: "step k2 (SFill a (pop_len r) (CHR ''x'')) = Some (k3, x)" "touched psz a n (page_at k2) (page_at k3)"
        "\<forall>i<n * unat psz. byte_at k3 (a + of_nat i) = (if i < unat (pop_len r) then CHR ''x'' else byte_at k2 (a + of_nat i))"
        using fill [OF 1(2) fresh_range_facts(6) [OF f2, of PROT_WRITE] assms(6), of "CHR ''x''"] by auto
      have "run step (map_and_populate_region r) k = (Done a, k3)"
        using True 3(1) by (simp add: body run_ignore_seq [of step])
      moreover have "fresh_range psz [PROT_READ, PROT_WRITE] a n (page_at k) (page_at k3)"
        using f2 3(2) touched_trans by (auto simp: fresh_range_def)
      ultimately show ?thesis using 3(3) assms(6) by fastforce
    qed
  qed
qed

lemma reserve_run:
  assumes "psz = PG" "0 < n" "n \<le> 2 ^ 20" "align r = 0 \<or> align r = PMD_SIZE" "new_len r = of_nat n * psz"
  shows "(\<exists>k'. run step (reserve_region r) k = (Done 0, k'))
    \<or> (\<exists>k' a. run step (reserve_region r) k = (Done a, k') \<and> region psz a n \<and> unmapped psz a n (page_at k) \<and> page_at k' = page_at k
         \<and> bytes_kept psz page_at byte_at k k')"
  using mmap_aligned_run [OF assms(1-4), of "[]" k]
proof (elim disjE exE conjE)
  fix k1 assume "run step (mmap_aligned (of_nat n * psz) (align r) []) k = (Done 0, k1)"
  then show ?thesis by (simp add: reserve_region_def assms(5) run_bnd)
next
  fix k1 a assume 1: "run step (mmap_aligned (of_nat n * psz) (align r) []) k = (Done a, k1)" "region psz a n"
    "unmapped psz a n (page_at k)" "page_at k1 = map_pages psz a n (Some \<lparr>p_prot = [], p_pop = False\<rparr>) (page_at k)" "bytes_kept psz page_at byte_at k k1"
  show ?thesis
  proof (cases "a = 0")
    case True
    then show ?thesis using 1(1) by (simp add: reserve_region_def assms(5) run_bnd)
  next
    case False
    have fit: "fits psz n" using 1(2) by (simp add: region_def)
    obtain k2 where 2: "step k1 (SMunmap a (of_nat n * psz)) = Some (k2, (0, 0, 0))" "page_at k2 = page_at k"
      using munmap [OF fit, of a k1] 1(2-4) map_unmap [OF 1(3)] by (auto simp: region_def)
    have "run step (reserve_region r) k = (Done a, k2)"
      using 1(1) 2(1) False by (simp add: reserve_region_def assms(5) run_bnd run_call)
    moreover have "bytes_kept psz page_at byte_at k k2"
      unfolding bytes_kept_def
    proof (intro allI impI)
      fix b m i assume b: "region psz b m" "mapped psz b m (page_at k)" "i < m * unat psz"
      have "byte_at k2 (b + of_nat i) = byte_at k1 (b + of_nat i)"
      proof (rule kept [OF 2(1) b(1) _ _ b(3)])
        show "mapped psz b m (page_at k1)" unfolding 1(4) by (rule mapped_outside [OF b(2) 1(3)])
        show "spares psz b m (SMunmap a (of_nat n * psz))" using fit unmapped_disjoint [OF 1(3) b(2)] by (auto simp: spares_def)
      qed
      then show "byte_at k2 (b + of_nat i) = byte_at k (b + of_nat i)" using 1(5) b by (simp add: bytes_kept_def)
    qed
    ultimately show ?thesis using 1(2,3) 2(2) by blast
  qed
qed

lemma check_bytes_run:
  assumes "region psz a n" "offers PROT_READ psz a n (page_at k)" "i + c \<le> n * unat psz" "\<forall>j<n * unat psz. j < i + c \<longrightarrow> byte_at k (a + of_nat j) = CHR ''x''"
  shows "\<exists>k'. run step (check_bytes a i c) k = (Done True, k') \<and> touched psz a n (page_at k) (page_at k')"
  using assms(2-4)
proof (induction c arbitrary: i k)
  case 0
  then show ?case by (auto simp: touched_def)
next
  case (Suc c)
  have i: "i < n * unat psz" using Suc.prems(2) by simp
  obtain k1 x where 1: "step k (SLoad (a + of_nat i)) = Some (k1, (of_char (byte_at k (a + of_nat i)), x))"
    "touched psz a n (page_at k) (page_at k1)" "byte_at k1 = byte_at k" using load [OF assms(1) Suc.prems(1) i] by blast
  have x: "byte_at k (a + of_nat i) = CHR ''x''" using Suc.prems(3) i by simp
  have "run step (check_bytes a i (Suc c)) k = run step (check_bytes a (i + 1) c) k1"
    using 1(1) x by (simp add: run_bnd_call [of step k])
  moreover obtain k' where "run step (check_bytes a (i + 1) c) k1 = (Done True, k')" "touched psz a n (page_at k1) (page_at k')"
    using Suc.IH [of k1 "i + 1"] Suc.prems touched_offers [OF 1(2)] 1(3) by auto
  ultimately show ?case using touched_trans [OF 1(2)] by auto
qed

lemma move_run:
  assumes "fresh_range psz [PROT_READ, PROT_WRITE] src n m (page_at k)" "region psz dst n" "unmapped psz dst n (page_at k)"
    "MREMAP_FIXED \<in> set rf" "MREMAP_MAYMOVE \<in> set rf" "MREMAP_DONTUNMAP \<notin> set rf"
  shows "\<exists>k'. step k (SMremap src (of_nat n * psz) (of_nat n * psz) rf dst) = Some (k', (dst, 0, 0))
    \<and> page_at k' = move_pages psz src dst n False (page_at k) \<and> offers PROT_READ psz dst n (page_at k')
    \<and> (\<forall>i<n * unat psz. byte_at k' (dst + of_nat i) = byte_at k (src + of_nat i))"
proof -
  note src = fresh_range_facts [OF assms(1)]
  have n: "fits psz n" "0 < n" using src(1) by (simp_all add: region_def fits_def)
  have ap: "apart psz src dst n" using mapped_not_new [OF src(4) assms(3)] by (simp add: apart_def list_all_iff)
  have nf: "dst \<noteq> MAP_FAILED" using region_not_failed [OF assms(2) psz_pos, of 0] n(2) by simp
  obtain k' where k': "step k (SMremap src (of_nat n * psz) (of_nat n * psz) rf dst) = Some (k', (dst, 0, 0))"
    "page_at k' = move_pages psz src dst n False (page_at k)"
    using mremap_move [OF assms(4,5) n(1) _ _ nf src(5) ap] src(1) assms(2,6) by (auto simp: region_def)
  have "page_at k' (pg_at psz dst i) = page_at k (pg_at psz src i)" if "i < n" for i
    using that pg_at_shift [of 0 i psz dst src 0] by (auto simp: k'(2) move_pages_def in_pages_iff)
  then have "offers PROT_READ psz dst n (page_at k')" using src(6) [of PROT_READ] by (simp add: offers_def)
  then show ?thesis using k' moved [OF k'(1) assms(4,5) src(1) assms(2) src(5) ap] by blast
qed

text \<open>Unmapping the range that was moved leaves the pages as they were before the source was mapped.\<close>

lemma moved_away:
  assumes "fresh_range psz prt src n m m1" "unmapped psz dst n m1" "touched psz dst n (move_pages psz src dst n False m1) m2"
  shows "map_pages psz dst n None m2 = m"
proof
  fix p
  note src = fresh_range_facts [OF assms(1)]
  have o: "m1 p = m p" if "\<not> in_pages psz src n p" using src(3) that by (simp add: same_outside_def)
  have s: "m p = None" if "in_pages psz src n p" using src(2) that by (auto simp: unmapped_def in_pages_iff list_all_iff)
  have d: "m1 p = None" if "in_pages psz dst n p" using assms(2) that by (auto simp: unmapped_def in_pages_iff list_all_iff)
  have m2: "m2 p = move_pages psz src dst n False m1 p" if "\<not> in_pages psz dst n p"
    using assms(3) that by (simp add: touched_def same_outside_def)
  show "map_pages psz dst n None m2 p = m p"
    using o s d m2 by (cases "in_pages psz dst n p"; cases "in_pages psz src n p") (simp_all add: map_pages_def move_pages_def)
qed

lemma clock_run: "\<exists>t k'. run step clock_ns k = (Done t, k') \<and> page_at k' = page_at k \<and> bytes_kept psz page_at byte_at k k'"
proof -
  obtain k' r where c: "step k SClock = Some (k', r)" "page_at k' = page_at k" using harmless_step [of SClock k] by (auto simp: harmless_def)
  have "bytes_kept psz page_at byte_at k k'" by (rule bytes_kept_step [OF c(1)]) (simp add: spares_def)
  then show ?thesis using c by (auto simp: clock_ns_def split: prod.splits)
qed

lemma moved_intact:
  assumes "psz = PG" "sized r n" "populated psz page_at byte_at r n src m k" "region psz dst n" "unmapped psz dst n (page_at k)"
  shows "\<exists>t k1 k2. page_at k1 = move_pages psz src dst n False (page_at k) \<and> touched psz dst n (page_at k1) (page_at k2)
    \<and> run step (timed_move r src dst) k = run step (bnd (call (SMadvise dst (of_nat n * psz) MADV_PAGEOUT)) (\<lambda>e.
        if e \<noteq> 0 then Return None else seq (ignore (SMunmap dst (of_nat n * psz))) (Return (Some (r\<lparr>time_ns := t\<rparr>))))) k2"
proof -
  have r: "old_len r = of_nat n * psz" "new_len r = of_nat n * psz" "unat (pop_len r) \<le> n * unat psz"
    "MREMAP_DONTUNMAP \<notin> set (additional_flags r)" using assms(1,2) by (simp_all add: sized_def)
  have f: "fresh_range psz [PROT_READ, PROT_WRITE] src n m (page_at k)" and x: "\<forall>i<unat (pop_len r). byte_at k (src + of_nat i) = CHR ''x''"
    using assms(3) by (simp_all add: populated_def)
  note src = fresh_range_facts [OF f]
  obtain t1 k3 where 3: "run step clock_ns k = (Done t1, k3)" "page_at k3 = page_at k" "bytes_kept psz page_at byte_at k k3"
    using clock_run by blast
  let ?rf = "[MREMAP_FIXED, MREMAP_MAYMOVE] @ additional_flags r"
  obtain k4 where 4: "step k3 (SMremap src (of_nat n * psz) (of_nat n * psz) ?rf dst) = Some (k4, (dst, 0, 0))"
    "page_at k4 = move_pages psz src dst n False (page_at k)" "offers PROT_READ psz dst n (page_at k4)"
    "\<forall>i<n * unat psz. byte_at k4 (dst + of_nat i) = byte_at k3 (src + of_nat i)"
    using move_run [of src n m k3 dst ?rf] f assms(4,5) 3(2) r(4) by auto
  obtain t2 k5 where 5: "run step clock_ns k4 = (Done t2, k5)" "page_at k5 = page_at k4" "bytes_kept psz page_at byte_at k4 k5"
    using clock_run by blast
  have "byte_at k5 (dst + of_nat i) = CHR ''x''" if "i < unat (pop_len r)" for i
  proof -
    have i: "i < n * unat psz" using that r(3) by linarith
    have "mapped psz dst n (page_at k4)" using 4(3) by (auto simp: offers_def mapped_def list_all_iff)
    then have "byte_at k5 (dst + of_nat i) = byte_at k4 (dst + of_nat i)" using 5(3) assms(4) i by (simp add: bytes_kept_def)
    also have "\<dots> = byte_at k (src + of_nat i)" using 4(4) i 3(3) src(1,4) by (simp add: bytes_kept_def)
    finally show ?thesis using x that by simp
  qed
  then obtain k6 where 6: "run step (check_move r dst) k5 = (Done True, k6)" "touched psz dst n (page_at k5) (page_at k6)"
    using check_bytes_run [OF assms(4), of k5 0 "unat (pop_len r)"] 4(3) 5(2) r(3) by (auto simp: check_move_def)
  have "run step (timed_move r src dst) k = run step (bnd (call (SMadvise dst (of_nat n * psz) MADV_PAGEOUT)) (\<lambda>e.
      if e \<noteq> 0 then Return None else seq (ignore (SMunmap dst (of_nat n * psz))) (Return (Some (r\<lparr>time_ns := t2 - t1\<rparr>))))) k6"
    unfolding timed_move_def r(1,2)
    by (simp only: run_bnd_Done [of step, OF 3(1)] run_bnd_call [of step, OF 4(1)] fst_conv run_bnd_Done [of step, OF 5(1)]
        run_bnd_Done [of step, OF 6(1)] simp_thms if_False)
  then show ?thesis using 4(2) 5(2) 6(2) by (intro exI [of _ "t2 - t1"] exI [of _ k5] exI [of _ k6]) simp
qed

lemma timed_move_outcome:
  assumes "psz = PG" "sized r n" "populated psz page_at byte_at r n src m k" "region psz dst n" "unmapped psz dst n (page_at k)"
  shows "\<exists>t k1 k2 ret. step k1 (SMadvise dst (of_nat n * psz) MADV_PAGEOUT) = Some (k2, ret)
    \<and> (if fst ret = 0 then \<exists>k'. run step (timed_move r src dst) k = (Done (Some (r\<lparr>time_ns := t\<rparr>)), k') \<and> page_at k' = m
       else run step (timed_move r src dst) k = (Done None, k2))"
proof -
  obtain t k1 k2 where m: "page_at k1 = move_pages psz src dst n False (page_at k)" "touched psz dst n (page_at k1) (page_at k2)"
    "run step (timed_move r src dst) k = run step (bnd (call (SMadvise dst (of_nat n * psz) MADV_PAGEOUT)) (\<lambda>e.
        if e \<noteq> 0 then Return None else seq (ignore (SMunmap dst (of_nat n * psz))) (Return (Some (r\<lparr>time_ns := t\<rparr>))))) k2"
    using moved_intact [OF assms] by (elim exE conjE) (rule that)
  obtain k3 ret where 3: "step k2 (SMadvise dst (of_nat n * psz) MADV_PAGEOUT) = Some (k3, ret)" "touched psz dst n (page_at k2) (page_at k3)"
    using advise_any [OF assms(4)] by blast
  obtain k4 where 4: "step k3 (SMunmap dst (of_nat n * psz)) = Some (k4, (0, 0, 0))" "page_at k4 = map_pages psz dst n None (page_at k3)"
    using munmap [of n dst k3] assms(4) by (auto simp: region_def)
  have "touched psz dst n (move_pages psz src dst n False (page_at k)) (page_at k3)" using m(1,2) 3(2) touched_trans by metis
  then have "page_at k4 = m" using moved_away [OF _ assms(5)] assms(3) 4(2) by (auto simp: populated_def)
  then show ?thesis
    by (intro exI [of _ t] exI [of _ k2] exI [of _ k3] exI [of _ ret])
      (simp add: 3(1) m(3) run_bnd_call [of step, OF 3(1)] run_ignore_seq [of step, OF 4(1)])
qed

lemma timed_move_run:
  assumes "psz = PG" "sized r n" "populated psz page_at byte_at r n src m k" "region psz dst n" "unmapped psz dst n (page_at k)"
  shows "(\<exists>k'. run step (timed_move r src dst) k = (Done None, k'))
    \<or> (\<exists>k' t. run step (timed_move r src dst) k = (Done (Some t), k') \<and> page_at k' = m)"
  using timed_move_outcome [OF assms] by (auto split: if_splits)

lemma relocate_run:
  assumes "psz = PG" "sized r n"
  shows "(\<exists>k'. run step (time_relocate r) k = (Done None, k'))
    \<or> (\<exists>k' t. run step (time_relocate r) k = (Done (Some t), k') \<and> page_at k' = page_at k)"
proof -
  have r: "0 < n" "n \<le> 2 ^ 20" "old_len r = of_nat n * psz" "new_len r = of_nat n * psz" "unat (pop_len r) \<le> n * unat psz"
    "align r = 0 \<or> align r = PMD_SIZE" using assms by (simp_all add: sized_def)
  from populate_run [OF assms(1) r(1,2,6,3,5), of k] show ?thesis
  proof (elim disjE exE conjE)
    fix k1 assume "run step (map_and_populate_region r) k = (Done 0, k1)"
    then show ?thesis by (simp add: time_relocate_def run_bnd)
  next
    fix k1 src assume 1: "run step (map_and_populate_region r) k = (Done src, k1)" "fresh_range psz [PROT_READ, PROT_WRITE] src n (page_at k) (page_at k1)"
      "\<forall>i<unat (pop_len r). byte_at k1 (src + of_nat i) = CHR ''x''"
    then have p: "populated psz page_at byte_at r n src (page_at k) k1" by (simp add: populated_def)
    note start = time_relocate_def run_bnd_Done [of step, OF 1(1)]
    from reserve_run [OF assms(1) r(1,2,6,4), of k1] show ?thesis
    proof (elim disjE exE conjE)
      fix k2 assume 2: "run step (reserve_region r) k1 = (Done 0, k2)"
      obtain k3 where "step k2 (SMunmap src (of_nat n * psz)) = Some (k3, (0, 0, 0))"
        using munmap [of n src k2] fresh_range_facts(1) [OF 1(2)] by (auto simp: region_def)
      then show ?thesis using r(3) by (cases "src = 0") (simp_all add: start run_bnd_Done [of step, OF 2] run_ignore_seq [of step])
    next
      fix k2 dst assume 2: "run step (reserve_region r) k1 = (Done dst, k2)" "region psz dst n" "unmapped psz dst n (page_at k1)" "page_at k2 = page_at k1"
        "bytes_kept psz page_at byte_at k1 k2"
      have i: "i < n * unat psz" if "i < unat (pop_len r)" for i using that r(5) by linarith
      then have "populated psz page_at byte_at r n src (page_at k) k2" using p 2(4,5) fresh_range_facts(1,4) [OF 1(2)]
        by (simp add: populated_def bytes_kept_def)
      note t = timed_move_run [OF assms this 2(2)]
      obtain k3 where "step k2 (SMunmap src (of_nat n * psz)) = Some (k3, (0, 0, 0))"
        using munmap [of n src k2] fresh_range_facts(1) [OF 1(2)] by (auto simp: region_def)
      then show ?thesis using t 2(3,4) r(3)
        by (cases "src = 0"; cases "dst = 0") (simp_all add: start run_bnd_Done [of step, OF 2(1)] run_ignore_seq [of step])
    qed
  qed
qed

lemma restores_bnd: "restores step page_at p k \<Longrightarrow> (\<And>x k'. restores step page_at (f x) k') \<Longrightarrow> restores step page_at (bnd p f) k"
  unfolding restores_def by (auto simp: run_bnd split: prod.splits outcome.splits) metis+

lemma restores_bench_remap:
  assumes "psz = PG" "0 < n" "n \<le> 2 ^ 20" "unat pop \<le> n * unat PG" "algn = 0 \<or> algn = PMD_SIZE"
  shows "restores step page_at (bench_remap (of_nat n * PG) relocate pop nohg algn) k"
proof -
  let ?r = "\<lparr>additional_flags = (if relocate then [MREMAP_MUST_RELOCATE_ANON] else []), nohuge = nohg,
    old_len = of_nat n * PG, new_len = of_nat n * PG, pop_len = pop, align = algn, time_ns = 0\<rparr>"
  have "sized ?r n" using assms by (simp add: sized_def)
  from relocate_run [OF assms(1) this, of k] show ?thesis
    by (auto simp: bench_remap_def restores_def run_bnd fatal_def)
qed

lemma restores_bench_step:
  assumes "psz = PG" "0 < n" "n \<le> 2 ^ 20" "\<And>len. pop len \<le> len"
  shows "restores step page_at (bench_step pop nohg algn (of_nat n * PG) t) k"
proof -
  have "unat (of_nat n * PG) = n * unat PG" by (rule unat_index [of PG "2 ^ 20 + 1"]) (use assms(3) unat_PG in \<open>simp_all add: fits_def\<close>)
  then have p: "unat (pop (of_nat n * PG)) \<le> n * unat PG" using assms(4) [of "of_nat n * PG"] by (simp add: word_le_nat_alt)
  have "restores step page_at (bench_remap (of_nat n * PG) relocate (pop (of_nat n * PG)) nohg (if b then PMD_SIZE else 0)) k'" for relocate b k'
    by (rule restores_bench_remap [OF assms(1-3) p]) simp
  then show ?thesis unfolding bench_step_def remap_normal_def remap_relocate_def by (intro restores_bnd restores_Return)
qed

lemma restores_small_sizes:
  assumes "psz = PG" "\<And>len. pop len \<le> len" "0 < c"
  shows "restores step page_at (small_sizes pop nohg algn c t) k"
  using assms(3)
proof (induction "512 - c" arbitrary: c t k rule: less_induct)
  case less
  show ?case
  proof (cases "c < 512")
    case True
    then have "restores step page_at (small_sizes pop nohg algn (c + 1) t') k'" for t' k' using less.hyps [of "c + 1"] less.prems by simp
    then show ?thesis using True less.prems restores_bench_step [OF assms(1) _ _ assms(2), of c nohg algn]
      by (subst small_sizes.simps) (simp add: unat_PG unat_MB restores_bnd)
  qed (subst small_sizes.simps, simp add: unat_PG unat_MB)
qed

lemma restores_large_sizes:
  assumes "psz = PG" "\<And>len. pop len \<le> len" "0 < c"
  shows "restores step page_at (large_sizes pop nohg algn c t) k"
  using assms(3)
proof (induction "1001 - c" arbitrary: c t k rule: less_induct)
  case less
  show ?case
  proof (cases "c \<le> 1000")
    case True
    then have "restores step page_at (large_sizes pop nohg algn (c + MB_INTERVAL) t') k'" for t' k'
      using less.hyps [of "c + MB_INTERVAL"] less.prems by (simp add: MB_INTERVAL_def)
    moreover have "of_nat c * MB = of_nat (c * 256) * PG" by (simp add: MB_def PG_def)
    ultimately show ?thesis using True less.prems restores_bench_step [OF assms(1) _ _ assms(2), of "c * 256" nohg algn]
      by (subst large_sizes.simps) (simp add: restores_bnd)
  qed (subst large_sizes.simps, simp)
qed

lemma restores_main:
  assumes "psz = PG" "\<And>i len. pop i len \<le> len"
  shows "restores step page_at (mremap_bench_main pop report) k"
proof -
  have "restores step page_at (measure_moves (pop i) nohg algn) k'" for i nohg algn k'
    unfolding measure_moves_def
    by (rule restores_bnd [OF restores_small_sizes [OF assms(1)]]) (use assms(2) in \<open>auto intro: restores_large_sizes [OF assms(1)]\<close>)
  then have m: "restores step page_at (time_move pop report i nohg algn) k'" for i nohg algn k'
    unfolding time_move_def by (intro restores_bnd restores_ignore) (simp_all add: harmless_def)
  have "restores step page_at (seqs (map (\<lambda>i. time_move pop report i nohg algn) is)) k'" for nohg algn "is" k'
    by (rule restores_seqs) (use m in auto)
  then show ?thesis unfolding mremap_bench_main_def by (intro restores_seq restores_Return)
qed

end

section \<open>The totals\<close>

lemma bench_step_Done:
  assumes "run step (bench_step pop nohg algn len t) k = (Done t', k')"
  shows "\<exists>a b. t' = t\<lparr>max_remap := max (max_remap t) b, max_normal := max (max_normal t) a, tot_normal := tot_normal t + a, tot_remap := tot_remap t + b\<rparr>"
  using assms by (auto simp: bench_step_def run_bnd split: prod.splits outcome.splits)

text \<open>The times of the moves that have been made: the first of a pair is the ordinary one.\<close>

definition adds_up :: "(u64 \<times> u64) list \<Rightarrow> totals \<Rightarrow> totals \<Rightarrow> bool" where
  "adds_up ts t t' \<longleftrightarrow> tot_normal t' = tot_normal t + sum_list (map fst ts) \<and> tot_remap t' = tot_remap t + sum_list (map snd ts)
     \<and> max_normal t' = fold max (map fst ts) (max_normal t) \<and> max_remap t' = fold max (map snd ts) (max_remap t)"

lemma adds_up_Nil: "adds_up [] t (t\<lparr>tot_count := c\<rparr>)"
  by (simp add: adds_up_def)

lemma adds_up_Cons:
  assumes "run step (bench_step pop nohg algn len t) k = (Done t1, k1)" "adds_up ts t1 t'"
  shows "\<exists>x. adds_up (x # ts) t t'"
proof -
  obtain a b where "t1 = t\<lparr>max_remap := max (max_remap t) b, max_normal := max (max_normal t) a, tot_normal := tot_normal t + a, tot_remap := tot_remap t + b\<rparr>"
    using bench_step_Done [OF assms(1)] by blast
  then show ?thesis using assms(2) by (intro exI [of _ "(a, b)"]) (simp add: adds_up_def max.commute algebra_simps)
qed

lemma adds_up_append: "adds_up ts t t' \<Longrightarrow> adds_up us t' t'' \<Longrightarrow> adds_up (ts @ us) t t''"
  by (simp add: adds_up_def algebra_simps)

lemma small_sizes_Done:
  assumes "run step (small_sizes pop nohg algn c t) k = (Done t', k')" "c \<le> 512"
  shows "\<exists>ts. length ts = 512 - c \<and> adds_up ts t t'"
  using assms
proof (induction "512 - c" arbitrary: c t k rule: less_induct)
  case less
  show ?case
  proof (cases "c < 512")
    case True
    then obtain t1 k1 where 1: "run step (bench_step pop nohg algn (of_nat c * PG) t) k = (Done t1, k1)"
      "run step (small_sizes pop nohg algn (c + 1) t1) k1 = (Done t', k')"
      using less.prems(1) by (subst (asm) small_sizes.simps) (auto simp: unat_PG unat_MB run_bnd split: prod.splits outcome.splits)
    have "512 - (c + 1) < 512 - c" "c + 1 \<le> 512" using True by simp_all
    from less.hyps [OF this(1) 1(2) this(2)] obtain ts where ts: "length ts = 512 - (c + 1)" "adds_up ts t1 t'" by blast
    obtain x where "adds_up (x # ts) t t'" using adds_up_Cons [OF 1(1) ts(2)] by blast
    then show ?thesis using ts(1) True by (intro exI [of _ "x # ts"]) simp
  next
    case False
    then show ?thesis using less.prems adds_up_Nil by (subst (asm) small_sizes.simps) (auto simp: unat_PG unat_MB)
  qed
qed

lemma large_sizes_Done:
  assumes "run step (large_sizes pop nohg algn c t) k = (Done t', k')" "c \<le> 1100"
  shows "\<exists>ts. adds_up ts t t' \<and> tot_count t' = c + 100 * length ts \<and> 1000 < tot_count t' \<and> tot_count t' \<le> 1100"
  using assms
proof (induction "1001 - c" arbitrary: c t k rule: less_induct)
  case less
  show ?case
  proof (cases "c \<le> 1000")
    case True
    then obtain t1 k1 where 1: "run step (bench_step pop nohg algn (of_nat c * MB) t) k = (Done t1, k1)"
      "run step (large_sizes pop nohg algn (c + MB_INTERVAL) t1) k1 = (Done t', k')"
      using less.prems(1) by (subst (asm) large_sizes.simps) (auto simp: run_bnd split: prod.splits outcome.splits)
    have "1001 - (c + MB_INTERVAL) < 1001 - c" "c + MB_INTERVAL \<le> 1100" using True by (simp_all add: MB_INTERVAL_def)
    from less.hyps [OF this(1) 1(2) this(2)] obtain ts where ts: "adds_up ts t1 t'" "tot_count t' = c + MB_INTERVAL + 100 * length ts"
      "1000 < tot_count t'" "tot_count t' \<le> 1100" by blast
    obtain x where "adds_up (x # ts) t t'" using adds_up_Cons [OF 1(1) ts(1)] by blast
    then show ?thesis using ts(2-4) by (intro exI [of _ "x # ts"]) (simp add: MB_INTERVAL_def)
  next
    case False
    then show ?thesis using less.prems adds_up_Nil by (subst (asm) large_sizes.simps) (auto intro!: exI [of _ "[]"])
  qed
qed

section \<open>Properties\<close>

text \<open>C36. Whatever sizes are moved, the benchmark ends with status 1 or completes with exactly the pages of the process mapped that were mapped at its
  start: each region, each gap that is left for alignment and each place that is reserved has been given back.\<close>

theorem mremap_bench_restores:
  assumes "byte_kernel step page_at PG byte_at" "\<forall>i len. pop i len \<le> len"
  shows "restores step page_at (mremap_bench_main pop report) k"
  using byte_kernel.restores_main [OF assms(1)] assms(2) by blast

definition bk_start :: bk where
  "bk_start = (\<lparr>pk_pages = \<lambda>_. None, pk_out = []\<rparr>, \<lambda>_. CHR 0x00)"

lemma PG_PSZ: "PG = PSZ"
  by (simp add: PG_def PSZ_def)

theorem mremap_bench_restores_witness:
  "restores bk_step (\<lambda>km. pk_pages (fst km)) (mremap_bench_main (\<lambda>i len. len) (\<lambda>i nohg algn t. ''took'')) bk_start"
  by (rule mremap_bench_restores [of bk_step "\<lambda>km. pk_pages (fst km)" snd]) (use bk.byte_kernel_axioms in \<open>simp_all add: PG_PSZ\<close>)

text \<open>Once the source is populated and the destination reserved, the check of the moved bytes never fails: the move is reported as failed only
  when the kernel refuses to page the region out, and otherwise all is unmapped again.\<close>

theorem timed_move_intact:
  assumes "byte_kernel step page_at PG byte_at" "sized r n" "populated PG page_at byte_at r n src m k" "region PG dst n" "unmapped PG dst n (page_at k)"
  shows "\<exists>t k1 k2 ret. step k1 (SMadvise dst (of_nat n * PG) MADV_PAGEOUT) = Some (k2, ret)
    \<and> (if fst ret = 0 then \<exists>k'. run step (timed_move r src dst) k = (Done (Some (r\<lparr>time_ns := t\<rparr>)), k') \<and> page_at k' = m
       else run step (timed_move r src dst) k = (Done None, k2))"
  by (rule byte_kernel.timed_move_outcome [OF assms(1) refl assms(2-5)])

definition small_move :: relocate_struct where
  "small_move = \<lparr>additional_flags = [], nohuge = False, old_len = PG, new_len = PG, pop_len = 3, align = 0, time_ns = 0\<rparr>"

definition bk_populated :: bk where
  "bk_populated = (\<lparr>pk_pages = map_pages PSZ 0x10000 1 (Some \<lparr>p_prot = [PROT_READ, PROT_WRITE], p_pop = True\<rparr>) (\<lambda>_. None), pk_out = []\<rparr>, \<lambda>_. CHR ''x'')"

lemma bk_regions: "region PSZ 0x10000 1" "region PSZ 0x20000 1"
proof -
  have "page_addr PSZ 0x10000" "page_addr PSZ 0x20000"
    unfolding page_addr_def PSZ_def by (rule exI [of _ 16], simp) (rule exI [of _ 32], simp)
  then show "region PSZ 0x10000 1" "region PSZ 0x20000 1" by (simp_all add: region_def fits_def PSZ_def)
qed

theorem timed_move_intact_witness:
  "\<exists>t k'. run bk_step (timed_move small_move 0x10000 0x20000) bk_populated = (Done (Some (small_move\<lparr>time_ns := t\<rparr>)), k') \<and> pk_pages (fst k') = (\<lambda>_. None)"
proof -
  have f: "fresh_range PSZ [PROT_READ, PROT_WRITE] 0x10000 1 (\<lambda>_. None) (pk_pages (fst bk_populated))"
    using bk_regions by (simp add: fresh_range_def bk_populated_def touched_def same_outside_def unmapped_def map_pages_def)
  have "\<exists>t k1 k2 ret. bk_step k1 (SMadvise 0x20000 (of_nat 1 * PG) MADV_PAGEOUT) = Some (k2, ret)
    \<and> (if fst ret = 0 then \<exists>k'. run bk_step (timed_move small_move 0x10000 0x20000) bk_populated = (Done (Some (small_move\<lparr>time_ns := t\<rparr>)), k')
           \<and> pk_pages (fst k') = (\<lambda>_. None)
       else run bk_step (timed_move small_move 0x10000 0x20000) bk_populated = (Done None, k2))"
  proof (rule timed_move_intact [of bk_step "\<lambda>km. pk_pages (fst km)" snd])
    show "byte_kernel bk_step (\<lambda>km. pk_pages (fst km)) PG snd" using bk.byte_kernel_axioms by (simp add: PG_PSZ)
    show "sized small_move 1" by (simp add: sized_def small_move_def unat_PG)
    show "populated PG (\<lambda>km. pk_pages (fst km)) snd small_move 1 0x10000 (\<lambda>_. None) bk_populated"
      using f by (simp add: populated_def PG_PSZ) (simp add: bk_populated_def)
    show "region PG 0x20000 1" using bk_regions by (simp add: PG_PSZ)
    show "unmapped PG 0x20000 1 (pk_pages (fst bk_populated))"
      by (simp add: unmapped_def bk_populated_def map_pages_def in_pages_def pg_at_def)
  qed
  then show ?thesis by (auto simp: bk_step_def pk_step_def split: prod.splits)
qed

text \<open>The averages that are printed are not averages: the totals add up 521 moves of each kind, but the counter they are divided by has been reset
  for the second loop and leaves it as 1001.\<close>

theorem bench_divisor:
  assumes "run step (measure_moves pop nohg algn) k = (Done t, k')"
  shows "\<exists>ts. length ts = 521 \<and> adds_up ts no_totals t \<and> tot_count t = 1001"
proof -
  obtain t1 k1 where 1: "run step (small_sizes pop nohg algn 1 no_totals) k = (Done t1, k1)" "run step (large_sizes pop nohg algn 1 t1) k1 = (Done t, k')"
    using assms by (auto simp: measure_moves_def run_bnd split: prod.splits outcome.splits)
  obtain ts where ts: "length ts = 511" "adds_up ts no_totals t1" using small_sizes_Done [OF 1(1)] by auto
  obtain us where us: "adds_up us t1 t" "tot_count t = 1 + 100 * length us" "1000 < tot_count t" "tot_count t \<le> 1100"
    using large_sizes_Done [OF 1(2)] by auto
  have "length us = 10" using us(2-4) by linarith
  then show ?thesis using ts(1) us(2) adds_up_append [OF ts(2) us(1)] by (intro exI [of _ "ts @ us"]) simp
qed

text \<open>A kernel that grants everything and takes no time.\<close>

definition granting :: "unit kernel" where
  "granting k q = Some ((), case q of SMmap _ _ _ _ \<Rightarrow> (4096, 0, 0) | SMremap _ _ _ _ b \<Rightarrow> (b, 0, 0) | _ \<Rightarrow> (0, 0, 0))"

lemma granting_step: "\<exists>t'. run granting (bench_step (\<lambda>_. 0) False False len t) () = (Done t', ())"
  by (simp add: bench_step_def remap_normal_def remap_relocate_def bench_remap_def time_relocate_def timed_move_def map_and_populate_region_def
      reserve_region_def mmap_aligned_def check_move_def clock_ns_def call_def ignore_def seq_def granting_def MAP_FAILED_def Let_def)

lemma granting_small: "\<exists>t'. run granting (small_sizes (\<lambda>_. 0) False False c t) () = (Done t', ())"
proof (induction "512 - c" arbitrary: c t rule: less_induct)
  case less
  obtain t1 where t1: "run granting (bench_step (\<lambda>_. 0) False False (of_nat c * PG) t) () = (Done t1, ())" using granting_step by blast
  show ?case
  proof (cases "c < 512")
    case True
    then show ?thesis using less.hyps [of "c + 1" t1] by (subst small_sizes.simps) (simp add: unat_PG unat_MB run_bnd t1)
  qed (subst small_sizes.simps, simp add: unat_PG unat_MB)
qed

lemma granting_large: "\<exists>t'. run granting (large_sizes (\<lambda>_. 0) False False c t) () = (Done t', ())"
proof (induction "1001 - c" arbitrary: c t rule: less_induct)
  case less
  obtain t1 where t1: "run granting (bench_step (\<lambda>_. 0) False False (of_nat c * MB) t) () = (Done t1, ())" using granting_step by blast
  show ?case
  proof (cases "c \<le> 1000")
    case True
    then show ?thesis using less.hyps [of "c + MB_INTERVAL" t1] by (subst large_sizes.simps) (simp add: MB_INTERVAL_def run_bnd t1)
  qed (subst large_sizes.simps, simp)
qed

theorem bench_divisor_witness:
  "\<exists>t ts. run granting (measure_moves (\<lambda>_. 0) False False) () = (Done t, ()) \<and> length ts = 521 \<and> adds_up ts no_totals t \<and> tot_count t = 1001"
proof -
  obtain t1 t where "run granting (small_sizes (\<lambda>_. 0) False False 1 no_totals) () = (Done t1, ())" "run granting (large_sizes (\<lambda>_. 0) False False 1 t1) () = (Done t, ())"
    using granting_small granting_large by metis
  then have "run granting (measure_moves (\<lambda>_. 0) False False) () = (Done t, ())" by (simp add: measure_moves_def run_bnd)
  with bench_divisor [OF this] show ?thesis by blast
qed

end
