(* ===== verification/Pagestat_Example.thy ===== *)
theory Pagestat_Example
  imports Print_Correct
begin

text \<open>
  The program \<open>pagestat/example.c\<close>, the library as it is meant to be used: a snapshot of a new mapping before and after the first store to it, the
  first printed, the difference printed, both released.
\<close>

section \<open>The program\<close>

text \<open>\<open>before\<close> and \<open>after\<close> are the files of the kernel at the two snapshots, \<open>ptr\<close> is the answer to \<open>mmap\<close>. The result is the status, the output
  and the memory and streams that are in use.\<close>

definition example_main :: "kpf \<Rightarrow> garbage \<Rightarrow> procfs \<Rightarrow> procfs \<Rightarrow> u64 option \<Rightarrow> bool \<Rightarrow> io \<Rightarrow> cerr + int \<times> string \<times> io" where
  "example_main kpf g before after ptr unmaps io = (case ptr of
      None \<Rightarrow> Inr (EXIT_FAILURE, [], io)
    | Some ptr \<Rightarrow>
        sbind (pagestat_snapshot before g ptr io) (\<lambda>(ps_before, io).
        sbind (pagestat_print kpf before ps_before (emit (''=== BEFORE ==='' @ newline @ newline) init_printer)) (\<lambda>(_, st).
        sbind (pagestat_snapshot after g ptr io) (\<lambda>(ps_after, io).
        sbind (pagestat_print_diff kpf after ps_before ps_after (emit (newline @ ''=== AFTER ==='' @ newline @ newline) st)) (\<lambda>(_, st).
          let io = pagestat_free ps_after (pagestat_free ps_before io)
          in if \<not> unmaps then Inr (EXIT_FAILURE, out st, io) else Inr (EXIT_SUCCESS, out st, io))))))"

section \<open>What it reports\<close>

lemma snapshot_self: "pagestat_snapshot env g vaddr io = pagestat_snapshot_remote env g ''self'' vaddr io"
  by (simp add: pagestat_snapshot_def pagestat_snapshot_remote_def)

lemma self_paths: "proc_path ''self'' ''/pagemap'' = Inr ''/proc/self/pagemap''" "proc_path ''self'' ''/smaps'' = Inr ''/proc/self/smaps''"
  by code_simp+

text \<open>The files show a mapping at the address: its lines and a page map for all its pages.\<close>

definition shows_mapping :: "procfs \<Rightarrow> u64 \<Rightarrow> pagestat \<Rightarrow> bool" where
  "shows_mapping env vaddr ps \<longleftrightarrow> (\<exists>vs v. list_all wf_vma vs \<and> text_file env ''/proc/self/smaps'' = Some (smaps_lines vs)
     \<and> List.find (hit vaddr) vs = Some v \<and> snapshot_of env ''/proc/self/pagemap'' v = Some ps)"

lemma snapshot_shown:
  assumes "shows_mapping env vaddr ps"
  shows "pagestat_snapshot env g vaddr io = Inr (Some ps, io\<lparr>live := live io + 1 + blocks ps\<rparr>)" "printable env ps"
proof -
  obtain vs v where v: "list_all wf_vma vs" "text_file env ''/proc/self/smaps'' = Some (smaps_lines vs)"
    "List.find (hit vaddr) vs = Some v" "snapshot_of env ''/proc/self/pagemap'' v = Some ps"
    using assms by (auto simp: shows_mapping_def)
  show "pagestat_snapshot env g vaddr io = Inr (Some ps, io\<lparr>live := live io + 1 + blocks ps\<rparr>)"
    using snapshot_remote_eq [OF v(1) self_paths v(2), of g vaddr io] v(3,4) by (simp add: snapshot_self lost_def held_def Let_def)
  show "printable env ps" using snapshot_printable [OF v(4)] .
qed

lemma freed_both: "pagestat_free (Some b) (pagestat_free (Some a) (io\<lparr>live := live io + 2 + blocks a + blocks b\<rparr>)) = io\<lparr>live := live io + 2\<rparr>"
  by (simp add: pagestat_free_eq)

text \<open>The library put together as its example does: the output is the first snapshot's header and the runs of its pages, then what \<open>pagestat_print_diff\<close>
  makes of the two snapshots, which finds a difference exactly when some page of the mapping has changed. The program ends with status 0, with no stream open
  and both snapshots released; what remains are the two line buffers that the snapshots lose.\<close>

theorem example_reports:
  assumes "shows_mapping before ptr a" "shows_mapping after ptr b" "\<not> hidden a" "page_size before = page_size after"
    "vma_start a = vma_start b" "vma_end a = vma_end b" "vm_size a = vm_size b"
  shows "\<exists>st st'. out st = ''=== BEFORE ==='' @ newline @ newline @ print_header a @ pages_text kpf before a @ newline @ ''=== AFTER ==='' @ newline @ newline
    \<and> pagestat_print_diff kpf after (Some a) (Some b) st = Inr (\<exists>j<unat (count_virt_pages after a). entry_differs a b j, st')
    \<and> example_main kpf g before after (Some ptr) True io = Inr (EXIT_SUCCESS, out st', io\<lparr>live := live io + 2\<rparr>)"
proof -
  note a = snapshot_shown [OF assms(1)] and b = snapshot_shown [OF assms(2)]
  have c: "count_virt_pages before a = count_virt_pages after a" "count_virt_pages after b = count_virt_pages after a"
    using assms(4,7) by (simp_all add: count_virt_pages_def)
  obtain st1 where st1: "pagestat_print kpf before (Some a) (emit (''=== BEFORE ==='' @ newline @ newline) init_printer) = Inr (True, st1)"
    "out st1 = ''=== BEFORE ==='' @ newline @ newline @ print_header a @ pages_text kpf before a"
    using pagestat_print_text [OF a(2), of "emit (''=== BEFORE ==='' @ newline @ newline) init_printer" kpf] assms(3)
    by (auto simp: init_printer_def)
  let ?st = "emit (newline @ ''=== AFTER ==='' @ newline @ newline) st1"
  obtain es es' where e: "covers a es (unat (count_virt_pages after a))" "covers b es' (unat (count_virt_pages after a))"
    using a(2) b(2) c by (auto simp: printable_def)
  obtain st' where st': "pagestat_print_diff kpf after (Some a) (Some b) ?st = Inr (\<exists>j<unat (count_virt_pages after a). entry_differs a b j, st')"
    using diff_found [OF e assms(5,6), of kpf ?st] unfolding page_changes_iff by blast
  have f: "pagestat_free (Some b) (pagestat_free (Some a) (io\<lparr>live := live io + 1 + blocks a + 1 + blocks b\<rparr>)) = io\<lparr>live := live io + 2\<rparr>"
    by (simp add: pagestat_free_eq)
  have "example_main kpf g before after (Some ptr) True io = Inr (EXIT_SUCCESS, out st', io\<lparr>live := live io + 2\<rparr>)"
    using st1(1) st' f by (simp add: example_main_def a(1) b(1) Let_def)
  then show ?thesis using st' st1(2) by (intro exI [of _ ?st] exI [of _ st']) simp
qed

text \<open>A process of one mapping whose page gets a frame at the store.\<close>

definition page_env :: "u64 \<Rightarrow> procfs" where
  "page_env e = \<lparr>text_file = (\<lambda>p. if p = ''/proc/self/smaps'' then Some (smaps_lines [demo_vma 0x1000 0x2000 None]) else None),
     u64_file = (\<lambda>p. if p = ''/proc/self/pagemap'' then Some (\<lambda>off n. replicate (unat n) e) else None), page_size = 0x1000\<rparr>"

definition page_shown :: "u64 \<Rightarrow> pagestat" where
  "page_shown e = the (snapshot_of (page_env e) ''/proc/self/pagemap'' (demo_vma 0x1000 0x2000 None))"

lemma page_entries: "u64_entries (page_env e) ''/proc/self/pagemap'' 1 1 = Some [e]"
  by (simp add: u64_entries_def page_env_def)

lemma page_shown: "snapshot_of (page_env e) ''/proc/self/pagemap'' (demo_vma 0x1000 0x2000 None) = Some (page_shown e)"
  "page_shown e = with_pages (page_env e) (parsed (demo_vma 0x1000 0x2000 None)) [e]"
proof -
  have "page_size (page_env e) = 0x1000" by (simp add: page_env_def)
  moreover have "vm_size (parsed (demo_vma 0x1000 0x2000 None)) = 4" by code_simp
  moreover have "v_start (demo_vma 0x1000 0x2000 None) = 0x1000" by (simp add: demo_vma_def)
  ultimately have s: "snapshot_of (page_env e) ''/proc/self/pagemap'' (demo_vma 0x1000 0x2000 None)
      = Some (with_pages (page_env e) (parsed (demo_vma 0x1000 0x2000 None)) [e])"
    using page_entries by (simp add: snapshot_of_def count_virt_pages_def)
  then show "page_shown e = with_pages (page_env e) (parsed (demo_vma 0x1000 0x2000 None)) [e]" by (simp add: page_shown_def)
  with s show "snapshot_of (page_env e) ''/proc/self/pagemap'' (demo_vma 0x1000 0x2000 None) = Some (page_shown e)" by simp
qed

lemma page_shows: "shows_mapping (page_env e) 0x1000 (page_shown e)"
proof -
  have "list_all wf_vma [demo_vma 0x1000 0x2000 None]" by code_simp
  moreover have "List.find (hit 0x1000) [demo_vma 0x1000 0x2000 None] = Some (demo_vma 0x1000 0x2000 None)" by code_simp
  ultimately show ?thesis using page_shown(1) [of e] by (auto simp: shows_mapping_def page_env_def intro!: exI [of _ "[demo_vma 0x1000 0x2000 None]"])
qed

theorem example_reports_witness:
  "\<exists>out_text. example_main demo_kpf demo_garbage (page_env 0) (page_env 0x8000000000000005) (Some 0x1000) True \<lparr>live = 0, streams = 0\<rparr>
      = Inr (EXIT_SUCCESS, out_text, \<lparr>live = 2, streams = 0\<rparr>)"
proof -
  have f: "vma_start (page_shown e) = 0x1000" "vma_end (page_shown e) = 0x2000" "vm_size (page_shown e) = vm_size (parsed (demo_vma 0x1000 0x2000 None))"
    "\<not> hidden (page_shown e)" for e
    by (simp_all add: page_shown(2) with_pages_def tweak_counts_def hidden_def Let_def) (simp_all add: demo_vma_def)
  have ps: "page_size (page_env 0) = page_size (page_env 0x8000000000000005)" by (simp add: page_env_def)
  have e: "\<exists>st st'. out st = ''=== BEFORE ==='' @ newline @ newline @ print_header (page_shown 0) @ pages_text demo_kpf (page_env 0) (page_shown 0) @ newline @ ''=== AFTER ==='' @ newline @ newline
    \<and> pagestat_print_diff demo_kpf (page_env 0x8000000000000005) (Some (page_shown 0)) (Some (page_shown 0x8000000000000005)) st
        = Inr (\<exists>j<unat (count_virt_pages (page_env 0x8000000000000005) (page_shown 0)). entry_differs (page_shown 0) (page_shown 0x8000000000000005) j, st')
    \<and> example_main demo_kpf demo_garbage (page_env 0) (page_env 0x8000000000000005) (Some 0x1000) True \<lparr>live = 0, streams = 0\<rparr>
        = Inr (EXIT_SUCCESS, out st', \<lparr>live = 0, streams = 0\<rparr>\<lparr>live := live \<lparr>live = 0, streams = 0\<rparr> + 2\<rparr>)"
    by (rule example_reports [OF page_shows page_shows f(4) ps]) (simp_all only: f(1-3))
  show ?thesis using e by auto
qed

end
