(* ===== verification/Read_Tour.thy ===== *)
theory Read_Tour
  imports Read_Pageflags Vm_Prog "HOL-Library.Sublist" "HOL-Library.AList"
begin

text \<open>
  The program \<open>read-pageflags/read.c\<close>, which maps memory in every way there is and prints what the library of \<open>Read_Pageflags\<close>
  reports of each page before and after it is used, modified and shared with a child. The kernel is a parameter; the areas it has mapped and the files
  it has opened for the process are the interface \<open>tour_kernel\<close>.
\<close>

section \<open>The kernel\<close>

datatype area_flag = Map_Private | Map_Shared | Map_Anonymous | Map_Noreserve | Map_Hugetlb

text \<open>
  The system calls; \<open>None\<close> is a refusal, or a fatal signal for loads and stores. \<open>t_fork\<close> is the state the child starts in; \<open>t_reap\<close> makes of the state it ends
  in, and of the parent's before, the state after \<open>wait\<close>.
\<close>

record 'k tour_os =
  t_mmap :: "u64 \<Rightarrow> prot list \<Rightarrow> area_flag list \<Rightarrow> int \<Rightarrow> 'k \<Rightarrow> (u64 \<times> 'k) option"
  t_munmap :: "u64 \<Rightarrow> u64 \<Rightarrow> 'k \<Rightarrow> 'k"
  t_open :: "string \<Rightarrow> bool \<Rightarrow> 'k \<Rightarrow> (int \<times> 'k) option"
  t_close :: "int \<Rightarrow> 'k \<Rightarrow> 'k"
  t_malloc :: "u64 \<Rightarrow> 'k \<Rightarrow> u64 \<times> 'k"
  t_store :: "u64 \<Rightarrow> char \<Rightarrow> 'k \<Rightarrow> 'k option"
  t_fill :: "u64 \<Rightarrow> u64 \<Rightarrow> char \<Rightarrow> 'k \<Rightarrow> 'k option"
  t_load :: "u64 \<Rightarrow> 'k \<Rightarrow> (char \<times> 'k) option"
  t_cold :: "u64 \<Rightarrow> u64 \<Rightarrow> 'k \<Rightarrow> 'k"
  t_sleep :: "'k \<Rightarrow> 'k"
  t_fork :: "'k \<Rightarrow> 'k option"
  t_reap :: "'k \<Rightarrow> 'k \<Rightarrow> 'k"
  t_proc :: "'k \<Rightarrow> procfs"

text \<open>What does not change: the numbers of the kernel's flags, the optional devices, what is in an uninitialised buffer, the size of a page.\<close>

record surroundings =
  kpf_of :: kpf
  devs_of :: devices
  stale_buf :: string
  psize :: u64

record 'k tour =
  sys_of :: 'k
  said :: "string list"

type_synonym ('k, 'a) act = "'k tour \<Rightarrow> 'a outcome \<times> 'k tour"

definition ok :: "'a \<Rightarrow> ('k, 'a) act" where
  "ok x t = (Done x, t)"

definition leave :: "int \<Rightarrow> ('k, 'a) act" where
  "leave c t = (Exited c, t)"

definition act_bind :: "('k, 'a) act \<Rightarrow> ('a \<Rightarrow> ('k, 'b) act) \<Rightarrow> ('k, 'b) act" where
  "act_bind f g t = (case f t of (Done x, t) \<Rightarrow> g x t | (Exited c, t) \<Rightarrow> (Exited c, t) | (Killed, t) \<Rightarrow> (Killed, t))"

fun acts :: "('k, unit) act list \<Rightarrow> ('k, unit) act" where
  "acts [] = ok ()"
| "acts (f # fs) = act_bind f (\<lambda>_. acts fs)"

definition effect :: "('k \<Rightarrow> 'k) \<Rightarrow> ('k, unit) act" where
  "effect f t = (Done (), t\<lparr>sys_of := f (sys_of t)\<rparr>)"

definition access :: "('k \<Rightarrow> 'k option) \<Rightarrow> ('k, unit) act" where
  "access f t = (case f (sys_of t) of None \<Rightarrow> (Killed, t) | Some k \<Rightarrow> (Done (), t\<lparr>sys_of := k\<rparr>))"

definition say :: "string \<Rightarrow> ('k, unit) act" where
  "say s t = (Done (), t\<lparr>said := said t @ [s]\<rparr>)"

text \<open>A failed \<open>mmap\<close> delivers \<open>MAP_FAILED\<close>, a failed \<open>open\<close> - 1.\<close>

definition mmap_area :: "'k tour_os \<Rightarrow> u64 \<Rightarrow> prot list \<Rightarrow> area_flag list \<Rightarrow> int \<Rightarrow> ('k, u64) act" where
  "mmap_area K len pr fl fd t = (case t_mmap K len pr fl fd (sys_of t) of
      None \<Rightarrow> (Done MAP_FAILED, t) | Some (a, k) \<Rightarrow> (Done a, t\<lparr>sys_of := k\<rparr>))"

definition open_file :: "'k tour_os \<Rightarrow> string \<Rightarrow> bool \<Rightarrow> ('k, int) act" where
  "open_file K path rw t = (case t_open K path rw (sys_of t) of
      None \<Rightarrow> (Done (- 1), t) | Some (fd, k) \<Rightarrow> (Done fd, t\<lparr>sys_of := k\<rparr>))"

definition stop_if :: "bool \<Rightarrow> ('k, unit) act" where
  "stop_if b = (if b then leave 1 else ok ())"

definition virt :: "'k tour_os \<Rightarrow> surroundings \<Rightarrow> u64 \<Rightarrow> string \<Rightarrow> ('k, bool) act" where
  "virt K S ptr descr t =
     (case print_flags_virt (kpf_of S) (t_proc K (sys_of t)) (devs_of S) (stale_buf S) ptr descr of
        Inl (Exit c) \<Rightarrow> (Exited c, t)
      | Inl _ \<Rightarrow> (Killed, t)
      | Inr (b, s) \<Rightarrow> (Done b, t\<lparr>said := said t @ [s]\<rparr>))"

text \<open>\<open>if (!print_flags_virt(...)) return EXIT_FAILURE;\<close> and the call alone.\<close>

definition must :: "'k tour_os \<Rightarrow> surroundings \<Rightarrow> u64 \<Rightarrow> string \<Rightarrow> ('k, unit) act" where
  "must K S ptr descr = act_bind (virt K S ptr descr) (\<lambda>b. stop_if (\<not> b))"

definition show_page :: "'k tour_os \<Rightarrow> surroundings \<Rightarrow> u64 \<Rightarrow> string \<Rightarrow> ('k, unit) act" where
  "show_page K S ptr descr = act_bind (virt K S ptr descr) (\<lambda>_. ok ())"

definition store_at :: "'k tour_os \<Rightarrow> u64 \<Rightarrow> char \<Rightarrow> ('k, unit) act" where
  "store_at K a c = access (t_store K a c)"

definition load_at :: "'k tour_os \<Rightarrow> u64 \<Rightarrow> ('k, char) act" where
  "load_at K a t = (case t_load K a (sys_of t) of None \<Rightarrow> (Killed, t) | Some (c, k) \<Rightarrow> (Done c, t\<lparr>sys_of := k\<rparr>))"

definition fork_and_wait :: "'k tour_os \<Rightarrow> ('k, unit) act \<Rightarrow> ('k, unit) act" where
  "fork_and_wait K child t = (case t_fork K (sys_of t) of
      None \<Rightarrow> (Done (), t)
    | Some k \<Rightarrow> (let (r, t') = child (t\<lparr>sys_of := k\<rparr>) in (Done (), t'\<lparr>sys_of := t_reap K (sys_of t') (sys_of t)\<rparr>)))"

section \<open>The program\<close>

definition check_hugetlb :: "procfs \<Rightarrow> bool" where
  "check_hugetlb env = (case text_file env ''/sys/kernel/mm/hugepages/hugepages-2048kB/free_hugepages'' of
      None \<Rightarrow> False
    | Some ls \<Rightarrow> (case scan_d (concat ls) of None \<Rightarrow> 0 | Some val \<Rightarrow> val) > 0)"

definition RW :: "prot list" where "RW = [PROT_READ, PROT_WRITE]"

text \<open>The first page is stored to before the test of \<open>MAP_FAILED\<close>.\<close>

definition tour_anon :: "'k tour_os \<Rightarrow> surroundings \<Rightarrow> ('k, unit) act" where
  "tour_anon K S = act_bind (mmap_area K (psize S) RW [Map_Private, Map_Anonymous] (- 1)) (\<lambda>ptr. acts
     [store_at K ptr (CHR ''x''), stop_if (ptr = MAP_FAILED), must K S ptr ''initial mmap'',
      access (t_fill K ptr (psize S) (CHR 123)), must K S ptr ''modified page'', effect (t_munmap K ptr (psize S))])"

definition alloc_block :: "'k tour_os \<Rightarrow> u64 \<Rightarrow> ('k, u64) act" where
  "alloc_block K n t = (let (p, k) = t_malloc K n (sys_of t) in (Done p, t\<lparr>sys_of := k\<rparr>))"

definition tour_heap :: "'k tour_os \<Rightarrow> surroundings \<Rightarrow> ('k, unit) act" where
  "tour_heap K S = act_bind (alloc_block K (psize S)) (\<lambda>ptr2. acts
     [must K S ptr2 ''initial malloc'', access (t_fill K ptr2 (psize S) (CHR 123)), must K S ptr2 ''modified malloc''])"

definition open_test :: "'k tour_os \<Rightarrow> ('k, int) act" where
  "open_test K = act_bind (open_file K ''test.txt'' True) (\<lambda>fd. act_bind (stop_if (fd = - 1)) (\<lambda>_. ok fd))"

definition tour_file :: "'k tour_os \<Rightarrow> surroundings \<Rightarrow> ('k, unit) act" where
  "tour_file K S = act_bind (open_test K) (\<lambda>fd. act_bind (mmap_area K (psize S) RW [Map_Shared] fd) (\<lambda>ptr3. acts
     [effect (t_close K fd), stop_if (ptr3 = MAP_FAILED), act_bind (load_at K ptr3) (\<lambda>_. ok ()), must K S ptr3 ''mmap file'',
      store_at K ptr3 (CHR ''Z''), must K S ptr3 ''mmap modified file'',
      effect (t_cold K ptr3 (psize S)), must K S ptr3 ''mmap modified, cold file'', effect (t_munmap K ptr3 (psize S))]))"

definition map_or_stop :: "'k tour_os \<Rightarrow> u64 \<Rightarrow> prot list \<Rightarrow> area_flag list \<Rightarrow> int \<Rightarrow> ('k, u64) act" where
  "map_or_stop K len pr fl fd = act_bind (mmap_area K len pr fl fd) (\<lambda>p. act_bind (stop_if (p = MAP_FAILED)) (\<lambda>_. ok p))"

definition first_child :: "'k tour_os \<Rightarrow> surroundings \<Rightarrow> u64 \<Rightarrow> u64 \<Rightarrow> u64 \<Rightarrow> ('k, unit) act" where
  "first_child K S ptr4 ptr4b ptr4c = acts
     [show_page K S ptr4 ''mmap anon, forked'',
      store_at K ptr4 (CHR ''y''), show_page K S ptr4 ''mmap anon, forked, modified (pre-sleep)'',
      effect (t_sleep K), show_page K S ptr4 ''mmap anon, forked, modified (after sleep)'',
      show_page K S ptr4b ''mmap private file, post-fork'', store_at K (ptr4b + 3) (CHR ''x''),
      show_page K S ptr4b ''mmap private file, post-fork (modify)'',
      act_bind (load_at K ptr4) (\<lambda>c. if c = CHR ''y'' then store_at K ptr4 (CHR ''x'') else ok ()),
      store_at K (ptr4c + 3) (CHR ''x''), show_page K S ptr4c ''mmap private file, post-fork, not populated, CoW (modify)'',
      effect (t_sleep K), show_page K S ptr4 ''mmap anon, forked, modified (after sleep, modify)'',
      show_page K S ptr4b ''mmap private file, post-fork (after sleep, modify)'']"

definition tour_fork :: "'k tour_os \<Rightarrow> surroundings \<Rightarrow> ('k, unit) act" where
  "tour_fork K S = act_bind (map_or_stop K (psize S) RW [Map_Private, Map_Anonymous] (- 1)) (\<lambda>ptr4.
     act_bind (acts [store_at K ptr4 (CHR ''x''), show_page K S ptr4 ''mmap anon, pre-fork'']) (\<lambda>_.
     act_bind (open_test K) (\<lambda>fd.
     act_bind (map_or_stop K (psize S) RW [Map_Private] fd) (\<lambda>ptr4b.
     act_bind (store_at K ptr4b (CHR ''x'')) (\<lambda>_.
     act_bind (map_or_stop K (psize S) RW [Map_Private] fd) (\<lambda>ptr4c. acts
       [store_at K ptr4c (CHR ''x''), effect (t_close K fd), show_page K S ptr4b ''mmap private file, pre-fork'',
        fork_and_wait K (first_child K S ptr4 ptr4b ptr4c)]))))))"

text \<open>The next two, and the huge page, are stored to before the test as well.\<close>

definition tour_two_pages :: "'k tour_os \<Rightarrow> surroundings \<Rightarrow> ('k, unit) act" where
  "tour_two_pages K S = act_bind (open_test K) (\<lambda>fd. act_bind (mmap_area K (psize S + 1) RW [Map_Shared] fd) (\<lambda>ptr5. acts
     [store_at K ptr5 (CHR ''x''), effect (t_close K fd), stop_if (ptr5 = MAP_FAILED),
      show_page K S ptr5 ''mmap file page 1, all bytes'', show_page K S (ptr5 + psize S) ''mmap file page 2, all bytes'']))"

definition tour_shared :: "'k tour_os \<Rightarrow> surroundings \<Rightarrow> ('k, unit) act" where
  "tour_shared K S = act_bind (mmap_area K (psize S) RW [Map_Shared, Map_Anonymous] (- 1)) (\<lambda>ptr6. acts
     [store_at K ptr6 (CHR ''x''), stop_if (ptr6 = MAP_FAILED), show_page K S ptr6 ''mmap anon, shared'',
      fork_and_wait K (acts [store_at K ptr6 (CHR ''x''), show_page K S ptr6 ''mmap anon, shared, post fork'']),
      show_page K S ptr6 ''mmap anon, shared, post fork done'', effect (t_munmap K ptr6 (psize S))])"

definition tour_noreserve :: "'k tour_os \<Rightarrow> surroundings \<Rightarrow> ('k, unit) act" where
  "tour_noreserve K S = act_bind (mmap_area K (psize S) RW [Map_Private, Map_Anonymous, Map_Noreserve] (- 1)) (\<lambda>ptr7. acts
     [store_at K ptr7 (CHR ''x''), stop_if (ptr7 = MAP_FAILED), show_page K S ptr7 ''mmap anon, noreserve''])"

definition tour_readonly :: "'k tour_os \<Rightarrow> surroundings \<Rightarrow> ('k, unit) act" where
  "tour_readonly K S = act_bind (open_file K ''test_ro.txt'' False) (\<lambda>ro_fd. act_bind (stop_if (ro_fd < 0)) (\<lambda>_.
     act_bind (map_or_stop K (psize S) [PROT_READ] [Map_Shared] ro_fd) (\<lambda>ptr8. acts
       [act_bind (load_at K ptr8) (\<lambda>_. ok ()), show_page K S ptr8 ''mmap file, readonly''])))"

definition HUGE_LEN :: u64 where "HUGE_LEN = 2 * 1024 * 1024"

definition tour_huge :: "'k tour_os \<Rightarrow> surroundings \<Rightarrow> ('k, unit) act" where
  "tour_huge K S t =
     (if \<not> check_hugetlb (t_proc K (sys_of t)) then act_bind (say (''[hugetlb pages not availble, skipping tests]'' @ [CHR 0x0A])) (\<lambda>_. leave 0) t
      else act_bind (mmap_area K HUGE_LEN RW [Map_Private, Map_Anonymous, Map_Hugetlb] (- 1)) (\<lambda>ptr_huge. acts
        [store_at K ptr_huge (CHR ''x''), stop_if (ptr_huge = MAP_FAILED), show_page K S ptr_huge ''mmap anon, hugetlb'',
         store_at K ptr_huge (CHR ''x''), store_at K (ptr_huge + psize S) (CHR ''y''), store_at K (ptr_huge + HUGE_LEN - 1) (CHR ''z''),
         show_page K S ptr_huge ''mmap anon, hugetlb, pre sleep, modification'', effect (t_sleep K),
         show_page K S ptr_huge ''mmap anon, hugetlb, post sleep, modification'']) t)"

definition read_tour_main :: "'k tour_os \<Rightarrow> surroundings \<Rightarrow> nat \<Rightarrow> ('k, unit) act" where
  "read_tour_main K S uid = acts
     [stop_if (uid \<noteq> 0), tour_anon K S, tour_heap K S, tour_file K S, tour_fork K S, tour_two_pages K S, tour_shared K S,
      tour_noreserve K S, tour_readonly K S, tour_huge K S, leave 0]"


section \<open>What the process holds\<close>

datatype owner = Mapping | Block

record area =
  a_owner :: owner
  a_len :: u64
  a_usable :: nat
  a_write :: bool

text \<open>A mapping of a file can be used as far as the pages of the file go.\<close>

definition usable :: "surroundings \<Rightarrow> (string \<Rightarrow> nat) \<Rightarrow> (int \<Rightarrow> string option) \<Rightarrow> u64 \<Rightarrow> area_flag list \<Rightarrow> int \<Rightarrow> nat" where
  "usable S bytes d len fl fd = (if Map_Anonymous \<in> set fl then unat len
     else case d fd of None \<Rightarrow> 0 | Some path \<Rightarrow> min (unat len) ((bytes path + unat (psize S) - 1) div unat (psize S) * unat (psize S)))"

definition mapping_of :: "surroundings \<Rightarrow> (string \<Rightarrow> nat) \<Rightarrow> (int \<Rightarrow> string option) \<Rightarrow> u64 \<Rightarrow> prot list \<Rightarrow> area_flag list \<Rightarrow> int \<Rightarrow> area" where
  "mapping_of S bytes d len pr fl fd = \<lparr>a_owner = Mapping, a_len = len, a_usable = usable S bytes d len fl fd, a_write = (PROT_WRITE \<in> set pr)\<rparr>"

locale tour_kernel =
  fixes K :: "'k tour_os" and S :: surroundings and areas_at :: "'k \<Rightarrow> u64 \<Rightarrow> area option" and fds :: "'k \<Rightarrow> int \<Rightarrow> string option"
    and bytes :: "string \<Rightarrow> nat"
  assumes map_law: "t_mmap K len pr fl fd k = Some (a, k') \<Longrightarrow> a \<noteq> MAP_FAILED \<and> areas_at k a = None
      \<and> areas_at k' = (areas_at k)(a \<mapsto> mapping_of S bytes (fds k) len pr fl fd) \<and> fds k' = fds k"
    and unmap_law: "areas_at k a = Some ar \<Longrightarrow> a_owner ar = Mapping \<Longrightarrow> a_len ar = len \<Longrightarrow>
      areas_at (t_munmap K a len k) = (areas_at k)(a := None) \<and> fds (t_munmap K a len k) = fds k"
    and open_law: "t_open K path rw k = Some (fd, k') \<Longrightarrow> 0 \<le> fd \<and> fds k fd = None \<and> fds k' = (fds k)(fd \<mapsto> path) \<and> areas_at k' = areas_at k"
    and close_law: "fds (t_close K fd k) = (fds k)(fd := None) \<and> areas_at (t_close K fd k) = areas_at k"
    and malloc_law: "t_malloc K n k = (p, k') \<Longrightarrow> p \<noteq> 0 \<Longrightarrow> areas_at k p = None
      \<and> areas_at k' = (areas_at k)(p \<mapsto> \<lparr>a_owner = Block, a_len = n, a_usable = unat n, a_write = True\<rparr>) \<and> fds k' = fds k"
    and store_law: "areas_at k a = Some ar \<Longrightarrow> a_write ar \<Longrightarrow> i < a_usable ar \<Longrightarrow>
      \<exists>k'. t_store K (a + of_nat i) c k = Some k' \<and> areas_at k' = areas_at k \<and> fds k' = fds k"
    and fill_law: "areas_at k a = Some ar \<Longrightarrow> a_write ar \<Longrightarrow> unat n \<le> a_usable ar \<Longrightarrow>
      \<exists>k'. t_fill K a n c k = Some k' \<and> areas_at k' = areas_at k \<and> fds k' = fds k"
    and load_law: "areas_at k a = Some ar \<Longrightarrow> i < a_usable ar \<Longrightarrow>
      \<exists>c k'. t_load K (a + of_nat i) k = Some (c, k') \<and> areas_at k' = areas_at k \<and> fds k' = fds k"
    and quiet_law: "areas_at (t_cold K a n k) = areas_at k" "fds (t_cold K a n k) = fds k" "areas_at (t_sleep K k) = areas_at k" "fds (t_sleep K k) = fds k"
    and fork_law: "t_fork K k = Some k' \<Longrightarrow> areas_at k' = areas_at k \<and> fds k' = fds k"
    and reap_law: "areas_at (t_reap K k k') = areas_at k'" "fds (t_reap K k k') = fds k'"

text \<open>A kernel that refuses nothing as long as fewer than \<open>n\<close> areas are held, files that are not empty, and page maps that can be read.\<close>

definition page_read :: "procfs \<Rightarrow> u64 \<Rightarrow> bool" where
  "page_read env ptr = (let e = u64_entry env ''/proc/self/pagemap'' (ptr div page_size env); pfn = get_pfn e in
     e \<noteq> INVALID_VALUE \<and> (pfn = INVALID_VALUE \<or> pfn \<noteq> 0 \<and> u64_entry env ''/proc/kpageflags'' pfn \<noteq> INVALID_VALUE))"

definition roomy :: "nat \<Rightarrow> nat \<Rightarrow> (u64 \<Rightarrow> area option) \<Rightarrow> bool" where
  "roomy n j h \<longleftrightarrow> finite (dom h) \<and> card (dom h) + j \<le> n"

lemma roomy_upd: "roomy n (Suc j) h \<Longrightarrow> roomy n j (h(a \<mapsto> x))"
  using card_insert_le_m1 [of "card (dom h) + 1" "dom h" a] by (auto simp: roomy_def card_insert_if)

lemma roomy_le: "roomy n j h \<Longrightarrow> i \<le> j \<Longrightarrow> roomy n i h"
  by (simp add: roomy_def)

definition grants_all :: "'k tour_os \<Rightarrow> surroundings \<Rightarrow> (string \<Rightarrow> nat) \<Rightarrow> ('k \<Rightarrow> u64 \<Rightarrow> area option) \<Rightarrow> nat \<Rightarrow> bool" where
  "grants_all K S bytes areas_at n \<longleftrightarrow> (\<forall>k. roomy n 1 (areas_at k) \<longrightarrow> (\<forall>len pr fl fd. t_mmap K len pr fl fd k \<noteq> None) \<and> (\<forall>len. fst (t_malloc K len k) \<noteq> 0))
     \<and> (\<forall>path rw k. t_open K path rw k \<noteq> None) \<and> (\<forall>k. t_fork K k \<noteq> None) \<and> 0 < bytes ''test.txt'' \<and> 0 < bytes ''test_ro.txt''
     \<and> (\<forall>k. \<exists>vs. list_all wf_vma vs \<and> text_file (t_proc K k) ''/proc/self/maps'' = Some (map header_line vs))
     \<and> (\<forall>k ptr. page_read (t_proc K k) ptr)
     \<and> devs_of S = \<lparr>dev_refcount = None, dev_pagebuffers = None\<rparr> \<and> 3 < psize S \<and> psize S < HUGE_LEN"

lemma grants_each:
  assumes "grants_all K S bytes areas_at n"
  shows "roomy n 1 (areas_at k) \<Longrightarrow> \<exists>a k'. t_mmap K len pr fl fd k = Some (a, k')" "\<exists>n k'. t_open K path rw k = Some (n, k')" "\<exists>k'. t_fork K k = Some k'"
    "0 < bytes ''test.txt''" "0 < bytes ''test_ro.txt''" "3 < psize S" "psize S < HUGE_LEN"
  using assms by (auto simp: grants_all_def simp flip: not_None_eq) (metis not_None_eq surj_pair)+

definition captioned :: "string \<Rightarrow> string \<Rightarrow> bool" where
  "captioned descr s \<longleftrightarrow> suffix ('' ['' @ descr @ '']'' @ newline) s"


lemma captioned_append: "captioned descr s \<Longrightarrow> captioned descr (u @ s)"
  by (auto simp: captioned_def suffix_def)

lemma captioned_end [simp]: "captioned descr ('' ['' @ descr @ '']'' @ newline)"
  by (simp add: captioned_def)

lemma captioned_words: "captioned descr (''(not present) ['' @ descr @ '']'' @ newline)"
proof -
  have "''(not present) ['' @ descr @ '']'' @ newline = ''(not present)'' @ '' ['' @ descr @ '']'' @ newline" by simp
  then show ?thesis using captioned_append captioned_end by metis
qed

lemma page_details_captioned:
  "\<exists>s. page_details kpf \<lparr>dev_refcount = None, dev_pagebuffers = None\<rparr> pfn kf mc descr = Inr s \<and> captioned descr s"
  unfolding page_details_def get_refcount_def print_page_buffers_def devices.simps option.case sbind_Inr
  by (rule exI, rule conjI, rule refl) (rule captioned_end captioned_append)+

lemma print_flags_virt_captioned:
  assumes "list_all wf_vma vs" "text_file env ''/proc/self/maps'' = Some (map header_line vs)" "page_read env ptr"
  shows "\<exists>s. print_flags_virt kpf env \<lparr>dev_refcount = None, dev_pagebuffers = None\<rparr> buf ptr descr = Inr (True, s) \<and> captioned descr s"
proof -
  let ?pr = "print_flags_virt_precalc kpf \<lparr>dev_refcount = None, dev_pagebuffers = None\<rparr> ptr"
  have b: "\<exists>s. sbind (page_details kpf \<lparr>dev_refcount = None, dev_pagebuffers = None\<rparr> pfn kf mc descr) (\<lambda>s. Inr (True, u @ s)) = Inr (True, s) \<and> captioned descr s" for pfn kf mc u
    using page_details_captioned [of kpf pfn kf mc descr] captioned_append by auto
  have absent: "\<exists>s. ?pr e INVALID_VALUE kf mc md descr = Inr (True, s) \<and> captioned descr s" if "e \<noteq> INVALID_VALUE" for e kf mc md
  proof -
    let ?u = "(fmt_p ptr @ '': '' @ (case md of None \<Rightarrow> [] | Some md \<Rightarrow> print_map_data md)) @ print_pagemap_flags e"
    have "?pr e INVALID_VALUE kf mc md descr = Inr (True, ?u @ ''(not present) ['' @ descr @ '']'' @ newline)"
      using that by (simp add: print_flags_virt_precalc_def)
    then show ?thesis using captioned_append [OF captioned_words] by blast
  qed
  have present: "\<exists>s. ?pr e pfn kf mc md descr = Inr (True, s) \<and> captioned descr s"
    if "e \<noteq> INVALID_VALUE" "pfn \<noteq> INVALID_VALUE" "pfn \<noteq> 0" "kf \<noteq> INVALID_VALUE" for e pfn kf mc md
  proof -
    let ?u = "((fmt_p ptr @ '': '' @ (case md of None \<Rightarrow> [] | Some md \<Rightarrow> print_map_data md)) @ print_pagemap_flags e) @ ''pfn='' @ fmt_lu pfn @ '': ''"
    have "?pr e pfn kf mc md descr = sbind (page_details kpf \<lparr>dev_refcount = None, dev_pagebuffers = None\<rparr> pfn kf mc descr) (\<lambda>s. Inr (True, ?u @ s))"
      using that by (simp add: print_flags_virt_precalc_def)
    then show ?thesis using b [of pfn kf mc ?u] by simp
  qed
  show ?thesis
    using assms(3) absent present
    by (simp add: print_flags_virt_def read_mapdata_eq [OF assms(1,2)] read_pagemap_def
      read_kpageflags_def read_mapcount_def read_u64_agrees extract_pfn_agrees page_read_def Let_def) metis
qed

text \<open>What a process that held \<open>h\<close> holds when areas have been added.\<close>

fun gains :: "(u64 \<Rightarrow> area option) \<Rightarrow> (u64 \<Rightarrow> area option) \<Rightarrow> area list \<Rightarrow> bool" where
  "gains h h' [] \<longleftrightarrow> h' = h"
| "gains h h' (a # as) \<longleftrightarrow> (\<exists>p. h p = None \<and> gains (h(p \<mapsto> a)) h' as)"

lemma gains_Cons: "h p = None \<Longrightarrow> gains (h(p \<mapsto> a)) h' as \<Longrightarrow> gains h h' (a # as)"
  by auto

definition block_area :: "surroundings \<Rightarrow> area" where
  "block_area S = \<lparr>a_owner = Block, a_len = psize S, a_usable = unat (psize S), a_write = True\<rparr>"

definition anon_area :: "u64 \<Rightarrow> area" where
  "anon_area len = \<lparr>a_owner = Mapping, a_len = len, a_usable = unat len, a_write = True\<rparr>"

definition file_area :: "surroundings \<Rightarrow> (string \<Rightarrow> nat) \<Rightarrow> string \<Rightarrow> u64 \<Rightarrow> bool \<Rightarrow> area" where
  "file_area S bytes path len w = \<lparr>a_owner = Mapping, a_len = len,
     a_usable = min (unat len) ((bytes path + unat (psize S) - 1) div unat (psize S) * unat (psize S)), a_write = w\<rparr>"

lemma area_fields [simp]: "a_owner (anon_area len) = Mapping" "a_len (anon_area len) = len" "a_usable (anon_area len) = unat len" "a_write (anon_area len)"
  "a_owner (file_area S bytes path len w) = Mapping" "a_len (file_area S bytes path len w) = len" "a_write (file_area S bytes path len w) \<longleftrightarrow> w"
  by (simp_all add: anon_area_def file_area_def)

lemma area_kinds:
  "mapping_of S bytes d len RW [Map_Private, Map_Anonymous] fd = anon_area len"
  "mapping_of S bytes d len RW [Map_Shared, Map_Anonymous] fd = anon_area len"
  "mapping_of S bytes d len RW [Map_Private, Map_Anonymous, Map_Noreserve] fd = anon_area len"
  "mapping_of S bytes d len RW [Map_Private, Map_Anonymous, Map_Hugetlb] fd = anon_area len"
  "mapping_of S bytes (d(fd \<mapsto> path)) len RW [Map_Private] fd = file_area S bytes path len True"
  "mapping_of S bytes (d(fd \<mapsto> path)) len RW [Map_Shared] fd = file_area S bytes path len True"
  "mapping_of S bytes (d(fd \<mapsto> path)) len [PROT_READ] [Map_Shared] fd = file_area S bytes path len False"
  by (simp_all add: mapping_of_def usable_def anon_area_def file_area_def RW_def)

definition first_captions :: "string list" where
  "first_captions = [''mmap anon, forked'', ''mmap anon, forked, modified (pre-sleep)'', ''mmap anon, forked, modified (after sleep)'',
     ''mmap private file, post-fork'', ''mmap private file, post-fork (modify)'',
     ''mmap private file, post-fork, not populated, CoW (modify)'', ''mmap anon, forked, modified (after sleep, modify)'',
     ''mmap private file, post-fork (after sleep, modify)'']"

section \<open>Runs of actions\<close>

definition wp :: "('k, 'a) act \<Rightarrow> ('a outcome \<Rightarrow> 'k tour \<Rightarrow> bool) \<Rightarrow> 'k tour \<Rightarrow> bool" where
  "wp f Q t \<longleftrightarrow> Q (fst (f t)) (snd (f t))"

named_theorems run_intro

lemma wp_bind [run_intro]:
  "wp f (\<lambda>r t'. case r of Done x \<Rightarrow> wp (g x) Q t' | Exited c \<Rightarrow> Q (Exited c) t' | Killed \<Rightarrow> Q Killed t') t \<Longrightarrow> wp (act_bind f g) Q t"
  by (cases "f t"; cases "fst (f t)") (simp_all add: wp_def act_bind_def)

lemma wp_acts [run_intro]: "Q (Done ()) t \<Longrightarrow> wp (acts []) Q t"
  "wp f (\<lambda>r t'. case r of Done x \<Rightarrow> wp (acts fs) Q t' | Exited c \<Rightarrow> Q (Exited c) t' | Killed \<Rightarrow> Q Killed t') t \<Longrightarrow> wp (acts (f # fs)) Q t"
  using wp_bind [of f "\<lambda>_. acts fs" Q t] by (simp_all add: wp_def ok_def)

lemma wp_ok [run_intro]: "Q (Done x) t \<Longrightarrow> wp (ok x) Q t"
  by (simp add: wp_def ok_def)

lemma wp_leave [run_intro]: "Q (Exited c) t \<Longrightarrow> wp (leave c) Q t"
  by (simp add: wp_def leave_def)

lemma wp_go_on [run_intro]: "\<not> b \<Longrightarrow> Q (Done ()) t \<Longrightarrow> wp (stop_if b) Q t"
  by (simp add: wp_def stop_if_def ok_def)

lemma wp_mono: "wp f P t \<Longrightarrow> (\<And>r t'. P r t' \<Longrightarrow> Q r t') \<Longrightarrow> wp f Q t"
  by (simp add: wp_def)

context tour_kernel
begin

text \<open>The process holds \<open>h\<close> and \<open>d\<close> and has said what it had before and reports with these captions.\<close>

definition at :: "string list \<Rightarrow> (u64 \<Rightarrow> area option) \<Rightarrow> (int \<Rightarrow> string option) \<Rightarrow> string list \<Rightarrow> 'k tour \<Rightarrow> bool" where
  "at s0 h d caps t \<longleftrightarrow> areas_at (sys_of t) = h \<and> fds (sys_of t) = d \<and> (\<exists>txt. said t = s0 @ txt \<and> list_all2 captioned caps txt)"

lemma at_same: "at s0 h d caps t \<Longrightarrow> areas_at k = h \<Longrightarrow> fds k = d \<Longrightarrow> at s0 h d caps (t\<lparr>sys_of := k\<rparr>)"
  by (simp add: at_def)

lemma at_eq: "at s0 h d caps t \<Longrightarrow> h = h' \<Longrightarrow> d = d' \<Longrightarrow> caps = caps' \<Longrightarrow> at s0 h' d' caps' t"
  by simp

lemma wp_store:
  assumes "at s0 h d caps t" "h a = Some ar" "a_write ar" "i < a_usable ar" "b = a + of_nat i" "\<And>t'. at s0 h d caps t' \<Longrightarrow> Q (Done ()) t'"
  shows "wp (store_at K b c) Q t"
proof -
  obtain k' where "t_store K b c (sys_of t) = Some k'" "areas_at k' = h" "fds k' = d"
    using store_law [of "sys_of t" a ar i c] assms(1-5) by (auto simp: at_def)
  then show ?thesis using assms(1,6) by (simp add: wp_def store_at_def access_def at_same)
qed

lemma wp_store0:
  assumes "at s0 h d caps t" "h a = Some ar" "a_write ar" "0 < a_usable ar" "\<And>t'. at s0 h d caps t' \<Longrightarrow> Q (Done ()) t'"
  shows "wp (store_at K a c) Q t"
  using wp_store [of s0 h d caps t a ar 0 a Q c] assms by simp

lemma wp_store3:
  assumes "at s0 h d caps t" "h a = Some ar" "a_write ar" "3 < a_usable ar" "\<And>t'. at s0 h d caps t' \<Longrightarrow> Q (Done ()) t'"
  shows "wp (store_at K (a + 3) c) Q t"
  using wp_store [of s0 h d caps t a ar 3 "a + 3" Q c] assms by simp

lemma wp_fill:
  assumes "at s0 h d caps t" "h a = Some ar" "a_write ar" "unat n \<le> a_usable ar" "\<And>t'. at s0 h d caps t' \<Longrightarrow> Q (Done ()) t'"
  shows "wp (access (t_fill K a n c)) Q t"
proof -
  obtain k' where "t_fill K a n c (sys_of t) = Some k'" "areas_at k' = h" "fds k' = d"
    using fill_law [of "sys_of t" a ar n c] assms(1-4) by (auto simp: at_def)
  then show ?thesis using assms(1,5) by (simp add: wp_def access_def at_same)
qed

lemma wp_load:
  assumes "at s0 h d caps t" "h a = Some ar" "0 < a_usable ar" "\<And>x t'. at s0 h d caps t' \<Longrightarrow> Q (Done x) t'"
  shows "wp (load_at K a) Q t"
proof -
  obtain x k' where "t_load K a (sys_of t) = Some (x, k')" "areas_at k' = h" "fds k' = d"
    using load_law [of "sys_of t" a ar 0] assms(1-3) by (auto simp: at_def)
  then show ?thesis using assms(1,4) by (simp add: wp_def load_at_def at_same)
qed

lemma wp_effects:
  assumes "at s0 h d caps t" "\<And>t'. at s0 h d caps t' \<Longrightarrow> Q (Done ()) t'"
  shows "wp (effect (t_cold K a n)) Q t" "wp (effect (t_sleep K)) Q t"
  using assms quiet_law by (simp_all add: wp_def effect_def at_def)

lemma wp_close:
  assumes "at s0 h d caps t" "\<And>t'. at s0 h (d(fd := None)) caps t' \<Longrightarrow> Q (Done ()) t'"
  shows "wp (effect (t_close K fd)) Q t"
  using assms close_law by (simp add: wp_def effect_def at_def)

lemma wp_munmap:
  assumes "at s0 h d caps t" "h a = Some ar" "a_owner ar = Mapping" "a_len ar = len" "\<And>t'. at s0 (h(a := None)) d caps t' \<Longrightarrow> Q (Done ()) t'"
  shows "wp (effect (t_munmap K a len)) Q t"
  using assms unmap_law [of "sys_of t" a ar len] by (auto simp: wp_def effect_def at_def)

lemma wp_mmap:
  assumes "at s0 h d caps t" "grants_all K S bytes areas_at n" "roomy n 1 h"
    "\<And>a t'. at s0 (h(a \<mapsto> mapping_of S bytes d len pr fl fd)) d caps t' \<Longrightarrow> a \<noteq> MAP_FAILED \<Longrightarrow> h a = None \<Longrightarrow> Q (Done a) t'"
  shows "wp (mmap_area K len pr fl fd) Q t"
proof -
  obtain a k' where m: "t_mmap K len pr fl fd (sys_of t) = Some (a, k')" using grants_each(1) [OF assms(2), of "sys_of t" len pr fl fd] assms(1,3) unfolding at_def by blast
  show ?thesis using map_law [OF m] assms(1) m assms(4) [of a "t\<lparr>sys_of := k'\<rparr>"] by (simp add: wp_def mmap_area_def at_def)
qed

lemma wp_map_or_stop:
  assumes "at s0 h d caps t" "grants_all K S bytes areas_at n" "roomy n 1 h"
    "\<And>a t'. at s0 (h(a \<mapsto> mapping_of S bytes d len pr fl fd)) d caps t' \<Longrightarrow> h a = None \<Longrightarrow> Q (Done a) t'"
  shows "wp (map_or_stop K len pr fl fd) Q t"
  unfolding map_or_stop_def by (rule wp_bind, rule wp_mmap [OF assms(1-3)]) (auto intro!: run_intro assms(4))

lemma wp_open:
  assumes "at s0 h d caps t" "grants_all K S bytes areas_at n"
    "\<And>fd t'. at s0 h (d(fd \<mapsto> path)) caps t' \<Longrightarrow> 0 \<le> fd \<Longrightarrow> d fd = None \<Longrightarrow> Q (Done fd) t'"
  shows "wp (open_file K path rw) Q t"
proof -
  obtain fd k' where m: "t_open K path rw (sys_of t) = Some (fd, k')" using grants_each(2) [OF assms(2)] by blast
  show ?thesis using open_law [OF m] assms(1) m assms(3) [of fd "t\<lparr>sys_of := k'\<rparr>"] by (simp add: wp_def open_file_def at_def)
qed

lemma wp_open_test:
  assumes "at s0 h d caps t" "grants_all K S bytes areas_at n"
    "\<And>fd t'. at s0 h (d(fd \<mapsto> ''test.txt'')) caps t' \<Longrightarrow> 0 \<le> fd \<Longrightarrow> d fd = None \<Longrightarrow> Q (Done fd) t'"
  shows "wp (open_test K) Q t"
  unfolding open_test_def by (rule wp_bind, rule wp_open [OF assms(1,2)]) (auto intro!: run_intro assms(3))

lemma wp_block:
  assumes "at s0 h d caps t" "grants_all K S bytes areas_at n" "roomy n 1 h"
    "\<And>p t'. at s0 (h(p \<mapsto> \<lparr>a_owner = Block, a_len = len, a_usable = unat len, a_write = True\<rparr>)) d caps t' \<Longrightarrow> h p = None \<Longrightarrow> Q (Done p) t'"
  shows "wp (alloc_block K len) Q t"
proof -
  obtain p k' where m: "t_malloc K len (sys_of t) = (p, k')" by fastforce
  moreover have "p \<noteq> 0" using assms(1-3) m by (metis fst_conv grants_all_def at_def)
  ultimately show ?thesis using malloc_law [OF m] assms(1) assms(4) [of p "t\<lparr>sys_of := k'\<rparr>"] by (simp add: wp_def alloc_block_def at_def)
qed

lemma wp_virt:
  assumes "at s0 h d caps t" "grants_all K S bytes areas_at n" "\<And>t'. at s0 h d (caps @ [descr]) t' \<Longrightarrow> Q (Done True) t'"
  shows "wp (virt K S p descr) Q t"
proof -
  have g: "devs_of S = \<lparr>dev_refcount = None, dev_pagebuffers = None\<rparr>" "page_read (t_proc K (sys_of t)) p"
    "\<exists>vs. list_all wf_vma vs \<and> text_file (t_proc K (sys_of t)) ''/proc/self/maps'' = Some (map header_line vs)"
    using assms(2) by (auto simp: grants_all_def)
  then obtain s where s: "print_flags_virt (kpf_of S) (t_proc K (sys_of t)) (devs_of S) (stale_buf S) p descr = Inr (True, s)" "captioned descr s"
    using print_flags_virt_captioned by metis
  have "at s0 h d (caps @ [descr]) (t\<lparr>said := said t @ [s]\<rparr>)"
    using assms(1) s(2) by (force simp: at_def list_all2_appendI)
  then show ?thesis using s(1) assms(3) by (simp add: wp_def virt_def)
qed

lemma wp_must:
  assumes "at s0 h d caps t" "grants_all K S bytes areas_at n" "\<And>t'. at s0 h d (caps @ [descr]) t' \<Longrightarrow> Q (Done ()) t'"
  shows "wp (must K S p descr) Q t" "wp (show_page K S p descr) Q t"
  unfolding must_def show_page_def by (rule wp_bind, rule wp_virt [OF assms(1,2)], use assms(3) in \<open>simp add: wp_def stop_if_def ok_def\<close>)+

lemma wp_fork:
  assumes "at s0 h d caps t" "grants_all K S bytes areas_at n" "\<And>t'. at s0 h d caps t' \<Longrightarrow> wp child (\<lambda>r t'. at s0 h' d' caps' t') t'"
    "\<And>t'. at s0 h d caps' t' \<Longrightarrow> Q (Done ()) t'"
  shows "wp (fork_and_wait K child) Q t"
proof -
  obtain k where k: "t_fork K (sys_of t) = Some k" using grants_each(3) [OF assms(2)] by blast
  then have "at s0 h d caps (t\<lparr>sys_of := k\<rparr>)" using assms(1) fork_law by (auto intro: at_same simp: at_def)
  then have "at s0 h' d' caps' (snd (child (t\<lparr>sys_of := k\<rparr>)))" using assms(3) by (simp add: wp_def)
  then have "at s0 h d caps' ((snd (child (t\<lparr>sys_of := k\<rparr>)))\<lparr>sys_of := t_reap K (sys_of (snd (child (t\<lparr>sys_of := k\<rparr>)))) (sys_of t)\<rparr>)"
    using assms(1) reap_law by (simp add: at_def)
  then show ?thesis using k assms(4) by (simp add: wp_def fork_and_wait_def split_beta Let_def)
qed


lemma area_file:
  assumes "grants_all K S bytes areas_at n" "0 < bytes path" "psize S \<le> len"
  shows "3 < a_usable (file_area S bytes path len w)" "0 < a_usable (file_area S bytes path len w)"
proof -
  let ?p = "unat (psize S)"
  have p: "3 < ?p" using grants_each(6) [OF assms(1)] by (simp add: word_less_nat_alt)
  then have "0 < (bytes path + ?p - 1) div ?p" using assms(2) by (simp add: div_greater_zero_iff)
  then have "?p \<le> (bytes path + ?p - 1) div ?p * ?p" by simp
  moreover have "?p \<le> unat len" using assms(3) by (simp add: word_le_nat_alt)
  ultimately have "3 < min (unat len) ((bytes path + ?p - 1) div ?p * ?p)" using p by linarith
  then show "3 < a_usable (file_area S bytes path len w)" "0 < a_usable (file_area S bytes path len w)"
    by (simp_all only: file_area_def area.simps)
qed

lemmas step_rules = wp_mmap wp_map_or_stop wp_open_test wp_open wp_block wp_must wp_store0 wp_fill wp_load wp_effects wp_close wp_munmap

lemma anon_part:
  assumes "at s0 h d caps t" and g: "grants_all K S bytes areas_at n" and r: "roomy n 1 h"
    and Q: "\<And>t'. at s0 h d (caps @ [''initial mmap'', ''modified page'']) t' \<Longrightarrow> Q (Done ()) t'"
  shows "wp (tour_anon K S) Q t"
proof -
  have p: "0 < unat (psize S)" using grants_each(6) [OF g] by (simp add: word_less_nat_alt)
  show ?thesis
    unfolding tour_anon_def
    by (insert assms(1)) ((rule run_intro | rule step_rules, assumption | rule g r Q | (simp add: p fun_upd_idem; fail) | simp only: outcome.case area_kinds)+)
qed

lemma heap_part:
  assumes "at s0 h d caps t" and g: "grants_all K S bytes areas_at n" and r: "roomy n 1 h"
    and Q: "\<And>p t'. h p = None \<Longrightarrow> at s0 (h(p \<mapsto> block_area S)) d (caps @ [''initial malloc'', ''modified malloc'']) t' \<Longrightarrow> Q (Done ()) t'"
  shows "wp (tour_heap K S) Q t"
  unfolding tour_heap_def
  by (insert assms(1)) ((rule run_intro | rule step_rules, assumption | rule g r | (rule Q, assumption, simp add: block_area_def; fail) | (simp; fail) | simp only: outcome.case area_kinds)+)

lemma file_part:
  assumes "at s0 h d caps t" and g: "grants_all K S bytes areas_at n" and r: "roomy n 1 h"
    and Q: "\<And>t'. at s0 h d (caps @ [''mmap file'', ''mmap modified file'', ''mmap modified, cold file'']) t' \<Longrightarrow> Q (Done ()) t'"
  shows "wp (tour_file K S) Q t"
proof -
  note u = area_file [OF g grants_each(4) [OF g] order_refl]
  show ?thesis
    unfolding tour_file_def
    by (insert assms(1)) ((rule run_intro | rule step_rules, assumption | rule g r Q | (simp add: u fun_upd_idem; fail) | simp only: outcome.case area_kinds)+)
qed

lemma wp_if: "(b \<Longrightarrow> wp f Q t) \<Longrightarrow> (\<not> b \<Longrightarrow> wp g Q t) \<Longrightarrow> wp (if b then f else g) Q t"
  by simp

lemma upd_look: "(h(a \<mapsto> x)) a = Some x" "h' a = Some x \<Longrightarrow> h' b = None \<Longrightarrow> (h'(b \<mapsto> y)) a = Some x"
  by auto

lemma upd_None: "((if b then Some x else y) = None) = (\<not> b \<and> y = None)"
  by simp

lemma first_child_part:
  assumes "at s0 h d caps t" and g: "grants_all K S bytes areas_at n"
    and a: "h a = Some x" "a_write x" "3 < a_usable x" "h b = Some y" "a_write y" "3 < a_usable y" "h c = Some z" "a_write z" "3 < a_usable z"
  shows "wp (first_child K S a b c) (\<lambda>r t'. at s0 h d (caps @ first_captions) t') t"
proof -
  have a0: "0 < a_usable x" "0 < a_usable y" "0 < a_usable z" using a by simp_all
  show ?thesis
    unfolding first_child_def
    by (insert assms(1))
      ((rule run_intro wp_if | rule wp_store3, assumption | rule step_rules, assumption | rule g a a0 | (simp add: first_captions_def; fail) | simp only: outcome.case area_kinds)+)
qed

lemma fork_part:
  assumes "at s0 h d caps t" and g: "grants_all K S bytes areas_at n" and r: "roomy n 3 h"
    and Q: "\<And>a b c t'. \<lbrakk>at s0 (h(a \<mapsto> anon_area (psize S), b \<mapsto> file_area S bytes ''test.txt'' (psize S) True, c \<mapsto> file_area S bytes ''test.txt'' (psize S) True)) d
        (caps @ [''mmap anon, pre-fork'', ''mmap private file, pre-fork''] @ first_captions) t';
      h a = None; (h(a \<mapsto> anon_area (psize S))) b = None;
      (h(a \<mapsto> anon_area (psize S), b \<mapsto> file_area S bytes ''test.txt'' (psize S) True)) c = None\<rbrakk> \<Longrightarrow> Q (Done ()) t'"
  shows "wp (tour_fork K S) Q t"
proof -
  note u = area_file [OF g grants_each(4) [OF g] order_refl]
  have r2: "roomy n (Suc (Suc 1)) h" "roomy n (Suc 1) h" "roomy n 1 h" using r by (simp_all add: roomy_def)
  have v: "3 < unat (psize S)" using grants_each(6) [OF g] by (simp add: word_less_nat_alt)
  show ?thesis
    unfolding tour_fork_def
    by (insert assms(1))
      ((rule run_intro | rule step_rules, assumption | rule g r r2 roomy_upd | rule wp_fork, assumption, rule g, rule first_child_part, assumption, rule g r | rule upd_look | assumption
        | (rule Q, rule at_eq, assumption, rule refl) | (simp add: u v less_trans [OF _ v] upd_None fun_upd_idem; fail) | simp only: outcome.case area_kinds)+)
qed

lemma two_pages_part:
  assumes "at s0 h d caps t" and g: "grants_all K S bytes areas_at n" and r: "roomy n 1 h"
    and Q: "\<And>a t'. at s0 (h(a \<mapsto> file_area S bytes ''test.txt'' (psize S + 1) True)) d
        (caps @ [''mmap file page 1, all bytes'', ''mmap file page 2, all bytes'']) t' \<Longrightarrow> h a = None \<Longrightarrow> Q (Done ()) t'"
  shows "wp (tour_two_pages K S) Q t"
proof -
  have "psize S \<le> psize S + 1" using grants_each(7) [OF g] unfolding HUGE_LEN_def by (simp add: word_le_nat_alt word_less_nat_alt unat_word_ariths)
  note u = area_file(2) [OF g grants_each(4) [OF g] this]
  show ?thesis
    unfolding tour_two_pages_def
    by (insert assms(1))
      ((rule run_intro | rule step_rules, assumption | rule g r upd_look | (rule Q, rule at_eq, assumption, rule refl) | (simp add: u fun_upd_idem; fail) | simp only: outcome.case area_kinds)+)
qed

lemma shared_part:
  assumes "at s0 h d caps t" and g: "grants_all K S bytes areas_at n" and r: "roomy n 1 h"
    and Q: "\<And>t'. at s0 h d (caps @ [''mmap anon, shared'', ''mmap anon, shared, post fork'', ''mmap anon, shared, post fork done'']) t' \<Longrightarrow> Q (Done ()) t'"
  shows "wp (tour_shared K S) Q t"
proof -
  have p: "0 < unat (psize S)" using grants_each(6) [OF g] by (simp add: word_less_nat_alt)
  have child: "wp (acts [store_at K a (CHR ''x''), show_page K S a c]) (\<lambda>r t'. at s0 h' d (caps' @ [c]) t') t'"
    if "at s0 h' d caps' t'" "h' a = Some x" "a_write x" "0 < a_usable x" for h' caps' t' a c x
    by (insert that) ((rule run_intro | rule step_rules, assumption | rule g r | (simp; fail) | simp only: outcome.case area_kinds)+)
  show ?thesis
    unfolding tour_shared_def
    by (insert assms(1))
      ((rule run_intro | rule step_rules, assumption | rule wp_fork, assumption, rule g, rule child, assumption | rule g r upd_look Q | (simp add: p fun_upd_idem; fail) | simp only: outcome.case area_kinds)+)
qed

lemma noreserve_part:
  assumes "at s0 h d caps t" and g: "grants_all K S bytes areas_at n" and r: "roomy n 1 h"
    and Q: "\<And>a t'. at s0 (h(a \<mapsto> anon_area (psize S))) d
        (caps @ [''mmap anon, noreserve'']) t' \<Longrightarrow> h a = None \<Longrightarrow> Q (Done ()) t'"
  shows "wp (tour_noreserve K S) Q t"
proof -
  have p: "0 < unat (psize S)" using grants_each(6) [OF g] by (simp add: word_less_nat_alt)
  show ?thesis
    unfolding tour_noreserve_def
    by (insert assms(1))
      ((rule run_intro | rule step_rules, assumption | rule g r upd_look | (rule Q, rule at_eq, assumption, rule refl) | (simp add: p; fail) | simp only: outcome.case area_kinds)+)
qed

lemma readonly_part:
  assumes "at s0 h d caps t" and g: "grants_all K S bytes areas_at n" and r: "roomy n 1 h"
    and Q: "\<And>a fd t'. at s0 (h(a \<mapsto> file_area S bytes ''test_ro.txt'' (psize S) False)) (d(fd \<mapsto> ''test_ro.txt''))
        (caps @ [''mmap file, readonly'']) t' \<Longrightarrow> h a = None \<Longrightarrow> d fd = None \<Longrightarrow> Q (Done ()) t'"
  shows "wp (tour_readonly K S) Q t"
proof -
  note u = area_file [OF g grants_each(5) [OF g] order_refl]
  show ?thesis
    unfolding tour_readonly_def
    by (insert assms(1))
      ((rule run_intro | rule step_rules, assumption | rule g r upd_look | (rule Q, rule at_eq, assumption, rule refl) | (simp add: u; fail) | simp only: outcome.case area_kinds)+)
qed

lemma huge_part:
  assumes "at s0 h d caps t" and g: "grants_all K S bytes areas_at n" and r: "roomy n 1 h" and hp: "check_hugetlb (t_proc K (sys_of t))"
    and Q: "\<And>a t'. at s0 (h(a \<mapsto> anon_area HUGE_LEN)) d
        (caps @ [''mmap anon, hugetlb'', ''mmap anon, hugetlb, pre sleep, modification'', ''mmap anon, hugetlb, post sleep, modification'']) t'
        \<Longrightarrow> h a = None \<Longrightarrow> Q (Done ()) t'"
  shows "wp (tour_huge K S) Q t"
proof -
  have p: "unat (psize S) < 2097152" "0 < unat HUGE_LEN" "unat HUGE_LEN = 2097152"
    using grants_each(7) [OF g] by (simp_all add: word_less_nat_alt HUGE_LEN_def)
  have two: "wp (store_at K (a + psize S) c) Q' t'" if "at s0 h' d' caps' t'" "h' a = Some x" "a_write x" "a_usable x = 2097152"
      "\<And>t'. at s0 h' d' caps' t' \<Longrightarrow> Q' (Done ()) t'" for h' d' caps' t' a x Q' c
    using wp_store [OF that(1-3), of "unat (psize S)" "a + psize S" Q' c] that(4,5) p by simp
  have three: "wp (store_at K (a + HUGE_LEN - 1) c) Q' t'" if "at s0 h' d' caps' t'" "h' a = Some x" "a_write x" "a_usable x = 2097152"
      "\<And>t'. at s0 h' d' caps' t' \<Longrightarrow> Q' (Done ()) t'" for h' d' caps' t' a x Q' c
    using wp_store [OF that(1-3), of 2097151 "a + HUGE_LEN - 1" Q' c] that(4,5) by (simp add: HUGE_LEN_def)
  have "wp (act_bind (mmap_area K HUGE_LEN RW [Map_Private, Map_Anonymous, Map_Hugetlb] (- 1)) (\<lambda>ptr_huge. acts
        [store_at K ptr_huge (CHR ''x''), stop_if (ptr_huge = MAP_FAILED), show_page K S ptr_huge ''mmap anon, hugetlb'',
         store_at K ptr_huge (CHR ''x''), store_at K (ptr_huge + psize S) (CHR ''y''), store_at K (ptr_huge + HUGE_LEN - 1) (CHR ''z''),
         show_page K S ptr_huge ''mmap anon, hugetlb, pre sleep, modification'', effect (t_sleep K),
         show_page K S ptr_huge ''mmap anon, hugetlb, post sleep, modification''])) Q t"
    by (insert assms(1))
      ((rule run_intro | rule two three, assumption | rule step_rules, assumption | rule g r upd_look | (rule Q, rule at_eq, assumption, rule refl) | (simp add: p; fail) | simp only: outcome.case area_kinds)+)
  then show ?thesis using hp by (simp add: wp_def tour_huge_def)
qed

end

text \<open>The captions of the reports, and the areas that are still there at the end, in the order in which they were made.\<close>

definition tour_captions :: "bool \<Rightarrow> string list" where
  "tour_captions hp = [''initial mmap'', ''modified page'', ''initial malloc'', ''modified malloc'',
     ''mmap file'', ''mmap modified file'', ''mmap modified, cold file'', ''mmap anon, pre-fork'', ''mmap private file, pre-fork''] @ first_captions
     @ [''mmap file page 1, all bytes'', ''mmap file page 2, all bytes'', ''mmap anon, shared'', ''mmap anon, shared, post fork'',
        ''mmap anon, shared, post fork done'', ''mmap anon, noreserve'', ''mmap file, readonly'']
     @ (if hp then [''mmap anon, hugetlb'', ''mmap anon, hugetlb, pre sleep, modification'', ''mmap anon, hugetlb, post sleep, modification''] else [])"

definition tour_areas :: "surroundings \<Rightarrow> (string \<Rightarrow> nat) \<Rightarrow> bool \<Rightarrow> area list" where
  "tour_areas S bytes hp = [block_area S, anon_area (psize S), file_area S bytes ''test.txt'' (psize S) True, file_area S bytes ''test.txt'' (psize S) True,
     file_area S bytes ''test.txt'' (psize S + 1) True, anon_area (psize S), file_area S bytes ''test_ro.txt'' (psize S) False]
     @ (if hp then [anon_area HUGE_LEN] else [])"

definition tour_notice :: "bool \<Rightarrow> string list" where
  "tour_notice hp = (if hp then [] else [''[hugetlb pages not availble, skipping tests]'' @ [CHR 0x0A]])"

context tour_kernel
begin

lemma huge_end:
  assumes "at s0 h d caps t" and g: "grants_all K S bytes areas_at n" and r: "roomy n 1 h" and hp: "check_hugetlb (t_proc K (sys_of t)) = hp"
    and Q: "\<And>t'. \<lbrakk>gains h (areas_at (sys_of t')) (if hp then [anon_area HUGE_LEN] else []); fds (sys_of t') = d;
        \<exists>txt. said t' = s0 @ txt @ tour_notice hp \<and> list_all2 captioned (caps @ (if hp then [''mmap anon, hugetlb'', ''mmap anon, hugetlb, pre sleep, modification'', ''mmap anon, hugetlb, post sleep, modification''] else [])) txt\<rbrakk>
        \<Longrightarrow> Q (Exited 0) t'"
  shows "wp (tour_huge K S) (\<lambda>r t'. case r of Done x \<Rightarrow> wp (acts [leave 0]) Q t' | Exited c \<Rightarrow> Q (Exited c) t' | Killed \<Rightarrow> Q Killed t') t"
proof (cases hp)
  case True
  show ?thesis
    by (rule huge_part [OF assms(1) g r]) (use hp True in \<open>auto simp: at_def tour_notice_def intro!: run_intro Q\<close>, blast)
next
  case False
  then have "tour_huge K S t = (Exited 0, t\<lparr>said := said t @ tour_notice False\<rparr>)"
    using hp by (simp add: tour_huge_def tour_notice_def act_bind_def say_def leave_def)
  then show ?thesis using Q [of "t\<lparr>said := said t @ tour_notice False\<rparr>"] False assms(1) by (auto simp: wp_def at_def)
qed

lemma tour_run:
  assumes "at s0 h d [] t" and g: "grants_all K S bytes areas_at n" and r: "roomy n 8 h" and hp: "\<And>k. check_hugetlb (t_proc K k) = hp"
  shows "wp (read_tour_main K S 0) (\<lambda>res t'. res = Exited 0 \<and> gains h (areas_at (sys_of t')) (tour_areas S bytes hp)
    \<and> (\<exists>fd. d fd = None \<and> fds (sys_of t') = d(fd \<mapsto> ''test_ro.txt''))
    \<and> (\<exists>txt. said t' = s0 @ txt @ tour_notice hp \<and> list_all2 captioned (tour_captions hp) txt)) t"
proof -
  have room: "roomy n (j + 1) h' \<Longrightarrow> roomy n j (h'(a \<mapsto> x))" for j h' a x using roomy_upd [of n j h' a x] by simp
  show ?thesis
    unfolding read_tour_main_def
    apply (insert assms(1))
    apply (rule run_intro, rule run_intro, simp, simp only: outcome.case)
    apply (rule wp_acts, rule anon_part heap_part file_part fork_part two_pages_part shared_part noreserve_part readonly_part,
        assumption, rule g, ((rule room)+)?, rule roomy_le [OF r], simp, simp only: outcome.case)+
    apply (rule wp_acts, rule huge_end, assumption, rule g, (rule room)+, rule roomy_le [OF r], simp, rule hp)
    apply (intro conjI refl)
      apply (simp only: tour_areas_def append.simps)
      apply ((rule gains_Cons, assumption)+, simp)
     apply blast
    apply (simp add: tour_captions_def)
    done
qed

end

section \<open>An executable kernel\<close>

record tk =
  tk_areas :: "(u64 \<times> area) list"
  tk_fds :: "(int \<times> string) list"

definition tk_bytes :: "string \<Rightarrow> nat" where
  "tk_bytes path = 10"

definition tk_surroundings :: surroundings where
  "tk_surroundings = \<lparr>kpf_of = \<lambda>_. 0, devs_of = \<lparr>dev_refcount = None, dev_pagebuffers = None\<rparr>, stale_buf = [], psize = 0x1000\<rparr>"

definition tk_proc :: procfs where
  "tk_proc = demo_self\<lparr>text_file := (\<lambda>path. if path = ''/proc/self/maps'' then Some (map header_line demo_vmas) else None)\<rparr>"

definition tk_spots :: "u64 list" where
  "tk_spots = map (\<lambda>i. of_nat i * 0x10000000) [1..<33]"

definition tk_place :: "tk \<Rightarrow> u64 option" where
  "tk_place k = List.find (\<lambda>a. map_of (tk_areas k) a = None) tk_spots"

definition tk_put :: "tk \<Rightarrow> area \<Rightarrow> (u64 \<times> tk) option" where
  "tk_put k ar = map_option (\<lambda>a. (a, k\<lparr>tk_areas := (a, ar) # tk_areas k\<rparr>)) (tk_place k)"

definition tk_inside :: "tk \<Rightarrow> bool \<Rightarrow> u64 \<Rightarrow> nat \<Rightarrow> bool" where
  "tk_inside k w b n \<longleftrightarrow> list_ex (\<lambda>(s, _). case map_of (tk_areas k) s of None \<Rightarrow> False
     | Some ar \<Rightarrow> (w \<longrightarrow> a_write ar) \<and> unat (b - s) + n \<le> a_usable ar) (tk_areas k)"

definition tk_ops :: "tk tour_os" where
  "tk_ops = \<lparr>t_mmap = \<lambda>len pr fl fd k. tk_put k (mapping_of tk_surroundings tk_bytes (map_of (tk_fds k)) len pr fl fd),
     t_munmap = \<lambda>a len k. k\<lparr>tk_areas := AList.delete a (tk_areas k)\<rparr>,
     t_open = \<lambda>path rw k. (let fd = fold max (map fst (tk_fds k)) 2 + 1 in Some (fd, k\<lparr>tk_fds := (fd, path) # tk_fds k\<rparr>)),
     t_close = \<lambda>fd k. k\<lparr>tk_fds := AList.delete fd (tk_fds k)\<rparr>,
     t_malloc = \<lambda>len k. (case tk_put k \<lparr>a_owner = Block, a_len = len, a_usable = unat len, a_write = True\<rparr> of None \<Rightarrow> (0, k) | Some r \<Rightarrow> r),
     t_store = \<lambda>b c k. if tk_inside k True b 1 then Some k else None,
     t_fill = \<lambda>b n c k. if tk_inside k True b (unat n) then Some k else None,
     t_load = \<lambda>b k. if tk_inside k False b 1 then Some (CHR 0x00, k) else None,
     t_cold = \<lambda>a n k. k, t_sleep = \<lambda>k. k, t_fork = \<lambda>k. Some k, t_reap = \<lambda>k k'. k', t_proc = \<lambda>k. tk_proc\<rparr>"

lemma tk_put_Some:
  assumes "tk_put k ar = Some (a, k')"
  shows "a \<noteq> MAP_FAILED" "a \<noteq> 0" "map_of (tk_areas k) a = None" "map_of (tk_areas k') = (map_of (tk_areas k))(a \<mapsto> ar)" "tk_fds k' = tk_fds k"
proof -
  have a: "a \<in> set tk_spots" "map_of (tk_areas k) a = None" "k' = k\<lparr>tk_areas := (a, ar) # tk_areas k\<rparr>"
    using assms by (auto simp: tk_put_def tk_place_def find_Some_iff)
  then show "map_of (tk_areas k) a = None" "map_of (tk_areas k') = (map_of (tk_areas k))(a \<mapsto> ar)" "tk_fds k' = tk_fds k" by auto
  obtain i where i: "1 \<le> i" "i < 33" "a = of_nat i * 0x10000000" using a(1) by (auto simp: tk_spots_def)
  then have "unat a = i * 0x10000000" by (simp add: unat_word_ariths unat_of_nat)
  moreover have "unat MAP_FAILED = 0xFFFFFFFFFFFFFFFF" by (simp add: MAP_FAILED_def unsigned_minus_1_eq_mask mask_eq_exp_minus_1)
  ultimately show "a \<noteq> MAP_FAILED" "a \<noteq> 0" using i by auto
qed

lemma tk_inside_area:
  assumes "map_of (tk_areas k) a = Some ar" "w \<longrightarrow> a_write ar" "i + n \<le> a_usable ar"
  shows "tk_inside k w (a + of_nat i) n"
proof -
  have "unat (of_nat i :: u64) \<le> i" by (simp add: unat_of_nat)
  then have "unat (a + of_nat i - a) + n \<le> a_usable ar" using assms(3) by simp
  then show ?thesis using assms(1,2) map_of_SomeD [OF assms(1)] unfolding tk_inside_def list_ex_iff by (intro bexI [of _ "(a, ar)"]) simp_all
qed

lemma fold_max_ge: "(m::int) \<le> fold max xs m" "x \<in> set xs \<Longrightarrow> x \<le> fold max xs m"
proof -
  show g: "m \<le> fold max xs m" for xs :: "int list" and m
  proof (induction xs arbitrary: m)
    case (Cons a xs)
    then have "max a m \<le> fold max xs (max a m)" .
    then show ?case by (simp only: fold_simps max.bounded_iff)
  qed simp
  show "x \<in> set xs \<Longrightarrow> x \<le> fold max xs m"
  proof (induction xs arbitrary: m)
    case (Cons a xs)
    then show ?case using g [of "max a m" xs] by auto
  qed simp
qed

interpretation tk: tour_kernel tk_ops tk_surroundings "\<lambda>k. map_of (tk_areas k)" "\<lambda>k. map_of (tk_fds k)" tk_bytes
proof (unfold_locales, goal_cases)
  case (1 len pr fl fd k a k')
  then show ?case using tk_put_Some by (auto simp: tk_ops_def)
next
  case (2 k a ar len)
  then show ?case by (simp add: tk_ops_def delete_conv')
next
  case (3 path rw k fd k')
  then have fd: "fd = fold max (map fst (tk_fds k)) 2 + 1" "k' = k\<lparr>tk_fds := (fd, path) # tk_fds k\<rparr>" by (auto simp: tk_ops_def Let_def)
  have "fd \<notin> fst ` set (tk_fds k)" using fold_max_ge(2) [of _ "map fst (tk_fds k)" 2] fd(1) by fastforce
  then show ?case using fd fold_max_ge(1) [of 2 "map fst (tk_fds k)"] by (simp add: map_of_eq_None_iff)
next
  case (4 fd k)
  then show ?case by (simp add: tk_ops_def delete_conv')
next
  case (5 len k p k')
  then show ?case using tk_put_Some by (auto simp: tk_ops_def split: option.splits)
next
  case (6 k a ar i c)
  then show ?case using tk_inside_area [of k a ar True i 1] by (simp add: tk_ops_def)
next
  case (7 k a ar n c)
  then show ?case using tk_inside_area [of k a ar True 0 "unat n"] by (simp add: tk_ops_def)
next
  case (8 k a ar i)
  then show ?case using tk_inside_area [of k a ar False i 1] by (simp add: tk_ops_def)
qed (simp_all add: tk_ops_def)

lemma tk_page_read: "page_read tk_proc ptr"
proof -
  have "unat (ptr div 0x1000) < 2 ^ 52" using unsigned_less [of ptr, where ?'a = nat] by (simp add: unat_div less_mult_imp_div_less)
  then have "unat (ptr div 0x1000 * 8) < 2 ^ 55" by (simp add: unat_word_ariths)
  then have "\<not> bit (unat (ptr div 0x1000 * 8)) 63" by (simp add: bit_iff_odd)
  then have s: "\<not> sint (ptr div 0x1000 * 8) < 0" using bit_last_iff [of "ptr div 0x1000 * 8"] by (simp add: bit_unsigned_iff)
  have g: "get_pfn 0x8000000000000005 = 5" by code_simp
  have "u64_entry tk_proc ''/proc/self/pagemap'' (ptr div page_size tk_proc) = 0x8000000000000005"
    using s by (simp add: u64_entry_def u64_entries_def tk_proc_def demo_self_def)
  moreover have "u64_entry tk_proc ''/proc/kpageflags'' 5 = 0x8000000000000005"
    by (simp add: u64_entry_def u64_entries_def tk_proc_def demo_self_def)
  ultimately show ?thesis using g by (simp add: page_read_def INVALID_VALUE_def)
qed

lemma tk_grants: "grants_all tk_ops tk_surroundings tk_bytes (\<lambda>k. map_of (tk_areas k)) 32"
proof -
  have "tk_put k ar \<noteq> None" if r: "roomy 32 1 (map_of (tk_areas k))" for k ar
  proof -
    have "distinct tk_spots" "length tk_spots = 32" by code_simp+
    then have "card (set tk_spots) = 32" by (simp add: distinct_card)
    moreover have "card (dom (map_of (tk_areas k))) < 32" using r by (simp add: roomy_def)
    ultimately have "\<not> set tk_spots \<subseteq> dom (map_of (tk_areas k))" using card_mono [of "dom (map_of (tk_areas k))" "set tk_spots"] by (auto simp: finite_dom_map_of)
    then show ?thesis by (auto simp: tk_put_def tk_place_def find_None_iff)
  qed
  then show ?thesis using wf_demo tk_page_read tk_put_Some(2)
    by (fastforce simp: grants_all_def tk_ops_def tk_bytes_def tk_surroundings_def HUGE_LEN_def tk_proc_def Let_def split: option.splits)
qed

section \<open>The property\<close>

text \<open>The tour as a whole: where the kernel refuses nothing, the program ends with status 0 after the reports with these captions, those of the two children
  between those of the parent, in this order. It leaves seven areas behind, eight with huge pages: the block of \<open>malloc\<close>, the page and the two private
  mappings of the file that were shared with the child, the mapping of two pages of the file, the page without reserve and the read-only file; and the descriptor of the
  read-only file stays open.\<close>

theorem read_tour_leaves:
  assumes "tour_kernel K S areas_at fds bytes" "grants_all K S bytes areas_at n" "roomy n 8 (areas_at (sys_of t))" "\<forall>k. check_hugetlb (t_proc K k) = hp"
  shows "\<exists>t' txt fd. read_tour_main K S 0 t = (Exited 0, t') \<and> said t' = said t @ txt @ tour_notice hp \<and> list_all2 captioned (tour_captions hp) txt
    \<and> gains (areas_at (sys_of t)) (areas_at (sys_of t')) (tour_areas S bytes hp)
    \<and> fds (sys_of t) fd = None \<and> fds (sys_of t') = (fds (sys_of t))(fd \<mapsto> ''test_ro.txt'')"
proof -
  have "tour_kernel.at areas_at fds (said t) (areas_at (sys_of t)) (fds (sys_of t)) [] t"
    using tour_kernel.at_def [OF assms(1)] by simp
  from tour_kernel.tour_run [OF assms(1) this assms(2,3)] assms(4) show ?thesis
    unfolding wp_def by (metis (no_types, lifting) prod.collapse)
qed

theorem read_tour_leaves_witness:
  "\<exists>t' txt. read_tour_main tk_ops tk_surroundings 0 \<lparr>sys_of = \<lparr>tk_areas = [], tk_fds = []\<rparr>, said = []\<rparr> = (Exited 0, t')
    \<and> said t' = txt @ tour_notice False \<and> list_all2 captioned (tour_captions False) txt"
proof -
  have h: "\<forall>k. check_hugetlb (t_proc tk_ops k) = False" by (simp add: tk_ops_def check_hugetlb_def tk_proc_def)
  have r: "roomy 32 8 (map_of (tk_areas (sys_of \<lparr>sys_of = \<lparr>tk_areas = [], tk_fds = []\<rparr>, said = []\<rparr>)))" by (simp add: roomy_def)
  show ?thesis using read_tour_leaves [OF tk.tour_kernel_axioms tk_grants r h] by auto
qed

text \<open>The first page is stored to before the test: when the kernel refuses the very first mapping, the program does not report it but is killed. (An access at the
  address \<open>MAP_FAILED\<close> is not granted.)\<close>

theorem first_refusal_kills:
  assumes "t_mmap K (psize S) RW [Map_Private, Map_Anonymous] (- 1) (sys_of t) = None" "\<forall>c k. t_store K MAP_FAILED c k = None"
  shows "read_tour_main K S 0 t = (Killed, t)"
  using assms by (simp add: read_tour_main_def tour_anon_def act_bind_def stop_if_def ok_def mmap_area_def store_at_def access_def)

theorem first_refusal_kills_witness:
  "read_tour_main (tk_ops\<lparr>t_mmap := \<lambda>_ _ _ _ _. None, t_store := \<lambda>_ _ _. None\<rparr>) tk_surroundings 0 \<lparr>sys_of = \<lparr>tk_areas = [], tk_fds = []\<rparr>, said = []\<rparr>
    = (Killed, \<lparr>sys_of = \<lparr>tk_areas = [], tk_fds = []\<rparr>, said = []\<rparr>)"
  by (rule first_refusal_kills) simp_all

end
