(* ===== verification/Anon_Tests.thy ===== *)
theory Anon_Tests
  imports Mremap_Bench C_Lib
begin

text \<open>
  Small tests of anonymous memory under \<open>random/\<close>: \<open>mmap.c\<close>, \<open>mmap_simple.c\<close>, \<open>mremap.c\<close>, \<open>hint.c\<close>, \<open>mprotect_twice.c\<close>, \<open>mremap_warn.c\<close> and
  \<open>stack.c\<close>. What they print are the bytes of memory that has been mapped over, moved and left behind, so the interface \<open>byte_kernel\<close> is extended
  by what new and moved memory contains and by mappings with a hint.
\<close>

section \<open>The programs\<close>

definition RW :: "prot list" where "RW = [PROT_READ, PROT_WRITE]"

text \<open>A load, with the byte that is delivered.\<close>

definition load :: "u64 \<Rightarrow> char prog" where
  "load a = bnd (call (SLoad a)) (\<lambda>w. Return (char_of (unat w)))"

definition say :: "string \<Rightarrow> unit prog" where
  "say s = ignore (SPuts s)"

text \<open>\<open>random/mmap.c\<close>\<close>

definition mmap_main :: "u64 \<Rightarrow> unit prog" where
  "mmap_main psz =
     bnd (mmap_or_exit 0 (4 * psz) RW [MAP_ANON, MAP_PRIVATE, MAP_POPULATE]) (\<lambda>ptr.
     seq (ignore (SFill ptr (4 * psz) (CHR ''x'')))
     (bnd (load ptr) (\<lambda>c. seq (say (''chr=['' @ [c] @ '']'' @ newline))
     (bnd (mmap_or_exit ptr psz RW [MAP_ANON, MAP_PRIVATE, MAP_POPULATE, MAP_FIXED]) (\<lambda>ptr2.
     bnd (load ptr) (\<lambda>c. seq (say (''ptr[0]='' @ [c] @ newline))
     (bnd (load ptr2) (\<lambda>c. seq (say (''ptr2[0]='' @ [c] @ newline))
     (bnd (load (ptr + 4096)) (\<lambda>c. seq (say (''ptr[4096]='' @ [c] @ newline))
     (seq (check0 (SMunmap ptr (4 * psz))) (Quit 0))))))))))))"

text \<open>\<open>random/mmap_simple.c\<close>\<close>

definition mmap_simple_main :: "u64 \<Rightarrow> unit prog" where
  "mmap_simple_main psz =
     bnd (mmap_or_exit 0 psz RW [MAP_ANON, MAP_PRIVATE]) (\<lambda>ptr.
     seq (ignore (SStore ptr (CHR ''x''))) (seq (check0 (SMunmap ptr psz)) (Quit 0)))"

text \<open>\<open>random/mremap.c\<close>\<close>

definition TARGET_PTR :: u64 where "TARGET_PTR = 0x700000000000"

definition check_vma :: "u64 \<Rightarrow> u64 \<Rightarrow> unit prog" where
  "check_vma ptr len = ignore (SMadvise ptr len MADV_NORMAL)"

definition mremap_or_exit :: "u64 \<Rightarrow> u64 \<Rightarrow> u64 prog" where
  "mremap_or_exit ptr psz =
     bnd (call (SMremap ptr psz psz [MREMAP_MAYMOVE, MREMAP_DONTUNMAP] 0)) (\<lambda>p. if p = MAP_FAILED then fatal else Return p)"

definition mremap_main :: "u64 \<Rightarrow> unit prog" where
  "mremap_main psz =
     bnd (mmap_or_exit TARGET_PTR psz RW [MAP_ANON, MAP_PRIVATE, MAP_FIXED, MAP_POPULATE]) (\<lambda>ptr.
     seq (say (''orig mmap='' @ fmt_p ptr @ newline))
     (seq (ignore (SStore ptr (CHR ''x''))) (seq (check_vma ptr psz)
     (bnd (mremap_or_exit ptr psz) (\<lambda>ptr2.
     seq (ignore (SStore ptr2 (CHR ''y''))) (seq (say (''after mremap2='' @ fmt_p ptr2 @ newline)) (seq (check_vma ptr2 psz)
     (bnd (mremap_or_exit ptr2 psz) (\<lambda>ptr3.
     seq (ignore (SStore ptr3 (CHR ''z''))) (seq (say (''after mremap3='' @ fmt_p ptr3 @ newline)) (seq (check_vma ptr3 psz)
     (bnd (load ptr) (\<lambda>a. bnd (load ptr2) (\<lambda>b. bnd (load ptr3) (\<lambda>c.
       seq (say ([a] @ '' '' @ [b] @ '' '' @ [c] @ newline)) (Quit 0))))))))))))))))"

text \<open>\<open>random/hint.c\<close>: \<open>reserve\<close> answers whether the range was reserved at the address that was asked for. \<open>exit(-1)\<close> is status 255.\<close>

definition reserve :: "u64 \<Rightarrow> u64 \<Rightarrow> bool prog" where
  "reserve addr sz =
     bnd (call (SMmap addr sz [] [MAP_ANON, MAP_PRIVATE, MAP_NORESERVE])) (\<lambda>res.
       if res = MAP_FAILED then Return False
       else if res \<noteq> addr then seq (ignore (SMunmap res sz)) (Return False)
       else Return True)"

definition reserve_or_exit :: "u64 \<Rightarrow> u64 \<Rightarrow> unit prog" where
  "reserve_or_exit addr sz = bnd (reserve addr sz) (\<lambda>b. if \<not> b then Quit 255 else Return ())"

definition K :: u64 where "K = 1024"
definition M :: u64 where "M = 1024 * K"
definition base :: u64 where "base = 0x40000000000"

definition hint_main :: "unit prog" where
  "hint_main = seq (reserve_or_exit base (4 * M)) (seq (reserve_or_exit (base + 6 * M) (2 * M)) (seq (reserve_or_exit (base + 4 * M) (2 * M)) (Quit 0)))"

text \<open>\<open>random/mprotect_twice.c\<close>: the command prints the mappings whose line has the address without its last four digits.\<close>

definition print_maps :: "u64 \<Rightarrow> u64 \<Rightarrow> unit prog" where
  "print_maps pid ptr =
     (let ptr_str = fmt_p ptr; cut = take (length ptr_str - 4) ptr_str
      in ignore (SSystem (''cat /proc/'' @ fmt_lu pid @ ''/maps | grep '' @ drop 2 cut)))"

definition mprotect_twice_main :: "u64 \<Rightarrow> u64 \<Rightarrow> unit prog" where
  "mprotect_twice_main psz pid =
     bnd (mmap_or_exit TARGET_PTR (psz * 4) [PROT_READ] [MAP_PRIVATE, MAP_ANON]) (\<lambda>ptr. seqs
       [print_maps pid ptr, say (''---'' @ newline),
        check0 (SMprotect (ptr + psz) psz RW), print_maps pid ptr, say (''---'' @ newline),
        check_vma (ptr + psz) psz,
        check0 (SMprotect (ptr + psz) psz [PROT_READ]), print_maps pid ptr, Quit 0])"

text \<open>\<open>random/mremap_warn.c\<close>: \<open>EXIT_FAILURE\<close> is returned from a function of type \<open>bool\<close>.\<close>

definition do_test :: "map_flag list \<Rightarrow> bool prog" where
  "do_test map_flags =
     bnd (call (SMmap 0 4096 RW map_flags)) (\<lambda>ptr.
       if ptr = MAP_FAILED then Return True
       else bnd (call (SMremap ptr 0 4096 [MREMAP_MAYMOVE] 0)) (\<lambda>ptr2.
         seq (ignore (SMunmap (if ptr2 = MAP_FAILED then ptr else ptr2) 4096)) (Return (ptr2 \<noteq> MAP_FAILED))))"

definition mremap_warn_main :: "unit prog" where
  "mremap_warn_main =
     bnd (do_test [MAP_ANON, MAP_PRIVATE]) (\<lambda>b.
     seq (whenever b (say (''Unexpected success of private 0-len mapping remap'' @ newline)))
     (bnd (do_test [MAP_ANON, MAP_SHARED]) (\<lambda>b.
     seq (whenever (\<not> b) (say (''Unexpected failed of shared 0-len mapping remap'' @ newline))) (Quit 0))))"

text \<open>\<open>random/stack.c\<close>: the limit is \<open>None\<close> when \<open>getrlimit\<close> fails; the unlimited stack is the value - 1.\<close>

definition print_stack_smaps :: "u64 \<Rightarrow> unit prog" where
  "print_stack_smaps pid = seq (ignore (SSystem (''cat /proc/'' @ fmt_lu pid @ ''/maps | grep -E '' @ [CHR 0x27] @ ''^70'' @ [CHR 0x27])))
     (ignore (SSystem (''cat /proc/'' @ fmt_lu pid @ ''/maps | grep -E '' @ [CHR 0x27] @ ''^6f'' @ [CHR 0x27])))"

definition stack_target :: "u64 \<Rightarrow> u64 \<Rightarrow> u64 \<Rightarrow> u64 \<Rightarrow> u64" where
  "stack_target psz ptr rlim_cur phys_pages =
     (if rlim_cur = - 1 then TARGET_PTR - phys_pages * psz + 10 else ptr + (- rlim_cur + psz * 10))"

definition stack_main :: "u64 \<Rightarrow> u64 \<Rightarrow> u64 option \<Rightarrow> u64 \<Rightarrow> unit prog" where
  "stack_main psz pid lim phys_pages =
     bnd (mmap_or_exit TARGET_PTR (psz * 10) RW [MAP_ANON, MAP_GROWSDOWN, MAP_PRIVATE, MAP_FIXED, MAP_POPULATE]) (\<lambda>ptr.
     seq (print_stack_smaps pid)
     (case lim of None \<Rightarrow> fatal | Some rlim_cur \<Rightarrow> seqs
       [ignore (SStore (stack_target psz ptr rlim_cur phys_pages) (CHR ''x'')), say (''---'' @ newline), print_stack_smaps pid, Quit 0]))"

section \<open>The kernel\<close>

text \<open>Calls that leave it open which memory there is and whose it is.\<close>

definition idle :: "sys \<Rightarrow> bool" where
  "idle q = (case q of SStore _ _ \<Rightarrow> True | SFill _ _ _ \<Rightarrow> True | SLoad _ \<Rightarrow> True | SPuts _ \<Rightarrow> True | SMadvise _ _ a \<Rightarrow> a = MADV_NORMAL | _ \<Rightarrow> False)"

text \<open>
  New memory contains null bytes. \<open>own k a n\<close>: the \<open>n\<close> pages at \<open>a\<close> are private memory of the process; when they are moved and the mapping
  is left behind, what is left contains null bytes again. \<open>out\<close> is what has been printed.
\<close>

locale fresh_kernel = byte_kernel step page_at psz byte_at
  for step :: "'k kernel" and page_at :: "'k \<Rightarrow> pages" and psz :: u64 and byte_at :: "'k \<Rightarrow> u64 \<Rightarrow> char" +
  fixes own :: "'k \<Rightarrow> u64 \<Rightarrow> nat \<Rightarrow> bool" and out :: "'k \<Rightarrow> string list"
  assumes hinted: "\<lbrakk>MAP_FIXED \<notin> set fl; MAP_ANON \<in> set fl; fits psz n\<rbrakk> \<Longrightarrow>
      (\<exists>k'. step k (SMmap h (of_nat n * psz) pr fl) = Some (k', (MAP_FAILED, 0, 0)) \<and> page_at k' = page_at k)
      \<or> (\<exists>k' a. step k (SMmap h (of_nat n * psz) pr fl) = Some (k', (a, 0, 0)) \<and> region psz a n \<and> unmapped psz a n (page_at k)
        \<and> page_at k' = map_pages psz a n (Some (new_page pr fl)) (page_at k))"
    and zeroed: "\<lbrakk>step k (SMmap h (of_nat n * psz) pr fl) = Some (k', (a, x)); a \<noteq> MAP_FAILED; MAP_ANON \<in> set fl; region psz a n\<rbrakk> \<Longrightarrow>
      (\<forall>i<n * unat psz. byte_at k' (a + of_nat i) = CHR 0x00) \<and> (MAP_PRIVATE \<in> set fl \<longrightarrow> own k' a n)"
    and stored: "step k (SStore a c) = Some (k', r) \<Longrightarrow> byte_at k' = (byte_at k)(a := c)"
    and idle_own: "\<lbrakk>idle q; step k q = Some (k', r); own k a n\<rbrakk> \<Longrightarrow> own k' a n"
    and puts_bytes: "step k (SPuts s) = Some (k', r) \<Longrightarrow> byte_at k' = byte_at k"
    and advise_bytes: "step k (SMadvise a len MADV_NORMAL) = Some (k', r) \<Longrightarrow> byte_at k' = byte_at k"
    and left_behind: "\<lbrakk>region psz a n; own k a n; uniform psz a n (page_at k)\<rbrakk> \<Longrightarrow>
      (\<exists>k'. step k (SMremap a (of_nat n * psz) (of_nat n * psz) [MREMAP_MAYMOVE, MREMAP_DONTUNMAP] 0) = Some (k', (MAP_FAILED, 0, 0)) \<and> page_at k' = page_at k)
      \<or> (\<exists>k' b. step k (SMremap a (of_nat n * psz) (of_nat n * psz) [MREMAP_MAYMOVE, MREMAP_DONTUNMAP] 0) = Some (k', (b, 0, 0))
        \<and> region psz b n \<and> unmapped psz b n (page_at k) \<and> page_at k' = move_pages psz a b n True (page_at k) \<and> own k' b n
        \<and> (\<forall>i<n * unat psz. byte_at k' (b + of_nat i) = byte_at k (a + of_nat i) \<and> byte_at k' (a + of_nat i) = CHR 0x00)
        \<and> (\<forall>c m. region psz c m \<and> mapped psz c m (page_at k) \<and> disjoint_ranges psz a n c m
            \<longrightarrow> (\<forall>i<m * unat psz. byte_at k' (c + of_nat i) = byte_at k (c + of_nat i))))"
    and printed: "step k (SPuts s) = Some (k', r) \<Longrightarrow> out k' = out k @ [s]"
    and silent: "\<lbrakk>step k q = Some (k', r); \<forall>s. q \<noteq> SPuts s \<and> q \<noteq> SKmsg s\<rbrakk> \<Longrightarrow> out k' = out k"

interpretation fk: fresh_kernel bk_step "\<lambda>km. pk_pages (fst km)" PSZ snd "\<lambda>km a n. True" "\<lambda>km. pk_out (fst km)"
proof (unfold_locales, goal_cases)
  case (1 fl n k h pr)
  then show ?case
    using page_count_mult [of n] spot_Some [of "pk_pages (fst k)" h n] bk_step_Some [of "fst k" "SMmap h (of_nat n * PSZ) pr fl" _ _ "snd k"]
    by (cases "spot (pk_pages (fst k)) h n") (auto simp: pk_step_def pk_mmap_def Let_def fits_def region_def PSZ_12)
next
  case (2 k h n pr fl k' a x)
  have f: "page_count (of_nat n * PSZ) = n" using page_count_mult [of n] 2(4) by (simp add: region_def)
  have b: "snd k' = bk_bytes (SMmap h (of_nat n * PSZ) pr fl) a (snd k)" using 2(1) by (auto simp: bk_step_def split: prod.splits)
  have "snd k' (a + of_nat i) = CHR 0x00" if "i < n * 4096" for i
    using region_byte(1,2) [OF 2(4) that] b 2(2) f by (auto simp: bk_bytes_def in_pages_iff)
  then show ?case by (simp add: PSZ_12)
next
  case (3 k a c k' r)
  then show ?case by (auto simp: bk_step_def bk_bytes_def split: prod.splits)
next
  case (5 k s k' r)
  then show ?case by (auto simp: bk_step_def bk_bytes_def split: prod.splits)
next
  case (6 k a len k' r)
  then show ?case by (auto simp: bk_step_def bk_bytes_def split: prod.splits)
next
  case (7 a n k)
  let ?q = "SMremap a (of_nat n * PSZ) (of_nat n * PSZ) [MREMAP_MAYMOVE, MREMAP_DONTUNMAP] 0"
  have r: "fits PSZ n" "page_addr PSZ a" using 7(1) by (simp_all add: region_def)
  then have f: "page_count (of_nat n * PSZ) = n" "0 < n" "aligned a" using page_count_mult aligned_page_addr by (simp_all add: fits_def)
  show ?case
  proof (cases "place (pk_pages (fst k)) n")
    case None
    then have "pk_step (fst k) ?q = Some (fst k, (MAP_FAILED, 0, 0))" using f 7(3) by (simp add: pk_step_def pk_mremap_def)
    then show ?thesis using bk_step_Some [of "fst k" ?q _ _ "snd k"] by fastforce
  next
    case (Some b)
    note p = place_Some [OF Some]
    let ?k = "(fst k)\<lparr>pk_pages := move_pages PSZ a b n True (pk_pages (fst k))\<rparr>"
    have "pk_step (fst k) ?q = Some (?k, (b, 0, 0))" using f 7(3) Some by (simp add: pk_step_def pk_mremap_def)
    then have s: "bk_step k ?q = Some ((?k, bk_bytes ?q b (snd k)), (b, 0, 0))" using bk_step_Some [of "fst k" ?q ?k "(b, 0, 0)" "snd k"] by simp
    have b: "region PSZ b n" using p r by (simp add: region_def PSZ_12)
    have m: "mapped PSZ a n (pk_pages (fst k))" using 7(3) by (simp add: uniform_def mapped_def list_all_iff)
    have x: "bk_bytes ?q b (snd k) (b + of_nat i) = snd k (a + of_nat i)" if "i < n * 4096" for i
      using region_byte(1,2) [OF b that] p(4) f by (auto simp: bk_bytes_def in_pages_iff add.commute)
    have y: "bk_bytes ?q b (snd k) (a + of_nat i) = CHR 0x00" if "i < n * 4096" for i
      using region_byte(1,2) [OF 7(1) that] p(4) f mapped_not_new [OF m p(2)] by (auto simp: bk_bytes_def in_pages_iff)
    have z: "bk_bytes ?q b (snd k) (c + of_nat i) = snd k (c + of_nat i)"
      if "region PSZ c mm" "mapped PSZ c mm (pk_pages (fst k))" "disjoint_ranges PSZ a n c mm" "i < mm * 4096" for c mm i
      using region_byte(1,2) [OF that(1,4)] f mapped_not_new [OF that(2) p(2)] that(3) by (auto simp: bk_bytes_def in_pages_iff disjoint_ranges_def, metis)
    have z': "\<forall>c m. region PSZ c m \<and> mapped PSZ c m (pk_pages (fst k)) \<and> disjoint_ranges PSZ a n c m
        \<longrightarrow> (\<forall>i<m * 4096. bk_bytes ?q b (snd k) (c + of_nat i) = snd k (c + of_nat i))" using z by blast
    show ?thesis using s b p(2) x y z' by (intro disjI2 exI [of _ "(?k, bk_bytes ?q b (snd k))"] exI [of _ b]) (simp add: PSZ_12)
  qed
next
  case (8 k s k' r)
  then show ?case by (auto simp: bk_step_def pk_step_def split: prod.splits)
next
  case (9 k q k' r)
  then show ?case
    by (cases q) (auto simp: bk_step_def pk_step_def pk_mmap_def pk_mremap_def pk_store_def pk_fill_def pk_load_def Let_def split: if_splits option.splits prod.splits)
qed simp_all

section \<open>Runs\<close>

lemma run_end: "run step (seq (Quit c :: 'a prog) p) k = (Exited c, k)"
  by (simp add: seq_def)

lemma in_pages_join: "in_pages psz a (n + m) p \<longleftrightarrow> in_pages psz a n p \<or> in_pages psz (pg_at psz a n) m p"
proof -
  have "(\<exists>i<n + m. P i) \<longleftrightarrow> (\<exists>i<n. P i) \<or> (\<exists>i<m. P (n + i))" for P
  proof
    assume "\<exists>i<n + m. P i"
    then obtain i where i: "i < n + m" "P i" by blast
    show "(\<exists>i<n. P i) \<or> (\<exists>i<m. P (n + i))"
    proof (cases "i < n")
      case False
      then have "i - n < m" "P (n + (i - n))" using i by simp_all
      then show ?thesis by blast
    qed (use i in blast)
  next
    assume "(\<exists>i<n. P i) \<or> (\<exists>i<m. P (n + i))"
    then show "\<exists>i<n + m. P i"
    proof
      assume "\<exists>i<n. P i"
      then show ?thesis using trans_less_add1 by blast
    next
      assume "\<exists>i<m. P (n + i)"
      then obtain i where "i < m" "P (n + i)" by blast
      then show ?thesis by (intro exI [of _ "n + i"]) simp
    qed
  qed
  then show ?thesis by (simp add: in_pages_iff)
qed

lemma map_pages_join: "map_pages psz (pg_at psz a n) m pg (map_pages psz a n pg g) = map_pages psz a (n + m) pg g"
  by (rule ext) (auto simp: map_pages_def in_pages_join)

lemma map_pages_swap: "map_pages psz a n pg (map_pages psz b m pg g) = map_pages psz b m pg (map_pages psz a n pg g)"
  by (rule ext) (auto simp: map_pages_def)

lemma unmapped_join: "unmapped psz a (n + m) g \<longleftrightarrow> unmapped psz a n g \<and> unmapped psz (pg_at psz a n) m g"
proof -
  have "(\<forall>i<n + m. g (pg_at psz a i) = None) \<longleftrightarrow> (\<forall>p. in_pages psz a (n + m) p \<longrightarrow> g p = None)" by (auto simp: in_pages_iff)
  then show ?thesis unfolding in_pages_join by (auto simp: unmapped_def list_all_iff in_pages_iff)
qed

lemma unmapped_map_pages: "unmapped psz a n (map_pages psz b m (Some pg) g) \<Longrightarrow> unmapped psz a n g"
  by (auto simp: unmapped_def map_pages_def list_all_iff split: if_splits)

lemma byte_char: "char_of (unat (of_char c :: u64)) = c"
proof -
  have w: "(of_char c :: u64) = of_nat (of_char c)" by (rule of_nat_of_char [symmetric])
  have "(of_char c :: nat) < 2 ^ 64" using nat_of_char_less_256 [of c] by (rule less_trans) simp
  then have "unat (of_char c :: u64) = of_char c" unfolding w by (simp add: unat_of_nat)
  then show ?thesis by simp
qed

context fresh_kernel
begin

lemma quiet:
  assumes "harmless q"
  shows "\<exists>k'. run step (seq (ignore q) p) k = run step p k' \<and> page_at k' = page_at k"
proof -
  obtain k' r where k': "step k q = Some (k', r)" "page_at k' = page_at k" using harmless_step [OF assms] by blast
  show ?thesis by (intro exI [of _ k'] conjI run_ignore_seq [of step, OF k'(1)] k'(2))
qed

lemma hint_reserve:
  assumes "fits psz n"
  shows "\<exists>k'. (run step (reserve addr (of_nat n * psz)) k = (Done True, k') \<and> region psz addr n \<and> unmapped psz addr n (page_at k)
      \<and> page_at k' = map_pages psz addr n (Some (new_page [] [MAP_ANON, MAP_PRIVATE, MAP_NORESERVE])) (page_at k))
    \<or> (run step (reserve addr (of_nat n * psz)) k = (Done False, k') \<and> page_at k' = page_at k)"
proof -
  let ?q = "SMmap addr (of_nat n * psz) [] [MAP_ANON, MAP_PRIVATE, MAP_NORESERVE]"
  consider k1 where "step k ?q = Some (k1, (MAP_FAILED, 0, 0))" "page_at k1 = page_at k"
    | k1 a where "step k ?q = Some (k1, (a, 0, 0))" "region psz a n" "unmapped psz a n (page_at k)"
      "page_at k1 = map_pages psz a n (Some (new_page [] [MAP_ANON, MAP_PRIVATE, MAP_NORESERVE])) (page_at k)"
    using hinted [of "[MAP_ANON, MAP_PRIVATE, MAP_NORESERVE]" n k addr "[]"] assms by auto
  then show ?thesis
  proof cases
    case 1
    then show ?thesis by (simp add: reserve_def run_bnd_call [of step k, OF 1(1)])
  next
    case 2
    have f: "a \<noteq> MAP_FAILED" using region_not_failed [OF 2(2) psz_pos, of 0] assms by (simp add: fits_def)
    obtain k2 where k2: "step k1 (SMunmap a (of_nat n * psz)) = Some (k2, (0, 0, 0))" "page_at k2 = page_at k"
      using munmap [OF assms, of a k1] 2(2,4) map_unmap [OF 2(3)] by (auto simp: region_def)
    show ?thesis
      using f 2 k2 run_ignore_seq [of step k1 "SMunmap a (of_nat n * psz)" k2 "(0, 0, 0)" "Return False"]
      by (cases "a = addr") (auto simp: reserve_def run_bnd_call [of step k, OF 2(1)])
  qed
qed

lemma hint_reserve_or_exit:
  assumes "fits psz n"
  shows "\<exists>k'. (run step (seq (reserve_or_exit addr (of_nat n * psz)) p) k = run step p k' \<and> unmapped psz addr n (page_at k)
      \<and> page_at k' = map_pages psz addr n (Some (new_page [] [MAP_ANON, MAP_PRIVATE, MAP_NORESERVE])) (page_at k))
    \<or> (run step (seq (reserve_or_exit addr (of_nat n * psz)) p) k = (Exited 255, k') \<and> page_at k' = page_at k)"
proof -
  obtain k' where "(run step (reserve addr (of_nat n * psz)) k = (Done True, k') \<and> unmapped psz addr n (page_at k)
      \<and> page_at k' = map_pages psz addr n (Some (new_page [] [MAP_ANON, MAP_PRIVATE, MAP_NORESERVE])) (page_at k))
    \<or> (run step (reserve addr (of_nat n * psz)) k = (Done False, k') \<and> page_at k' = page_at k)"
    using hint_reserve [OF assms, of addr k] by blast
  then show ?thesis
  proof
    assume a: "run step (reserve addr (of_nat n * psz)) k = (Done True, k') \<and> unmapped psz addr n (page_at k)
      \<and> page_at k' = map_pages psz addr n (Some (new_page [] [MAP_ANON, MAP_PRIVATE, MAP_NORESERVE])) (page_at k)"
    then have "run step (reserve_or_exit addr (of_nat n * psz)) k = (Done (), k')" by (simp add: reserve_or_exit_def run_bnd)
    then show ?thesis using a run_seq [of step "reserve_or_exit addr (of_nat n * psz)" k "()" k' p] by blast
  next
    assume a: "run step (reserve addr (of_nat n * psz)) k = (Done False, k') \<and> page_at k' = page_at k"
    then have "run step (reserve_or_exit addr (of_nat n * psz)) k = (Exited 255, k')" by (simp add: reserve_or_exit_def run_bnd)
    then show ?thesis using a by (auto simp: seq_def run_bnd)
  qed
qed

lemma hint_run:
  assumes "psz = PG"
  shows "\<exists>k'. let g = map_pages psz base 1024 (Some (new_page [] [MAP_ANON, MAP_PRIVATE, MAP_NORESERVE])) (page_at k) in
    (run step hint_main k = (Exited 0, k') \<and> unmapped psz base 2048 (page_at k)
      \<and> page_at k' = map_pages psz base 2048 (Some (new_page [] [MAP_ANON, MAP_PRIVATE, MAP_NORESERVE])) (page_at k))
    \<or> (run step hint_main k = (Exited 255, k') \<and> (page_at k' = page_at k \<or> page_at k' = g
        \<or> page_at k' = map_pages psz (base + 6 * M) 512 (Some (new_page [] [MAP_ANON, MAP_PRIVATE, MAP_NORESERVE])) g))"
proof -
  let ?pg = "Some (new_page [] [MAP_ANON, MAP_PRIVATE, MAP_NORESERVE])"
  let ?g = "map_pages psz base 1024 ?pg (page_at k)"
  let ?h = "map_pages psz (base + 6 * M) 512 ?pg ?g"
  have f: "fits psz 1024" "fits psz 512" by (simp_all add: assms fits_def unat_PG)
  have l: "4 * M = of_nat 1024 * psz" "2 * M = of_nat 512 * psz" "base + 4 * M = pg_at psz base 1024" "base + 6 * M = pg_at psz base 1536"
    by (simp_all add: assms M_def K_def PG_def pg_at_def)
  let ?p2 = "seq (reserve_or_exit (base + 4 * M) (2 * M)) (Quit 0) :: unit prog"
  let ?p1 = "seq (reserve_or_exit (base + 6 * M) (2 * M)) ?p2"
  have m: "hint_main = seq (reserve_or_exit base (4 * M)) ?p1" by (simp add: hint_main_def)
  consider k1 where "run step hint_main k = (Exited 255, k1)" "page_at k1 = page_at k"
    | k1 where "run step hint_main k = run step ?p1 k1" "unmapped psz base 1024 (page_at k)" "page_at k1 = ?g"
    using hint_reserve_or_exit [OF f(1), of base ?p1 k, folded l(1)] unfolding m by blast
  then show ?thesis
  proof cases
    case 1
    then show ?thesis by (auto simp: Let_def)
  next
    case c1: (2 k1)
    consider k2 where "run step ?p1 k1 = (Exited 255, k2)" "page_at k2 = ?g"
      | k2 where "run step ?p1 k1 = run step ?p2 k2" "unmapped psz (base + 6 * M) 512 ?g" "page_at k2 = ?h"
      using hint_reserve_or_exit [OF f(2), of "base + 6 * M" ?p2 k1, folded l(2)] c1(3) by metis
    then show ?thesis
    proof cases
      case 1
      then show ?thesis using c1(1) by (auto simp: Let_def)
    next
      case c2: (2 k2)
      consider k3 where "run step ?p2 k2 = (Exited 255, k3)" "page_at k3 = ?h"
        | k3 where "run step ?p2 k2 = (Exited 0, k3)" "unmapped psz (base + 4 * M) 512 ?h" "page_at k3 = map_pages psz (base + 4 * M) 512 ?pg ?h"
        using hint_reserve_or_exit [OF f(2), of "base + 4 * M" "Quit 0 :: unit prog" k2, folded l(2)] c2(3) by auto
      then show ?thesis
      proof cases
        case 1
        then show ?thesis using c1(1) c2(1) by (auto simp: Let_def)
      next
        case c3: (2 k3)
        have "page_at k3 = map_pages psz (pg_at psz base 1536) 512 ?pg (map_pages psz (pg_at psz base 1024) 512 ?pg ?g)"
          using c3(3) by (simp add: l(3,4) map_pages_swap)
        then have g: "page_at k3 = map_pages psz base 2048 ?pg (page_at k)"
          using map_pages_join [of psz base 1024 512 ?pg "page_at k"] map_pages_join [of psz base 1536 512 ?pg "page_at k"] by simp
        have "unmapped psz (pg_at psz base 1024) 512 (page_at k)" "unmapped psz (pg_at psz base 1536) 512 (page_at k)"
          using unmapped_map_pages [OF unmapped_map_pages [OF c3(2)]] unmapped_map_pages [OF c2(2)] l(3,4) by simp_all
        then have "unmapped psz base 2048 (page_at k)"
          using c1(2) unmapped_join [of psz base 1024 512 "page_at k"] unmapped_join [of psz base 1536 512 "page_at k"] by simp
        then show ?thesis using g c3(1) c2(1) c1(1) by (auto simp: Let_def)
      qed
    qed
  qed
qed

lemma load_run:
  assumes "fresh_range psz RW p N m (page_at k)" "i < N * unat psz" "a = p + of_nat i"
  shows "\<exists>k'. run step (bnd (load a) f) k = run step (f (byte_at k a)) k' \<and> fresh_range psz RW p N m (page_at k') \<and> byte_at k' = byte_at k \<and> out k' = out k"
proof -
  have f: "region psz p N" "offers PROT_READ psz p N (page_at k)" using fresh_range_facts [OF assms(1)] by (simp_all add: RW_def)
  obtain k' x where k': "step k (SLoad a) = Some (k', (of_char (byte_at k a), x))" "touched psz p N (page_at k) (page_at k')" "byte_at k' = byte_at k"
    using load [OF f assms(2)] assms(3) by auto
  have "run step (bnd (load a) f) k = run step (f (byte_at k a)) k'"
    by (simp add: load_def bnd_assoc run_bnd_call [of step k, OF k'(1)] byte_char)
  moreover have "fresh_range psz RW p N m (page_at k')" using assms(1) k'(2) touched_trans by (auto simp: fresh_range_def)
  ultimately show ?thesis using k'(3) silent [OF k'(1)] by auto
qed

lemma say_run: "\<exists>k'. run step (seq (say s) p) k = run step p k' \<and> page_at k' = page_at k \<and> byte_at k' = byte_at k \<and> out k' = out k @ [s]"
proof -
  obtain k' r where k': "step k (SPuts s) = Some (k', r)" "page_at k' = page_at k" using harmless_step [of "SPuts s" k] unfolding harmless_def by auto
  show ?thesis unfolding say_def by (intro exI [of _ k'] conjI run_ignore_seq [of step, OF k'(1)] k'(2) puts_bytes [OF k'(1)] printed [OF k'(1)])
qed

lemma load_say:
  assumes "fresh_range psz RW p N m (page_at k)" "i < N * unat psz" "a = p + of_nat i" "byte_at k a = c"
  shows "\<exists>k'. run step (bnd (load a) (\<lambda>c. seq (say (f c)) q)) k = run step q k' \<and> fresh_range psz RW p N m (page_at k') \<and> byte_at k' = byte_at k
    \<and> out k' = out k @ [f c]"
proof -
  obtain k1 where 1: "run step (bnd (load a) (\<lambda>c. seq (say (f c)) q)) k = run step (seq (say (f (byte_at k a))) q) k1"
    "fresh_range psz RW p N m (page_at k1)" "byte_at k1 = byte_at k" "out k1 = out k"
    using load_run [OF assms(1-3), of "\<lambda>c. seq (say (f c)) q"] by blast
  obtain k2 where 2: "run step (seq (say (f (byte_at k a))) q) k1 = run step q k2" "page_at k2 = page_at k1" "byte_at k2 = byte_at k1"
    "out k2 = out k1 @ [f (byte_at k a)]"
    using say_run [of "f (byte_at k a)" q k1] by blast
  show ?thesis by (rule exI [of _ k2]) (simp only: 1 2 assms(4) [symmetric] simp_thms)
qed

lemma fresh_new: "region psz a n \<Longrightarrow> unmapped psz a n m \<Longrightarrow> fresh_range psz pr a n m (map_pages psz a n (Some (new_page pr fl)) m)"
  by (auto simp: fresh_range_def touched_def same_outside_def map_pages_def new_page_def)

lemma fresh_again:
  assumes "fresh_range psz pr a n m m'" "0 < n" "k \<le> n"
  shows "fresh_range psz pr a n m (map_pages psz a k (Some (new_page pr fl)) m')"
proof -
  have i: "in_pages psz a n p" if "in_pages psz a k p" for p using that less_le_trans [OF _ assms(3)] unfolding in_pages_iff by blast
  have t: "touched psz a n (map_pages psz a n (Some \<lparr>p_prot = pr, p_pop = False\<rparr>) m) m'" using assms(1) by (simp add: fresh_range_def)
  have "map_option p_prot (m' p) = Some pr" if "in_pages psz a n p" for p
    using t that by (simp add: touched_def map_pages_def)
  then have "touched psz a n m' (map_pages psz a k (Some (new_page pr fl)) m')"
    using i by (fastforce simp: touched_def same_outside_def map_pages_def new_page_def)
  then show ?thesis using assms(1) touched_trans by (auto simp: fresh_range_def)
qed

lemma fresh_unmap: "fresh_range psz pr a n m m' \<Longrightarrow> map_pages psz a n None m' = m"
  using fresh_range_facts(2,3) by (rule_tac ext) (fastforce simp: map_pages_def same_outside_def unmapped_def in_pages_iff list_all_iff)

text \<open>The bytes of the range after one page has been mapped over.\<close>

lemma map_over:
  assumes F: "fresh_range psz RW p 4 m (page_at k)" and x: "\<forall>i<4 * unat psz. byte_at k (p + of_nat i) = c"
  shows "\<exists>k'. step k (SMmap p psz RW [MAP_ANON, MAP_PRIVATE, MAP_POPULATE, MAP_FIXED]) = Some (k', (p, 0, 0)) \<and> fresh_range psz RW p 4 m (page_at k')
    \<and> (\<forall>i<4 * unat psz. byte_at k' (p + of_nat i) = (if i < unat psz then CHR 0x00 else c)) \<and> out k' = out k"
proof -
  let ?fl = "[MAP_ANON, MAP_PRIVATE, MAP_POPULATE, MAP_FIXED]"
  have r: "region psz p 4" using fresh_range_facts(1) [OF F] .
  have r1: "region psz p 1" "region psz (pg_at psz p 1) 3" using region_part [OF r, of 0 1] region_part [OF r, of 1 3] by simp_all
  have f: "p \<noteq> MAP_FAILED" using region_not_failed [OF r psz_pos, of 0] by simp
  obtain k' where k': "step k (SMmap p (of_nat 1 * psz) RW ?fl) = Some (k', (p, 0, 0))" "page_at k' = map_pages psz p 1 (Some (new_page RW ?fl)) (page_at k)"
    using mmap_fixed [of ?fl 1 p k RW] r1(1) f by (auto simp: region_def)
  have z: "\<forall>i<1 * unat psz. byte_at k' (p + of_nat i) = CHR 0x00" using zeroed [OF k'(1) f _ r1(1)] by simp
  have mp: "mapped psz (pg_at psz p 1) 3 (page_at k)" using fresh_range_facts(4) [OF F] by (auto simp: mapped_def list_all_iff)
  have "disjoint_ranges psz (pg_at psz p 1) 3 p 1"
    using pg_at_inj [OF _ psz_pos, of 4 _ 0 p] r by (auto simp: disjoint_ranges_def region_def)
  moreover have "fits psz 1" using r1(1) by (simp add: region_def)
  ultimately have sp: "spares psz (pg_at psz p 1) 3 (SMmap p (of_nat 1 * psz) RW ?fl)" by (auto simp: spares_def intro!: exI [of _ 1])
  have "byte_at k' (p + of_nat i) = c" if i: "i < 4 * unat psz" "\<not> i < unat psz" for i
  proof -
    have a: "p + of_nat i = pg_at psz p 1 + of_nat (i - unat psz)" using i(2) by (simp add: pg_at_def of_nat_diff)
    have "byte_at k' (p + of_nat i) = byte_at k (p + of_nat i)"
      unfolding a by (rule kept [OF k'(1) r1(2) mp sp]) (use i in linarith)
    then show ?thesis using x i(1) by simp
  qed
  then show ?thesis using k' z silent [OF k'(1)] fresh_again [OF F, of 1 ?fl] by (auto intro!: exI [of _ k'])
qed

lemma mmap_run:
  assumes "4096 \<le> unat psz" "fits psz 4"
  shows "\<exists>k'. (run step (mmap_main psz) k = (Exited 1, k') \<and> page_at k' = page_at k \<and> out k' = out k)
    \<or> (run step (mmap_main psz) k = (Exited 0, k') \<and> page_at k' = page_at k
      \<and> out k' = out k @ [''chr=[x]'' @ newline, ''ptr[0]='' @ [CHR 0x00] @ newline, ''ptr2[0]='' @ [CHR 0x00] @ newline,
          ''ptr[4096]='' @ [if unat psz = 4096 then CHR ''x'' else CHR 0x00] @ newline])"
proof -
  let ?fl = "[MAP_ANON, MAP_PRIVATE, MAP_POPULATE]"
  have l: "4 * psz = of_nat 4 * psz" by simp
  consider k1 where "step k (SMmap 0 (4 * psz) RW ?fl) = Some (k1, (MAP_FAILED, 0, 0))" "page_at k1 = page_at k"
    | k1 p where "step k (SMmap 0 (4 * psz) RW ?fl) = Some (k1, (p, 0, 0))" "region psz p 4" "unmapped psz p 4 (page_at k)"
      "page_at k1 = map_pages psz p 4 (Some (new_page RW ?fl)) (page_at k)"
    using hinted [of ?fl 4 k 0 RW] assms(2) unfolding l by auto
  then show ?thesis
  proof cases
    case 1
    then show ?thesis using silent [OF 1(1)] run_mmap_or_exit [of step, OF 1(1)] by (auto simp: mmap_main_def run_bnd)
  next
    case (2 k1 p)
    have p: "p \<noteq> MAP_FAILED" using region_not_failed [OF 2(2) psz_pos, of 0] by simp
    have F1: "fresh_range psz RW p 4 (page_at k) (page_at k1)" using fresh_new [OF 2(2,3)] 2(4) by simp
    have u: "unat (4 * psz) = 4 * unat psz" using assms(2) by (simp add: fits_def unat_word_ariths)
    obtain k2 r2 where k2: "step k1 (SFill p (4 * psz) (CHR ''x'')) = Some (k2, r2)" "touched psz p 4 (page_at k1) (page_at k2)"
      "\<forall>i<4 * unat psz. byte_at k2 (p + of_nat i) = CHR ''x''"
      using fill [OF 2(2), of k1 "4 * psz" "CHR ''x''"] fresh_range_facts(6) [OF F1, of PROT_WRITE] u by (auto simp: RW_def)
    have F2: "fresh_range psz RW p 4 (page_at k) (page_at k2)" using F1 k2(2) touched_trans by (auto simp: fresh_range_def)
    have z: "0 < 4 * unat psz" "4096 < 4 * unat psz" using assms(1) by simp_all
    have b2: "byte_at k2 p = CHR ''x''" using k2(3) [rule_format, OF z(1)] by simp
    have e0: "p = p + of_nat 0" "p + 4096 = p + of_nat 4096" by simp_all
    define q6 where "q6 = seq (check0 (SMunmap p (4 * psz))) (Quit 0 :: unit prog)"
    define q5 where "q5 = bnd (load (p + 4096)) (\<lambda>c. seq (say (''ptr[4096]='' @ [c] @ newline)) q6)"
    define q4 where "q4 = bnd (load p) (\<lambda>c. seq (say (''ptr2[0]='' @ [c] @ newline)) q5)"
    define q3 where "q3 = bnd (load p) (\<lambda>c. seq (say (''ptr[0]='' @ [c] @ newline)) q4)"
    define q2 where "q2 = bnd (mmap_or_exit p psz RW [MAP_ANON, MAP_PRIVATE, MAP_POPULATE, MAP_FIXED]) (\<lambda>ptr2.
        bnd (load p) (\<lambda>c. seq (say (''ptr[0]='' @ [c] @ newline))
        (bnd (load ptr2) (\<lambda>c. seq (say (''ptr2[0]='' @ [c] @ newline)) q5))))"
    define q1 where "q1 = bnd (load p) (\<lambda>c. seq (say (''chr=['' @ [c] @ '']'' @ newline)) q2)"
    have r1: "run step (mmap_main psz) k = run step (seq (ignore (SFill p (4 * psz) (CHR ''x''))) q1) k1"
      using p run_mmap_or_exit [of step, OF 2(1)] by (simp add: mmap_main_def run_bnd q1_def q2_def q5_def q6_def)
    have r2: "run step (seq (ignore (SFill p (4 * psz) (CHR ''x''))) q1) k1 = run step q1 k2" by (rule run_ignore_seq [of step, OF k2(1)])
    obtain k3 where k3: "run step q1 k2 = run step q2 k3" "fresh_range psz RW p 4 (page_at k) (page_at k3)" "byte_at k3 = byte_at k2"
      "out k3 = out k2 @ [''chr=['' @ [CHR ''x''] @ '']'' @ newline]"
      using load_say [OF F2 z(1) e0(1) b2, of "\<lambda>c. ''chr=['' @ [c] @ '']'' @ newline" q2] unfolding q1_def by blast
    have x3: "\<forall>i<4 * unat psz. byte_at k3 (p + of_nat i) = CHR ''x''" using k2(3) k3(3) by simp
    obtain k4 where k4: "step k3 (SMmap p psz RW [MAP_ANON, MAP_PRIVATE, MAP_POPULATE, MAP_FIXED]) = Some (k4, (p, 0, 0))"
      "fresh_range psz RW p 4 (page_at k) (page_at k4)" "\<forall>i<4 * unat psz. byte_at k4 (p + of_nat i) = (if i < unat psz then CHR 0x00 else CHR ''x'')" "out k4 = out k3"
      using map_over [OF k3(2) x3] by blast
    have r4: "run step q2 k3 = run step q3 k4"
      using p run_mmap_or_exit [of step, OF k4(1)] by (simp add: q2_def q3_def q4_def run_bnd)
    have b4: "byte_at k4 p = CHR 0x00" "byte_at k4 (p + 4096) = (if unat psz = 4096 then CHR ''x'' else CHR 0x00)"
      using k4(3) [rule_format, OF z(1)] k4(3) [rule_format, OF z(2)] assms(1) by auto
    obtain k5 where k5: "run step q3 k4 = run step q4 k5" "fresh_range psz RW p 4 (page_at k) (page_at k5)" "byte_at k5 = byte_at k4"
      "out k5 = out k4 @ [''ptr[0]='' @ [CHR 0x00] @ newline]"
      using load_say [OF k4(2) z(1) e0(1) b4(1), of "\<lambda>c. ''ptr[0]='' @ [c] @ newline" q4] unfolding q3_def by blast
    obtain k6 where k6: "run step q4 k5 = run step q5 k6" "fresh_range psz RW p 4 (page_at k) (page_at k6)" "byte_at k6 = byte_at k5"
      "out k6 = out k5 @ [''ptr2[0]='' @ [CHR 0x00] @ newline]"
      using load_say [OF k5(2) z(1) e0(1) b4(1) [folded k5(3)], of "\<lambda>c. ''ptr2[0]='' @ [c] @ newline" q5] unfolding q4_def by blast
    obtain k7 where k7: "run step q5 k6 = run step q6 k7" "fresh_range psz RW p 4 (page_at k) (page_at k7)"
      "out k7 = out k6 @ [''ptr[4096]='' @ [if unat psz = 4096 then CHR ''x'' else CHR 0x00] @ newline]"
      using load_say [OF k6(2) z(2) e0(2) b4(2) [folded k5(3) k6(3)], of "\<lambda>c. ''ptr[4096]='' @ [c] @ newline" q6] unfolding q5_def by blast
    obtain k8 where k8: "step k7 (SMunmap p (4 * psz)) = Some (k8, (0, 0, 0))" "page_at k8 = page_at k"
      using munmap [OF assms(2), of p k7] 2(2) fresh_unmap [OF k7(2)] by (auto simp: region_def)
    have r8: "run step q6 k7 = (Exited 0, k8)" by (simp add: q6_def run_seq [OF run_check0 [of step, OF k8(1)]])
    have o: "out k2 = out k" "out k8 = out k7" using silent [OF 2(1)] silent [OF k2(1)] silent [OF k8(1)] by simp_all
    have "out k8 = out k @ [''chr=['' @ [CHR ''x''] @ '']'' @ newline, ''ptr[0]='' @ [CHR 0x00] @ newline, ''ptr2[0]='' @ [CHR 0x00] @ newline,
        ''ptr[4096]='' @ [if unat psz = 4096 then CHR ''x'' else CHR 0x00] @ newline]"
      unfolding o k7(3) k6(4) k5(4) k4(4) k3(4) by simp
    moreover have "run step (mmap_main psz) k = (Exited 0, k8)" unfolding r1 r2 k3(1) r4 k5(1) k6(1) k7(1) by (rule r8)
    ultimately show ?thesis using k8(2) by (intro exI [of _ k8] disjI2) simp
  qed
qed

text \<open>A page that can be read and written, and what later states keep of the pages of an earlier one.\<close>

definition page_shown :: "'k \<Rightarrow> u64 \<Rightarrow> bool" where
  "page_shown k a \<longleftrightarrow> region psz a 1 \<and> map_option p_prot (page_at k a) = Some RW"

definition goes_on :: "'k \<Rightarrow> 'k \<Rightarrow> bool" where
  "goes_on k k' \<longleftrightarrow> (\<forall>b. page_shown k b \<longrightarrow> page_shown k' b) \<and> (\<forall>b n. own k b n \<longrightarrow> own k' b n)"

lemma goes_on_same: "map_option p_prot \<circ> page_at k' = map_option p_prot \<circ> page_at k \<Longrightarrow> (\<And>b n. own k b n \<Longrightarrow> own k' b n) \<Longrightarrow> goes_on k k'"
  unfolding goes_on_def page_shown_def by (metis comp_apply)

lemma store_run:
  assumes "page_shown k a"
  shows "\<exists>k'. run step (seq (ignore (SStore a c)) p) k = run step p k' \<and> goes_on k k' \<and> byte_at k' = (byte_at k)(a := c) \<and> out k' = out k"
proof -
  obtain pg where "page_at k a = Some pg" "PROT_WRITE \<in> set (p_prot pg)" "page_addr psz a" using assms by (auto simp: page_shown_def region_def RW_def)
  then obtain k' r where k': "step k (SStore a c) = Some (k', r)" "page_at k' = touch_page a (page_at k)" using store by blast
  have "goes_on k k'" using k'(2) idle_own [OF _ k'(1)] by (intro goes_on_same) (auto simp: touch_page_def idle_def option.map_comp o_def fun_eq_iff)
  then show ?thesis using run_ignore_seq [of step, OF k'(1)] stored [OF k'(1)] silent [OF k'(1)] by (intro exI [of _ k']) simp
qed

lemma say_on: "\<exists>k'. run step (seq (say s) p) k = run step p k' \<and> goes_on k k' \<and> byte_at k' = byte_at k \<and> out k' = out k @ [s]"
proof -
  obtain k' r where k': "step k (SPuts s) = Some (k', r)" "page_at k' = page_at k" using harmless_step [of "SPuts s" k] unfolding harmless_def by auto
  have "goes_on k k'" using k'(2) idle_own [OF _ k'(1)] by (intro goes_on_same) (auto simp: idle_def)
  then show ?thesis unfolding say_def by (intro exI [of _ k'] conjI run_ignore_seq [of step, OF k'(1)] puts_bytes [OF k'(1)] printed [OF k'(1)])
qed

lemma check_on: "\<exists>k'. run step (seq (check_vma a len) p) k = run step p k' \<and> goes_on k k' \<and> byte_at k' = byte_at k \<and> out k' = out k"
proof -
  obtain k' r where k': "step k (SMadvise a len MADV_NORMAL) = Some (k', r)" "page_at k' = page_at k" using advise by blast
  have "goes_on k k'" using k'(2) idle_own [OF _ k'(1)] by (intro goes_on_same) (auto simp: idle_def)
  then show ?thesis unfolding check_vma_def
    by (intro exI [of _ k'] conjI run_ignore_seq [of step, OF k'(1)] advise_bytes [OF k'(1)] silent [OF k'(1)]) simp_all
qed

lemma load_on:
  assumes "page_shown k a"
  shows "\<exists>k'. run step (bnd (load a) f) k = run step (f (byte_at k a)) k' \<and> goes_on k k' \<and> byte_at k' = byte_at k \<and> out k' = out k"
proof -
  have o: "region psz a 1" "offers PROT_READ psz a 1 (page_at k)" using assms by (auto simp: page_shown_def offers_def RW_def)
  have i: "0 < 1 * unat psz" using psz_pos by (simp add: word_less_nat_alt)
  obtain k' x where k': "step k (SLoad a) = Some (k', (of_char (byte_at k a), x))" "touched psz a 1 (page_at k) (page_at k')" "byte_at k' = byte_at k"
    using load [OF o i] by auto
  have "run step (bnd (load a) f) k = run step (f (byte_at k a)) k'" by (simp add: load_def bnd_assoc run_bnd_call [of step k, OF k'(1)] byte_char)
  moreover have "goes_on k k'" using k'(2) idle_own [OF _ k'(1)] by (intro goes_on_same) (auto simp: idle_def touched_def fun_eq_iff)
  ultimately show ?thesis using k'(3) silent [OF k'(1)] by (intro exI [of _ k']) simp
qed

lemma remap_on:
  assumes "page_shown k a" "own k a 1"
  shows "(\<exists>k'. run step (bnd (mremap_or_exit a psz) f) k = (Exited 1, k') \<and> out k' = out k)
    \<or> (\<exists>k' b. run step (bnd (mremap_or_exit a psz) f) k = run step (f b) k' \<and> page_shown k' a \<and> page_shown k' b \<and> own k' b 1 \<and> page_at k b = None
      \<and> byte_at k' b = byte_at k a \<and> byte_at k' a = CHR 0x00 \<and> out k' = out k
      \<and> (\<forall>c. page_shown k c \<and> c \<noteq> a \<longrightarrow> page_shown k' c \<and> byte_at k' c = byte_at k c))"
proof -
  let ?q = "SMremap a (of_nat 1 * psz) (of_nat 1 * psz) [MREMAP_MAYMOVE, MREMAP_DONTUNMAP] 0"
  have r: "region psz a 1" and m: "page_at k a \<noteq> None" using assms(1) by (auto simp: page_shown_def)
  have u: "uniform psz a 1 (page_at k)" using m by (simp add: uniform_def)
  have z: "0 < 1 * unat psz" using psz_pos by (simp add: word_less_nat_alt)
  from left_behind [OF r assms(2) u] show ?thesis
  proof (elim disjE exE conjE)
    fix k' assume k': "step k ?q = Some (k', (MAP_FAILED, 0, 0))" "page_at k' = page_at k"
    then have "run step (bnd (mremap_or_exit a psz) f) k = (Exited 1, k')"
      by (simp add: mremap_or_exit_def bnd_assoc fatal_def run_bnd_call [of step k, OF k'(1) [simplified]])
    then show ?thesis using silent [OF k'(1)] by blast
  next
    fix k' b
    assume k': "step k ?q = Some (k', (b, 0, 0))" "region psz b 1" "unmapped psz b 1 (page_at k)" "page_at k' = move_pages psz a b 1 True (page_at k)"
      "own k' b 1" "\<forall>i<1 * unat psz. byte_at k' (b + of_nat i) = byte_at k (a + of_nat i) \<and> byte_at k' (a + of_nat i) = CHR 0x00"
      "\<forall>c m. region psz c m \<and> mapped psz c m (page_at k) \<and> disjoint_ranges psz a 1 c m \<longrightarrow> (\<forall>i<m * unat psz. byte_at k' (c + of_nat i) = byte_at k (c + of_nat i))"
    have b: "b \<noteq> MAP_FAILED" "page_at k b = None" "b \<noteq> a"
      using region_not_failed [OF k'(2) psz_pos, of 0] k'(3) m by (auto simp: unmapped_def)
    have pages: "map_option p_prot (page_at k' c) = map_option p_prot (page_at k c)" if "c \<noteq> b" for c
      using k'(4) that by (auto simp: move_pages_def in_pages_iff option.map_comp o_def)
    have "page_at k' b = page_at k a" using k'(4) by (simp add: move_pages_def in_pages_iff)
    then have s: "page_shown k' b" "page_shown k' a" using assms(1) k'(2) pages [of a] b(3) by (auto simp: page_shown_def)
    have o: "page_shown k' c \<and> byte_at k' c = byte_at k c" if "page_shown k c" "c \<noteq> a" for c
    proof -
      have "c \<noteq> b" using that(1) b(2) by (auto simp: page_shown_def)
      then have "page_shown k' c" using that(1) pages by (simp add: page_shown_def)
      moreover have "region psz c 1" "mapped psz c 1 (page_at k)" "disjoint_ranges psz a 1 c 1"
        using that by (auto simp: page_shown_def mapped_def disjoint_ranges_def)
      ultimately show ?thesis using k'(7) [rule_format, of c 1 0] z by simp
    qed
    have "run step (bnd (mremap_or_exit a psz) f) k = run step (f b) k'"
      using b(1) by (simp add: mremap_or_exit_def bnd_assoc run_bnd_call [of step k, OF k'(1) [simplified]])
    then show ?thesis using s b(2) k'(5) k'(6) [rule_format, OF z] silent [OF k'(1)] o by (intro disjI2 exI [of _ k'] exI [of _ b]) simp
  qed
qed

lemma goes_onD: "goes_on k k' \<Longrightarrow> page_shown k a \<Longrightarrow> page_shown k' a" "goes_on k k' \<Longrightarrow> own k a n \<Longrightarrow> own k' a n"
  by (simp_all add: goes_on_def)

text \<open>A store to a page, a line of output and the call of \<open>check_vma\<close>.\<close>

lemma use_page:
  assumes "page_shown k a" "own k a 1" "a \<notin> set cs" "\<forall>c\<in>set cs. page_shown k c \<and> byte_at k c = v"
  shows "\<exists>k'. run step (seq (ignore (SStore a c)) (seq (say s) (seq (check_vma a len) q))) k = run step q k' \<and> page_shown k' a \<and> own k' a 1
    \<and> byte_at k' a = c \<and> (\<forall>c\<in>set cs. page_shown k' c \<and> byte_at k' c = v) \<and> out k' = out k @ [s]"
proof -
  obtain k1 where 1: "run step (seq (ignore (SStore a c)) (seq (say s) (seq (check_vma a len) q))) k = run step (seq (say s) (seq (check_vma a len) q)) k1"
    "goes_on k k1" "byte_at k1 = (byte_at k)(a := c)" "out k1 = out k"
    using store_run [OF assms(1), of c "seq (say s) (seq (check_vma a len) q)"] by blast
  obtain k2 where 2: "run step (seq (say s) (seq (check_vma a len) q)) k1 = run step (seq (check_vma a len) q) k2" "goes_on k1 k2" "byte_at k2 = byte_at k1" "out k2 = out k1 @ [s]"
    using say_on [of s "seq (check_vma a len) q" k1] by blast
  obtain k3 where 3: "run step (seq (check_vma a len) q) k2 = run step q k3" "goes_on k2 k3" "byte_at k3 = byte_at k2" "out k3 = out k2"
    using check_on [of a len q k2] by blast
  have g: "page_shown k3 b" if "page_shown k b" for b using that 1(2) 2(2) 3(2) goes_onD(1) by blast
  have o: "own k3 a 1" using assms(2) 1(2) 2(2) 3(2) goes_onD(2) by blast
  have "byte_at k3 a = c" "\<forall>c\<in>set cs. byte_at k3 c = v" using 1(3) 2(3) 3(3) assms(3,4) by auto
  then show ?thesis using g o assms(1,4) 1(1,4) 2(1,4) 3(1,4) by (intro exI [of _ k3]) simp
qed

lemma mremap_run:
  assumes "region psz TARGET_PTR 1"
  shows "(\<exists>k'. run step (mremap_main psz) k = (Exited 1, k'))
    \<or> (\<exists>k' p q. run step (mremap_main psz) k = (Exited 0, k') \<and> distinct [TARGET_PTR, p, q]
      \<and> (\<forall>a\<in>{TARGET_PTR, p, q}. map_option p_prot (page_at k' a) = Some RW)
      \<and> out k' = out k @ [''orig mmap='' @ fmt_p TARGET_PTR @ newline, ''after mremap2='' @ fmt_p p @ newline, ''after mremap3='' @ fmt_p q @ newline,
          [CHR 0x00] @ '' '' @ [CHR 0x00] @ '' z'' @ newline])" (is "?refused \<or> ?ended")
proof -
  let ?T = TARGET_PTR
  let ?fl = "[MAP_ANON, MAP_PRIVATE, MAP_FIXED, MAP_POPULATE]"
  define p4 where "p4 p2 p3 = bnd (load ?T) (\<lambda>a. bnd (load p2) (\<lambda>b. bnd (load p3) (\<lambda>c. seq (say ([a] @ '' '' @ [b] @ '' '' @ [c] @ newline)) (Quit 0 :: unit prog))))" for p2 p3
  define p3 where "p3 p2 = bnd (mremap_or_exit p2 psz) (\<lambda>ptr3. seq (ignore (SStore ptr3 (CHR ''z''))) (seq (say (''after mremap3='' @ fmt_p ptr3 @ newline))
    (seq (check_vma ptr3 psz) (p4 p2 ptr3))))" for p2
  define p2 where "p2 = bnd (mremap_or_exit ?T psz) (\<lambda>ptr2. seq (ignore (SStore ptr2 (CHR ''y''))) (seq (say (''after mremap2='' @ fmt_p ptr2 @ newline))
    (seq (check_vma ptr2 psz) (p3 ptr2))))"
  have f: "fits psz 1" "page_addr psz ?T" using assms by (simp_all add: region_def)
  have nf: "?T \<noteq> MAP_FAILED" by (simp add: TARGET_PTR_def MAP_FAILED_def)
  obtain k1 where k1: "step k (SMmap ?T (of_nat 1 * psz) RW ?fl) = Some (k1, (?T, 0, 0))" "page_at k1 = map_pages psz ?T 1 (Some (new_page RW ?fl)) (page_at k)"
    using mmap_fixed [of ?fl 1 ?T k RW] f nf by auto
  have T1: "page_shown k1 ?T" using assms k1(2) by (simp add: page_shown_def map_pages_def in_pages_iff new_page_def)
  have o1: "own k1 ?T 1" using zeroed [OF k1(1) nf _ assms] by simp
  have r1: "run step (mremap_main psz) k = run step (seq (say (''orig mmap='' @ fmt_p ?T @ newline)) (seq (ignore (SStore ?T (CHR ''x''))) (seq (check_vma ?T psz) p2))) k1"
    using nf run_mmap_or_exit [of step, OF k1(1)] by (simp add: mremap_main_def run_bnd p2_def p3_def p4_def)
  obtain k2 where k2: "run step (seq (say (''orig mmap='' @ fmt_p ?T @ newline)) (seq (ignore (SStore ?T (CHR ''x''))) (seq (check_vma ?T psz) p2))) k1
      = run step (seq (ignore (SStore ?T (CHR ''x''))) (seq (check_vma ?T psz) p2)) k2" "goes_on k1 k2" "out k2 = out k1 @ [''orig mmap='' @ fmt_p ?T @ newline]"
    using say_on [of "''orig mmap='' @ fmt_p ?T @ newline" "seq (ignore (SStore ?T (CHR ''x''))) (seq (check_vma ?T psz) p2)" k1] by blast
  obtain k3 where k3: "run step (seq (ignore (SStore ?T (CHR ''x''))) (seq (check_vma ?T psz) p2)) k2 = run step (seq (check_vma ?T psz) p2) k3" "goes_on k2 k3" "out k3 = out k2"
    using store_run [OF goes_onD(1) [OF k2(2) T1], of "CHR ''x''" "seq (check_vma ?T psz) p2"] by blast
  obtain k4 where k4: "run step (seq (check_vma ?T psz) p2) k3 = run step p2 k4" "goes_on k3 k4" "out k4 = out k3" using check_on [of ?T psz p2 k3] by blast
  have T4: "page_shown k4 ?T" "own k4 ?T 1" using goes_onD(1) [OF k4(2) goes_onD(1) [OF k3(2) goes_onD(1) [OF k2(2) T1]]]
      goes_onD(2) [OF k4(2) goes_onD(2) [OF k3(2) goes_onD(2) [OF k2(2) o1]]] by simp_all
  have r4: "run step (mremap_main psz) k = run step p2 k4" unfolding r1 k2(1) k3(1) k4(1) ..
  have out4: "out k4 = out k @ [''orig mmap='' @ fmt_p ?T @ newline]" using silent [OF k1(1)] k2(3) k3(3) k4(3) by simp
  from remap_on [OF T4, of "\<lambda>ptr2. seq (ignore (SStore ptr2 (CHR ''y''))) (seq (say (''after mremap2='' @ fmt_p ptr2 @ newline)) (seq (check_vma ptr2 psz) (p3 ptr2)))", folded p2_def]
  show ?thesis
  proof (elim disjE exE conjE)
    fix k5 assume "run step p2 k4 = (Exited 1, k5)"
    then show ?thesis using r4 by auto
  next
    fix k5 b
    assume k5: "run step p2 k4 = run step (seq (ignore (SStore b (CHR ''y''))) (seq (say (''after mremap2='' @ fmt_p b @ newline)) (seq (check_vma b psz) (p3 b)))) k5"
      "page_shown k5 ?T" "page_shown k5 b" "own k5 b 1" "page_at k4 b = None" "byte_at k5 ?T = CHR 0x00" "out k5 = out k4"
    have bT: "b \<noteq> ?T" using k5(5) T4(1) by (auto simp: page_shown_def)
    obtain k6 where k6: "run step (seq (ignore (SStore b (CHR ''y''))) (seq (say (''after mremap2='' @ fmt_p b @ newline)) (seq (check_vma b psz) (p3 b)))) k5 = run step (p3 b) k6"
      "page_shown k6 b" "own k6 b 1" "page_shown k6 ?T" "byte_at k6 ?T = CHR 0x00" "out k6 = out k5 @ [''after mremap2='' @ fmt_p b @ newline]"
      using use_page [OF k5(3,4), of "[?T]" "CHR 0x00" "CHR ''y''" "''after mremap2='' @ fmt_p b @ newline" psz "p3 b"] bT k5(2,6) by auto
    have r6: "run step (mremap_main psz) k = run step (p3 b) k6" unfolding r4 k5(1) k6(1) ..
    from remap_on [OF k6(2,3), of "\<lambda>ptr3. seq (ignore (SStore ptr3 (CHR ''z''))) (seq (say (''after mremap3='' @ fmt_p ptr3 @ newline)) (seq (check_vma ptr3 psz) (p4 b ptr3)))", folded p3_def]
    show ?thesis
    proof (elim disjE exE conjE)
      fix k7 assume "run step (p3 b) k6 = (Exited 1, k7)"
      then show ?thesis using r6 by auto
    next
      fix k7 c
      assume k7: "run step (p3 b) k6 = run step (seq (ignore (SStore c (CHR ''z''))) (seq (say (''after mremap3='' @ fmt_p c @ newline)) (seq (check_vma c psz) (p4 b c)))) k7"
        "page_shown k7 b" "page_shown k7 c" "own k7 c 1" "page_at k6 c = None" "byte_at k7 b = CHR 0x00" "out k7 = out k6"
        "\<forall>x. page_shown k6 x \<and> x \<noteq> b \<longrightarrow> page_shown k7 x \<and> byte_at k7 x = byte_at k6 x"
      have cc: "c \<noteq> b" "c \<noteq> ?T" using k7(5) k6(2,4) by (auto simp: page_shown_def)
      have T7: "page_shown k7 ?T" "byte_at k7 ?T = CHR 0x00" using k7(8) k6(4,5) bT by auto
      obtain k8 where k8: "run step (seq (ignore (SStore c (CHR ''z''))) (seq (say (''after mremap3='' @ fmt_p c @ newline)) (seq (check_vma c psz) (p4 b c)))) k7 = run step (p4 b c) k8"
        "page_shown k8 c" "byte_at k8 c = CHR ''z''" "\<forall>x\<in>set [?T, b]. page_shown k8 x \<and> byte_at k8 x = CHR 0x00" "out k8 = out k7 @ [''after mremap3='' @ fmt_p c @ newline]"
        using use_page [OF k7(3,4), of "[?T, b]" "CHR 0x00" "CHR ''z''" "''after mremap3='' @ fmt_p c @ newline" psz "p4 b c"] cc k7(2,6) T7 by auto
      have s8: "page_shown k8 ?T" "byte_at k8 ?T = CHR 0x00" "page_shown k8 b" "byte_at k8 b = CHR 0x00" using k8(4) by auto
      let ?f3 = "\<lambda>x y z. seq (say ([x] @ '' '' @ [y] @ '' '' @ [z] @ newline)) (Quit 0 :: unit prog)"
      obtain k9 where k9: "run step (p4 b c) k8 = run step (bnd (load b) (\<lambda>y. bnd (load c) (?f3 (CHR 0x00) y))) k9" "goes_on k8 k9" "byte_at k9 = byte_at k8" "out k9 = out k8"
        using load_on [OF s8(1), of "\<lambda>x. bnd (load b) (\<lambda>y. bnd (load c) (?f3 x y))"] unfolding p4_def s8(2) by blast
      have b9: "byte_at k9 b = CHR 0x00" using k9(3) s8(4) by simp
      obtain k10 where k10: "run step (bnd (load b) (\<lambda>y. bnd (load c) (?f3 (CHR 0x00) y))) k9 = run step (bnd (load c) (?f3 (CHR 0x00) (CHR 0x00))) k10"
        "goes_on k9 k10" "byte_at k10 = byte_at k9" "out k10 = out k9"
        using load_on [OF goes_onD(1) [OF k9(2) s8(3)], of "\<lambda>y. bnd (load c) (?f3 (CHR 0x00) y)"] unfolding b9 by blast
      have c10: "page_shown k10 c" "byte_at k10 c = CHR ''z''" using goes_onD(1) [OF k10(2) goes_onD(1) [OF k9(2) k8(2)]] k10(3) k9(3) k8(3) by simp_all
      obtain k11 where k11: "run step (bnd (load c) (?f3 (CHR 0x00) (CHR 0x00))) k10 = run step (?f3 (CHR 0x00) (CHR 0x00) (CHR ''z'')) k11" "goes_on k10 k11" "out k11 = out k10"
        using load_on [OF c10(1), of "?f3 (CHR 0x00) (CHR 0x00)"] unfolding c10(2) by blast
      obtain k12 where k12: "run step (?f3 (CHR 0x00) (CHR 0x00) (CHR ''z'')) k11 = run step (Quit 0) k12" "goes_on k11 k12"
        "out k12 = out k11 @ [[CHR 0x00] @ '' '' @ [CHR 0x00] @ '' '' @ [CHR ''z''] @ newline]"
        using say_on [of "[CHR 0x00] @ '' '' @ [CHR 0x00] @ '' '' @ [CHR ''z''] @ newline" "Quit 0 :: unit prog" k11] by blast
      have r: "run step (mremap_main psz) k = (Exited 0, k12)" unfolding r6 k7(1) k8(1) k9(1) k10(1) k11(1) k12(1) by simp
      have g: "page_shown k12 x" if "page_shown k8 x" for x using that k9(2) k10(2) k11(2) k12(2) goes_onD(1) by blast
      have "\<forall>a\<in>{?T, b, c}. map_option p_prot (page_at k12 a) = Some RW" using g s8(1,3) k8(2) by (auto simp: page_shown_def)
      moreover have "out k12 = out k @ [''orig mmap='' @ fmt_p ?T @ newline, ''after mremap2='' @ fmt_p b @ newline, ''after mremap3='' @ fmt_p c @ newline,
          [CHR 0x00] @ '' '' @ [CHR 0x00] @ '' z'' @ newline]"
        unfolding k12(3) k11(3) k10(4) k9(4) k8(5) k7(7) k6(6) k5(7) out4 by simp
      ultimately have ?ended using r bT cc by (intro exI [of _ k12] exI [of _ b] exI [of _ c]) auto
      then show ?thesis ..
    qed
  qed
qed

lemma mmap_simple_run:
  assumes "fits psz 1"
  shows "(\<exists>k'. run step (mmap_simple_main psz) k = (Exited 1, k') \<and> page_at k' = page_at k) \<or> (\<exists>k'. run step (mmap_simple_main psz) k = (Exited 0, k') \<and> page_at k' = page_at k)"
proof -
  let ?fl = "[MAP_ANON, MAP_PRIVATE]"
  have l: "psz = of_nat 1 * psz" by simp
  consider k1 where "step k (SMmap 0 psz RW ?fl) = Some (k1, (MAP_FAILED, 0, 0))" "page_at k1 = page_at k"
    | k1 p where "step k (SMmap 0 psz RW ?fl) = Some (k1, (p, 0, 0))" "region psz p 1" "unmapped psz p 1 (page_at k)"
      "page_at k1 = map_pages psz p 1 (Some (new_page RW ?fl)) (page_at k)"
    using hinted [of ?fl 1 k 0 RW] assms unfolding l [symmetric] by auto
  then show ?thesis
  proof cases
    case 1
    then show ?thesis using run_mmap_or_exit [of step, OF 1(1)] by (auto simp: mmap_simple_main_def run_bnd)
  next
    case (2 k1 p)
    have p: "p \<noteq> MAP_FAILED" using region_not_failed [OF 2(2) psz_pos, of 0] by simp
    have s: "page_at k1 p = Some (new_page RW ?fl)" using 2(4) by (simp add: map_pages_def in_pages_iff)
    obtain k2 r where k2: "step k1 (SStore p (CHR ''x'')) = Some (k2, r)" "page_at k2 = touch_page p (page_at k1)"
      using store [of p k1 _ "CHR ''x''"] s 2(2) by (auto simp: region_def new_page_def RW_def)
    obtain k3 where k3: "step k2 (SMunmap p psz) = Some (k3, (0, 0, 0))" "page_at k3 = map_pages psz p 1 None (page_at k2)"
      using munmap [of 1 p k2] 2(2) assms by (auto simp: region_def)
    have "page_at k3 = page_at k" using 2(3,4) k2(2) k3(2) by (auto simp: map_pages_def in_pages_iff touch_page_def unmapped_def)
    moreover have "run step (mmap_simple_main psz) k = (Exited 0, k3)"
      using p run_mmap_or_exit [of step, OF 2(1)]
      by (simp add: mmap_simple_main_def run_bnd run_ignore_seq [of step, OF k2(1)] run_seq [OF run_check0 [of step, OF k3(1)]])
    ultimately show ?thesis by blast
  qed
qed

lemma print_maps_run: "\<exists>k'. run step (seq (print_maps pid a) p) k = run step p k' \<and> page_at k' = page_at k"
  unfolding print_maps_def Let_def by (rule quiet) (simp add: harmless_def)

lemma protect_run:
  assumes "fits psz 1" "page_addr psz a" "page_at k a \<noteq> None"
  shows "\<exists>k'. run step (seq (check0 (SMprotect a psz pr)) q) k = run step q k' \<and> page_at k' = protect_pages psz a 1 pr (page_at k)"
proof -
  obtain k' where k': "step k (SMprotect a psz pr) = Some (k', (0, 0, 0))" "page_at k' = protect_pages psz a 1 pr (page_at k)"
    using mprotect [OF assms(1,2), of k pr] assms(3) by (auto simp: mapped_def)
  then show ?thesis using run_seq [OF run_check0 [of step, OF k'(1)]] by (intro exI [of _ k']) simp
qed

text \<open>Giving a page of the middle another protection and taking it back leaves the mapping as it was made.\<close>

lemma mprotect_twice_run:
  assumes "fits psz 4"
  shows "(\<exists>k'. run step (mprotect_twice_main psz pid) k = (Exited 1, k') \<and> page_at k' = page_at k)
    \<or> (\<exists>k' p. run step (mprotect_twice_main psz pid) k = (Exited 0, k') \<and> region psz p 4 \<and> unmapped psz p 4 (page_at k)
      \<and> page_at k' = map_pages psz p 4 (Some (new_page [PROT_READ] [MAP_PRIVATE, MAP_ANON])) (page_at k))"
proof -
  let ?fl = "[MAP_PRIVATE, MAP_ANON]"
  have l: "psz * 4 = of_nat 4 * psz" by simp
  consider k1 where "step k (SMmap TARGET_PTR (psz * 4) [PROT_READ] ?fl) = Some (k1, (MAP_FAILED, 0, 0))" "page_at k1 = page_at k"
    | k1 p where "step k (SMmap TARGET_PTR (psz * 4) [PROT_READ] ?fl) = Some (k1, (p, 0, 0))" "region psz p 4" "unmapped psz p 4 (page_at k)"
      "page_at k1 = map_pages psz p 4 (Some (new_page [PROT_READ] ?fl)) (page_at k)"
    using hinted [of ?fl 4 k TARGET_PTR "[PROT_READ]"] assms unfolding l by auto
  then show ?thesis
  proof cases
    case 1
    then show ?thesis using run_mmap_or_exit [of step, OF 1(1)] by (auto simp: mprotect_twice_main_def run_bnd)
  next
    case (2 k1 p)
    have p: "p \<noteq> MAP_FAILED" using region_not_failed [OF 2(2) psz_pos, of 0] by simp
    let ?a = "p + psz"
    have a: "?a = pg_at psz p 1" by (simp add: pg_at_def)
    have f: "fits psz 1" "page_addr psz ?a" using region_part [OF 2(2), of 1 1] by (simp_all add: a region_def)
    let ?m1 = "page_at k1"
    have "in_pages psz p 4 ?a" unfolding a in_pages_iff by (rule exI [of _ 1]) simp
    then have m1: "?m1 ?a = Some (new_page [PROT_READ] ?fl)" using 2(4) by (simp add: map_pages_def)
    define t6 where "t6 = seq (print_maps pid p) (seq (Quit 0 :: unit prog) (Return ()))"
    define t5 where "t5 = seq (check0 (SMprotect ?a psz [PROT_READ])) t6"
    define t4 where "t4 = seq (ignore (SPuts (''---'' @ newline))) (seq (ignore (SMadvise ?a psz MADV_NORMAL)) t5)"
    define t3 where "t3 = seq (check0 (SMprotect ?a psz RW)) (seq (print_maps pid p) t4)"
    have r1: "run step (mprotect_twice_main psz pid) k = run step (seq (print_maps pid p) (seq (ignore (SPuts (''---'' @ newline))) t3)) k1"
      using p run_mmap_or_exit [of step, OF 2(1)] by (simp add: mprotect_twice_main_def run_bnd t3_def t4_def t5_def t6_def say_def check_vma_def)
    obtain k2 where k2: "run step (seq (print_maps pid p) (seq (ignore (SPuts (''---'' @ newline))) t3)) k1 = run step (seq (ignore (SPuts (''---'' @ newline))) t3) k2" "page_at k2 = ?m1"
      using print_maps_run by blast
    obtain k3 where k3: "run step (seq (ignore (SPuts (''---'' @ newline))) t3) k2 = run step t3 k3" "page_at k3 = page_at k2"
      using quiet [of "SPuts (''---'' @ newline)" t3 k2] by (auto simp: harmless_def)
    have n3: "page_at k3 ?a \<noteq> None" using m1 k2(2) k3(2) by simp
    obtain k4 where k4: "run step t3 k3 = run step (seq (print_maps pid p) t4) k4" "page_at k4 = protect_pages psz ?a 1 RW (page_at k3)"
      using protect_run [OF f n3, of RW "seq (print_maps pid p) t4"] unfolding t3_def by blast
    obtain k5 where k5: "run step (seq (print_maps pid p) t4) k4 = run step t4 k5" "page_at k5 = page_at k4" using print_maps_run by blast
    obtain k6 where k6: "run step t4 k5 = run step (seq (ignore (SMadvise ?a psz MADV_NORMAL)) t5) k6" "page_at k6 = page_at k5"
      using quiet [of "SPuts (''---'' @ newline)" _ k5] unfolding t4_def by (auto simp: harmless_def)
    obtain k7 r where k7: "step k6 (SMadvise ?a psz MADV_NORMAL) = Some (k7, r)" "page_at k7 = page_at k6" using advise by blast
    have m7: "page_at k7 = protect_pages psz ?a 1 RW ?m1" using k7(2) k6(2) k5(2) k4(2) k3(2) k2(2) by simp
    then have n7: "page_at k7 ?a \<noteq> None" using m1 by (simp add: protect_pages_def in_pages_iff)
    obtain k8 where k8: "run step t5 k7 = run step t6 k8" "page_at k8 = protect_pages psz ?a 1 [PROT_READ] (page_at k7)"
      using protect_run [OF f n7, of "[PROT_READ]" t6] unfolding t5_def by blast
    obtain k9 where k9: "run step t6 k8 = run step (seq (Quit 0 :: unit prog) (Return ())) k9" "page_at k9 = page_at k8" using print_maps_run unfolding t6_def by blast
    have r: "run step (mprotect_twice_main psz pid) k = (Exited 0, k9)"
      unfolding r1 k2(1) k3(1) k4(1) k5(1) k6(1) run_ignore_seq [of step, OF k7(1)] k8(1) k9(1) by (rule run_end)
    have "protect_pages psz ?a 1 [PROT_READ] (protect_pages psz ?a 1 RW ?m1) q = ?m1 q" for q
      using m1 by (cases "q = ?a") (simp_all add: protect_pages_def in_pages_iff new_page_def)
    then have "page_at k9 = ?m1" using k9(2) k8(2) m7 by auto
    then show ?thesis using r 2(2-4) by auto
  qed
qed

end

section \<open>The properties\<close>

text \<open>The first page of four that were filled is mapped over: \<open>mmap.c\<close> ends with status 1, when the first mapping is refused, or with status 0 after it has
  printed an \<open>x\<close>, twice the null byte of the new page and a byte of a page that was not replaced where pages have 4096 bytes, of the new page where they are larger;
  the pages are then as before.\<close>

theorem mmap_over_one_page:
  assumes "fresh_kernel step page_at psz byte_at own out" "4096 \<le> unat psz" "fits psz 4"
  shows "\<exists>k'. (run step (mmap_main psz) k = (Exited 1, k') \<and> page_at k' = page_at k \<and> out k' = out k)
    \<or> (run step (mmap_main psz) k = (Exited 0, k') \<and> page_at k' = page_at k
      \<and> out k' = out k @ [''chr=[x]'' @ newline, ''ptr[0]='' @ [CHR 0x00] @ newline, ''ptr2[0]='' @ [CHR 0x00] @ newline,
          ''ptr[4096]='' @ [if unat psz = 4096 then CHR ''x'' else CHR 0x00] @ newline])"
  by (rule fresh_kernel.mmap_run [OF assms])

theorem mmap_over_one_page_witness:
  "\<exists>k'. (run bk_step (mmap_main PSZ) bk_start = (Exited 1, k') \<and> pk_pages (fst k') = pk_pages (fst bk_start) \<and> pk_out (fst k') = pk_out (fst bk_start))
    \<or> (run bk_step (mmap_main PSZ) bk_start = (Exited 0, k') \<and> pk_pages (fst k') = pk_pages (fst bk_start)
      \<and> pk_out (fst k') = pk_out (fst bk_start) @ [''chr=[x]'' @ newline, ''ptr[0]='' @ [CHR 0x00] @ newline, ''ptr2[0]='' @ [CHR 0x00] @ newline,
          ''ptr[4096]='' @ [if unat PSZ = 4096 then CHR ''x'' else CHR 0x00] @ newline])"
  by (rule mmap_over_one_page [OF fk.fresh_kernel_axioms]) (simp_all add: fits_def PSZ_12)

lemma mremap_main_refused: "exits_refused step (mremap_main psz)"
proof -
  have "exits_refused step (mremap_or_exit p psz)" for p
    by (auto simp: exits_refused_def mremap_or_exit_def call_def fatal_def refused_def split: option.splits if_splits)
  moreover have "exits_refused step (load p)" for p unfolding load_def by (rule exits_refused_bnd) simp_all
  ultimately show ?thesis unfolding mremap_main_def say_def check_vma_def
    by (intro exits_refused_bnd exits_refused_seq) simp_all
qed

text \<open>C37. A page that is moved without being unmapped leaves memory behind that can be accessed and is empty: \<open>mremap.c\<close> ends with three
  pages, of which only the last shows the byte that was stored to it, and status 0; or its last call is one that the kernel refuses, and only then is its status 1.\<close>

theorem mremap_leaves_nulls:
  assumes "fresh_kernel step page_at psz byte_at own out" "region psz TARGET_PTR 1"
  shows "(\<exists>k' cs c. run step (mremap_main psz) k = (Exited 1, k') \<and> calls step (mremap_main psz) k = cs @ [c] \<and> refused c)
    \<or> (\<exists>k' p q. run step (mremap_main psz) k = (Exited 0, k') \<and> distinct [TARGET_PTR, p, q]
      \<and> (\<forall>a\<in>{TARGET_PTR, p, q}. map_option p_prot (page_at k' a) = Some RW)
      \<and> out k' = out k @ [''orig mmap='' @ fmt_p TARGET_PTR @ newline, ''after mremap2='' @ fmt_p p @ newline, ''after mremap3='' @ fmt_p q @ newline,
          [CHR 0x00] @ '' '' @ [CHR 0x00] @ '' z'' @ newline])"
  using fresh_kernel.mremap_run [OF assms, of k] mremap_main_refused [of step psz] unfolding exits_refused_def by blast

lemma target_region: "region PSZ TARGET_PTR 1"
proof -
  have "TARGET_PTR = of_nat 0x700000000 * PSZ" by (simp add: TARGET_PTR_def PSZ_def)
  then have "page_addr PSZ TARGET_PTR" unfolding page_addr_def by blast
  then show ?thesis by (simp add: region_def fits_def PSZ_12 TARGET_PTR_def)
qed

text \<open>On the executable kernel no call is refused.\<close>

lemma candidates_first: "candidates = 0x7f0000000000 # 0x7f0001000000 # map (\<lambda>i. 0x7f0000000000 + of_nat i * 0x1000000) [2..<64]"
  by (simp add: candidates_def upt_conv_Cons)

lemma place_first:
  "m 0x7f0000000000 = None \<Longrightarrow> place m 1 = Some 0x7f0000000000"
  "m 0x7f0000000000 \<noteq> None \<Longrightarrow> m 0x7f0001000000 = None \<Longrightarrow> place m 1 = Some 0x7f0001000000"
  by (simp_all add: place_def candidates_first unmapped_def)

lemma bk_call: "run bk_step (bnd (call q) f) (k, m) = (case pk_step k q of None \<Rightarrow> (Killed, (k, m))
   | Some (k', r) \<Rightarrow> run bk_step (f (case q of SLoad a \<Rightarrow> of_char (m a) | _ \<Rightarrow> fst r)) (k', bk_bytes q (fst r) m))"
  by (simp add: call_def bk_step_def split: option.split sys.split)

lemma mremap_main_on_bk: "fst (run bk_step (mremap_main PSZ) bk_start) = Exited 0"
proof -
  have p: "page_count PSZ = 1" "0x1000 = PSZ" by (simp_all add: PSZ_def page_count_def)
  show ?thesis
    unfolding mremap_main_def mmap_or_exit_def mremap_or_exit_def say_def check_vma_def load_def ignore_def seq_def bnd_assoc bk_start_def bk_call
    by (simp add: bk_call bnd_assoc pk_step_def pk_mmap_def p(1) TARGET_PTR_def aligned_def MAP_FAILED_def pk_store_def map_pages_def in_pages_def touch_page_def new_page_def RW_def
      pk_mremap_def uniform_def place_first [unfolded One_nat_def] Let_def move_pages_def pk_load_def)
qed

theorem mremap_leaves_nulls_witness:
  "\<exists>k' p q. run bk_step (mremap_main PSZ) bk_start = (Exited 0, k') \<and> distinct [TARGET_PTR, p, q]
      \<and> (\<forall>a\<in>{TARGET_PTR, p, q}. map_option p_prot (pk_pages (fst k') a) = Some RW)
      \<and> pk_out (fst k') = pk_out (fst bk_start) @ [''orig mmap='' @ fmt_p TARGET_PTR @ newline, ''after mremap2='' @ fmt_p p @ newline,
          ''after mremap3='' @ fmt_p q @ newline, [CHR 0x00] @ '' '' @ [CHR 0x00] @ '' z'' @ newline]"
  using mremap_leaves_nulls [OF fk.fresh_kernel_axioms target_region, of bk_start] mremap_main_on_bk by auto

text \<open>\<open>hint.c\<close> has either reserved the eight megabytes without a gap, of which nothing was mapped before, or ends with status 255 with just those of its three ranges
  mapped that were reserved before one was refused or put elsewhere; a range that was put elsewhere has been given back.\<close>

theorem hint_all_or_nothing:
  assumes "fresh_kernel step page_at PG byte_at own out"
  shows "\<exists>k'. let g = map_pages PG base 1024 (Some (new_page [] [MAP_ANON, MAP_PRIVATE, MAP_NORESERVE])) (page_at k) in
    (run step hint_main k = (Exited 0, k') \<and> unmapped PG base 2048 (page_at k)
      \<and> page_at k' = map_pages PG base 2048 (Some (new_page [] [MAP_ANON, MAP_PRIVATE, MAP_NORESERVE])) (page_at k))
    \<or> (run step hint_main k = (Exited 255, k') \<and> (page_at k' = page_at k \<or> page_at k' = g
        \<or> page_at k' = map_pages PG (base + 6 * M) 512 (Some (new_page [] [MAP_ANON, MAP_PRIVATE, MAP_NORESERVE])) g))"
  by (rule fresh_kernel.hint_run [OF assms refl])

theorem hint_all_or_nothing_witness:
  "\<exists>k'. let g = map_pages PG base 1024 (Some (new_page [] [MAP_ANON, MAP_PRIVATE, MAP_NORESERVE])) (pk_pages (fst bk_start)) in
    (run bk_step hint_main bk_start = (Exited 0, k') \<and> unmapped PG base 2048 (pk_pages (fst bk_start))
      \<and> pk_pages (fst k') = map_pages PG base 2048 (Some (new_page [] [MAP_ANON, MAP_PRIVATE, MAP_NORESERVE])) (pk_pages (fst bk_start)))
    \<or> (run bk_step hint_main bk_start = (Exited 255, k') \<and> (pk_pages (fst k') = pk_pages (fst bk_start) \<or> pk_pages (fst k') = g
        \<or> pk_pages (fst k') = map_pages PG (base + 6 * M) 512 (Some (new_page [] [MAP_ANON, MAP_PRIVATE, MAP_NORESERVE])) g))"
  by (rule hint_all_or_nothing) (use fk.fresh_kernel_axioms in \<open>simp add: PG_PSZ\<close>)

text \<open>\<open>mprotect_twice.c\<close>: a page of a mapping that is made writable and then read-only again leaves the mapping as it was made.\<close>

theorem mprotect_twice_restores:
  assumes "fresh_kernel step page_at psz byte_at own out" "fits psz 4"
  shows "(\<exists>k'. run step (mprotect_twice_main psz pid) k = (Exited 1, k') \<and> page_at k' = page_at k)
    \<or> (\<exists>k' p. run step (mprotect_twice_main psz pid) k = (Exited 0, k') \<and> region psz p 4 \<and> unmapped psz p 4 (page_at k)
      \<and> page_at k' = map_pages psz p 4 (Some (new_page [PROT_READ] [MAP_PRIVATE, MAP_ANON])) (page_at k))"
  by (rule fresh_kernel.mprotect_twice_run [OF assms])

theorem mprotect_twice_restores_witness:
  "(\<exists>k'. run bk_step (mprotect_twice_main PSZ 7) bk_start = (Exited 1, k') \<and> pk_pages (fst k') = pk_pages (fst bk_start))
    \<or> (\<exists>k' p. run bk_step (mprotect_twice_main PSZ 7) bk_start = (Exited 0, k') \<and> region PSZ p 4 \<and> unmapped PSZ p 4 (pk_pages (fst bk_start))
      \<and> pk_pages (fst k') = map_pages PSZ p 4 (Some (new_page [PROT_READ] [MAP_PRIVATE, MAP_ANON])) (pk_pages (fst bk_start)))"
  by (rule mprotect_twice_restores [OF fk.fresh_kernel_axioms]) (simp add: fits_def PSZ_12)

text \<open>\<open>mmap_simple.c\<close> leaves the pages as they were.\<close>

theorem mmap_simple_restores:
  assumes "fresh_kernel step page_at psz byte_at own out" "fits psz 1"
  shows "(\<exists>k'. run step (mmap_simple_main psz) k = (Exited 1, k') \<and> page_at k' = page_at k) \<or> (\<exists>k'. run step (mmap_simple_main psz) k = (Exited 0, k') \<and> page_at k' = page_at k)"
  by (rule fresh_kernel.mmap_simple_run [OF assms])

theorem mmap_simple_restores_witness:
  "(\<exists>k'. run bk_step (mmap_simple_main PSZ) bk_start = (Exited 1, k') \<and> pk_pages (fst k') = pk_pages (fst bk_start))
    \<or> (\<exists>k'. run bk_step (mmap_simple_main PSZ) bk_start = (Exited 0, k') \<and> pk_pages (fst k') = pk_pages (fst bk_start))"
  by (rule mmap_simple_restores [OF fk.fresh_kernel_axioms]) (simp add: fits_def PSZ_12)

text \<open>\<open>mremap_warn.c\<close>: \<open>EXIT_FAILURE\<close> is not 0, so a test that could not map its page counts as one whose \<open>mremap\<close> succeeded. When all is refused the program reports the
  success of the private remap, which was never tried, and not the failure of the shared one.\<close>

theorem refusal_taken_for_success:
  assumes "\<forall>k pr fl. step k (SMmap 0 4096 pr fl) = Some (k, (MAP_FAILED, 0, 0))" "step k (SPuts (''Unexpected success of private 0-len mapping remap'' @ newline)) = Some (k', r)"
  shows "run step mremap_warn_main k = (Exited 0, k')"
proof -
  have t: "run step (bnd (do_test fl) f) k = run step (f True) k" for fl and f :: "bool \<Rightarrow> unit prog" and k
    by (simp add: do_test_def bnd_assoc run_bnd_call [of step k "SMmap 0 4096 RW fl" k "(MAP_FAILED, 0, 0)"] assms(1))
  show ?thesis
    by (simp add: mremap_warn_main_def t whenever_def say_def run_ignore_seq [of step, OF assms(2)] del: append.simps) (simp add: seq_def)
qed

theorem refusal_taken_for_success_witness:
  "run (\<lambda>k q. case q of SMmap _ _ _ _ \<Rightarrow> Some (k, (MAP_FAILED, 0, 0)) | SPuts s \<Rightarrow> Some (k @ [s], (0, 0, 0)) | _ \<Rightarrow> None) mremap_warn_main []
    = (Exited 0, [''Unexpected success of private 0-len mapping remap'' @ newline])"
  by (rule refusal_taken_for_success) simp_all

text \<open>\<open>stack.c\<close> with a limit: from the byte that is stored to up to the end of the ten pages there are as many bytes as the limit allows. Without one the
  constant 10 is added to an address and not ten pages, so the store asks for the physical memory and ten pages without ten bytes.\<close>

theorem stack_reach:
  "stack_target psz TARGET_PTR r n = (if r = - 1 then TARGET_PTR + psz * 10 - ((n + 10) * psz - 10) else TARGET_PTR + psz * 10 - r)"
  by (simp add: stack_target_def algebra_simps)

end
