(* ===== verification/File_Kernel.thy ===== *)
theory File_Kernel
  imports Read_Tour C_Lib
begin

text \<open>
  Files, descriptors and the memory that is mapped from them, as the small programs of \<open>random/\<close> and \<open>tools/\<close> use them. Memory is a map from
  addresses to places in objects, and a file is an object as well: two mappings of a file, or a mapping and the file, share its content. The kernel is
  a parameter that may refuse every call and fail every access, also one to a page that is mapped: a store to a file on a full disk, or any access when
  memory has run out, ends the program with a signal. The interface \<open>file_kernel\<close> says what a call does that it does not refuse and an access that
  it does not fail; \<open>roomy_kernel\<close> adds that accesses to mapped pages succeed. It is interpreted on an executable kernel. Not modelled are signals
  that have nothing to do with what the program does, and another process that makes a file shorter.
\<close>

section \<open>Calls\<close>

datatype fmap_flag = F_Private | F_Shared | F_Shared_Validate | F_Anon | F_Populate | F_Noreserve | F_Hugetlb

datatype open_flag = O_Rdonly | O_Rdwr | O_Creat

datatype memfd_flag = Mfd_Hugetlb | Mfd_Allow_Sealing

datatype madv = Madv_Normal | Madv_Random | Madv_Remove | Madv_Populate_Write | Madv_Collapse | Madv_Guard_Install

text \<open>
  \<open>None\<close> is a refusal, or a fatal signal for loads and stores. \<open>fo_other\<close> stands for the calls that act on neither memory nor files; its first
  argument tells the call.
\<close>

record 'k file_os =
  fo_mmap :: "u64 \<Rightarrow> u64 \<Rightarrow> prot list \<Rightarrow> fmap_flag list \<Rightarrow> int \<Rightarrow> 'k \<Rightarrow> (u64 \<times> 'k) option"
  fo_munmap :: "u64 \<Rightarrow> u64 \<Rightarrow> 'k \<Rightarrow> 'k option"
  fo_open :: "string \<Rightarrow> open_flag list \<Rightarrow> 'k \<Rightarrow> (int \<times> 'k) option"
  fo_memfd :: "string \<Rightarrow> memfd_flag list \<Rightarrow> 'k \<Rightarrow> (int \<times> 'k) option"
  fo_fstat :: "int \<Rightarrow> 'k \<Rightarrow> (u64 \<times> 'k) option"
  fo_truncate :: "int \<Rightarrow> u64 \<Rightarrow> 'k \<Rightarrow> 'k option"
  fo_close :: "int \<Rightarrow> 'k \<Rightarrow> 'k"
  fo_load :: "u64 \<Rightarrow> 'k \<Rightarrow> (char \<times> 'k) option"
  fo_store :: "u64 \<Rightarrow> char \<Rightarrow> 'k \<Rightarrow> 'k option"
  fo_madvise :: "u64 \<Rightarrow> u64 \<Rightarrow> madv \<Rightarrow> 'k \<Rightarrow> 'k option"
  fo_read :: "int \<Rightarrow> u64 \<Rightarrow> u64 \<Rightarrow> 'k \<Rightarrow> (nat \<times> 'k) option"
  fo_other :: "string \<Rightarrow> u64 list \<Rightarrow> 'k \<Rightarrow> 'k option"
  fo_sleep :: "nat \<Rightarrow> 'k \<Rightarrow> 'k"

text \<open>A failed \<open>mmap\<close> delivers \<open>MAP_FAILED\<close>, other failed calls - 1.\<close>

definition f_mmap :: "'k file_os \<Rightarrow> u64 \<Rightarrow> u64 \<Rightarrow> prot list \<Rightarrow> fmap_flag list \<Rightarrow> int \<Rightarrow> ('k, u64) act" where
  "f_mmap K hint len pr fl fd t = (case fo_mmap K hint len pr fl fd (sys_of t) of
      None \<Rightarrow> (Done MAP_FAILED, t) | Some (a, k) \<Rightarrow> (Done a, t\<lparr>sys_of := k\<rparr>))"

definition f_call :: "('k \<Rightarrow> 'k option) \<Rightarrow> ('k, bool) act" where
  "f_call f t = (case f (sys_of t) of None \<Rightarrow> (Done False, t) | Some k \<Rightarrow> (Done True, t\<lparr>sys_of := k\<rparr>))"

definition f_get :: "('k \<Rightarrow> ('a \<times> 'k) option) \<Rightarrow> ('k, 'a option) act" where
  "f_get f t = (case f (sys_of t) of None \<Rightarrow> (Done None, t) | Some (x, k) \<Rightarrow> (Done (Some x), t\<lparr>sys_of := k\<rparr>))"

definition f_load :: "'k file_os \<Rightarrow> u64 \<Rightarrow> ('k, char) act" where
  "f_load K a t = (case fo_load K a (sys_of t) of None \<Rightarrow> (Killed, t) | Some (c, k) \<Rightarrow> (Done c, t\<lparr>sys_of := k\<rparr>))"

definition f_store :: "'k file_os \<Rightarrow> u64 \<Rightarrow> char \<Rightarrow> ('k, unit) act" where
  "f_store K a c = access (fo_store K a c)"

text \<open>The call with the test that ends the program with status 1, and the call whose result is not looked at.\<close>

definition need :: "('k \<Rightarrow> 'k option) \<Rightarrow> ('k, unit) act" where
  "need f = act_bind (f_call f) (\<lambda>b. stop_if (\<not> b))"

definition attempt :: "('k \<Rightarrow> 'k option) \<Rightarrow> ('k, unit) act" where
  "attempt f = act_bind (f_call f) (\<lambda>_. ok ())"

definition get_or_stop :: "('k \<Rightarrow> ('a \<times> 'k) option) \<Rightarrow> ('k, 'a) act" where
  "get_or_stop f = act_bind (f_get f) (\<lambda>r. case r of None \<Rightarrow> leave 1 | Some x \<Rightarrow> ok x)"

definition f_map :: "'k file_os \<Rightarrow> u64 \<Rightarrow> prot list \<Rightarrow> fmap_flag list \<Rightarrow> int \<Rightarrow> ('k, u64) act" where
  "f_map K len pr fl fd = act_bind (f_mmap K 0 len pr fl fd) (\<lambda>p. act_bind (stop_if (p = MAP_FAILED)) (\<lambda>_. ok p))"

definition rdwr :: "prot list" where "rdwr = [PROT_READ, PROT_WRITE]"

definition sleep :: "'k file_os \<Rightarrow> nat \<Rightarrow> ('k, unit) act" where
  "sleep K n = effect (fo_sleep K n)"

definition close_fd :: "'k file_os \<Rightarrow> int \<Rightarrow> ('k, unit) act" where
  "close_fd K fd = effect (fo_close K fd)"

definition with_byte :: "'k file_os \<Rightarrow> u64 \<Rightarrow> (char \<Rightarrow> ('k, unit) act) \<Rightarrow> ('k, unit) act" where
  "with_byte K a f = act_bind (f_load K a) f"

text \<open>What \<open>printf\<close> reads for \<open>%s\<close>: up to the null byte.\<close>

primrec f_string :: "'k file_os \<Rightarrow> nat \<Rightarrow> u64 \<Rightarrow> ('k, string) act" where
  "f_string K 0 a = ok []"
| "f_string K (Suc n) a = act_bind (f_load K a) (\<lambda>c. if c = CHR 0x00 then ok []
     else act_bind (f_string K n (a + 1)) (\<lambda>s. ok (c # s)))"

text \<open>The values of a counter that goes from 0 to below a bound in steps.\<close>

definition steps :: "nat \<Rightarrow> nat \<Rightarrow> nat list" where
  "steps n d = map (\<lambda>i. i * d) [0..<(n + d - 1) div d]"

lemma steps_less: "i \<in> set (steps n d) \<Longrightarrow> i < n"
proof -
  assume "i \<in> set (steps n d)"
  then have "\<exists>j<(n + d - 1) div d. i = j * d" unfolding steps_def set_map set_upt image_iff by force
  then obtain j where j: "i = j * d" "j < (n + d - 1) div d" by blast
  then have "0 < d" by (cases d) simp_all
  then have "Suc j * d \<le> n + d - 1" using mult_le_mono1 [of "Suc j" "(n + d - 1) div d" d] div_times_less_eq_dividend [of "n + d - 1" d] j(2) by linarith
  then show "i < n" using j(1) \<open>0 < d\<close> by simp
qed

section \<open>The world\<close>

record place =
  pl_obj :: nat
  pl_off :: nat
  pl_write :: bool
  pl_shared :: bool

record world =
  mem :: "u64 \<Rightarrow> place option"
  cont :: "nat \<Rightarrow> nat \<Rightarrow> char"
  fdo :: "int \<Rightarrow> nat option"
  size_of :: "nat \<Rightarrow> nat"
  names :: "string \<Rightarrow> nat option"

definition round_up :: "u64 \<Rightarrow> nat \<Rightarrow> nat" where
  "round_up psz n = (n + unat psz - 1) div unat psz * unat psz"

definition in_span :: "u64 \<Rightarrow> nat \<Rightarrow> u64 \<Rightarrow> bool" where
  "in_span a n x \<longleftrightarrow> unat (x - a) < n"

definition add_map :: "u64 \<Rightarrow> nat \<Rightarrow> nat \<Rightarrow> bool \<Rightarrow> bool \<Rightarrow> world \<Rightarrow> world" where
  "add_map a n ob wr sh w = w\<lparr>mem := \<lambda>x. if in_span a n x
     then Some \<lparr>pl_obj = ob, pl_off = unat (x - a), pl_write = wr, pl_shared = sh\<rparr> else mem w x\<rparr>"

definition unmap :: "u64 \<Rightarrow> nat \<Rightarrow> world \<Rightarrow> world" where
  "unmap a n w = w\<lparr>mem := \<lambda>x. if in_span a n x then None else mem w x\<rparr>"

definition new_obj :: "world \<Rightarrow> nat \<Rightarrow> bool" where
  "new_obj w ob \<longleftrightarrow> (\<forall>x p. mem w x = Some p \<longrightarrow> pl_obj p \<noteq> ob) \<and> (\<forall>fd. fdo w fd \<noteq> Some ob) \<and> (\<forall>s. names w s \<noteq> Some ob)"

definition set_obj :: "nat \<Rightarrow> (nat \<Rightarrow> char) \<Rightarrow> nat \<Rightarrow> world \<Rightarrow> world" where
  "set_obj ob c n w = w\<lparr>cont := (cont w)(ob := c), size_of := (size_of w)(ob := n)\<rparr>"

definition is_shared :: "fmap_flag list \<Rightarrow> bool" where
  "is_shared fl \<longleftrightarrow> F_Shared \<in> set fl \<or> F_Shared_Validate \<in> set fl"

text \<open>A mapping covers whole pages; anonymous memory is an object of its own with null bytes, as is what a private mapping shows of a file, and a shared
  one shows the file. Pages of a file behind its end cannot be used.\<close>

definition mapped_as :: "u64 \<Rightarrow> u64 \<Rightarrow> prot list \<Rightarrow> fmap_flag list \<Rightarrow> int \<Rightarrow> u64 \<Rightarrow> world \<Rightarrow> world \<Rightarrow> bool" where
  "mapped_as psz len pr fl fd a w w' \<longleftrightarrow> a \<noteq> MAP_FAILED \<and> len \<noteq> 0 \<and> (\<forall>x. in_span a (round_up psz (unat len)) x \<longrightarrow> mem w x = None)
     \<and> (\<exists>ob. if F_Anon \<in> set fl then new_obj w ob \<and> w' = set_obj ob (\<lambda>_. CHR 0x00) (unat len)
            (add_map a (round_up psz (unat len)) ob (PROT_WRITE \<in> set pr) (is_shared fl) w)
          else if is_shared fl then fdo w fd = Some ob \<and> w' = add_map a (round_up psz (unat len)) ob (PROT_WRITE \<in> set pr) True w
          else (\<exists>f c. new_obj w ob \<and> fdo w fd = Some f \<and> w' = set_obj ob c (size_of w f)
            (add_map a (round_up psz (unat len)) ob (PROT_WRITE \<in> set pr) False w)))"

definition opened_as :: "string \<Rightarrow> open_flag list \<Rightarrow> int \<Rightarrow> world \<Rightarrow> world \<Rightarrow> bool" where
  "opened_as path m fd w w' \<longleftrightarrow> 0 \<le> fd \<and> fdo w fd = None
     \<and> (\<exists>ob. names w path = Some ob \<and> w' = w\<lparr>fdo := (fdo w)(fd \<mapsto> ob)\<rparr>
          \<or> O_Creat \<in> set m \<and> names w path = None \<and> new_obj w ob
            \<and> w' = set_obj ob (\<lambda>_. CHR 0x00) 0 (w\<lparr>fdo := (fdo w)(fd \<mapsto> ob), names := (names w)(path \<mapsto> ob)\<rparr>))"

definition usable_at :: "u64 \<Rightarrow> world \<Rightarrow> u64 \<Rightarrow> bool" where
  "usable_at psz w x \<longleftrightarrow> (case mem w x of None \<Rightarrow> False | Some p \<Rightarrow> pl_off p < round_up psz (size_of w (pl_obj p)))"

definition removed :: "u64 \<Rightarrow> nat \<Rightarrow> world \<Rightarrow> world" where
  "removed a n w = w\<lparr>cont := \<lambda>ob i. if \<exists>x p. in_span a n x \<and> mem w x = Some p \<and> pl_obj p = ob \<and> pl_off p = i then CHR 0x00 else cont w ob i\<rparr>"

locale file_kernel =
  fixes K :: "'k file_os" and psz :: u64 and view :: "'k \<Rightarrow> world"
  assumes page_size_pos: "3 < psz"
    and mmap_law: "fo_mmap K h len pr fl fd k = Some (a, k') \<Longrightarrow> mapped_as psz len pr fl fd a (view k) (view k')"
    and munmap_law: "fo_munmap K a len k = Some k' \<Longrightarrow> view k' = unmap a (round_up psz (unat len)) (view k)"
    and open_law: "fo_open K path m k = Some (fd, k') \<Longrightarrow> opened_as path m fd (view k) (view k')"
    and memfd_law: "fo_memfd K nm mfl k = Some (fd, k') \<Longrightarrow> 0 \<le> fd \<and> fdo (view k) fd = None
      \<and> (\<exists>ob. new_obj (view k) ob \<and> view k' = set_obj ob (\<lambda>_. CHR 0x00) 0 ((view k)\<lparr>fdo := (fdo (view k))(fd \<mapsto> ob)\<rparr>))"
    and fstat_law: "fo_fstat K fd k = Some (n, k') \<Longrightarrow> (\<exists>ob. fdo (view k) fd = Some ob \<and> unat n = size_of (view k) ob) \<and> view k' = view k"
    and truncate_law: "fo_truncate K fd n k = Some k' \<Longrightarrow> \<exists>ob c. fdo (view k) fd = Some ob \<and> view k' = set_obj ob c (unat n) (view k)"
    and close_law: "view (fo_close K fd k) = (view k)\<lparr>fdo := (fdo (view k))(fd := None)\<rparr>"
    and load_law: "usable_at psz (view k) a \<Longrightarrow> mem (view k) a = Some p \<Longrightarrow>
      fo_load K a k = Some (c, k') \<Longrightarrow> c = cont (view k) (pl_obj p) (pl_off p) \<and> view k' = view k"
    and store_law: "usable_at psz (view k) a \<Longrightarrow> mem (view k) a = Some p \<Longrightarrow> pl_write p \<Longrightarrow>
      fo_store K a c k = Some k' \<Longrightarrow> view k' = (view k)\<lparr>cont := (cont (view k))(pl_obj p := (cont (view k) (pl_obj p))(pl_off p := c))\<rparr>"
    and fault_law: "mem (view k) a = None \<Longrightarrow> fo_load K a k = None \<and> fo_store K a c k = None"
    and advise_law: "fo_madvise K a len adv k = Some k' \<Longrightarrow> adv \<notin> {Madv_Remove, Madv_Guard_Install} \<Longrightarrow> view k' = view k"
    and guard_law: "fo_madvise K a len Madv_Guard_Install k = Some k' \<Longrightarrow> view k' = unmap a (round_up psz (unat len)) (view k)"
    and remove_law: "fo_madvise K a len Madv_Remove k = Some k' \<Longrightarrow> view k' = removed a (round_up psz (unat len)) (view k)
      \<and> (\<forall>x p. in_span a (round_up psz (unat len)) x \<longrightarrow> mem (view k) x = Some p \<longrightarrow> pl_shared p)"
    and read_law: "fo_read K fd a n k = Some (got, k') \<Longrightarrow> got \<le> unat n \<and> (\<exists>c. view k' = (view k)\<lparr>cont := c\<rparr>)"
    and other_law: "fo_other K s xs k = Some k' \<Longrightarrow> view k' = view k"
    and sleep_law: "\<exists>c. view (fo_sleep K secs k) = (view k)\<lparr>cont := c\<rparr>"

text \<open>The kernel fails an access to a page that the program may write, for want of memory or of room on the disk; a kernel that never does.\<close>

definition starved :: "'k file_os \<Rightarrow> u64 \<Rightarrow> ('k \<Rightarrow> world) \<Rightarrow> 'k tour \<Rightarrow> bool" where
  "starved K psz view t \<longleftrightarrow> (\<exists>a p. mem (view (sys_of t)) a = Some p \<and> pl_write p \<and> usable_at psz (view (sys_of t)) a
     \<and> (fo_load K a (sys_of t) = None \<or> (\<exists>c. fo_store K a c (sys_of t) = None)))"

locale roomy_kernel = file_kernel +
  assumes load_granted: "usable_at psz (view k) a \<Longrightarrow> fo_load K a k \<noteq> None"
    and store_granted: "usable_at psz (view k) a \<Longrightarrow> mem (view k) a = Some p \<Longrightarrow> pl_write p \<Longrightarrow> fo_store K a c k \<noteq> None"
begin

lemma never_starved: "\<not> starved K psz view t"
  using load_granted store_granted by (auto simp: starved_def)

end

section \<open>A kernel\<close>

text \<open>
  New memory goes behind everything that was ever mapped; nothing is given when the address space is used up or the page size is too small.
  Memory that is taken away leaves an entry without an object.
\<close>

record sim =
  s_maps :: "(u64 \<times> nat \<times> (nat \<times> bool \<times> bool) option) list"
  s_cont :: "nat \<Rightarrow> nat \<Rightarrow> char"
  s_fds :: "(int \<times> nat) list"
  s_size :: "nat \<Rightarrow> nat"
  s_names :: "(string \<times> nat) list"

definition sim_place :: "u64 \<Rightarrow> u64 \<times> nat \<times> (nat \<times> bool \<times> bool) option \<Rightarrow> place option" where
  "sim_place x e = (case e of (a, n, None) \<Rightarrow> None
     | (a, n, Some (ob, wr, sh)) \<Rightarrow> Some \<lparr>pl_obj = ob, pl_off = unat (x - a), pl_write = wr, pl_shared = sh\<rparr>)"

definition sim_mem :: "(u64 \<times> nat \<times> (nat \<times> bool \<times> bool) option) list \<Rightarrow> u64 \<Rightarrow> place option" where
  "sim_mem ms x = Option.bind (List.find (\<lambda>(a, n, _). in_span a n x) ms) (sim_place x)"

definition sim_view :: "sim \<Rightarrow> world" where
  "sim_view s = \<lparr>mem = sim_mem (s_maps s), cont = s_cont s, fdo = map_of (s_fds s), size_of = s_size s, names = map_of (s_names s)\<rparr>"

definition sim_end :: "sim \<Rightarrow> nat" where
  "sim_end s = fold (\<lambda>(a, n, _). max (unat a + n)) (s_maps s) 4096"

definition sim_new :: "sim \<Rightarrow> nat" where
  "sim_new s = Suc (fold max (List.map_filter (\<lambda>(_, _, r). map_option fst r) (s_maps s) @ map snd (s_fds s) @ map snd (s_names s)) 0)"

definition sim_fd :: "sim \<Rightarrow> int" where
  "sim_fd s = fold (\<lambda>(fd, _). max (fd + 1)) (s_fds s) 3"

definition PSZ4 :: u64 where "PSZ4 = 4096"

definition sim_mmap :: "u64 \<Rightarrow> u64 \<Rightarrow> prot list \<Rightarrow> fmap_flag list \<Rightarrow> int \<Rightarrow> sim \<Rightarrow> (u64 \<times> sim) option" where
  "sim_mmap h len pr fl fd s =
     (let e = sim_end s; n = round_up PSZ4 (unat len); a = of_nat e; ob = sim_new s; wr = (PROT_WRITE \<in> set pr);
          add = (\<lambda>ob sh. s\<lparr>s_maps := (a, n, Some (ob, wr, sh)) # s_maps s\<rparr>)
      in if len = 0 \<or> 2 ^ 63 < e + n then None
         else if F_Anon \<in> set fl then
           Some (a, (add ob (is_shared fl))\<lparr>s_cont := (s_cont s)(ob := \<lambda>_. CHR 0x00), s_size := (s_size s)(ob := unat len)\<rparr>)
         else case map_of (s_fds s) fd of None \<Rightarrow> None
           | Some f \<Rightarrow> Some (a, if is_shared fl then add f True
               else (add ob False)\<lparr>s_cont := (s_cont s)(ob := s_cont s f), s_size := (s_size s)(ob := s_size s f)\<rparr>))"

definition sim_cut :: "u64 \<Rightarrow> u64 \<Rightarrow> sim \<Rightarrow> sim" where
  "sim_cut a len s = s\<lparr>s_maps := (a, round_up PSZ4 (unat len), None) # s_maps s\<rparr>"

definition sim_open :: "string \<Rightarrow> open_flag list \<Rightarrow> sim \<Rightarrow> (int \<times> sim) option" where
  "sim_open path m s =
     (let fd = sim_fd s; ob = sim_new s in
      case map_of (s_names s) path of
        Some f \<Rightarrow> Some (fd, s\<lparr>s_fds := (fd, f) # s_fds s\<rparr>)
      | None \<Rightarrow> if O_Creat \<in> set m
          then Some (fd, s\<lparr>s_fds := (fd, ob) # s_fds s, s_names := (path, ob) # s_names s,
            s_cont := (s_cont s)(ob := \<lambda>_. CHR 0x00), s_size := (s_size s)(ob := 0)\<rparr>)
          else None)"

definition sim_memfd :: "sim \<Rightarrow> (int \<times> sim) option" where
  "sim_memfd s = (let fd = sim_fd s; ob = sim_new s in
     Some (fd, s\<lparr>s_fds := (fd, ob) # s_fds s, s_cont := (s_cont s)(ob := \<lambda>_. CHR 0x00), s_size := (s_size s)(ob := 0)\<rparr>))"

definition sim_usable :: "sim \<Rightarrow> u64 \<Rightarrow> place option" where
  "sim_usable s a = (case sim_mem (s_maps s) a of None \<Rightarrow> None
     | Some p \<Rightarrow> if pl_off p < round_up PSZ4 (s_size s (pl_obj p)) then Some p else None)"

text \<open>Memory is removed from the newest mapping, if that is a shared one.\<close>

definition sim_remove :: "u64 \<Rightarrow> u64 \<Rightarrow> sim \<Rightarrow> sim option" where
  "sim_remove a len s = (case s_maps s of
      (b, n, Some (ob, wr, True)) # ms \<Rightarrow>
        if b = a \<and> n = round_up PSZ4 (unat len) \<and> n \<le> 2 ^ 63
        then Some (s\<lparr>s_cont := (s_cont s)(ob := \<lambda>i. if i < n then CHR 0x00 else s_cont s ob i)\<rparr>) else None
    | _ \<Rightarrow> None)"

definition sim_os :: "sim file_os" where
  "sim_os = \<lparr>fo_mmap = sim_mmap, fo_munmap = \<lambda>a len s. Some (sim_cut a len s), fo_open = sim_open, fo_memfd = \<lambda>nm m. sim_memfd,
     fo_fstat = \<lambda>fd s. (case map_of (s_fds s) fd of None \<Rightarrow> None | Some ob \<Rightarrow> if s_size s ob < 2 ^ 64 then Some (of_nat (s_size s ob), s) else None),
     fo_truncate = \<lambda>fd n s. map_option (\<lambda>ob. s\<lparr>s_size := (s_size s)(ob := unat n)\<rparr>) (map_of (s_fds s) fd),
     fo_close = \<lambda>fd s. s\<lparr>s_fds := filter (\<lambda>(f, _). f \<noteq> fd) (s_fds s)\<rparr>,
     fo_load = \<lambda>a s. map_option (\<lambda>p. (s_cont s (pl_obj p) (pl_off p), s)) (sim_usable s a),
     fo_store = \<lambda>a c s. Option.bind (sim_usable s a) (\<lambda>p. if pl_write p
       then Some (s\<lparr>s_cont := (s_cont s)(pl_obj p := (s_cont s (pl_obj p))(pl_off p := c))\<rparr>) else None),
     fo_madvise = \<lambda>a len adv s. (case adv of Madv_Remove \<Rightarrow> sim_remove a len s | Madv_Guard_Install \<Rightarrow> Some (sim_cut a len s) | _ \<Rightarrow> Some s),
     fo_read = \<lambda>fd a n s. None, fo_other = \<lambda>c xs s. Some s, fo_sleep = \<lambda>n s. s\<rparr>"

lemma fold_nat_max: "(m::nat) \<le> fold (\<lambda>x. max (f x)) xs m" "x \<in> set xs \<Longrightarrow> f x \<le> fold (\<lambda>x. max (f x)) xs m"
proof (induction xs arbitrary: m)
  case (Cons y ys)
  {
    case 1
    show ?case using Cons(1) [of "max (f y) m"] by simp
  next
    case 2
    then show ?case using Cons(1,2) [of "max (f y) m"] by auto
  }
qed simp_all

lemma fold_int_max: "(m::int) \<le> fold (\<lambda>x. max (f x)) xs m" "x \<in> set xs \<Longrightarrow> f x \<le> fold (\<lambda>x. max (f x)) xs m"
proof (induction xs arbitrary: m)
  case (Cons y ys)
  {
    case 1
    show ?case using Cons(1) [of "max (f y) m"] by simp
  next
    case 2
    then show ?case using Cons(1,2) [of "max (f y) m"] by auto
  }
qed simp_all

lemma sim_mem_Cons: "sim_mem ((a, n, r) # ms) x = (if in_span a n x then sim_place x (a, n, r) else sim_mem ms x)"
  by (simp add: sim_mem_def)

lemma sim_mem_in: "sim_mem ms x = Some p \<Longrightarrow> \<exists>a n r. (a, n, Some r) \<in> set ms \<and> in_span a n x \<and> pl_obj p = fst r"
  by (induction ms) (auto simp: sim_mem_Cons sim_place_def split: if_splits option.splits prod.splits, auto simp: sim_mem_def)

lemma sim_new_fresh: "new_obj (sim_view s) (sim_new s)"
proof -
  let ?l = "List.map_filter (\<lambda>(_, _, r). map_option fst r) (s_maps s) @ map snd (s_fds s) @ map snd (s_names s)"
  have l: "ob \<noteq> sim_new s" if "ob \<in> set ?l" for ob
    using fold_nat_max(2) [OF that, of "\<lambda>x. x" 0] by (simp add: sim_new_def)
  have "pl_obj p \<noteq> sim_new s" if m: "sim_mem (s_maps s) x = Some p" for x p
  proof -
    obtain a n r where "(a, n, Some r) \<in> set (s_maps s)" "pl_obj p = fst r" using sim_mem_in [OF m] by blast
    then have "pl_obj p \<in> set (List.map_filter (\<lambda>(_, _, r). map_option fst r) (s_maps s))" by (force simp: map_filter_def)
    then show ?thesis using l by simp
  qed
  moreover have "map_of (s_fds s) fd \<noteq> Some (sim_new s)" for fd
  proof
    assume "map_of (s_fds s) fd = Some (sim_new s)"
    then have "(fd, sim_new s) \<in> set (s_fds s)" by (rule map_of_SomeD)
    then have "sim_new s \<in> set ?l" by force
    then show False using l by blast
  qed
  moreover have "map_of (s_names s) nm \<noteq> Some (sim_new s)" for nm
  proof
    assume "map_of (s_names s) nm = Some (sim_new s)"
    then have "(nm, sim_new s) \<in> set (s_names s)" by (rule map_of_SomeD)
    then have "sim_new s \<in> set ?l" by force
    then show False using l by blast
  qed
  ultimately show ?thesis by (simp add: new_obj_def sim_view_def)
qed

lemma sim_fd_fresh: "map_of (s_fds s) (sim_fd s) = None" "0 \<le> sim_fd s"
proof -
  have f: "sim_fd s = fold (\<lambda>x. max (fst x + 1)) (s_fds s) 3" by (simp add: sim_fd_def case_prod_unfold)
  have "fd < sim_fd s" if "(fd, ob) \<in> set (s_fds s)" for fd ob
    using fold_int_max(2) [OF that, of "\<lambda>x. fst x + 1" 3] by (simp add: f)
  then show "map_of (s_fds s) (sim_fd s) = None" by (metis less_irrefl map_of_SomeD not_None_eq)
  show "0 \<le> sim_fd s" using fold_int_max(1) [of 3 "\<lambda>x. fst x + 1" "s_fds s"] by (simp add: f)
qed

lemma sim_room:
  assumes "sim_end s + n \<le> 2 ^ 63" "in_span (of_nat (sim_end s)) n x"
  shows "sim_mem (s_maps s) x = None"
proof (rule ccontr)
  assume "sim_mem (s_maps s) x \<noteq> None"
  then obtain p where "sim_mem (s_maps s) x = Some p" by blast
  then obtain a m r where e: "(a, m, Some r) \<in> set (s_maps s)" "in_span a m x" using sim_mem_in by blast
  have le: "unat a + m \<le> sim_end s"
    using fold_nat_max(2) [OF e(1), of "\<lambda>x. unat (fst x) + fst (snd x)" 4096] by (simp add: sim_end_def case_prod_unfold)
  have split: "unat x = b + unat (x - of_nat b)" if "b + unat (x - of_nat b) < 2 ^ 64" for b
    using that unat_of_nat [of "b + unat (x - of_nat b)", where 'a = 64] by simp
  have "unat x = sim_end s + unat (x - of_nat (sim_end s))"
    using assms by (intro split) (simp add: in_span_def)
  moreover have "unat x = unat a + unat (x - a)"
    using split [of "unat a"] e(2) le assms(1) by (simp add: in_span_def)
  ultimately show False using le e(2) by (simp add: in_span_def)
qed

lemma sim_view_add: "add_map a n ob wr sh (sim_view s) = sim_view (s\<lparr>s_maps := (a, n, Some (ob, wr, sh)) # s_maps s\<rparr>)"
  by (rule world.equality) (auto simp: add_map_def sim_view_def sim_mem_Cons sim_place_def fun_eq_iff)

lemma sim_view_cut: "unmap a n (sim_view s) = sim_view (s\<lparr>s_maps := (a, n, None) # s_maps s\<rparr>)"
  by (rule world.equality) (auto simp: unmap_def sim_view_def sim_mem_Cons sim_place_def fun_eq_iff)

lemma sim_view_obj: "set_obj ob c n (sim_view s) = sim_view (s\<lparr>s_cont := (s_cont s)(ob := c), s_size := (s_size s)(ob := n)\<rparr>)"
  by (simp add: set_obj_def sim_view_def)

lemma sim_usable_iff: "usable_at PSZ4 (sim_view s) a \<longleftrightarrow> (\<exists>p. sim_usable s a = Some p)"
  by (auto simp: sim_usable_def usable_at_def sim_view_def split: option.split)

lemma sim_usable_mem: "sim_usable s a = Some p \<Longrightarrow> mem (sim_view s) a = Some p"
  by (auto simp: sim_usable_def sim_view_def split: option.splits if_splits)

interpretation sim_files: roomy_kernel sim_os PSZ4 sim_view
proof (unfold_locales, goal_cases)
  case 1
  show ?case by (simp add: PSZ4_def)
next
  case (2 h len pr fl fd k a k')
  let ?e = "sim_end k" and ?n = "round_up PSZ4 (unat len)"
  have e: "len \<noteq> 0" "?e + ?n \<le> 2 ^ 63" "a = of_nat ?e"
    using 2 by (auto simp: sim_os_def sim_mmap_def Let_def split: if_splits option.splits)
  have "unat a = ?e" using e(2,3) unat_of_nat [of ?e, where 'a = 64] by simp
  then have "a \<noteq> MAP_FAILED" using e(2) using unat_INVALID_VALUE by (auto simp: MAP_FAILED_def INVALID_VALUE_def)
  moreover have "mem (sim_view k) x = None" if "in_span a ?n x" for x
    using sim_room [OF e(2)] that e(3) by (simp add: sim_view_def)
  ultimately have "mapped_as PSZ4 len pr fl fd a (sim_view k) (sim_view k') \<longleftrightarrow> (\<exists>ob. if F_Anon \<in> set fl
        then new_obj (sim_view k) ob \<and> sim_view k' = set_obj ob (\<lambda>_. CHR 0x00) (unat len) (add_map a ?n ob (PROT_WRITE \<in> set pr) (is_shared fl) (sim_view k))
      else if is_shared fl then map_of (s_fds k) fd = Some ob \<and> sim_view k' = add_map a ?n ob (PROT_WRITE \<in> set pr) True (sim_view k)
      else (\<exists>f c. new_obj (sim_view k) ob \<and> map_of (s_fds k) fd = Some f \<and> sim_view k' = set_obj ob c (s_size k f) (add_map a ?n ob (PROT_WRITE \<in> set pr) False (sim_view k))))"
    using e(1) by (simp add: mapped_as_def sim_view_def)
  moreover have "sim_mmap h len pr fl fd k = Some (a, k')" using 2 by (simp add: sim_os_def)
  ultimately show ?case
    using sim_new_fresh [of k] e
    by (cases "F_Anon \<in> set fl"; cases "is_shared fl"; cases "map_of (s_fds k) fd")
      (auto simp: sim_mmap_def Let_def sim_view_add sim_view_obj)
next
  case (3 a len k k')
  then show ?case by (auto simp: sim_os_def sim_cut_def sim_view_cut)
next
  case (4 path m k fd k')
  then show ?case
    using sim_fd_fresh [of k] sim_new_fresh [of k]
    by (auto simp: sim_os_def sim_open_def opened_as_def Let_def set_obj_def sim_view_def split: if_splits option.splits)
next
  case (5 nm mfl k fd k')
  then show ?case
    using sim_fd_fresh [of k] sim_new_fresh [of k] by (auto simp: sim_os_def sim_memfd_def Let_def set_obj_def sim_view_def)
next
  case (6 fd k n k')
  then show ?case by (auto simp: sim_os_def sim_view_def unat_of_nat split: if_splits option.splits)
next
  case (7 fd n k k')
  then show ?case
    by (auto simp: sim_os_def sim_view_def set_obj_def intro!: exI [of _ "s_cont k (the (map_of (s_fds k) fd))"])
next
  case (8 fd k)
  have "map_of (filter (\<lambda>(f, _). f \<noteq> fd) xs) = (map_of xs)(fd := None)" for xs :: "(int \<times> nat) list"
    by (induction xs) auto
  then show ?case by (simp add: sim_os_def sim_view_def)
next
  case (9 k a p c k')
  then show ?case by (auto simp: sim_os_def sim_usable_def usable_at_def sim_view_def)
next
  case (10 k a p c k')
  then show ?case by (auto simp: sim_os_def sim_usable_def usable_at_def sim_view_def)
next
  case (11 k a c)
  then show ?case by (auto simp: sim_os_def sim_usable_def sim_view_def)
next
  case (12 a len adv k k')
  then show ?case by (auto simp: sim_os_def split: madv.splits)
next
  case (13 a len k k')
  then show ?case by (auto simp: sim_os_def sim_cut_def sim_view_cut)
next
  case (14 a len k k')
  then obtain ob wr ms where ms: "s_maps k = (a, round_up PSZ4 (unat len), Some (ob, wr, True)) # ms" "round_up PSZ4 (unat len) \<le> 2 ^ 63"
    and k': "k' = k\<lparr>s_cont := (s_cont k)(ob := \<lambda>i. if i < round_up PSZ4 (unat len) then CHR 0x00 else s_cont k ob i)\<rparr>"
    by (auto simp: sim_os_def sim_remove_def split: list.splits option.splits if_splits bool.splits)
  have m: "in_span a (round_up PSZ4 (unat len)) x \<Longrightarrow> mem (sim_view k) x = Some \<lparr>pl_obj = ob, pl_off = unat (x - a), pl_write = wr, pl_shared = True\<rparr>" for x
    by (simp add: sim_view_def ms sim_mem_Cons sim_place_def)
  have "(\<exists>x p. in_span a (round_up PSZ4 (unat len)) x \<and> mem (sim_view k) x = Some p \<and> pl_obj p = o' \<and> pl_off p = i) \<longleftrightarrow> o' = ob \<and> i < round_up PSZ4 (unat len)" for o' i
  proof
    assume "o' = ob \<and> i < round_up PSZ4 (unat len)"
    moreover from this have "unat (of_nat i :: u64) = i" using ms(2) by (simp add: unat_of_nat)
    ultimately show "\<exists>x p. in_span a (round_up PSZ4 (unat len)) x \<and> mem (sim_view k) x = Some p \<and> pl_obj p = o' \<and> pl_off p = i"
      using m [of "a + of_nat i"] by (intro exI [of _ "a + of_nat i"]) (simp add: in_span_def)
  qed (auto simp: m in_span_def)
  then have "sim_view k' = removed a (round_up PSZ4 (unat len)) (sim_view k)"
    by (auto simp: removed_def k' fun_eq_iff intro!: world.equality) (simp_all add: sim_view_def)
  then show ?case using m by auto
next
  case (16 s xs k k')
  then show ?case by (simp add: sim_os_def)
next
  case (17 secs k)
  show ?case by (rule exI [of _ "s_cont k"]) (simp add: sim_os_def sim_view_def)
next
  case (18 k a)
  then show ?case by (auto simp: sim_os_def sim_usable_iff)
next
  case (19 k a p c)
  then obtain q where "sim_usable k a = Some q" by (auto simp: sim_usable_iff)
  then show ?case using 19 sim_usable_mem [of k a q] by (simp add: sim_os_def)
qed (simp_all add: sim_os_def)

section \<open>Steps of a program\<close>

text \<open>What a program can rely on of the world apart from the bytes: \<open>at w t\<close>; \<open>sees w t\<close> fixes the bytes as well.\<close>

definition alike :: "world \<Rightarrow> world \<Rightarrow> bool" where
  "alike w w' \<longleftrightarrow> mem w' = mem w \<and> fdo w' = fdo w \<and> size_of w' = size_of w \<and> names w' = names w"

lemma alike_refl [simp]: "alike w w"
  by (simp add: alike_def)

lemma alike_trans: "alike u v \<Longrightarrow> alike v w \<Longrightarrow> alike u w"
  by (simp add: alike_def)

lemma alike_cont [simp]: "alike w (v\<lparr>cont := c\<rparr>) \<longleftrightarrow> alike w v"
  by (simp add: alike_def)

lemma alike_eq: "alike w w' \<Longrightarrow> w' = w\<lparr>cont := cont w'\<rparr>"
  by (cases w; cases w') (simp add: alike_def)

text \<open>Memory that can be used from an address on.\<close>

definition usable_from :: "u64 \<Rightarrow> world \<Rightarrow> u64 \<Rightarrow> nat \<Rightarrow> bool" where
  "usable_from psz w a n \<longleftrightarrow> (\<forall>i<n. \<exists>p. mem w (a + of_nat i) = Some p \<and> pl_write p \<and> pl_off p < round_up psz (size_of w (pl_obj p)))"

lemma usable_from_alike: "alike w w' \<Longrightarrow> usable_from psz w' a n \<longleftrightarrow> usable_from psz w a n"
  by (simp add: usable_from_def alike_def)

lemma usable_from_less: "usable_from psz w a n \<Longrightarrow> m \<le> n \<Longrightarrow> usable_from psz w a m"
  by (simp add: usable_from_def)

lemma round_up_ge:
  assumes "0 < psz"
  shows "n \<le> round_up psz n"
proof -
  have "0 < unat psz" using assms by (simp add: word_less_nat_alt)
  then show ?thesis
    using div_mult_mod_eq [of "n + unat psz - 1" "unat psz"] mod_less_divisor [of "unat psz" "n + unat psz - 1"] unfolding round_up_def by linarith
qed

lemma round_up_mono: "m \<le> n \<Longrightarrow> round_up psz m \<le> round_up psz n"
  unfolding round_up_def by (intro mult_le_mono div_le_mono) simp_all

lemma round_up_page: "0 < psz \<Longrightarrow> 0 < n \<Longrightarrow> unat psz \<le> round_up psz n"
  using div_le_mono [of "unat psz" "n + unat psz - 1" "unat psz"] by (simp add: round_up_def word_less_nat_alt)

lemma round_up_mult:
  assumes "0 < psz"
  shows "round_up psz (n * unat psz) = n * unat psz"
proof -
  have d: "0 < unat psz" using assms by (simp add: word_less_nat_alt)
  then have "n * unat psz + unat psz - 1 = (unat psz - 1) + n * unat psz" by simp
  then have "(n * unat psz + unat psz - 1) div unat psz = n" using d by (simp only: div_mult_self1) simp
  then show ?thesis by (simp only: round_up_def)
qed

lemma in_span_offset: "in_span a n (a + of_nat i) \<longleftrightarrow> i < n" if "i < 2 ^ 64"
  using that by (simp add: in_span_def unat_of_nat)

lemma offset_less: "i < unat (len::u64) \<Longrightarrow> i < 2 ^ 64"
  by (erule less_trans) (rule order.strict_trans2 [OF unsigned_less], simp)

lemma mapped_as_not_failed: "mapped_as psz len pr fl fd a w w' \<Longrightarrow> a \<noteq> MAP_FAILED"
  by (simp add: mapped_as_def)

text \<open>What was usable stays so, whatever is mapped.\<close>

lemma mapped_as_keeps:
  assumes "mapped_as psz len pr fl fd a w w'" "usable_from psz w b n"
  shows "usable_from psz w' b n"
  unfolding usable_from_def
proof (intro allI impI)
  fix i
  assume "i < n"
  then obtain p where p: "mem w (b + of_nat i) = Some p" "pl_write p" "pl_off p < round_up psz (size_of w (pl_obj p))"
    using assms(2) by (auto simp: usable_from_def)
  have "\<not> in_span a (round_up psz (unat len)) (b + of_nat i)" using assms(1) p(1) unfolding mapped_as_def by (metis option.distinct(1))
  moreover have "pl_obj p \<noteq> ob" if "new_obj w ob" for ob using that p(1) by (auto simp: new_obj_def)
  ultimately show "\<exists>p. mem w' (b + of_nat i) = Some p \<and> pl_write p \<and> pl_off p < round_up psz (size_of w' (pl_obj p))"
    using assms(1) p by (auto simp: mapped_as_def set_obj_def add_map_def split: if_splits)
qed

lemma mapped_as_same:
  assumes "mapped_as psz len pr fl fd a w w'"
  shows "fdo w' = fdo w" "names w' = names w" "fdo w fd' = Some ob \<Longrightarrow> size_of w' ob = size_of w ob" "names w s = Some ob \<Longrightarrow> size_of w' ob = size_of w ob"
  using assms by (auto simp: mapped_as_def set_obj_def add_map_def new_obj_def split: if_splits)

text \<open>New anonymous memory, and a mapping of a file as far as its last page.\<close>

lemma mapped_anon:
  assumes "mapped_as psz len pr fl fd a w w'" "F_Anon \<in> set fl" "PROT_WRITE \<in> set pr" "0 < psz"
  shows "usable_from psz w' a (unat len)"
  unfolding usable_from_def
proof (intro allI impI)
  fix i
  assume i: "i < unat len"
  then have "in_span a (round_up psz (unat len)) (a + of_nat i)" "unat (of_nat i :: u64) = i"
    using round_up_ge [OF assms(4), of "unat len"] offset_less [OF i] by (simp_all add: in_span_offset unat_of_nat)
  then show "\<exists>p. mem w' (a + of_nat i) = Some p \<and> pl_write p \<and> pl_off p < round_up psz (size_of w' (pl_obj p))"
    using assms i round_up_ge [OF assms(4), of "unat len"] by (auto simp: mapped_as_def set_obj_def add_map_def)
qed

lemma mapped_file:
  assumes "mapped_as psz len pr fl fd a w w'" "F_Anon \<notin> set fl" "PROT_WRITE \<in> set pr" "0 < psz" "fdo w fd = Some ob"
  shows "usable_from psz w' a (min (unat len) (round_up psz (size_of w ob)))"
  unfolding usable_from_def
proof (intro allI impI)
  fix i
  assume i: "i < min (unat len) (round_up psz (size_of w ob))"
  then have "in_span a (round_up psz (unat len)) (a + of_nat i)" "unat (of_nat i :: u64) = i"
    using round_up_ge [OF assms(4), of "unat len"] offset_less [of i len] by (simp_all add: in_span_offset unat_of_nat)
  then show "\<exists>p. mem w' (a + of_nat i) = Some p \<and> pl_write p \<and> pl_off p < round_up psz (size_of w' (pl_obj p))"
    using assms i by (auto simp: mapped_as_def set_obj_def add_map_def split: if_splits)
qed

lemma usable_from_byte:
  assumes "usable_from psz w a n" "i < n"
  shows "\<exists>p. mem w (a + of_nat i) = Some p \<and> pl_write p \<and> usable_at psz w (a + of_nat i)"
  using assms by (force simp: usable_from_def usable_at_def)

section \<open>Rules for the calls\<close>

context file_kernel
begin

definition at :: "world \<Rightarrow> 'k tour \<Rightarrow> bool" where
  "at w t \<longleftrightarrow> alike w (view (sys_of t))"

lemma psz_pos [simp]: "0 < psz"
  using page_size_pos by (rule less_trans [rotated]) simp

lemma at_view: "at (view (sys_of t)) t"
  by (simp add: at_def)

lemma at_said [simp]: "at w (t\<lparr>said := s\<rparr>) \<longleftrightarrow> at w t"
  by (simp add: at_def)

lemma wp_say: "at w t \<Longrightarrow> (\<And>t'. at w t' \<Longrightarrow> Q (Done ()) t') \<Longrightarrow> wp (say s) Q t"
  by (simp add: wp_def say_def)

lemma wp_load:
  assumes "at w t" "usable_from psz w b n" "i < n" "a = b + of_nat i" "\<And>c t'. at w t' \<Longrightarrow> Q (Done c) t'"
    "\<And>t'. starved K psz view t' \<Longrightarrow> Q Killed t'"
  shows "wp (f_load K a) Q t"
proof -
  let ?v = "view (sys_of t)"
  obtain p where p: "mem ?v a = Some p" "pl_write p" "usable_at psz ?v a"
    using usable_from_byte [OF assms(2,3)] assms(1,4) by (auto simp: at_def alike_def usable_at_def)
  show ?thesis
  proof (cases "fo_load K a (sys_of t)")
    case None
    then have "starved K psz view t" using p by (auto simp: starved_def)
    then show ?thesis using None assms(6) by (simp add: wp_def f_load_def)
  next
    case (Some r)
    then obtain c k' where "fo_load K a (sys_of t) = Some (c, k')" by (cases r) simp
    then show ?thesis using load_law [OF p(3,1)] assms(1,5) by (simp add: wp_def f_load_def at_def)
  qed
qed

lemma wp_store:
  assumes "at w t" "usable_from psz w b n" "i < n" "a = b + of_nat i" "\<And>t'. at w t' \<Longrightarrow> Q (Done ()) t'"
    "\<And>t'. starved K psz view t' \<Longrightarrow> Q Killed t'"
  shows "wp (f_store K a c) Q t"
proof -
  let ?v = "view (sys_of t)"
  obtain p where p: "mem ?v a = Some p" "pl_write p" "usable_at psz ?v a"
    using usable_from_byte [OF assms(2,3)] assms(1,4) by (auto simp: at_def alike_def usable_at_def)
  show ?thesis
  proof (cases "fo_store K a c (sys_of t)")
    case None
    then have "starved K psz view t" using p by (auto simp: starved_def)
    then show ?thesis using None assms(6) by (simp add: wp_def f_store_def access_def)
  next
    case (Some k')
    then show ?thesis using store_law [OF p(3,1,2) Some] assms(1,5) by (simp add: wp_def f_store_def access_def at_def)
  qed
qed

lemma wp_mmap:
  assumes "at w t" "\<And>t'. at w t' \<Longrightarrow> Q (Done MAP_FAILED) t'"
    "\<And>a w' t'. at w' t' \<Longrightarrow> mapped_as psz len pr fl fd a w w' \<Longrightarrow> a \<noteq> MAP_FAILED \<Longrightarrow> Q (Done a) t'"
  shows "wp (f_mmap K h len pr fl fd) Q t"
proof (cases "fo_mmap K h len pr fl fd (sys_of t)")
  case None
  then show ?thesis using assms(1,2) by (simp add: wp_def f_mmap_def)
next
  case (Some r)
  obtain a k' where r: "r = (a, k')" by fastforce
  let ?v = "view (sys_of t)"
  have m: "mapped_as psz len pr fl fd a ?v (view k')" using mmap_law Some r by simp
  have w: "?v = w\<lparr>cont := cont ?v\<rparr>" using assms(1) alike_eq by (simp add: at_def)
  have "\<exists>w'. alike w' (view k') \<and> mapped_as psz len pr fl fd a w w'"
  proof -
    obtain ob where ob: "if F_Anon \<in> set fl then new_obj ?v ob \<and> view k' = set_obj ob (\<lambda>_. CHR 0x00) (unat len)
            (add_map a (round_up psz (unat len)) ob (PROT_WRITE \<in> set pr) (is_shared fl) ?v)
          else if is_shared fl then fdo ?v fd = Some ob \<and> view k' = add_map a (round_up psz (unat len)) ob (PROT_WRITE \<in> set pr) True ?v
          else (\<exists>f c. new_obj ?v ob \<and> fdo ?v fd = Some f \<and> view k' = set_obj ob c (size_of ?v f)
            (add_map a (round_up psz (unat len)) ob (PROT_WRITE \<in> set pr) False ?v))"
      using m by (auto simp: mapped_as_def)
    let ?w = "if F_Anon \<in> set fl then set_obj ob (\<lambda>_. CHR 0x00) (unat len) (add_map a (round_up psz (unat len)) ob (PROT_WRITE \<in> set pr) (is_shared fl) w)
          else if is_shared fl then add_map a (round_up psz (unat len)) ob (PROT_WRITE \<in> set pr) True w
          else set_obj ob (\<lambda>_. CHR 0x00) (size_of w (the (fdo w fd))) (add_map a (round_up psz (unat len)) ob (PROT_WRITE \<in> set pr) False w)"
    have f: "mem ?v = mem w" "fdo ?v = fdo w" "size_of ?v = size_of w" "names ?v = names w" using assms(1) by (simp_all add: at_def alike_def)
    have n: "new_obj ?v = new_obj w" by (simp add: new_obj_def fun_eq_iff f)
    have b: "a \<noteq> MAP_FAILED" "len \<noteq> 0" "\<forall>x. in_span a (round_up psz (unat len)) x \<longrightarrow> mem w x = None" using m f by (simp_all add: mapped_as_def)
    have "alike ?w (view k')" using ob f by (auto simp: alike_def set_obj_def add_map_def cong: if_cong)
    moreover have "mapped_as psz len pr fl fd a w ?w"
      using b ob n f unfolding mapped_as_def by (intro conjI exI [of _ ob]) (auto split: if_splits)
    ultimately show ?thesis by blast
  qed
  then show ?thesis
    using assms(3) [of _ "t\<lparr>sys_of := k'\<rparr>" a] m Some r by (auto simp: wp_def f_mmap_def at_def mapped_as_def)
qed

lemma wp_f_map:
  assumes "at w t" "\<And>t'. at w t' \<Longrightarrow> Q (Exited 1) t'"
    "\<And>a w' t'. at w' t' \<Longrightarrow> mapped_as psz len pr fl fd a w w' \<Longrightarrow> Q (Done a) t'"
  shows "wp (f_map K len pr fl fd) Q t"
  unfolding f_map_def
  by (rule wp_bind, rule wp_mmap [OF assms(1)]) (use assms(2,3) in \<open>auto simp: wp_def act_bind_def stop_if_def leave_def ok_def\<close>)

lemma wp_calls:
  assumes "at w t" "\<And>k k'. alike w (view k) \<Longrightarrow> f k = Some k' \<Longrightarrow> alike w' (view k')"
    "\<And>t'. at w' t' \<Longrightarrow> Q (Done ()) t'"
  shows "(\<And>t'. at w t' \<Longrightarrow> Q (Exited 1) t') \<Longrightarrow> wp (need f) Q t" "(\<And>t'. at w t' \<Longrightarrow> Q (Done ()) t') \<Longrightarrow> wp (attempt f) Q t"
  using assms
  by (auto simp: wp_def need_def attempt_def act_bind_def f_call_def stop_if_def leave_def ok_def at_def split: option.splits)

lemma wp_gets:
  assumes "at w t" "\<And>k x k'. alike w (view k) \<Longrightarrow> f k = Some (x, k') \<Longrightarrow> \<exists>w'. P x w' \<and> alike w' (view k')"
    "\<And>x w' t'. at w' t' \<Longrightarrow> P x w' \<Longrightarrow> Q (Done x) t'" "\<And>t'. at w t' \<Longrightarrow> Q (Exited 1) t'"
  shows "wp (get_or_stop f) Q t"
proof (cases "f (sys_of t)")
  case None
  then show ?thesis using assms(1,4) by (simp add: wp_def get_or_stop_def act_bind_def f_get_def leave_def)
next
  case (Some r)
  obtain x k' where r: "r = (x, k')" by fastforce
  obtain w' where "P x w'" "alike w' (view k')" using assms(1,2) Some r unfolding at_def by blast
  then show ?thesis
    using assms(3) [of w' "t\<lparr>sys_of := k'\<rparr>" x] Some r by (simp add: wp_def get_or_stop_def act_bind_def f_get_def ok_def at_def)
qed

lemma alike_opened:
  assumes "alike w v" "opened_as path m fd v v'"
  shows "\<exists>w'. opened_as path m fd w w' \<and> alike w' v'"
proof -
  have f: "mem v = mem w" "fdo v = fdo w" "size_of v = size_of w" "names v = names w" using assms(1) by (simp_all add: alike_def)
  have n: "new_obj v = new_obj w" by (simp add: new_obj_def fun_eq_iff f)
  obtain ob where "names v path = Some ob \<and> v' = v\<lparr>fdo := (fdo v)(fd \<mapsto> ob)\<rparr>
      \<or> O_Creat \<in> set m \<and> names v path = None \<and> new_obj v ob
        \<and> v' = set_obj ob (\<lambda>_. CHR 0x00) 0 (v\<lparr>fdo := (fdo v)(fd \<mapsto> ob), names := (names v)(path \<mapsto> ob)\<rparr>)"
    using assms(2) by (auto simp: opened_as_def)
  then show ?thesis
  proof
    assume "names v path = Some ob \<and> v' = v\<lparr>fdo := (fdo v)(fd \<mapsto> ob)\<rparr>"
    then show ?thesis
      using assms(2) f by (intro exI [of _ "w\<lparr>fdo := (fdo w)(fd \<mapsto> ob)\<rparr>"]) (auto simp: opened_as_def alike_def)
  next
    assume "O_Creat \<in> set m \<and> names v path = None \<and> new_obj v ob
        \<and> v' = set_obj ob (\<lambda>_. CHR 0x00) 0 (v\<lparr>fdo := (fdo v)(fd \<mapsto> ob), names := (names v)(path \<mapsto> ob)\<rparr>)"
    then show ?thesis
      using assms(2) f n
      by (intro exI [of _ "set_obj ob (\<lambda>_. CHR 0x00) 0 (w\<lparr>fdo := (fdo w)(fd \<mapsto> ob), names := (names w)(path \<mapsto> ob)\<rparr>)"])
        (auto simp: opened_as_def alike_def set_obj_def)
  qed
qed

lemma wp_open:
  assumes "at w t" "\<And>t'. at w t' \<Longrightarrow> Q (Exited 1) t'"
    "\<And>fd w' t'. at w' t' \<Longrightarrow> opened_as path m fd w w' \<Longrightarrow> Q (Done fd) t'"
  shows "wp (get_or_stop (fo_open K path m)) Q t"
  by (rule wp_gets [OF assms(1), where P = "\<lambda>fd w'. opened_as path m fd w w'"]) (use open_law alike_opened assms(2,3) in blast)+

lemma wp_memfd:
  assumes "at w t" "\<And>t'. at w t' \<Longrightarrow> Q (Exited 1) t'"
    "\<And>fd ob t'. at (set_obj ob (\<lambda>_. CHR 0x00) 0 (w\<lparr>fdo := (fdo w)(fd \<mapsto> ob)\<rparr>)) t' \<Longrightarrow> new_obj w ob \<Longrightarrow> Q (Done fd) t'"
  shows "wp (get_or_stop (fo_memfd K nm m)) Q t"
proof (rule wp_gets [OF assms(1), where P = "\<lambda>fd w'. \<exists>ob. new_obj w ob \<and> w' = set_obj ob (\<lambda>_. CHR 0x00) 0 (w\<lparr>fdo := (fdo w)(fd \<mapsto> ob)\<rparr>)"])
  fix k fd k'
  assume a: "alike w (view k)" "fo_memfd K nm m k = Some (fd, k')"
  have f: "mem (view k) = mem w" "fdo (view k) = fdo w" "size_of (view k) = size_of w" "names (view k) = names w" using a(1) by (simp_all add: alike_def)
  have n: "new_obj (view k) = new_obj w" by (simp add: new_obj_def fun_eq_iff f)
  show "\<exists>w'. (\<exists>ob. new_obj w ob \<and> w' = set_obj ob (\<lambda>_. CHR 0x00) 0 (w\<lparr>fdo := (fdo w)(fd \<mapsto> ob)\<rparr>)) \<and> alike w' (view k')"
    using memfd_law [OF a(2)] f n by (auto simp: alike_def set_obj_def)
qed (use assms(2,3) in blast)+

lemma wp_fstat:
  assumes "at w t" "\<And>t'. at w t' \<Longrightarrow> Q (Exited 1) t'"
    "\<And>n ob t'. at w t' \<Longrightarrow> fdo w fd = Some ob \<Longrightarrow> unat n = size_of w ob \<Longrightarrow> Q (Done n) t'"
  shows "wp (get_or_stop (fo_fstat K fd)) Q t"
  by (rule wp_gets [OF assms(1), where P = "\<lambda>n w'. w' = w \<and> (\<exists>ob. fdo w fd = Some ob \<and> unat n = size_of w ob)"])
    (use assms(2,3) in \<open>auto simp: alike_def dest!: fstat_law\<close>)

lemma wp_read:
  assumes "at w t" "\<And>t'. at w t' \<Longrightarrow> Q (Exited 1) t'" "\<And>m t'. at w t' \<Longrightarrow> m \<le> unat n \<Longrightarrow> Q (Done m) t'"
  shows "wp (get_or_stop (fo_read K fd a n)) Q t"
  by (rule wp_gets [OF assms(1), where P = "\<lambda>m w'. w' = w \<and> m \<le> unat n"]) (use read_law assms(2,3) in \<open>force simp: alike_def\<close>)+

lemma wp_madvise:
  assumes "at w t" "adv \<noteq> Madv_Guard_Install" "\<And>t'. at w t' \<Longrightarrow> Q (Done ()) t'"
  shows "(\<And>t'. at w t' \<Longrightarrow> Q (Exited 1) t') \<Longrightarrow> wp (need (fo_madvise K a len adv)) Q t" "wp (attempt (fo_madvise K a len adv)) Q t"
proof -
  have "alike w (view k')" if "alike w (view k)" "fo_madvise K a len adv k = Some k'" for k k'
    using that assms(2) advise_law [of a len adv k k'] remove_law [of a len k k'] by (cases adv) (auto simp: removed_def)
  then show "(\<And>t'. at w t' \<Longrightarrow> Q (Exited 1) t') \<Longrightarrow> wp (need (fo_madvise K a len adv)) Q t" "wp (attempt (fo_madvise K a len adv)) Q t"
    using wp_calls [OF assms(1), of "fo_madvise K a len adv" w Q] assms(3) by blast+
qed

lemma wp_other:
  assumes "at w t" "\<And>t'. at w t' \<Longrightarrow> Q (Done ()) t'"
  shows "(\<And>t'. at w t' \<Longrightarrow> Q (Exited 1) t') \<Longrightarrow> wp (need (fo_other K s xs)) Q t" "wp (attempt (fo_other K s xs)) Q t"
  using wp_calls [OF assms(1), of "fo_other K s xs" w Q] other_law assms(2) by metis+

lemma alike_unmap: "alike w v \<Longrightarrow> alike (unmap a n w) (unmap a n v)"
  by (simp add: alike_def unmap_def cong: if_cong)

lemma wp_unmaps:
  assumes "at w t" "\<And>t'. at w t' \<Longrightarrow> Q (Exited 1) t'" "\<And>t'. at (unmap a (round_up psz (unat len)) w) t' \<Longrightarrow> Q (Done ()) t'"
  shows "wp (need (fo_munmap K a len)) Q t" "wp (need (fo_madvise K a len Madv_Guard_Install)) Q t"
  by (rule wp_calls(1) [OF assms(1) _ assms(3,2)], (simp only: munmap_law guard_law, rule alike_unmap, assumption), assumption, assumption)+

lemma wp_close:
  assumes "at w t" "\<And>t'. at (w\<lparr>fdo := (fdo w)(fd := None)\<rparr>) t' \<Longrightarrow> Q (Done ()) t'"
  shows "wp (close_fd K fd) Q t"
  using assms close_law by (simp add: wp_def close_fd_def effect_def at_def alike_def)

lemma wp_sleep:
  assumes "at w t" "\<And>t'. at w t' \<Longrightarrow> Q (Done ()) t'"
  shows "wp (sleep K n) Q t"
proof -
  obtain c where "view (fo_sleep K n (sys_of t)) = (view (sys_of t))\<lparr>cont := c\<rparr>" using sleep_law by blast
  then show ?thesis using assms by (simp add: wp_def sleep_def effect_def at_def)
qed

lemma wp_truncate:
  assumes "at w t" "\<And>t'. at w t' \<Longrightarrow> Q (Exited 1) t'"
    "\<And>ob t'. at (w\<lparr>size_of := (size_of w)(ob := unat n)\<rparr>) t' \<Longrightarrow> fdo w fd = Some ob \<Longrightarrow> Q (Done ()) t'"
  shows "wp (need (fo_truncate K fd n)) Q t"
proof (cases "fo_truncate K fd n (sys_of t)")
  case None
  then show ?thesis using assms(1,2) by (simp add: wp_def need_def act_bind_def f_call_def stop_if_def leave_def)
next
  case (Some k')
  obtain ob c where "fdo w fd = Some ob" "view k' = set_obj ob c (unat n) (view (sys_of t))"
    using truncate_law [OF Some] assms(1) by (auto simp: at_def alike_def)
  then show ?thesis
    using assms(1) assms(3) [of ob "t\<lparr>sys_of := k'\<rparr>"] Some
    by (auto simp: wp_def need_def act_bind_def f_call_def stop_if_def ok_def at_def alike_def set_obj_def)
qed

lemma wp_acts_map:
  assumes "at w t" "\<And>x t'. x \<in> set xs \<Longrightarrow> at w t' \<Longrightarrow> wp (f x) (\<lambda>r t''. (case r of Done _ \<Rightarrow> at w t'' | _ \<Rightarrow> Q r t'')) t'"
    "\<And>t'. at w t' \<Longrightarrow> Q (Done ()) t'"
  shows "wp (acts (map f xs)) Q t"
  using assms(1,2)
proof (induction xs arbitrary: t)
  case Nil
  then show ?case using assms(3) by (simp add: wp_def ok_def)
next
  case (Cons x xs)
  show ?case
    unfolding list.map
    by (rule wp_acts(2), rule wp_mono [OF Cons(3) [OF _ Cons(2)]]) (use Cons(1,3) in \<open>auto split: outcome.splits\<close>)
qed

end

end
