(* ===== verification/File_Progs.thy ===== *)
theory File_Progs
  imports File_Kernel
begin

text \<open>
  Small programs of \<open>random/\<close>, with \<open>tools/big_dirty.c\<close> and \<open>repros/repro_split2.c\<close>, that map files, descriptors and anonymous memory: on the kernel
  interface of \<open>File_Kernel\<close>, which may refuse any call. \<open>Exited\<close> is the status a program ends with, and \<open>Done ()\<close> says that it is in the loop
  without end with which it finishes. A program that does something in every turn of such a loop has the number of turns as an argument.
\<close>

section \<open>The programs\<close>

definition die :: "('k, 'a) act" where
  "die t = (Killed, t)"

definition open_or_stop :: "'k file_os \<Rightarrow> string \<Rightarrow> open_flag list \<Rightarrow> ('k, int) act" where
  "open_or_stop K path m = get_or_stop (fo_open K path m)"

definition system :: "'k file_os \<Rightarrow> string \<Rightarrow> ('k, unit) act" where
  "system K cmd = attempt (fo_other K cmd [])"

definition getchar :: "'k file_os \<Rightarrow> ('k, unit) act" where
  "getchar K = attempt (fo_other K ''getchar'' [])"

definition mlock :: "'k file_os \<Rightarrow> u64 \<Rightarrow> u64 \<Rightarrow> 'k \<Rightarrow> 'k option" where
  "mlock K a len = fo_other K ''mlock'' [a, len]"

definition next_char :: "char \<Rightarrow> char" where
  "next_char c = char_of ((of_char c :: nat) + 1)"

text \<open>\<open>random/punch.c\<close>: the second mapping is \<open>ptr2\<close>, but \<open>ptr\<close> is tested and printed.\<close>

definition print_pages :: "'k file_os \<Rightarrow> u64 \<Rightarrow> u64 \<Rightarrow> ('k, unit) act" where
  "print_pages K psz ptr = acts [say (''--- begin ---'' @ newline),
     acts (map (\<lambda>i. act_bind (f_load K (ptr + (3 * psz + of_nat i))) (\<lambda>c. say [c])) [0..<unat psz * 2]),
     say (''--- done ---'' @ newline)]"

definition punch_again :: "'k file_os \<Rightarrow> u64 \<Rightarrow> u64 \<Rightarrow> ('k, unit) act" where
  "punch_again K psz ptr = act_bind (open_or_stop K ''test2.txt'' [O_Rdwr]) (\<lambda>fd.
     act_bind (f_mmap K 0 (10 * psz) rdwr [F_Shared, F_Populate] fd) (\<lambda>ptr2.
     acts [stop_if (ptr = MAP_FAILED), say (''--- after ---'' @ newline), print_pages K psz ptr, leave 0]))"

definition punch_main :: "'k file_os \<Rightarrow> u64 \<Rightarrow> ('k, unit) act" where
  "punch_main K psz = act_bind (open_or_stop K ''test2.txt'' [O_Rdwr]) (\<lambda>fd.
     act_bind (f_map K (10 * psz) rdwr [F_Shared, F_Populate] fd) (\<lambda>ptr.
     acts [say (''--- before ---'' @ newline), print_pages K psz ptr, need (fo_madvise K ptr (psz * 10) Madv_Remove),
       attempt (fo_munmap K ptr (10 * psz)), close_fd K fd, punch_again K psz ptr]))"

text \<open>\<open>random/punch_anon.c\<close>\<close>

definition punch_anon_main :: "'k file_os \<Rightarrow> u64 \<Rightarrow> ('k, unit) act" where
  "punch_anon_main K psz = act_bind (f_map K (10 * psz) rdwr [F_Private, F_Anon, F_Populate] (- 1)) (\<lambda>ptr. acts
     [need (fo_madvise K ptr (psz * 10) Madv_Remove),
      act_bind (f_load K ptr) (\<lambda>c. say (''chr=['' @ [c] @ '']'' @ newline)),
      f_store K ptr (CHR ''x''), f_store K (ptr + 4096) (CHR ''y''),
      act_bind (f_load K ptr) (\<lambda>c. say (''chr=['' @ [c] @ '']'' @ newline)),
      act_bind (f_load K (ptr + 4096)) (\<lambda>c. say (''chr=['' @ [c] @ '']'' @ newline)), leave 0])"

text \<open>\<open>random/memfd_anon_remove.c\<close>\<close>

definition memfd_anon_remove_main :: "'k file_os \<Rightarrow> ('k, unit) act" where
  "memfd_anon_remove_main K = act_bind (get_or_stop (fo_memfd K ''test'' [Mfd_Allow_Sealing])) (\<lambda>fd.
     act_bind (need (fo_truncate K fd (4096 * 1024 * 1024))) (\<lambda>_.
     act_bind (f_map K 4096 rdwr [F_Shared, F_Populate] fd) (\<lambda>ptr. acts
       [f_store K (ptr + 3) (CHR ''x''), need (fo_madvise K ptr 4096 Madv_Remove),
        act_bind (f_load K (ptr + 3)) (\<lambda>c. say ([c] @ newline)), leave 0])))"

text \<open>\<open>random/file_rmap.c\<close>: \<open>return true\<close> is status 1, and what comes after it is never executed.\<close>

definition file_rmap_main :: "'k file_os \<Rightarrow> u64 \<Rightarrow> ('k, unit) act" where
  "file_rmap_main K psz = act_bind (open_or_stop K ''/tmp/test.txt'' [O_Rdwr]) (\<lambda>fd.
     act_bind (f_map K (3 * psz) rdwr [F_Shared, F_Populate] fd) (\<lambda>ptr. acts
       [attempt (fo_madvise K ptr (3 * psz) Madv_Normal), leave 1]))"

text \<open>\<open>random/file_rmap2.c\<close>\<close>

definition file_rmap2_main :: "'k file_os \<Rightarrow> u64 \<Rightarrow> ('k, unit) act" where
  "file_rmap2_main K psz = act_bind (open_or_stop K ''test.txt'' [O_Rdwr]) (\<lambda>fd.
     act_bind (say (''fd='' @ fmt_d fd @ newline)) (\<lambda>_.
     act_bind (f_map K (3 * psz) rdwr [F_Shared, F_Populate] fd) (\<lambda>ptr.
     act_bind (open_or_stop K ''test.txt'' [O_Rdwr]) (\<lambda>fd2.
     act_bind (say (''fd2='' @ fmt_d fd2 @ newline)) (\<lambda>_.
     act_bind (f_map K (3 * psz) rdwr [F_Shared, F_Populate] fd2) (\<lambda>ptr2. acts
       [attempt (fo_madvise K ptr (3 * psz) Madv_Normal), attempt (fo_madvise K ptr2 (3 * psz) Madv_Normal), leave 0]))))))"

text \<open>\<open>random/mmap_simple_file.c\<close>\<close>

definition mmap_simple_file_main :: "'k file_os \<Rightarrow> ('k, unit) act" where
  "mmap_simple_file_main K = act_bind (open_or_stop K ''test.txt'' [O_Rdwr]) (\<lambda>fd.
     act_bind (get_or_stop (fo_fstat K fd)) (\<lambda>st_size.
     act_bind (f_map K st_size rdwr [F_Shared_Validate] fd) (\<lambda>ptr. acts
       [close_fd K fd,
        act_bind (f_load K ptr) (\<lambda>c. if c = CHR ''z'' then f_store K ptr (CHR ''a'')
          else act_bind (f_load K ptr) (\<lambda>c. f_store K ptr (next_char c))),
        need (fo_other K ''msync'' [ptr, st_size]), need (fo_munmap K ptr st_size), leave 0])))"

text \<open>\<open>random/mmap_simple_private_file.c\<close>: the loop ends when the file begins with \<open>exit\<close>. \<open>char\<close> is signed.\<close>

definition ADDRS :: nat where "ADDRS = 2 ^ 64"

fun begins_with :: "'k file_os \<Rightarrow> u64 \<Rightarrow> string \<Rightarrow> ('k, bool) act" where
  "begins_with K a [] = ok True"
| "begins_with K a (c # cs) = act_bind (f_load K a) (\<lambda>x. if x = c then begins_with K (a + 1) cs else ok False)"

definition before_a :: "char \<Rightarrow> bool" where
  "before_a c \<longleftrightarrow> (let n = (of_char c :: nat) in n < 97 \<or> 128 \<le> n)"

definition turn_char :: "'k file_os \<Rightarrow> u64 \<Rightarrow> ('k, unit) act" where
  "turn_char K ptr = act_bind (f_load K ptr) (\<lambda>chr. if before_a chr \<or> chr = CHR ''z'' then f_store K ptr (CHR ''a'')
     else act_bind (f_load K ptr) (\<lambda>c. f_store K ptr (next_char c)))"

primrec until_exit :: "'k file_os \<Rightarrow> nat \<Rightarrow> u64 \<Rightarrow> u64 \<Rightarrow> ('k, bool) act" where
  "until_exit K 0 ptr st_size = ok False"
| "until_exit K (Suc n) ptr st_size = act_bind (begins_with K ptr ''exit'') (\<lambda>b. if b then ok True
     else act_bind (acts [turn_char K ptr, need (fo_other K ''msync'' [ptr, st_size]),
       act_bind (f_string K ADDRS ptr) say, sleep K 1]) (\<lambda>_. until_exit K n ptr st_size))"

definition mmap_simple_private_file_main :: "'k file_os \<Rightarrow> nat \<Rightarrow> ('k, unit) act" where
  "mmap_simple_private_file_main K n = act_bind (open_or_stop K ''test.txt'' [O_Rdwr]) (\<lambda>fd.
     act_bind (get_or_stop (fo_fstat K fd)) (\<lambda>st_size.
     act_bind (f_map K st_size rdwr [F_Shared] fd) (\<lambda>ptr.
     act_bind (close_fd K fd) (\<lambda>_.
     act_bind (until_exit K n ptr st_size) (\<lambda>b. if b then acts [need (fo_munmap K ptr st_size), leave 0] else ok ())))))"

text \<open>\<open>random/modify.c\<close>, \<open>random/private.c\<close> and \<open>random/mem_client.c\<close>\<close>

definition modify_turn :: "'k file_os \<Rightarrow> u64 \<Rightarrow> ('k, unit) act" where
  "modify_turn K ptr = acts [act_bind (f_load K ptr) (\<lambda>chr. f_store K ptr (if chr = CHR ''z'' then CHR ''a'' else next_char chr)), sleep K 1]"

definition modify_main :: "'k file_os \<Rightarrow> nat \<Rightarrow> ('k, unit) act" where
  "modify_main K n = act_bind (open_or_stop K ''test.txt'' [O_Rdwr]) (\<lambda>fd.
     act_bind (f_map K 4096 rdwr [F_Shared] fd) (\<lambda>ptr. acts (replicate n (modify_turn K ptr))))"

definition print_turn :: "'k file_os \<Rightarrow> u64 \<Rightarrow> ('k, unit) act" where
  "print_turn K ptr = acts [act_bind (f_string K ADDRS ptr) (\<lambda>s. say (s @ newline)), sleep K 1]"

definition private_main :: "'k file_os \<Rightarrow> nat \<Rightarrow> ('k, unit) act" where
  "private_main K n = act_bind (open_or_stop K ''test.txt'' [O_Rdwr]) (\<lambda>fd.
     act_bind (f_map K 4096 rdwr [F_Private] fd) (\<lambda>ptr.
     acts (attempt (fo_madvise K ptr 4096 Madv_Normal) # replicate n (print_turn K ptr))))"

definition MEM_TARGET :: u64 where "MEM_TARGET = 0x700000000000"

definition mem_client_main :: "'k file_os \<Rightarrow> u64 \<Rightarrow> nat \<Rightarrow> ('k, unit) act" where
  "mem_client_main K psz n = act_bind (f_mmap K MEM_TARGET psz rdwr [F_Anon, F_Private] (- 1)) (\<lambda>ptr.
     acts (stop_if (ptr = MAP_FAILED) # replicate n (print_turn K ptr)))"

text \<open>\<open>random/mem.c\<close>: \<open>sprintf\<close> into 256 bytes.\<close>

definition mem_main :: "'k file_os \<Rightarrow> string list \<Rightarrow> ('k, unit) act" where
  "mem_main K argv = (case argv of
      _ # pid # _ \<Rightarrow>
        (let path = ''/proc/'' @ pid @ ''/mem'' in
         if 256 \<le> length path then die
         else act_bind (open_or_stop K path [O_Rdwr]) (\<lambda>fd. acts
           [need (fo_other K ''lseek'' [of_int fd, MEM_TARGET]), need (fo_other K ''write hello!'' [of_int fd, 7]), close_fd K fd, leave 0]))
    | _ \<Rightarrow> leave 1)"

text \<open>\<open>random/noreserve.c\<close>: \<open>1024 * 1024 * 1024\<close> is computed as an \<open>int\<close>.\<close>

definition print_vmstat :: "'k file_os \<Rightarrow> u64 \<Rightarrow> ('k, unit) act" where
  "print_vmstat K pid = system K (''grep -E '' @ [CHR 0x22] @ ''VmSize|VmRSS'' @ [CHR 0x22] @ '' /proc/'' @ fmt_lu pid @ ''/status'')"

definition noreserve_main :: "'k file_os \<Rightarrow> u64 \<Rightarrow> u64 \<Rightarrow> ('k, unit) act" where
  "noreserve_main K psz pid = (let sz = 1024 * 1024 * 1024 * psz in
     act_bind (open_or_stop K ''test.txt'' [O_Rdwr]) (\<lambda>fd.
     act_bind (print_vmstat K pid) (\<lambda>_.
     act_bind (f_map K sz rdwr [F_Shared, F_Noreserve] fd) (\<lambda>ptr_file.
     act_bind (f_map K sz rdwr [F_Anon, F_Private, F_Noreserve] (- 1)) (\<lambda>ptr_anon.
     act_bind (acts [say (''---'' @ newline), print_vmstat K pid]) (\<lambda>_.
     act_bind (f_mmap K 0 sz rdwr [F_Shared] fd) (\<lambda>ptr_file.
     act_bind (f_mmap K 0 sz rdwr [F_Anon, F_Private] (- 1)) (\<lambda>ptr_anon. acts [stop_if (ptr_anon \<noteq> MAP_FAILED), leave 0]))))))))"

text \<open>\<open>random/readwritefile.c\<close> and \<open>random/random.c\<close>\<close>

definition readwritefile_main :: "'k file_os \<Rightarrow> u64 \<Rightarrow> ('k, unit) act" where
  "readwritefile_main K psz = act_bind (open_or_stop K ''test.txt'' [O_Rdwr]) (\<lambda>fd.
     act_bind (f_map K psz rdwr [F_Shared, F_Populate] fd) (\<lambda>ptr. acts
       [f_store K ptr (CHR ''x''), act_bind (f_load K ptr) (\<lambda>_. ok ()), attempt (fo_madvise K ptr psz Madv_Normal),
        f_store K ptr (CHR ''x''), attempt (fo_madvise K ptr psz Madv_Normal), leave 0]))"

definition random_main :: "'k file_os \<Rightarrow> u64 \<Rightarrow> ('k, unit) act" where
  "random_main K psz = act_bind (open_or_stop K ''test.txt'' [O_Rdwr]) (\<lambda>fd.
     act_bind (f_map K psz rdwr [F_Shared] fd) (\<lambda>buf. acts
       [need (fo_madvise K buf psz Madv_Random),
        act_bind (f_load K buf) (\<lambda>c. say (''1st char ='' @ [CHR 0x27] @ [c] @ [CHR 0x27] @ newline)), leave 0]))"

text \<open>\<open>random/hugetlb.c\<close>, \<open>random/hugetlb2.c\<close> and \<open>random/hugetlb3.c\<close>\<close>

definition store_steps :: "'k file_os \<Rightarrow> u64 \<Rightarrow> nat \<Rightarrow> nat \<Rightarrow> ('k, unit) act" where
  "store_steps K ptr sz d = acts (map (\<lambda>i. f_store K (ptr + of_nat i) (CHR ''x'')) (steps sz d))"

definition hugetlb_main :: "'k file_os \<Rightarrow> ('k, unit) act" where
  "hugetlb_main K = act_bind (get_or_stop (fo_memfd K ''hugepage-mmap'' [Mfd_Hugetlb])) (\<lambda>fd.
     act_bind (f_map K 20971520000 rdwr [F_Shared, F_Anon] (- 1)) (\<lambda>ptr. acts
       [store_steps K ptr 20971520000 4096, say newline]))"

definition trigger_gdb :: "'k file_os \<Rightarrow> u64 \<Rightarrow> u64 \<Rightarrow> ('k, unit) act" where
  "trigger_gdb K ptr sz = attempt (fo_madvise K ptr sz Madv_Normal)"

definition hugetlb2_main :: "'k file_os \<Rightarrow> ('k, unit) act" where
  "hugetlb2_main K = (let sz = 2 * 1024 * 1024 in
     act_bind (get_or_stop (fo_memfd K ''hugepage-mmap'' [Mfd_Hugetlb])) (\<lambda>fd.
     act_bind (f_map K sz rdwr [F_Shared, F_Populate, F_Hugetlb] fd) (\<lambda>ptr.
     act_bind (acts [trigger_gdb K ptr sz, need (fo_munmap K ptr sz)]) (\<lambda>_.
     act_bind (f_map K sz rdwr [F_Anon, F_Private, F_Hugetlb] (- 1)) (\<lambda>ptr.
     act_bind (trigger_gdb K ptr sz) (\<lambda>_.
     act_bind (open_or_stop K ''/mnt/hugepage'' [O_Creat, O_Rdwr]) (\<lambda>fd2.
     act_bind (need (fo_truncate K fd2 sz)) (\<lambda>_.
     act_bind (f_map K sz rdwr [F_Shared] fd2) (\<lambda>ptr. leave 0)))))))))"

definition hugetlb3_main :: "'k file_os \<Rightarrow> ('k, unit) act" where
  "hugetlb3_main K = act_bind (f_map K (2 * 1024 * 1024) rdwr [F_Private, F_Anon, F_Hugetlb] (- 1)) (\<lambda>ptr. acts
     [say (''Wait...'' @ newline), getchar K, f_store K ptr (CHR ''x''), say (''Fault Wait...'' @ newline), getchar K, leave 0])"

text \<open>\<open>random/thp.c\<close>, \<open>random/alloc_big.c\<close> and \<open>random/oom.c\<close>\<close>

definition thp_fill :: "'k file_os \<Rightarrow> u64 \<Rightarrow> nat \<Rightarrow> ('k, unit) act" where
  "thp_fill K ptr sz = acts (map (\<lambda>i. f_store K (ptr + of_nat i) (char_of (97 + i mod 26))) [0..<sz])"

definition thp_main :: "'k file_os \<Rightarrow> nat \<Rightarrow> ('k, unit) act" where
  "thp_main K n = (let sz = 2 * 1024 * 1024 * 1000 in
     act_bind (f_map K sz rdwr [F_Anon, F_Private] (- 1)) (\<lambda>ptr. acts
       ([need (fo_madvise K ptr sz Madv_Populate_Write), need (fo_madvise K ptr sz Madv_Collapse)]
        @ replicate n (thp_fill K ptr (unat sz)))))"

definition alloc_big_main :: "'k file_os \<Rightarrow> ('k, unit) act" where
  "alloc_big_main K = (let sz = push_bit 32 1 in
     act_bind (f_map K sz rdwr [F_Anon, F_Private, F_Populate] (- 1)) (\<lambda>ptr. need (fo_madvise K ptr sz Madv_Populate_Write)))"

definition oom_main :: "'k file_os \<Rightarrow> ('k, unit) act" where
  "oom_main K = act_bind (f_map K (128 * 1024 * 1024 * 1024) rdwr [F_Anon, F_Private, F_Populate, F_Noreserve] (- 1)) (\<lambda>ptr. leave 0)"

text \<open>\<open>random/mlock.c\<close>: \<open>do_mlock_page\<close> calls \<open>abort\<close>.\<close>

definition do_mlock_page :: "'k file_os \<Rightarrow> u64 \<Rightarrow> ('k, unit) act" where
  "do_mlock_page K ptr = act_bind (f_call (mlock K ptr 4096)) (\<lambda>b. if b then ok () else die)"

definition mlock_main :: "'k file_os \<Rightarrow> ('k, unit) act" where
  "mlock_main K = act_bind (f_map K (3 * 4096) rdwr [F_Private, F_Anon] (- 1)) (\<lambda>ptr. acts
     [do_mlock_page K ptr, do_mlock_page K (ptr + 4096), leave 0])"

text \<open>\<open>random/guard.c\<close> and \<open>random/guard_mlock.c\<close>\<close>

definition GUARD_SIZE :: nat where "GUARD_SIZE = 2 ^ 23"

definition guard_main :: "'k file_os \<Rightarrow> ('k, unit) act" where
  "guard_main K = act_bind (f_map K (of_nat GUARD_SIZE) rdwr [F_Private, F_Anon] (- 1)) (\<lambda>ptr. acts
     [store_steps K ptr GUARD_SIZE 4096,
      acts (map (\<lambda>i. need (fo_madvise K (ptr + of_nat i) 4096 Madv_Guard_Install)) (steps GUARD_SIZE (4096 * 10))),
      need (fo_madvise K ptr (of_nat GUARD_SIZE) Madv_Collapse), leave 0])"

definition guard_mlock_main :: "'k file_os \<Rightarrow> int \<Rightarrow> ('k, unit) act" where
  "guard_mlock_main K pid = act_bind (f_map K (10 * 4096) rdwr [F_Anon, F_Private] (- 1)) (\<lambda>ptr. acts
     [need (fo_madvise K ptr (5 * 4096) Madv_Guard_Install), attempt (mlock K ptr 4096),
      system K (''cat /proc/'' @ fmt_d pid @ ''/smaps | grep '' @ fmt_lx ptr @ '' -A 100''), leave 0])"

text \<open>\<open>random/copy_short.c\<close>: the kernel is asked for twice as many bytes as there is memory for.\<close>

definition copy_short_main :: "'k file_os \<Rightarrow> ('k, unit) act" where
  "copy_short_main K = act_bind (open_or_stop K ''test8192.txt'' [O_Rdonly]) (\<lambda>fd.
     act_bind (f_map K 4096 rdwr [F_Anon, F_Private] (- 1)) (\<lambda>ptr.
     act_bind (get_or_stop (fo_read K fd ptr 8192)) (\<lambda>bytes. acts [say (''bytes='' @ fmt_d (int bytes) @ newline), leave 0])))"

text \<open>\<open>random/uring.c\<close>: the ring stays out of the arguments; \<open>main\<close> is \<open>normal\<close>.\<close>

definition uring_normal :: "'k file_os \<Rightarrow> ('k, unit) act" where
  "uring_normal K = act_bind (need (fo_other K ''io_uring_setup'' [2])) (\<lambda>_.
     act_bind (f_map K (4096 * 10) rdwr [F_Anon, F_Private, F_Populate] (- 1)) (\<lambda>buf. acts
       [need (mlock K buf (4096 * 3)), need (fo_other K ''io_uring_register'' [buf, 4096 * 10]), leave 0]))"

definition uring_file_broken :: "'k file_os \<Rightarrow> ('k, unit) act" where
  "uring_file_broken K = act_bind (open_or_stop K ''test.txt'' [O_Rdwr]) (\<lambda>fd.
     act_bind (attempt (fo_other K ''io_uring_setup'' [2])) (\<lambda>_.
     act_bind (f_map K 4096 rdwr [F_Shared] fd) (\<lambda>buf2. acts [need (fo_other K ''io_uring_register'' [buf2, 4096]), leave 0])))"

text \<open>\<open>random/mbind-repro.c\<close>, \<open>random/rpm.c\<close>, \<open>tools/big_dirty.c\<close> and \<open>repros/repro_split2.c\<close>\<close>

definition mbind_main :: "'k file_os \<Rightarrow> u64 \<Rightarrow> ('k, unit) act" where
  "mbind_main K psz = act_bind (f_map K (5 * psz) rdwr [F_Anon, F_Private, F_Populate] (- 1)) (\<lambda>ptr. acts
     [need (mlock K (ptr + psz) psz), need (mlock K (ptr + 3 * psz) psz),
      need (fo_other K ''mbind MPOL_PREFERRED'' [ptr, psz * 2, 0, 1, 0]), need (fo_other K ''mbind MPOL_PREFERRED'' [ptr, psz * 4, 0, 1, 0]), leave 0])"

definition rpm_main :: "'k file_os \<Rightarrow> u64 \<Rightarrow> ('k, unit) act" where
  "rpm_main K say_hi = acts [need (fo_madvise K (say_hi AND NOT 4095) 1 Madv_Normal), leave 0]"

definition DIRTY_SIZE :: nat where "DIRTY_SIZE = 16106127360"

definition big_dirty_main :: "'k file_os \<Rightarrow> ('k, unit) act" where
  "big_dirty_main K = act_bind (open_or_stop K ''test.dat'' [O_Rdwr, O_Creat]) (\<lambda>fd.
     act_bind (need (fo_truncate K fd (of_nat DIRTY_SIZE))) (\<lambda>_.
     act_bind (f_map K (of_nat DIRTY_SIZE) rdwr [F_Shared] fd) (\<lambda>buf. acts [store_steps K buf DIRTY_SIZE 4096, leave 0])))"

definition repro_split2_main :: "'k file_os \<Rightarrow> ('k, unit) act" where
  "repro_split2_main K = act_bind (open_or_stop K ''foo.txt'' [O_Rdonly]) (\<lambda>fd.
     act_bind (f_map K 0x1000 [] [F_Shared] fd) (\<lambda>ptr.
     act_bind (f_mmap K ptr 0x1000 [] [F_Shared] fd) (\<lambda>ptr. acts [stop_if (ptr = MAP_FAILED), leave 0])))"


section \<open>No program is killed\<close>

definition nonempty :: "world \<Rightarrow> string \<Rightarrow> bool" where
  "nonempty w path \<longleftrightarrow> (case names w path of None \<Rightarrow> True | Some ob \<Rightarrow> 0 < size_of w ob)"

lemma wp_stop_if: "(b \<Longrightarrow> Q (Exited 1) t) \<Longrightarrow> (\<not> b \<Longrightarrow> Q (Done ()) t) \<Longrightarrow> wp (stop_if b) Q t"
  by (simp add: wp_def stop_if_def leave_def ok_def)

lemma rdwr_write [simp]: "PROT_WRITE \<in> set rdwr"
  by (simp add: rdwr_def)

context file_kernel
begin

lemma wp_opened:
  assumes "at w t" "nonempty w path" "O_Creat \<notin> set m" "\<And>t'. at w t' \<Longrightarrow> Q (Exited 1) t'"
    "\<And>fd ob w' t'. at w' t' \<Longrightarrow> nonempty w' path \<Longrightarrow> fdo w' fd = Some ob \<Longrightarrow> 0 < size_of w' ob \<Longrightarrow> Q (Done fd) t'"
  shows "wp (open_or_stop K path m) Q t"
  unfolding open_or_stop_def
  by (rule wp_open, rule assms(1), erule assms(4)) (use assms(2,3,5) in \<open>force simp: opened_as_def nonempty_def\<close>)

lemma wp_open_any:
  assumes "at w t" "\<And>t'. at w t' \<Longrightarrow> Q (Exited 1) t'" "\<And>fd w' t'. at w' t' \<Longrightarrow> Q (Done fd) t'"
  shows "wp (open_or_stop K path m) Q t"
  unfolding open_or_stop_def by (rule wp_open, rule assms(1), erule assms(2), erule assms(3))

lemma wp_map_any:
  assumes "at w t" "\<And>t'. at w t' \<Longrightarrow> Q (Exited 1) t'" "\<And>a w' t'. at w' t' \<Longrightarrow> Q (Done a) t'"
  shows "wp (f_map K len pr fl fd) Q t"
  by (rule wp_f_map, rule assms(1), erule assms(2), erule assms(3))

lemma wp_map_anon:
  assumes "at w t" "F_Anon \<in> set fl" "\<And>t'. at w t' \<Longrightarrow> Q (Exited 1) t'"
    "\<And>a w' t'. at w' t' \<Longrightarrow> usable_from psz w' a (unat len) \<Longrightarrow> Q (Done a) t'"
  shows "wp (f_map K len rdwr fl fd) Q t"
  by (rule wp_f_map, rule assms(1), erule assms(3), erule assms(4), erule mapped_anon [OF _ assms(2)]) simp_all

lemma wp_map_file:
  assumes "at w t" "F_Anon \<notin> set fl" "fdo w fd = Some ob" "\<And>t'. at w t' \<Longrightarrow> Q (Exited 1) t'"
    "\<And>a w' t'. at w' t' \<Longrightarrow> len \<noteq> 0 \<Longrightarrow> fdo w' = fdo w \<Longrightarrow> size_of w' ob = size_of w ob
      \<Longrightarrow> usable_from psz w' a (min (unat len) (round_up psz (size_of w ob))) \<Longrightarrow> Q (Done a) t'"
  shows "wp (f_map K len rdwr fl fd) Q t"
proof (rule wp_f_map, rule assms(1), erule assms(4))
  fix a w' t'
  assume "at w' t'" and m: "mapped_as psz len rdwr fl fd a w w'"
  then show "Q (Done a) t'"
    using assms(3,5) mapped_as_same [OF m] mapped_file [OF m assms(2) rdwr_write psz_pos assms(3)] by (auto simp: mapped_as_def)
qed

lemma page_first: "len \<noteq> 0 \<Longrightarrow> 0 < n \<Longrightarrow> 0 < min (unat len) (round_up psz n)"
  using round_up_ge [OF psz_pos, of n] by (simp add: unat_gt_0)

lemma wp_store_ok:
  assumes "at w t" "usable_from psz w a n" "i < n" "\<And>t'. at w t' \<Longrightarrow> Q (Done ()) t'" "\<And>t'. starved K psz view t' \<Longrightarrow> Q Killed t'"
  shows "wp (f_store K (a + of_nat i) c) Q t"
  by (rule wp_store, rule assms(1), rule assms(2), rule assms(3), rule refl, erule assms(4), erule assms(5))

lemma wp_store_first:
  assumes "at w t" "usable_from psz w a n" "0 < n" "\<And>t'. at w t' \<Longrightarrow> Q (Done ()) t'" "\<And>t'. starved K psz view t' \<Longrightarrow> Q Killed t'"
  shows "wp (f_store K a c) Q t"
  by (rule wp_store, rule assms(1), rule assms(2), rule assms(3), simp, erule assms(4), erule assms(5))

lemma wp_load_first:
  assumes "at w t" "usable_from psz w a n" "0 < n" "\<And>c t'. at w t' \<Longrightarrow> Q (Done c) t'" "\<And>t'. starved K psz view t' \<Longrightarrow> Q Killed t'"
  shows "wp (f_load K a) Q t"
  by (rule wp_load, rule assms(1), rule assms(2), rule assms(3), simp, erule assms(4), erule assms(5))

lemma wp_store_steps:
  assumes "at w t" "usable_from psz w a n" "sz \<le> n" "\<And>t'. at w t' \<Longrightarrow> Q (Done ()) t'" "\<And>t'. starved K psz view t' \<Longrightarrow> Q Killed t'"
  shows "wp (store_steps K a sz d) Q t"
  unfolding store_steps_def
  by (rule wp_acts_map, rule assms(1), rule wp_store_ok, assumption, rule assms(2), drule steps_less, erule less_le_trans, rule assms(3), simp, simp add: assms(5), erule assms(4))

lemma wp_system: "at w t \<Longrightarrow> (\<And>t'. at w t' \<Longrightarrow> Q (Done ()) t') \<Longrightarrow> wp (system K cmd) Q t"
  and wp_getchar: "at w t \<Longrightarrow> (\<And>t'. at w t' \<Longrightarrow> Q (Done ()) t') \<Longrightarrow> wp (getchar K) Q t"
  and wp_mlock: "at w t \<Longrightarrow> (\<And>t'. at w t' \<Longrightarrow> Q (Done ()) t') \<Longrightarrow> (\<And>t'. at w t' \<Longrightarrow> Q (Exited 1) t') \<Longrightarrow> wp (need (mlock K a len)) Q t"
    "at w t \<Longrightarrow> (\<And>t'. at w t' \<Longrightarrow> Q (Done ()) t') \<Longrightarrow> wp (attempt (mlock K a len)) Q t"
  unfolding system_def getchar_def mlock_def [abs_def] by (rule wp_other; assumption)+

lemma wp_if_both: "(b \<Longrightarrow> wp f Q t) \<Longrightarrow> (\<not> b \<Longrightarrow> wp g Q t) \<Longrightarrow> wp (if b then f else g) Q t"
  by simp

lemmas quiet_rules = wp_say wp_madvise wp_other wp_system wp_getchar wp_mlock wp_close wp_sleep wp_mmap wp_read wp_fstat

text \<open>Programs that store at the beginning of what they have mapped, if they store at all.\<close>

lemma simple_alive:
  assumes "at w t" "nonempty w ''test.txt''"
  shows "wp (readwritefile_main K psz) (\<lambda>r t'. r \<noteq> Killed \<or> starved K psz view t') t"
    "wp (random_main K psz) (\<lambda>r t'. r \<noteq> Killed \<or> starved K psz view t') t"
    "wp (noreserve_main K psz pid) (\<lambda>r t'. r \<noteq> Killed \<or> starved K psz view t') t"
    "wp (file_rmap_main K psz) (\<lambda>r t'. r \<noteq> Killed \<or> starved K psz view t') t"
    "wp (file_rmap2_main K psz) (\<lambda>r t'. r \<noteq> Killed \<or> starved K psz view t') t"
    "wp (hugetlb_main K) (\<lambda>r t'. r \<noteq> Killed \<or> starved K psz view t') t"
    "wp (hugetlb2_main K) (\<lambda>r t'. r \<noteq> Killed \<or> starved K psz view t') t"
    "wp (hugetlb3_main K) (\<lambda>r t'. r \<noteq> Killed \<or> starved K psz view t') t"
    "wp (oom_main K) (\<lambda>r t'. r \<noteq> Killed \<or> starved K psz view t') t"
    "wp (alloc_big_main K) (\<lambda>r t'. r \<noteq> Killed \<or> starved K psz view t') t"
    "wp (mbind_main K psz) (\<lambda>r t'. r \<noteq> Killed \<or> starved K psz view t') t"
    "wp (uring_normal K) (\<lambda>r t'. r \<noteq> Killed \<or> starved K psz view t') t"
    "wp (uring_file_broken K) (\<lambda>r t'. r \<noteq> Killed \<or> starved K psz view t') t"
    "wp (rpm_main K a) (\<lambda>r t'. r \<noteq> Killed \<or> starved K psz view t') t"
    "wp (repro_split2_main K) (\<lambda>r t'. r \<noteq> Killed \<or> starved K psz view t') t"
    "wp (guard_mlock_main K pid2) (\<lambda>r t'. r \<noteq> Killed \<or> starved K psz view t') t"
  unfolding readwritefile_main_def random_main_def noreserve_main_def file_rmap_main_def file_rmap2_main_def hugetlb_main_def
    hugetlb2_main_def hugetlb3_main_def oom_main_def alloc_big_main_def mbind_main_def uring_normal_def
    uring_file_broken_def rpm_main_def repro_split2_main_def guard_mlock_main_def Let_def print_vmstat_def trigger_gdb_def
  by (insert assms)
    ((rule run_intro wp_if_both wp_stop_if | rule wp_opened, assumption, assumption, (simp; fail) | rule wp_map_anon, assumption, (simp; fail)
      | rule wp_map_file, assumption, (simp; fail), assumption | rule wp_store_first wp_load_first, assumption, assumption, (rule page_first; assumption)
      | rule wp_store_first wp_load_first wp_store_steps, assumption, assumption, (simp; fail) | rule wp_memfd wp_truncate, assumption | rule wp_unmaps, assumption
      | rule quiet_rules, assumption | rule wp_open_any, assumption | rule wp_map_any, assumption | assumption | (simp; fail) | simp only: outcome.case)+)

lemma page_inside: "i < unat len \<Longrightarrow> i < n \<Longrightarrow> i < min (unat len) (round_up psz n)"
  using round_up_ge [OF psz_pos, of n] by simp

lemma usable_other: "usable_from psz w a n \<Longrightarrow> usable_from psz (w\<lparr>fdo := d\<rparr>) a n"
  by (simp add: usable_from_def)

lemma wp_acts_inv:
  assumes "I t" "\<And>x t'. x \<in> set xs \<Longrightarrow> I t' \<Longrightarrow> wp (f x) (\<lambda>r t''. (case r of Done _ \<Rightarrow> I t'' | _ \<Rightarrow> Q r t'')) t'" "\<And>t'. I t' \<Longrightarrow> Q (Done ()) t'"
  shows "wp (acts (map f xs)) Q t"
  using assms(1,2)
proof (induction xs arbitrary: t)
  case Nil
  then show ?case using assms(3) by (simp add: wp_def ok_def)
next
  case (Cons x xs)
  show ?case
    unfolding list.map
    by (rule wp_acts(2), rule wp_mono [OF Cons(3) [OF _ Cons(2)]]) (use Cons(1,3) in \<open>auto split: outcome.splits\<close>)
qed

lemma wp_replicate:
  assumes "at w t" "\<And>t'. at w t' \<Longrightarrow> wp f (\<lambda>r t''. (case r of Done _ \<Rightarrow> at w t'' | _ \<Rightarrow> Q r t'')) t'" "\<And>t'. at w t' \<Longrightarrow> Q (Done ()) t'"
  shows "wp (acts (replicate n f)) Q t"
  unfolding map_replicate_const [of f "[0..<n]", unfolded length_upt minus_nat.diff_0, symmetric]
  by (rule wp_acts_inv [of "at w"], rule assms(1), erule assms(2), erule assms(3))

lemma wp_sized:
  assumes "at w t" "\<And>t'. at w t' \<Longrightarrow> Q (Exited 1) t'"
    "\<And>ob w' t'. at w' t' \<Longrightarrow> fdo w' fd = Some ob \<Longrightarrow> size_of w' ob = unat n \<Longrightarrow> Q (Done ()) t'"
  shows "wp (need (fo_truncate K fd n)) Q t"
proof (rule wp_truncate, rule assms(1), erule assms(2))
  fix ob t'
  assume "at (w\<lparr>size_of := (size_of w)(ob := unat n)\<rparr>) t'" "fdo w fd = Some ob"
  then show "Q (Done ()) t'" using assms(3) [of "w\<lparr>size_of := (size_of w)(ob := unat n)\<rparr>" t' ob] by simp
qed

lemma page_prefix: "m \<le> unat len \<Longrightarrow> m \<le> n \<Longrightarrow> m \<le> min (unat len) (round_up psz n)"
  using round_up_ge [OF psz_pos, of n] by simp

lemma wp_three:
  assumes "at w t" "usable_from psz w a n" "3 < n" "\<And>c t'. at w t' \<Longrightarrow> Q (Done c) t'" "\<And>t'. starved K psz view t' \<Longrightarrow> Q Killed t'"
  shows "wp (f_load K (a + 3)) Q t"
  by (rule wp_load [where i = 3], rule assms(1), rule assms(2), rule assms(3), simp, erule assms(4), erule assms(5))

lemma wp_store_three:
  assumes "at w t" "usable_from psz w a n" "3 < n" "\<And>t'. at w t' \<Longrightarrow> Q (Done ()) t'" "\<And>t'. starved K psz view t' \<Longrightarrow> Q Killed t'"
  shows "wp (f_store K (a + 3) c) Q t"
  by (rule wp_store [where i = 3], rule assms(1), rule assms(2), rule assms(3), simp, erule assms(4), erule assms(5))

lemma sized_alive:
  assumes "at w t"
  shows "wp (memfd_anon_remove_main K) (\<lambda>r t'. r \<noteq> Killed \<or> starved K psz view t') t" "wp (big_dirty_main K) (\<lambda>r t'. r \<noteq> Killed \<or> starved K psz view t') t"
  unfolding memfd_anon_remove_main_def big_dirty_main_def
  by (insert assms)
    ((rule run_intro wp_stop_if | rule wp_memfd wp_sized, assumption | rule wp_map_file, assumption, (simp; fail), assumption
      | rule wp_three wp_store_three, assumption, assumption, (rule page_inside; simp; fail)
      | rule wp_store_steps, assumption, assumption, (rule page_prefix; simp add: DIRTY_SIZE_def; fail)
      | rule quiet_rules, assumption | rule wp_open_any, assumption | assumption | (simp; fail) | simp only: outcome.case)+)

lemma mmap_simple_file_alive:
  assumes "at w t"
  shows "wp (mmap_simple_file_main K) (\<lambda>r t'. r \<noteq> Killed \<or> starved K psz view t') t"
proof -
  have p: "0 < min n (round_up psz n)" if "unat len = n" "len \<noteq> 0" for len n
    using page_first [OF that(2), of n] unat_gt_0 [of len] that by metis
  show ?thesis
    unfolding mmap_simple_file_main_def
    by (insert assms)
      ((rule run_intro wp_if_both | rule wp_fstat, assumption | rule wp_map_file, assumption, (simp; fail), assumption
        | rule wp_store_first wp_load_first, assumption, (rule usable_other, assumption), (rule p; assumption)
        | rule wp_unmaps, assumption | rule quiet_rules, assumption | rule wp_open_any, assumption | assumption | (simp; fail) | simp only: outcome.case)+)
qed

lemma turns_alive:
  assumes "at w t" "nonempty w ''test.txt''"
  shows "wp (modify_main K n) (\<lambda>r t'. r \<noteq> Killed \<or> starved K psz view t') t" "wp (thp_main K n) (\<lambda>r t'. r \<noteq> Killed \<or> starved K psz view t') t"
proof -
  have fill: "wp (thp_fill K a m) Q t" if "at w t" "usable_from psz w a m" "\<And>t'. at w t' \<Longrightarrow> Q (Done ()) t'" "\<And>t'. starved K psz view t' \<Longrightarrow> Q Killed t'" for Q w t a m
    unfolding thp_fill_def
    by (rule wp_acts_map, rule that(1), rule wp_store_ok, assumption, rule that(2), simp, simp, simp add: that(4), erule that(3))
  show "wp (modify_main K n) (\<lambda>r t'. r \<noteq> Killed \<or> starved K psz view t') t"
    unfolding modify_main_def modify_turn_def
    by (insert assms)
      ((rule wp_opened, assumption, assumption, (simp; fail) | rule wp_map_file, assumption, (simp; fail), assumption | rule wp_replicate, assumption
        | rule run_intro | rule wp_store_first wp_load_first, assumption, assumption, (rule page_first; assumption)
        | rule quiet_rules, assumption | assumption | (simp; fail) | simp only: outcome.case)+)
  show "wp (thp_main K n) (\<lambda>r t'. r \<noteq> Killed \<or> starved K psz view t') t"
    unfolding thp_main_def Let_def append_Cons append_Nil
    by (insert assms)
      ((rule wp_map_anon, assumption, (simp; fail) | rule wp_replicate, assumption | rule run_intro | rule fill, assumption, assumption
        | rule quiet_rules, assumption | assumption | (simp; fail) | simp only: outcome.case)+)
qed

lemma guard_alive:
  assumes "at w t"
  shows "wp (guard_main K) (\<lambda>r t'. r \<noteq> Killed \<or> starved K psz view t') t"
proof -
  have guards: "wp (acts (map (\<lambda>i. need (fo_madvise K (a + of_nat i) 4096 Madv_Guard_Install)) is)) Q t"
    if "\<And>w t'. at w t' \<Longrightarrow> Q (Done ()) t'" "\<And>t'. Q (Exited 1) t'" for a "is" Q t
    by (rule wp_acts_inv [where I = "\<lambda>_. True"], rule TrueI, rule wp_unmaps, rule at_view) (use that at_view in auto)
  show ?thesis
    unfolding guard_main_def
    by (insert assms)
      ((rule wp_map_anon, assumption, (simp; fail) | rule run_intro | rule guards | rule wp_store_steps, assumption, assumption, (simp add: GUARD_SIZE_def; fail)
        | rule quiet_rules, assumption | assumption | (simp; fail) | simp only: outcome.case)+)
qed

lemma punch_anon_refused:
  shows "wp (punch_anon_main K psz) (\<lambda>r t'. r = Exited 1 \<and> said t' = said t) t"
proof (cases "fo_mmap K 0 (10 * psz) rdwr [F_Private, F_Anon, F_Populate] (- 1) (sys_of t)")
  case None
  then show ?thesis by (simp add: wp_def punch_anon_main_def f_map_def f_mmap_def act_bind_def stop_if_def leave_def)
next
  case (Some r)
  obtain a k' where r: "r = (a, k')" by fastforce
  let ?n = "round_up psz (unat (10 * psz))"
  have m: "mapped_as psz (10 * psz) rdwr [F_Private, F_Anon, F_Populate] (- 1) a (view (sys_of t)) (view k')" using mmap_law Some r by simp
  then have "in_span a ?n a" using round_up_ge [OF psz_pos, of "unat (10 * psz)"] unat_gt_0 [of "10 * psz"] by (auto simp: in_span_def mapped_as_def)
  then have "\<exists>p. mem (view k') a = Some p \<and> \<not> pl_shared p" using m by (auto simp: mapped_as_def set_obj_def add_map_def is_shared_def)
  then have "fo_madvise K a (psz * 10) Madv_Remove k' = None"
    using remove_law [of a "psz * 10" k'] \<open>in_span a ?n a\<close> by (cases "fo_madvise K a (psz * 10) Madv_Remove k'") (auto simp: mult.commute)
  then show ?thesis
    using Some r mapped_as_not_failed [OF m]
    by (simp add: wp_def punch_anon_main_def f_map_def f_mmap_def act_bind_def stop_if_def leave_def ok_def need_def f_call_def)
qed

end



text \<open>A process that holds nothing, on a disk with two files.\<close>

definition disk :: "string \<Rightarrow> sim" where
  "disk text = \<lparr>s_maps = [], s_cont = (\<lambda>_ _. CHR 0x00)(1 := \<lambda>i. if i < length text then text ! i else CHR 0x00), s_fds = [],
     s_size = (\<lambda>_. 0)(1 := length text), s_names = [(''test.txt'', 1)]\<rparr>"


section \<open>What the programs do to files\<close>

text \<open>A run that ends with status 0 has got everything it asked for.\<close>

lemma ends_get: "act_bind (get_or_stop f) g t = (Exited 0, t') \<longleftrightarrow> (\<exists>x k. f (sys_of t) = Some (x, k) \<and> g x (t\<lparr>sys_of := k\<rparr>) = (Exited 0, t'))"
  by (auto simp: act_bind_def get_or_stop_def f_get_def leave_def ok_def split: option.splits)

lemma ends_map: "act_bind (f_map K len pr fl fd) g t = (Exited 0, t') \<longleftrightarrow>
    (\<exists>a k. fo_mmap K 0 len pr fl fd (sys_of t) = Some (a, k) \<and> a \<noteq> MAP_FAILED \<and> g a (t\<lparr>sys_of := k\<rparr>) = (Exited 0, t'))"
  by (auto simp: act_bind_def f_map_def f_mmap_def stop_if_def leave_def ok_def split: option.splits)

lemma ends_need:
  "act_bind (need f) g t = (Exited 0, t') \<longleftrightarrow> (\<exists>k. f (sys_of t) = Some k \<and> g () (t\<lparr>sys_of := k\<rparr>) = (Exited 0, t'))"
  "acts (need f # fs) t = (Exited 0, t') \<longleftrightarrow> (\<exists>k. f (sys_of t) = Some k \<and> acts fs (t\<lparr>sys_of := k\<rparr>) = (Exited 0, t'))"
  by (auto simp: act_bind_def need_def f_call_def stop_if_def leave_def ok_def split: option.splits)

lemma ends_access:
  "acts (f_store K a c # fs) t = (Exited 0, t') \<longleftrightarrow> (\<exists>k. fo_store K a c (sys_of t) = Some k \<and> acts fs (t\<lparr>sys_of := k\<rparr>) = (Exited 0, t'))"
  "acts (act_bind (f_load K a) g # fs) t = (Exited 0, t')
    \<longleftrightarrow> (\<exists>c k. fo_load K a (sys_of t) = Some (c, k) \<and> acts (g c # fs) (t\<lparr>sys_of := k\<rparr>) = (Exited 0, t'))"
  by (auto simp: act_bind_def f_store_def f_load_def access_def split: option.splits)

lemma ends_rest:
  "acts (close_fd K fd # fs) t = (Exited 0, t') \<longleftrightarrow> acts fs (t\<lparr>sys_of := fo_close K fd (sys_of t)\<rparr>) = (Exited 0, t')"
  "acts (say s # fs) t = (Exited 0, t') \<longleftrightarrow> acts fs (t\<lparr>said := said t @ [s]\<rparr>) = (Exited 0, t')"
  "acts [leave c] t = (Exited 0, t') \<longleftrightarrow> c = 0 \<and> t' = t"
  by (auto simp: act_bind_def close_fd_def effect_def say_def leave_def)

lemmas ends = ends_get ends_map ends_need ends_access ends_rest

text \<open>An address at which a file is mapped.\<close>

definition shows_file :: "u64 \<Rightarrow> world \<Rightarrow> u64 \<Rightarrow> nat \<Rightarrow> nat \<Rightarrow> bool" where
  "shows_file psz w a ob i \<longleftrightarrow> (\<exists>p. mem w a = Some p \<and> pl_obj p = ob \<and> pl_off p = i \<and> pl_write p \<and> pl_shared p) \<and> i < round_up psz (size_of w ob)"

definition put :: "nat \<Rightarrow> nat \<Rightarrow> char \<Rightarrow> world \<Rightarrow> world" where
  "put ob i c w = w\<lparr>cont := (cont w)(ob := (cont w ob)(i := c))\<rparr>"

context roomy_kernel
begin

lemma shows_load:
  assumes "shows_file psz (view k) a ob i"
  shows "\<exists>k'. fo_load K a k = Some (cont (view k) ob i, k') \<and> view k' = view k"
proof -
  obtain p where p: "usable_at psz (view k) a" "mem (view k) a = Some p" "pl_obj p = ob" "pl_off p = i"
    using assms by (auto simp: shows_file_def usable_at_def)
  obtain r where r: "fo_load K a k = Some r" using load_granted [OF p(1)] by blast
  then show ?thesis using load_law [OF p(1,2), of "fst r" "snd r"] p(3,4) by (cases r) simp
qed

lemma shows_store:
  assumes "shows_file psz (view k) a ob i"
  shows "\<exists>k'. fo_store K a c k = Some k' \<and> view k' = put ob i c (view k)"
proof -
  obtain p where p: "usable_at psz (view k) a" "mem (view k) a = Some p" "pl_write p" "pl_obj p = ob" "pl_off p = i"
    using assms by (auto simp: shows_file_def usable_at_def)
  obtain k' where "fo_store K a c k = Some k'" using store_granted [OF p(1-3)] by blast
  then show ?thesis using store_law [OF p(1-3)] p(4,5) by (auto simp: put_def)
qed

lemma map_shows:
  assumes "mapped_as psz len rdwr fl fd a w w'" "F_Anon \<notin> set fl" "is_shared fl" "fdo w fd = Some ob" "i < unat len" "i < size_of w ob"
  shows "shows_file psz w' (a + of_nat i) ob i" "w' = add_map a (round_up psz (unat len)) ob True True w"
proof -
  show w: "w' = add_map a (round_up psz (unat len)) ob True True w" using assms(1-4) by (auto simp: mapped_as_def)
  have "i < round_up psz (unat len)" "i < round_up psz (size_of w ob)"
    using assms(5,6) round_up_ge [OF psz_pos, of "unat len"] round_up_ge [OF psz_pos, of "size_of w ob"] by simp_all
  then show "shows_file psz w' (a + of_nat i) ob i"
    using offset_less [OF assms(5)] by (simp add: w shows_file_def add_map_def in_span_offset unat_of_nat)
qed

lemma unmap_add: "\<forall>x. in_span a n x \<longrightarrow> mem w x = None \<Longrightarrow> unmap a n (add_map a n ob b c w) = w"
  by (rule world.equality) (auto simp: unmap_def add_map_def fun_eq_iff)

lemma shows_file_other: "shows_file psz (w\<lparr>fdo := d\<rparr>) a ob i = shows_file psz w a ob i" "shows_file psz (put ob' j c w) a ob i = shows_file psz w a ob i"
  by (simp_all add: shows_file_def put_def)

lemma simple_file_effect:
  assumes run: "mmap_simple_file_main K t = (Exited 0, t')" and nm: "names (view (sys_of t)) ''test.txt'' = Some ob"
  shows "view (sys_of t') = put ob 0 (if cont (view (sys_of t)) ob 0 = CHR ''z'' then CHR ''a'' else next_char (cont (view (sys_of t)) ob 0)) (view (sys_of t))"
proof -
  let ?w = "view (sys_of t)"
  obtain fd k1 n k2 a k3 where k1: "fo_open K ''test.txt'' [O_Rdwr] (sys_of t) = Some (fd, k1)" and k2: "fo_fstat K fd k1 = Some (n, k2)"
    and k3: "fo_mmap K 0 n rdwr [F_Shared_Validate] fd k2 = Some (a, k3)"
    and rest: "acts [close_fd K fd, act_bind (f_load K a) (\<lambda>c. if c = CHR ''z'' then f_store K a (CHR ''a'')
          else act_bind (f_load K a) (\<lambda>c. f_store K a (next_char c))),
        need (fo_other K ''msync'' [a, n]), need (fo_munmap K a n), leave 0] (t\<lparr>sys_of := k3\<rparr>) = (Exited 0, t')"
    using run by (auto simp: mmap_simple_file_main_def open_or_stop_def ends_get ends_map)
  have o: "fdo ?w fd = None" "view k1 = ?w\<lparr>fdo := (fdo ?w)(fd \<mapsto> ob)\<rparr>" using open_law [OF k1] nm by (auto simp: opened_as_def)
  have s: "view k2 = view k1" "unat n = size_of ?w ob" using fstat_law [OF k2] o(2) by auto
  have m: "mapped_as psz n rdwr [F_Shared_Validate] fd a (view k2) (view k3)" using mmap_law [OF k3] .
  then have pos: "0 < unat n" "0 < size_of ?w ob" using s(2) unat_gt_0 [of n] by (auto simp: mapped_as_def)
  have sh: "is_shared [F_Shared_Validate]" "F_Anon \<notin> set [F_Shared_Validate]" "fdo (view k2) fd = Some ob" "0 < size_of (view k2) ob"
    using o s pos by (simp_all add: is_shared_def)
  note f = map_shows [OF m sh(2,1,3) pos(1) sh(4)]
  let ?k = "fo_close K fd k3"
  have sf: "shows_file psz (view ?k) a ob 0" using f(1) close_law [of fd k3] by (simp add: shows_file_other)
  obtain k5 where k5: "fo_load K a ?k = Some (cont (view ?k) ob 0, k5)" "view k5 = view ?k" using shows_load [OF sf] by blast
  have sf5: "shows_file psz (view k5) a ob 0" using sf k5(2) by simp
  obtain k6 where k6: "fo_load K a k5 = Some (cont (view ?k) ob 0, k6)" "view k6 = view ?k" using shows_load [OF sf5] k5(2) by auto
  have c: "cont (view ?k) ob 0 = cont ?w ob 0" using close_law [of fd k3] f(2) s(1) o(2) by (simp add: add_map_def)
  let ?c = "if cont ?w ob 0 = CHR ''z'' then CHR ''a'' else next_char (cont ?w ob 0)"
  obtain k7 where k7: "acts [need (fo_other K ''msync'' [a, n]), need (fo_munmap K a n), leave 0] (t\<lparr>sys_of := k7\<rparr>) = (Exited 0, t')"
      "view k7 = put ob 0 ?c (view ?k)"
  proof (cases "cont ?w ob 0 = CHR ''z''")
    case True
    obtain k7 where "fo_store K a (CHR ''a'') k5 = Some k7" "view k7 = put ob 0 (CHR ''a'') (view ?k)" using shows_store [OF sf5] k5(2) by auto
    then show ?thesis using that [of k7] rest k5(1) True by (simp add: ends_rest ends_access c del: acts.simps)
  next
    case False
    have "shows_file psz (view k6) a ob 0" using sf k6(2) by simp
    then obtain k7 where "fo_store K a (next_char (cont ?w ob 0)) k6 = Some k7" "view k7 = put ob 0 (next_char (cont ?w ob 0)) (view ?k)"
      using shows_store [of k6 a ob 0] k6(2) by fastforce
    then show ?thesis using that [of k7] rest k5(1) k6(1) False by (simp add: ends_rest ends_access c del: acts.simps)
  qed
  obtain k8 k9 where k8: "fo_other K ''msync'' [a, n] k7 = Some k8" "fo_munmap K a n k8 = Some k9" "t' = t\<lparr>sys_of := k9\<rparr>"
    using k7(1) by (auto simp: ends_need ends_rest simp del: acts.simps)
  have "view k9 = unmap a (round_up psz (unat n)) (view k7)" using munmap_law [OF k8(2)] other_law [OF k8(1)] by simp
  moreover have "view ?k = add_map a (round_up psz (unat n)) ob True True ?w"
    using close_law [of fd k3] f(2) s(1) o by (simp add: add_map_def fun_upd_idem cong: if_cong)
  moreover have "unmap a l (put ob 0 x v) = put ob 0 x (unmap a l v)" for l x v by (simp add: unmap_def put_def cong: if_cong)
  moreover have "unmap a (round_up psz (unat n)) (add_map a (round_up psz (unat n)) ob True True ?w) = ?w"
    by (rule unmap_add) (use m s(1) o(2) in \<open>simp add: mapped_as_def\<close>)
  ultimately show ?thesis using k7(2) k8(3) by simp
qed

end

text \<open>A run of \<open>mmap_simple_file.c\<close> that ends with status 0 has changed the first byte of the file, which has become the next letter and for z the letter a, and
  nothing else: what it mapped is unmapped and what it opened is closed.\<close>

theorem mmap_simple_file_rotates:
  assumes "roomy_kernel K psz view" "mmap_simple_file_main K t = (Exited 0, t')" "names (view (sys_of t)) ''test.txt'' = Some ob"
  shows "view (sys_of t') = put ob 0 (if cont (view (sys_of t)) ob 0 = CHR ''z'' then CHR ''a'' else next_char (cont (view (sys_of t)) ob 0)) (view (sys_of t))"
  by (rule roomy_kernel.simple_file_effect [OF assms])

lemmas run_eval = open_or_stop_def act_bind_def get_or_stop_def f_get_def f_map_def f_mmap_def stop_if_def ok_def leave_def need_def attempt_def f_call_def
  close_fd_def effect_def f_load_def f_store_def access_def say_def sleep_def disk_def sim_os_def sim_open_def sim_memfd_def sim_mmap_def Let_def is_shared_def
  sim_end_def sim_fd_def sim_new_def round_up_def PSZ4_def MAP_FAILED_def sim_usable_def sim_mem_def in_span_def sim_place_def rdwr_def next_char_def
  sim_cut_def map_filter_def

theorem mmap_simple_file_rotates_witness:
  "let t = \<lparr>sys_of = disk ''hello'', said = []\<rparr>; t' = snd (mmap_simple_file_main sim_os t)
   in sim_view (sys_of t') = put 1 0 (CHR ''i'') (sim_view (sys_of t))"
proof -
  let ?t = "\<lparr>sys_of = disk ''hello'', said = []\<rparr> :: sim tour"
  have "fst (mmap_simple_file_main sim_os ?t) = Exited 0" by (simp add: mmap_simple_file_main_def run_eval)
  then have r: "mmap_simple_file_main sim_os ?t = (Exited 0, snd (mmap_simple_file_main sim_os ?t))" by (simp add: prod_eq_iff)
  have n: "names (sim_view (sys_of ?t)) ''test.txt'' = Some 1" by (simp add: sim_view_def disk_def)
  have c: "cont (sim_view (sys_of ?t)) 1 0 = CHR ''h''" "next_char (CHR ''h'') = CHR ''i''" by (simp add: sim_view_def disk_def) code_simp
  show ?thesis using mmap_simple_file_rotates [OF sim_files.roomy_kernel_axioms r n] by (simp only: Let_def c) simp
qed

text \<open>What \<open>memfd_anon_remove.c\<close> prints after it has removed the memory is a null byte.\<close>

theorem memfd_removed_null:
  assumes fk: "roomy_kernel K psz view" and run: "memfd_anon_remove_main K t = (Exited 0, t')"
  shows "said t' = said t @ [[CHR 0x00] @ newline]"
proof -
  note fb = roomy_kernel.axioms(1) [OF fk]
  obtain fd k1 k2 a k3 k4 k5 c k6 where k1: "fo_memfd K ''test'' [Mfd_Allow_Sealing] (sys_of t) = Some (fd, k1)"
    and k2: "fo_truncate K fd (4096 * 1024 * 1024) k1 = Some k2" and k3: "fo_mmap K 0 4096 rdwr [F_Shared, F_Populate] fd k2 = Some (a, k3)"
    and k4: "fo_store K (a + 3) (CHR ''x'') k3 = Some k4" and k5: "fo_madvise K a 4096 Madv_Remove k4 = Some k5"
    and k6: "fo_load K (a + 3) k5 = Some (c, k6)" and out: "said t' = said t @ [[c] @ newline]"
    using run by (auto simp: memfd_anon_remove_main_def ends simp del: acts.simps)
  obtain ob where ob: "fdo (view k1) fd = Some ob" using file_kernel.memfd_law [OF fb k1] by (auto simp: set_obj_def)
  then obtain ct where v2: "view k2 = set_obj ob ct (unat (4096 * 1024 * 1024 :: u64)) (view k1)" using file_kernel.truncate_law [OF fb k2] by auto
  have m: "mapped_as psz 4096 rdwr [F_Shared, F_Populate] fd a (view k2) (view k3)" using file_kernel.mmap_law [OF fb k3] .
  have sf: "shows_file psz (view k3) (a + of_nat 3) ob 3"
    by (rule roomy_kernel.map_shows(1) [OF fk m]) (use ob v2 in \<open>simp_all add: is_shared_def set_obj_def\<close>)
  then obtain k where "fo_store K (a + 3) (CHR ''x'') k3 = Some k" "view k = put ob 3 (CHR ''x'') (view k3)"
    using roomy_kernel.shows_store [OF fk sf] by auto
  then have v4: "view k4 = put ob 3 (CHR ''x'') (view k3)" using k4 by simp
  have "in_span a (round_up psz (unat (4096 :: u64))) (a + of_nat 3)"
    using round_up_ge [OF file_kernel.psz_pos [OF fb], of 4096] by (simp add: in_span_def)
  moreover obtain p where p: "mem (view k4) (a + of_nat 3) = Some p" "pl_obj p = ob" "pl_off p = 3" using sf v4 by (auto simp: shows_file_def put_def)
  moreover have v5: "view k5 = removed a (round_up psz (unat (4096 :: u64))) (view k4)" using file_kernel.remove_law [OF fb k5] by blast
  ultimately have "cont (view k5) ob 3 = CHR 0x00" by (auto simp: removed_def)
  moreover have "shows_file psz (view k5) (a + of_nat 3) ob 3" using sf v4 v5 by (simp add: shows_file_def put_def removed_def)
  ultimately show ?thesis using roomy_kernel.shows_load [OF fk, of k5 "a + of_nat 3" ob 3] k6 out by auto
qed

theorem memfd_removed_null_witness:
  "said (snd (memfd_anon_remove_main sim_os \<lparr>sys_of = disk [], said = []\<rparr>)) = [[CHR 0x00] @ newline]"
proof -
  let ?r = "memfd_anon_remove_main sim_os \<lparr>sys_of = disk [], said = []\<rparr>"
  have "fst ?r = Exited 0" by (simp add: memfd_anon_remove_main_def run_eval sim_remove_def)
  then have "?r = (Exited 0, snd ?r)" by (simp add: prod_eq_iff)
  then show ?thesis using memfd_removed_null [OF sim_files.roomy_kernel_axioms, of _ "snd ?r"] by simp
qed

text \<open>When the second mapping of \<open>punch.c\<close> is refused the program does not notice, because it tests the pointer of the first, and is killed when it reads
  through that pointer, which is unmapped.\<close>

theorem punch_reads_unmapped:
  assumes fk: "file_kernel K psz view" and open1: "fo_open K ''test2.txt'' [O_Rdwr] (sys_of t) = Some (fd, k1)"
    and refused: "fo_mmap K 0 (10 * psz) rdwr [F_Shared, F_Populate] fd k1 = None"
    and gone: "mem (view (sys_of t)) (ptr + 3 * psz) = None" and first: "ptr \<noteq> MAP_FAILED"
  shows "punch_again K psz ptr t = (Killed, t\<lparr>sys_of := k1, said := said t @ [''--- after ---'' @ newline, ''--- begin ---'' @ newline]\<rparr>)"
proof -
  have "mem (view k1) (ptr + 3 * psz) = None" using file_kernel.open_law [OF fk open1] gone by (auto simp: opened_as_def set_obj_def)
  then have l: "fo_load K (ptr + 3 * psz) k1 = None" using file_kernel.fault_law [OF fk] by blast
  have "0 < unat psz * 2" using file_kernel.psz_pos [OF fk] by (simp add: word_less_nat_alt)
  then have u: "[0..<unat psz * 2] = 0 # [1..<unat psz * 2]" by (simp add: upt_conv_Cons)
  show ?thesis
    unfolding punch_again_def print_pages_def u
    using open1 refused first l by (simp add: open_or_stop_def act_bind_def get_or_stop_def f_get_def f_mmap_def ok_def stop_if_def say_def f_load_def)
qed

theorem punch_reads_unmapped_witness:
  "let t = \<lparr>sys_of = (disk ''hello'')\<lparr>s_maps := [(0, 2 ^ 63, None)], s_names := [(''test2.txt'', 1)]\<rparr>, said = []\<rparr>
   in fst (punch_again sim_os PSZ4 0x10000 t) = Killed"
proof -
  let ?t = "\<lparr>sys_of = (disk ''hello'')\<lparr>s_maps := [(0, 2 ^ 63, None)], s_names := [(''test2.txt'', 1)]\<rparr>, said = []\<rparr> :: sim tour"
  let ?k = "(sys_of ?t)\<lparr>s_fds := [(3, 1)]\<rparr>"
  have "fo_open sim_os ''test2.txt'' [O_Rdwr] (sys_of ?t) = Some (3, ?k)" "fo_mmap sim_os 0 (10 * PSZ4) rdwr [F_Shared, F_Populate] 3 ?k = None"
    "mem (sim_view (sys_of ?t)) (0x10000 + 3 * PSZ4) = None"
    by (simp_all add: run_eval sim_view_def)
  then show ?thesis
    using punch_reads_unmapped [OF sim_files.file_kernel_axioms, of ?t 3 ?k "0x10000"] by (simp add: MAP_FAILED_def)
qed

section \<open>Loops\<close>

text \<open>The letter after one turn of \<open>mmap_simple_private_file.c\<close>, and the number of turns until the letter is e.\<close>

definition turned :: "char \<Rightarrow> char" where
  "turned c = (if before_a c \<or> c = CHR ''z'' then CHR ''a'' else next_char c)"

definition turns_to_e :: "char \<Rightarrow> nat" where
  "turns_to_e c = (let n = of_char c in
     if n < 97 \<or> 128 \<le> n then 5 else if n \<le> 101 then 101 - n else if n \<le> 122 then 127 - n else 133 - n)"

lemma of_char_eq_iff: "c = d \<longleftrightarrow> (of_char c :: nat) = of_char d"
  by auto

lemma of_char_next: "(of_char (next_char c) :: nat) = (of_char c + 1) mod 256"
  by (simp add: next_char_def)

lemma turns_to_e_turn: "turns_to_e c = 0 \<longleftrightarrow> c = CHR ''e''" "c \<noteq> CHR ''e'' \<Longrightarrow> turns_to_e c = Suc (turns_to_e (turned c))"
proof -
  have n: "(of_char c :: nat) < 256" by (rule nat_of_char_less_256)
  show "turns_to_e c = 0 \<longleftrightarrow> c = CHR ''e''" unfolding of_char_eq_iff turns_to_e_def Let_def using n by auto
  assume "c \<noteq> CHR ''e''"
  then have e: "(of_char c :: nat) \<noteq> 101" unfolding of_char_eq_iff by simp
  show "turns_to_e c = Suc (turns_to_e (turned c))"
    using n e by (auto simp: turned_def turns_to_e_def before_a_def Let_def of_char_next of_char_eq_iff [of c])
qed

text \<open>A file with \<open>n\<close> bytes of memory at an address, among which there is a null byte after the first.\<close>

definition text_at :: "u64 \<Rightarrow> world \<Rightarrow> u64 \<Rightarrow> nat \<Rightarrow> nat \<Rightarrow> bool" where
  "text_at psz w a ob n \<longleftrightarrow> 3 < n \<and> n \<le> ADDRS \<and> (\<forall>i<n. shows_file psz w (a + of_nat i) ob i) \<and> (\<exists>j<n. 0 < j \<and> cont w ob j = CHR 0x00)"

definition calm :: "'k file_os \<Rightarrow> ('k \<Rightarrow> world) \<Rightarrow> bool" where
  "calm K view \<longleftrightarrow> (\<forall>k n. view (fo_sleep K n k) = view k) \<and> (\<forall>xs k. fo_other K ''msync'' xs k \<noteq> None)"

context roomy_kernel
begin

lemma load_run:
  assumes "shows_file psz (view (sys_of t)) a ob i"
  shows "\<exists>k. f_load K a t = (Done (cont (view (sys_of t)) ob i), t\<lparr>sys_of := k\<rparr>) \<and> view k = view (sys_of t)"
  using shows_load [OF assms] by (auto simp: f_load_def)

lemma store_run:
  assumes "shows_file psz (view (sys_of t)) a ob i"
  shows "\<exists>k. f_store K a c t = (Done (), t\<lparr>sys_of := k\<rparr>) \<and> view k = put ob i c (view (sys_of t))"
  using shows_store [OF assms, of c] by (auto simp: f_store_def access_def)

lemma begins_run:
  assumes "\<forall>j<length s. shows_file psz (view (sys_of t)) (a + of_nat j) ob (i + j)"
  shows "\<exists>k. begins_with K a s t = (Done (\<forall>j<length s. cont (view (sys_of t)) ob (i + j) = s ! j), t\<lparr>sys_of := k\<rparr>) \<and> view k = view (sys_of t)"
  using assms
proof (induction s arbitrary: a i t)
  case Nil
  show ?case by (rule exI [of _ "sys_of t"]) (simp add: ok_def)
next
  case (Cons c s)
  have "shows_file psz (view (sys_of t)) a ob i" using Cons(2) [rule_format, of 0] by simp
  then obtain k where k: "f_load K a t = (Done (cont (view (sys_of t)) ob i), t\<lparr>sys_of := k\<rparr>)" "view k = view (sys_of t)" using load_run by blast
  have "\<forall>j<length s. shows_file psz (view (sys_of (t\<lparr>sys_of := k\<rparr>))) (a + 1 + of_nat j) ob (Suc i + j)"
  proof (intro allI impI)
    fix j
    assume "j < length s"
    then show "shows_file psz (view (sys_of (t\<lparr>sys_of := k\<rparr>))) (a + 1 + of_nat j) ob (Suc i + j)"
      using Cons(2) [rule_format, of "Suc j"] k(2) by (simp add: add.assoc)
  qed
  then obtain k' where k': "begins_with K (a + 1) s (t\<lparr>sys_of := k\<rparr>) = (Done (\<forall>j<length s. cont (view k) ob (Suc i + j) = s ! j), t\<lparr>sys_of := k'\<rparr>)" "view k' = view k"
    using Cons(1) [of "t\<lparr>sys_of := k\<rparr>" "a + 1" "Suc i"] by auto
  have "(\<forall>j<length (c # s). cont (view (sys_of t)) ob (i + j) = (c # s) ! j) \<longleftrightarrow> cont (view (sys_of t)) ob i = c \<and> (\<forall>j<length s. cont (view (sys_of t)) ob (Suc i + j) = s ! j)"
    by (simp add: All_less_Suc2)
  then show ?case using k k' by (auto simp: act_bind_def ok_def)
qed

lemma string_run:
  assumes "\<forall>j<m. shows_file psz (view (sys_of t)) (a + of_nat j) ob (i + j)" "j < m" "cont (view (sys_of t)) ob (i + j) = CHR 0x00" "j < N"
  shows "\<exists>s k. f_string K N a t = (Done s, t\<lparr>sys_of := k\<rparr>) \<and> view k = view (sys_of t)"
  using assms
proof (induction N arbitrary: a i j m t)
  case (Suc N)
  have "shows_file psz (view (sys_of t)) a ob i" using Suc(2) [rule_format, of 0] Suc(3) by simp
  then obtain k where k: "f_load K a t = (Done (cont (view (sys_of t)) ob i), t\<lparr>sys_of := k\<rparr>)" "view k = view (sys_of t)" using load_run by blast
  show ?case
  proof (cases "cont (view (sys_of t)) ob i = CHR 0x00")
    case True
    then show ?thesis using k by (intro exI [of _ "[]"] exI [of _ k]) (simp add: act_bind_def ok_def)
  next
    case False
    then obtain j' where j': "j = Suc j'" using Suc(4) by (cases j) simp_all
    obtain m' where m': "m = Suc m'" using Suc(3) by (cases m) simp_all
    have "\<forall>j<m'. shows_file psz (view (sys_of (t\<lparr>sys_of := k\<rparr>))) (a + 1 + of_nat j) ob (Suc i + j)"
    proof (intro allI impI)
      fix j
      assume "j < m'"
      then show "shows_file psz (view (sys_of (t\<lparr>sys_of := k\<rparr>))) (a + 1 + of_nat j) ob (Suc i + j)"
        using Suc(2) [rule_format, of "Suc j"] k(2) m' by (simp add: add.assoc)
    qed
    then obtain s k' where "f_string K N (a + 1) (t\<lparr>sys_of := k\<rparr>) = (Done s, t\<lparr>sys_of := k'\<rparr>)" "view k' = view k"
      using Suc(1) [of m' "t\<lparr>sys_of := k\<rparr>" "a + 1" "Suc i" j'] Suc(3-5) j' m' k(2) by auto
    then show ?thesis using k False by (intro exI [of _ "cont (view (sys_of t)) ob i # s"] exI [of _ k']) (simp add: act_bind_def ok_def)
  qed
qed simp

lemma text_put: "text_at psz w a ob n \<Longrightarrow> text_at psz (put ob 0 c w) a ob n"
  by (auto simp: text_at_def shows_file_other) (auto simp: put_def)

lemma first_byte: "text_at psz w a ob n \<Longrightarrow> shows_file psz w a ob 0"
  by (auto simp: text_at_def dest!: spec [of _ 0])

lemma turn_char_run:
  assumes "text_at psz (view (sys_of t)) a ob n"
  shows "\<exists>k. turn_char K a t = (Done (), t\<lparr>sys_of := k\<rparr>) \<and> view k = put ob 0 (turned (cont (view (sys_of t)) ob 0)) (view (sys_of t))"
proof -
  let ?v = "view (sys_of t)" and ?c = "cont (view (sys_of t)) ob 0"
  obtain k1 where k1: "f_load K a t = (Done ?c, t\<lparr>sys_of := k1\<rparr>)" "view k1 = ?v" using load_run [OF first_byte [OF assms]] by blast
  have s1: "shows_file psz (view (sys_of (t\<lparr>sys_of := k1\<rparr>))) a ob 0" using first_byte [OF assms] k1(2) by simp
  show ?thesis
  proof (cases "before_a ?c \<or> ?c = CHR ''z''")
    case True
    then show ?thesis using k1 store_run [OF s1, of "CHR ''a''"] by (auto simp: turn_char_def act_bind_def turned_def)
  next
    case False
    obtain k2 where k2: "f_load K a (t\<lparr>sys_of := k1\<rparr>) = (Done ?c, t\<lparr>sys_of := k2\<rparr>)" "view k2 = ?v" using load_run [OF s1] k1(2) by auto
    have "shows_file psz (view (sys_of (t\<lparr>sys_of := k2\<rparr>))) a ob 0" using first_byte [OF assms] k2(2) by simp
    then show ?thesis using False k1(1) k2 store_run [of "t\<lparr>sys_of := k2\<rparr>" a ob 0 "next_char ?c"] by (auto simp: turn_char_def act_bind_def turned_def)
  qed
qed

lemma exit_turn:
  assumes "calm K view" "text_at psz (view (sys_of t)) a ob n"
  shows "\<exists>t'. acts [turn_char K a, need (fo_other K ''msync'' [a, sz]), act_bind (f_string K ADDRS a) say, sleep K 1] t = (Done (), t')
    \<and> view (sys_of t') = put ob 0 (turned (cont (view (sys_of t)) ob 0)) (view (sys_of t))"
proof -
  let ?w = "put ob 0 (turned (cont (view (sys_of t)) ob 0)) (view (sys_of t))"
  obtain k1 where k1: "turn_char K a t = (Done (), t\<lparr>sys_of := k1\<rparr>)" "view k1 = ?w" using turn_char_run [OF assms(2)] by blast
  obtain k2 where "fo_other K ''msync'' [a, sz] k1 = Some k2" using assms(1) unfolding calm_def by blast
  then have k2: "need (fo_other K ''msync'' [a, sz]) (t\<lparr>sys_of := k1\<rparr>) = (Done (), t\<lparr>sys_of := k2\<rparr>)" "view k2 = ?w"
    using other_law k1(2) by (auto simp: need_def act_bind_def f_call_def stop_if_def ok_def)
  let ?t = "t\<lparr>sys_of := k2\<rparr>"
  have tx: "text_at psz (view (sys_of ?t)) a ob n" using text_put [OF assms(2)] k2(2) by simp
  then obtain j where j: "j < n" "cont (view (sys_of ?t)) ob j = CHR 0x00" "n \<le> ADDRS" "\<forall>i<n. shows_file psz (view (sys_of ?t)) (a + of_nat i) ob i"
    by (auto simp: text_at_def)
  obtain s k3 where k3: "f_string K ADDRS a ?t = (Done s, ?t\<lparr>sys_of := k3\<rparr>)" "view k3 = ?w"
    using string_run [of n ?t a ob 0 j ADDRS] j k2(2) by auto
  show ?thesis
    using k1(1) k2(1) k3 assms(1)
    by (simp add: act_bind_def ok_def say_def sleep_def effect_def calm_def)
qed

lemma until_exit_run:
  assumes "calm K view" "text_at psz (view (sys_of t)) a ob n"
  shows "\<exists>t'. until_exit K m a sz t = (Done ((\<forall>j\<in>{1,2,3}. cont (view (sys_of t)) ob j = ''exit'' ! j) \<and> turns_to_e (cont (view (sys_of t)) ob 0) < m), t')"
  using assms(2)
proof (induction m arbitrary: t)
  case 0
  show ?case by (simp add: ok_def)
next
  case (Suc m)
  let ?v = "view (sys_of t)"
  let ?x = "\<forall>j\<in>{1,2,3}. cont ?v ob j = ''exit'' ! j" and ?c = "cont ?v ob 0"
  have sh: "\<forall>j<length ''exit''. shows_file psz ?v (a + of_nat j) ob (0 + j)" using Suc(2) by (auto simp: text_at_def)
  have eq: "(\<forall>j<length ''exit''. cont ?v ob (0 + j) = ''exit'' ! j) \<longleftrightarrow> ?c = CHR ''e'' \<and> ?x"
    by (simp add: All_less_Suc2 numeral_2_eq_2 numeral_3_eq_3)
  obtain k1 where k1: "begins_with K a ''exit'' t = (Done (?c = CHR ''e'' \<and> ?x), t\<lparr>sys_of := k1\<rparr>)" "view k1 = ?v"
    using begins_run [OF sh] unfolding eq by blast
  show ?case
  proof (cases "?c = CHR ''e'' \<and> ?x")
    case True
    then show ?thesis using k1(1) turns_to_e_turn(1) [of ?c] by (simp add: act_bind_def ok_def del: begins_with.simps)
  next
    case False
    let ?t = "t\<lparr>sys_of := k1\<rparr>"
    have tx: "text_at psz (view (sys_of ?t)) a ob n" using Suc(2) k1(2) by simp
    obtain t2 where t2: "acts [turn_char K a, need (fo_other K ''msync'' [a, sz]), act_bind (f_string K ADDRS a) say, sleep K 1] ?t = (Done (), t2)"
      "view (sys_of t2) = put ob 0 (turned ?c) ?v" using exit_turn [OF assms(1) tx, of sz] k1(2) by auto
    have "text_at psz (view (sys_of t2)) a ob n" using text_put [OF Suc(2)] t2(2) by simp
    then obtain t3 where t3: "until_exit K m a sz t2 = (Done ((\<forall>j\<in>{1,2,3}. cont (view (sys_of t2)) ob j = ''exit'' ! j) \<and> turns_to_e (cont (view (sys_of t2)) ob 0) < m), t3)"
      using Suc(1) by blast
    have "(\<forall>j\<in>{1,2,3}. cont (view (sys_of t2)) ob j = ''exit'' ! j) \<and> turns_to_e (cont (view (sys_of t2)) ob 0) < m \<longleftrightarrow> ?x \<and> turns_to_e (turned ?c) < m"
      using t2(2) by (simp add: put_def)
    moreover have "?x \<Longrightarrow> turns_to_e ?c = Suc (turns_to_e (turned ?c))" using False turns_to_e_turn(2) by blast
    ultimately have "until_exit K m a sz t2 = (Done (?x \<and> turns_to_e ?c < Suc m), t3)" using t3 by auto
    then show ?thesis using k1(1) t2(1) False by (auto simp: act_bind_def simp del: begins_with.simps acts.simps)
  qed
qed

end

text \<open>C39. The loop of \<open>mmap_simple_private_file.c\<close>, when no other process writes to the file: it ends exactly when the bytes after the first are xit, in the turn
  in which the letters have come round to e, and otherwise it goes on for ever.\<close>

theorem exit_reached:
  assumes "roomy_kernel K psz view" "calm K view" "text_at psz (view (sys_of t)) a ob n"
  shows "\<exists>t'. until_exit K m a sz t
    = (Done ((\<forall>j\<in>{1,2,3}. cont (view (sys_of t)) ob j = ''exit'' ! j) \<and> turns_to_e (cont (view (sys_of t)) ob 0) < m), t')"
  by (rule roomy_kernel.until_exit_run [OF assms])

theorem exit_reached_witness:
  "\<exists>t'. until_exit sim_os 3 0x10000 4 \<lparr>sys_of = (disk ''cxit'')\<lparr>s_maps := [(0x10000, 4096, Some (1, True, True))]\<rparr>, said = []\<rparr> = (Done True, t')"
proof -
  let ?s = "(disk ''cxit'')\<lparr>s_maps := [(0x10000, 4096, Some (1, True, True))]\<rparr>"
  have v: "cont (sim_view ?s) 1 j = (if j < 4 then ''cxit'' ! j else CHR 0x00)" "size_of (sim_view ?s) 1 = 4" for j
    by (simp_all add: sim_view_def disk_def)
  have "shows_file PSZ4 (sim_view ?s) (0x10000 + of_nat i) 1 i" if "i < 5" for i
    using that v(2) in_span_offset [of i "0x10000" 4096]
    by (simp add: shows_file_def sim_view_def disk_def sim_mem_def sim_place_def unat_of_nat round_up_def PSZ4_def)
  moreover have "0 < (4::nat) \<and> cont (sim_view ?s) 1 4 = CHR 0x00" using v(1) [of 4] by simp
  ultimately have tx: "text_at PSZ4 (sim_view (sys_of \<lparr>sys_of = ?s, said = []\<rparr>)) 0x10000 1 5"
    unfolding text_at_def ADDRS_def tour.simps by (intro conjI exI [of _ 4]) simp_all
  have ca: "calm sim_os sim_view" by (simp add: calm_def sim_os_def)
  obtain t' where "until_exit sim_os 3 0x10000 4 \<lparr>sys_of = ?s, said = []\<rparr> = (Done ((\<forall>j\<in>{1,2,3}. cont (sim_view ?s) 1 j = ''exit'' ! j) \<and> turns_to_e (cont (sim_view ?s) 1 0) < 3), t')"
    using exit_reached [OF sim_files.roomy_kernel_axioms ca tx, of 3 4] unfolding tour.simps by blast
  then show ?thesis by (intro exI [of _ t'], elim trans) (simp add: sim_view_def disk_def turns_to_e_def)
qed

text \<open>The letter after one turn of \<open>modify.c\<close>.\<close>

definition rotated :: "char \<Rightarrow> char" where
  "rotated c = (if c = CHR ''z'' then CHR ''a'' else next_char c)"

definition letter :: "nat \<Rightarrow> char" where
  "letter i = char_of (97 + i mod 26)"

lemma rotated_letter: "rotated (letter i) = letter (Suc i)"
proof -
  have "i mod 26 < 26" by simp
  moreover have "Suc i mod 26 = (if i mod 26 = 25 then 0 else Suc (i mod 26))" by (simp add: mod_Suc)
  ultimately show ?thesis
    unfolding rotated_def letter_def of_char_eq_iff by (auto simp: of_char_next)
qed

lemma rotated_letters: "(rotated ^^ n) (letter i) = letter (i + n)"
  by (induction n) (simp_all add: rotated_letter)

lemma put_put: "put ob i x (put ob i y w) = put ob i x w" "put ob i (cont w ob i) w = w" "cont (put ob i x w) ob i = x"
  by (simp_all add: put_def)

context roomy_kernel
begin

lemma modify_run:
  assumes "calm K view" "shows_file psz (view (sys_of t)) a ob 0"
  shows "\<exists>t'. acts (replicate n (modify_turn K a)) t = (Done (), t') \<and> view (sys_of t') = put ob 0 ((rotated ^^ n) (cont (view (sys_of t)) ob 0)) (view (sys_of t))"
  using assms(2)
proof (induction n arbitrary: t)
  case 0
  show ?case by (simp add: ok_def put_put)
next
  case (Suc n)
  let ?v = "view (sys_of t)" and ?c = "cont (view (sys_of t)) ob 0"
  obtain k1 where k1: "f_load K a t = (Done ?c, t\<lparr>sys_of := k1\<rparr>)" "view k1 = ?v" using load_run [OF Suc(2)] by blast
  have "shows_file psz (view (sys_of (t\<lparr>sys_of := k1\<rparr>))) a ob 0" using Suc(2) k1(2) by simp
  from store_run [OF this, of "rotated ?c"] obtain k2 where k2: "f_store K a (rotated ?c) (t\<lparr>sys_of := k1\<rparr>) = (Done (), t\<lparr>sys_of := k2\<rparr>)" "view k2 = put ob 0 (rotated ?c) ?v"
    using k1(2) by auto
  let ?t = "t\<lparr>sys_of := fo_sleep K 1 k2\<rparr>"
  have t: "modify_turn K a t = (Done (), ?t)" "view (sys_of ?t) = put ob 0 (rotated ?c) ?v"
    using k1 k2 assms(1) by (simp_all add: modify_turn_def rotated_def [symmetric] act_bind_def ok_def sleep_def effect_def calm_def)
  have "shows_file psz (view (sys_of ?t)) a ob 0" using Suc(2) t(2) by (simp add: shows_file_other)
  from Suc(1) [OF this] show ?case
    using t funpow_swap1 [of rotated n ?c] by (simp add: act_bind_def put_put)
qed

end

text \<open>\<open>modify.c\<close> turns the first letter of the file to the next once a second, and after 26 turns the file is as it was, when no other process writes to it.\<close>

theorem modify_26_turns:
  assumes "roomy_kernel K psz view" "calm K view" "shows_file psz (view (sys_of t)) a ob 0" "cont (view (sys_of t)) ob 0 = letter i"
  shows "\<exists>t'. acts (replicate n (modify_turn K a)) t = (Done (), t')
    \<and> view (sys_of t') = put ob 0 (letter (i + n)) (view (sys_of t)) \<and> (26 dvd n \<longrightarrow> view (sys_of t') = view (sys_of t))"
proof -
  have "letter (i + n) = letter i" if "26 dvd n" using that by (auto simp: letter_def dvd_def)
  then show ?thesis
    using roomy_kernel.modify_run [OF assms(1-3), of n] put_put(2) [of ob 0 "view (sys_of t)"] assms(4) by (auto simp: rotated_letters)
qed

theorem modify_26_turns_witness:
  "\<exists>t'. acts (replicate 2 (modify_turn sim_os 0x10000)) \<lparr>sys_of = (disk ''yes'')\<lparr>s_maps := [(0x10000, 4096, Some (1, True, True))]\<rparr>, said = []\<rparr> = (Done (), t')
    \<and> cont (sim_view (sys_of t')) 1 0 = CHR ''a''"
proof -
  let ?t = "\<lparr>sys_of = (disk ''yes'')\<lparr>s_maps := [(0x10000, 4096, Some (1, True, True))]\<rparr>, said = []\<rparr>"
  have "shows_file PSZ4 (sim_view (sys_of ?t)) 0x10000 1 0"
    by (simp add: shows_file_def sim_view_def disk_def sim_mem_def sim_place_def in_span_def round_up_def PSZ4_def)
  moreover have "calm sim_os sim_view" by (simp add: calm_def sim_os_def)
  moreover have "cont (sim_view (sys_of ?t)) 1 0 = letter 24" by (simp add: sim_view_def disk_def letter_def of_char_eq_iff)
  moreover have "letter (24 + 2) = CHR ''a''" by (simp add: letter_def of_char_eq_iff)
  ultimately obtain t' where t': "acts (replicate 2 (modify_turn sim_os 0x10000)) ?t = (Done (), t')"
      "sim_view (sys_of t') = put 1 0 (letter (24 + 2)) (sim_view (sys_of ?t))" "letter (24 + 2) = CHR ''a''"
    using modify_26_turns [OF sim_files.roomy_kernel_axioms, where t = ?t and a = "0x10000" and ob = 1 and i = 24 and n = 2] by blast
  have "cont (sim_view (sys_of t')) 1 0 = CHR ''a''" unfolding t'(2) put_put(3) by (rule t'(3))
  with t'(1) show ?thesis by blast
qed

end
