(* ===== verification/Fault_Around.thy ===== *)
theory Fault_Around
  imports Bitwise
begin

text \<open>
  The experiment \<open>concepts/fault_around/\<close>: which pages around a faulting address the kernel maps at once. The kernel's own computation
  (\<open>original_fault_around\<close>) and three simpler ones are compared on random faults. Here they are proved equal on every fault the kernel can hand over, and
  to a specification by the pages they choose.
\<close>

section \<open>The functions\<close>

definition PAGE_SIZE :: u64 where "PAGE_SIZE = push_bit 12 1"
definition PAGE_MASK :: u64 where "PAGE_MASK = NOT (PAGE_SIZE - 1)"
definition PTRS_PER_PTE :: u64 where "PTRS_PER_PTE = 512"

definition ALIGN_DOWN :: "u64 \<Rightarrow> u64 \<Rightarrow> u64" where
  "ALIGN_DOWN x a = (x - (a - 1) + (a - 1)) AND NOT (a - 1)"

definition pte_index :: "u64 \<Rightarrow> u64" where
  "pte_index address = drop_bit 12 address AND (PTRS_PER_PTE - 1)"

text \<open>The position of the highest bit that is set, counted from 1, and 0 without one. The shift by - 1 for 0 would be undefined.\<close>

definition fls64 :: "u64 \<Rightarrow> nat" where
  "fls64 x = (case List.find (bit x) (rev [0..<64]) of None \<Rightarrow> 0 | Some i \<Rightarrow> Suc i)"

definition rounddown_pow_of_two :: "u64 \<Rightarrow> u64" where
  "rounddown_pow_of_two n = push_bit (fls64 n - 1) 1"

record vm_area =
  va_start :: u64
  va_end :: u64
  va_pgoff :: u64

record vm_fault =
  vf_address :: u64
  vf_vma :: vm_area
  vf_pgoff :: u64

definition vma_pages :: "vm_area \<Rightarrow> u64" where
  "vma_pages vma = drop_bit 12 (va_end vma - va_start vma)"

definition original_fault_around :: "vm_fault \<Rightarrow> u64 \<Rightarrow> u64 \<times> u64" where
  "original_fault_around vmf fault_around_bytes =
     (let address = vf_address vmf; vma = vf_vma vmf;
          nr_pages = drop_bit 12 fault_around_bytes;
          msk = NOT (nr_pages * PAGE_SIZE - 1) AND PAGE_MASK;
          address = max (address AND msk) (va_start vma);
          off = drop_bit 12 (vf_address vmf - address) AND (PTRS_PER_PTE - 1);
          start_pgoff = vf_pgoff vmf - off;
          end_pgoff = start_pgoff - (drop_bit 12 address AND (PTRS_PER_PTE - 1)) + PTRS_PER_PTE - 1;
          end_pgoff = min (min end_pgoff (vma_pages vma + va_pgoff vma - 1)) (start_pgoff + nr_pages - 1)
      in (start_pgoff, end_pgoff))"

definition do_fault_around_take1 :: "vm_fault \<Rightarrow> u64 \<Rightarrow> u64 \<times> u64" where
  "do_fault_around_take1 vmf fault_around_bytes =
     (let nr_pages = drop_bit 12 fault_around_bytes;
          virt_pgoff = drop_bit 12 (vf_address vmf);
          frm = virt_pgoff - pte_index (vf_address vmf);
          to = frm + PTRS_PER_PTE - 1;
          frm = max frm (drop_bit 12 (va_start (vf_vma vmf)));
          to = min to (drop_bit 12 (va_end (vf_vma vmf)) - 1);
          frm = max frm (ALIGN_DOWN virt_pgoff nr_pages);
          to = min to (frm + nr_pages - 1)
      in (vf_pgoff vmf + frm - virt_pgoff, vf_pgoff vmf + to - virt_pgoff))"

text \<open>\<open>do_fault_around_take2\<close> and \<open>do_fault_around\<close> differ in a cast only.\<close>

definition do_fault_around :: "vm_fault \<Rightarrow> u64 \<Rightarrow> u64 \<times> u64" where
  "do_fault_around vmf fault_around_bytes =
     (let nr_pages = drop_bit 12 fault_around_bytes;
          pte_off = pte_index (vf_address vmf);
          vma_off = vf_pgoff vmf - va_pgoff (vf_vma vmf);
          from_pte = max (ALIGN_DOWN pte_off nr_pages) (pte_off - min pte_off vma_off);
          to_pte = min (min (from_pte + nr_pages) PTRS_PER_PTE) (pte_off + vma_pages (vf_vma vmf) - vma_off) - 1
      in (vf_pgoff vmf + from_pte - pte_off, vf_pgoff vmf + to_pte - pte_off))"

definition do_fault_around_take2 :: "vm_fault \<Rightarrow> u64 \<Rightarrow> u64 \<times> u64" where
  "do_fault_around_take2 vmf fault_around_bytes =
     (let nr_pages = drop_bit 12 fault_around_bytes;
          pte_off = pte_index (vf_address vmf);
          vma_off = vf_pgoff vmf - va_pgoff (vf_vma vmf);
          from_pte = max (ALIGN_DOWN pte_off nr_pages) (pte_off - min pte_off vma_off);
          to_pte = min (min (from_pte + nr_pages) PTRS_PER_PTE) (pte_off + vma_pages (vf_vma vmf) - vma_off) - 1
      in (vf_pgoff vmf + from_pte - pte_off, vf_pgoff vmf + to_pte - pte_off))"

section \<open>The test\<close>

text \<open>\<open>r\<close> is what \<open>rand_r\<close> delivers.\<close>

definition get_random_fa :: "u64 \<Rightarrow> u64 \<Rightarrow> u64 \<Rightarrow> u64 \<Rightarrow> u64 \<Rightarrow> u64" where
  "get_random_fa r frm to align mult = (let delta = r mod (to - frm) in ALIGN_DOWN (mult * (frm + delta)) align)"

definition draw_vmf :: "(nat \<Rightarrow> u64) \<Rightarrow> vm_fault" where
  "draw_vmf r =
     (let start = get_random_fa (r 0) 0x700000000 0x800000000 1 PAGE_SIZE;
          en = start + get_random_fa (r 1) 1 100 1 PAGE_SIZE;
          address = get_random_fa (r 2) start en PAGE_SIZE 1;
          pgoff = get_random_fa (r 3) 0 100 1 1
      in \<lparr>vf_address = address, vf_vma = \<lparr>va_start = start, va_end = en, va_pgoff = pgoff\<rparr>, vf_pgoff = pgoff + drop_bit 12 (address - start)\<rparr>)"

text \<open>The checks: \<open>None\<close> is the exit with status 1 after a message.\<close>

definition gen_vmf :: "(nat \<Rightarrow> u64) \<Rightarrow> vm_fault option" where
  "gen_vmf r =
     (let vmf = draw_vmf r; vma = vf_vma vmf in
      if va_start vma \<ge> va_end vma then None
      else if vf_address vmf < va_start vma then None
      else if vf_address vmf \<ge> va_end vma then None
      else let address_offset = drop_bit 12 (vf_address vmf - va_start vma) in
        if vf_pgoff vmf \<noteq> address_offset + va_pgoff vma then None else Some vmf)"

text \<open>A test: \<open>None\<close> is the exit, \<open>Some False\<close> a mismatch, which is reported.\<close>

definition do_test :: "(nat \<Rightarrow> u64) \<Rightarrow> bool option" where
  "do_test r = (case gen_vmf r of None \<Rightarrow> None
     | Some vmf \<Rightarrow>
        let fault_around_bytes = rounddown_pow_of_two (get_random_fa (r 4) PAGE_SIZE (PTRS_PER_PTE * PAGE_SIZE) 1 1)
        in Some (original_fault_around vmf fault_around_bytes = do_fault_around vmf fault_around_bytes))"

section \<open>Faults\<close>

text \<open>
  The faults the kernel hands over: the address is that of a page of the area, the area is in the lower half of the address space and its offsets do not
  leave the file. The window has \<open>2 ^ j\<close> pages and is not larger than a page table.
\<close>

definition valid_fault :: "vm_fault \<Rightarrow> bool" where
  "valid_fault vmf \<longleftrightarrow> (let vma = vf_vma vmf in
     va_start vma AND (PAGE_SIZE - 1) = 0 \<and> va_end vma AND (PAGE_SIZE - 1) = 0 \<and> vf_address vmf AND (PAGE_SIZE - 1) = 0
     \<and> va_start vma \<le> vf_address vmf \<and> vf_address vmf < va_end vma \<and> va_end vma \<le> push_bit 63 1
     \<and> va_pgoff vma \<le> push_bit 62 1 \<and> vf_pgoff vmf = va_pgoff vma + drop_bit 12 (vf_address vmf - va_start vma))"

definition window_bytes :: "u64 \<Rightarrow> nat \<Rightarrow> bool" where
  "window_bytes fab j \<longleftrightarrow> j \<le> 9 \<and> fab = push_bit (12 + j) 1"

text \<open>The pages that are mapped: those of the area that are in the same aligned window and the same page table as the fault, in terms of page numbers.\<close>

definition around :: "nat \<Rightarrow> nat \<Rightarrow> nat \<Rightarrow> nat \<Rightarrow> nat set" where
  "around A S E n = {p. S \<le> p \<and> p < E \<and> A div n * n \<le> p \<and> p div 512 = A div 512 \<and> p < max (A div n * n) S + n}"

definition first_around :: "nat \<Rightarrow> nat \<Rightarrow> nat \<Rightarrow> nat" where
  "first_around A S n = max (A div n * n) S"

definition last_around :: "nat \<Rightarrow> nat \<Rightarrow> nat \<Rightarrow> nat \<Rightarrow> nat" where
  "last_around A S E n = min (min (A div 512 * 512 + 511) (E - 1)) (first_around A S n + n - 1)"


section \<open>Words as numbers\<close>

lemma small_unat: "a < 2 ^ 64 \<Longrightarrow> unat (of_nat a :: u64) = a"
  by (simp add: unat_of_nat)

lemma small_le: "a < 2 ^ 64 \<Longrightarrow> b < 2 ^ 64 \<Longrightarrow> (of_nat a :: u64) \<le> of_nat b \<longleftrightarrow> a \<le> b"
  by (simp add: word_le_nat_alt small_unat)

lemma small_max: "a < 2 ^ 64 \<Longrightarrow> b < 2 ^ 64 \<Longrightarrow> max (of_nat a :: u64) (of_nat b) = of_nat (max a b)"
  by (simp add: max_def small_le)

lemma small_min: "a < 2 ^ 64 \<Longrightarrow> b < 2 ^ 64 \<Longrightarrow> min (of_nat a :: u64) (of_nat b) = of_nat (min a b)"
  by (simp add: min_def small_le)

lemma small_min3: "a < 2 ^ 64 \<Longrightarrow> b < 2 ^ 64 \<Longrightarrow> c < 2 ^ 64 \<Longrightarrow> min (min (of_nat a :: u64) (of_nat b)) (of_nat c) = of_nat (min (min a b) c)"
  by (simp add: small_min)

lemma small_diff: "b \<le> a \<Longrightarrow> (of_nat a :: u64) - of_nat b = of_nat (a - b)"
  by (simp add: of_nat_diff)

lemma small_eq: "a < 2 ^ 64 \<Longrightarrow> (w :: u64) = of_nat a \<longleftrightarrow> unat w = a"
  using small_unat by auto

lemma small_shift: "4096 * a < 2 ^ 64 \<Longrightarrow> drop_bit 12 (of_nat (4096 * a) :: u64) = of_nat a"
proof -
  assume a: "4096 * a < 2 ^ 64"
  have "unat (drop_bit 12 (of_nat (4096 * a)) :: u64) = a" by (simp only: unsigned_drop_bit_eq small_unat [OF a]) (simp add: drop_bit_eq_div take_bit_nat_eq_self [OF a])
  then show ?thesis using a by (simp add: small_eq)
qed

lemma small_index: "a < 2 ^ 64 \<Longrightarrow> (of_nat a :: u64) AND (PTRS_PER_PTE - 1) = of_nat (a mod 512)"
  using unat_and_mask [of "of_nat a" 9] mod_le_divisor [of 512 a]
  by (subst small_eq) (simp_all add: PTRS_PER_PTE_def mask_eq_exp_minus_1 small_unat)

lemma small_down:
  assumes "a < 2 ^ 64" "j < 64"
  shows "ALIGN_DOWN (of_nat a) (of_nat (2 ^ j)) = of_nat (a div 2 ^ j * 2 ^ j)"
proof -
  have "a div 2 ^ j * 2 ^ j < 2 ^ 64" by (rule le_less_trans [OF div_times_less_eq_dividend assms(1)])
  moreover have "ALIGN_DOWN (of_nat a) (of_nat (2 ^ j)) = align64 (of_nat a) (2 ^ j)" by (simp add: ALIGN_DOWN_def align64_def)
  ultimately show ?thesis using align64_pow2 [OF assms(2), of "of_nat a"] small_unat [OF assms(1)] by (simp only: small_eq)
qed

lemma window_mask:
  assumes "4096 * a < 2 ^ 64" "j \<le> 9"
  shows "(of_nat (4096 * a) :: u64) AND (NOT (of_nat (2 ^ j) * PAGE_SIZE - 1) AND PAGE_MASK) = of_nat (4096 * (a div 2 ^ j * 2 ^ j))"
proof -
  have s: "(of_nat (2 ^ j) * PAGE_SIZE :: u64) = 2 ^ (12 + j)" by (simp add: PAGE_SIZE_def push_bit_eq_mult power_add)
  have "PAGE_MASK = NOT (mask 12)" by (simp add: PAGE_MASK_def PAGE_SIZE_def mask_eq_exp_minus_1 push_bit_eq_mult)
  moreover have "NOT (mask (12 + j)) AND NOT (mask 12) = (NOT (mask (12 + j)) :: u64)" by (rule bit_eqI) (auto simp: bit_simps)
  ultimately have "NOT (of_nat (2 ^ j) * PAGE_SIZE - 1) AND PAGE_MASK = NOT (2 ^ (12 + j) - 1)"
    using assms(2) unfolding s by (simp add: mask_u64)
  then have "(of_nat (4096 * a) :: u64) AND (NOT (of_nat (2 ^ j) * PAGE_SIZE - 1) AND PAGE_MASK) = align64 (of_nat (4096 * a)) (2 ^ (12 + j))"
    by (simp add: align64_def)
  moreover have "4096 * a div 2 ^ (12 + j) * 2 ^ (12 + j) = 4096 * (a div 2 ^ j * 2 ^ j)"
    by (simp add: power_add div_mult_mult1 [of "4096::nat" a "2 ^ j", simplified])
  moreover have "4096 * (a div 2 ^ j * 2 ^ j) < 2 ^ 64" using assms(1) div_times_less_eq_dividend [of a "2 ^ j"] by linarith
  ultimately show ?thesis using align64_pow2 [of "12 + j" "of_nat (4096 * a)"] assms small_unat [OF assms(1)] by (simp only: small_eq)
qed

section \<open>The windows\<close>

lemma block_of_first:
  assumes "S \<le> A" "j \<le> 9"
  shows "first_around A S (2 ^ j) \<le> A" "S \<le> first_around A S (2 ^ j)" "A - first_around A S (2 ^ j) < 2 ^ j"
    "first_around A S (2 ^ j) div 512 = A div 512" "A div 512 * 512 \<le> A div 2 ^ j * 2 ^ j"
proof -
  have n: "(2::nat) ^ j dvd 512" using assms(2) le_imp_power_dvd [of j 9 "2::nat"] by simp
  have d: "A div 2 ^ j * 2 ^ j + A mod 2 ^ j = A" "A mod 2 ^ j < 2 ^ j" by (rule div_mult_mod_eq) simp
  show l: "A div 512 * 512 \<le> A div 2 ^ j * 2 ^ j"
  proof -
    obtain c where c: "(512::nat) = 2 ^ j * c" using n by (auto simp: dvd_def)
    have "A div 512 * 512 div 2 ^ j * 2 ^ j = A div 512 * 512" unfolding c by simp
    then show ?thesis using div_le_mono [of "A div 512 * 512" A "2 ^ j"] mult_le_mono1 by (metis div_times_less_eq_dividend)
  qed
  have "A - first_around A S (2 ^ j) \<le> A mod 2 ^ j" using d(1) unfolding first_around_def by linarith
  then show "A - first_around A S (2 ^ j) < 2 ^ j" using d(2) by linarith
  show f: "first_around A S (2 ^ j) \<le> A" "S \<le> first_around A S (2 ^ j)" using assms(1) by (auto simp: first_around_def)
  have "A div 512 * 512 \<le> first_around A S (2 ^ j)" using l by (simp add: first_around_def)
  then have "A div 512 \<le> first_around A S (2 ^ j) div 512" using div_le_mono by (metis div_mult_self_is_m zero_less_numeral)
  then show "first_around A S (2 ^ j) div 512 = A div 512" using div_le_mono [OF f(1), of 512] by simp
qed

lemma original_numbers:
  assumes "S \<le> A" "A < E" "4096 * E \<le> 2 ^ 63" "P \<le> 2 ^ 62" "j \<le> 9"
  shows "original_fault_around \<lparr>vf_address = of_nat (4096 * A), vf_vma = \<lparr>va_start = of_nat (4096 * S), va_end = of_nat (4096 * E), va_pgoff = of_nat P\<rparr>,
      vf_pgoff = of_nat (P + (A - S))\<rparr> (push_bit (12 + j) 1)
    = (of_nat (P + (first_around A S (2 ^ j) - S)), of_nat (P + (last_around A S E (2 ^ j) - S)))"
proof -
  let ?n = "2 ^ j :: nat" and ?F = "first_around A S (2 ^ j)"
  note b = block_of_first [OF assms(1,5)]
  have n: "0 < ?n" "?n \<le> 512" using power_increasing [OF assms(5), of "2::nat"] by simp_all
  have "drop_bit 12 (push_bit (12 + j) 1 :: u64) = push_bit j 1" using assms(5) by (intro bit_eqI) (auto simp: bit_simps)
  then have nr: "drop_bit 12 (push_bit (12 + j) 1 :: u64) = of_nat ?n" by (simp add: push_bit_eq_mult)
  have lt: "4096 * A < 2 ^ 64" "4096 * S < 2 ^ 64" "4096 * E < 2 ^ 64" "4096 * ?F < 2 ^ 64" using assms b(1) by simp_all
  have a: "max ((of_nat (4096 * A) :: u64) AND (NOT (of_nat ?n * PAGE_SIZE - 1) AND PAGE_MASK)) (of_nat (4096 * S)) = of_nat (4096 * ?F)"
  proof -
    have "4096 * (A div ?n * ?n) < 2 ^ 64" using lt(1) div_times_less_eq_dividend [of A ?n] by linarith
    from small_max [OF this lt(2)] show ?thesis unfolding window_mask [OF lt(1) assms(5)] first_around_def nat_mult_max_right .
  qed
  have off: "drop_bit 12 ((of_nat (4096 * A) :: u64) - of_nat (4096 * ?F)) AND (PTRS_PER_PTE - 1) = of_nat (A - ?F)"
  proof -
    have "4096 * ?F \<le> 4096 * A" "4096 * (A - ?F) < 2 ^ 64" "A - ?F < 512" using b(1,3) n lt by simp_all
    then show ?thesis using small_diff [of "4096 * ?F" "4096 * A"] small_shift [of "A - ?F"] small_index [of "A - ?F"] by (simp add: diff_mult_distrib2)
  qed
  have start: "(of_nat (P + (A - S)) :: u64) - of_nat (A - ?F) = of_nat (P + (?F - S))"
    using b(1,2) by (subst small_diff) simp_all
  have idx: "drop_bit 12 (of_nat (4096 * ?F) :: u64) AND (PTRS_PER_PTE - 1) = of_nat (?F mod 512)"
    using lt(4) small_shift [of ?F] small_index [of ?F] by simp
  have pte: "(of_nat (P + (?F - S)) :: u64) - of_nat (?F mod 512) + PTRS_PER_PTE - 1 = of_nat (P + (?F - S) + (511 - ?F mod 512))"
  proof -
    have "?F mod 512 \<le> 511" using mod_less_divisor [of 512 ?F] by linarith
    then have "(of_nat (P + (?F - S) + (511 - ?F mod 512)) :: u64) = of_nat (P + (?F - S)) + (511 - of_nat (?F mod 512))" by (simp add: of_nat_diff)
    then show ?thesis by (simp add: PTRS_PER_PTE_def)
  qed
  have pages: "drop_bit 12 ((of_nat (4096 * E) :: u64) - of_nat (4096 * S)) + of_nat P - 1 = of_nat (P + (E - S) - 1)"
  proof -
    have "4096 * S \<le> 4096 * E" "4096 * (E - S) < 2 ^ 64" "1 \<le> P + (E - S)" using assms lt by simp_all
    then show ?thesis
      using small_diff [of "4096 * S" "4096 * E"] small_shift [of "E - S"] by (simp add: diff_mult_distrib2 of_nat_diff)
  qed
  have size: "(of_nat (P + (?F - S)) :: u64) + of_nat ?n - 1 = of_nat (P + (?F - S) + ?n - 1)"
    using n(1) by (subst of_nat_diff) (linarith, simp)
  let ?e = "P + (?F - S) + (511 - ?F mod 512)" and ?v = "P + (E - S) - 1" and ?w = "P + (?F - S) + ?n - 1"
  have "?e < 2 ^ 64" "?v < 2 ^ 64" "?w < 2 ^ 64" using assms b(1) n by simp_all
  then have m: "min (min (of_nat ?e :: u64) (of_nat ?v)) (of_nat ?w) = of_nat (min (min ?e ?v) ?w)" by (rule small_min3)
  have "?F = A div 512 * 512 + ?F mod 512" using b(4) div_mult_mod_eq [of ?F 512] by simp
  moreover have "?F mod 512 \<le> 511" using mod_less_divisor [of 512 ?F] by linarith
  ultimately have "?e = P + (A div 512 * 512 + 511 - S)" "?v = P + (E - 1 - S)" "?w = P + (?F + ?n - 1 - S)"
    using assms(1,2) b(2) n(1) by linarith+
  then have "min (min ?e ?v) ?w = P + (last_around A S E ?n - S)"
    by (simp only: last_around_def min_diff [symmetric] min_add_distrib_right)
  note m' = m [unfolded this]
  show ?thesis
    unfolding original_fault_around_def Let_def vma_pages_def vm_fault.simps vm_area.simps nr a off start idx pte pages size m' by (rule refl)
qed

lemma last_clamped:
  fixes f n i F B :: nat
  assumes "0 < n" "S \<le> F" "F \<le> A" "A < E" "B + i = A" "i < 512" "A + f = F + i"
  shows "A + (min (min (f + n) 512) (i + E - A) - 1) = min (min (B + 511) (E - 1)) (F + n - 1) + i"
    "S \<le> min (min (B + 511) (E - 1)) (F + n - 1)"
  using assms by (simp_all only: min_def, auto)

lemma shifted:
  fixes t i L :: nat
  assumes "A + t = L + i" "S \<le> L" "S \<le> A"
  shows "P + (A - S) + t - i = P + (L - S)" "i \<le> P + (A - S) + t"
  using assms by linarith+

lemma simple_numbers:
  assumes "S \<le> A" "A < E" "4096 * E \<le> 2 ^ 63" "P \<le> 2 ^ 62" "j \<le> 9"
  shows "do_fault_around \<lparr>vf_address = of_nat (4096 * A), vf_vma = \<lparr>va_start = of_nat (4096 * S), va_end = of_nat (4096 * E), va_pgoff = of_nat P\<rparr>,
      vf_pgoff = of_nat (P + (A - S))\<rparr> (push_bit (12 + j) 1)
    = (of_nat (P + (first_around A S (2 ^ j) - S)), of_nat (P + (last_around A S E (2 ^ j) - S)))"
proof -
  let ?n = "2 ^ j :: nat" and ?F = "first_around A S (2 ^ j)" and ?i = "A mod 512"
  note b = block_of_first [OF assms(1,5)]
  have n: "0 < ?n" "?n \<le> 512" using power_increasing [OF assms(5), of "2::nat"] by simp_all
  have "drop_bit 12 (push_bit (12 + j) 1 :: u64) = push_bit j 1" using assms(5) by (intro bit_eqI) (auto simp: bit_simps)
  then have nr: "drop_bit 12 (push_bit (12 + j) 1 :: u64) = of_nat ?n" by (simp add: push_bit_eq_mult)
  have lt: "4096 * A < 2 ^ 64" "4096 * S < 2 ^ 64" "4096 * E < 2 ^ 64" using assms by simp_all
  have idx: "pte_index (of_nat (4096 * A)) = of_nat ?i" unfolding pte_index_def small_shift [OF lt(1)] by (rule small_index) (use lt in simp)
  have i: "?i < 512" "?i \<le> A" "A div 512 * 512 + ?i = A" by simp_all
  have voff: "(of_nat (P + (A - S)) :: u64) - of_nat P = of_nat (A - S)" by simp
  have down: "ALIGN_DOWN (of_nat ?i) (of_nat ?n) = of_nat (?i div ?n * ?n)" by (rule small_down) (use i(1) assms(5) in simp_all)
  have vs: "A - S < 2 ^ 64" "?i < 2 ^ 64" using lt i(1) by simp_all
  have clamp: "(of_nat ?i :: u64) - min (of_nat ?i) (of_nat (A - S)) = of_nat (?i - min ?i (A - S))"
    unfolding small_min [OF vs(2,1)] by (rule small_diff) simp
  let ?f = "max (?i div ?n * ?n) (?i - min ?i (A - S))"
  have lf: "?i div ?n * ?n < 2 ^ 64" "?i - min ?i (A - S) < 2 ^ 64" by (rule le_less_trans [OF _ vs(2)], simp)+
  have frm: "max (of_nat (?i div ?n * ?n) :: u64) (of_nat (?i - min ?i (A - S))) = of_nat ?f" by (rule small_max [OF lf])
  have "(2::nat) ^ j dvd 512" using assms(5) le_imp_power_dvd [of j 9 "2::nat"] by simp
  then have "?i mod ?n = A mod ?n" by (rule mod_mod_cancel)
  then have d: "A + ?i div ?n * ?n = A div ?n * ?n + ?i" using div_mult_mod_eq [of ?i ?n] div_mult_mod_eq [of A ?n] by linarith
  have key: "A + ?f = ?F + ?i"
  proof (cases "?i \<le> A - S")
    case True
    then have "?f = ?i div ?n * ?n" by simp
    moreover have "?F = A div ?n * ?n" using True assms(1) b(5) i(3) unfolding first_around_def by linarith
    ultimately show ?thesis using d by linarith
  next
    case False
    then have "A + (?i - min ?i (A - S)) = S + ?i" using assms(1) by simp
    then show ?thesis using d unfolding first_around_def by (simp only: nat_add_max_right nat_add_max_left)
  qed
  let ?t = "min (min (?f + ?n) 512) (?i + E - A)"
  have f: "?f \<le> ?i" using div_times_less_eq_dividend [of ?i ?n] by simp
  have "1 \<le> ?f + ?n" "1 \<le> ?i + E - A" using n(1) assms(2) i(2) by linarith+
  then have t: "1 \<le> ?t" by (intro min.boundedI) simp_all
  have rest: "(of_nat ?i :: u64) + vma_pages \<lparr>va_start = of_nat (4096 * S), va_end = of_nat (4096 * E), va_pgoff = of_nat P\<rparr> - of_nat (A - S) = of_nat (?i + E - A)"
  proof -
    have "4096 * S \<le> 4096 * E" "4096 * (E - S) < 2 ^ 64" using assms lt by simp_all
    then have "vma_pages \<lparr>va_start = of_nat (4096 * S), va_end = of_nat (4096 * E), va_pgoff = of_nat P\<rparr> = of_nat (E - S)"
      using small_diff [of "4096 * S" "4096 * E"] small_shift [of "E - S"] by (simp add: vma_pages_def diff_mult_distrib2)
    moreover have "?i + (E - S) - (A - S) = ?i + E - A" "A - S \<le> ?i + (E - S)" using assms(1,2) by linarith+
    ultimately show ?thesis using small_diff [of "A - S" "?i + (E - S)"] by simp
  qed
  have "(1024::nat) < 2 ^ 64" by simp
  then have lim: "?f + ?n < 2 ^ 64" "(512::nat) < 2 ^ 64" using f i(1) n(2) by linarith+
  have lim3: "?i + E - A < 2 ^ 64" using i(2) lt(3) by linarith
  have "min (min (of_nat ?f + of_nat ?n) PTRS_PER_PTE) (of_nat (?i + E - A)) = (of_nat ?t :: u64)"
    using small_min3 [OF lim lim3] unfolding PTRS_PER_PTE_def of_nat_add of_nat_numeral .
  then have to: "min (min (of_nat ?f + of_nat ?n) PTRS_PER_PTE) (of_nat (?i + E - A)) - 1 = (of_nat (?t - 1) :: u64)"
    using small_diff [OF t] by (simp only: of_nat_1)
  have fst: "(of_nat (P + (A - S)) :: u64) + of_nat ?f - of_nat ?i = of_nat (P + (?F - S))"
  proof -
    have "P + (A - S) + ?f - ?i = P + (?F - S)" "?i \<le> P + (A - S) + ?f" using key assms(1) b(2) by linarith+
    then show ?thesis using small_diff [of ?i "P + (A - S) + ?f"] by (simp only: of_nat_add)
  qed
  have snd: "(of_nat (P + (A - S)) :: u64) + of_nat (?t - 1) - of_nat ?i = of_nat (P + (last_around A S E ?n - S))"
  proof -
    note l = last_clamped [OF n(1) b(2,1) assms(2) i(3,1) key, folded last_around_def]
    show ?thesis using small_diff [OF shifted(2) [OF l assms(1), of P]] unfolding shifted(1) [OF l assms(1), of P] of_nat_add .
  qed
  show ?thesis
    unfolding do_fault_around_def Let_def vm_fault.simps vm_area.simps nr idx voff down clamp frm rest to fst snd by (rule refl)
qed

lemma take1_numbers:
  assumes "S \<le> A" "A < E" "4096 * E \<le> 2 ^ 63" "P \<le> 2 ^ 62" "j \<le> 9"
  shows "do_fault_around_take1 \<lparr>vf_address = of_nat (4096 * A), vf_vma = \<lparr>va_start = of_nat (4096 * S), va_end = of_nat (4096 * E), va_pgoff = of_nat P\<rparr>,
      vf_pgoff = of_nat (P + (A - S))\<rparr> (push_bit (12 + j) 1)
    = (of_nat (P + (first_around A S (2 ^ j) - S)), of_nat (P + (last_around A S E (2 ^ j) - S)))"
proof -
  let ?n = "2 ^ j :: nat" and ?F = "first_around A S (2 ^ j)" and ?i = "A mod 512"
  note b = block_of_first [OF assms(1,5)]
  have n: "0 < ?n" "?n \<le> 512" using power_increasing [OF assms(5), of "2::nat"] by simp_all
  have "drop_bit 12 (push_bit (12 + j) 1 :: u64) = push_bit j 1" using assms(5) by (intro bit_eqI) (auto simp: bit_simps)
  then have nr: "drop_bit 12 (push_bit (12 + j) 1 :: u64) = of_nat ?n" by (simp add: push_bit_eq_mult)
  have lt: "4096 * A < 2 ^ 64" "4096 * S < 2 ^ 64" "4096 * E < 2 ^ 64" using assms by simp_all
  have small: "A < 2 ^ 64" "S < 2 ^ 64" "E < 2 ^ 63" using lt assms by simp_all
  have idx: "pte_index (of_nat (4096 * A)) = of_nat ?i" unfolding pte_index_def small_shift [OF lt(1)] by (rule small_index [OF small(1)])
  have lo: "(of_nat A :: u64) - of_nat ?i = of_nat (A div 512 * 512)" by (subst small_diff) (simp_all add: minus_mod_eq_div_mult)
  have hi: "(of_nat (A div 512 * 512) :: u64) + PTRS_PER_PTE - 1 = of_nat (A div 512 * 512 + 511)" by (simp add: PTRS_PER_PTE_def)
  have en: "(of_nat E :: u64) - 1 = of_nat (E - 1)" using assms(2) small_diff [of 1 E] by simp
  have wn: "(of_nat ?F :: u64) + of_nat ?n - 1 = of_nat (?F + ?n - 1)" using n(1) by (subst of_nat_diff) (linarith, simp)
  have pl: "A div 512 * 512 \<le> A" "A div ?n * ?n \<le> A" by simp_all
  then have q: "A div 512 * 512 < 2 ^ 64" "A div ?n * ?n < 2 ^ 64" "max (A div 512 * 512) S < 2 ^ 64"
    using small by (auto simp only: max_less_iff_conj intro: le_less_trans)
  have "max (max (A div 512 * 512) S) (A div ?n * ?n) = ?F" using b(5) by (simp add: first_around_def max_def)
  then have frm: "max (max (of_nat (A div 512 * 512) :: u64) (of_nat S)) (of_nat (A div ?n * ?n)) = of_nat ?F"
    by (simp only: small_max [OF q(1) small(2)] small_max [OF q(3,2)])
  have "A div 512 * 512 + 511 < 2 ^ 64" "E - 1 < 2 ^ 64" "?F + ?n - 1 < 2 ^ 64" using assms b(1) pl n by simp_all
  then have to: "min (min (of_nat (A div 512 * 512 + 511) :: u64) (of_nat (E - 1))) (of_nat (?F + ?n - 1)) = of_nat (last_around A S E ?n)"
    unfolding last_around_def by (rule small_min3)
  have "A \<le> ?F + A mod 512" using b(4) div_mult_mod_eq [of A 512] div_mult_mod_eq [of ?F 512] by linarith
  then have AF: "A + (?F + A mod 512 - A) = ?F + A mod 512" by (rule le_add_diff_inverse)
  have l: "S \<le> last_around A S E ?n" unfolding last_around_def by (rule last_clamped(2) [OF n(1) b(2,1) assms(2), of "A div 512 * 512" "A mod 512" "?F + A mod 512 - A"])
      (use AF in simp_all)
  have fst: "(of_nat (P + (A - S)) :: u64) + of_nat ?F - of_nat A = of_nat (P + (?F - S))"
    using shifted [of A ?F ?F A S P] small_diff [of A "P + (A - S) + ?F"] b(2) assms(1) by simp
  have snd: "(of_nat (P + (A - S)) :: u64) + of_nat (last_around A S E ?n) - of_nat A = of_nat (P + (last_around A S E ?n - S))"
    using shifted [of A "last_around A S E ?n" "last_around A S E ?n" A S P] small_diff [of A "P + (A - S) + last_around A S E ?n"] l assms(1) by simp
  have down: "ALIGN_DOWN (of_nat A) (of_nat ?n) = of_nat (A div ?n * ?n)" by (rule small_down [OF small(1)]) (use assms(5) in simp)
  show ?thesis
    unfolding do_fault_around_take1_def Let_def vm_fault.simps vm_area.simps nr idx small_shift [OF lt(1)] small_shift [OF lt(2)] small_shift [OF lt(3)]
      lo hi en down frm wn to fst snd by (rule refl)
qed

lemma around_between:
  assumes "S \<le> A" "A < E" "j \<le> 9"
  shows "around A S E (2 ^ j) = {first_around A S (2 ^ j)..last_around A S E (2 ^ j)}"
proof (rule set_eqI)
  fix p
  let ?n = "2 ^ j :: nat"
  note b = block_of_first [OF assms(1,3)]
  have d: "p div 512 = A div 512 \<longleftrightarrow> A div 512 * 512 \<le> p \<and> p \<le> A div 512 * 512 + 511" by (auto simp: dividend_less_div_times intro: div_nat_eqI)
  have "A div 512 * 512 \<le> first_around A S ?n" using b(5) unfolding first_around_def by linarith
  moreover have "p < first_around A S ?n + ?n \<longleftrightarrow> p \<le> first_around A S ?n + ?n - 1" by (cases "?n") auto
  ultimately show "p \<in> around A S E ?n \<longleftrightarrow> p \<in> {first_around A S ?n..last_around A S E ?n}"
    unfolding around_def last_around_def mem_Collect_eq d atLeastAtMost_iff min.bounded_iff first_around_def [symmetric]
    using assms(2) by (auto simp: first_around_def)
qed

lemma fault_numbers:
  assumes "valid_fault vmf"
  obtains A S E P where "S \<le> A" "A < E" "4096 * E \<le> 2 ^ 63" "P \<le> 2 ^ 62"
    "vmf = \<lparr>vf_address = of_nat (4096 * A), vf_vma = \<lparr>va_start = of_nat (4096 * S), va_end = of_nat (4096 * E), va_pgoff = of_nat P\<rparr>, vf_pgoff = of_nat (P + (A - S))\<rparr>"
proof -
  have page: "of_nat (4096 * (unat w div 4096)) = w \<and> unat w = 4096 * (unat w div 4096)" if "w AND (PAGE_SIZE - 1) = 0" for w :: u64
  proof -
    have "PAGE_SIZE - 1 = mask 12" by (simp add: PAGE_SIZE_def mask_eq_exp_minus_1)
    then have "unat w mod 4096 = 0" using that unat_and_mask [of w 12] by simp
    then have e: "4096 * (unat w div 4096) = unat w" by auto
    show ?thesis unfolding e by simp
  qed
  obtain a p S0 E0 o0 where v: "vmf = \<lparr>vf_address = a, vf_vma = \<lparr>va_start = S0, va_end = E0, va_pgoff = o0\<rparr>, vf_pgoff = p\<rparr>"
    by (metis vm_fault.cases vm_area.cases vm_fault.surjective vm_area.surjective unit.exhaust)
  let ?A = "unat a div 4096" and ?S = "unat S0 div 4096" and ?E = "unat E0 div 4096"
  note h = assms [unfolded valid_fault_def v Let_def vm_fault.simps vm_area.simps]
  have pa: "of_nat (4096 * ?A) = a" "unat a = 4096 * ?A" and ps: "of_nat (4096 * ?S) = S0" "unat S0 = 4096 * ?S"
    and pe: "of_nat (4096 * ?E) = E0" "unat E0 = 4096 * ?E" using h page by blast+
  have le: "?S \<le> ?A" "?A < ?E" using h pa(2) ps(2) pe(2) by (simp_all add: word_le_nat_alt word_less_nat_alt)
  have bd: "4096 * ?E \<le> 2 ^ 63" "unat o0 \<le> 2 ^ 62" using h pe(2) by (simp_all add: word_le_nat_alt push_bit_eq_mult)
  have au: "unat a < 2 ^ 64" by (rule order_less_le_trans [OF unsigned_less]) simp
  have "4096 * (?A - ?S) < 2 ^ 64" using au pa(2) by linarith
  moreover have "a - S0 = of_nat (4096 * (?A - ?S))" using pa ps le(1) by (simp add: diff_mult_distrib2 of_nat_diff)
  ultimately have "drop_bit 12 (a - S0) = of_nat (?A - ?S)" using small_shift by simp
  then have "p = of_nat (unat o0 + (?A - ?S))" using h by simp
  then show thesis using that [OF le bd] unfolding v pa(1) ps(1) pe(1) by simp
qed


lemma same_around:
  assumes "valid_fault vmf" "window_bytes fab j"
  shows "do_fault_around vmf fab = original_fault_around vmf fab"
    "do_fault_around_take1 vmf fab = original_fault_around vmf fab"
    "do_fault_around_take2 vmf fab = original_fault_around vmf fab"
proof -
  obtain A S E P where n: "S \<le> A" "A < E" "4096 * E \<le> 2 ^ 63" "P \<le> 2 ^ 62"
    "vmf = \<lparr>vf_address = of_nat (4096 * A), vf_vma = \<lparr>va_start = of_nat (4096 * S), va_end = of_nat (4096 * E), va_pgoff = of_nat P\<rparr>, vf_pgoff = of_nat (P + (A - S))\<rparr>"
    by (rule fault_numbers [OF assms(1)])
  have j: "j \<le> 9" "fab = push_bit (12 + j) 1" using assms(2) by (simp_all add: window_bytes_def)
  show s: "do_fault_around vmf fab = original_fault_around vmf fab"
    unfolding n(5) j(2) simple_numbers [OF n(1-4) j(1)] original_numbers [OF n(1-4) j(1)] by (rule refl)
  show "do_fault_around_take1 vmf fab = original_fault_around vmf fab"
    unfolding n(5) j(2) take1_numbers [OF n(1-4) j(1)] original_numbers [OF n(1-4) j(1)] by (rule refl)
  show "do_fault_around_take2 vmf fab = original_fault_around vmf fab"
    using s by (simp only: do_fault_around_take2_def do_fault_around_def)
qed

lemma around_numbers:
  assumes "valid_fault vmf" "window_bytes fab j" "do_fault_around vmf fab = (s, e)"
  shows "{unat s..unat e} = (\<lambda>p. unat (va_pgoff (vf_vma vmf)) + (p - unat (va_start (vf_vma vmf)) div 4096)) `
      around (unat (vf_address vmf) div 4096) (unat (va_start (vf_vma vmf)) div 4096) (unat (va_end (vf_vma vmf)) div 4096) (2 ^ j)"
    "s \<le> vf_pgoff vmf" "vf_pgoff vmf \<le> e" "unat e < unat s + 2 ^ j"
proof -
  obtain A S E P where n: "S \<le> A" "A < E" "4096 * E \<le> 2 ^ 63" "P \<le> 2 ^ 62"
    "vmf = \<lparr>vf_address = of_nat (4096 * A), vf_vma = \<lparr>va_start = of_nat (4096 * S), va_end = of_nat (4096 * E), va_pgoff = of_nat P\<rparr>, vf_pgoff = of_nat (P + (A - S))\<rparr>"
    by (rule fault_numbers [OF assms(1)])
  have j: "j \<le> 9" "fab = push_bit (12 + j) 1" using assms(2) by (simp_all add: window_bytes_def)
  let ?n = "2 ^ j :: nat" and ?F = "first_around A S (2 ^ j)" and ?L = "last_around A S E (2 ^ j)"
  note b = block_of_first [OF n(1) j(1)]
  have se: "s = of_nat (P + (?F - S))" "e = of_nat (P + (?L - S))"
    using assms(3) unfolding n(5) j(2) simple_numbers [OF n(1-4) j(1)] by simp_all
  have "A \<le> A div 512 * 512 + 511" using mod_less_divisor [of 512 A] div_mult_mod_eq [of A 512] by linarith
  moreover have "A \<le> E - 1" "A \<le> ?F + ?n - 1" using n(2) b(1,3) by linarith+
  ultimately have A: "A \<le> ?L" unfolding last_around_def by (intro min.boundedI)
  have "?L \<le> E - 1" "?L \<le> ?F + ?n - 1" "0 < ?n" unfolding last_around_def by (rule min.coboundedI1 [OF min.cobounded2], rule min.cobounded2, simp)
  then have L: "?L < E" "?L < ?F + ?n" using n(2) by linarith+
  have u: "unat s = P + (?F - S)" "unat e = P + (?L - S)" unfolding se using n L(1) b(1) by (subst small_unat; simp)+
  have un: "unat (of_nat (4096 * A) :: u64) div 4096 = A" "unat (of_nat (4096 * S) :: u64) div 4096 = S" "unat (of_nat (4096 * E) :: u64) div 4096 = E"
    "unat (of_nat P :: u64) = P" "unat (of_nat (P + (A - S)) :: u64) = P + (A - S)"
    using n by (subst small_unat; simp)+
  have ar: "around A S E ?n = {?F..?L}" by (rule around_between [OF n(1,2) j(1)])
  have "{P + (?F - S)..P + (?L - S)} = (\<lambda>p. P + (p - S)) ` {?F..?L}"
  proof (rule set_eqI, rule iffI)
    fix x assume "x \<in> {P + (?F - S)..P + (?L - S)}"
    then have "x = P + (x + S - P - S)" "x + S - P \<in> {?F..?L}" using b(2) A n(1) by auto
    then show "x \<in> (\<lambda>p. P + (p - S)) ` {?F..?L}" by blast
  qed auto
  then show "{unat s..unat e} = (\<lambda>p. unat (va_pgoff (vf_vma vmf)) + (p - unat (va_start (vf_vma vmf)) div 4096)) `
      around (unat (vf_address vmf) div 4096) (unat (va_start (vf_vma vmf)) div 4096) (unat (va_end (vf_vma vmf)) div 4096) (2 ^ j)"
    unfolding n(5) vm_fault.simps vm_area.simps un u ar .
  show "s \<le> vf_pgoff vmf" "vf_pgoff vmf \<le> e" unfolding n(5) vm_fault.simps word_le_nat_alt un u using b(1) A by (simp_all add: diff_le_mono)
  show "unat e < unat s + 2 ^ j" unfolding u using L(2) b(2) A n(1) by linarith
qed

section \<open>The test reports nothing\<close>

lemma fls64_bounds:
  assumes "w \<noteq> 0"
  obtains h where "fls64 w = Suc h" "2 ^ h \<le> unat w" "unat w < 2 * 2 ^ h"
proof -
  obtain b where b: "bit w b" using assms bit_eq_iff [of w 0] by auto
  then have "b \<in> set (rev [0..<64])" using bit_imp_le_length [OF b] by simp
  then have "List.find (bit w) (rev [0..<64]) \<noteq> None" using b unfolding find_None_iff by blast
  then obtain h where h: "List.find (bit w) (rev [0..<64]) = Some h" by blast
  then obtain i where i: "i < 64" "bit w (rev [0..<64] ! i)" "h = rev [0..<64] ! i" "\<And>j. j < i \<Longrightarrow> \<not> bit w (rev [0..<64] ! j)"
    unfolding find_Some_iff by auto
  have hi: "h = 63 - i" using i(1,3) by (simp add: rev_nth)
  have "\<not> bit w k" if "h < k" for k
  proof (cases "k < 64")
    case True
    have "63 - k < i" "rev [0..<64] ! (63 - k) = k" using True that hi i(1) by (simp_all add: rev_nth)
    then show ?thesis using i(4) [of "63 - k"] by simp
  next
    case False
    then show ?thesis using bit_imp_le_length [of w k] by auto
  qed
  then have "drop_bit (Suc h) w = 0" by (intro bit_eqI) (simp add: bit_simps)
  then have "unat (drop_bit (Suc h) w) = 0" by (simp only: unsigned_0)
  then have "drop_bit (Suc h) (unat w) = 0" by (simp only: unsigned_drop_bit_eq take_bit_nat_eq_self [OF unsigned_less])
  then have "unat w div 2 ^ Suc h = 0" by (simp only: drop_bit_eq_div)
  then have "unat w < 2 ^ Suc h" by (simp only: div_eq_0_iff) auto
  moreover have "bit (unat w) h" using i(2,3) by (simp add: bit_unsigned_iff)
  then have "unat w div 2 ^ h \<noteq> 0" by (auto simp: bit_iff_odd intro: gr0I)
  then have "2 ^ h \<le> unat w" by (metis div_less not_le)
  ultimately show thesis using that [of h] h by (simp add: fls64_def)
qed

lemma rounddown_window:
  assumes "2 ^ 12 \<le> unat w" "unat w < 2 ^ 21"
  obtains j where "window_bytes (rounddown_pow_of_two w) j" "unat (rounddown_pow_of_two w) \<le> unat w"
proof -
  have "w \<noteq> 0" using assms(1) by auto
  then obtain h where h: "fls64 w = Suc h" "2 ^ h \<le> unat w" "unat w < 2 * 2 ^ h" by (rule fls64_bounds)
  have "(2::nat) ^ 12 < 2 ^ Suc h" "(2::nat) ^ h < 2 ^ 21" using h(2,3) assms by simp_all
  then have b: "12 < Suc h" "h < 21" by (metis nat_power_less_imp_less zero_less_numeral)+
  have "(2::nat) ^ h < 2 ^ 64" "(push_bit h 1 :: u64) = of_nat (2 ^ h)"
    using b(2) power_strict_increasing [of h 64 "2::nat"] by (simp_all add: push_bit_eq_mult)
  then have "unat (push_bit h 1 :: u64) = 2 ^ h" by (simp only: small_unat)
  then show thesis using that [of "h - 12"] b h(1,2) by (simp add: rounddown_pow_of_two_def window_bytes_def)
qed

lemma get_random_number:
  assumes "a < b" "m * b < 2 ^ 64" "b < 2 ^ 64" "j < 64"
  shows "get_random_fa r (of_nat a) (of_nat b) (of_nat (2 ^ j)) (of_nat m) = of_nat (m * (a + unat r mod (b - a)) div 2 ^ j * 2 ^ j)"
proof -
  have u: "unat (of_nat (b - a) :: u64) = b - a" using assms(3) by (intro small_unat) linarith
  have "unat r mod (b - a) < b - a" using assms(1) by simp
  then have x: "a + unat r mod (b - a) < b" by linarith
  then have "unat r mod (b - a) < 2 ^ 64" using assms(3) by linarith
  then have "r mod of_nat (b - a) = of_nat (unat r mod (b - a))" by (simp only: small_eq unat_mod_distrib u)
  moreover have "(of_nat b :: u64) - of_nat a = of_nat (b - a)" using assms(1) by (intro small_diff) simp
  moreover have "m * (a + unat r mod (b - a)) < 2 ^ 64" by (rule le_less_trans [OF mult_le_mono2 assms(2)]) (use x in simp)
  ultimately show ?thesis using small_down [OF _ assms(4)] by (simp only: get_random_fa_def Let_def of_nat_add [symmetric] of_nat_mult [symmetric])
qed

lemma number_fault:
  assumes "S \<le> A" "A < E" "4096 * E \<le> 2 ^ 63" "P \<le> 2 ^ 62"
  shows "valid_fault \<lparr>vf_address = of_nat (4096 * A), vf_vma = \<lparr>va_start = of_nat (4096 * S), va_end = of_nat (4096 * E), va_pgoff = of_nat P\<rparr>,
      vf_pgoff = of_nat (P + (A - S))\<rparr>"
proof -
  have m: "(of_nat (4096 * x) :: u64) AND (PAGE_SIZE - 1) = 0" for x
  proof -
    have "PAGE_SIZE - 1 = mask 12" by (simp add: PAGE_SIZE_def mask_eq_exp_minus_1)
    moreover have "(of_nat (4096 * x) :: u64) = push_bit 12 (of_nat x)" by (simp add: push_bit_eq_mult)
    ultimately show ?thesis by (simp only:) (auto intro!: bit_eqI simp: bit_simps)
  qed
  have lt: "4096 * A < 2 ^ 64" "4096 * S < 2 ^ 64" "4096 * E < 2 ^ 64" "4096 * (A - S) < 2 ^ 64" "P < 2 ^ 64" using assms by simp_all
  have "(of_nat (4096 * A) :: u64) - of_nat (4096 * S) = of_nat (4096 * (A - S))"
    using assms(1) by (subst small_diff) (simp_all add: diff_mult_distrib2)
  then have o: "drop_bit 12 ((of_nat (4096 * A) :: u64) - of_nat (4096 * S)) = of_nat (A - S)" by (simp only: small_shift [OF lt(4)])
  have l: "(of_nat (4096 * S) :: u64) \<le> of_nat (4096 * A)" "(of_nat (4096 * A) :: u64) < of_nat (4096 * E)"
    using assms(1,2) by (simp_all only: small_le [OF lt(2,1)] word_less_nat_alt small_unat [OF lt(1)] small_unat [OF lt(3)])
  have c: "(of_nat (4096 * E) :: u64) \<le> push_bit 63 1" "(of_nat P :: u64) \<le> push_bit 62 1"
    unfolding word_le_nat_alt small_unat [OF lt(3)] small_unat [OF lt(5)] using assms(3,4) by (simp_all add: push_bit_eq_mult)
  show ?thesis unfolding valid_fault_def Let_def vm_fault.simps vm_area.simps m o using l c by simp
qed

lemma drawn_fault: "valid_fault (draw_vmf r)"
proof -
  define S K P where "S = 0x700000000 + unat (r 0) mod (0x800000000 - 0x700000000)" and "K = 1 + unat (r 1) mod (100 - 1)" and "P = 0 + unat (r 3) mod (100 - 0)"
  let ?d = "unat (r 2) mod (4096 * (S + K) - 4096 * S)"
  have S: "S < 0x800000000" "0 < K" "K < 100" "P < 100"
    unfolding S_def K_def P_def using mod_less_divisor [of "0x100000000" "unat (r 0)"] mod_less_divisor [of 99 "unat (r 1)"] by simp_all
  have start: "get_random_fa (r 0) 0x700000000 0x800000000 1 PAGE_SIZE = of_nat (4096 * S)"
    using get_random_number [of "0x700000000" "0x800000000" 4096 0 "r 0"] by (simp add: S_def PAGE_SIZE_def)
  have size: "get_random_fa (r 1) 1 100 1 PAGE_SIZE = of_nat (4096 * K)"
    using get_random_number [of 1 100 4096 0 "r 1"] by (simp add: K_def PAGE_SIZE_def)
  have en: "(of_nat (4096 * S) :: u64) + of_nat (4096 * K) = of_nat (4096 * (S + K))" by (simp add: algebra_simps)
  let ?A = "(4096 * S + ?d) div 4096"
  have addr: "get_random_fa (r 2) (of_nat (4096 * S)) (of_nat (4096 * (S + K))) PAGE_SIZE 1 = of_nat (4096 * ?A)"
    using get_random_number [of "4096 * S" "4096 * (S + K)" 1 12 "r 2"] S by (simp add: PAGE_SIZE_def mult.commute)
  have pgoff: "get_random_fa (r 3) 0 100 1 1 = of_nat P"
    using get_random_number [where a = 0 and b = 100 and m = 1 and j = 0 and r = "r 3"] by (simp add: P_def)
  have "?d < 4096 * (S + K) - 4096 * S" using S(2) by simp
  then have "4096 * S + ?d < (S + K) * 4096" by linarith
  then have A: "S \<le> ?A" "?A < S + K" by (linarith, simp only: less_mult_imp_div_less)
  have "4096 * ?A < 2 ^ 64" using A S by simp
  then have "drop_bit 12 ((of_nat (4096 * ?A) :: u64) - of_nat (4096 * S)) = of_nat (?A - S)"
    using A(1) small_shift [of "?A - S"] by (subst small_diff) (simp_all add: diff_mult_distrib2)
  then have "draw_vmf r = \<lparr>vf_address = of_nat (4096 * ?A), vf_vma = \<lparr>va_start = of_nat (4096 * S), va_end = of_nat (4096 * (S + K)), va_pgoff = of_nat P\<rparr>,
      vf_pgoff = of_nat (P + (?A - S))\<rparr>"
    unfolding draw_vmf_def Let_def start size en addr pgoff by (simp only: of_nat_add)
  then show ?thesis using number_fault [OF A] S by simp
qed

section \<open>Properties\<close>

definition sample_fault :: vm_fault where
  "sample_fault = \<lparr>vf_address = 0x700000003000, vf_vma = \<lparr>va_start = 0x700000001000, va_end = 0x700000012000, va_pgoff = 7\<rparr>, vf_pgoff = 9\<rparr>"

text \<open>C13. The three rewritten computations choose the window of the kernel's own for every fault in an area of user space and every size of the window up to a page table.\<close>

theorem fault_arounds_agree:
  assumes "valid_fault vmf" "window_bytes fault_around_bytes j"
  shows "do_fault_around vmf fault_around_bytes = original_fault_around vmf fault_around_bytes
    \<and> do_fault_around_take1 vmf fault_around_bytes = original_fault_around vmf fault_around_bytes
    \<and> do_fault_around_take2 vmf fault_around_bytes = original_fault_around vmf fault_around_bytes"
  using same_around [OF assms] by blast

theorem fault_arounds_agree_witness: "do_fault_around sample_fault 0x10000 = (7, 22) \<and> original_fault_around sample_fault 0x10000 = (7, 22)"
proof -
  have "valid_fault sample_fault" "window_bytes 0x10000 4" "original_fault_around sample_fault 0x10000 = (7, 22)" by code_simp+
  then show ?thesis using fault_arounds_agree [of sample_fault "0x10000" 4] by simp
qed

text \<open>C14. The window that is chosen, as offsets of the file: exactly the pages of the area that are in the fault's page table and not before the fault's aligned
  block, the block's number of pages at most, counted from the first; the page of the fault is one of them.
\<close>

theorem fault_around_pages:
  assumes "valid_fault vmf" "window_bytes fault_around_bytes j" "do_fault_around vmf fault_around_bytes = (s, e)"
  shows "{unat s..unat e} = (\<lambda>p. unat (va_pgoff (vf_vma vmf)) + (p - unat (va_start (vf_vma vmf)) div 4096)) `
      around (unat (vf_address vmf) div 4096) (unat (va_start (vf_vma vmf)) div 4096) (unat (va_end (vf_vma vmf)) div 4096) (2 ^ j)
    \<and> s \<le> vf_pgoff vmf \<and> vf_pgoff vmf \<le> e \<and> unat e < unat s + 2 ^ j"
  using around_numbers [OF assms] by blast

theorem fault_around_pages_witness: "(7::u64) \<le> vf_pgoff sample_fault \<and> vf_pgoff sample_fault \<le> 22 \<and> (22::nat) < 7 + 2 ^ 4"
proof -
  have "valid_fault sample_fault" "window_bytes 0x10000 4" "do_fault_around sample_fault 0x10000 = (7, 22)" by code_simp+
  from fault_around_pages [OF this] show ?thesis by simp
qed

text \<open>C15. Whatever the random numbers, a test passes: the generator's own checks do not fire, and the two computations agree.\<close>


theorem fault_test_passes: "do_test r = Some True"
proof -
  let ?w = "get_random_fa (r 4) PAGE_SIZE (PTRS_PER_PTE * PAGE_SIZE) 1 1"
  have w: "?w = of_nat (4096 + unat (r 4) mod (2097152 - 4096))"
    using get_random_number [of 4096 2097152 1 0 "r 4"] by (simp add: PAGE_SIZE_def PTRS_PER_PTE_def)
  have "unat (r 4) mod (2097152 - 4096) < 2097152 - 4096" by simp
  then have "unat ?w = 4096 + unat (r 4) mod (2097152 - 4096)" unfolding w by (intro small_unat) simp
  then have "2 ^ 12 \<le> unat ?w" "unat ?w < 2 ^ 21" by simp_all
  then obtain j where "window_bytes (rounddown_pow_of_two ?w) j" by (rule rounddown_window)
  then have e: "do_fault_around (draw_vmf r) (rounddown_pow_of_two ?w) = original_fault_around (draw_vmf r) (rounddown_pow_of_two ?w)"
    by (rule same_around(1) [OF drawn_fault])
  have "gen_vmf r = Some (draw_vmf r)"
    using drawn_fault [of r] unfolding gen_vmf_def valid_fault_def Let_def by (auto simp: not_le not_less add.commute)
  then show ?thesis unfolding do_test_def Let_def by (simp add: e)
qed

end
