(* ===== verification/Vm_Flags.thy ===== *)
theory Vm_Flags
  imports Vma_Dev
begin

text \<open>
  \<open>tools/vm_flags.cc\<close>, the program that names the flags of a number on its command line, as \<open>random/shared.c\<close> names those the kernel module delivers. Its
  table is a \<open>std::map\<close>, which is ordered by the flag and keeps the first of two entries with the same one.
\<close>

section \<open>The table\<close>

text \<open>The initialiser has the entries of the table in \<open>random/shared.c\<close>, \<open>VM_PKEY_SHIFT\<close> with the value 32 included.\<close>

definition flag_pairs :: "(u64 \<times> string) list" where
  "flag_pairs = flags_map"

fun map_insert :: "u64 \<Rightarrow> string \<Rightarrow> (u64 \<times> string) list \<Rightarrow> (u64 \<times> string) list" where
  "map_insert k v [] = [(k, v)]"
| "map_insert k v ((k', v') # m) =
     (if k < k' then (k, v) # (k', v') # m else if k = k' then (k', v') # m else (k', v') # map_insert k v m)"

definition flag_map :: "(u64 \<times> string) list" where
  "flag_map = fold (\<lambda>(k, v). map_insert k v) flag_pairs []"

section \<open>The program\<close>

text \<open>The loop is that of \<open>random/shared.c\<close> over the other table.\<close>

definition name_flags :: "u64 \<Rightarrow> string" where
  "name_flags flags =
     (if flags = 0 then ''VM_NONE'' @ newline
      else
        let (ns, rest) = flags_loop flag_map flags
        in concat (map (\<lambda>n. n @ '' '') ns) @ newline @ (if rest \<noteq> 0 then ''INVALID: '' @ fmt_lu rest @ '' remains.'' @ newline else []))"

text \<open>
  \<open>std::stoul(s, nullptr, 16)\<close>: \<open>strtoul\<close> with the cases that throw. After white space and a sign comes an optional \<open>0x\<close>; without a digit behind it
  the number is its zero. What follows the digits is ignored. A minus sign negates the value as an unsigned one.
\<close>

datatype stoul_error = Invalid_Argument | Out_Of_Range

definition hex_prefix :: "string \<Rightarrow> bool" where
  "hex_prefix s \<longleftrightarrow> take 2 s = ''0x'' \<or> take 2 s = ''0X''"

definition stoul16 :: "string \<Rightarrow> stoul_error + u64" where
  "stoul16 s =
     (let (neg, r) = scan_sign (dropWhile is_space s);
          ds = takeWhile is_hex_digit (if hex_prefix r then drop 2 r else r);
          n = hex_value ds
      in if ds = [] \<and> \<not> hex_prefix r then Inl Invalid_Argument
         else if n \<ge> 2 ^ 64 then Inl Out_Of_Range
         else Inr (if neg then - of_nat n else of_nat n))"

text \<open>The status and what is printed on \<open>std::cout\<close>, or the exception that nothing catches, which ends the program by \<open>abort\<close>.\<close>

definition vm_flags_main :: "string list \<Rightarrow> stoul_error + int \<times> string" where
  "vm_flags_main argv = (case argv of
      _ # arg # _ \<Rightarrow> (case stoul16 arg of Inl e \<Rightarrow> Inl e | Inr flags \<Rightarrow> Inr (0, name_flags flags))
    | _ \<Rightarrow> Inr (1, []))"

section \<open>The table as the loop sees it\<close>

definition map_bits :: "(nat \<times> string) list" where
  "map_bits = zip ([0..<11] @ [12..<38]) (map snd flag_map)"

lemma map_bits_map: "flag_map = map (\<lambda>(k, n). (push_bit k 1, n)) map_bits"
  by code_simp

lemma map_bits_firsts: "firsts map_bits = map_bits"
  by code_simp

lemma map_bits_range: "list_all (\<lambda>e. fst e < 64) map_bits"
  by code_simp

lemma map_bits_set: "fst ` set map_bits = fst ` set flag_bits"
proof -
  have "map fst map_bits = [0..<11] @ [12..<38]" by code_simp
  moreover have "set (map fst flag_bits) = set ([0..<11] @ [12..<24] @ [25..<32] @ [5] @ [32..<37] @ [24, 37])"
    by (rule arg_cong [of _ _ set]) code_simp
  moreover have "set ([0..<11] @ [12..<38]) = set ([0..<11] @ [12..<24] @ [25..<32] @ [5::nat] @ [32..<37] @ [24, 37])" by code_simp
  ultimately show ?thesis unfolding set_map [symmetric] by simp
qed

lemma name_loop_result:
  "flags_loop flag_map flags = (map snd (filter (\<lambda>(f, n). flags AND f \<noteq> 0) flag_map), flags AND NOT KNOWN_FLAGS)"
proof -
  obtain rest where r: "flags_loop flag_map flags = (map snd (filter (\<lambda>e. bit flags (fst e)) map_bits), rest)"
    "\<forall>j. bit rest j \<longleftrightarrow> bit flags j \<and> j \<notin> fst ` set flag_bits"
    using flags_loop_spec [OF map_bits_range, of flags] unfolding map_bits_map [symmetric] map_bits_firsts map_bits_set by blast
  have "rest = flags AND NOT KNOWN_FLAGS" using r(2) by (intro bit_eqI) (simp add: bit_simps bit_KNOWN_FLAGS)
  moreover have "filter (\<lambda>e. bit flags (fst e)) map_bits = filter (\<lambda>e. flags AND push_bit (fst e) 1 \<noteq> 0) map_bits"
    using map_bits_range and_single by (intro filter_cong) (auto simp: list_all_iff)
  then have "map snd (filter (\<lambda>e. bit flags (fst e)) map_bits) = map snd (filter (\<lambda>(f, n). flags AND f \<noteq> 0) flag_map)"
    by (simp add: map_bits_map filter_map comp_def split_beta)
  ultimately show ?thesis using r(1) by simp
qed

section \<open>The number on the command line\<close>

lemma stoul16_digits:
  assumes "set ds \<subseteq> digit_chr ` {..<16}" "ds \<noteq> []" "r = [] \<or> \<not> is_hex_digit (hd r) \<and> hd r \<noteq> CHR ''x'' \<and> hd r \<noteq> CHR ''X''" "base_val 16 ds < 2 ^ 64"
  shows "stoul16 (ds @ r) = Inr (of_nat (base_val 16 ds))" "stoul16 (''0x'' @ ds @ r) = Inr (of_nat (base_val 16 ds))"
proof -
  obtain c cs where d: "ds = c # cs" using assms(2) by (cases ds) simp_all
  note c = digit_chr_not [of c]
  have sg: "scan_sign (dropWhile is_space (ds @ r)) = (False, ds @ r)" using assms(1) d c by (simp add: scan_sign_def)
  have "hex_digit x \<noteq> None" if "x \<in> set ds" for x using assms(1) that by auto
  then have t: "takeWhile is_hex_digit (ds @ r) = ds"
    using assms(3) by (subst takeWhile_append2) (auto simp: is_hex_digit_def takeWhile_stop)
  have v: "hex_value ds = base_val 16 ds" using hex_value_digits [OF assms(1), of 0] by (simp add: hex_value_def base_val_def)
  have "cs @ r = [] \<or> hd (cs @ r) \<noteq> CHR ''x'' \<and> hd (cs @ r) \<noteq> CHR ''X''"
    using assms(1,3) d digit_chr_not [of "hd cs"] by (cases cs) auto
  then have p: "\<not> hex_prefix (ds @ r)" using d by (cases "cs @ r") (auto simp: hex_prefix_def numeral_2_eq_2)
  show "stoul16 (ds @ r) = Inr (of_nat (base_val 16 ds))" using p assms(2,4) v by (simp add: stoul16_def sg t Let_def)
  have "\<not> is_space (CHR ''0'')" "scan_sign (''0x'' @ ds @ r) = (False, ''0x'' @ ds @ r)" by (code_simp, simp add: scan_sign_def)
  then show "stoul16 (''0x'' @ ds @ r) = Inr (of_nat (base_val 16 ds))"
    using assms(2,4) v t by (simp add: stoul16_def Let_def hex_prefix_def)
qed

section \<open>Properties\<close>

text \<open>C16. Both programs name the same flags: \<open>tools/vm_flags.cc\<close> prints the names of the bits that are set in increasing order, each once, and reports the bits
  without a name; its table has the names of \<open>random/shared.c\<close> except \<open>VM_PKEY_SHIFT\<close>, which neither ever prints.\<close>

theorem vm_flags_agree:
  "name_flags flags = (if flags = 0 then ''VM_NONE'' @ newline
     else concat (map (\<lambda>(f, n). n @ '' '') (filter (\<lambda>(f, n). flags AND f \<noteq> 0) flag_map)) @ newline
       @ (if flags AND NOT KNOWN_FLAGS \<noteq> 0 then ''INVALID: '' @ fmt_lu (flags AND NOT KNOWN_FLAGS) @ '' remains.'' @ newline else []))
   \<and> sorted_wrt (<) (map fst flag_map)
   \<and> set flag_map = {(f, n). (f, n) \<in> set flags_map \<and> n \<noteq> ''VM_PKEY_SHIFT''}
   \<and> set (fst (flags_loop flag_map flags)) = set (fst (flags_loop flags_map flags))"
proof (intro conjI)
  show s: "set flag_map = {(f, n). (f, n) \<in> set flags_map \<and> n \<noteq> ''VM_PKEY_SHIFT''}"
  proof -
    have "{(f, n). (f, n) \<in> set flags_map \<and> n \<noteq> ''VM_PKEY_SHIFT''} = set (filter (\<lambda>(f, n). n \<noteq> ''VM_PKEY_SHIFT'') flags_map)" by auto
    also have "\<dots> = set flag_map" by code_simp
    finally show ?thesis by (rule sym)
  qed
  show "set (fst (flags_loop flag_map flags)) = set (fst (flags_loop flags_map flags))"
    unfolding name_loop_result flags_loop_result fst_conv set_map set_filter s by (rule arg_cong [of _ _ "image snd"]) auto
qed (simp add: name_flags_def name_loop_result comp_def case_prod_unfold, code_simp)

text \<open>C17. What the kernel module prints for a mapping, with or without \<open>0x\<close> before it and a line end behind it, is an argument that the program understands:
  it names the flags of that mapping.\<close>

theorem vm_flags_reads_module:
  "vm_flags_main (p # fmt_lx flags # args) = Inr (0, name_flags flags)
   \<and> vm_flags_main (p # (fmt_lx flags @ newline) # args) = Inr (0, name_flags flags)
   \<and> vm_flags_main (p # (''0x'' @ fmt_lx flags) # args) = Inr (0, name_flags flags)"
proof -
  let ?d = "to_base 16 (unat flags)"
  have v: "base_val 16 ?d = unat flags" by (rule base_val_to_base) simp_all
  have s: "set ?d \<subseteq> digit_chr ` {..<16}" using to_base_set [of 16 "unat flags"] by simp
  have "unat flags < 2 ^ 64" by (rule order_less_le_trans [OF unsigned_less]) simp
  moreover have "\<not> is_hex_digit (CHR 0x0A)" by code_simp
  ultimately show ?thesis
    using stoul16_digits [OF s to_base_nonempty, of "[]"] stoul16_digits [OF s to_base_nonempty, of newline]
    by (simp add: vm_flags_main_def fmt_lx_def v newline_def)
qed

end
