(* ===== verification/Private_Watch.thy ===== *)
theory Private_Watch
  imports Read_Pageflags Vm_Prog
begin

text \<open>
  The experiment with \<open>MAP_PRIVATE\<close>, \<open>read-pageflags/map-private.cc\<close>, and the program that changes its file from outside, \<open>read-pageflags/write-test.cc\<close>. Two
  threads, one with a shared and one with a private mapping of the file, look at their page twice a second and report what has changed about it. A thread is a
  machine: the input of a turn is what it reads of its page, the output what it does. The two share nothing but the file, so any input is possible.
  The options are as compiled: \<open>WRITE_PRIVATE_MAPPING\<close>, \<open>MASK_FLAGS\<close> and \<open>READ_FAULT_PRIVATE\<close> are defined, the other two are not.
\<close>

section \<open>The state of a page\<close>

record page_state =
  ps_ptr :: u64
  ps_pagemap :: u64
  ps_pfn :: u64
  ps_kpageflags :: u64
  ps_mapcount :: u64
  ps_mapfields :: map_data

definition no_mapdata :: map_data where
  "no_mapdata = \<lparr>md_perms = [], md_offset = 0, md_inode = 0, md_name = []\<rparr>"

text \<open>
  The constructor. The four files are read one after the other, and the page may change in between: \<open>env i\<close> is what they hold at the time of reading \<open>i\<close>. Without a
  frame the mapping's fields are left as they were, \<open>junk\<close>.
\<close>

definition read_state :: "(nat \<Rightarrow> procfs) \<Rightarrow> map_data \<Rightarrow> string \<Rightarrow> u64 \<Rightarrow> cerr + page_state" where
  "read_state env junk buf ptr =
     (let pagemap = read_pagemap (env 0) ptr; pfn = extract_pfn pagemap;
          st = \<lparr>ps_ptr = ptr, ps_pagemap = pagemap, ps_pfn = pfn, ps_kpageflags = 0, ps_mapcount = 0, ps_mapfields = junk\<rparr>
      in if pfn = INVALID_VALUE then Inr st
         else sbind (read_mapdata (env 3) buf ptr) (\<lambda>md. Inr (st\<lparr>ps_kpageflags := read_kpageflags (env 1) pfn,
           ps_mapcount := read_mapcount (env 2) pfn, ps_mapfields := (case md of None \<Rightarrow> no_mapdata | Some d \<Rightarrow> d)\<rparr>)))"

text \<open>\<open>operator==\<close> and \<open>operator!=\<close>\<close>

definition same_state :: "page_state \<Rightarrow> page_state \<Rightarrow> bool" where
  "same_state a b \<longleftrightarrow> ps_pagemap a = ps_pagemap b \<and> ps_pfn a = ps_pfn b \<and> ps_kpageflags a = ps_kpageflags b \<and> ps_mapcount a = ps_mapcount b"

definition changed :: "page_state \<Rightarrow> page_state \<Rightarrow> bool" where
  "changed a b \<longleftrightarrow> \<not> same_state a b"

definition masked :: "kpf \<Rightarrow> page_state \<Rightarrow> page_state" where
  "masked kpf st =
     (if ps_kpageflags st = INVALID_VALUE then st
      else st\<lparr>ps_kpageflags := fold (\<lambda>nm fl. fl AND NOT (push_bit (kpf nm) 1)) [''DIRTY'', ''ACTIVE'', ''REFERENCED'', ''WRITEBACK'', ''LRU''] (ps_kpageflags st)\<rparr>)"

definition report_text :: "kpf \<Rightarrow> devices \<Rightarrow> page_state \<Rightarrow> string \<Rightarrow> cerr + (bool \<times> string)" where
  "report_text kpf devs st descr =
     print_flags_virt_precalc kpf devs (ps_ptr st) (ps_pagemap st) (ps_pfn st) (ps_kpageflags st) (ps_mapcount st) (Some (ps_mapfields st)) descr"

section \<open>The threads\<close>

definition after_char :: "char \<Rightarrow> char" where
  "after_char chr = (if \<not> chr_between (CHR ''a'') (CHR ''z'') chr then CHR ''a'' else if chr = CHR ''z'' then CHR ''a'' else char_of ((of_char chr :: nat) + 1))"

datatype deed = Put nat char | Touch nat | Delay nat | Sync | Look string | Print string | Report string page_state

text \<open>A turn of the thread with the shared mapping; its state is \<open>prev\<close> and \<open>curr_chr\<close>. \<open>count\<close> is never looked at.\<close>

definition shared_turn :: "kpf \<Rightarrow> page_state \<Rightarrow> page_state \<times> char \<Rightarrow> deed list \<times> (page_state \<times> char)" where
  "shared_turn kpf latest st =
     (let (prev, curr_chr) = st; ch = changed (masked kpf prev) (masked kpf latest)
      in ([Put 0 curr_chr, Delay 500] @ (if ch then [Report ''SHARED changed ptr'' latest] else []) @ [Sync],
          (if ch then latest else prev, after_char curr_chr)))"

text \<open>
  A turn of the other thread: what it reads of its page before and after it touches it, and the second byte, which it looks at in every tenth turn. Its state is
  \<open>prev\<close> and \<open>count\<close>, an \<open>int\<close> that does not overflow in the first thirty years.
\<close>

definition private_turn :: "kpf \<Rightarrow> page_state \<times> page_state \<times> char \<Rightarrow> page_state \<times> nat \<Rightarrow> deed list \<times> (page_state \<times> nat)" where
  "private_turn kpf inp st =
     (let (pre_read_fault, latest, chr) = inp; (prev, count) = st; ch = changed (masked kpf prev) (masked kpf latest)
      in ([Touch 0]
          @ (if ch then (if count \<noteq> 0 \<and> count mod 10 = 0 then [Print (''PRIVATE write'' @ newline)] else [])
               @ (if changed (masked kpf pre_read_fault) (masked kpf latest) then [Print (''PRIVATE read'' @ newline)] else [])
               @ [Report ''PRIVATE changed ptr'' latest] else [])
          @ [Delay 500]
          @ (if (count + 1) mod 10 = 0 then [Put 1 (after_char chr)] else []),
          (if ch then latest else prev, count + 1)))"

fun turns :: "('i \<Rightarrow> 's \<Rightarrow> deed list \<times> 's) \<Rightarrow> 'i list \<Rightarrow> 's \<Rightarrow> deed list \<times> 's" where
  "turns f [] st = ([], st)"
| "turns f (i # is) st = (let (ds, st) = f i st; (ds', st) = turns f is st in (ds @ ds', st))"

text \<open>
  A thread from its start: \<open>mmap\<close> may fail, which throws and ends the process. Otherwise the library prints the page, and what the thread reads of it then is the first
  \<open>prev\<close>. The loops do not end; \<open>seen\<close> are the turns so far.
\<close>

definition thread_of :: "(page_state \<Rightarrow> 's) \<Rightarrow> ('i \<Rightarrow> 's \<Rightarrow> deed list \<times> 's) \<Rightarrow> string \<Rightarrow> u64 option \<Rightarrow> page_state \<Rightarrow> 'i list \<Rightarrow> cerr + deed list" where
  "thread_of init f descr strptr first seen =
     (case strptr of None \<Rightarrow> Inl Abort | Some ptr \<Rightarrow> Inr (Look descr # fst (turns f seen (init first))))"

definition shared_thread :: "kpf \<Rightarrow> u64 option \<Rightarrow> page_state \<Rightarrow> page_state list \<Rightarrow> cerr + deed list" where
  "shared_thread kpf = thread_of (\<lambda>first. (first, CHR ''a'')) (shared_turn kpf) ''SHARED first ptr''"

definition private_thread :: "kpf \<Rightarrow> u64 option \<Rightarrow> page_state \<Rightarrow> (page_state \<times> page_state \<times> char) list \<Rightarrow> cerr + deed list" where
  "private_thread kpf = thread_of (\<lambda>first. (first, 0)) (private_turn kpf) ''PRIVATE first ptr''"

section \<open>The file\<close>

text \<open>\<open>op\<close> and \<open>mm\<close> are the answers to \<open>open\<close> and \<open>mmap\<close>; a refused \<open>open\<close> is noticed by \<open>mmap\<close>.\<close>

definition map_test_file :: "(string \<Rightarrow> int) \<Rightarrow> (map_flag list \<Rightarrow> int \<Rightarrow> u64) \<Rightarrow> map_flag \<Rightarrow> bool \<Rightarrow> u64 option" where
  "map_test_file op mm kind populate =
     (let fd = op ''test2.txt''; ret = mm (kind # (if populate then [MAP_POPULATE] else [])) fd
      in if ret = MAP_FAILED then None else Some ret)"

definition map_shared :: "(string \<Rightarrow> int) \<Rightarrow> (map_flag list \<Rightarrow> int \<Rightarrow> u64) \<Rightarrow> bool \<Rightarrow> u64 option" where
  "map_shared op mm = map_test_file op mm MAP_SHARED"

definition map_private :: "(string \<Rightarrow> int) \<Rightarrow> (map_flag list \<Rightarrow> int \<Rightarrow> u64) \<Rightarrow> bool \<Rightarrow> u64 option" where
  "map_private op mm = map_test_file op mm MAP_PRIVATE"

text \<open>\<open>None\<close> is a file that does not exist.\<close>

definition setup_file :: "string option \<Rightarrow> string option" where
  "setup_file f = (case f of None \<Rightarrow> Some (''foo'' @ newline) | Some c \<Rightarrow> Some c)"

text \<open>The file after the setup, and what the two threads have done in the turns they have had.\<close>

definition watch_main :: "kpf \<Rightarrow> (string \<Rightarrow> int) \<Rightarrow> (map_flag list \<Rightarrow> int \<Rightarrow> u64) \<Rightarrow> nat \<Rightarrow> page_state \<times> page_state list
    \<Rightarrow> page_state \<times> (page_state \<times> page_state \<times> char) list \<Rightarrow> string option \<Rightarrow> string option \<times> (cerr + deed list \<times> deed list)" where
  "watch_main kpf op mm uid s1 s2 f =
     (setup_file f,
      if uid \<noteq> 0 then Inl (Exit 1)
      else sbind (shared_thread kpf (map_shared op mm True) (fst s1) (snd s1)) (\<lambda>ds1.
           sbind (private_thread kpf (map_private op mm False) (fst s2) (snd s2)) (\<lambda>ds2. Inr (ds1, ds2))))"

section \<open>Changing the file from outside\<close>

text \<open>
  The four ways of \<open>write-test.cc\<close>. \<open>wr\<close> says whether the file may be written, and \<open>granted\<close> whether \<open>mmap\<close> succeeds; neither is tested. A fault is \<open>OutOfBounds\<close>. A
  stream that cannot be opened takes nothing.
\<close>

definition foo :: string where "foo = ''foo'' @ newline"

definition overwrite_file :: "bool \<Rightarrow> string option \<Rightarrow> string option" where
  "overwrite_file wr f = (if wr then Some foo else f)"

definition append_file :: "bool \<Rightarrow> string option \<Rightarrow> string option" where
  "append_file wr f = (if wr then Some ((case f of None \<Rightarrow> [] | Some c \<Rightarrow> c) @ foo) else f)"

definition poke :: "nat \<Rightarrow> char \<Rightarrow> string \<Rightarrow> string" where
  "poke i x c = (if i < length c then c[i := x] else c @ replicate (i - length c) (CHR 0x00) @ [x])"

definition seek_update_file :: "bool \<Rightarrow> string option \<Rightarrow> cerr + string option" where
  "seek_update_file wr f = (case f of None \<Rightarrow> Inl NullDeref | Some c \<Rightarrow> if wr then Inr (Some (poke 1 (CHR ''y'') c)) else Inl NullDeref)"

definition bump :: "char \<Rightarrow> char" where
  "bump c = (if c = CHR ''z'' then CHR ''a'' else char_of ((of_char c :: nat) + 1))"

text \<open>A page of the file behind its end cannot be used; bytes behind its end on the last page do not belong to it.\<close>

definition shared_mmap :: "bool \<Rightarrow> bool \<Rightarrow> string option \<Rightarrow> cerr + string option" where
  "shared_mmap wr granted f = (case f of
      None \<Rightarrow> Inl OutOfBounds
    | Some c \<Rightarrow> if \<not> wr \<or> \<not> granted \<or> c = [] then Inl OutOfBounds
        else Inr (Some (if 2 < length c then c[2 := bump (c ! 2)] else c)))"

definition write_test_main :: "bool \<Rightarrow> bool \<Rightarrow> string list \<Rightarrow> string option \<Rightarrow> cerr + int \<times> string option" where
  "write_test_main wr granted argv f = (case argv of
      _ # choice # _ \<Rightarrow>
        if choice = ''overwrite'' then Inr (0, overwrite_file wr f)
        else if choice = ''mmap'' then sbind (shared_mmap wr granted f) (\<lambda>f. Inr (0, f))
        else if choice = ''append'' then Inr (0, append_file wr f)
        else if choice = ''seek'' then sbind (seek_update_file wr f) (\<lambda>f. Inr (0, f))
        else Inr (1, f)
    | _ \<Rightarrow> Inr (1, f))"

section \<open>What is reported\<close>

text \<open>What two states are compared by.\<close>

definition gist :: "kpf \<Rightarrow> page_state \<Rightarrow> u64 \<times> u64 \<times> u64 \<times> u64" where
  "gist kpf st = (let m = masked kpf st in (ps_pagemap m, ps_pfn m, ps_kpageflags m, ps_mapcount m))"

fun reported :: "deed list \<Rightarrow> page_state list" where
  "reported [] = []"
| "reported (Report s st # ds) = st # reported ds"
| "reported (_ # ds) = reported ds"

lemma reported_append [simp]: "reported (ds @ ds') = reported ds @ reported ds'"
  by (induction ds rule: reported.induct) simp_all

lemma changed_gist: "changed (masked kpf a) (masked kpf b) \<longleftrightarrow> gist kpf a \<noteq> gist kpf b"
  by (auto simp: changed_def same_state_def gist_def Let_def)

lemma shared_reports:
  "map (gist kpf) (prev # reported (fst (turns (shared_turn kpf) seen (prev, c)))) = remdups_adj (map (gist kpf) (prev # seen))"
proof (induction seen arbitrary: prev c)
  case (Cons s seen)
  show ?case
    using Cons [of "if gist kpf prev \<noteq> gist kpf s then s else prev" "after_char c"]
    by (simp add: shared_turn_def Let_def changed_gist split_beta split: if_splits)
qed simp

lemma private_turn_reports:
  "reported (fst (private_turn kpf (p, q, c) (prev, n))) = (if gist kpf prev \<noteq> gist kpf q then [q] else [])"
  "snd (private_turn kpf (p, q, c) (prev, n)) = (if gist kpf prev \<noteq> gist kpf q then q else prev, n + 1)"
  by (simp_all add: private_turn_def changed_gist)

lemma private_reports:
  "map (gist kpf) (prev # reported (fst (turns (private_turn kpf) seen (prev, n)))) = remdups_adj (map (gist kpf) (prev # map (fst \<circ> snd) seen))"
proof (induction seen arbitrary: prev n)
  case (Cons s seen)
  obtain p q c where s: "s = (p, q, c)" by (cases s)
  show ?case
    using Cons [of "if gist kpf prev \<noteq> gist kpf q then q else prev" "n + 1"] private_turn_reports [of kpf p q c prev n]
    by (simp add: s split_beta split: if_splits)
qed simp

text \<open>The letters that are written to the second byte.\<close>

fun written :: "deed list \<Rightarrow> char list" where
  "written [] = []"
| "written (Put i c # ds) = c # written ds"
| "written (_ # ds) = written ds"

lemma written_append [simp]: "written (ds @ ds') = written ds @ written ds'"
  by (induction ds rule: written.induct) simp_all

lemma private_writes:
  "written (fst (turns (private_turn kpf) seen (prev, n)))
    = map (\<lambda>i. after_char (snd (snd (seen ! i)))) (filter (\<lambda>i. (n + i + 1) mod 10 = 0) [0..<length seen])"
proof (induction seen arbitrary: prev n)
  case (Cons s seen)
  obtain p q c where s: "s = (p, q, c)" by (cases s)
  have w: "written (fst (private_turn kpf s (prev, n))) = (if (n + 1) mod 10 = 0 then [after_char c] else [])"
    by (simp add: s private_turn_def Let_def)
  have "[0..<length (s # seen)] = 0 # map Suc [0..<length seen]" by (simp only: length_Cons map_Suc_upt upt_conv_Cons zero_less_Suc)
  then show ?case
    using w private_turn_reports(2) [of kpf p q c prev n] Cons
    by (simp add: s split_beta filter_map comp_def)
qed simp

text \<open>The bits that are masked do not count.\<close>

lemma gist_noise:
  assumes "ps_kpageflags st \<noteq> INVALID_VALUE" "st' = st\<lparr>ps_kpageflags := fl\<rparr>" "fl \<noteq> INVALID_VALUE"
    "\<And>i. i \<notin> {kpf ''DIRTY'', kpf ''ACTIVE'', kpf ''REFERENCED'', kpf ''WRITEBACK'', kpf ''LRU''} \<Longrightarrow> bit fl i \<longleftrightarrow> bit (ps_kpageflags st) i"
  shows "gist kpf st' = gist kpf st"
proof -
  have "ps_kpageflags (masked kpf st') = ps_kpageflags (masked kpf st)"
    using assms(1,3,4) unfolding assms(2) masked_def by (intro bit_eqI) (auto simp: bit_simps)
  then show ?thesis using assms(1,3) unfolding assms(2) by (simp add: gist_def masked_def)
qed

section \<open>Properties\<close>

text \<open>C18. Each thread of \<open>map-private.cc\<close> reports exactly the changes: whatever it reads of its page in its turns, the first state and the reported ones, compared as
  the program compares them, are the states it has read without the repetitions that follow one another. So nothing is reported twice, no change is lost, and what is
  masked is never the reason for a report.
\<close>

theorem watch_reports_changes:
  "shared_thread kpf (Some a) first seen = Inr ds1 \<Longrightarrow> private_thread kpf (Some b) first' seen' = Inr ds2 \<Longrightarrow>
    map (gist kpf) (first # reported ds1) = remdups_adj (map (gist kpf) (first # seen))
    \<and> map (gist kpf) (first' # reported ds2) = remdups_adj (map (gist kpf) (first' # map (fst \<circ> snd) seen'))
    \<and> written ds2 = map (\<lambda>i. after_char (snd (snd (seen' ! i)))) (filter (\<lambda>i. (i + 1) mod 10 = 0) [0..<length seen'])"
  using shared_reports [of kpf first seen "CHR ''a''"] private_reports [of kpf first' seen' 0] private_writes [of kpf seen' first' 0]
  by (auto simp: shared_thread_def private_thread_def thread_of_def)

definition sample_state :: "u64 \<Rightarrow> page_state" where
  "sample_state fl = \<lparr>ps_ptr = 0x1000, ps_pagemap = 0x8000000000000005, ps_pfn = 5, ps_kpageflags = fl, ps_mapcount = 1, ps_mapfields = no_mapdata\<rparr>"

definition sample_kpf :: kpf where
  "sample_kpf s = (if s = ''DIRTY'' then 4 else if s = ''ACTIVE'' then 6 else if s = ''REFERENCED'' then 2 else if s = ''WRITEBACK'' then 8 else 5)"

theorem watch_reports_changes_witness:
  "\<exists>ds1. shared_thread sample_kpf (Some 0x1000) (sample_state 0) [sample_state 0x10, sample_state 0x800, sample_state 0x810] = Inr ds1
    \<and> map (gist sample_kpf) (reported ds1) = [gist sample_kpf (sample_state 0x800)]"
proof -
  obtain ds1 where d: "shared_thread sample_kpf (Some 0x1000) (sample_state 0) [sample_state 0x10, sample_state 0x800, sample_state 0x810] = Inr ds1"
    by (simp add: shared_thread_def thread_of_def)
  have p: "private_thread sample_kpf (Some 0x1000) (sample_state 0) [] = Inr [Look ''PRIVATE first ptr'']" by (simp add: private_thread_def thread_of_def)
  have "map (gist sample_kpf) [sample_state 0, sample_state 0x10, sample_state 0x800, sample_state 0x810]
      = [gist sample_kpf (sample_state 0), gist sample_kpf (sample_state 0), gist sample_kpf (sample_state 0x800), gist sample_kpf (sample_state 0x800)]
    \<and> gist sample_kpf (sample_state 0) \<noteq> gist sample_kpf (sample_state 0x800)" by code_simp
  then have "remdups_adj (map (gist sample_kpf) [sample_state 0, sample_state 0x10, sample_state 0x800, sample_state 0x810])
      = [gist sample_kpf (sample_state 0), gist sample_kpf (sample_state 0x800)]" by (elim conjE) (simp only:, simp)
  with watch_reports_changes [OF d p] d show ?thesis by auto
qed

text \<open>\<open>write-test.cc\<close> on a file that exists, may be written and is not empty: what becomes of the file for every choice. Only \<open>overwrite\<close> loses old bytes.\<close>

theorem write_test_effects:
  assumes "c \<noteq> []"
  shows "write_test_main True True (p # choice # args) (Some c) =
      (if choice = ''overwrite'' then Inr (0, Some foo)
       else if choice = ''mmap'' then Inr (0, Some (take 2 c @ (if 2 < length c then [bump (c ! 2)] else []) @ drop 3 c))
       else if choice = ''append'' then Inr (0, Some (c @ foo))
       else if choice = ''seek'' then Inr (0, Some (take 1 c @ [CHR ''y''] @ drop 2 c))
       else Inr (1, Some c))"
proof -
  have "c[2 := bump (c ! 2)] = take 2 c @ bump (c ! 2) # drop 3 c" if "2 < length c" using that by (simp add: upd_conv_take_nth_drop)
  moreover have "poke 1 (CHR ''y'') c = take 1 c @ CHR ''y'' # drop 2 c" using assms by (cases c; cases "tl c") (auto simp: poke_def)
  ultimately show ?thesis using assms
    by (auto simp: write_test_main_def overwrite_file_def append_file_def seek_update_file_def shared_mmap_def)
qed

theorem write_test_effects_witness: "write_test_main True True [''write-test'', ''seek''] (Some ''foo'') = Inr (0, Some ''fyo'')"
  using write_test_effects [of "''foo''" "''write-test''" "''seek''" "[]"] by simp

end
