(* ===== verification/Spec2Isabelle.thy ===== *)
theory Spec2Isabelle
  imports Bitwise Print_Correct Read_Pageflags Malloc_Props Merge_Cases Procmap Vma_Correct
    Vma_Dev Mad Lru_Scan Fd_Server Uffd_Prog Pagemap_Tour Shmem Exper Xarray_Dump Read_Progs Private_File Block_File Fragment Mremap_Bench Pagestat_Example Read_Tour
    Anon_Tests File_Progs Fault_Around Vm_Flags Private_Watch
begin

text \<open>
  A verification of the experiments with memory management in this repository: two libraries and the commands that show the state of a process's pages
  (\<open>pagestat/\<close>, \<open>read-pageflags/\<close>), a copy of musl's allocator with its test (\<open>musl/oldmalloc.c\<close>, \<open>test-musl-malloc.c\<close>), a rewriting of a
  function of the kernel with its test (\<open>concepts/fault_around/\<close>), kernel modules with the programs that talk to them (\<open>kernel/\<close>, \<open>mad/\<close>,
  \<open>random/vma.c\<close>), programs that drive the kernel's mappings and files through system calls (\<open>random/\<close>, \<open>tools/\<close>) and some that exchange data with other
  processes (\<open>socket/\<close>, \<open>shmem/\<close>, \<open>userfaultfd/\<close>). C1 to C40 are the properties, each stated before its theorem in the theory that is named with it.

  Conventions. A C integer is a word of its width (\<open>u64\<close>, \<open>u32\<close>), or \<open>int\<close> and \<open>nat\<close> where the code stays in range;
  where it need not, the model has a branch for it. A C function that can go wrong returns \<open>cerr + 'a\<close>, or an option of that when its loop need not
  end. The members of \<open>cerr\<close> (theory \<open>MM_Prelude\<close>) are the ends of a C program: a null pointer used, an access out of bounds, a buffer overflow,
  the overflow of a signed counter, an abort, \<open>exit\<close> with a status. A pointer is an address, an index or the object itself, as the code needs. Messages on the standard
  error output are left out, with a few exceptions, and so is \<open>errno\<close>. What the kernel answers is a parameter; where a property relies on what the kernel
  promises, the promises are a locale, and an executable kernel is an interpretation of it.

  \<^bold>\<open>Foundations.\<close>
  \<^item> \<open>MM_Prelude\<close>: types, words, lists and lookups that all theories share.
  \<^item> \<open>C_Lib\<close>: the part of the C library the code uses: \<open>sscanf\<close> and \<open>printf\<close> conversions with the lemmas that scanning
    what was printed gives the number back.
  \<^item> \<open>Bitwise\<close>: \<open>include/bitwise.h\<close>, all of it.

  \<^bold>\<open>pagestat\<close> (\<open>pagestat/*.c\<close>). \<open>Maps_Parse\<close> parses the lines of \<open>/proc/pid/smaps\<close>; \<open>Pagestat\<close> is the
  part of \<open>pagestat.c\<close> that reads a snapshot (\<open>get_pagestat_snapshot\<close>, \<open>pagestat_snapshot_all\<close>, \<open>pagestat_free\<close>) with an
  \<open>io\<close> state that counts open streams and live blocks; \<open>Pagestat_Correct\<close> shows what a snapshot holds for the files as the kernel writes
  them (C4, C6): columns padded as the kernel pads them, names with blanks included. \<open>Pagestat_Print\<close> is the rest of the file and the two commands: the printing with its static variables
  (record of \<open>last_seen\<close> values) and the difference of two snapshots; \<open>Print_Correct\<close> relates the printing to the maximal runs of a page list
  and gives the behaviour of \<open>pagestat-cmd.c\<close> and \<open>watch-cmd.c\<close> (C5, C7, C8). \<open>Pagestat_Example\<close>: \<open>example.c\<close>, which uses the library on itself.
  The proc files are the parameter \<open>procfs\<close>.

  \<^bold>\<open>read-pageflags.\<close> \<open>Read_Pageflags\<close>: \<open>read-pageflags.c\<close>, whose devices and proc files are a parameter (C22).
  \<open>Read_Tour\<close>: \<open>read.c\<close>, which uses the library on every kind of mapping, and the small language of programs with weakest preconditions on which other
  theories rest. \<open>Private_Watch\<close>: \<open>map-private.cc\<close>, two threads that watch a page, and \<open>write-test.cc\<close>, which changes their file (C18).
  \<open>Read_Progs\<close>: \<open>simple/read.c\<close> and \<open>readahead.c\<close> (C34). \<open>Pagemap_Tour\<close>: \<open>random/pagemap_tour.c\<close>.

  \<^bold>\<open>The allocator.\<close> \<open>Oldmalloc\<close> models \<open>musl/oldmalloc.c\<close> on a record that holds the words of memory, the heads of the bins, the
  bitmap and the statistics; the operating system is the parameter \<open>os\<close>, which answers \<open>sbrk\<close> and \<open>mmap\<close>. \<open>Malloc_Bins\<close> has the facts
  about the circular lists and the size classes, \<open>Malloc_Heap\<close> the tiling of the heap by chunks and the invariant, \<open>Malloc_Alloc\<close> and
  \<open>Malloc_Correct\<close> the preservation by allocation and release, \<open>Malloc_Props\<close> the properties (C1, C2, C9 to C12).
  \<open>sbrk\<close> returns a pointer, so its refusal goes unnoticed; the stores of \<open>expand_heap\<close> fail where the process has no memory
  (\<open>header_mapped\<close>), as they do after a refused \<open>sbrk\<close> (\<open>sbrk_failure_unnoticed\<close>), and C1, C3 and C12 are for a system that grants it.
  \<open>Allocator\<close> states the contract of an allocator as a locale, with the loops of \<open>test-musl-malloc.c\<close> proved against it;
  \<open>Malloc_Test\<close> interprets the locale on the model, from which C3 follows. The contract speaks of a \<open>room\<close>: each request may take 256 KiB of it, and the heap
  may still grow by the room that is left without meeting the end of the address space or another mapping (\<open>alloc_ok\<close>). The
  loops over bins and lists are \<open>partial_function (option)\<close>; that they end is C10 and part of C1.

  \<^bold>\<open>The window of a fault.\<close> \<open>Fault_Around\<close>: \<open>concepts/fault_around/\<close>. The kernel's computation and the three that are to replace it are equal on every fault
  the kernel can hand over, with every window up to a page table (C13), they choose the pages the specification \<open>around\<close> gives (C14), and the random test can never
  fail (C15).

  \<^bold>\<open>System calls on anonymous memory.\<close> \<open>Vm_Prog\<close>: a program is a tree of the calls it makes, the kernel an interface, the locales \<open>vm_kernel\<close> and
  \<open>tool_kernel\<close>, which say what a successful call does to the pages of the process and when it succeeds. \<open>Vm_Kernel\<close> is an executable kernel
  that keeps the promises (the interpretation \<open>pk\<close>). \<open>Range_Prog\<close> treats sequences of calls on one range of pages by their effect on the
  list of the pages, the \<open>layout\<close>, and has the trace of a run, \<open>calls\<close>, by which a property says that a program gives up only when a call was refused.
  On these rest \<open>Merge_Cases\<close> (\<open>random/merge_cases.c\<close>, C19), \<open>Procmap\<close> (\<open>random/procmap.c\<close>,
  C20, C21), \<open>Vma_Tests\<close> with \<open>Vma_Correct\<close> (\<open>mremap_unmap.c\<close>, \<open>split_vma.c\<close>, \<open>merge_split.c\<close>,
  \<open>mprotect_shrinking.c\<close>, \<open>munmap.c\<close>, \<open>mmap_simple_fixed.c\<close>, \<open>random_unmap.c\<close> of \<open>random/\<close>, C23, C24), \<open>Mremap_Bench\<close>
  (\<open>random/mremap_bench.c\<close>, with an interface \<open>byte_kernel\<close> for the content of memory, C36) and \<open>Anon_Tests\<close> (seven small tests of \<open>random/\<close>, C37).

  \<^bold>\<open>Files and the memory mapped from them.\<close> \<open>File_Kernel\<close>: the interface \<open>file_kernel\<close> of a kernel with objects, descriptors and mappings of them, which may refuse
  every call and fail every access, \<open>roomy_kernel\<close>, which fails none to a mapped page, and an executable one. \<open>File_Progs\<close>: 29 small programs of \<open>random/\<close>, \<open>tools/big_dirty.c\<close> and \<open>repros/repro_split2.c\<close> on it (C38, C39); a loop
  without end has the number of turns as an argument. \<open>Private_File\<close>: \<open>random/private2.c\<close> (C35). \<open>Block_File\<close>: \<open>block_exper/\<close>.

  \<^bold>\<open>Modules and their programs.\<close> \<open>Char_Dev\<close>: the functions of the kernel's library the modules use, a record of parameters with the law
  \<open>klib_ok\<close> and a sample that fulfils it, and a program's buffered stream on a device. \<open>Vma_Dev\<close>: \<open>kernel/vmaflags\<close>, \<open>kernel/vmainfo\<close>,
  \<open>random/shared.c\<close> and \<open>random/vma.c\<close> (C25). \<open>Vm_Flags\<close>: \<open>tools/vm_flags.cc\<close>, which names the same flags (C16) and understands what the module prints (C17).
  \<open>Mad\<close>: \<open>mad/kernel/mad.c\<close> as a state machine over the writes to its devices, one after the other, with the race of two writes at the same time (\<open>mad_race_leaks\<close>), and the program \<open>mad/mad.c\<close> (C26). \<open>Exper\<close>: \<open>kernel/exper\<close> (C31, C32).
  \<open>Xarray_Dump\<close>: \<open>kernel/xarray\<close> (C33). \<open>Fragment\<close>: \<open>kernel/fragment2\<close> (C40) and \<open>kernel/fragment\<close>, which does not keep to what \<open>split_page\<close> asks for.

  \<^bold>\<open>Processes that exchange data.\<close> \<open>Fd_Server\<close>: \<open>socket/\<close> (C28). \<open>Shmem\<close>: \<open>shmem/\<close>, the runs of a server and a client as a step relation (C29, C30).
  \<open>Userfaultfd\<close> and \<open>Uffd_Prog\<close>: the handler of events of \<open>userfaultfd/shared.c\<close>, its thread and the three programs. \<open>Lru_Scan\<close>: \<open>random/scan.c\<close> (C27).

  \<^bold>\<open>Not modelled.\<close>
  \<^item> The reproducers that syzkaller generated (\<open>repros/\<close> without \<open>repro2.c\<close> and \<open>repro_split2.c\<close>, and \<open>random/start_end_repro.c\<close>): raw system calls with
    the generator's run-time support, which are meant to provoke an error inside a kernel.
  \<^item> \<open>repros/repro2.c\<close> and ten programs of \<open>random/\<close> (\<open>vma_merge_repro\<close>, \<open>mergey\<close>, \<open>mremap_repro\<close>, \<open>hugetlb_repro\<close>, \<open>memfd_repro\<close>, \<open>remap\<close>,
    \<open>rss\<close>, \<open>mprotect\<close>, \<open>overwrite\<close>, \<open>map_shared\<close>): straight-line calls that show what the kernel does and have no logic of their own.
  \<^item> The programs that fork in order to be watched from outside: \<open>forky\<close>, \<open>forky2\<close>, \<open>fork_shared_anon\<close>, \<open>uncow\<close>, \<open>shared_rss\<close> of \<open>random/\<close>.
  \<^item> \<open>section-pointers.c\<close> prints addresses the linker chooses, and \<open>random/rlimit.c\<close> does not compile.
  \<^item> In modelled parts: messages on the standard error output, the text of usage messages, registration of devices, code that the compiled options leave out or that
    no path reaches, and the endless repetition of the threads of \<open>fault_around.cc\<close>.
\<close>

end
